(* ===== verification/Prelude.thy ===== *)
theory Prelude
  imports Main "HOL-Library.Word" "HOL-Library.Signed_Division"
begin

text \<open>
  Shared vocabulary of the development: the machine integer types of the C sources, the C
  conversions between them, the \<open>long long\<close> limits, and the generic lemmas on words, options
  and lists that the component theories use. The three theorem collections are
  \<open>vm_simps\<close> (unfolding of the handlers' skeletons), \<open>c_casts\<close> (C conversions as bit
  operations) and \<open>peep_simps\<close> (unfolding of the analysis' small helpers).
\<close>

unbundle bit_operations_syntax

named_theorems vm_simps
named_theorems c_casts
named_theorems peep_simps

type_synonym u8 = "8 word"
type_synonym u16 = "16 word"
type_synonym u32 = "32 word"
type_synonym u64 = "64 word"

subsection \<open>The limits of long long\<close>

definition LLONG_MIN :: int where
  "LLONG_MIN = - (2 ^ 63)"

definition LLONG_MAX :: int where
  "LLONG_MAX = 2 ^ 63 - 1"

definition INT_MIN :: int where
  "INT_MIN = - (2 ^ 31)"

definition INT_MAX :: int where
  "INT_MAX = 2 ^ 31 - 1"

definition ll_range :: "int \<Rightarrow> bool" where
  "ll_range v \<longleftrightarrow> LLONG_MIN \<le> v \<and> v \<le> LLONG_MAX"

lemmas limits = LLONG_MIN_def LLONG_MAX_def INT_MIN_def INT_MAX_def

lemma sint64_bounds: "- (2 ^ 63) \<le> sint (x :: u64)" "sint (x :: u64) < 2 ^ 63"
  using sint_ge [of x] sint_lt [of x] by simp_all

lemma ll_range_sint [simp, intro]: "ll_range (sint (x :: u64))"
  using sint64_bounds [of x] by (simp add: ll_range_def limits)

lemma signed_take_bit_ll: "ll_range v \<Longrightarrow> signed_take_bit 63 v = v"
  by (simp add: ll_range_def limits signed_take_bit_int_eq_self_iff)

lemma sint_word_of_int_ll: "ll_range v \<Longrightarrow> sint (word_of_int v :: u64) = v"
  by (simp add: signed_of_int signed_take_bit_ll)

lemma sint_eq_iff64: "sint (x :: u64) = sint y \<longleftrightarrow> x = y"
  by (metis signed_word_eqI)

lemma uint_sint_nonneg: "0 \<le> sint (x :: u64) \<Longrightarrow> uint x = sint x"
  using sint64_bounds [of x] by (simp add: uint_sint take_bit_int_eq_self_iff)

subsection \<open>C conversions between integer types\<close>

text \<open>
  \<open>(T)x\<close> for a narrower \<open>T\<close> keeps the low bits; widening back to \<open>long long\<close> repeats the
  sign bit for a signed \<open>T\<close> and inserts zeros for an unsigned one.
\<close>

definition c_sext :: "nat \<Rightarrow> u64 \<Rightarrow> u64" where
  "c_sext n x = signed_take_bit (n - 1) x"

definition c_zext :: "nat \<Rightarrow> u64 \<Rightarrow> u64" where
  "c_zext n x = take_bit n x"

definition c_bool :: "bool \<Rightarrow> u64" where
  "c_bool b = (if b then 1 else 0)"

definition c_sdiv :: "u64 \<Rightarrow> u64 \<Rightarrow> u64" where
  "c_sdiv a b = word_of_int (sint a sdiv sint b)"

definition c_smod :: "u64 \<Rightarrow> u64 \<Rightarrow> u64" where
  "c_smod a b = word_of_int (sint a smod sint b)"

lemma c_bool_simps [simp]: "c_bool True = 1" "c_bool False = 0"
  by (simp_all add: c_bool_def)

end
