(* ===== verification/Opcodes.thy ===== *)
theory Opcodes
  imports Prelude
begin

text \<open>
  The instruction set: the opcode numbers of the enumeration \<open>CCCC_OP\<close> (\<open>src/src/cccc.h\<close>,
  expanded from the macro list \<open>OPS_X\<close>) in its order, and the operand-word table that
  \<open>cc_opcode_operand_words\<close> and \<open>cc_instr_words\<close> (\<open>src/src/internal.h\<close>) read.
  A C enumerator is an integer constant, so an opcode is a \<open>nat\<close> and each enumerator an
  abbreviation for its number; a \<open>switch\<close> is a chain of membership tests.
\<close>

type_synonym opcode = nat

subsection \<open>The enumeration\<close>

abbreviation (input) JMP :: opcode where
  "JMP \<equiv> 0"

abbreviation (input) CALL :: opcode where
  "CALL \<equiv> 1"

abbreviation (input) CALLT :: opcode where
  "CALLT \<equiv> 2"

abbreviation (input) CALLI :: opcode where
  "CALLI \<equiv> 3"

abbreviation (input) CALLN :: opcode where
  "CALLN \<equiv> 4"

abbreviation (input) JMPT :: opcode where
  "JMPT \<equiv> 5"

abbreviation (input) JMPI :: opcode where
  "JMPI \<equiv> 6"

abbreviation (input) MALC :: opcode where
  "MALC \<equiv> 7"

abbreviation (input) ALCA :: opcode where
  "ALCA \<equiv> 8"

abbreviation (input) MFRE :: opcode where
  "MFRE \<equiv> 9"

abbreviation (input) MCPY :: opcode where
  "MCPY \<equiv> 10"

abbreviation (input) MSET :: opcode where
  "MSET \<equiv> 11"

abbreviation (input) REALC :: opcode where
  "REALC \<equiv> 12"

abbreviation (input) CALC :: opcode where
  "CALC \<equiv> 13"

abbreviation (input) REALCA :: opcode where
  "REALCA \<equiv> 14"

abbreviation (input) MALCA :: opcode where
  "MALCA \<equiv> 15"

abbreviation (input) PMEMA :: opcode where
  "PMEMA \<equiv> 16"

abbreviation (input) SX1 :: opcode where
  "SX1 \<equiv> 17"

abbreviation (input) SX2 :: opcode where
  "SX2 \<equiv> 18"

abbreviation (input) SX4 :: opcode where
  "SX4 \<equiv> 19"

abbreviation (input) ZX1 :: opcode where
  "ZX1 \<equiv> 20"

abbreviation (input) ZX2 :: opcode where
  "ZX2 \<equiv> 21"

abbreviation (input) ZX4 :: opcode where
  "ZX4 \<equiv> 22"

abbreviation (input) CALLF :: opcode where
  "CALLF \<equiv> 23"

abbreviation (input) DLOPEN :: opcode where
  "DLOPEN \<equiv> 24"

abbreviation (input) DLSYM :: opcode where
  "DLSYM \<equiv> 25"

abbreviation (input) DLCLOSE :: opcode where
  "DLCLOSE \<equiv> 26"

abbreviation (input) DLERROR :: opcode where
  "DLERROR \<equiv> 27"

abbreviation (input) CHKB :: opcode where
  "CHKB \<equiv> 28"

abbreviation (input) CHKI :: opcode where
  "CHKI \<equiv> 29"

abbreviation (input) MARKI :: opcode where
  "MARKI \<equiv> 30"

abbreviation (input) CHKPA :: opcode where
  "CHKPA \<equiv> 31"

abbreviation (input) MARKP :: opcode where
  "MARKP \<equiv> 32"

abbreviation (input) SCOPEIN :: opcode where
  "SCOPEIN \<equiv> 33"

abbreviation (input) SCOPEOUT :: opcode where
  "SCOPEOUT \<equiv> 34"

abbreviation (input) CHKL :: opcode where
  "CHKL \<equiv> 35"

abbreviation (input) MARKR :: opcode where
  "MARKR \<equiv> 36"

abbreviation (input) MARKW :: opcode where
  "MARKW \<equiv> 37"

abbreviation (input) SETJMP :: opcode where
  "SETJMP \<equiv> 38"

abbreviation (input) LONGJMP :: opcode where
  "LONGJMP \<equiv> 39"

abbreviation (input) ADD3 :: opcode where
  "ADD3 \<equiv> 40"

abbreviation (input) SUB3 :: opcode where
  "SUB3 \<equiv> 41"

abbreviation (input) MUL3 :: opcode where
  "MUL3 \<equiv> 42"

abbreviation (input) DIV3 :: opcode where
  "DIV3 \<equiv> 43"

abbreviation (input) ADDC :: opcode where
  "ADDC \<equiv> 44"

abbreviation (input) SUBC :: opcode where
  "SUBC \<equiv> 45"

abbreviation (input) MULC :: opcode where
  "MULC \<equiv> 46"

abbreviation (input) DIVC :: opcode where
  "DIVC \<equiv> 47"

abbreviation (input) UDIV3 :: opcode where
  "UDIV3 \<equiv> 48"

abbreviation (input) MOD3 :: opcode where
  "MOD3 \<equiv> 49"

abbreviation (input) UMOD3 :: opcode where
  "UMOD3 \<equiv> 50"

abbreviation (input) AND3 :: opcode where
  "AND3 \<equiv> 51"

abbreviation (input) OR3 :: opcode where
  "OR3 \<equiv> 52"

abbreviation (input) XOR3 :: opcode where
  "XOR3 \<equiv> 53"

abbreviation (input) SHL3 :: opcode where
  "SHL3 \<equiv> 54"

abbreviation (input) SHR3 :: opcode where
  "SHR3 \<equiv> 55"

abbreviation (input) USHR3 :: opcode where
  "USHR3 \<equiv> 56"

abbreviation (input) WIDE_ADD :: opcode where
  "WIDE_ADD \<equiv> 57"

abbreviation (input) WIDE_SUB :: opcode where
  "WIDE_SUB \<equiv> 58"

abbreviation (input) WIDE_MUL :: opcode where
  "WIDE_MUL \<equiv> 59"

abbreviation (input) WIDE_DIV :: opcode where
  "WIDE_DIV \<equiv> 60"

abbreviation (input) WIDE_MOD :: opcode where
  "WIDE_MOD \<equiv> 61"

abbreviation (input) WIDE_SHL :: opcode where
  "WIDE_SHL \<equiv> 62"

abbreviation (input) WIDE_SHR :: opcode where
  "WIDE_SHR \<equiv> 63"

abbreviation (input) WIDE_USHR :: opcode where
  "WIDE_USHR \<equiv> 64"

abbreviation (input) SEQ3 :: opcode where
  "SEQ3 \<equiv> 65"

abbreviation (input) SNE3 :: opcode where
  "SNE3 \<equiv> 66"

abbreviation (input) SLT3 :: opcode where
  "SLT3 \<equiv> 67"

abbreviation (input) SGE3 :: opcode where
  "SGE3 \<equiv> 68"

abbreviation (input) SGT3 :: opcode where
  "SGT3 \<equiv> 69"

abbreviation (input) SLE3 :: opcode where
  "SLE3 \<equiv> 70"

abbreviation (input) ULT3 :: opcode where
  "ULT3 \<equiv> 71"

abbreviation (input) ULE3 :: opcode where
  "ULE3 \<equiv> 72"

abbreviation (input) LI3 :: opcode where
  "LI3 \<equiv> 73"

abbreviation (input) LDA3 :: opcode where
  "LDA3 \<equiv> 74"

abbreviation (input) LDTLS3 :: opcode where
  "LDTLS3 \<equiv> 75"

abbreviation (input) LTA3 :: opcode where
  "LTA3 \<equiv> 76"

abbreviation (input) MOV3 :: opcode where
  "MOV3 \<equiv> 77"

abbreviation (input) NEG3 :: opcode where
  "NEG3 \<equiv> 78"

abbreviation (input) NOT3 :: opcode where
  "NOT3 \<equiv> 79"

abbreviation (input) BNOT3 :: opcode where
  "BNOT3 \<equiv> 80"

abbreviation (input) ADDI3 :: opcode where
  "ADDI3 \<equiv> 81"

abbreviation (input) LEA3 :: opcode where
  "LEA3 \<equiv> 82"

abbreviation (input) STKTAG :: opcode where
  "STKTAG \<equiv> 83"

abbreviation (input) JZ3 :: opcode where
  "JZ3 \<equiv> 84"

abbreviation (input) JNZ3 :: opcode where
  "JNZ3 \<equiv> 85"

abbreviation (input) ENT3 :: opcode where
  "ENT3 \<equiv> 86"

abbreviation (input) LEV3 :: opcode where
  "LEV3 \<equiv> 87"

abbreviation (input) ADJ :: opcode where
  "ADJ \<equiv> 88"

abbreviation (input) PSH3 :: opcode where
  "PSH3 \<equiv> 89"

abbreviation (input) POP3 :: opcode where
  "POP3 \<equiv> 90"

abbreviation (input) LDR_B :: opcode where
  "LDR_B \<equiv> 91"

abbreviation (input) LDR_H :: opcode where
  "LDR_H \<equiv> 92"

abbreviation (input) LDR_W :: opcode where
  "LDR_W \<equiv> 93"

abbreviation (input) LDR_D :: opcode where
  "LDR_D \<equiv> 94"

abbreviation (input) STR_B :: opcode where
  "STR_B \<equiv> 95"

abbreviation (input) STR_H :: opcode where
  "STR_H \<equiv> 96"

abbreviation (input) STR_W :: opcode where
  "STR_W \<equiv> 97"

abbreviation (input) STR_D :: opcode where
  "STR_D \<equiv> 98"

abbreviation (input) ALDR :: opcode where
  "ALDR \<equiv> 99"

abbreviation (input) ASTR :: opcode where
  "ASTR \<equiv> 100"

abbreviation (input) AXCHG :: opcode where
  "AXCHG \<equiv> 101"

abbreviation (input) ACAS :: opcode where
  "ACAS \<equiv> 102"

abbreviation (input) FLDR :: opcode where
  "FLDR \<equiv> 103"

abbreviation (input) FSTR :: opcode where
  "FSTR \<equiv> 104"

abbreviation (input) FADD3 :: opcode where
  "FADD3 \<equiv> 105"

abbreviation (input) FSUB3 :: opcode where
  "FSUB3 \<equiv> 106"

abbreviation (input) FMUL3 :: opcode where
  "FMUL3 \<equiv> 107"

abbreviation (input) FDIV3 :: opcode where
  "FDIV3 \<equiv> 108"

abbreviation (input) FMOV3 :: opcode where
  "FMOV3 \<equiv> 109"

abbreviation (input) FNEG3 :: opcode where
  "FNEG3 \<equiv> 110"

abbreviation (input) FEQ3 :: opcode where
  "FEQ3 \<equiv> 111"

abbreviation (input) FNE3 :: opcode where
  "FNE3 \<equiv> 112"

abbreviation (input) FLT3 :: opcode where
  "FLT3 \<equiv> 113"

abbreviation (input) FLE3 :: opcode where
  "FLE3 \<equiv> 114"

abbreviation (input) FGT3 :: opcode where
  "FGT3 \<equiv> 115"

abbreviation (input) FGE3 :: opcode where
  "FGE3 \<equiv> 116"

abbreviation (input) I2F3 :: opcode where
  "I2F3 \<equiv> 117"

abbreviation (input) F2I3 :: opcode where
  "F2I3 \<equiv> 118"

abbreviation (input) U2F3 :: opcode where
  "U2F3 \<equiv> 119"

abbreviation (input) F2U3 :: opcode where
  "F2U3 \<equiv> 120"

abbreviation (input) FR2R :: opcode where
  "FR2R \<equiv> 121"

abbreviation (input) R2FR :: opcode where
  "R2FR \<equiv> 122"

abbreviation (input) FADD3_F32 :: opcode where
  "FADD3_F32 \<equiv> 123"

abbreviation (input) FSUB3_F32 :: opcode where
  "FSUB3_F32 \<equiv> 124"

abbreviation (input) FMUL3_F32 :: opcode where
  "FMUL3_F32 \<equiv> 125"

abbreviation (input) FDIV3_F32 :: opcode where
  "FDIV3_F32 \<equiv> 126"

abbreviation (input) FNEG3_F32 :: opcode where
  "FNEG3_F32 \<equiv> 127"

abbreviation (input) FEQ3_F32 :: opcode where
  "FEQ3_F32 \<equiv> 128"

abbreviation (input) FNE3_F32 :: opcode where
  "FNE3_F32 \<equiv> 129"

abbreviation (input) FLT3_F32 :: opcode where
  "FLT3_F32 \<equiv> 130"

abbreviation (input) FLE3_F32 :: opcode where
  "FLE3_F32 \<equiv> 131"

abbreviation (input) FGT3_F32 :: opcode where
  "FGT3_F32 \<equiv> 132"

abbreviation (input) FGE3_F32 :: opcode where
  "FGE3_F32 \<equiv> 133"

abbreviation (input) I2F3_F32 :: opcode where
  "I2F3_F32 \<equiv> 134"

abbreviation (input) F2I3_F32 :: opcode where
  "F2I3_F32 \<equiv> 135"

abbreviation (input) U2F3_F32 :: opcode where
  "U2F3_F32 \<equiv> 136"

abbreviation (input) F2U3_F32 :: opcode where
  "F2U3_F32 \<equiv> 137"

abbreviation (input) FR2R_F32 :: opcode where
  "FR2R_F32 \<equiv> 138"

abbreviation (input) R2FR_F32 :: opcode where
  "R2FR_F32 \<equiv> 139"

abbreviation (input) CHKP3 :: opcode where
  "CHKP3 \<equiv> 140"

abbreviation (input) CHKA3 :: opcode where
  "CHKA3 \<equiv> 141"

abbreviation (input) CHKT3 :: opcode where
  "CHKT3 \<equiv> 142"

abbreviation (input) RETBUF :: opcode where
  "RETBUF \<equiv> 143"

abbreviation (input) FLDR_F32 :: opcode where
  "FLDR_F32 \<equiv> 144"

abbreviation (input) FSTR_F32 :: opcode where
  "FSTR_F32 \<equiv> 145"

abbreviation (input) FROUND_F32 :: opcode where
  "FROUND_F32 \<equiv> 146"

abbreviation (input) BTRAP :: opcode where
  "BTRAP \<equiv> 147"

abbreviation (input) VSIGNAL :: opcode where
  "VSIGNAL \<equiv> 148"

abbreviation (input) VRAISE :: opcode where
  "VRAISE \<equiv> 149"

abbreviation (input) CLZ :: opcode where
  "CLZ \<equiv> 150"

abbreviation (input) CTZ :: opcode where
  "CTZ \<equiv> 151"

abbreviation (input) POPCOUNT :: opcode where
  "POPCOUNT \<equiv> 152"

abbreviation (input) FFS :: opcode where
  "FFS \<equiv> 153"

abbreviation (input) BSWAP :: opcode where
  "BSWAP \<equiv> 154"

abbreviation (input) IOVFL :: opcode where
  "IOVFL \<equiv> 155"

abbreviation (input) LDR_LOCAL_B :: opcode where
  "LDR_LOCAL_B \<equiv> 156"

abbreviation (input) LDR_LOCAL_H :: opcode where
  "LDR_LOCAL_H \<equiv> 157"

abbreviation (input) LDR_LOCAL_W :: opcode where
  "LDR_LOCAL_W \<equiv> 158"

abbreviation (input) LDR_LOCAL_D :: opcode where
  "LDR_LOCAL_D \<equiv> 159"

abbreviation (input) STR_LOCAL_B :: opcode where
  "STR_LOCAL_B \<equiv> 160"

abbreviation (input) STR_LOCAL_H :: opcode where
  "STR_LOCAL_H \<equiv> 161"

abbreviation (input) STR_LOCAL_W :: opcode where
  "STR_LOCAL_W \<equiv> 162"

abbreviation (input) STR_LOCAL_D :: opcode where
  "STR_LOCAL_D \<equiv> 163"

abbreviation (input) FLDR_LOCAL :: opcode where
  "FLDR_LOCAL \<equiv> 164"

abbreviation (input) FSTR_LOCAL :: opcode where
  "FSTR_LOCAL \<equiv> 165"

abbreviation (input) FLDR_LOCAL_F32 :: opcode where
  "FLDR_LOCAL_F32 \<equiv> 166"

abbreviation (input) FSTR_LOCAL_F32 :: opcode where
  "FSTR_LOCAL_F32 \<equiv> 167"

abbreviation (input) RETADDR :: opcode where
  "RETADDR \<equiv> 168"

abbreviation (input) DYNOBJSZ :: opcode where
  "DYNOBJSZ \<equiv> 169"

abbreviation (input) VLDR :: opcode where
  "VLDR \<equiv> 170"

abbreviation (input) VSTR :: opcode where
  "VSTR \<equiv> 171"

abbreviation (input) VMOV3 :: opcode where
  "VMOV3 \<equiv> 172"

abbreviation (input) VSPLAT_F64 :: opcode where
  "VSPLAT_F64 \<equiv> 173"

abbreviation (input) VSPLAT_F32 :: opcode where
  "VSPLAT_F32 \<equiv> 174"

abbreviation (input) VSPLAT_I64 :: opcode where
  "VSPLAT_I64 \<equiv> 175"

abbreviation (input) VSPLAT_I32 :: opcode where
  "VSPLAT_I32 \<equiv> 176"

abbreviation (input) VSPLAT_I16 :: opcode where
  "VSPLAT_I16 \<equiv> 177"

abbreviation (input) VSPLAT_I8 :: opcode where
  "VSPLAT_I8 \<equiv> 178"

abbreviation (input) VEXTRACT_F64 :: opcode where
  "VEXTRACT_F64 \<equiv> 179"

abbreviation (input) VEXTRACT_F32 :: opcode where
  "VEXTRACT_F32 \<equiv> 180"

abbreviation (input) VEXTRACT_I64 :: opcode where
  "VEXTRACT_I64 \<equiv> 181"

abbreviation (input) VEXTRACT_I32 :: opcode where
  "VEXTRACT_I32 \<equiv> 182"

abbreviation (input) VEXTRACT_I16 :: opcode where
  "VEXTRACT_I16 \<equiv> 183"

abbreviation (input) VEXTRACT_I8 :: opcode where
  "VEXTRACT_I8 \<equiv> 184"

abbreviation (input) VINSERT_F64 :: opcode where
  "VINSERT_F64 \<equiv> 185"

abbreviation (input) VINSERT_F32 :: opcode where
  "VINSERT_F32 \<equiv> 186"

abbreviation (input) VINSERT_I64 :: opcode where
  "VINSERT_I64 \<equiv> 187"

abbreviation (input) VINSERT_I32 :: opcode where
  "VINSERT_I32 \<equiv> 188"

abbreviation (input) VINSERT_I16 :: opcode where
  "VINSERT_I16 \<equiv> 189"

abbreviation (input) VINSERT_I8 :: opcode where
  "VINSERT_I8 \<equiv> 190"

abbreviation (input) VADD_F64 :: opcode where
  "VADD_F64 \<equiv> 191"

abbreviation (input) VSUB_F64 :: opcode where
  "VSUB_F64 \<equiv> 192"

abbreviation (input) VMUL_F64 :: opcode where
  "VMUL_F64 \<equiv> 193"

abbreviation (input) VDIV_F64 :: opcode where
  "VDIV_F64 \<equiv> 194"

abbreviation (input) VNEG_F64 :: opcode where
  "VNEG_F64 \<equiv> 195"

abbreviation (input) VADD_F32 :: opcode where
  "VADD_F32 \<equiv> 196"

abbreviation (input) VSUB_F32 :: opcode where
  "VSUB_F32 \<equiv> 197"

abbreviation (input) VMUL_F32 :: opcode where
  "VMUL_F32 \<equiv> 198"

abbreviation (input) VDIV_F32 :: opcode where
  "VDIV_F32 \<equiv> 199"

abbreviation (input) VNEG_F32 :: opcode where
  "VNEG_F32 \<equiv> 200"

abbreviation (input) VADD_I64 :: opcode where
  "VADD_I64 \<equiv> 201"

abbreviation (input) VSUB_I64 :: opcode where
  "VSUB_I64 \<equiv> 202"

abbreviation (input) VMUL_I64 :: opcode where
  "VMUL_I64 \<equiv> 203"

abbreviation (input) VNEG_I64 :: opcode where
  "VNEG_I64 \<equiv> 204"

abbreviation (input) VADD_I32 :: opcode where
  "VADD_I32 \<equiv> 205"

abbreviation (input) VSUB_I32 :: opcode where
  "VSUB_I32 \<equiv> 206"

abbreviation (input) VMUL_I32 :: opcode where
  "VMUL_I32 \<equiv> 207"

abbreviation (input) VNEG_I32 :: opcode where
  "VNEG_I32 \<equiv> 208"

abbreviation (input) VADD_I16 :: opcode where
  "VADD_I16 \<equiv> 209"

abbreviation (input) VSUB_I16 :: opcode where
  "VSUB_I16 \<equiv> 210"

abbreviation (input) VMUL_I16 :: opcode where
  "VMUL_I16 \<equiv> 211"

abbreviation (input) VNEG_I16 :: opcode where
  "VNEG_I16 \<equiv> 212"

abbreviation (input) VADD_I8 :: opcode where
  "VADD_I8 \<equiv> 213"

abbreviation (input) VSUB_I8 :: opcode where
  "VSUB_I8 \<equiv> 214"

abbreviation (input) VMUL_I8 :: opcode where
  "VMUL_I8 \<equiv> 215"

abbreviation (input) VNEG_I8 :: opcode where
  "VNEG_I8 \<equiv> 216"

abbreviation (input) VAND :: opcode where
  "VAND \<equiv> 217"

abbreviation (input) VOR :: opcode where
  "VOR \<equiv> 218"

abbreviation (input) VXOR :: opcode where
  "VXOR \<equiv> 219"

abbreviation (input) VNOT :: opcode where
  "VNOT \<equiv> 220"

abbreviation (input) VDIV_I64 :: opcode where
  "VDIV_I64 \<equiv> 221"

abbreviation (input) VDIV_I32 :: opcode where
  "VDIV_I32 \<equiv> 222"

abbreviation (input) VDIV_I16 :: opcode where
  "VDIV_I16 \<equiv> 223"

abbreviation (input) VDIV_I8 :: opcode where
  "VDIV_I8 \<equiv> 224"

abbreviation (input) VMOD_I64 :: opcode where
  "VMOD_I64 \<equiv> 225"

abbreviation (input) VMOD_I32 :: opcode where
  "VMOD_I32 \<equiv> 226"

abbreviation (input) VMOD_I16 :: opcode where
  "VMOD_I16 \<equiv> 227"

abbreviation (input) VMOD_I8 :: opcode where
  "VMOD_I8 \<equiv> 228"

abbreviation (input) VCEQ_F64 :: opcode where
  "VCEQ_F64 \<equiv> 229"

abbreviation (input) VCNE_F64 :: opcode where
  "VCNE_F64 \<equiv> 230"

abbreviation (input) VCLT_F64 :: opcode where
  "VCLT_F64 \<equiv> 231"

abbreviation (input) VCLE_F64 :: opcode where
  "VCLE_F64 \<equiv> 232"

abbreviation (input) VCEQ_F32 :: opcode where
  "VCEQ_F32 \<equiv> 233"

abbreviation (input) VCNE_F32 :: opcode where
  "VCNE_F32 \<equiv> 234"

abbreviation (input) VCLT_F32 :: opcode where
  "VCLT_F32 \<equiv> 235"

abbreviation (input) VCLE_F32 :: opcode where
  "VCLE_F32 \<equiv> 236"

abbreviation (input) VCEQ_I64 :: opcode where
  "VCEQ_I64 \<equiv> 237"

abbreviation (input) VCNE_I64 :: opcode where
  "VCNE_I64 \<equiv> 238"

abbreviation (input) VCLT_I64 :: opcode where
  "VCLT_I64 \<equiv> 239"

abbreviation (input) VCLE_I64 :: opcode where
  "VCLE_I64 \<equiv> 240"

abbreviation (input) VCLTU_I64 :: opcode where
  "VCLTU_I64 \<equiv> 241"

abbreviation (input) VCLEU_I64 :: opcode where
  "VCLEU_I64 \<equiv> 242"

abbreviation (input) VCEQ_I32 :: opcode where
  "VCEQ_I32 \<equiv> 243"

abbreviation (input) VCNE_I32 :: opcode where
  "VCNE_I32 \<equiv> 244"

abbreviation (input) VCLT_I32 :: opcode where
  "VCLT_I32 \<equiv> 245"

abbreviation (input) VCLE_I32 :: opcode where
  "VCLE_I32 \<equiv> 246"

abbreviation (input) VCLTU_I32 :: opcode where
  "VCLTU_I32 \<equiv> 247"

abbreviation (input) VCLEU_I32 :: opcode where
  "VCLEU_I32 \<equiv> 248"

abbreviation (input) VCEQ_I16 :: opcode where
  "VCEQ_I16 \<equiv> 249"

abbreviation (input) VCNE_I16 :: opcode where
  "VCNE_I16 \<equiv> 250"

abbreviation (input) VCLT_I16 :: opcode where
  "VCLT_I16 \<equiv> 251"

abbreviation (input) VCLE_I16 :: opcode where
  "VCLE_I16 \<equiv> 252"

abbreviation (input) VCLTU_I16 :: opcode where
  "VCLTU_I16 \<equiv> 253"

abbreviation (input) VCLEU_I16 :: opcode where
  "VCLEU_I16 \<equiv> 254"

abbreviation (input) VCEQ_I8 :: opcode where
  "VCEQ_I8 \<equiv> 255"

abbreviation (input) VCNE_I8 :: opcode where
  "VCNE_I8 \<equiv> 256"

abbreviation (input) VCLT_I8 :: opcode where
  "VCLT_I8 \<equiv> 257"

abbreviation (input) VCLE_I8 :: opcode where
  "VCLE_I8 \<equiv> 258"

abbreviation (input) VCLTU_I8 :: opcode where
  "VCLTU_I8 \<equiv> 259"

abbreviation (input) VCLEU_I8 :: opcode where
  "VCLEU_I8 \<equiv> 260"

abbreviation (input) VSEL_8 :: opcode where
  "VSEL_8 \<equiv> 261"

abbreviation (input) VSEL_16 :: opcode where
  "VSEL_16 \<equiv> 262"

abbreviation (input) VSEL_32 :: opcode where
  "VSEL_32 \<equiv> 263"

abbreviation (input) VSEL_64 :: opcode where
  "VSEL_64 \<equiv> 264"

abbreviation (input) VCVT_I32_F32 :: opcode where
  "VCVT_I32_F32 \<equiv> 265"

abbreviation (input) VCVT_F32_I32 :: opcode where
  "VCVT_F32_I32 \<equiv> 266"

abbreviation (input) VCVT_I64_F64 :: opcode where
  "VCVT_I64_F64 \<equiv> 267"

abbreviation (input) VCVT_F64_I64 :: opcode where
  "VCVT_F64_I64 \<equiv> 268"

abbreviation (input) DADD :: opcode where
  "DADD \<equiv> 269"

abbreviation (input) DSUB :: opcode where
  "DSUB \<equiv> 270"

abbreviation (input) DMUL :: opcode where
  "DMUL \<equiv> 271"

abbreviation (input) DDIV :: opcode where
  "DDIV \<equiv> 272"

abbreviation (input) DNEG :: opcode where
  "DNEG \<equiv> 273"

abbreviation (input) DCMP :: opcode where
  "DCMP \<equiv> 274"

abbreviation (input) DFROMI :: opcode where
  "DFROMI \<equiv> 275"

abbreviation (input) DTOI :: opcode where
  "DTOI \<equiv> 276"

abbreviation (input) DFROMBITS :: opcode where
  "DFROMBITS \<equiv> 277"

abbreviation (input) DTOBITS :: opcode where
  "DTOBITS \<equiv> 278"

abbreviation (input) DCVT :: opcode where
  "DCVT \<equiv> 279"

abbreviation (input) DFMT :: opcode where
  "DFMT \<equiv> 280"

abbreviation (input) CHKR :: opcode where
  "CHKR \<equiv> 281"

abbreviation (input) CHKNT :: opcode where
  "CHKNT \<equiv> 282"

abbreviation (input) CHKNTZ :: opcode where
  "CHKNTZ \<equiv> 283"

abbreviation (input) CHKRO :: opcode where
  "CHKRO \<equiv> 284"

abbreviation (input) CHKAB :: opcode where
  "CHKAB \<equiv> 285"

abbreviation (input) CHKBN :: opcode where
  "CHKBN \<equiv> 286"

abbreviation (input) ALCB :: opcode where
  "ALCB \<equiv> 287"

abbreviation (input) CHKD :: opcode where
  "CHKD \<equiv> 288"

abbreviation (input) ALCV :: opcode where
  "ALCV \<equiv> 289"

abbreviation (input) HMRK :: opcode where
  "HMRK \<equiv> 290"

abbreviation (input) HREL :: opcode where
  "HREL \<equiv> 291"

abbreviation (input) CHKDC :: opcode where
  "CHKDC \<equiv> 292"

abbreviation (input) CHKBS :: opcode where
  "CHKBS \<equiv> 293"

abbreviation (input) HOLE :: opcode where
  "HOLE \<equiv> 294"

abbreviation (input) CHKABO :: opcode where
  "CHKABO \<equiv> 295"

abbreviation (input) LDHA3 :: opcode where
  "LDHA3 \<equiv> 296"

abbreviation (input) LDR_INDEX_B :: opcode where
  "LDR_INDEX_B \<equiv> 297"

abbreviation (input) LDR_INDEX_H :: opcode where
  "LDR_INDEX_H \<equiv> 298"

abbreviation (input) LDR_INDEX_W :: opcode where
  "LDR_INDEX_W \<equiv> 299"

abbreviation (input) LDR_INDEX_D :: opcode where
  "LDR_INDEX_D \<equiv> 300"

abbreviation (input) STR_INDEX_B :: opcode where
  "STR_INDEX_B \<equiv> 301"

abbreviation (input) STR_INDEX_H :: opcode where
  "STR_INDEX_H \<equiv> 302"

abbreviation (input) STR_INDEX_W :: opcode where
  "STR_INDEX_W \<equiv> 303"

abbreviation (input) STR_INDEX_D :: opcode where
  "STR_INDEX_D \<equiv> 304"

abbreviation (input) FLDR_INDEX :: opcode where
  "FLDR_INDEX \<equiv> 305"

abbreviation (input) FSTR_INDEX :: opcode where
  "FSTR_INDEX \<equiv> 306"

abbreviation (input) FLDR_INDEX_F32 :: opcode where
  "FLDR_INDEX_F32 \<equiv> 307"

abbreviation (input) FSTR_INDEX_F32 :: opcode where
  "FSTR_INDEX_F32 \<equiv> 308"

abbreviation (input) MULI3 :: opcode where
  "MULI3 \<equiv> 309"

abbreviation (input) MULADD3 :: opcode where
  "MULADD3 \<equiv> 310"

abbreviation (input) MULADDI3 :: opcode where
  "MULADDI3 \<equiv> 311"

abbreviation (input) FMADD3 :: opcode where
  "FMADD3 \<equiv> 312"

abbreviation (input) FMADD3_F32 :: opcode where
  "FMADD3_F32 \<equiv> 313"

abbreviation (input) FMSUB3 :: opcode where
  "FMSUB3 \<equiv> 314"

abbreviation (input) FMSUB3_F32 :: opcode where
  "FMSUB3_F32 \<equiv> 315"

abbreviation (input) FNMSUB3 :: opcode where
  "FNMSUB3 \<equiv> 316"

abbreviation (input) FNMSUB3_F32 :: opcode where
  "FNMSUB3_F32 \<equiv> 317"

abbreviation (input) SEQI3 :: opcode where
  "SEQI3 \<equiv> 318"

abbreviation (input) SNEI3 :: opcode where
  "SNEI3 \<equiv> 319"

abbreviation (input) SLTI3 :: opcode where
  "SLTI3 \<equiv> 320"

abbreviation (input) SLEI3 :: opcode where
  "SLEI3 \<equiv> 321"

abbreviation (input) SGTI3 :: opcode where
  "SGTI3 \<equiv> 322"

abbreviation (input) SGEI3 :: opcode where
  "SGEI3 \<equiv> 323"

abbreviation (input) ULTI3 :: opcode where
  "ULTI3 \<equiv> 324"

abbreviation (input) ULEI3 :: opcode where
  "ULEI3 \<equiv> 325"

abbreviation (input) UGTI3 :: opcode where
  "UGTI3 \<equiv> 326"

abbreviation (input) UGEI3 :: opcode where
  "UGEI3 \<equiv> 327"

abbreviation (input) SHLI3 :: opcode where
  "SHLI3 \<equiv> 328"

abbreviation (input) SHRI3 :: opcode where
  "SHRI3 \<equiv> 329"

abbreviation (input) USHRI3 :: opcode where
  "USHRI3 \<equiv> 330"

abbreviation (input) ANDI3 :: opcode where
  "ANDI3 \<equiv> 331"

abbreviation (input) ORI3 :: opcode where
  "ORI3 \<equiv> 332"

abbreviation (input) XORI3 :: opcode where
  "XORI3 \<equiv> 333"

abbreviation (input) UBFX :: opcode where
  "UBFX \<equiv> 334"

abbreviation (input) SBFX :: opcode where
  "SBFX \<equiv> 335"

abbreviation (input) BFI :: opcode where
  "BFI \<equiv> 336"

abbreviation (input) ADDSX3 :: opcode where
  "ADDSX3 \<equiv> 337"

abbreviation (input) ADDZX3 :: opcode where
  "ADDZX3 \<equiv> 338"

abbreviation (input) SUBSX3 :: opcode where
  "SUBSX3 \<equiv> 339"

abbreviation (input) SUBZX3 :: opcode where
  "SUBZX3 \<equiv> 340"

abbreviation (input) MULSX3 :: opcode where
  "MULSX3 \<equiv> 341"

abbreviation (input) MULZX3 :: opcode where
  "MULZX3 \<equiv> 342"

abbreviation (input) ADDISX3 :: opcode where
  "ADDISX3 \<equiv> 343"

abbreviation (input) ADDIZX3 :: opcode where
  "ADDIZX3 \<equiv> 344"

abbreviation (input) MULISX3 :: opcode where
  "MULISX3 \<equiv> 345"

abbreviation (input) MULIZX3 :: opcode where
  "MULIZX3 \<equiv> 346"

abbreviation (input) SHLISX3 :: opcode where
  "SHLISX3 \<equiv> 347"

abbreviation (input) SHLIZX3 :: opcode where
  "SHLIZX3 \<equiv> 348"

abbreviation (input) FNZ3 :: opcode where
  "FNZ3 \<equiv> 349"

abbreviation (input) FNZ3_F32 :: opcode where
  "FNZ3_F32 \<equiv> 350"

abbreviation (input) BEQ3 :: opcode where
  "BEQ3 \<equiv> 351"

abbreviation (input) BNE3 :: opcode where
  "BNE3 \<equiv> 352"

abbreviation (input) BLT3 :: opcode where
  "BLT3 \<equiv> 353"

abbreviation (input) BLE3 :: opcode where
  "BLE3 \<equiv> 354"

abbreviation (input) BULT3 :: opcode where
  "BULT3 \<equiv> 355"

abbreviation (input) BULE3 :: opcode where
  "BULE3 \<equiv> 356"

abbreviation (input) BEQI3 :: opcode where
  "BEQI3 \<equiv> 357"

abbreviation (input) BNEI3 :: opcode where
  "BNEI3 \<equiv> 358"

abbreviation (input) BLTI3 :: opcode where
  "BLTI3 \<equiv> 359"

abbreviation (input) BLEI3 :: opcode where
  "BLEI3 \<equiv> 360"

abbreviation (input) BGTI3 :: opcode where
  "BGTI3 \<equiv> 361"

abbreviation (input) BGEI3 :: opcode where
  "BGEI3 \<equiv> 362"

abbreviation (input) BULTI3 :: opcode where
  "BULTI3 \<equiv> 363"

abbreviation (input) BULEI3 :: opcode where
  "BULEI3 \<equiv> 364"

abbreviation (input) BUGTI3 :: opcode where
  "BUGTI3 \<equiv> 365"

abbreviation (input) BUGEI3 :: opcode where
  "BUGEI3 \<equiv> 366"

abbreviation (input) BEQW3 :: opcode where
  "BEQW3 \<equiv> 367"

abbreviation (input) BNEW3 :: opcode where
  "BNEW3 \<equiv> 368"

abbreviation (input) BLTW3 :: opcode where
  "BLTW3 \<equiv> 369"

abbreviation (input) BLEW3 :: opcode where
  "BLEW3 \<equiv> 370"

abbreviation (input) BGTW3 :: opcode where
  "BGTW3 \<equiv> 371"

abbreviation (input) BGEW3 :: opcode where
  "BGEW3 \<equiv> 372"

abbreviation (input) BULTW3 :: opcode where
  "BULTW3 \<equiv> 373"

abbreviation (input) BULEW3 :: opcode where
  "BULEW3 \<equiv> 374"

abbreviation (input) BUGTW3 :: opcode where
  "BUGTW3 \<equiv> 375"

abbreviation (input) BUGEW3 :: opcode where
  "BUGEW3 \<equiv> 376"

abbreviation (input) LDR_UB :: opcode where
  "LDR_UB \<equiv> 377"

abbreviation (input) LDR_UW :: opcode where
  "LDR_UW \<equiv> 378"

abbreviation (input) LDR_LOCAL_UB :: opcode where
  "LDR_LOCAL_UB \<equiv> 379"

abbreviation (input) LDR_LOCAL_UW :: opcode where
  "LDR_LOCAL_UW \<equiv> 380"

abbreviation (input) LDR_INDEX_UB :: opcode where
  "LDR_INDEX_UB \<equiv> 381"

abbreviation (input) LDR_INDEX_UW :: opcode where
  "LDR_INDEX_UW \<equiv> 382"

abbreviation (input) OP_COUNT :: opcode where
  "OP_COUNT \<equiv> 383"

subsection \<open>Instruction sizes\<close>

definition operand_words :: "nat list" where
  "operand_words = [1, 1, 1, 1, 6, 3, 1, 0, 0, 0, 0, 0, 0, 0, 0, 0, 0, 1, 1, 1, 1, 1, 1, 6, 0, 0, 0, 0, 1,
     2, 2, 1, 4, 1, 1, 3, 2, 2, 0, 0, 1, 1, 1, 1, 1, 1, 1, 1, 1, 1, 1, 1, 1, 1, 1, 1, 1, 0,
     0, 0, 0, 0, 0, 0, 0, 1, 1, 1, 1, 1, 1, 1, 1, 3, 3, 3, 3, 1, 1, 1, 1, 3, 3, 5, 2, 2, 4,
     0, 2, 1, 1, 1, 1, 1, 1, 1, 1, 1, 1, 3, 3, 2, 2, 1, 1, 1, 1, 1, 1, 1, 1, 1, 1, 1, 1, 1,
     1, 1, 1, 1, 1, 1, 1, 1, 1, 1, 1, 1, 1, 1, 1, 1, 1, 1, 1, 1, 1, 1, 1, 1, 1, 3, 3, 0, 1,
     1, 1, 0, 0, 0, 3, 3, 1, 3, 3, 2, 3, 3, 3, 3, 3, 3, 3, 3, 3, 3, 3, 3, 3, 3, 1, 1, 1, 1,
     1, 1, 1, 1, 1, 1, 1, 1, 1, 1, 1, 1, 1, 1, 1, 1, 1, 1, 1, 1, 1, 1, 1, 1, 1, 1, 1, 1, 1,
     1, 1, 1, 1, 1, 1, 1, 1, 1, 1, 1, 1, 1, 1, 1, 1, 1, 1, 1, 1, 1, 1, 1, 1, 1, 1, 1, 1, 1,
     1, 1, 1, 1, 1, 1, 1, 1, 1, 1, 1, 1, 1, 1, 1, 1, 1, 1, 1, 1, 1, 1, 1, 1, 1, 1, 1, 1, 1,
     1, 1, 1, 1, 1, 1, 1, 1, 0, 0, 0, 0, 0, 0, 0, 0, 0, 0, 0, 0, 3, 3, 5, 3, 3, 1, 0, 3, 0,
     1, 1, 3, 3, 0, 3, 3, 3, 3, 3, 3, 3, 3, 3, 3, 3, 3, 3, 3, 3, 1, 3, 1, 1, 1, 1, 1, 1, 3,
     3, 3, 3, 3, 3, 3, 3, 3, 3, 3, 3, 3, 3, 3, 3, 1, 1, 2, 1, 1, 1, 1, 1, 1, 3, 3, 3, 3, 3,
     3, 1, 1, 2, 2, 2, 2, 2, 2, 2, 2, 2, 2, 2, 2, 2, 2, 2, 2, 3, 3, 3, 3, 3, 3, 3, 3, 3, 3,
     1, 1, 3, 3, 3, 3]"

text \<open>The C function answers \<open>-1\<close> for a number outside the table.\<close>

definition cc_opcode_operand_words :: "opcode \<Rightarrow> nat option" where
  "cc_opcode_operand_words op =
     (if op < length operand_words then Some (operand_words ! op) else None)"

definition cc_instr_words :: "opcode \<Rightarrow> nat option" where
  "cc_instr_words op = map_option Suc (cc_opcode_operand_words op)"

lemma length_operand_words: "length operand_words = OP_COUNT"
  by (simp add: operand_words_def)

end
