(* ===== verification/VM_State.thy ===== *)
theory VM_State
  imports Opcodes
begin

text \<open>
  The state of the bytecode interpreter (\<open>struct VirtualMachine\<close>, \<open>src/src/cccc.h\<close>), the
  instruction-word reader and writer, the operand encodings (\<open>src/src/internal.h\<close>) and the
  three handler skeletons that the integer handlers of \<open>src/src/ops.c\<close> share.

  Registers are 64-bit patterns (\<open>long long\<close> is read through \<open>sint\<close>). An operand byte names a
  register; the C array has 32 entries, and an operand byte above 31 indexes outside it, so
  the register file is a function on \<open>nat\<close> and only indices below \<open>NUM_REGS\<close> are meaningful.
  A handler returns \<open>Inr vm\<close> where the C function returns 0 and \<open>Inl (fault, vm)\<close> where it
  prints a report and returns \<open>-1\<close>; \<open>Host_UB\<close> marks an input on which the C expression itself
  has undefined behaviour. \<open>Not_Modelled\<close> is no outcome of the C program: it marks an opcode of
  the instruction set whose handler this library does not model.
\<close>

subsection \<open>Registers\<close>

abbreviation (input) REG_ZERO :: nat where "REG_ZERO \<equiv> 0"

abbreviation (input) REG_RA :: nat where "REG_RA \<equiv> 1"

abbreviation (input) REG_A0 :: nat where "REG_A0 \<equiv> 10"

abbreviation (input) REG_A1 :: nat where "REG_A1 \<equiv> 11"

abbreviation (input) REG_A2 :: nat where "REG_A2 \<equiv> 12"

abbreviation (input) REG_S0 :: nat where "REG_S0 \<equiv> 18"

abbreviation (input) NUM_REGS :: nat where "NUM_REGS \<equiv> 32"

type_synonym regfile = "nat \<Rightarrow> u64"

subsection \<open>The machine state\<close>

record vm =
  regs :: regfile
  fregs :: regfile
  pc :: u32
  bp :: u64
  sp :: u64
  cycle :: u64
  stack_seg :: u64
  stack_base :: u64
  stack_committed :: u64
  poolsize :: nat
  shadow_sp :: u64
  cfi :: bool
  dynsyms :: "(u32 \<times> bool) list"
  text_seg :: "u32 \<Rightarrow> u32"
  text_base :: u64
  text_committed :: u64
  text_ptr :: u32
  data_seg :: u64
  data_committed :: u64
  heap_seg :: u64
  heap_committed :: u64
  current_tls_seg :: u64
  tls_template_size :: u64
  comptime_depth :: nat
  mem :: "u64 \<Rightarrow> u8"

datatype vm_fault =
    Div_By_Zero
  | Mod_By_Zero
  | Checked_Overflow
  | Comptime_Access u64 nat bool
  | Stack_Overflow
  | Bad_Jump_Target
  | Unknown_Instruction
  | Not_Modelled
  | Host_UB

type_synonym step = "(vm_fault \<times> vm) + vm"

definition CCCC_INVALID_PC :: u32 where
  "CCCC_INVALID_PC = - 1"

subsection \<open>Reading the text segment\<close>

definition cc_make_u64 :: "u32 \<Rightarrow> u32 \<Rightarrow> u64" where
  "cc_make_u64 lo hi = ucast lo OR push_bit 32 (ucast hi)"

definition cc_i64_lo :: "u64 \<Rightarrow> u32" where
  "cc_i64_lo v = ucast (v AND 0xFFFFFFFF)"

definition cc_i64_hi :: "u64 \<Rightarrow> u32" where
  "cc_i64_hi v = ucast (drop_bit 32 v AND 0xFFFFFFFF)"

definition cc_read_word :: "vm \<Rightarrow> u32 \<times> vm" where
  "cc_read_word vm = (text_seg vm (pc vm), vm\<lparr>pc := pc vm + 1\<rparr>)"

definition cc_read_i64 :: "vm \<Rightarrow> u64 \<times> vm" where
  "cc_read_i64 vm =
     (let (lo, vm1) = cc_read_word vm; (hi, vm2) = cc_read_word vm1
      in (cc_make_u64 lo hi, vm2))"

definition cc_read_i64_at :: "(u32 \<Rightarrow> u32) \<Rightarrow> u32 \<Rightarrow> u64" where
  "cc_read_i64_at text p = cc_make_u64 (text p) (text (p + 1))"

definition cc_write_i64_at :: "(u32 \<Rightarrow> u32) \<Rightarrow> u32 \<Rightarrow> u64 \<Rightarrow> u32 \<Rightarrow> u32" where
  "cc_write_i64_at text p v = text(p := cc_i64_lo v, p + 1 := cc_i64_hi v)"

definition cc_byte_offset_to_pc :: "u64 \<Rightarrow> u32" where
  "cc_byte_offset_to_pc offset =
     (if sint offset < 0 \<or> sint offset smod 4 \<noteq> 0 then CCCC_INVALID_PC
      else if uint offset div 4 > 0xFFFFFFFF then CCCC_INVALID_PC
      else word_of_int (uint offset div 4))"

definition cc_pc_to_byte_offset :: "u32 \<Rightarrow> u64" where
  "cc_pc_to_byte_offset p = ucast p * 4"

subsection \<open>Operand words\<close>

text \<open>Byte \<open>k\<close> of an operand word: what \<open>DECODE_R\<close>, \<open>DECODE_RR\<close>, \<open>DECODE_RRR\<close>,
  \<open>DECODE_RRRR\<close> and \<open>DECODE_RRRS\<close> assign to their \<open>k\<close>-th output.\<close>

definition opnd_byte :: "u32 \<Rightarrow> nat \<Rightarrow> nat" where
  "opnd_byte w k = unat (drop_bit (8 * k) w AND 0xFF)"

definition ENCODE_RRR :: "nat \<Rightarrow> nat \<Rightarrow> nat \<Rightarrow> u32" where
  "ENCODE_RRR rd rs1 rs2 = of_nat rd OR push_bit 8 (of_nat rs1) OR push_bit 16 (of_nat rs2)"

definition ENCODE_RRRS :: "nat \<Rightarrow> nat \<Rightarrow> nat \<Rightarrow> nat \<Rightarrow> u32" where
  "ENCODE_RRRS rd rs1 rs2 scale = ENCODE_RRR rd rs1 rs2 OR push_bit 24 (of_nat scale)"

definition ENCODE_RR :: "nat \<Rightarrow> nat \<Rightarrow> u32" where
  "ENCODE_RR rd rs1 = of_nat rd OR push_bit 8 (of_nat rs1)"

definition ENCODE_R :: "nat \<Rightarrow> u32" where
  "ENCODE_R rd = of_nat rd"

definition ENCODE_BF :: "nat \<Rightarrow> nat \<Rightarrow> nat \<Rightarrow> nat \<Rightarrow> u32" where
  "ENCODE_BF rd rs off w =
     ENCODE_RR rd rs OR push_bit 16 (of_nat off) OR push_bit 22 (of_nat w - 1)"

definition DECODE_BF_off :: "u32 \<Rightarrow> nat" where
  "DECODE_BF_off w = unat (drop_bit 16 w AND 0x3F)"

definition DECODE_BF_w :: "u32 \<Rightarrow> nat" where
  "DECODE_BF_w w = unat (drop_bit 22 w AND 0x3F) + 1"

definition DECODE_BFW_off :: "u32 \<Rightarrow> nat" where
  "DECODE_BFW_off w = unat (w AND 0x3F)"

definition DECODE_BFW_w :: "u32 \<Rightarrow> nat" where
  "DECODE_BFW_w w = unat (drop_bit 6 w AND 0x3F) + 1"

subsection \<open>Register writes\<close>

text \<open>\<open>if (rd != REG_ZERO) vm->regs[rd] = v\<close>, and the unguarded store some handlers use.\<close>

definition set_reg :: "nat \<Rightarrow> u64 \<Rightarrow> vm \<Rightarrow> vm" where
  "set_reg rd v vm = (if rd \<noteq> REG_ZERO then vm\<lparr>regs := (regs vm)(rd := v)\<rparr> else vm)"

definition put_reg :: "nat \<Rightarrow> u64 \<Rightarrow> vm \<Rightarrow> vm" where
  "put_reg rd v vm = vm\<lparr>regs := (regs vm)(rd := v)\<rparr>"

subsection \<open>Handler skeletons\<close>

text \<open>
  \<open>rrr_op\<close>: \<open>DECODE_RRR\<close>, compute from \<open>regs[rs1]\<close>, \<open>regs[rs2]\<close>, guarded write-back.
  \<open>rr_op\<close>: the same with one source. \<open>rri_op\<close>: one source and a 64-bit immediate that
  follows the operand word. The \<open>_raw\<close> variants write back without the guard.
\<close>

definition rrr_op :: "(u64 \<Rightarrow> u64 \<Rightarrow> u64) \<Rightarrow> vm \<Rightarrow> step" where
  "rrr_op f vm =
     (let (w, vm1) = cc_read_word vm
      in Inr (set_reg (opnd_byte w 0)
                (f (regs vm1 (opnd_byte w 1)) (regs vm1 (opnd_byte w 2))) vm1))"

definition rr_op :: "(u64 \<Rightarrow> u64) \<Rightarrow> vm \<Rightarrow> step" where
  "rr_op f vm =
     (let (w, vm1) = cc_read_word vm
      in Inr (set_reg (opnd_byte w 0) (f (regs vm1 (opnd_byte w 1))) vm1))"

definition rri_op :: "(u64 \<Rightarrow> u64 \<Rightarrow> u64) \<Rightarrow> vm \<Rightarrow> step" where
  "rri_op f vm =
     (let (w, vm1) = cc_read_word vm; (imm, vm2) = cc_read_i64 vm1
      in Inr (set_reg (opnd_byte w 0) (f (regs vm2 (opnd_byte w 1)) imm) vm2))"

definition rr_op_raw :: "(u64 \<Rightarrow> u64) \<Rightarrow> vm \<Rightarrow> step" where
  "rr_op_raw f vm =
     (let (w, vm1) = cc_read_word vm
      in Inr (put_reg (opnd_byte w 0) (f (regs vm1 (opnd_byte w 1))) vm1))"

definition rrr_op_raw :: "(u64 \<Rightarrow> u64 \<Rightarrow> u64) \<Rightarrow> vm \<Rightarrow> step" where
  "rrr_op_raw f vm =
     (let (w, vm1) = cc_read_word vm
      in Inr (put_reg (opnd_byte w 0)
                (f (regs vm1 (opnd_byte w 1)) (regs vm1 (opnd_byte w 2))) vm1))"

definition rri_op_raw :: "(u64 \<Rightarrow> u64 \<Rightarrow> u64) \<Rightarrow> vm \<Rightarrow> step" where
  "rri_op_raw f vm =
     (let (w, vm1) = cc_read_word vm; (imm, vm2) = cc_read_i64 vm1
      in Inr (put_reg (opnd_byte w 0) (f (regs vm2 (opnd_byte w 1)) imm) vm2))"

subsection \<open>Lemmas on the reader, the writer and the operand codec\<close>

lemma bit_cc_make: "bit (cc_make_u64 lo hi) n \<longleftrightarrow> (if n < 32 then bit lo n else bit hi (n - 32))"
  by (auto simp: cc_make_u64_def bit_simps dest: bit_imp_le_length)

lemma cc_make_lo_hi [simp]: "cc_make_u64 (cc_i64_lo v) (cc_i64_hi v) = v"
proof (rule bit_word_eqI)
  fix n assume "n < LENGTH(64)"
  have mask: "(0xFFFFFFFF :: u64) = mask 32" by (simp add: mask_eq_exp_minus_1)
  show "bit (cc_make_u64 (cc_i64_lo v) (cc_i64_hi v)) n = bit v n"
    using \<open>n < LENGTH(64)\<close>
    by (auto simp: bit_cc_make cc_i64_lo_def cc_i64_hi_def mask bit_simps)
qed

lemma cc_read_write_i64 [simp]: "cc_read_i64_at (cc_write_i64_at t p v) p = v"
  by (simp add: cc_read_i64_at_def cc_write_i64_at_def)

lemma cc_read_word_eq [vm_simps]:
  "cc_read_word vm = (text_seg vm (pc vm), vm\<lparr>pc := pc vm + 1\<rparr>)"
  by (fact cc_read_word_def)

lemma cc_read_i64_eq [vm_simps]:
  "cc_read_i64 vm = (cc_read_i64_at (text_seg vm) (pc vm), vm\<lparr>pc := pc vm + 2\<rparr>)"
  by (simp add: cc_read_i64_def cc_read_word_def cc_read_i64_at_def Let_def)

lemma mask8_u32: "(0xFF :: u32) = mask 8"
  by (simp add: mask_eq_exp_minus_1)

lemma bit_FF: "bit (0xFF :: u32) n \<longleftrightarrow> n < 8"
  unfolding mask8_u32 by (auto simp: bit_mask_iff)

lemma opnd_byte_less [simp]: "opnd_byte w k < 256"
proof -
  have "unat (drop_bit (8 * k) w AND 0xFF) \<le> unat (0xFF :: u32)"
    by (rule word_le_nat_alt [THEN iffD1, OF word_and_le1])
  then show ?thesis by (simp add: opnd_byte_def)
qed

lemma bit_nat_lt: "bit (r :: nat) n \<Longrightarrow> 2 ^ n \<le> r"
  by (metis bit_iff_odd div_less even_zero not_le)

lemma bit_byte_lt: "bit (r :: nat) n \<Longrightarrow> r < 256 \<Longrightarrow> n < 8"
proof (rule ccontr)
  assume b: "bit r n" and r: "r < 256" and "\<not> n < 8"
  then have "(2::nat) ^ 8 \<le> 2 ^ n" by (intro power_increasing) auto
  with bit_nat_lt [OF b] r show False by simp
qed

lemma bit_byte_high [simp]: "r < 256 \<Longrightarrow> 8 \<le> n \<Longrightarrow> \<not> bit (r :: nat) n"
  using bit_byte_lt by fastforce

lemma opnd_byte_eqI:
  assumes "r < 256" and "\<And>n. n < 8 \<Longrightarrow> bit w (8 * k + n) = bit r n" and "k < 4"
  shows "opnd_byte w k = r"
proof -
  have "drop_bit (8 * k) w AND 0xFF = (of_nat r :: u32)"
  proof (rule bit_word_eqI)
    fix n assume "n < LENGTH(32)"
    then show "bit (drop_bit (8 * k) w AND 0xFF) n = bit (of_nat r :: u32) n"
      using assms unfolding mask8_u32
      by (cases "n < 8") (auto simp: bit_simps dest: bit_byte_lt)
  qed
  then have "opnd_byte w k = unat (of_nat r :: u32)"
    by (simp add: opnd_byte_def)
  with assms(1) show ?thesis by (simp add: unsigned_of_nat take_bit_nat_eq_self)
qed

lemma opnd_byte_ENCODE_RRR:
  assumes "rd < 256" "rs1 < 256" "rs2 < 256"
  shows "opnd_byte (ENCODE_RRR rd rs1 rs2) 0 = rd"
    and "opnd_byte (ENCODE_RRR rd rs1 rs2) 1 = rs1"
    and "opnd_byte (ENCODE_RRR rd rs1 rs2) 2 = rs2"
  using assms
  by (auto intro!: opnd_byte_eqI simp: ENCODE_RRR_def bit_simps)

lemma opnd_byte_ENCODE_RR:
  assumes "rd < 256" "rs1 < 256"
  shows "opnd_byte (ENCODE_RR rd rs1) 0 = rd" and "opnd_byte (ENCODE_RR rd rs1) 1 = rs1"
  using assms
  by (auto intro!: opnd_byte_eqI simp: ENCODE_RR_def bit_simps)

lemma uint_pc_offset: "uint (cc_pc_to_byte_offset p) = 4 * uint p"
proof -
  have "uint p < 2 ^ 32" using uint_lt2p [of p] by simp
  then show ?thesis
    by (simp add: cc_pc_to_byte_offset_def uint_word_ariths uint_up_ucast is_up)
qed

lemma pc_byte_offset_roundtrip: "cc_byte_offset_to_pc (cc_pc_to_byte_offset p) = p"
proof -
  have b: "uint p < 2 ^ 32" using uint_lt2p [of p] by simp
  have s: "sint (cc_pc_to_byte_offset p) = 4 * uint p"
  proof -
    have "signed_take_bit 63 (4 * uint p) = 4 * uint p"
    proof (rule signed_take_bit_int_eq_self)
      have "0 \<le> 4 * uint p" by simp
      then show "- (2 ^ 63) \<le> 4 * uint p" by (rule order_trans [rotated]) simp
      show "4 * uint p < 2 ^ 63" using b by simp
    qed
    then show ?thesis by (simp add: sint_uint uint_pc_offset)
  qed
  have "4 * uint p smod 4 = 0" by (simp add: smod_int_alt_def)
  with b s show ?thesis by (simp add: cc_byte_offset_to_pc_def uint_pc_offset)
qed

lemma set_reg_simps [simp]:
  "pc (set_reg rd v vm) = pc vm" "text_seg (set_reg rd v vm) = text_seg vm"
  "mem (set_reg rd v vm) = mem vm" "fregs (set_reg rd v vm) = fregs vm"
  by (simp_all add: set_reg_def)

lemma regs_set_reg [simp]:
  "regs (set_reg rd v vm) = (if rd \<noteq> REG_ZERO then (regs vm)(rd := v) else regs vm)"
  by (simp add: set_reg_def)

lemma regs_set_reg_zero [simp]: "regs (set_reg rd v vm) 0 = regs vm 0"
  by (simp add: set_reg_def)

lemmas skeleton_defs [vm_simps] =
  rrr_op_def rr_op_def rri_op_def rr_op_raw_def rrr_op_raw_def rri_op_raw_def

end
