(* ===== verification/VM_Alu.thy ===== *)
theory VM_Alu
  imports VM_State
begin

text \<open>
  The integer handlers of \<open>src/src/ops.c\<close>: arithmetic, division with its traps, checked
  arithmetic, bitwise operations and shifts, compares, moves, immediates, multiply-add,
  bit-field extract and insert, extensions and the 32-bit wraps. Each definition is one handler; the boilerplate that every C handler spells out
  (read the operand word, decode it, guarded write-back) is the skeleton it instantiates.
\<close>

subsection \<open>Arithmetic\<close>

definition op_ADD3_fn :: "vm \<Rightarrow> step" where
  "op_ADD3_fn = rrr_op (\<lambda>a b. a + b)"

definition op_SUB3_fn :: "vm \<Rightarrow> step" where
  "op_SUB3_fn = rrr_op (\<lambda>a b. a - b)"

definition op_MUL3_fn :: "vm \<Rightarrow> step" where
  "op_MUL3_fn = rrr_op (\<lambda>a b. a * b)"

text \<open>\<open>a / b\<close> on \<open>long long\<close>: undefined, here \<open>None\<close>, for a zero divisor and for a quotient that
  \<open>long long\<close> cannot represent.\<close>

definition ll_div :: "u64 \<Rightarrow> u64 \<Rightarrow> u64 option" where
  "ll_div a b = (if b = 0 \<or> \<not> ll_range (sint a sdiv sint b) then None else Some (c_sdiv a b))"

definition op_DIV3_fn :: "vm \<Rightarrow> step" where
  "op_DIV3_fn vm =
     (let (w, vm1) = cc_read_word vm; rd = opnd_byte w 0;
          a = regs vm1 (opnd_byte w 1); b = regs vm1 (opnd_byte w 2)
      in if b = 0 then Inl (Div_By_Zero, vm1)
         else if rd = REG_ZERO then Inr vm1
         else if sint a = LLONG_MIN \<and> sint b = -1
         then Inr (put_reg rd (word_of_int LLONG_MIN) vm1)
         else case ll_div a b of
                None \<Rightarrow> Inl (Host_UB, vm1)
              | Some q \<Rightarrow> Inr (put_reg rd q vm1))"

text \<open>Arithmetic right shift of a \<open>long long\<close>, as \<open>>>\<close> is on every supported host.\<close>

definition c_sar :: "u64 \<Rightarrow> nat \<Rightarrow> u64" where
  "c_sar a k = signed_drop_bit k a"

definition fits_signed_width :: "u64 \<Rightarrow> nat \<Rightarrow> bool" where
  "fits_signed_width v width \<longleftrightarrow>
     (if width = 0 \<or> width \<ge> 64 then True
      else (let shift = 64 - width in c_sar (push_bit shift v) shift = v))"

text \<open>\<open>__builtin_*_overflow\<close> on \<open>long long\<close>: the exact result does not fit 64 bits.\<close>

definition ll_overflows :: "int \<Rightarrow> bool" where
  "ll_overflows r \<longleftrightarrow> \<not> ll_range r"

definition checked_arith_op :: "(int \<Rightarrow> int \<Rightarrow> int) \<Rightarrow> vm \<Rightarrow> step" where
  "checked_arith_op f vm =
     (let (w, vm1) = cc_read_word vm;
          width = opnd_byte w 3;
          a = regs vm1 (opnd_byte w 1); b = regs vm1 (opnd_byte w 2);
          exact = f (sint a) (sint b); result = word_of_int exact
      in if ll_overflows exact \<or> \<not> fits_signed_width result width
         then Inl (Checked_Overflow, vm1)
         else Inr (set_reg (opnd_byte w 0) result vm1))"

definition op_ADDC_fn :: "vm \<Rightarrow> step" where
  "op_ADDC_fn = checked_arith_op (\<lambda>a b. a + b)"

definition op_SUBC_fn :: "vm \<Rightarrow> step" where
  "op_SUBC_fn = checked_arith_op (\<lambda>a b. a - b)"

definition op_MULC_fn :: "vm \<Rightarrow> step" where
  "op_MULC_fn = checked_arith_op (\<lambda>a b. a * b)"

definition op_DIVC_fn :: "vm \<Rightarrow> step" where
  "op_DIVC_fn vm =
     (let (w, vm1) = cc_read_word vm;
          width = opnd_byte w 3;
          a = regs vm1 (opnd_byte w 1); b = regs vm1 (opnd_byte w 2)
      in if b = 0 then Inl (Div_By_Zero, vm1)
         else if sint b = -1 \<and>
           (sint a = LLONG_MIN \<or> (width < 64 \<and> \<not> fits_signed_width (- a) width))
         then Inl (Checked_Overflow, vm1)
         else if opnd_byte w 0 = REG_ZERO then Inr vm1
         else case ll_div a b of
                None \<Rightarrow> Inl (Host_UB, vm1)
              | Some q \<Rightarrow> Inr (put_reg (opnd_byte w 0) q vm1))"

text \<open>\<open>a % b\<close> has no guard for \<open>LLONG_MIN % -1\<close>, which C leaves undefined.\<close>

definition op_MOD3_fn :: "vm \<Rightarrow> step" where
  "op_MOD3_fn vm =
     (let (w, vm1) = cc_read_word vm;
          a = regs vm1 (opnd_byte w 1); b = regs vm1 (opnd_byte w 2)
      in if b = 0 then Inl (Mod_By_Zero, vm1)
         else if opnd_byte w 0 \<noteq> REG_ZERO \<and> sint a = LLONG_MIN \<and> sint b = -1
         then Inl (Host_UB, vm1)
         else Inr (set_reg (opnd_byte w 0) (c_smod a b) vm1))"

definition op_UDIV3_fn :: "vm \<Rightarrow> step" where
  "op_UDIV3_fn vm =
     (let (w, vm1) = cc_read_word vm;
          a = regs vm1 (opnd_byte w 1); b = regs vm1 (opnd_byte w 2)
      in if b = 0 then Inl (Div_By_Zero, vm1)
         else Inr (set_reg (opnd_byte w 0) (a div b) vm1))"

definition op_UMOD3_fn :: "vm \<Rightarrow> step" where
  "op_UMOD3_fn vm =
     (let (w, vm1) = cc_read_word vm;
          a = regs vm1 (opnd_byte w 1); b = regs vm1 (opnd_byte w 2)
      in if b = 0 then Inl (Mod_By_Zero, vm1)
         else Inr (set_reg (opnd_byte w 0) (a mod b) vm1))"

text \<open>The guards of \<open>DIV3\<close> and \<open>DIVC\<close> leave no undefined division.\<close>

lemma ll_div_defined:
  "ll_range (sint (a :: u64) sdiv sint (b :: u64)) \<longleftrightarrow> \<not> (sint a = LLONG_MIN \<and> sint b = -1)" if "b \<noteq> 0"
proof -
  have nz: "sint b \<noteq> 0" using that sint_eq_iff64 [of b 0] by simp
  have q: "sint a sdiv sint b = sgn (sint a) * sgn (sint b) * (\<bar>sint a\<bar> div \<bar>sint b\<bar>)"
    by (simp add: signed_divide_int_def)
  have A: "\<bar>sint a\<bar> \<le> 2 ^ 63" "sint a \<noteq> LLONG_MIN \<Longrightarrow> \<bar>sint a\<bar> < 2 ^ 63"
    using sint64_bounds [of a] by (auto simp: limits)
  consider "\<bar>sint b\<bar> = 1" | "2 \<le> \<bar>sint b\<bar>" using nz by linarith
  then show ?thesis
  proof cases
    case 1
    then have "sint b = 1 \<or> sint b = -1" by linarith
    then show ?thesis using sint64_bounds [of a] by (auto simp: ll_range_def limits signed_divide_int_def mult_sgn_abs)
  next
    case 2
    have "\<bar>sint a\<bar> div \<bar>sint b\<bar> \<le> \<bar>sint a\<bar> div 2" by (rule zdiv_mono2) (use 2 in auto)
    also have "\<dots> < 2 ^ 63" using A(1) by simp
    finally have "\<bar>sint a\<bar> div \<bar>sint b\<bar> < 2 ^ 63" "0 \<le> \<bar>sint a\<bar> div \<bar>sint b\<bar>" by (simp_all add: pos_imp_zdiv_nonneg_iff nz)
    then have "ll_range (sint a sdiv sint b)"
      unfolding q by (auto simp: ll_range_def limits sgn_if)
    moreover have "sint b \<noteq> -1" using 2 by auto
    ultimately show ?thesis by simp
  qed
qed

lemma op_DIV3_fn_eq:
  "op_DIV3_fn vm =
     (let (w, vm1) = cc_read_word vm;
          a = regs vm1 (opnd_byte w 1); b = regs vm1 (opnd_byte w 2)
      in if b = 0 then Inl (Div_By_Zero, vm1)
         else Inr (set_reg (opnd_byte w 0)
                (if sint a = LLONG_MIN \<and> sint b = -1 then word_of_int LLONG_MIN else c_sdiv a b) vm1))"
  by (simp add: op_DIV3_fn_def cc_read_word_def ll_div_def ll_div_defined set_reg_def put_reg_def Let_def)

lemma op_DIVC_fn_eq:
  "op_DIVC_fn vm =
     (let (w, vm1) = cc_read_word vm; width = opnd_byte w 3;
          a = regs vm1 (opnd_byte w 1); b = regs vm1 (opnd_byte w 2)
      in if b = 0 then Inl (Div_By_Zero, vm1)
         else if sint b = -1 \<and> (sint a = LLONG_MIN \<or> (width < 64 \<and> \<not> fits_signed_width (- a) width))
         then Inl (Checked_Overflow, vm1)
         else Inr (set_reg (opnd_byte w 0) (c_sdiv a b) vm1))"
  by (auto simp: op_DIVC_fn_def cc_read_word_def ll_div_def ll_div_defined set_reg_def put_reg_def Let_def)

subsection \<open>Bitwise operations and shifts\<close>

definition op_AND3_fn :: "vm \<Rightarrow> step" where
  "op_AND3_fn = rrr_op (\<lambda>a b. a AND b)"

definition op_OR3_fn :: "vm \<Rightarrow> step" where
  "op_OR3_fn = rrr_op (\<lambda>a b. a OR b)"

definition op_XOR3_fn :: "vm \<Rightarrow> step" where
  "op_XOR3_fn = rrr_op (\<lambda>a b. a XOR b)"

text \<open>The count is masked to its low six bits.\<close>

definition shift_count :: "u64 \<Rightarrow> nat" where
  "shift_count b = unat (b AND 63)"

definition op_SHL3_fn :: "vm \<Rightarrow> step" where
  "op_SHL3_fn = rrr_op (\<lambda>a b. push_bit (shift_count b) a)"

definition op_SHR3_fn :: "vm \<Rightarrow> step" where
  "op_SHR3_fn = rrr_op (\<lambda>a b. c_sar a (shift_count b))"

definition op_USHR3_fn :: "vm \<Rightarrow> step" where
  "op_USHR3_fn = rrr_op (\<lambda>a b. drop_bit (shift_count b) a)"

subsection \<open>Compares\<close>

definition op_SEQ3_fn :: "vm \<Rightarrow> step" where
  "op_SEQ3_fn = rrr_op (\<lambda>a b. c_bool (a = b))"

definition op_SNE3_fn :: "vm \<Rightarrow> step" where
  "op_SNE3_fn = rrr_op (\<lambda>a b. c_bool (a \<noteq> b))"

definition op_SLT3_fn :: "vm \<Rightarrow> step" where
  "op_SLT3_fn = rrr_op (\<lambda>a b. c_bool (sint a < sint b))"

definition op_SGE3_fn :: "vm \<Rightarrow> step" where
  "op_SGE3_fn = rrr_op (\<lambda>a b. c_bool (sint a \<ge> sint b))"

definition op_SGT3_fn :: "vm \<Rightarrow> step" where
  "op_SGT3_fn = rrr_op (\<lambda>a b. c_bool (sint a > sint b))"

definition op_SLE3_fn :: "vm \<Rightarrow> step" where
  "op_SLE3_fn = rrr_op (\<lambda>a b. c_bool (sint a \<le> sint b))"

definition op_ULT3_fn :: "vm \<Rightarrow> step" where
  "op_ULT3_fn = rrr_op (\<lambda>a b. c_bool (uint a < uint b))"

definition op_ULE3_fn :: "vm \<Rightarrow> step" where
  "op_ULE3_fn = rrr_op (\<lambda>a b. c_bool (uint a \<le> uint b))"

subsection \<open>Moves and unary operations\<close>

definition op_LI3_fn :: "vm \<Rightarrow> step" where
  "op_LI3_fn vm =
     (let (w, vm1) = cc_read_word vm; (imm, vm2) = cc_read_i64 vm1
      in Inr (set_reg (opnd_byte w 0) imm vm2))"

definition op_LDA3_fn :: "vm \<Rightarrow> step" where
  "op_LDA3_fn vm =
     (let (w, vm1) = cc_read_word vm; (offset, vm2) = cc_read_i64 vm1
      in Inr (set_reg (opnd_byte w 0) (data_seg vm2 + offset) vm2))"

definition op_MOV3_fn :: "vm \<Rightarrow> step" where
  "op_MOV3_fn = rr_op (\<lambda>a. a)"

definition op_NEG3_fn :: "vm \<Rightarrow> step" where
  "op_NEG3_fn = rr_op (\<lambda>a. 0 - a)"

definition op_NOT3_fn :: "vm \<Rightarrow> step" where
  "op_NOT3_fn = rr_op (\<lambda>a. c_bool (a = 0))"

definition op_BNOT3_fn :: "vm \<Rightarrow> step" where
  "op_BNOT3_fn = rr_op (\<lambda>a. NOT a)"

text \<open>The extensions store without the \<open>REG_ZERO\<close> guard.\<close>

definition op_SX1_fn :: "vm \<Rightarrow> step" where
  "op_SX1_fn = rr_op_raw (c_sext 8)"

definition op_SX2_fn :: "vm \<Rightarrow> step" where
  "op_SX2_fn = rr_op_raw (c_sext 16)"

definition op_SX4_fn :: "vm \<Rightarrow> step" where
  "op_SX4_fn = rr_op_raw (c_sext 32)"

definition op_ZX1_fn :: "vm \<Rightarrow> step" where
  "op_ZX1_fn = rr_op_raw (c_zext 8)"

definition op_ZX2_fn :: "vm \<Rightarrow> step" where
  "op_ZX2_fn = rr_op_raw (c_zext 16)"

definition op_ZX4_fn :: "vm \<Rightarrow> step" where
  "op_ZX4_fn = rr_op_raw (c_zext 32)"

subsection \<open>Immediates and multiply-add\<close>

definition op_ADDI3_fn :: "vm \<Rightarrow> step" where
  "op_ADDI3_fn = rri_op (\<lambda>a imm. a + imm)"

definition op_MULI3_fn :: "vm \<Rightarrow> step" where
  "op_MULI3_fn = rri_op (\<lambda>a imm. a * imm)"

definition op_MULADD3_fn :: "vm \<Rightarrow> step" where
  "op_MULADD3_fn vm =
     (let (w, vm1) = cc_read_word vm
      in Inr (set_reg (opnd_byte w 0)
                (regs vm1 (opnd_byte w 1) +
                 regs vm1 (opnd_byte w 2) * regs vm1 (opnd_byte w 3)) vm1))"

definition op_MULADDI3_fn :: "vm \<Rightarrow> step" where
  "op_MULADDI3_fn vm =
     (let (w, vm1) = cc_read_word vm; (imm, vm2) = cc_read_i64 vm1
      in Inr (set_reg (opnd_byte w 0)
                (regs vm2 (opnd_byte w 1) + regs vm2 (opnd_byte w 2) * imm) vm2))"

definition op_SEQI3_fn :: "vm \<Rightarrow> step" where
  "op_SEQI3_fn = rri_op (\<lambda>a imm. c_bool (a = imm))"

definition op_SNEI3_fn :: "vm \<Rightarrow> step" where
  "op_SNEI3_fn = rri_op (\<lambda>a imm. c_bool (a \<noteq> imm))"

definition op_SLTI3_fn :: "vm \<Rightarrow> step" where
  "op_SLTI3_fn = rri_op (\<lambda>a imm. c_bool (sint a < sint imm))"

definition op_SLEI3_fn :: "vm \<Rightarrow> step" where
  "op_SLEI3_fn = rri_op (\<lambda>a imm. c_bool (sint a \<le> sint imm))"

definition op_SGTI3_fn :: "vm \<Rightarrow> step" where
  "op_SGTI3_fn = rri_op (\<lambda>a imm. c_bool (sint a > sint imm))"

definition op_SGEI3_fn :: "vm \<Rightarrow> step" where
  "op_SGEI3_fn = rri_op (\<lambda>a imm. c_bool (sint a \<ge> sint imm))"

definition op_ULTI3_fn :: "vm \<Rightarrow> step" where
  "op_ULTI3_fn = rri_op (\<lambda>a imm. c_bool (uint a < uint imm))"

definition op_ULEI3_fn :: "vm \<Rightarrow> step" where
  "op_ULEI3_fn = rri_op (\<lambda>a imm. c_bool (uint a \<le> uint imm))"

definition op_UGTI3_fn :: "vm \<Rightarrow> step" where
  "op_UGTI3_fn = rri_op (\<lambda>a imm. c_bool (uint a > uint imm))"

definition op_UGEI3_fn :: "vm \<Rightarrow> step" where
  "op_UGEI3_fn = rri_op (\<lambda>a imm. c_bool (uint a \<ge> uint imm))"

text \<open>The immediate shifts use the immediate unmasked: outside 0 to 63 the host shift is
  undefined.\<close>

definition shift_imm_op :: "(u64 \<Rightarrow> nat \<Rightarrow> u64) \<Rightarrow> vm \<Rightarrow> step" where
  "shift_imm_op f vm =
     (let (w, vm1) = cc_read_word vm; (imm, vm2) = cc_read_i64 vm1; rd = opnd_byte w 0
      in if rd \<noteq> REG_ZERO \<and> (sint imm < 0 \<or> sint imm > 63) then Inl (Host_UB, vm2)
         else Inr (set_reg rd (f (regs vm2 (opnd_byte w 1)) (unat imm)) vm2))"

definition op_SHLI3_fn :: "vm \<Rightarrow> step" where
  "op_SHLI3_fn = shift_imm_op (\<lambda>a k. push_bit k a)"

definition op_SHRI3_fn :: "vm \<Rightarrow> step" where
  "op_SHRI3_fn = shift_imm_op (\<lambda>a k. c_sar a k)"

definition op_USHRI3_fn :: "vm \<Rightarrow> step" where
  "op_USHRI3_fn = shift_imm_op (\<lambda>a k. drop_bit k a)"

definition op_ANDI3_fn :: "vm \<Rightarrow> step" where
  "op_ANDI3_fn = rri_op (\<lambda>a imm. a AND imm)"

definition op_ORI3_fn :: "vm \<Rightarrow> step" where
  "op_ORI3_fn = rri_op (\<lambda>a imm. a OR imm)"

definition op_XORI3_fn :: "vm \<Rightarrow> step" where
  "op_XORI3_fn = rri_op (\<lambda>a imm. a XOR imm)"

subsection \<open>Bit-field extract and insert\<close>

definition bf_mask :: "nat \<Rightarrow> u64" where
  "bf_mask w = (if w \<ge> 64 then NOT 0 else push_bit w 1 - 1)"

definition op_UBFX_fn :: "vm \<Rightarrow> step" where
  "op_UBFX_fn vm =
     (let (wd, vm1) = cc_read_word vm
      in Inr (set_reg (opnd_byte wd 0)
                (drop_bit (DECODE_BF_off wd) (regs vm1 (opnd_byte wd 1))
                   AND bf_mask (DECODE_BF_w wd)) vm1))"

text \<open>\<open>64 - w - off\<close> is negative, and the shift undefined, when the field passes bit 63.\<close>

definition op_SBFX_fn :: "vm \<Rightarrow> step" where
  "op_SBFX_fn vm =
     (let (wd, vm1) = cc_read_word vm; off = DECODE_BF_off wd; w = DECODE_BF_w wd;
          rd = opnd_byte wd 0
      in if rd \<noteq> REG_ZERO \<and> off + w > 64 then Inl (Host_UB, vm1)
         else Inr (set_reg rd
                (c_sar (push_bit (64 - w - off) (regs vm1 (opnd_byte wd 1))) (64 - w)) vm1))"

definition op_BFI_fn :: "vm \<Rightarrow> step" where
  "op_BFI_fn vm =
     (let (wd, vm1) = cc_read_word vm; (fw, vm2) = cc_read_word vm1;
          off = DECODE_BFW_off fw; m = bf_mask (DECODE_BFW_w fw)
      in Inr (set_reg (opnd_byte wd 0)
                ((regs vm2 (opnd_byte wd 1) AND NOT (push_bit off m)) OR
                 push_bit off (regs vm2 (opnd_byte wd 2) AND m)) vm2))"

subsection \<open>32-bit arithmetic with its wrap\<close>

definition op_ADDSX3_fn :: "vm \<Rightarrow> step" where
  "op_ADDSX3_fn = rrr_op_raw (\<lambda>a b. c_sext 32 (a + b))"

definition op_ADDZX3_fn :: "vm \<Rightarrow> step" where
  "op_ADDZX3_fn = rrr_op_raw (\<lambda>a b. c_zext 32 (a + b))"

definition op_SUBSX3_fn :: "vm \<Rightarrow> step" where
  "op_SUBSX3_fn = rrr_op_raw (\<lambda>a b. c_sext 32 (a - b))"

definition op_SUBZX3_fn :: "vm \<Rightarrow> step" where
  "op_SUBZX3_fn = rrr_op_raw (\<lambda>a b. c_zext 32 (a - b))"

definition op_MULSX3_fn :: "vm \<Rightarrow> step" where
  "op_MULSX3_fn = rrr_op_raw (\<lambda>a b. c_sext 32 (a * b))"

definition op_MULZX3_fn :: "vm \<Rightarrow> step" where
  "op_MULZX3_fn = rrr_op_raw (\<lambda>a b. c_zext 32 (a * b))"

definition op_ADDISX3_fn :: "vm \<Rightarrow> step" where
  "op_ADDISX3_fn = rri_op_raw (\<lambda>a imm. c_sext 32 (a + imm))"

definition op_ADDIZX3_fn :: "vm \<Rightarrow> step" where
  "op_ADDIZX3_fn = rri_op_raw (\<lambda>a imm. c_zext 32 (a + imm))"

definition op_MULISX3_fn :: "vm \<Rightarrow> step" where
  "op_MULISX3_fn = rri_op_raw (\<lambda>a imm. c_sext 32 (a * imm))"

definition op_MULIZX3_fn :: "vm \<Rightarrow> step" where
  "op_MULIZX3_fn = rri_op_raw (\<lambda>a imm. c_zext 32 (a * imm))"

definition wrap_shl_op :: "(u64 \<Rightarrow> u64) \<Rightarrow> vm \<Rightarrow> step" where
  "wrap_shl_op wrap vm =
     (let (w, vm1) = cc_read_word vm; (imm, vm2) = cc_read_i64 vm1
      in if uint imm > 63 then Inl (Host_UB, vm2)
         else Inr (put_reg (opnd_byte w 0)
                (wrap (push_bit (unat imm) (regs vm2 (opnd_byte w 1)))) vm2))"

definition op_SHLISX3_fn :: "vm \<Rightarrow> step" where
  "op_SHLISX3_fn = wrap_shl_op (c_sext 32)"

definition op_SHLIZX3_fn :: "vm \<Rightarrow> step" where
  "op_SHLIZX3_fn = wrap_shl_op (c_zext 32)"

end
