(* ===== verification/VM_Mem.thy ===== *)
theory VM_Mem
  imports VM_State
begin

text \<open>
  Guest memory and the handlers that read and write it: the byte-wise loads and stores
  (\<open>ld_*\<close>/\<open>st_*\<close>), compile-time containment (\<open>comptime_vm_region_left\<close> and
  \<open>cccc_comptime_addr_ok\<close>, the check every memory handler makes while \<open>@comptime\<close> code runs),
  and the plain, frame-relative and indexed load and store handlers of \<open>src/src/ops.c\<close>.

  Guest addresses are host addresses, so memory is a map from 64-bit addresses to bytes.
  The thread-race and watchpoint hooks (\<open>check_race_access\<close>, \<open>WATCHPOINT_CHECK\<close>) only report;
  they are not modelled. Host ranges that libc results registered
  (\<open>cccc_comptime_host_range_left\<close>) come from another component and are the parameter
  \<open>host_left\<close>.
\<close>

subsection \<open>Bytes\<close>

fun ld_bytes :: "nat \<Rightarrow> (u64 \<Rightarrow> u8) \<Rightarrow> u64 \<Rightarrow> u64" where
  "ld_bytes 0 m p = 0"
| "ld_bytes (Suc n) m p = ucast (m p) OR push_bit 8 (ld_bytes n m (p + 1))"

fun st_bytes :: "nat \<Rightarrow> (u64 \<Rightarrow> u8) \<Rightarrow> u64 \<Rightarrow> u64 \<Rightarrow> u64 \<Rightarrow> u8" where
  "st_bytes 0 m p v = m"
| "st_bytes (Suc n) m p v = (st_bytes n m (p + 1) (drop_bit 8 v))(p := ucast v)"

definition ld_i8 :: "(u64 \<Rightarrow> u8) \<Rightarrow> u64 \<Rightarrow> u64" where
  "ld_i8 m p = c_sext 8 (ld_bytes 1 m p)"

definition ld_i16 :: "(u64 \<Rightarrow> u8) \<Rightarrow> u64 \<Rightarrow> u64" where
  "ld_i16 m p = c_sext 16 (ld_bytes 2 m p)"

definition ld_i32 :: "(u64 \<Rightarrow> u8) \<Rightarrow> u64 \<Rightarrow> u64" where
  "ld_i32 m p = c_sext 32 (ld_bytes 4 m p)"

definition ld_u8 :: "(u64 \<Rightarrow> u8) \<Rightarrow> u64 \<Rightarrow> u64" where
  "ld_u8 m p = ld_bytes 1 m p"

definition ld_u32 :: "(u64 \<Rightarrow> u8) \<Rightarrow> u64 \<Rightarrow> u64" where
  "ld_u32 m p = ld_bytes 4 m p"

definition ld_i64 :: "(u64 \<Rightarrow> u8) \<Rightarrow> u64 \<Rightarrow> u64" where
  "ld_i64 m p = ld_bytes 8 m p"

definition st_i8 :: "(u64 \<Rightarrow> u8) \<Rightarrow> u64 \<Rightarrow> u64 \<Rightarrow> u64 \<Rightarrow> u8" where
  "st_i8 m p v = st_bytes 1 m p v"

definition st_i16 :: "(u64 \<Rightarrow> u8) \<Rightarrow> u64 \<Rightarrow> u64 \<Rightarrow> u64 \<Rightarrow> u8" where
  "st_i16 m p v = st_bytes 2 m p v"

definition st_i32 :: "(u64 \<Rightarrow> u8) \<Rightarrow> u64 \<Rightarrow> u64 \<Rightarrow> u64 \<Rightarrow> u8" where
  "st_i32 m p v = st_bytes 4 m p v"

definition st_i64 :: "(u64 \<Rightarrow> u8) \<Rightarrow> u64 \<Rightarrow> u64 \<Rightarrow> u64 \<Rightarrow> u8" where
  "st_i64 m p v = st_bytes 8 m p v"

subsection \<open>Compile-time containment\<close>

definition comptime_addr_in :: "u64 \<Rightarrow> u64 \<Rightarrow> u64 \<Rightarrow> u64 \<Rightarrow> bool" where
  "comptime_addr_in p n base len \<longleftrightarrow> p \<ge> base \<and> n \<le> len \<and> p - base \<le> len - n"

definition comptime_regions :: "vm \<Rightarrow> (u64 \<times> u64 \<times> bool) list" where
  "comptime_regions vm =
     [(data_seg vm, data_committed vm, False),
      (heap_seg vm, heap_committed vm, False),
      (stack_base vm, stack_committed vm, False),
      (current_tls_seg vm, tls_template_size vm, False),
      (text_base vm, text_committed vm, True)]"

fun region_left :: "(u64 \<times> u64 \<times> bool) list \<Rightarrow> u64 \<Rightarrow> bool \<Rightarrow> u64" where
  "region_left [] p wr = 0"
| "region_left ((base, len, readonly) # rs) p wr =
     (if readonly \<and> wr then region_left rs p wr
      else if comptime_addr_in p 1 base len then len - (p - base)
      else region_left rs p wr)"

definition comptime_vm_region_left :: "vm \<Rightarrow> u64 \<Rightarrow> bool \<Rightarrow> u64" where
  "comptime_vm_region_left vm p wr = region_left (comptime_regions vm) p wr"

type_synonym host_ranges = "u64 \<Rightarrow> bool \<Rightarrow> u64"

definition comptime_region_left :: "host_ranges \<Rightarrow> vm \<Rightarrow> u64 \<Rightarrow> bool \<Rightarrow> u64" where
  "comptime_region_left host_left vm p wr =
     (let left = comptime_vm_region_left vm p wr
      in if left \<noteq> 0 then left else host_left p wr)"

definition cccc_comptime_in_vm :: "vm \<Rightarrow> u64 \<Rightarrow> bool" where
  "cccc_comptime_in_vm vm p \<longleftrightarrow> comptime_vm_region_left vm p False \<noteq> 0"

definition cccc_comptime_addr_ok :: "host_ranges \<Rightarrow> vm \<Rightarrow> u64 \<Rightarrow> nat \<Rightarrow> bool \<Rightarrow> bool" where
  "cccc_comptime_addr_ok host_left vm p n wr \<longleftrightarrow>
     (if n = 0 then True else unat (comptime_region_left host_left vm p wr) \<ge> n)"

text \<open>\<open>memchr\<close> for the terminator within the readable bytes.\<close>

fun find_nul :: "(u64 \<Rightarrow> u8) \<Rightarrow> u64 \<Rightarrow> nat \<Rightarrow> nat \<Rightarrow> int" where
  "find_nul m p i 0 = - 1"
| "find_nul m p i (Suc n) = (if m p = 0 then int i else find_nul m (p + 1) (Suc i) n)"

definition cccc_comptime_cstr_len :: "host_ranges \<Rightarrow> vm \<Rightarrow> u64 \<Rightarrow> u64 \<Rightarrow> int" where
  "cccc_comptime_cstr_len host_left vm p limit =
     (let left = comptime_region_left host_left vm p False;
          left = (if left > limit then limit else left)
      in find_nul (mem vm) p 0 (unat left))"

text \<open>The macro \<open>COMPTIME_CONTAIN\<close>: outside compile time, or when the range is allowed, go
  on; otherwise report and fail.\<close>

definition COMPTIME_CONTAIN ::
  "host_ranges \<Rightarrow> vm \<Rightarrow> u64 \<Rightarrow> nat \<Rightarrow> bool \<Rightarrow> step \<Rightarrow> step" where
  "COMPTIME_CONTAIN host_left vm p n wr k =
     (if comptime_depth vm \<noteq> 0 \<and> \<not> cccc_comptime_addr_ok host_left vm p n wr
      then Inl (Comptime_Access p n wr, vm) else k)"

subsection \<open>Loads and stores through a register\<close>

type_synonym loader = "(u64 \<Rightarrow> u8) \<Rightarrow> u64 \<Rightarrow> u64"

type_synonym storer = "(u64 \<Rightarrow> u8) \<Rightarrow> u64 \<Rightarrow> u64 \<Rightarrow> u64 \<Rightarrow> u8"

definition load_op :: "nat \<Rightarrow> loader \<Rightarrow> host_ranges \<Rightarrow> vm \<Rightarrow> step" where
  "load_op n ld host_left vm =
     (let (w, vm1) = cc_read_word vm; rd = opnd_byte w 0; p = regs vm1 (opnd_byte w 1)
      in if rd \<noteq> REG_ZERO
         then COMPTIME_CONTAIN host_left vm1 p n False
                (Inr (put_reg rd (ld (mem vm1) p) vm1))
         else Inr vm1)"

definition store_op :: "nat \<Rightarrow> storer \<Rightarrow> host_ranges \<Rightarrow> vm \<Rightarrow> step" where
  "store_op n st host_left vm =
     (let (w, vm1) = cc_read_word vm; p = regs vm1 (opnd_byte w 1)
      in COMPTIME_CONTAIN host_left vm1 p n True
           (Inr (vm1\<lparr>mem := st (mem vm1) p (regs vm1 (opnd_byte w 0))\<rparr>)))"

definition op_LDR_B_fn :: "host_ranges \<Rightarrow> vm \<Rightarrow> step" where
  "op_LDR_B_fn = load_op 1 ld_i8"

definition op_LDR_H_fn :: "host_ranges \<Rightarrow> vm \<Rightarrow> step" where
  "op_LDR_H_fn = load_op 2 ld_i16"

definition op_LDR_UB_fn :: "host_ranges \<Rightarrow> vm \<Rightarrow> step" where
  "op_LDR_UB_fn = load_op 1 ld_u8"

definition op_LDR_UW_fn :: "host_ranges \<Rightarrow> vm \<Rightarrow> step" where
  "op_LDR_UW_fn = load_op 4 ld_u32"

definition op_LDR_W_fn :: "host_ranges \<Rightarrow> vm \<Rightarrow> step" where
  "op_LDR_W_fn = load_op 4 ld_i32"

definition op_LDR_D_fn :: "host_ranges \<Rightarrow> vm \<Rightarrow> step" where
  "op_LDR_D_fn = load_op 8 ld_i64"

definition op_STR_B_fn :: "host_ranges \<Rightarrow> vm \<Rightarrow> step" where
  "op_STR_B_fn = store_op 1 st_i8"

definition op_STR_H_fn :: "host_ranges \<Rightarrow> vm \<Rightarrow> step" where
  "op_STR_H_fn = store_op 2 st_i16"

definition op_STR_W_fn :: "host_ranges \<Rightarrow> vm \<Rightarrow> step" where
  "op_STR_W_fn = store_op 4 st_i32"

definition op_STR_D_fn :: "host_ranges \<Rightarrow> vm \<Rightarrow> step" where
  "op_STR_D_fn = store_op 8 st_i64"

subsection \<open>Indexed loads and stores\<close>

definition op_index_addr :: "vm \<Rightarrow> nat \<Rightarrow> nat \<Rightarrow> nat \<Rightarrow> u64 \<Rightarrow> u64" where
  "op_index_addr vm base index scale offset =
     regs vm base + regs vm index * of_nat scale + offset"

definition index_load_op :: "nat \<Rightarrow> loader \<Rightarrow> host_ranges \<Rightarrow> vm \<Rightarrow> step" where
  "index_load_op n ld host_left vm =
     (let (w, vm1) = cc_read_word vm; (offset, vm2) = cc_read_i64 vm1; rd = opnd_byte w 0;
          p = op_index_addr vm2 (opnd_byte w 1) (opnd_byte w 2) (opnd_byte w 3) offset
      in if rd \<noteq> REG_ZERO
         then COMPTIME_CONTAIN host_left vm2 p n False
                (Inr (put_reg rd (ld (mem vm2) p) vm2))
         else Inr vm2)"

definition index_store_op :: "nat \<Rightarrow> storer \<Rightarrow> host_ranges \<Rightarrow> vm \<Rightarrow> step" where
  "index_store_op n st host_left vm =
     (let (w, vm1) = cc_read_word vm; (offset, vm2) = cc_read_i64 vm1;
          p = op_index_addr vm2 (opnd_byte w 1) (opnd_byte w 2) (opnd_byte w 3) offset
      in COMPTIME_CONTAIN host_left vm2 p n True
           (Inr (vm2\<lparr>mem := st (mem vm2) p (regs vm2 (opnd_byte w 0))\<rparr>)))"

definition op_LDR_INDEX_B_fn :: "host_ranges \<Rightarrow> vm \<Rightarrow> step" where
  "op_LDR_INDEX_B_fn = index_load_op 1 ld_i8"

definition op_LDR_INDEX_H_fn :: "host_ranges \<Rightarrow> vm \<Rightarrow> step" where
  "op_LDR_INDEX_H_fn = index_load_op 2 ld_i16"

definition op_LDR_INDEX_W_fn :: "host_ranges \<Rightarrow> vm \<Rightarrow> step" where
  "op_LDR_INDEX_W_fn = index_load_op 4 ld_i32"

definition op_LDR_INDEX_D_fn :: "host_ranges \<Rightarrow> vm \<Rightarrow> step" where
  "op_LDR_INDEX_D_fn = index_load_op 8 ld_i64"

definition op_LDR_INDEX_UB_fn :: "host_ranges \<Rightarrow> vm \<Rightarrow> step" where
  "op_LDR_INDEX_UB_fn = index_load_op 1 ld_u8"

definition op_LDR_INDEX_UW_fn :: "host_ranges \<Rightarrow> vm \<Rightarrow> step" where
  "op_LDR_INDEX_UW_fn = index_load_op 4 ld_u32"

definition op_STR_INDEX_B_fn :: "host_ranges \<Rightarrow> vm \<Rightarrow> step" where
  "op_STR_INDEX_B_fn = index_store_op 1 st_i8"

definition op_STR_INDEX_H_fn :: "host_ranges \<Rightarrow> vm \<Rightarrow> step" where
  "op_STR_INDEX_H_fn = index_store_op 2 st_i16"

definition op_STR_INDEX_W_fn :: "host_ranges \<Rightarrow> vm \<Rightarrow> step" where
  "op_STR_INDEX_W_fn = index_store_op 4 st_i32"

definition op_STR_INDEX_D_fn :: "host_ranges \<Rightarrow> vm \<Rightarrow> step" where
  "op_STR_INDEX_D_fn = index_store_op 8 st_i64"

subsection \<open>Frame-relative loads and stores\<close>

text \<open>\<open>bp\<close> is a \<open>long long *\<close>: the offset counts 8-byte slots. These handlers make no
  containment check.\<close>

definition local_addr :: "vm \<Rightarrow> u64 \<Rightarrow> u64" where
  "local_addr vm offset = bp vm + offset * 8"

definition local_load_op :: "loader \<Rightarrow> vm \<Rightarrow> step" where
  "local_load_op ld vm =
     (let (w, vm1) = cc_read_word vm; (offset, vm2) = cc_read_i64 vm1
      in Inr (set_reg (opnd_byte w 0) (ld (mem vm2) (local_addr vm2 offset)) vm2))"

definition local_store_op :: "storer \<Rightarrow> vm \<Rightarrow> step" where
  "local_store_op st vm =
     (let (w, vm1) = cc_read_word vm; (offset, vm2) = cc_read_i64 vm1
      in Inr (vm2\<lparr>mem := st (mem vm2) (local_addr vm2 offset) (regs vm2 (opnd_byte w 0))\<rparr>))"

definition op_LDR_LOCAL_B_fn :: "vm \<Rightarrow> step" where
  "op_LDR_LOCAL_B_fn = local_load_op ld_i8"

definition op_LDR_LOCAL_H_fn :: "vm \<Rightarrow> step" where
  "op_LDR_LOCAL_H_fn = local_load_op ld_i16"

definition op_LDR_LOCAL_W_fn :: "vm \<Rightarrow> step" where
  "op_LDR_LOCAL_W_fn = local_load_op ld_i32"

definition op_LDR_LOCAL_UB_fn :: "vm \<Rightarrow> step" where
  "op_LDR_LOCAL_UB_fn = local_load_op ld_u8"

definition op_LDR_LOCAL_UW_fn :: "vm \<Rightarrow> step" where
  "op_LDR_LOCAL_UW_fn = local_load_op ld_u32"

definition op_LDR_LOCAL_D_fn :: "vm \<Rightarrow> step" where
  "op_LDR_LOCAL_D_fn = local_load_op ld_i64"

definition op_STR_LOCAL_B_fn :: "vm \<Rightarrow> step" where
  "op_STR_LOCAL_B_fn = local_store_op st_i8"

definition op_STR_LOCAL_H_fn :: "vm \<Rightarrow> step" where
  "op_STR_LOCAL_H_fn = local_store_op st_i16"

definition op_STR_LOCAL_W_fn :: "vm \<Rightarrow> step" where
  "op_STR_LOCAL_W_fn = local_store_op st_i32"

definition op_STR_LOCAL_D_fn :: "vm \<Rightarrow> step" where
  "op_STR_LOCAL_D_fn = local_store_op st_i64"

subsection \<open>Store and load agree\<close>

lemma st_bytes_frame:
  "(\<And>i. i < n \<Longrightarrow> q \<noteq> p + of_nat i) \<Longrightarrow> st_bytes n m p v q = m q"
proof (induction n arbitrary: p v)
  case 0
  then show ?case by simp
next
  case (Suc n)
  have "q \<noteq> p" using Suc.prems [of 0] by simp
  moreover have "st_bytes n m (p + 1) (drop_bit 8 v) q = m q"
  proof (rule Suc.IH)
    fix i assume "i < n"
    then show "q \<noteq> p + 1 + of_nat i" using Suc.prems [of "Suc i"] by (simp add: algebra_simps)
  qed
  ultimately show ?case by simp
qed

lemma ld_bytes_cong:
  "(\<And>i. i < n \<Longrightarrow> m (p + of_nat i) = m' (p + of_nat i)) \<Longrightarrow> ld_bytes n m p = ld_bytes n m' p"
proof (induction n arbitrary: p)
  case 0
  then show ?case by simp
next
  case (Suc n)
  have "m p = m' p" using Suc.prems [of 0] by simp
  moreover have "ld_bytes n m (p + 1) = ld_bytes n m' (p + 1)"
  proof (rule Suc.IH)
    fix i assume "i < n"
    then show "m (p + 1 + of_nat i) = m' (p + 1 + of_nat i)"
      using Suc.prems [of "Suc i"] by (simp add: algebra_simps)
  qed
  ultimately show ?case by simp
qed

lemma word_of_nat_small_neq0: "0 < i \<Longrightarrow> i < 2 ^ 64 \<Longrightarrow> (of_nat i :: u64) \<noteq> 0"
proof
  assume i: "0 < i" "i < 2 ^ 64" and "(of_nat i :: u64) = 0"
  then have "unat (of_nat i :: u64) = 0" by simp
  with i show False by (simp add: unsigned_of_nat take_bit_nat_eq_self)
qed

lemma take_bit_push_split:
  "ucast (ucast v :: u8) OR push_bit 8 (take_bit k (drop_bit 8 v)) = take_bit (8 + k) (v :: u64)"
  by (rule bit_word_eqI) (auto simp: bit_simps)

lemma ld_st_bytes: "n \<le> 8 \<Longrightarrow> ld_bytes n (st_bytes n m p v) p = take_bit (8 * n) v"
proof (induction n arbitrary: p v)
  case 0
  then show ?case by simp
next
  case (Suc n)
  let ?m = "st_bytes n m (p + 1) (drop_bit 8 v)"
  have "ld_bytes n (?m(p := ucast v)) (p + 1) = ld_bytes n ?m (p + 1)"
  proof (rule ld_bytes_cong)
    fix i assume "i < n"
    then have "(of_nat (Suc i) :: u64) \<noteq> 0" using Suc.prems by (intro word_of_nat_small_neq0) auto
    then have "p + 1 + of_nat i \<noteq> p" by (simp add: algebra_simps)
    then show "(?m(p := ucast v)) (p + 1 + of_nat i) = ?m (p + 1 + of_nat i)" by simp
  qed
  also have "\<dots> = take_bit (8 * n) (drop_bit 8 v)" using Suc by simp
  finally show ?case by (simp add: take_bit_push_split del: fun_upd_apply) (simp add: take_bit_push_split)
qed

subsection \<open>Containment is sound\<close>

text \<open>A byte belongs to a region when its distance from the base is below the length.\<close>

definition in_region :: "u64 \<times> u64 \<times> bool \<Rightarrow> u64 \<Rightarrow> bool" where
  "in_region r q \<longleftrightarrow> (case r of (base, len, readonly) \<Rightarrow> q - base < len)"

definition vm_writable :: "vm \<Rightarrow> u64 \<Rightarrow> bool" where
  "vm_writable vm q \<longleftrightarrow> (\<exists>r \<in> set (comptime_regions vm). \<not> snd (snd r) \<and> in_region r q)"

lemma addr_in_1: "comptime_addr_in p 1 base len \<Longrightarrow> p - base < len"
  unfolding comptime_addr_in_def by unat_arith

lemma region_left_sound:
  assumes "region_left rs p wr \<noteq> 0" and "n \<le> unat (region_left rs p wr)" and "i < n"
  shows "\<exists>r \<in> set rs. \<not> (snd (snd r) \<and> wr) \<and> in_region r (p + of_nat i)"
  using assms
proof (induction rs p wr rule: region_left.induct)
  case (1 p wr)
  then show ?case by simp
next
  case (2 base len readonly rs p wr)
  show ?case
  proof (cases "\<not> (readonly \<and> wr) \<and> comptime_addr_in p 1 base len")
    case True
    then have lt: "p - base < len" by (auto dest: addr_in_1)
    have "n \<le> unat (len - (p - base))" using True "2.prems"(2) by (auto split: if_splits)
    then have "n \<le> unat len - unat (p - base)"
      using lt by (simp add: unat_sub order_less_imp_le)
    then have *: "unat (p - base) + i < unat len" using \<open>i < n\<close> by linarith
    have "unat (p + of_nat i - base) = unat (p - base) + i"
    proof -
      have eq: "p + of_nat i - base = of_nat (unat (p - base) + i)" by simp
      have "unat len < 2 ^ 64" using unsigned_less [of len] by simp
      with * show ?thesis
        unfolding eq by (simp add: unsigned_of_nat take_bit_nat_eq_self del: of_nat_add)
    qed
    with * have "p + of_nat i - base < len" by (simp add: word_less_nat_alt)
    with True show ?thesis by (auto simp: in_region_def)
  next
    case False
    with 2 show ?thesis by (auto split: if_splits)
  qed
qed

text \<open>With no registered host range, an allowed write lies inside the writable segments.\<close>

lemma addr_ok_writable:
  assumes "cccc_comptime_addr_ok (\<lambda>_ _. 0) vm p n True" and "i < n"
  shows "vm_writable vm (p + of_nat i)"
proof -
  let ?left = "region_left (comptime_regions vm) p True"
  have "n \<le> unat ?left"
    using assms by (auto simp: cccc_comptime_addr_ok_def comptime_region_left_def
        comptime_vm_region_left_def Let_def split: if_splits)
  moreover from this assms(2) have "?left \<noteq> 0" by auto
  ultimately show ?thesis
    using region_left_sound [of "comptime_regions vm" p True n i] assms(2)
    by (auto simp: vm_writable_def)
qed

definition storer_width :: "nat \<Rightarrow> storer \<Rightarrow> bool" where
  "storer_width n st \<longleftrightarrow> (\<forall>m p v q. (\<forall>i < n. q \<noteq> p + of_nat i) \<longrightarrow> st m p v q = m q)"

lemma storer_widths [simp]:
  "storer_width 1 st_i8" "storer_width 2 st_i16" "storer_width 4 st_i32" "storer_width 8 st_i64"
  unfolding storer_width_def st_i8_def st_i16_def st_i32_def st_i64_def
  by (auto intro!: st_bytes_frame)

lemma COMPTIME_CONTAIN_Inr:
  "COMPTIME_CONTAIN h vm p n wr k = Inr vm' \<longleftrightarrow>
     (comptime_depth vm = 0 \<or> cccc_comptime_addr_ok h vm p n wr) \<and> k = Inr vm'"
  by (auto simp: COMPTIME_CONTAIN_def)

lemma vm_writable_pc [simp]: "vm_writable (vm\<lparr>pc := x\<rparr>) q = vm_writable vm q"
  by (simp add: vm_writable_def comptime_regions_def)

lemma addr_ok_pc [simp]:
  "cccc_comptime_addr_ok h (vm\<lparr>pc := x\<rparr>) p n wr = cccc_comptime_addr_ok h vm p n wr"
  by (simp add: cccc_comptime_addr_ok_def comptime_region_left_def comptime_vm_region_left_def
      comptime_regions_def)

lemma contained_store:
  assumes "storer_width n st" "comptime_depth vm \<noteq> 0"
    and "COMPTIME_CONTAIN (\<lambda>_ _. 0) vm p n True (Inr (vm\<lparr>mem := st (mem vm) p v\<rparr>)) = Inr vm'"
    and "mem vm' q \<noteq> mem vm q"
  shows "vm_writable vm q"
proof -
  from assms(2,3) have ok: "cccc_comptime_addr_ok (\<lambda>_ _. 0) vm p n True"
    and m: "mem vm' = st (mem vm) p v" by (auto simp: COMPTIME_CONTAIN_Inr)
  with assms(1,4) obtain i where "i < n" "q = p + of_nat i"
    unfolding storer_width_def by metis
  with ok show ?thesis by (simp add: addr_ok_writable)
qed

lemma store_op_contained:
  assumes "storer_width n st" "store_op n st (\<lambda>_ _. 0) vm = Inr vm'" "comptime_depth vm \<noteq> 0"
    and "mem vm' q \<noteq> mem vm q"
  shows "vm_writable vm q"
  using contained_store [OF assms(1), of "vm\<lparr>pc := pc vm + 1\<rparr>"] assms(2-)
  by (auto simp: store_op_def cc_read_word_eq Let_def)

lemma index_store_op_contained:
  assumes "storer_width n st" "index_store_op n st (\<lambda>_ _. 0) vm = Inr vm'"
    "comptime_depth vm \<noteq> 0" and "mem vm' q \<noteq> mem vm q"
  shows "vm_writable vm q"
  using contained_store [OF assms(1), of "vm\<lparr>pc := 3 + pc vm\<rparr>"] assms(2-)
  by (auto simp: index_store_op_def cc_read_word_eq cc_read_i64_eq Let_def)

end
