(* ===== verification/VM_Builtin.thy ===== *)
theory VM_Builtin
  imports VM_Alu VM_Mem
begin

text \<open>
  The handlers of \<open>src/src/ops.c\<close> that implement compiler builtins: the bit builtins \<open>CLZ\<close> to
  \<open>BSWAP\<close>, the overflow-reporting arithmetic \<open>IOVFL\<close>, the tagged atomic accesses \<open>ALDR\<close>,
  \<open>ASTR\<close>, \<open>AXCHG\<close> and \<open>ACAS\<close>, and the block operations \<open>MCPY\<close> and \<open>MSET\<close>; and the three
  address loads \<open>LDTLS3\<close>, \<open>LTA3\<close> and \<open>LEA3\<close>. The epochs \<open>LEA3\<close> records and the calls \<open>check_atomic_access\<close>,
  \<open>type_shadow_copy\<close> and \<open>type_shadow_clear\<close> update the shadow tables of the optional safety checks,
  which are not modelled.
\<close>

subsection \<open>Address loads\<close>

definition op_LDTLS3_fn :: "vm \<Rightarrow> step" where
  "op_LDTLS3_fn vm =
     (let (w, vm1) = cc_read_word vm; (offset, vm2) = cc_read_i64 vm1
      in Inr (set_reg (opnd_byte w 0) (current_tls_seg vm2 + offset) vm2))"

definition op_LTA3_fn :: "vm \<Rightarrow> step" where
  "op_LTA3_fn vm =
     (let (w, vm1) = cc_read_word vm; (offset, vm2) = cc_read_i64 vm1
      in Inr (set_reg (opnd_byte w 0) offset vm2))"

text \<open>The address of a local: \<open>bp\<close> is a \<open>long long *\<close>, and bits 9 to 11 of the operand word ask for an
  alignment of 16, 32 or 64 bytes.\<close>

definition lea3_align_log :: "u32 \<Rightarrow> nat" where
  "lea3_align_log w = unat (drop_bit 9 w AND 7)"

definition cc_align_up_ll :: "u64 \<Rightarrow> u64 \<Rightarrow> u64" where
  "cc_align_up_ll v a = (v + a - 1) AND NOT (a - 1)"

definition op_LEA3_fn :: "vm \<Rightarrow> step" where
  "op_LEA3_fn vm =
     (let (w, vm1) = cc_read_word vm; (offset, vm2) = cc_read_i64 vm1;
          addr = local_addr vm2 offset; align_log = lea3_align_log w
      in Inr (set_reg (opnd_byte w 0)
                (if align_log \<noteq> 0 then cc_align_up_ll addr (push_bit align_log 8) else addr) vm2))"

lemma lea3_align_byte: "lea3_align_log w = opnd_byte w 1 div 2 mod 8"
proof -
  have "drop_bit 9 w AND 7 = take_bit 3 (drop_bit 1 (drop_bit 8 w AND 0xFF))"
  proof (rule bit_word_eqI)
    have m: "(7 :: u32) = mask 3" by (simp add: mask_eq_exp_minus_1)
    show "bit (drop_bit 9 w AND 7) n = bit (take_bit 3 (drop_bit 1 (drop_bit 8 w AND 0xFF))) n" for n
      unfolding m mask8_u32 by (auto simp: bit_simps)
  qed
  moreover have "unat (take_bit 3 (drop_bit 1 x)) = unat x div 2 mod 8" for x :: u32
    by (simp only: unsigned_take_bit_eq unsigned_drop_bit_eq take_bit_eq_mod drop_bit_eq_div) (simp add: unat_mod unat_div)
  ultimately show ?thesis by (simp only: lea3_align_log_def opnd_byte_def mult_1_right)
qed

subsection \<open>Bit builtins\<close>

text \<open>What GCC documents for \<open>__builtin_clz\<close> and \<open>__builtin_ctz\<close> on an \<open>n\<close>-bit value other than
  zero, and for \<open>__builtin_popcountll\<close> and \<open>__builtin_bswap\<close> on \<open>n\<close> bytes.\<close>

definition builtin_clz :: "nat \<Rightarrow> u64 \<Rightarrow> nat" where
  "builtin_clz n v = length (takeWhile (\<lambda>k. \<not> bit v k) (rev [0..<n]))"

definition builtin_ctz :: "nat \<Rightarrow> u64 \<Rightarrow> nat" where
  "builtin_ctz n v = length (takeWhile (\<lambda>k. \<not> bit v k) [0..<n])"

definition builtin_popcount :: "u64 \<Rightarrow> nat" where
  "builtin_popcount v = length (filter (bit v) [0..<64])"

fun builtin_bswap :: "nat \<Rightarrow> u64 \<Rightarrow> u64" where
  "builtin_bswap 0 v = 0"
| "builtin_bswap (Suc n) v = push_bit (8 * n) (v AND 0xFF) OR builtin_bswap n (drop_bit 8 v)"

definition builtin_width :: "u64 \<Rightarrow> nat" where
  "builtin_width width = (if sint width \<le> 32 then 32 else 64)"

text \<open>\<open>CLZ\<close> and \<open>CTZ\<close> test the whole register for zero and then pass the low \<open>width\<close> bits on; the
  builtins are undefined when only those are zero.\<close>

definition bit_scan_op :: "(nat \<Rightarrow> u64 \<Rightarrow> nat) \<Rightarrow> vm \<Rightarrow> step" where
  "bit_scan_op scan vm =
     (let (w, vm1) = cc_read_word vm; (width, vm2) = cc_read_i64 vm1;
          n = builtin_width width; val = regs vm2 (opnd_byte w 1)
      in if val = 0 then Inr (set_reg (opnd_byte w 0) (of_nat n) vm2)
         else if take_bit n val = 0 then Inl (Host_UB, vm2)
         else Inr (set_reg (opnd_byte w 0) (of_nat (scan n val)) vm2))"

definition op_CLZ_fn :: "vm \<Rightarrow> step" where
  "op_CLZ_fn = bit_scan_op builtin_clz"

definition op_CTZ_fn :: "vm \<Rightarrow> step" where
  "op_CTZ_fn = bit_scan_op builtin_ctz"

definition op_POPCOUNT_fn :: "vm \<Rightarrow> step" where
  "op_POPCOUNT_fn = rr_op (\<lambda>a. of_nat (builtin_popcount a))"

definition op_FFS_fn :: "vm \<Rightarrow> step" where
  "op_FFS_fn = rri_op (\<lambda>a width. let n = builtin_width width
     in if take_bit n a = 0 then 0 else of_nat (Suc (builtin_ctz n a)))"

definition op_BSWAP_fn :: "vm \<Rightarrow> step" where
  "op_BSWAP_fn = rri_op (\<lambda>a byte_width.
     if sint byte_width \<le> 2 then builtin_bswap 2 a
     else if sint byte_width \<le> 4 then builtin_bswap 4 a
     else builtin_bswap 8 a)"

subsection \<open>Arithmetic that reports overflow\<close>

text \<open>The operation the code \<open>op_type\<close> names, without bounds.\<close>

definition ovfl_arith :: "nat \<Rightarrow> int \<Rightarrow> int \<Rightarrow> int" where
  "ovfl_arith op_type a b = (if op_type = 0 then a + b else if op_type = 1 then a - b else a * b)"

text \<open>The bytes that are stored for a size of \<open>nbytes\<close>.\<close>

definition ovfl_store_width :: "nat \<Rightarrow> nat" where
  "ovfl_store_width nbytes = (if nbytes \<le> 1 then 1 else if nbytes \<le> 2 then 2 else if nbytes \<le> 4 then 4 else 8)"

text \<open>The stored value and whether the operation overflowed. Up to four bytes the signed operation
  is done in \<open>long long\<close>, where an overflow is undefined (\<open>None\<close>); at eight bytes the builtins
  \<open>__builtin_add_overflow\<close>, \<open>__builtin_sub_overflow\<close> and \<open>__builtin_mul_overflow\<close> decide.\<close>

definition signed_ovfl :: "nat \<Rightarrow> nat \<Rightarrow> u64 \<Rightarrow> u64 \<Rightarrow> (u64 \<times> bool) option" where
  "signed_ovfl op_type nbytes a b =
     (if nbytes \<le> 4
      then let result = (if op_type \<le> 2 then ovfl_arith op_type (sint a) (sint b) else 0);
               top = 2 ^ (8 * ovfl_store_width nbytes - 1)
           in if \<not> ll_range result then None
              else Some (word_of_int result, result < - top \<or> result > top - 1)
      else let result = ovfl_arith op_type (sint a) (sint b)
           in Some (word_of_int result, ll_overflows result))"

definition unsigned_ovfl :: "nat \<Rightarrow> nat \<Rightarrow> u64 \<Rightarrow> u64 \<Rightarrow> u64 \<times> bool" where
  "unsigned_ovfl op_type nbytes a b =
     (let ur = (if op_type = 0 then a + b else if op_type = 1 then a - b else a * b);
          mask = (if nbytes \<ge> 8 then NOT 0 else push_bit (nbytes * 8) 1 - 1);
          truncated = ur AND mask;
          exact = ovfl_arith op_type (uint a) (uint b)
      in if nbytes \<le> 4 then (truncated, ur \<noteq> truncated)
         else (ur, exact < 0 \<or> exact \<ge> 2 ^ 64))"

definition op_IOVFL_fn :: "host_ranges \<Rightarrow> vm \<Rightarrow> step" where
  "op_IOVFL_fn host_left vm =
     (let (packed, vm1) = cc_read_i64 vm;
          op_type = unat (drop_bit 8 packed AND 0xFF);
          size_enc = unat (packed AND 0xFF);
          nbytes = size_enc div 2;
          a = regs vm1 REG_A0; b = regs vm1 REG_A1; ptr = regs vm1 REG_A2
      in COMPTIME_CONTAIN host_left vm1 ptr nbytes True
           (case (if odd size_enc then Some (unsigned_ovfl op_type nbytes a b)
                  else signed_ovfl op_type nbytes a b) of
              None \<Rightarrow> Inl (Host_UB, vm1)
            | Some (result, overflow) \<Rightarrow>
                let m = (if ptr \<noteq> 0 then st_bytes (ovfl_store_width nbytes) (mem vm1) ptr result
                         else mem vm1)
                in Inr (put_reg REG_A0 (c_bool overflow) (vm1\<lparr>mem := m\<rparr>))))"

subsection \<open>Atomic accesses\<close>

text \<open>The size the immediate encodes: \<open>(int)(width_enc >> 1)\<close>, widened again where it is passed as a
  \<open>size_t\<close>. Every size but 1, 2 and 4 takes the default branch of the switch, 8 bytes.\<close>

definition enc_size :: "u64 \<Rightarrow> u64" where
  "enc_size width_enc = c_sext 32 (drop_bit 1 width_enc)"

definition ld_sized :: "u64 \<Rightarrow> bool \<Rightarrow> loader" where
  "ld_sized sz is_unsigned m p =
     (if sz = 1 then (if is_unsigned then ld_u8 m p else ld_i8 m p)
      else if sz = 2 then (if is_unsigned then c_zext 16 (ld_bytes 2 m p) else ld_i16 m p)
      else if sz = 4 then (if is_unsigned then ld_u32 m p else ld_i32 m p)
      else ld_i64 m p)"

definition st_sized :: "u64 \<Rightarrow> storer" where
  "st_sized sz =
     (if sz = 1 then st_i8 else if sz = 2 then st_i16 else if sz = 4 then st_i32 else st_i64)"

definition op_ALDR_fn :: "host_ranges \<Rightarrow> vm \<Rightarrow> step" where
  "op_ALDR_fn host_left vm =
     (let (w, vm1) = cc_read_word vm; (width_enc, vm2) = cc_read_i64 vm1;
          sz = enc_size width_enc; addr = regs vm2 (opnd_byte w 1)
      in COMPTIME_CONTAIN host_left vm2 addr (unat sz) False
           (Inr (set_reg (opnd_byte w 0) (ld_sized sz (bit width_enc 0) (mem vm2) addr) vm2)))"

definition op_ASTR_fn :: "host_ranges \<Rightarrow> vm \<Rightarrow> step" where
  "op_ASTR_fn host_left vm =
     (let (w, vm1) = cc_read_word vm; (width_enc, vm2) = cc_read_i64 vm1;
          sz = enc_size width_enc; addr = regs vm2 (opnd_byte w 1)
      in COMPTIME_CONTAIN host_left vm2 addr (unat sz) True
           (Inr (vm2\<lparr>mem := st_sized sz (mem vm2) addr (regs vm2 (opnd_byte w 0))\<rparr>)))"

definition op_AXCHG_fn :: "host_ranges \<Rightarrow> vm \<Rightarrow> step" where
  "op_AXCHG_fn host_left vm =
     (let (width_enc, vm1) = cc_read_i64 vm; sz = enc_size width_enc;
          addr = regs vm1 REG_A0; new_val = regs vm1 REG_A1
      in COMPTIME_CONTAIN host_left vm1 addr (unat sz) True
           (let old_val = ld_sized sz (bit width_enc 0) (mem vm1) addr
            in Inr (put_reg REG_A0 old_val (vm1\<lparr>mem := st_sized sz (mem vm1) addr new_val\<rparr>))))"

definition op_ACAS_fn :: "host_ranges \<Rightarrow> vm \<Rightarrow> step" where
  "op_ACAS_fn host_left vm =
     (let (width_enc, vm1) = cc_read_i64 vm; sz = enc_size width_enc;
          obj_ptr = regs vm1 REG_A0; exp_ptr = regs vm1 REG_A1; desired = regs vm1 REG_A2
      in COMPTIME_CONTAIN host_left vm1 obj_ptr (unat sz) True
           (COMPTIME_CONTAIN host_left vm1 exp_ptr (unat sz) True
              (let cur = ld_sized sz False (mem vm1) obj_ptr
               in if cur = ld_sized sz False (mem vm1) exp_ptr
                  then Inr (put_reg REG_A0 1 (vm1\<lparr>mem := st_sized sz (mem vm1) obj_ptr desired\<rparr>))
                  else Inr (put_reg REG_A0 0 (vm1\<lparr>mem := st_sized sz (mem vm1) exp_ptr cur\<rparr>)))))"

subsection \<open>Block copy and fill\<close>

text \<open>\<open>memmove\<close> and \<open>memset\<close> to zero of \<open>count\<close> bytes.\<close>

definition mem_copy :: "u64 \<Rightarrow> (u64 \<Rightarrow> u8) \<Rightarrow> u64 \<Rightarrow> u64 \<Rightarrow> u64 \<Rightarrow> u8" where
  "mem_copy count m dest src = (\<lambda>q. if q - dest < count then m (src + (q - dest)) else m q)"

definition mem_clear :: "u64 \<Rightarrow> (u64 \<Rightarrow> u8) \<Rightarrow> u64 \<Rightarrow> u64 \<Rightarrow> u8" where
  "mem_clear count m dest = (\<lambda>q. if q - dest < count then 0 else m q)"

definition op_MCPY_fn :: "host_ranges \<Rightarrow> vm \<Rightarrow> step" where
  "op_MCPY_fn host_left vm =
     (let dest = regs vm REG_A0; src = regs vm REG_A1; count = regs vm REG_A2
      in COMPTIME_CONTAIN host_left vm src (unat count) False
           (COMPTIME_CONTAIN host_left vm dest (unat count) True
              (Inr (vm\<lparr>mem := mem_copy count (mem vm) dest src\<rparr>))))"

definition op_MSET_fn :: "host_ranges \<Rightarrow> vm \<Rightarrow> step" where
  "op_MSET_fn host_left vm =
     (let dest = regs vm REG_A0; count = regs vm REG_A2
      in COMPTIME_CONTAIN host_left vm dest (unat count) True
           (Inr (vm\<lparr>mem := mem_clear count (mem vm) dest\<rparr>)))"

end
