(* ===== verification/VM_Control.thy ===== *)
theory VM_Control
  imports VM_Builtin
begin

text \<open>
  Control flow of the interpreter: conditional and fused compare-and-branch handlers, jump
  tables, computed gotos, the guest stack with its on-demand growth, direct calls, and the
  dispatch loop (\<open>cccc_vm_eval_dispatch\<close>, \<open>src/src/vm.c\<close>) with its handler table.

  \<open>cccc_vm_commit\<close> (an \<open>mprotect\<close> call) decides whether reserved stack pages can be
  committed; it is the parameter \<open>commit\<close>. The dispatch model covers the interpreter with the
  debugger, the profiler and signal delivery off.
\<close>

subsection \<open>Branches\<close>

definition op_JMP_fn :: "vm \<Rightarrow> step" where
  "op_JMP_fn vm = (let (target, vm1) = cc_read_word vm in Inr (vm1\<lparr>pc := target\<rparr>))"

definition jump_if :: "bool \<Rightarrow> u32 \<Rightarrow> vm \<Rightarrow> step" where
  "jump_if c target vm = Inr (if c then vm\<lparr>pc := target\<rparr> else vm)"

definition op_JZ3_fn :: "vm \<Rightarrow> step" where
  "op_JZ3_fn vm =
     (let (w, vm1) = cc_read_word vm; (target, vm2) = cc_read_word vm1
      in jump_if (regs vm2 (opnd_byte w 0) = 0) target vm2)"

definition op_JNZ3_fn :: "vm \<Rightarrow> step" where
  "op_JNZ3_fn vm =
     (let (w, vm1) = cc_read_word vm; (target, vm2) = cc_read_word vm1
      in jump_if (regs vm2 (opnd_byte w 0) \<noteq> 0) target vm2)"

text \<open>The relations the branch macros take as \<open>TYPE, OPER\<close>.\<close>

type_synonym word_rel = "u64 \<Rightarrow> u64 \<Rightarrow> bool"

definition br_op :: "word_rel \<Rightarrow> vm \<Rightarrow> step" where
  "br_op rel vm =
     (let (w, vm1) = cc_read_word vm; (target, vm2) = cc_read_word vm1
      in jump_if (rel (regs vm2 (opnd_byte w 0)) (regs vm2 (opnd_byte w 1))) target vm2)"

text \<open>\<open>(long long)(operands >> 8)\<close>: the signed upper 24 bits of the operand word.\<close>

definition br_imm24 :: "u32 \<Rightarrow> u64" where
  "br_imm24 w = word_of_int (sint (signed_drop_bit 8 w))"

definition br_imm_op :: "word_rel \<Rightarrow> vm \<Rightarrow> step" where
  "br_imm_op rel vm =
     (let (w, vm1) = cc_read_word vm; (target, vm2) = cc_read_word vm1
      in jump_if (rel (regs vm2 (opnd_byte w 0)) (br_imm24 w)) target vm2)"

definition br_imm56 :: "u32 \<Rightarrow> u32 \<Rightarrow> u64" where
  "br_imm56 w lo = word_of_int (sint (signed_drop_bit 8 w) * 0x100000000 + uint lo)"

definition br_wide_op :: "word_rel \<Rightarrow> vm \<Rightarrow> step" where
  "br_wide_op rel vm =
     (let (w, vm1) = cc_read_word vm; (target, vm2) = cc_read_word vm1;
          (lo, vm3) = cc_read_word vm2
      in jump_if (rel (regs vm3 (opnd_byte w 0)) (br_imm56 w lo)) target vm3)"

definition op_BEQ3_fn where "op_BEQ3_fn = br_op (\<lambda>a b. a = b)"

definition op_BNE3_fn where "op_BNE3_fn = br_op (\<lambda>a b. a \<noteq> b)"

definition op_BLT3_fn where "op_BLT3_fn = br_op (\<lambda>a b. sint a < sint b)"

definition op_BLE3_fn where "op_BLE3_fn = br_op (\<lambda>a b. sint a \<le> sint b)"

definition op_BULT3_fn where "op_BULT3_fn = br_op (\<lambda>a b. uint a < uint b)"

definition op_BULE3_fn where "op_BULE3_fn = br_op (\<lambda>a b. uint a \<le> uint b)"

definition op_BEQI3_fn where "op_BEQI3_fn = br_imm_op (\<lambda>a b. a = b)"

definition op_BNEI3_fn where "op_BNEI3_fn = br_imm_op (\<lambda>a b. a \<noteq> b)"

definition op_BLTI3_fn where "op_BLTI3_fn = br_imm_op (\<lambda>a b. sint a < sint b)"

definition op_BLEI3_fn where "op_BLEI3_fn = br_imm_op (\<lambda>a b. sint a \<le> sint b)"

definition op_BGTI3_fn where "op_BGTI3_fn = br_imm_op (\<lambda>a b. sint a > sint b)"

definition op_BGEI3_fn where "op_BGEI3_fn = br_imm_op (\<lambda>a b. sint a \<ge> sint b)"

definition op_BULTI3_fn where "op_BULTI3_fn = br_imm_op (\<lambda>a b. uint a < uint b)"

definition op_BULEI3_fn where "op_BULEI3_fn = br_imm_op (\<lambda>a b. uint a \<le> uint b)"

definition op_BUGTI3_fn where "op_BUGTI3_fn = br_imm_op (\<lambda>a b. uint a > uint b)"

definition op_BUGEI3_fn where "op_BUGEI3_fn = br_imm_op (\<lambda>a b. uint a \<ge> uint b)"

definition op_BEQW3_fn where "op_BEQW3_fn = br_wide_op (\<lambda>a b. a = b)"

definition op_BNEW3_fn where "op_BNEW3_fn = br_wide_op (\<lambda>a b. a \<noteq> b)"

definition op_BLTW3_fn where "op_BLTW3_fn = br_wide_op (\<lambda>a b. sint a < sint b)"

definition op_BLEW3_fn where "op_BLEW3_fn = br_wide_op (\<lambda>a b. sint a \<le> sint b)"

definition op_BGTW3_fn where "op_BGTW3_fn = br_wide_op (\<lambda>a b. sint a > sint b)"

definition op_BGEW3_fn where "op_BGEW3_fn = br_wide_op (\<lambda>a b. sint a \<ge> sint b)"

definition op_BULTW3_fn where "op_BULTW3_fn = br_wide_op (\<lambda>a b. uint a < uint b)"

definition op_BULEW3_fn where "op_BULEW3_fn = br_wide_op (\<lambda>a b. uint a \<le> uint b)"

definition op_BUGTW3_fn where "op_BUGTW3_fn = br_wide_op (\<lambda>a b. uint a > uint b)"

definition op_BUGEW3_fn where "op_BUGEW3_fn = br_wide_op (\<lambda>a b. uint a \<ge> uint b)"

subsection \<open>Jump tables and computed gotos\<close>

definition op_JMPT_fn :: "vm \<Rightarrow> step" where
  "op_JMPT_fn vm =
     (let (table_pc, vm1) = cc_read_word vm; (count, vm2) = cc_read_word vm1;
          (default_pc, vm3) = cc_read_word vm2; index = sint (regs vm3 REG_A0)
      in if index < 0 \<or> index \<ge> uint count then Inr (vm3\<lparr>pc := default_pc\<rparr>)
         else Inr (vm3\<lparr>pc := text_seg vm3 (table_pc + word_of_int index)\<rparr>))"

definition cccc_find_dynamic_symbol :: "vm \<Rightarrow> u64 \<Rightarrow> (u32 \<times> bool) option" where
  "cccc_find_dynamic_symbol vm token =
     List.find (\<lambda>(tok, is_live). tok = ucast token \<and> is_live) (dynsyms vm)"

definition CCCC_FFI_TOKEN_BASE :: int where
  "CCCC_FFI_TOKEN_BASE = - 0x4a434380"

definition op_JMPI_fn :: "vm \<Rightarrow> step" where
  "op_JMPI_fn vm =
     (let (w, vm1) = cc_read_word vm; target_value = regs vm1 (opnd_byte w 0);
          target = cc_byte_offset_to_pc target_value
      in if cccc_find_dynamic_symbol vm1 target_value \<noteq> None \<or>
            sint target_value \<le> CCCC_FFI_TOKEN_BASE
         then Inl (Bad_Jump_Target, vm1)
         else if target = CCCC_INVALID_PC \<or> target > text_ptr vm1
         then Inl (Bad_Jump_Target, vm1)
         else Inr (vm1\<lparr>pc := target\<rparr>))"

subsection \<open>The guest stack\<close>

definition STACK_GUARD_SIZE :: nat where
  "STACK_GUARD_SIZE = 16"

type_synonym committer = "u64 \<Rightarrow> nat \<Rightarrow> nat \<Rightarrow> bool"

text \<open>\<open>vm_stack_grow\<close>: commit at least \<open>slots_needed\<close> more slots below \<open>stack_base\<close>, in whole
  chunks of \<open>poolsize\<close> slots, clamped to the reservation. \<open>None\<close> is the return value \<open>-1\<close>.\<close>

definition vm_stack_grow :: "committer \<Rightarrow> vm \<Rightarrow> nat \<Rightarrow> vm option" where
  "vm_stack_grow commit vm slots_needed =
     (let avail = unat (stack_base vm) - unat (stack_seg vm);
          need_bytes = slots_needed * 8;
          unit = poolsize vm * 8;
          chunk = (if unit < need_bytes then ((need_bytes + unit - 1) div unit) * unit else unit);
          clamp = unat (stack_base vm) < unat (stack_seg vm) + chunk;
          chunk = (if clamp then avail else chunk)
      in if clamp \<and> chunk < need_bytes then None
         else if \<not> commit (stack_seg vm) (avail - chunk) chunk then None
         else Some (vm\<lparr>stack_base := stack_base vm - of_nat chunk,
                       stack_committed := stack_committed vm + of_nat chunk\<rparr>))"

definition check_stack_overflow :: "committer \<Rightarrow> vm \<Rightarrow> nat \<Rightarrow> vm option" where
  "check_stack_overflow commit vm slots_needed =
     (if unat (sp vm) < unat (stack_base vm) + (slots_needed + STACK_GUARD_SIZE) * 8
      then vm_stack_grow commit vm (slots_needed + STACK_GUARD_SIZE)
      else Some vm)"

definition push_slot :: "u64 \<Rightarrow> vm \<Rightarrow> vm" where
  "push_slot v vm = vm\<lparr>sp := sp vm - 8, mem := st_i64 (mem vm) (sp vm - 8) v\<rparr>"

definition op_PSH3_fn :: "committer \<Rightarrow> vm \<Rightarrow> step" where
  "op_PSH3_fn commit vm =
     (let (w, vm1) = cc_read_word vm
      in case check_stack_overflow commit vm1 1 of
           None \<Rightarrow> Inl (Stack_Overflow, vm1)
         | Some vm2 \<Rightarrow> Inr (push_slot (regs vm2 (opnd_byte w 0)) vm2))"

definition op_POP3_fn :: "vm \<Rightarrow> step" where
  "op_POP3_fn vm =
     (let (w, vm1) = cc_read_word vm
      in Inr ((put_reg (opnd_byte w 0) (ld_i64 (mem vm1) (sp vm1)) vm1)\<lparr>sp := sp vm1 + 8\<rparr>))"

definition op_ADJ_fn :: "vm \<Rightarrow> step" where
  "op_ADJ_fn vm = (let (n, vm1) = cc_read_i64 vm in Inr (vm1\<lparr>sp := sp vm1 + n * 8\<rparr>))"

definition push_shadow :: "u64 \<Rightarrow> vm \<Rightarrow> vm" where
  "push_shadow v vm =
     vm\<lparr>shadow_sp := shadow_sp vm - 8, mem := st_i64 (mem vm) (shadow_sp vm - 8) v\<rparr>"

definition op_CALL_fn :: "committer \<Rightarrow> vm \<Rightarrow> step" where
  "op_CALL_fn commit vm =
     (let (target, vm1) = cc_read_word vm; ret_addr = ucast (pc vm1)
      in case check_stack_overflow commit vm1 1 of
           None \<Rightarrow> Inl (Stack_Overflow, vm1)
         | Some vm2 \<Rightarrow>
             let vm3 = push_slot ret_addr vm2;
                 vm4 = (if cfi vm3 then push_shadow ret_addr vm3 else vm3)
             in Inr (vm4\<lparr>pc := target\<rparr>))"

subsection \<open>Dispatch\<close>

text \<open>
  The handler table \<open>op_table\<close>, restricted to the handlers this library models: 152 of the 383 opcodes.
  The opcodes it leaves out are valid in the program. They are the calls and frames (\<open>ENT3\<close>,
  \<open>LEV3\<close>, \<open>CALLT\<close>, \<open>CALLI\<close>, \<open>CALLN\<close>, \<open>CALLF\<close>, \<open>SETJMP\<close>, \<open>LONGJMP\<close>, \<open>RETADDR\<close>,
  \<open>RETBUF\<close>), \<open>STKTAG\<close> and \<open>LDHA3\<close>, the allocator (\<open>MALC\<close> to \<open>PMEMA\<close>), the
  \<open>CHK\<close> and \<open>MARK\<close> safety checks, the multi-word and decimal operations, dynamic loading, signals,
  and everything that touches floating-point or vector registers.
\<close>

definition handlers :: "host_ranges \<Rightarrow> committer \<Rightarrow> (opcode \<times> (vm \<Rightarrow> step)) list" where
  "handlers host_left commit =
     [(ADD3, op_ADD3_fn),
      (SUB3, op_SUB3_fn),
      (MUL3, op_MUL3_fn),
      (DIV3, op_DIV3_fn),
      (ADDC, op_ADDC_fn),
      (SUBC, op_SUBC_fn),
      (MULC, op_MULC_fn),
      (DIVC, op_DIVC_fn),
      (MOD3, op_MOD3_fn),
      (UDIV3, op_UDIV3_fn),
      (UMOD3, op_UMOD3_fn),
      (AND3, op_AND3_fn),
      (OR3, op_OR3_fn),
      (XOR3, op_XOR3_fn),
      (SHL3, op_SHL3_fn),
      (SHR3, op_SHR3_fn),
      (USHR3, op_USHR3_fn),
      (SEQ3, op_SEQ3_fn),
      (SNE3, op_SNE3_fn),
      (SLT3, op_SLT3_fn),
      (SGE3, op_SGE3_fn),
      (SGT3, op_SGT3_fn),
      (SLE3, op_SLE3_fn),
      (ULT3, op_ULT3_fn),
      (ULE3, op_ULE3_fn),
      (LI3, op_LI3_fn),
      (LDA3, op_LDA3_fn),
      (MOV3, op_MOV3_fn),
      (NEG3, op_NEG3_fn),
      (NOT3, op_NOT3_fn),
      (BNOT3, op_BNOT3_fn),
      (SX1, op_SX1_fn),
      (SX2, op_SX2_fn),
      (SX4, op_SX4_fn),
      (ZX1, op_ZX1_fn),
      (ZX2, op_ZX2_fn),
      (ZX4, op_ZX4_fn),
      (ADDI3, op_ADDI3_fn),
      (MULI3, op_MULI3_fn),
      (MULADD3, op_MULADD3_fn),
      (MULADDI3, op_MULADDI3_fn),
      (SEQI3, op_SEQI3_fn),
      (SNEI3, op_SNEI3_fn),
      (SLTI3, op_SLTI3_fn),
      (SLEI3, op_SLEI3_fn),
      (SGTI3, op_SGTI3_fn),
      (SGEI3, op_SGEI3_fn),
      (ULTI3, op_ULTI3_fn),
      (ULEI3, op_ULEI3_fn),
      (UGTI3, op_UGTI3_fn),
      (UGEI3, op_UGEI3_fn),
      (SHLI3, op_SHLI3_fn),
      (SHRI3, op_SHRI3_fn),
      (USHRI3, op_USHRI3_fn),
      (ANDI3, op_ANDI3_fn),
      (ORI3, op_ORI3_fn),
      (XORI3, op_XORI3_fn),
      (UBFX, op_UBFX_fn),
      (SBFX, op_SBFX_fn),
      (BFI, op_BFI_fn),
      (ADDSX3, op_ADDSX3_fn),
      (ADDZX3, op_ADDZX3_fn),
      (SUBSX3, op_SUBSX3_fn),
      (SUBZX3, op_SUBZX3_fn),
      (MULSX3, op_MULSX3_fn),
      (MULZX3, op_MULZX3_fn),
      (ADDISX3, op_ADDISX3_fn),
      (ADDIZX3, op_ADDIZX3_fn),
      (MULISX3, op_MULISX3_fn),
      (MULIZX3, op_MULIZX3_fn),
      (SHLISX3, op_SHLISX3_fn),
      (SHLIZX3, op_SHLIZX3_fn),
      (LDR_B, op_LDR_B_fn host_left),
      (LDR_H, op_LDR_H_fn host_left),
      (LDR_UB, op_LDR_UB_fn host_left),
      (LDR_UW, op_LDR_UW_fn host_left),
      (LDR_W, op_LDR_W_fn host_left),
      (LDR_D, op_LDR_D_fn host_left),
      (STR_B, op_STR_B_fn host_left),
      (STR_H, op_STR_H_fn host_left),
      (STR_W, op_STR_W_fn host_left),
      (STR_D, op_STR_D_fn host_left),
      (LDR_INDEX_B, op_LDR_INDEX_B_fn host_left),
      (LDR_INDEX_H, op_LDR_INDEX_H_fn host_left),
      (LDR_INDEX_W, op_LDR_INDEX_W_fn host_left),
      (LDR_INDEX_D, op_LDR_INDEX_D_fn host_left),
      (LDR_INDEX_UB, op_LDR_INDEX_UB_fn host_left),
      (LDR_INDEX_UW, op_LDR_INDEX_UW_fn host_left),
      (STR_INDEX_B, op_STR_INDEX_B_fn host_left),
      (STR_INDEX_H, op_STR_INDEX_H_fn host_left),
      (STR_INDEX_W, op_STR_INDEX_W_fn host_left),
      (STR_INDEX_D, op_STR_INDEX_D_fn host_left),
      (LDR_LOCAL_B, op_LDR_LOCAL_B_fn),
      (LDR_LOCAL_H, op_LDR_LOCAL_H_fn),
      (LDR_LOCAL_W, op_LDR_LOCAL_W_fn),
      (LDR_LOCAL_UB, op_LDR_LOCAL_UB_fn),
      (LDR_LOCAL_UW, op_LDR_LOCAL_UW_fn),
      (LDR_LOCAL_D, op_LDR_LOCAL_D_fn),
      (STR_LOCAL_B, op_STR_LOCAL_B_fn),
      (STR_LOCAL_H, op_STR_LOCAL_H_fn),
      (STR_LOCAL_W, op_STR_LOCAL_W_fn),
      (STR_LOCAL_D, op_STR_LOCAL_D_fn),
      (JMP, op_JMP_fn),
      (JZ3, op_JZ3_fn),
      (JNZ3, op_JNZ3_fn),
      (BEQ3, op_BEQ3_fn),
      (BNE3, op_BNE3_fn),
      (BLT3, op_BLT3_fn),
      (BLE3, op_BLE3_fn),
      (BULT3, op_BULT3_fn),
      (BULE3, op_BULE3_fn),
      (BEQI3, op_BEQI3_fn),
      (BNEI3, op_BNEI3_fn),
      (BLTI3, op_BLTI3_fn),
      (BLEI3, op_BLEI3_fn),
      (BGTI3, op_BGTI3_fn),
      (BGEI3, op_BGEI3_fn),
      (BULTI3, op_BULTI3_fn),
      (BULEI3, op_BULEI3_fn),
      (BUGTI3, op_BUGTI3_fn),
      (BUGEI3, op_BUGEI3_fn),
      (BEQW3, op_BEQW3_fn),
      (BNEW3, op_BNEW3_fn),
      (BLTW3, op_BLTW3_fn),
      (BLEW3, op_BLEW3_fn),
      (BGTW3, op_BGTW3_fn),
      (BGEW3, op_BGEW3_fn),
      (BULTW3, op_BULTW3_fn),
      (BULEW3, op_BULEW3_fn),
      (BUGTW3, op_BUGTW3_fn),
      (BUGEW3, op_BUGEW3_fn),
      (JMPT, op_JMPT_fn),
      (JMPI, op_JMPI_fn),
      (PSH3, op_PSH3_fn commit),
      (POP3, op_POP3_fn),
      (ADJ, op_ADJ_fn),
      (CALL, op_CALL_fn commit),
      (LDTLS3, op_LDTLS3_fn),
      (LTA3, op_LTA3_fn),
      (LEA3, op_LEA3_fn),
      (CLZ, op_CLZ_fn),
      (CTZ, op_CTZ_fn),
      (POPCOUNT, op_POPCOUNT_fn),
      (FFS, op_FFS_fn),
      (BSWAP, op_BSWAP_fn),
      (IOVFL, op_IOVFL_fn host_left),
      (ALDR, op_ALDR_fn host_left),
      (ASTR, op_ASTR_fn host_left),
      (AXCHG, op_AXCHG_fn host_left),
      (ACAS, op_ACAS_fn host_left),
      (MCPY, op_MCPY_fn host_left),
      (MSET, op_MSET_fn host_left)]"

definition op_table ::
  "host_ranges \<Rightarrow> committer \<Rightarrow> opcode \<Rightarrow> (vm \<Rightarrow> step) option" where
  "op_table host_left commit = map_of (handlers host_left commit)"

datatype outcome =
    Running vm
  | Returned int vm
  | Faulted vm_fault vm

text \<open>One trip round the label \<open>dispatch\<close>: count the cycle, stop on the invalid pc, fetch,
  look the handler up, run it, and stop again if it left the invalid pc. The result is
  \<open>(int)regs[REG_A0]\<close>. A word from \<open>OP_COUNT\<close> on is the unknown instruction of the C code; a
  smaller one without an entry in the table ends the model with \<open>Not_Modelled\<close>, where the program
  goes on.\<close>

definition result_a0 :: "vm \<Rightarrow> int" where
  "result_a0 vm = sint (ucast (regs vm REG_A0) :: u32)"

definition dispatch :: "host_ranges \<Rightarrow> committer \<Rightarrow> vm \<Rightarrow> outcome" where
  "dispatch host_left commit vm0 =
     (let vm = vm0\<lparr>cycle := cycle vm0 + 1\<rparr>
      in if pc vm = CCCC_INVALID_PC then Returned (result_a0 vm) vm
         else let (w, vm1) = cc_read_word vm
              in case op_table host_left commit (unat w) of
                   None \<Rightarrow> Faulted (if unat w < OP_COUNT then Not_Modelled else Unknown_Instruction) vm1
                 | Some h \<Rightarrow>
                     (case h vm1 of
                        Inl (e, vm2) \<Rightarrow> Faulted e vm2
                      | Inr vm2 \<Rightarrow>
                          if pc vm2 = CCCC_INVALID_PC then Returned (result_a0 vm2) vm2
                          else Running vm2))"

text \<open>The loop, with a bound on the number of instructions; \<open>Running\<close> after \<open>n\<close> trips means
  the bound was reached.\<close>

fun vm_run :: "host_ranges \<Rightarrow> committer \<Rightarrow> nat \<Rightarrow> vm \<Rightarrow> outcome" where
  "vm_run host_left commit 0 vm = Running vm"
| "vm_run host_left commit (Suc n) vm =
     (case dispatch host_left commit vm of
        Running vm' \<Rightarrow> vm_run host_left commit n vm'
      | out \<Rightarrow> out)"

lemma vm_run_numeral [vm_simps]:
  "vm_run h c (numeral k) vm =
     (case dispatch h c vm of Running vm' \<Rightarrow> vm_run h c (pred_numeral k) vm' | out \<Rightarrow> out)"
  by (simp add: numeral_eq_Suc)

text \<open>The handlers that are instances of a skeleton.\<close>

lemmas handler_defs =
  op_ADD3_fn_def op_SUB3_fn_def op_MUL3_fn_def op_ADDC_fn_def op_SUBC_fn_def op_MULC_fn_def
  op_AND3_fn_def op_OR3_fn_def op_XOR3_fn_def op_SHL3_fn_def op_SHR3_fn_def op_USHR3_fn_def
  op_SEQ3_fn_def op_SNE3_fn_def op_SLT3_fn_def op_SGE3_fn_def op_SGT3_fn_def op_SLE3_fn_def
  op_ULT3_fn_def op_ULE3_fn_def op_MOV3_fn_def op_NEG3_fn_def op_NOT3_fn_def op_BNOT3_fn_def
  op_SX1_fn_def op_SX2_fn_def op_SX4_fn_def op_ZX1_fn_def op_ZX2_fn_def op_ZX4_fn_def
  op_ADDI3_fn_def op_MULI3_fn_def op_SEQI3_fn_def op_SNEI3_fn_def op_SLTI3_fn_def op_SLEI3_fn_def
  op_SGTI3_fn_def op_SGEI3_fn_def op_ULTI3_fn_def op_ULEI3_fn_def op_UGTI3_fn_def op_UGEI3_fn_def
  op_SHLI3_fn_def op_SHRI3_fn_def op_USHRI3_fn_def op_ANDI3_fn_def op_ORI3_fn_def op_XORI3_fn_def
  op_ADDSX3_fn_def op_ADDZX3_fn_def op_SUBSX3_fn_def op_SUBZX3_fn_def op_MULSX3_fn_def
  op_MULZX3_fn_def op_ADDISX3_fn_def op_ADDIZX3_fn_def op_MULISX3_fn_def op_MULIZX3_fn_def
  op_SHLISX3_fn_def op_SHLIZX3_fn_def op_LDR_B_fn_def op_LDR_H_fn_def op_LDR_UB_fn_def
  op_LDR_UW_fn_def op_LDR_W_fn_def op_LDR_D_fn_def op_STR_B_fn_def op_STR_H_fn_def op_STR_W_fn_def
  op_STR_D_fn_def op_LDR_INDEX_B_fn_def op_LDR_INDEX_H_fn_def op_LDR_INDEX_W_fn_def
  op_LDR_INDEX_D_fn_def op_LDR_INDEX_UB_fn_def op_LDR_INDEX_UW_fn_def op_STR_INDEX_B_fn_def
  op_STR_INDEX_H_fn_def op_STR_INDEX_W_fn_def op_STR_INDEX_D_fn_def op_LDR_LOCAL_B_fn_def
  op_LDR_LOCAL_H_fn_def op_LDR_LOCAL_W_fn_def op_LDR_LOCAL_UB_fn_def op_LDR_LOCAL_UW_fn_def
  op_LDR_LOCAL_D_fn_def op_STR_LOCAL_B_fn_def op_STR_LOCAL_H_fn_def op_STR_LOCAL_W_fn_def
  op_STR_LOCAL_D_fn_def op_BEQ3_fn_def op_BNE3_fn_def op_BLT3_fn_def op_BLE3_fn_def
  op_BULT3_fn_def op_BULE3_fn_def op_BEQI3_fn_def op_BNEI3_fn_def op_BLTI3_fn_def op_BLEI3_fn_def
  op_BGTI3_fn_def op_BGEI3_fn_def op_BULTI3_fn_def op_BULEI3_fn_def op_BUGTI3_fn_def
  op_BUGEI3_fn_def op_BEQW3_fn_def op_BNEW3_fn_def op_BLTW3_fn_def op_BLEW3_fn_def op_BGTW3_fn_def
  op_BGEW3_fn_def op_BULTW3_fn_def op_BULEW3_fn_def op_BUGTW3_fn_def op_BUGEW3_fn_def
  op_CLZ_fn_def op_CTZ_fn_def op_POPCOUNT_fn_def op_FFS_fn_def op_BSWAP_fn_def

end
