(* ===== verification/VM_Props.thy ===== *)
theory VM_Props
  imports VM_Control
begin

text \<open>
  Properties of the interpreter as a whole: which handlers keep the zero register, that
  compile-time stores stay inside VM memory, that stores and loads round-trip, and that the
  stack check leaves room for the push it guards.
\<close>

subsection \<open>The zero register\<close>

text \<open>The opcodes whose handler in \<open>ops.c\<close> stores to \<open>regs[rd]\<close> without the \<open>REG_ZERO\<close> guard: the
  extensions, the 32-bit wraps and \<open>POP3\<close>, and the float compares and vector extracts, whose handlers
  are not modelled.\<close>

definition unguarded_ops :: "opcode list" where
  "unguarded_ops =
     [SX1, SX2, SX4, ZX1, ZX2, ZX4, ADDSX3, ADDZX3, SUBSX3, SUBZX3, MULSX3, MULZX3,
      ADDISX3, ADDIZX3, MULISX3, MULIZX3, SHLISX3, SHLIZX3, POP3,
      FEQ3, FNE3, FNZ3, FLT3, FLE3, FGT3, FGE3, FEQ3_F32, FNE3_F32, FNZ3_F32, FLT3_F32, FLE3_F32,
      FGT3_F32, FGE3_F32, VEXTRACT_I64, VEXTRACT_I32, VEXTRACT_I16, VEXTRACT_I8]"

definition keeps0 :: "(vm \<Rightarrow> step) \<Rightarrow> bool" where
  "keeps0 h \<longleftrightarrow> (\<forall>vm vm'. h vm = Inr vm' \<longrightarrow> regs vm' 0 = regs vm 0)"

definition keeps0_if :: "(vm \<Rightarrow> step) \<Rightarrow> bool" where
  "keeps0_if h \<longleftrightarrow> (\<forall>vm vm'. opnd_byte (text_seg vm (pc vm)) 0 \<noteq> 0 \<longrightarrow> h vm = Inr vm' \<longrightarrow>
     regs vm' 0 = regs vm 0)"

lemmas read_eqs = cc_read_word_eq cc_read_i64_eq Let_def

lemma keeps0_skeletons [simp]:
  "keeps0 (rrr_op g)" "keeps0 (rr_op f)" "keeps0 (rri_op g)" "keeps0 (shift_imm_op s)"
  "keeps0 (checked_arith_op k)" "keeps0 (load_op n ld hl)" "keeps0 (store_op n st hl)"
  "keeps0 (index_load_op n ld hl)" "keeps0 (index_store_op n st hl)"
  "keeps0 (local_load_op ld)" "keeps0 (local_store_op st)"
  "keeps0 (br_op r)" "keeps0 (br_imm_op r)" "keeps0 (br_wide_op r)" "keeps0 (bit_scan_op b)"
  by (auto simp: keeps0_def rrr_op_def rr_op_def rri_op_def shift_imm_op_def checked_arith_op_def
      load_op_def store_op_def index_load_op_def index_store_op_def local_load_op_def
      local_store_op_def br_op_def br_imm_op_def br_wide_op_def bit_scan_op_def jump_if_def put_reg_def
      COMPTIME_CONTAIN_def read_eqs split: if_splits)

lemma keeps0_if_skeletons [simp]:
  "keeps0_if (rr_op_raw f)" "keeps0_if (rrr_op_raw g)" "keeps0_if (rri_op_raw g)"
  "keeps0_if (wrap_shl_op f)" "keeps0_if op_POP3_fn"
  by (auto simp: keeps0_if_def rr_op_raw_def rrr_op_raw_def rri_op_raw_def wrap_shl_op_def
      op_POP3_fn_def put_reg_def read_eqs split: if_splits)

lemma vm_stack_grow_regs: "vm_stack_grow c vm n = Some vm' \<Longrightarrow> regs vm' = regs vm"
  by (auto simp: vm_stack_grow_def Let_def split: if_splits)

lemma check_stack_overflow_regs:
  "check_stack_overflow c vm n = Some vm' \<Longrightarrow> regs vm' = regs vm"
  by (auto simp: check_stack_overflow_def split: if_splits dest: vm_stack_grow_regs)

lemma keeps0_singles [simp]:
  "keeps0 op_DIV3_fn" "keeps0 op_DIVC_fn" "keeps0 op_MOD3_fn" "keeps0 op_UDIV3_fn"
  "keeps0 op_UMOD3_fn" "keeps0 op_LI3_fn" "keeps0 op_LDA3_fn" "keeps0 op_MULADD3_fn"
  "keeps0 op_MULADDI3_fn" "keeps0 op_UBFX_fn" "keeps0 op_SBFX_fn" "keeps0 op_BFI_fn"
  "keeps0 op_JMP_fn" "keeps0 op_JZ3_fn" "keeps0 op_JNZ3_fn" "keeps0 op_JMPT_fn"
  "keeps0 op_JMPI_fn" "keeps0 op_ADJ_fn"
  by (auto simp: keeps0_def op_DIV3_fn_eq op_DIVC_fn_eq op_MOD3_fn_def op_UDIV3_fn_def
      op_UMOD3_fn_def op_LI3_fn_def op_LDA3_fn_def op_MULADD3_fn_def op_MULADDI3_fn_def
      op_UBFX_fn_def op_SBFX_fn_def op_BFI_fn_def op_JMP_fn_def op_JZ3_fn_def op_JNZ3_fn_def
      op_JMPT_fn_def op_JMPI_fn_def op_ADJ_fn_def jump_if_def read_eqs split: if_splits)

lemma keeps0_push [simp]: "keeps0 (op_PSH3_fn c)" "keeps0 (op_CALL_fn c)"
  by (auto simp: keeps0_def op_PSH3_fn_def op_CALL_fn_def push_slot_def push_shadow_def read_eqs
      split: option.splits dest!: check_stack_overflow_regs)

lemma keeps0_builtins [simp]:
  "keeps0 op_LDTLS3_fn" "keeps0 op_LTA3_fn" "keeps0 op_LEA3_fn" "keeps0 (op_IOVFL_fn hl)" "keeps0 (op_ALDR_fn hl)"
  "keeps0 (op_ASTR_fn hl)" "keeps0 (op_AXCHG_fn hl)" "keeps0 (op_ACAS_fn hl)" "keeps0 (op_MCPY_fn hl)"
  "keeps0 (op_MSET_fn hl)"
  by (auto simp: keeps0_def op_LDTLS3_fn_def op_LTA3_fn_def op_LEA3_fn_def op_IOVFL_fn_def op_ALDR_fn_def op_ASTR_fn_def
      op_AXCHG_fn_def op_ACAS_fn_def op_MCPY_fn_def op_MSET_fn_def COMPTIME_CONTAIN_def put_reg_def read_eqs
      split: if_splits option.splits prod.splits)

lemma handlers_keep0:
  "list_all (\<lambda>(op, h). if op \<in> set unguarded_ops then keeps0_if h else keeps0 h)
     (handlers host_left commit)"
  by (simp add: handlers_def unguarded_ops_def handler_defs)

text \<open>A small machine for the witnesses.\<close>

definition blank_vm :: "(u32 \<Rightarrow> u32) \<Rightarrow> vm" where
  "blank_vm text =
     \<lparr>regs = (\<lambda>_. 0), fregs = (\<lambda>_. 0), pc = 0, bp = 0, sp = 4096, cycle = 0, stack_seg = 0,
      stack_base = 1024, stack_committed = 3072, poolsize = 64, shadow_sp = 0, cfi = False,
      dynsyms = [], text_seg = text, text_base = 65536, text_committed = 4096, text_ptr = 64,
      data_seg = 8192, data_committed = 4096, heap_seg = 16384, heap_committed = 4096,
      current_tls_seg = 32768, tls_template_size = 0, comptime_depth = 0, mem = (\<lambda>_. 0)\<rparr>"

lemmas vm_eval = blank_vm_def vm_run_numeral dispatch_def op_table_def handlers_def
  cc_read_word_def cc_read_i64_eq cc_read_i64_at_def cc_make_u64_def set_reg_def put_reg_def
  opnd_byte_def CCCC_INVALID_PC_def result_a0_def skeleton_defs

lemma keeps0D: "keeps0 h \<Longrightarrow> h vm = Inr vm' \<Longrightarrow> regs vm' 0 = regs vm 0"
  by (simp add: keeps0_def)

lemma keeps0_ifD:
  "keeps0_if h \<Longrightarrow> h vm = Inr vm' \<Longrightarrow> opnd_byte (text_seg vm (pc vm)) 0 \<noteq> 0 \<Longrightarrow>
    regs vm' 0 = regs vm 0"
  by (simp add: keeps0_if_def)

lemma handler_keeps0:
  assumes "op_table hl c op = Some h"
  shows "if op \<in> set unguarded_ops then keeps0_if h else keeps0 h"
  using handlers_keep0 [of hl c] map_of_SomeD [of "handlers hl c" op h] assms
  by (auto simp: op_table_def list_all_iff)

lemma dispatch_Running:
  assumes "dispatch hl c vm = Running vm'"
  obtains h where "op_table hl c (unat (text_seg vm (pc vm))) = Some h"
    and "h (vm\<lparr>cycle := cycle vm + 1, pc := pc vm + 1\<rparr>) = Inr vm'"
  using assms by (auto simp: dispatch_def read_eqs split: if_splits option.splits sum.splits)

text \<open>
  C15: A step of the interpreter on an opcode with a modelled handler keeps the zero register zero, as
  long as a handler that stores without the \<open>REG_ZERO\<close> test is not given the zero register as its
  destination. Those handlers are listed in \<open>unguarded_ops\<close>; no other modelled handler can change
  register 0, whatever its operands are.
\<close>

theorem zero_register_kept:
  assumes "dispatch hl c vm = Running vm'" and "regs vm REG_ZERO = 0"
    and "unat (text_seg vm (pc vm)) \<in> set unguarded_ops \<Longrightarrow>
      opnd_byte (text_seg vm (pc vm + 1)) 0 \<noteq> REG_ZERO"
  shows "regs vm' REG_ZERO = 0"
proof -
  obtain h where h: "op_table hl c (unat (text_seg vm (pc vm))) = Some h"
    and step: "h (vm\<lparr>cycle := cycle vm + 1, pc := pc vm + 1\<rparr>) = Inr vm'"
    using assms(1) by (rule dispatch_Running)
  have "regs vm' 0 = regs (vm\<lparr>cycle := cycle vm + 1, pc := pc vm + 1\<rparr>) 0"
  proof (cases "unat (text_seg vm (pc vm)) \<in> set unguarded_ops")
    case True
    then have "keeps0_if h" using handler_keeps0 [OF h] by simp
    from keeps0_ifD [OF this step] assms(3) [OF True] show ?thesis by simp
  next
    case False
    then have "keeps0 h" using handler_keeps0 [OF h] by simp
    from keeps0D [OF this step] show ?thesis by simp
  qed
  with assms(2) show ?thesis by simp
qed

definition li_text :: "u32 \<Rightarrow> u32" where
  "li_text = (\<lambda>_. 0)(0 := of_nat LI3, 1 := 10, 2 := 7, 3 := 0, 4 := of_nat SX4, 5 := 0x0A00)"

theorem zero_register_kept_witness:
  "\<exists>vm'. dispatch (\<lambda>_ _. 0) (\<lambda>_ _ _. True) (blank_vm li_text) = Running vm' \<and>
     regs vm' REG_ZERO = 0"
proof -
  let ?vm = "blank_vm li_text"
  have run: "\<exists>vm'. dispatch (\<lambda>_ _. 0) (\<lambda>_ _ _. True) ?vm = Running vm'"
    by (simp add: vm_eval op_LI3_fn_def li_text_def)
  then obtain vm' where vm': "dispatch (\<lambda>_ _. 0) (\<lambda>_ _ _. True) ?vm = Running vm'" ..
  have "regs vm' REG_ZERO = 0"
    by (rule zero_register_kept [OF vm']) (simp_all add: vm_eval li_text_def unguarded_ops_def)
  with vm' show ?thesis by blast
qed

subsection \<open>Compile-time stores stay inside VM memory\<close>

definition plain_stores :: "opcode list" where
  "plain_stores =
     [STR_B, STR_H, STR_W, STR_D, STR_INDEX_B, STR_INDEX_H, STR_INDEX_W, STR_INDEX_D]"

lemma plain_stores_table:
  assumes "op \<in> set plain_stores" "op_table hl c op = Some h"
  shows "\<exists>n st. storer_width n st \<and> (h = store_op n st hl \<or> h = index_store_op n st hl)"
proof -
  consider "h = op_STR_B_fn hl" | "h = op_STR_H_fn hl" | "h = op_STR_W_fn hl"
    | "h = op_STR_D_fn hl" | "h = op_STR_INDEX_B_fn hl" | "h = op_STR_INDEX_H_fn hl"
    | "h = op_STR_INDEX_W_fn hl" | "h = op_STR_INDEX_D_fn hl"
    using assms by (auto simp: plain_stores_def op_table_def handlers_def)
  then show ?thesis
    by cases (simp_all only: op_STR_B_fn_def op_STR_H_fn_def op_STR_W_fn_def op_STR_D_fn_def
        op_STR_INDEX_B_fn_def op_STR_INDEX_H_fn_def op_STR_INDEX_W_fn_def op_STR_INDEX_D_fn_def,
        (blast intro: storer_widths)+)
qed

lemma vm_writable_cycle [simp]: "vm_writable (vm\<lparr>cycle := x\<rparr>) q = vm_writable vm q"
  by (simp add: vm_writable_def comptime_regions_def)

text \<open>
  C1: While compile-time code runs and no host range is registered, a store through a register
  changes no byte outside the data, heap, stack and thread-local segments: any other address
  makes the handler fail before it writes.
\<close>

theorem comptime_store_contained:
  assumes "dispatch (\<lambda>_ _. 0) c vm = Running vm'"
    and "unat (text_seg vm (pc vm)) \<in> set plain_stores"
    and "comptime_depth vm \<noteq> 0" and "mem vm' q \<noteq> mem vm q"
  shows "vm_writable vm q"
proof -
  let ?vm1 = "vm\<lparr>cycle := cycle vm + 1, pc := pc vm + 1\<rparr>"
  obtain h where h: "op_table (\<lambda>_ _. 0) c (unat (text_seg vm (pc vm))) = Some h"
    and step: "h ?vm1 = Inr vm'"
    using assms(1) by (rule dispatch_Running)
  from plain_stores_table [OF assms(2) h] obtain n st where "storer_width n st"
    and "h = store_op n st (\<lambda>_ _. 0) \<or> h = index_store_op n st (\<lambda>_ _. 0)" by blast
  then have "vm_writable ?vm1 q"
    using store_op_contained [of n st ?vm1 vm' q] index_store_op_contained [of n st ?vm1 vm' q]
      step assms(3,4) by auto
  then show ?thesis by simp
qed

definition st_text :: "u32 \<Rightarrow> u32" where
  "st_text = (\<lambda>_. 0)(0 := of_nat STR_B, 1 := 0x0B0A)"

definition st_vm :: vm where
  "st_vm = (blank_vm st_text)\<lparr>comptime_depth := 1, regs := (\<lambda>_. 0)(10 := 7, 11 := 8200)\<rparr>"

theorem comptime_store_contained_witness:
  "(\<exists>vm'. dispatch (\<lambda>_ _. 0) (\<lambda>_ _ _. True) st_vm = Running vm' \<and> mem vm' 8200 \<noteq> mem st_vm 8200)
   \<and> vm_writable st_vm 8200"
proof -
  have "\<exists>vm'. dispatch (\<lambda>_ _. 0) (\<lambda>_ _ _. True) st_vm = Running vm' \<and>
      mem vm' 8200 \<noteq> mem st_vm 8200"
    by (simp add: vm_eval st_vm_def st_text_def op_STR_B_fn_def store_op_def COMPTIME_CONTAIN_def
        cccc_comptime_addr_ok_def comptime_region_left_def comptime_vm_region_left_def
        comptime_regions_def comptime_addr_in_def st_i8_def)
  moreover from this obtain vm' where
    vm': "dispatch (\<lambda>_ _. 0) (\<lambda>_ _ _. True) st_vm = Running vm'" "mem vm' 8200 \<noteq> mem st_vm 8200"
    by blast
  have "vm_writable st_vm 8200"
    by (rule comptime_store_contained [OF vm'(1) _ _ vm'(2)])
      (simp_all add: st_vm_def st_text_def blank_vm_def plain_stores_def)
  ultimately show ?thesis by blast
qed

subsection \<open>Stores and loads round-trip\<close>

text \<open>
  C24: A load of the same width returns the stored value, sign- or zero-extended as the handler's
  name says.
\<close>

theorem store_load_roundtrip:
  "ld_i8 (st_i8 m p v) p = c_sext 8 v \<and> ld_u8 (st_i8 m p v) p = c_zext 8 v \<and>
   ld_i16 (st_i16 m p v) p = c_sext 16 v \<and> ld_i32 (st_i32 m p v) p = c_sext 32 v \<and>
   ld_u32 (st_i32 m p v) p = c_zext 32 v \<and> ld_i64 (st_i64 m p v) p = v"
  by (intro conjI) (simp_all add: ld_i8_def st_i8_def ld_u8_def ld_i16_def st_i16_def ld_i32_def
      st_i32_def ld_u32_def ld_i64_def st_i64_def ld_st_bytes c_sext_def c_zext_def
      signed_take_bit_take_bit take_bit_word_eq_self del: ld_bytes.simps st_bytes.simps)

subsection \<open>The stack check\<close>

definition stack_ok :: "vm \<Rightarrow> bool" where
  "stack_ok vm \<longleftrightarrow> unat (stack_seg vm) \<le> unat (stack_base vm) \<and> unat (stack_base vm) \<le> unat (sp vm)"

lemma grow_chunk_ge:
  assumes "0 < (u :: nat)"
  shows "need \<le> ((need + u - 1) div u) * u"
proof -
  define q r where "q = (need + u - 1) div u" and "r = (need + u - 1) mod u"
  have "q * u + r = need + u - 1" by (simp add: q_def r_def)
  moreover have "r < u" using assms by (simp add: r_def)
  ultimately have "need \<le> q * u" using assms by arith
  then show ?thesis by (simp add: q_def)
qed

lemma unat64_lt: "unat (x :: u64) < 18446744073709551616"
  using unsigned_less [of x, where ?'a = nat] by simp

lemma unat_minus_of_nat:
  assumes "n \<le> unat (b :: u64)"
  shows "unat (b - of_nat n) = unat b - n"
proof -
  have "unat (of_nat n :: u64) = n"
    using assms unat64_lt [of b] by (simp add: unsigned_of_nat take_bit_nat_eq_self)
  with assms show ?thesis by (simp add: unat_sub word_le_nat_alt)
qed

lemma vm_stack_grow_room:
  assumes "vm_stack_grow c vm n = Some vm'" "unat (stack_seg vm) \<le> unat (stack_base vm)"
    and "0 < poolsize vm"
  shows "unat (stack_base vm') + n * 8 \<le> unat (stack_base vm)"
    and "unat (stack_seg vm') \<le> unat (stack_base vm')" and "sp vm' = sp vm"
proof -
  define unit where "unit = poolsize vm * 8"
  define full where "full = (if unit < n * 8 then ((n * 8 + unit - 1) div unit) * unit else unit)"
  define avail where "avail = unat (stack_base vm) - unat (stack_seg vm)"
  define chunk where "chunk = (if unat (stack_base vm) < unat (stack_seg vm) + full then avail else full)"
  have "n * 8 \<le> full" using assms(3) grow_chunk_ge [of unit "n * 8"] by (auto simp: full_def unit_def)
  moreover have "\<not> (unat (stack_base vm) < unat (stack_seg vm) + full \<and> chunk < n * 8)"
    and vm': "vm' = vm\<lparr>stack_base := stack_base vm - of_nat chunk,
       stack_committed := stack_committed vm + of_nat chunk\<rparr>"
    using assms(1)
    unfolding vm_stack_grow_def Let_def unit_def [symmetric] full_def [symmetric]
      avail_def [symmetric] chunk_def [symmetric]
    by (simp_all split: if_split_asm)
  ultimately have ge: "n * 8 \<le> chunk" by (auto simp: chunk_def split: if_splits)
  have le: "chunk \<le> avail" using assms(2) by (auto simp: chunk_def avail_def)
  then have "unat (stack_base vm') = unat (stack_base vm) - chunk"
    using vm' by (simp add: unat_minus_of_nat avail_def)
  with ge le assms(2) vm' show "unat (stack_base vm') + n * 8 \<le> unat (stack_base vm)"
    "unat (stack_seg vm') \<le> unat (stack_base vm')" "sp vm' = sp vm"
    by (auto simp: avail_def)
qed

text \<open>
  C18: When \<open>check_stack_overflow\<close> succeeds, whether the stack had room or had to grow, the slots
  asked for and the guard lie between the committed base and the stack pointer.
\<close>

theorem stack_check_leaves_room:
  assumes "check_stack_overflow c vm n = Some vm'" "stack_ok vm" "0 < poolsize vm"
  shows "unat (stack_base vm') + (n + STACK_GUARD_SIZE) * 8 \<le> unat (sp vm') \<and> stack_ok vm' \<and>
    sp vm' = sp vm"
proof (cases "unat (sp vm) < unat (stack_base vm) + (n + STACK_GUARD_SIZE) * 8")
  case True
  then have "vm_stack_grow c vm (n + STACK_GUARD_SIZE) = Some vm'"
    using assms(1) by (simp add: check_stack_overflow_def)
  note room = vm_stack_grow_room [OF this _ assms(3)]
  from assms(2) have base: "unat (stack_seg vm) \<le> unat (stack_base vm)"
    and top: "unat (stack_base vm) \<le> unat (sp vm)" by (simp_all only: stack_ok_def)
  have room1: "unat (stack_base vm') + (n + STACK_GUARD_SIZE) * 8 \<le> unat (sp vm)"
    by (rule order_trans [OF room(1) [OF base] top])
  then have "unat (stack_base vm') \<le> unat (sp vm)" by (rule add_leD1)
  with room1 room(2,3) [OF base] show ?thesis by (simp only: stack_ok_def)
next
  case False
  then have "vm' = vm" using assms(1) by (simp only: check_stack_overflow_def if_False option.inject)
  with False assms(2) show ?thesis by (simp only: not_less)
qed

definition full_stack_vm :: vm where
  "full_stack_vm = (blank_vm (\<lambda>_. 0))\<lparr>sp := 1024\<rparr>"

theorem stack_check_leaves_room_witness:
  "\<exists>vm'. check_stack_overflow (\<lambda>_ _ _. True) full_stack_vm 1 = Some vm' \<and>
     unat (stack_base vm') + (1 + STACK_GUARD_SIZE) * 8 \<le> unat (sp vm')"
proof -
  have "\<exists>vm'. check_stack_overflow (\<lambda>_ _ _. True) full_stack_vm 1 = Some vm'"
    unfolding check_stack_overflow_def vm_stack_grow_def Let_def STACK_GUARD_SIZE_def
    by (simp add: full_stack_vm_def blank_vm_def del: One_nat_def)
  then obtain vm' where vm': "check_stack_overflow (\<lambda>_ _ _. True) full_stack_vm 1 = Some vm'" ..
  have "stack_ok full_stack_vm" "0 < poolsize full_stack_vm"
    by (simp_all add: stack_ok_def full_stack_vm_def blank_vm_def)
  from stack_check_leaves_room [OF vm' this] vm' show ?thesis by blast
qed

subsection \<open>Checked arithmetic and division\<close>

lemma sar_push_bit: "s < 64 \<Longrightarrow> c_sar (push_bit s v) s = signed_take_bit (63 - s) (v :: u64)"
proof (rule bit_word_eqI)
  fix n assume "s < 64" "n < LENGTH(64)"
  then show "bit (c_sar (push_bit s v) s) n = bit (signed_take_bit (63 - s) v) n"
    by (cases "n = 63 - s") (auto simp: c_sar_def bit_simps min_def)
qed

lemma signed_take_bit_word_sint:
  "k < 63 \<Longrightarrow> signed_take_bit k (v :: u64) = v \<longleftrightarrow> - (2 ^ k) \<le> sint v \<and> sint v < 2 ^ k"
proof -
  assume k: "k < 63"
  have "signed_take_bit k v = v \<longleftrightarrow> sint (signed_take_bit k v) = sint v"
    by (metis signed_word_eqI)
  also have "sint (signed_take_bit k v) = signed_take_bit k (sint v)"
    by (rule bit_eqI) (use k in \<open>auto simp: bit_simps bit_sint_iff min_def\<close>)
  finally show ?thesis by (simp add: signed_take_bit_int_eq_self_iff)
qed

lemma fits_signed_width_iff:
  "fits_signed_width v w \<longleftrightarrow>
     (0 < w \<and> w < 64 \<longrightarrow> - (2 ^ (w - 1)) \<le> sint v \<and> sint v < 2 ^ (w - 1))"
proof (cases "0 < w \<and> w < 64")
  case True
  then have "63 - (64 - w) = w - 1" "64 - w < 64" "w - 1 < 63" by auto
  with True show ?thesis
    by (simp add: fits_signed_width_def Let_def sar_push_bit signed_take_bit_word_sint)
next
  case False
  then show ?thesis by (auto simp: fits_signed_width_def)
qed

definition fits_width :: "int \<Rightarrow> nat \<Rightarrow> bool" where
  "fits_width r w \<longleftrightarrow>
     ll_range r \<and> (0 < w \<and> w < 64 \<longrightarrow> - (2 ^ (w - 1)) \<le> r \<and> r < 2 ^ (w - 1))"

lemma checked_arith_fits:
  "\<not> (ll_overflows r \<or> \<not> fits_signed_width (word_of_int r) w) \<longleftrightarrow> fits_width r w"
  by (auto simp: ll_overflows_def fits_width_def fits_signed_width_iff sint_word_of_int_ll)

text \<open>
  C21: The checked add, subtract and multiply either store the exact mathematical result, and then
  it fits the operand width, or trap: they trap exactly when it does not fit.
\<close>

theorem checked_arith_exact:
  fixes vm :: vm
  defines "w \<equiv> text_seg vm (pc vm)" and "vm1 \<equiv> vm\<lparr>pc := pc vm + 1\<rparr>"
  defines "a \<equiv> sint (regs vm (opnd_byte w 1))" and "b \<equiv> sint (regs vm (opnd_byte w 2))"
  shows "(h, f) \<in> {(op_ADDC_fn, (+)), (op_SUBC_fn, (-)), (op_MULC_fn, (*))} \<Longrightarrow>
    h vm = (if fits_width (f a b) (opnd_byte w 3)
            then Inr (set_reg (opnd_byte w 0) (word_of_int (f a b)) vm1)
            else Inl (Checked_Overflow, vm1))"
  using checked_arith_fits [of "f a b" "opnd_byte w 3"]
  by (auto simp: op_ADDC_fn_def op_SUBC_fn_def op_MULC_fn_def checked_arith_op_def read_eqs
      a_def b_def w_def vm1_def)

definition addc_text :: "u32 \<Rightarrow> u32" where
  "addc_text = (\<lambda>_. 0)(0 := 0x200B0A0C)"

theorem checked_arith_exact_witness:
  "op_ADDC_fn (blank_vm addc_text) =
     Inr (set_reg 12 0 ((blank_vm addc_text)\<lparr>pc := 1\<rparr>))"
proof -
  have "(op_ADDC_fn, (+)) \<in>
      {(op_ADDC_fn, (+)), (op_SUBC_fn, (-)), (op_MULC_fn, (*) :: int \<Rightarrow> int \<Rightarrow> int)}" by simp
  from checked_arith_exact [OF this, of "blank_vm addc_text"] show ?thesis
    by (simp add: blank_vm_def addc_text_def opnd_byte_def fits_width_def ll_range_def limits)
qed

lemma div_min: "sint (a :: u64) = LLONG_MIN \<Longrightarrow> sint b = -1 \<Longrightarrow> c_sdiv a b = word_of_int LLONG_MIN"
  by (simp add: c_sdiv_def limits signed_divide_int_def)

text \<open>
  C32: Signed division traps on a zero divisor and never reaches a division that C leaves undefined:
  the quotient truncates toward zero, and \<open>LLONG_MIN / -1\<close>, which \<open>long long\<close> cannot represent, is
  caught before it and wraps to \<open>LLONG_MIN\<close>.
\<close>

theorem div3_total:
  fixes vm :: vm
  defines "w \<equiv> text_seg vm (pc vm)" and "vm1 \<equiv> vm\<lparr>pc := pc vm + 1\<rparr>"
  defines "a \<equiv> regs vm (opnd_byte w 1)" and "b \<equiv> regs vm (opnd_byte w 2)"
  shows "op_DIV3_fn vm = (if b = 0 then Inl (Div_By_Zero, vm1)
            else Inr (set_reg (opnd_byte w 0) (word_of_int (sint a sdiv sint b)) vm1))"
  using div_min [of a b]
  by (auto simp: op_DIV3_fn_eq read_eqs a_def b_def w_def vm1_def simp flip: c_sdiv_def)

end
