(* ===== verification/Builtin_Props.thy ===== *)
theory Builtin_Props
  imports VM_Props
begin

text \<open>
  Properties of the builtin handlers of \<open>VM_Builtin\<close>: the stores they make while compile-time code
  runs stay inside VM memory, \<open>IOVFL\<close> reports an overflow exactly when there is one, and the bit
  scans find the bit they are named after.
\<close>

subsection \<open>Compile-time stores of the builtins\<close>

definition builtin_stores :: "opcode list" where
  "builtin_stores = [ASTR, AXCHG, ACAS, IOVFL, MCPY, MSET]"

text \<open>The size operand of the instruction at the pc is one that the code generator emits: 1, 2, 4 or 8
  bytes. The handlers store 8 bytes for every other size, but check only as many as it says.\<close>

definition size_operand_ok :: "vm \<Rightarrow> bool" where
  "size_operand_ok vm \<longleftrightarrow>
     (let op = unat (text_seg vm (pc vm)); imm = cc_read_i64_at (text_seg vm)
      in if op = ASTR then enc_size (imm (pc vm + 2)) \<in> {1, 2, 4, 8}
         else if op = AXCHG \<or> op = ACAS then enc_size (imm (pc vm + 1)) \<in> {1, 2, 4, 8}
         else if op = IOVFL then unat (imm (pc vm + 1) AND 0xFF) div 2 \<in> {1, 2, 4, 8}
         else True)"

lemma st_sized_width: "sz \<in> {1, 2, 4, 8} \<Longrightarrow> storer_width (unat sz) (st_sized sz)"
  using storer_widths by (elim insertE emptyE) (simp_all add: st_sized_def)

lemma ovfl_store_writes:
  "n \<in> {1, 2, 4, 8} \<Longrightarrow> storer_width n (st_bytes (ovfl_store_width n))"
  using st_bytes_frame by (auto simp: storer_width_def ovfl_store_width_def)

lemma checked_writes:
  assumes "cccc_comptime_addr_ok (\<lambda>_ _. 0) vm p n True" "storer_width n st" "st (mem vm) p v q \<noteq> mem vm q"
  shows "vm_writable vm q"
proof -
  obtain i where "i < n" "q = p + of_nat i" using assms(2,3) unfolding storer_width_def by metis
  then show ?thesis using addr_ok_writable [OF assms(1)] by simp
qed

lemma block_writes:
  assumes "cccc_comptime_addr_ok (\<lambda>_ _. 0) vm p (unat n) True" "q - p < n"
  shows "vm_writable vm q"
  using addr_ok_writable [OF assms(1), of "unat (q - p)"] assms(2) by (simp add: word_less_nat_alt)

lemma ASTR_contained:
  assumes "op_ASTR_fn (\<lambda>_ _. 0) vm = Inr vm'" "enc_size (cc_read_i64_at (text_seg vm) (pc vm + 1)) \<in> {1, 2, 4, 8}"
    and "comptime_depth vm \<noteq> 0" "mem vm' q \<noteq> mem vm q"
  shows "vm_writable vm q"
  using assms checked_writes [OF _ st_sized_width [OF assms(2)]]
  by (auto simp: op_ASTR_fn_def read_eqs COMPTIME_CONTAIN_Inr)

lemma AXCHG_contained:
  assumes "op_AXCHG_fn (\<lambda>_ _. 0) vm = Inr vm'" "enc_size (cc_read_i64_at (text_seg vm) (pc vm)) \<in> {1, 2, 4, 8}"
    and "comptime_depth vm \<noteq> 0" "mem vm' q \<noteq> mem vm q"
  shows "vm_writable vm q"
  using assms checked_writes [OF _ st_sized_width [OF assms(2)]]
  by (auto simp: op_AXCHG_fn_def read_eqs COMPTIME_CONTAIN_Inr put_reg_def)

lemma ACAS_contained:
  assumes "op_ACAS_fn (\<lambda>_ _. 0) vm = Inr vm'" "enc_size (cc_read_i64_at (text_seg vm) (pc vm)) \<in> {1, 2, 4, 8}"
    and "comptime_depth vm \<noteq> 0" "mem vm' q \<noteq> mem vm q"
  shows "vm_writable vm q"
  using assms checked_writes [OF _ st_sized_width [OF assms(2)]]
  by (auto simp: op_ACAS_fn_def read_eqs COMPTIME_CONTAIN_Inr put_reg_def split: if_splits)

lemma IOVFL_contained:
  assumes "op_IOVFL_fn (\<lambda>_ _. 0) vm = Inr vm'"
    and "unat (cc_read_i64_at (text_seg vm) (pc vm) AND 0xFF) div 2 \<in> {1, 2, 4, 8}"
    and "comptime_depth vm \<noteq> 0" "mem vm' q \<noteq> mem vm q"
  shows "vm_writable vm q"
  using assms checked_writes [OF _ ovfl_store_writes [OF assms(2)]]
  by (auto simp: op_IOVFL_fn_def read_eqs COMPTIME_CONTAIN_Inr put_reg_def split: if_splits option.splits prod.splits)

lemma MCPY_contained:
  assumes "op_MCPY_fn (\<lambda>_ _. 0) vm = Inr vm'" "comptime_depth vm \<noteq> 0" "mem vm' q \<noteq> mem vm q"
  shows "vm_writable vm q"
  using assms block_writes
  by (auto simp: op_MCPY_fn_def read_eqs COMPTIME_CONTAIN_Inr mem_copy_def split: if_splits)

lemma MSET_contained:
  assumes "op_MSET_fn (\<lambda>_ _. 0) vm = Inr vm'" "comptime_depth vm \<noteq> 0" "mem vm' q \<noteq> mem vm q"
  shows "vm_writable vm q"
  using assms block_writes
  by (auto simp: op_MSET_fn_def read_eqs COMPTIME_CONTAIN_Inr mem_clear_def split: if_splits)

lemma op_table_builtin_stores:
  "op_table hl c ASTR = Some (op_ASTR_fn hl)" "op_table hl c AXCHG = Some (op_AXCHG_fn hl)"
  "op_table hl c ACAS = Some (op_ACAS_fn hl)" "op_table hl c IOVFL = Some (op_IOVFL_fn hl)"
  "op_table hl c MCPY = Some (op_MCPY_fn hl)" "op_table hl c MSET = Some (op_MSET_fn hl)"
  by (simp_all add: op_table_def handlers_def)

text \<open>
  C23: While compile-time code runs and no host range is registered, the atomic
  store, exchange and compare-and-swap, the overflow builtin and the block copy and fill change no byte
  outside the data, heap, stack and thread-local segments, the fill and copy for every length. The size
  operand of the sized ones is 1, 2, 4 or 8.
\<close>

theorem comptime_builtin_store_contained:
  assumes "dispatch (\<lambda>_ _. 0) c vm = Running vm'"
    and "unat (text_seg vm (pc vm)) \<in> set builtin_stores" and "size_operand_ok vm"
    and "comptime_depth vm \<noteq> 0" and "mem vm' q \<noteq> mem vm q"
  shows "vm_writable vm q"
proof -
  let ?vm1 = "vm\<lparr>cycle := cycle vm + 1, pc := pc vm + 1\<rparr>"
  obtain h where h: "op_table (\<lambda>_ _. 0) c (unat (text_seg vm (pc vm))) = Some h" and step: "h ?vm1 = Inr vm'"
    using assms(1) by (rule dispatch_Running)
  have rest: "comptime_depth ?vm1 \<noteq> 0" "mem vm' q \<noteq> mem ?vm1 q" using assms(4,5) by simp_all
  note size = assms(3) [unfolded size_operand_ok_def Let_def]
  have "vm_writable ?vm1 q"
    using assms(2) unfolding builtin_stores_def list.set
  proof (elim insertE emptyE)
    assume op: "unat (text_seg vm (pc vm)) = ASTR"
    show ?thesis by (rule ASTR_contained [OF _ _ rest]) (use h step size in \<open>simp_all add: op op_table_builtin_stores add.assoc\<close>)
  next
    assume op: "unat (text_seg vm (pc vm)) = AXCHG"
    show ?thesis by (rule AXCHG_contained [OF _ _ rest]) (use h step size in \<open>simp_all add: op op_table_builtin_stores\<close>)
  next
    assume op: "unat (text_seg vm (pc vm)) = ACAS"
    show ?thesis by (rule ACAS_contained [OF _ _ rest]) (use h step size in \<open>simp_all add: op op_table_builtin_stores\<close>)
  next
    assume op: "unat (text_seg vm (pc vm)) = IOVFL"
    show ?thesis by (rule IOVFL_contained [OF _ _ rest]) (use h step size in \<open>simp_all add: op op_table_builtin_stores\<close>)
  next
    assume op: "unat (text_seg vm (pc vm)) = MCPY"
    show ?thesis by (rule MCPY_contained [OF _ rest]) (use h step in \<open>simp add: op op_table_builtin_stores\<close>)
  next
    assume op: "unat (text_seg vm (pc vm)) = MSET"
    show ?thesis by (rule MSET_contained [OF _ rest]) (use h step in \<open>simp add: op op_table_builtin_stores\<close>)
  qed
  then show ?thesis by simp
qed

text \<open>A copy of two bytes from the start of the data segment to its ninth byte.\<close>

definition copy_vm :: vm where
  "copy_vm = (blank_vm ((\<lambda>_. 0)(0 := of_nat MCPY)))\<lparr>comptime_depth := 1,
     regs := (\<lambda>_. 0)(10 := 8200, 11 := 8192, 12 := 2), mem := (\<lambda>_. 0)(8192 := 7)\<rparr>"

theorem comptime_builtin_store_contained_witness:
  "(\<exists>vm'. dispatch (\<lambda>_ _. 0) (\<lambda>_ _ _. True) copy_vm = Running vm' \<and> mem vm' 8200 \<noteq> mem copy_vm 8200)
   \<and> vm_writable copy_vm 8200"
proof -
  have run: "\<exists>vm'. dispatch (\<lambda>_ _. 0) (\<lambda>_ _ _. True) copy_vm = Running vm' \<and> mem vm' 8200 \<noteq> mem copy_vm 8200"
    by (simp add: vm_eval copy_vm_def op_MCPY_fn_def COMPTIME_CONTAIN_def cccc_comptime_addr_ok_def
        comptime_region_left_def comptime_vm_region_left_def comptime_regions_def comptime_addr_in_def mem_copy_def)
  then obtain vm' where vm': "dispatch (\<lambda>_ _. 0) (\<lambda>_ _ _. True) copy_vm = Running vm'" "mem vm' 8200 \<noteq> mem copy_vm 8200"
    by blast
  have "vm_writable copy_vm 8200"
    by (rule comptime_builtin_store_contained [OF vm'(1) _ _ _ vm'(2)])
      (simp_all add: copy_vm_def blank_vm_def builtin_stores_def size_operand_ok_def)
  with run show ?thesis by blast
qed

subsection \<open>Overflow-reporting arithmetic\<close>

definition int_fits :: "bool \<Rightarrow> nat \<Rightarrow> int \<Rightarrow> bool" where
  "int_fits unsign nbytes r \<longleftrightarrow>
     (if unsign then 0 \<le> r \<and> r < 2 ^ (8 * nbytes)
      else - (2 ^ (8 * nbytes - 1)) \<le> r \<and> r < 2 ^ (8 * nbytes - 1))"

definition int_value :: "bool \<Rightarrow> u64 \<Rightarrow> int" where
  "int_value unsign v = (if unsign then uint v else sint v)"

lemma st_bytes_take_bit: "8 * n \<le> k \<Longrightarrow> st_bytes n m p (take_bit k v) = st_bytes n m p v"
proof (induction n arbitrary: p v k)
  case (Suc n)
  have "drop_bit 8 (take_bit k v) = take_bit (k - 8) (drop_bit 8 v)"
    by (rule bit_word_eqI) (auto simp: bit_simps)
  moreover have "ucast (take_bit k v) = (ucast v :: u8)"
    using Suc.prems by (intro bit_word_eqI) (auto simp: bit_simps)
  ultimately show ?case using Suc by simp
qed simp

lemma narrow_bounds:
  assumes "n \<in> {1, 2, 4 :: nat}"
  shows "(2 :: int) ^ (8 * n) \<le> 2 ^ 32" "(2 :: int) ^ (8 * n - 1) \<le> 2 ^ 31"
  using assms by auto

lemma mult_bounds:
  fixes x y :: int assumes "\<bar>x\<bar> \<le> B" "\<bar>y\<bar> \<le> B" shows "\<bar>x * y\<bar> \<le> B * B"
  using assms by (simp add: abs_mult mult_mono)

lemma narrow_results:
  fixes x y :: int
  assumes "0 \<le> x" "x < 2 ^ 32" "0 \<le> y" "y < 2 ^ 32"
  shows "- (2 ^ 32) < ovfl_arith t x y \<and> ovfl_arith t x y < 2 ^ 64"
proof -
  have "x * y \<le> 4294967295 * 4294967295" using assms by (intro mult_mono) auto
  moreover have "- 4294967296 < x * y" using mult_nonneg_nonneg [OF assms(1,3)] by linarith
  ultimately show ?thesis using assms by (simp add: ovfl_arith_def)
qed

lemma uint_wraps:
  "0 \<le> r \<Longrightarrow> r < 2 ^ 64 \<Longrightarrow> uint (word_of_int r :: u64) = r"
  "- (2 ^ 64) \<le> r \<Longrightarrow> r < 0 \<Longrightarrow> uint (word_of_int r :: u64) = r + 2 ^ 64"
proof -
  show "0 \<le> r \<Longrightarrow> r < 2 ^ 64 \<Longrightarrow> uint (word_of_int r :: u64) = r"
    by (simp add: unsigned_of_int take_bit_int_eq_self)
  assume "- (2 ^ 64) \<le> r" "r < 0"
  then have "(r + 2 ^ 64) mod 2 ^ 64 = r + 2 ^ 64" by (intro mod_pos_pos_trivial) simp_all
  then show "uint (word_of_int r :: u64) = r + 2 ^ 64" by (simp add: unsigned_of_int take_bit_eq_mod)
qed

lemma wrapped_below:
  assumes "- (2 ^ 32) < r" "r < 2 ^ 64" "k \<le> 2 ^ 32"
  shows "uint (word_of_int r :: u64) < k \<longleftrightarrow> 0 \<le> r \<and> r < k"
proof (cases "0 \<le> r")
  case True
  then show ?thesis using uint_wraps(1) assms(2) by simp
next
  case False
  then have "uint (word_of_int r :: u64) = r + 2 ^ 64" using uint_wraps(2) [of r] assms(1) by simp
  then show ?thesis using False assms(1,3) by simp
qed

lemma take_bit_u64_eq: "v = take_bit k v \<longleftrightarrow> uint v < 2 ^ k" for v :: u64
proof -
  have "v = take_bit k v \<longleftrightarrow> uint v = take_bit k (uint v)"
    by (metis unsigned_take_bit_eq unsigned_word_eqI)
  also have "\<dots> \<longleftrightarrow> uint v < 2 ^ k" using take_bit_int_eq_self_iff [of k "uint v"] by auto
  finally show ?thesis .
qed

lemma signed_ovfl_exact:
  assumes "n \<in> {1, 2, 4, 8}" "t \<le> 2" "int_fits False n (sint a)" "int_fits False n (sint b)"
  shows "signed_ovfl t n a b = Some (word_of_int (ovfl_arith t (sint a) (sint b)),
    \<not> int_fits False n (ovfl_arith t (sint a) (sint b)))"
proof (cases "n = 8")
  case True
  then show ?thesis by (auto simp: signed_ovfl_def int_fits_def ll_overflows_def ll_range_def limits Let_def)
next
  case False
  let ?r = "ovfl_arith t (sint a) (sint b)"
  have n: "n \<in> {1, 2, 4}" using assms(1) False by simp
  have ab: "\<bar>sint a\<bar> \<le> 2 ^ 31" "\<bar>sint b\<bar> \<le> 2 ^ 31"
    using assms(3,4) narrow_bounds(2) [OF n] by (auto simp: int_fits_def)
  have "\<bar>?r\<bar> \<le> 2 ^ 62"
    using ab mult_bounds [OF ab] by (auto simp: ovfl_arith_def)
  then have r: "ll_range ?r" by (simp add: ll_range_def limits abs_le_iff)
  have w: "n \<le> 4" "ovfl_store_width n = n" using n by (auto simp: ovfl_store_width_def)
  show ?thesis using r w assms(2) by (auto simp: signed_ovfl_def int_fits_def Let_def)
qed

lemma unsigned_ovfl_exact:
  assumes "n \<in> {1, 2, 4, 8}" "t \<le> 2" "int_fits True n (uint a)" "int_fits True n (uint b)"
  shows "snd (unsigned_ovfl t n a b) = (\<not> int_fits True n (ovfl_arith t (uint a) (uint b)))"
    and "st_bytes n m p (fst (unsigned_ovfl t n a b)) = st_bytes n m p (word_of_int (ovfl_arith t (uint a) (uint b)))"
proof -
  let ?r = "ovfl_arith t (uint a) (uint b)" and ?ur = "if t = 0 then a + b else if t = 1 then a - b else a * b"
  have ur: "?ur = word_of_int ?r" by (simp add: ovfl_arith_def)
  have "snd (unsigned_ovfl t n a b) = (\<not> int_fits True n ?r) \<and>
    st_bytes n m p (fst (unsigned_ovfl t n a b)) = st_bytes n m p (word_of_int ?r)"
  proof (cases "n = 8")
    case True
    then show ?thesis using ur by (auto simp: unsigned_ovfl_def int_fits_def Let_def)
  next
    case False
    then have n: "n \<in> {1, 2, 4}" using assms(1) by simp
    have mask: "(push_bit (n * 8) 1 - 1 :: u64) = mask (8 * n)" by (simp add: mask_eq_exp_minus_1 push_bit_eq_mult mult.commute)
    have v: "unsigned_ovfl t n a b = (take_bit (8 * n) (word_of_int ?r), word_of_int ?r \<noteq> (take_bit (8 * n) (word_of_int ?r) :: u64))"
      using n unfolding unsigned_ovfl_def Let_def ur mask by (auto simp: take_bit_eq_mask)
    have ab: "0 \<le> uint a" "uint a < 2 ^ (8 * n)" "0 \<le> uint b" "uint b < 2 ^ (8 * n)"
      using assms(3,4) by (auto simp: int_fits_def)
    have "- (2 ^ 32) < ?r \<and> ?r < 2 ^ 64"
      by (rule narrow_results) (use ab narrow_bounds(1) [OF n] in linarith)+
    then have "uint (word_of_int ?r :: u64) < 2 ^ (8 * n) \<longleftrightarrow> int_fits True n ?r"
      using narrow_bounds(1) [OF n] wrapped_below [of ?r "2 ^ (8 * n)"] by (simp add: int_fits_def)
    then have "(word_of_int ?r :: u64) = take_bit (8 * n) (word_of_int ?r) \<longleftrightarrow> int_fits True n ?r"
      by (simp only: take_bit_u64_eq)
    then show ?thesis unfolding v by (simp add: st_bytes_take_bit)
  qed
  then show "snd (unsigned_ovfl t n a b) = (\<not> int_fits True n ?r)"
    "st_bytes n m p (fst (unsigned_ovfl t n a b)) = st_bytes n m p (word_of_int ?r)" by blast+
qed

text \<open>
  C22: The overflow builtin computes as if without bounds. For a size of 1, 2, 4 or 8 bytes and
  operands that are values of the type, it leaves 1 in the first argument register exactly when the
  exact sum, difference or product is no value of the type, and 0 otherwise; at the address it is given,
  unless that is null, it stores the low bytes of the exact result; and it never reaches an undefined
  C operation. The machine is outside compile-time code.
\<close>

theorem iovfl_exact:
  fixes vm :: vm
  defines "packed \<equiv> cc_read_i64_at (text_seg vm) (pc vm)"
  defines "t \<equiv> unat (drop_bit 8 packed AND 0xFF)" and "n \<equiv> unat (packed AND 0xFF) div 2"
    and "unsign \<equiv> odd (unat (packed AND 0xFF))"
  defines "x \<equiv> int_value unsign (regs vm REG_A0)" and "y \<equiv> int_value unsign (regs vm REG_A1)"
  assumes "n \<in> {1, 2, 4, 8}" "t \<le> 2" "int_fits unsign n x" "int_fits unsign n y" "comptime_depth vm = 0"
  shows "op_IOVFL_fn hl vm = Inr (vm\<lparr>pc := pc vm + 2,
     mem := (if regs vm REG_A2 \<noteq> 0 then st_bytes n (mem vm) (regs vm REG_A2) (word_of_int (ovfl_arith t x y)) else mem vm),
     regs := (regs vm)(REG_A0 := c_bool (\<not> int_fits unsign n (ovfl_arith t x y)))\<rparr>)"
proof -
  have w: "ovfl_store_width n = n" using assms(7) by (auto simp: ovfl_store_width_def)
  have run: "op_IOVFL_fn hl vm =
    (case (if unsign then Some (unsigned_ovfl t n (regs vm REG_A0) (regs vm REG_A1))
           else signed_ovfl t n (regs vm REG_A0) (regs vm REG_A1)) of
       None \<Rightarrow> Inl (Host_UB, vm\<lparr>pc := pc vm + 2\<rparr>)
     | Some (v, overflow) \<Rightarrow> Inr (put_reg REG_A0 (c_bool overflow) (vm\<lparr>pc := pc vm + 2,
         mem := (if regs vm REG_A2 \<noteq> 0 then st_bytes n (mem vm) (regs vm REG_A2) v else mem vm)\<rparr>)))"
    using assms(11) w
    by (simp add: op_IOVFL_fn_def read_eqs COMPTIME_CONTAIN_def packed_def [symmetric] t_def [symmetric]
        n_def [symmetric] unsign_def [symmetric] split: option.split prod.split)
  show ?thesis
  proof (cases unsign)
    case True
    note U = unsigned_ovfl_exact [OF assms(7,8), of "regs vm REG_A0" "regs vm REG_A1"]
    obtain v ovf where v: "unsigned_ovfl t n (regs vm REG_A0) (regs vm REG_A1) = (v, ovf)" by (rule prod.exhaust)
    show ?thesis using U assms(9,10) True v
      unfolding run by (simp add: x_def y_def int_value_def put_reg_def)
  next
    case False
    then show ?thesis using signed_ovfl_exact [OF assms(7,8), of "regs vm REG_A0" "regs vm REG_A1"] assms(9,10)
      unfolding run by (simp add: x_def y_def int_value_def put_reg_def)
  qed
qed

text \<open>The signed 8-bit sum 100 + 50.\<close>

definition iovfl_vm :: vm where
  "iovfl_vm = (blank_vm ((\<lambda>_. 0)(0 := of_nat IOVFL, 1 := 2)))\<lparr>pc := 1,
     regs := (\<lambda>_. 0)(10 := 100, 11 := 50, 12 := 8192)\<rparr>"

theorem iovfl_exact_witness:
  "op_IOVFL_fn (\<lambda>_ _. 0) iovfl_vm = Inr (iovfl_vm\<lparr>pc := 3, mem := (\<lambda>_. 0)(8192 := 150),
     regs := (regs iovfl_vm)(10 := 1)\<rparr>)"
proof -
  have p: "cc_read_i64_at (text_seg iovfl_vm) 1 = 2"
    by (simp add: iovfl_vm_def blank_vm_def cc_read_i64_at_def cc_make_u64_def)
  have r: "regs iovfl_vm 10 = 100" "regs iovfl_vm 11 = 50" "regs iovfl_vm 12 = 8192" "comptime_depth iovfl_vm = 0"
    "pc iovfl_vm = 1" "mem iovfl_vm = (\<lambda>_. 0)"
    by (simp_all add: iovfl_vm_def blank_vm_def)
  show ?thesis
    using iovfl_exact [of iovfl_vm "\<lambda>_ _. 0"]
    by (simp add: p r int_value_def int_fits_def ovfl_arith_def)
qed

subsection \<open>The bit scans\<close>

text \<open>Position of the lowest and of the highest bit that is set.\<close>

lemma builtin_ctz_bit:
  assumes "take_bit n v \<noteq> 0"
  shows "builtin_ctz n v < n" "bit v (builtin_ctz n v)" "k < builtin_ctz n v \<Longrightarrow> \<not> bit v k"
proof -
  let ?P = "\<lambda>k. \<not> bit v k"
  obtain j where "bit (take_bit n v) j" using assms bit_eqI [of "take_bit n v" 0] by auto
  then have j: "j < n" "bit v j" by (auto simp: bit_simps)
  then have "takeWhile ?P [0..<n] \<noteq> [0..<n]"
    by (metis atLeast_upt lessThan_iff set_takeWhileD)
  moreover have "length (takeWhile ?P [0..<n]) \<le> n" using length_takeWhile_le [of ?P "[0..<n]"] by simp
  ultimately show lt: "builtin_ctz n v < n"
    unfolding builtin_ctz_def
    by (metis length_upt diff_zero le_neq_implies_less takeWhile_eq_take take_all_iff)
  show "bit v (builtin_ctz n v)"
    using nth_length_takeWhile [of ?P "[0..<n]"] lt by (simp add: builtin_ctz_def)
  show "\<not> bit v k" if "k < builtin_ctz n v"
    using takeWhile_nth [of k ?P "[0..<n]"] nth_mem [of k "takeWhile ?P [0..<n]"] set_takeWhileD [of k ?P "[0..<n]"] that lt
    by (simp add: builtin_ctz_def)
qed

lemma builtin_clz_bit:
  assumes "take_bit n v \<noteq> 0"
  shows "builtin_clz n v < n" "bit v (n - 1 - builtin_clz n v)"
    and "n - 1 - builtin_clz n v < k \<Longrightarrow> k < n \<Longrightarrow> \<not> bit v k"
proof -
  let ?P = "\<lambda>k. \<not> bit v k" and ?c = "builtin_clz n v"
  obtain j where "bit (take_bit n v) j" using assms bit_eqI [of "take_bit n v" 0] by auto
  then have j: "j < n" "bit v j" by (auto simp: bit_simps)
  then have "takeWhile ?P (rev [0..<n]) \<noteq> rev [0..<n]"
    by (metis atLeast_upt lessThan_iff set_rev set_takeWhileD)
  moreover have "length (takeWhile ?P (rev [0..<n])) \<le> n" using length_takeWhile_le [of ?P "rev [0..<n]"] by simp
  ultimately show lt: "?c < n"
    unfolding builtin_clz_def
    by (metis length_rev length_upt diff_zero le_neq_implies_less takeWhile_eq_take take_all_iff)
  show "bit v (n - 1 - ?c)"
    using nth_length_takeWhile [of ?P "rev [0..<n]"] lt by (simp add: builtin_clz_def rev_nth)
  show "\<not> bit v k" if k: "n - 1 - ?c < k" "k < n"
  proof -
    have i: "n - 1 - k < ?c" "n - 1 - k < n" using k lt by auto
    then have "takeWhile ?P (rev [0..<n]) ! (n - 1 - k) = k"
      using k takeWhile_nth [of "n - 1 - k" ?P "rev [0..<n]"] by (simp add: builtin_clz_def rev_nth)
    then show ?thesis
      using nth_mem [of "n - 1 - k" "takeWhile ?P (rev [0..<n])"] set_takeWhileD [of k ?P "rev [0..<n]"] i(1)
      by (simp add: builtin_clz_def)
  qed
qed

lemma builtin_popcount_card: "builtin_popcount v = card {k. bit v k}"
proof -
  have "{k. bit v k} = set (filter (bit v) [0..<64])" by (auto dest: bit_imp_le_length)
  then show ?thesis by (simp add: builtin_popcount_def distinct_card [symmetric])
qed

end
