(* ===== verification/Alu_Spec.thy ===== *)
theory Alu_Spec
  imports VM_Props
begin

text \<open>
  The instructions the optimiser knows as pure arithmetic, as one table from the opcode to a function
  of the operand word, the three source registers and the immediate, and the proof that their handlers
  follow it: with a destination other than register 0, a handler stores the value of the table there or
  stops with its fault, and moves the pc over its operand words. The table restates the handlers in a
  form without a machine; it is the interface between \<open>VM_Alu\<close> and the theories of the optimiser, and no
  specification of its own. The checked arithmetic (\<open>ADDC\<close> to \<open>DIVC\<close>) and the bit builtins have no
  entry, since the optimiser leaves them alone.
\<close>

type_synonym alu_fn = "u32 \<Rightarrow> u64 \<Rightarrow> u64 \<Rightarrow> u64 \<Rightarrow> u64 \<Rightarrow> vm_fault + u64"

definition alu_table :: "(opcode \<times> alu_fn) list" where
  "alu_table =
     [(ADD3, \<lambda>w a b c imm. Inr (a + b)),
      (SUB3, \<lambda>w a b c imm. Inr (a - b)),
      (MUL3, \<lambda>w a b c imm. Inr (a * b)),
      (AND3, \<lambda>w a b c imm. Inr (a AND b)),
      (OR3, \<lambda>w a b c imm. Inr (a OR b)),
      (XOR3, \<lambda>w a b c imm. Inr (a XOR b)),
      (SHL3, \<lambda>w a b c imm. Inr (push_bit (shift_count b) a)),
      (SHR3, \<lambda>w a b c imm. Inr (c_sar a (shift_count b))),
      (USHR3, \<lambda>w a b c imm. Inr (drop_bit (shift_count b) a)),
      (SEQ3, \<lambda>w a b c imm. Inr (c_bool (a = b))),
      (SNE3, \<lambda>w a b c imm. Inr (c_bool (a \<noteq> b))),
      (SLT3, \<lambda>w a b c imm. Inr (c_bool (sint a < sint b))),
      (SGE3, \<lambda>w a b c imm. Inr (c_bool (sint a \<ge> sint b))),
      (SGT3, \<lambda>w a b c imm. Inr (c_bool (sint a > sint b))),
      (SLE3, \<lambda>w a b c imm. Inr (c_bool (sint a \<le> sint b))),
      (ULT3, \<lambda>w a b c imm. Inr (c_bool (uint a < uint b))),
      (ULE3, \<lambda>w a b c imm. Inr (c_bool (uint a \<le> uint b))),
      (MOV3, \<lambda>w a b c imm. Inr a),
      (NEG3, \<lambda>w a b c imm. Inr (0 - a)),
      (NOT3, \<lambda>w a b c imm. Inr (c_bool (a = 0))),
      (BNOT3, \<lambda>w a b c imm. Inr (NOT a)),
      (SX1, \<lambda>w a b c imm. Inr (c_sext 8 a)),
      (SX2, \<lambda>w a b c imm. Inr (c_sext 16 a)),
      (SX4, \<lambda>w a b c imm. Inr (c_sext 32 a)),
      (ZX1, \<lambda>w a b c imm. Inr (c_zext 8 a)),
      (ZX2, \<lambda>w a b c imm. Inr (c_zext 16 a)),
      (ZX4, \<lambda>w a b c imm. Inr (c_zext 32 a)),
      (ADDI3, \<lambda>w a b c imm. Inr (a + imm)),
      (MULI3, \<lambda>w a b c imm. Inr (a * imm)),
      (SEQI3, \<lambda>w a b c imm. Inr (c_bool (a = imm))),
      (SNEI3, \<lambda>w a b c imm. Inr (c_bool (a \<noteq> imm))),
      (SLTI3, \<lambda>w a b c imm. Inr (c_bool (sint a < sint imm))),
      (SLEI3, \<lambda>w a b c imm. Inr (c_bool (sint a \<le> sint imm))),
      (SGTI3, \<lambda>w a b c imm. Inr (c_bool (sint a > sint imm))),
      (SGEI3, \<lambda>w a b c imm. Inr (c_bool (sint a \<ge> sint imm))),
      (ULTI3, \<lambda>w a b c imm. Inr (c_bool (uint a < uint imm))),
      (ULEI3, \<lambda>w a b c imm. Inr (c_bool (uint a \<le> uint imm))),
      (UGTI3, \<lambda>w a b c imm. Inr (c_bool (uint a > uint imm))),
      (UGEI3, \<lambda>w a b c imm. Inr (c_bool (uint a \<ge> uint imm))),
      (SHLI3, \<lambda>w a b c imm. if 63 < uint imm then Inl Host_UB else Inr (push_bit (unat imm) a)),
      (SHRI3, \<lambda>w a b c imm. if 63 < uint imm then Inl Host_UB else Inr (c_sar a (unat imm))),
      (USHRI3, \<lambda>w a b c imm. if 63 < uint imm then Inl Host_UB else Inr (drop_bit (unat imm) a)),
      (ANDI3, \<lambda>w a b c imm. Inr (a AND imm)),
      (ORI3, \<lambda>w a b c imm. Inr (a OR imm)),
      (XORI3, \<lambda>w a b c imm. Inr (a XOR imm)),
      (ADDSX3, \<lambda>w a b c imm. Inr (c_sext 32 (a + b))),
      (ADDZX3, \<lambda>w a b c imm. Inr (c_zext 32 (a + b))),
      (SUBSX3, \<lambda>w a b c imm. Inr (c_sext 32 (a - b))),
      (SUBZX3, \<lambda>w a b c imm. Inr (c_zext 32 (a - b))),
      (MULSX3, \<lambda>w a b c imm. Inr (c_sext 32 (a * b))),
      (MULZX3, \<lambda>w a b c imm. Inr (c_zext 32 (a * b))),
      (ADDISX3, \<lambda>w a b c imm. Inr (c_sext 32 (a + imm))),
      (ADDIZX3, \<lambda>w a b c imm. Inr (c_zext 32 (a + imm))),
      (MULISX3, \<lambda>w a b c imm. Inr (c_sext 32 (a * imm))),
      (MULIZX3, \<lambda>w a b c imm. Inr (c_zext 32 (a * imm))),
      (SHLISX3, \<lambda>w a b c imm. if 63 < uint imm then Inl Host_UB
         else Inr (c_sext 32 (push_bit (unat imm) a))),
      (SHLIZX3, \<lambda>w a b c imm. if 63 < uint imm then Inl Host_UB
         else Inr (c_zext 32 (push_bit (unat imm) a))),
      (DIV3, \<lambda>w a b c imm. if b = 0 then Inl Div_By_Zero
         else Inr (if sint a = LLONG_MIN \<and> sint b = -1 then word_of_int LLONG_MIN else c_sdiv a b)),
      (MOD3, \<lambda>w a b c imm. if b = 0 then Inl Mod_By_Zero
         else if sint a = LLONG_MIN \<and> sint b = -1 then Inl Host_UB else Inr (c_smod a b)),
      (UDIV3, \<lambda>w a b c imm. if b = 0 then Inl Div_By_Zero else Inr (a div b)),
      (UMOD3, \<lambda>w a b c imm. if b = 0 then Inl Mod_By_Zero else Inr (a mod b)),
      (LI3, \<lambda>w a b c imm. Inr imm),
      (MULADD3, \<lambda>w a b c imm. Inr (a + b * c)),
      (MULADDI3, \<lambda>w a b c imm. Inr (a + b * imm)),
      (UBFX, \<lambda>w a b c imm. Inr (drop_bit (DECODE_BF_off w) a AND bf_mask (DECODE_BF_w w))),
      (SBFX, \<lambda>w a b c imm. if DECODE_BF_off w + DECODE_BF_w w > 64 then Inl Host_UB
         else Inr (c_sar (push_bit (64 - DECODE_BF_w w - DECODE_BF_off w) a) (64 - DECODE_BF_w w))),
      (BFI, \<lambda>w a b c imm. let fw = cc_i64_lo imm; off = DECODE_BFW_off fw;
           m = bf_mask (DECODE_BFW_w fw)
         in Inr ((a AND NOT (push_bit off m)) OR push_bit off (b AND m)))]"

definition alu :: "opcode \<Rightarrow> alu_fn option" where
  "alu = map_of alu_table"

lemma map_of_nil: "map_of [] k = None"
  by simp

lemma map_of_hd: "map_of ((k, v) # xs) k = Some v"
  by simp

lemma map_of_tl: "k' \<noteq> k \<Longrightarrow> map_of xs k = v \<Longrightarrow> map_of ((k', y) # xs) k = v"
  by simp

lemma alu_eval:
  "alu ADD3 = Some (\<lambda>w a b c imm. Inr (a + b))"
  "alu SUB3 = Some (\<lambda>w a b c imm. Inr (a - b))"
  "alu MUL3 = Some (\<lambda>w a b c imm. Inr (a * b))"
  "alu AND3 = Some (\<lambda>w a b c imm. Inr (a AND b))"
  "alu OR3 = Some (\<lambda>w a b c imm. Inr (a OR b))"
  "alu XOR3 = Some (\<lambda>w a b c imm. Inr (a XOR b))"
  "alu SHL3 = Some (\<lambda>w a b c imm. Inr (push_bit (shift_count b) a))"
  "alu SHR3 = Some (\<lambda>w a b c imm. Inr (c_sar a (shift_count b)))"
  "alu USHR3 = Some (\<lambda>w a b c imm. Inr (drop_bit (shift_count b) a))"
  "alu SEQ3 = Some (\<lambda>w a b c imm. Inr (c_bool (a = b)))"
  "alu SNE3 = Some (\<lambda>w a b c imm. Inr (c_bool (a \<noteq> b)))"
  "alu SLT3 = Some (\<lambda>w a b c imm. Inr (c_bool (sint a < sint b)))"
  "alu SGE3 = Some (\<lambda>w a b c imm. Inr (c_bool (sint a \<ge> sint b)))"
  "alu SGT3 = Some (\<lambda>w a b c imm. Inr (c_bool (sint a > sint b)))"
  "alu SLE3 = Some (\<lambda>w a b c imm. Inr (c_bool (sint a \<le> sint b)))"
  "alu ULT3 = Some (\<lambda>w a b c imm. Inr (c_bool (uint a < uint b)))"
  "alu ULE3 = Some (\<lambda>w a b c imm. Inr (c_bool (uint a \<le> uint b)))"
  "alu MOV3 = Some (\<lambda>w a b c imm. Inr a)"
  "alu NEG3 = Some (\<lambda>w a b c imm. Inr (0 - a))"
  "alu NOT3 = Some (\<lambda>w a b c imm. Inr (c_bool (a = 0)))"
  "alu BNOT3 = Some (\<lambda>w a b c imm. Inr (NOT a))"
  "alu SX1 = Some (\<lambda>w a b c imm. Inr (c_sext 8 a))"
  "alu SX2 = Some (\<lambda>w a b c imm. Inr (c_sext 16 a))"
  "alu SX4 = Some (\<lambda>w a b c imm. Inr (c_sext 32 a))"
  "alu ZX1 = Some (\<lambda>w a b c imm. Inr (c_zext 8 a))"
  "alu ZX2 = Some (\<lambda>w a b c imm. Inr (c_zext 16 a))"
  "alu ZX4 = Some (\<lambda>w a b c imm. Inr (c_zext 32 a))"
  "alu ADDI3 = Some (\<lambda>w a b c imm. Inr (a + imm))"
  "alu MULI3 = Some (\<lambda>w a b c imm. Inr (a * imm))"
  "alu SEQI3 = Some (\<lambda>w a b c imm. Inr (c_bool (a = imm)))"
  "alu SNEI3 = Some (\<lambda>w a b c imm. Inr (c_bool (a \<noteq> imm)))"
  "alu SLTI3 = Some (\<lambda>w a b c imm. Inr (c_bool (sint a < sint imm)))"
  "alu SLEI3 = Some (\<lambda>w a b c imm. Inr (c_bool (sint a \<le> sint imm)))"
  "alu SGTI3 = Some (\<lambda>w a b c imm. Inr (c_bool (sint a > sint imm)))"
  "alu SGEI3 = Some (\<lambda>w a b c imm. Inr (c_bool (sint a \<ge> sint imm)))"
  "alu ULTI3 = Some (\<lambda>w a b c imm. Inr (c_bool (uint a < uint imm)))"
  "alu ULEI3 = Some (\<lambda>w a b c imm. Inr (c_bool (uint a \<le> uint imm)))"
  "alu UGTI3 = Some (\<lambda>w a b c imm. Inr (c_bool (uint a > uint imm)))"
  "alu UGEI3 = Some (\<lambda>w a b c imm. Inr (c_bool (uint a \<ge> uint imm)))"
  "alu SHLI3 = Some (\<lambda>w a b c imm. if 63 < uint imm then Inl Host_UB else Inr (push_bit (unat imm) a))"
  "alu SHRI3 = Some (\<lambda>w a b c imm. if 63 < uint imm then Inl Host_UB else Inr (c_sar a (unat imm)))"
  "alu USHRI3 = Some (\<lambda>w a b c imm. if 63 < uint imm then Inl Host_UB else Inr (drop_bit (unat imm) a))"
  "alu ANDI3 = Some (\<lambda>w a b c imm. Inr (a AND imm))"
  "alu ORI3 = Some (\<lambda>w a b c imm. Inr (a OR imm))"
  "alu XORI3 = Some (\<lambda>w a b c imm. Inr (a XOR imm))"
  "alu ADDSX3 = Some (\<lambda>w a b c imm. Inr (c_sext 32 (a + b)))"
  "alu ADDZX3 = Some (\<lambda>w a b c imm. Inr (c_zext 32 (a + b)))"
  "alu SUBSX3 = Some (\<lambda>w a b c imm. Inr (c_sext 32 (a - b)))"
  "alu SUBZX3 = Some (\<lambda>w a b c imm. Inr (c_zext 32 (a - b)))"
  "alu MULSX3 = Some (\<lambda>w a b c imm. Inr (c_sext 32 (a * b)))"
  "alu MULZX3 = Some (\<lambda>w a b c imm. Inr (c_zext 32 (a * b)))"
  "alu ADDISX3 = Some (\<lambda>w a b c imm. Inr (c_sext 32 (a + imm)))"
  "alu ADDIZX3 = Some (\<lambda>w a b c imm. Inr (c_zext 32 (a + imm)))"
  "alu MULISX3 = Some (\<lambda>w a b c imm. Inr (c_sext 32 (a * imm)))"
  "alu MULIZX3 = Some (\<lambda>w a b c imm. Inr (c_zext 32 (a * imm)))"
  "alu SHLISX3 = Some (\<lambda>w a b c imm. if 63 < uint imm then Inl Host_UB
         else Inr (c_sext 32 (push_bit (unat imm) a)))"
  "alu SHLIZX3 = Some (\<lambda>w a b c imm. if 63 < uint imm then Inl Host_UB
         else Inr (c_zext 32 (push_bit (unat imm) a)))"
  "alu DIV3 = Some (\<lambda>w a b c imm. if b = 0 then Inl Div_By_Zero
         else Inr (if sint a = LLONG_MIN \<and> sint b = -1 then word_of_int LLONG_MIN else c_sdiv a b))"
  "alu MOD3 = Some (\<lambda>w a b c imm. if b = 0 then Inl Mod_By_Zero
         else if sint a = LLONG_MIN \<and> sint b = -1 then Inl Host_UB else Inr (c_smod a b))"
  "alu UDIV3 = Some (\<lambda>w a b c imm. if b = 0 then Inl Div_By_Zero else Inr (a div b))"
  "alu UMOD3 = Some (\<lambda>w a b c imm. if b = 0 then Inl Mod_By_Zero else Inr (a mod b))"
  "alu LI3 = Some (\<lambda>w a b c imm. Inr imm)"
  "alu MULADD3 = Some (\<lambda>w a b c imm. Inr (a + b * c))"
  "alu MULADDI3 = Some (\<lambda>w a b c imm. Inr (a + b * imm))"
  "alu UBFX = Some (\<lambda>w a b c imm. Inr (drop_bit (DECODE_BF_off w) a AND bf_mask (DECODE_BF_w w)))"
  "alu SBFX = Some (\<lambda>w a b c imm. if DECODE_BF_off w + DECODE_BF_w w > 64 then Inl Host_UB
         else Inr (c_sar (push_bit (64 - DECODE_BF_w w - DECODE_BF_off w) a) (64 - DECODE_BF_w w)))"
  "alu BFI = Some (\<lambda>w a b c imm. let fw = cc_i64_lo imm; off = DECODE_BFW_off fw;
           m = bf_mask (DECODE_BFW_w fw)
         in Inr ((a AND NOT (push_bit off m)) OR push_bit off (b AND m)))"
  unfolding alu_def alu_table_def by (rule map_of_hd | rule map_of_tl, simp)+

text \<open>The values an instruction at \<open>pc - 1\<close> reads, and the state it leaves.\<close>

definition alu_value :: "alu_fn \<Rightarrow> vm \<Rightarrow> vm_fault + u64" where
  "alu_value g vm =
     (let w = text_seg vm (pc vm)
      in g w (regs vm (opnd_byte w 1)) (regs vm (opnd_byte w 2)) (regs vm (opnd_byte w 3))
           (cc_read_i64_at (text_seg vm) (pc vm + 1)))"

definition alu_step :: "nat \<Rightarrow> alu_fn \<Rightarrow> vm \<Rightarrow> step" where
  "alu_step n g vm =
     (let vm1 = vm\<lparr>pc := pc vm + of_nat n\<rparr>
      in case alu_value g vm of
           Inl e \<Rightarrow> Inl (e, vm1)
         | Inr v \<Rightarrow> Inr (vm1\<lparr>regs := (regs vm)(opnd_byte (text_seg vm (pc vm)) 0 := v)\<rparr>))"

definition computes :: "nat \<Rightarrow> (vm \<Rightarrow> step) \<Rightarrow> alu_fn \<Rightarrow> bool" where
  "computes n h g \<longleftrightarrow>
     (\<forall>vm. opnd_byte (text_seg vm (pc vm)) 0 \<noteq> REG_ZERO \<longrightarrow> h vm = alu_step n g vm)"

lemmas computes_defs = computes_def alu_step_def alu_value_def read_eqs set_reg_def put_reg_def

lemma sint_shift_range: "(sint (imm :: u64) < 0 \<or> sint imm > 63) \<longleftrightarrow> 63 < uint imm"
proof (cases "0 \<le> sint imm")
  case True
  then show ?thesis by (simp add: uint_sint_nonneg)
next
  case False
  then have "2 ^ 63 \<le> sint imm + 2 ^ 64" "sint imm + 2 ^ 64 < 2 ^ 64"
    using sint64_bounds(1) [of imm] by simp_all
  then have "(sint imm + 2 ^ 64) mod 2 ^ 64 = sint imm + 2 ^ 64"
    by (intro mod_pos_pos_trivial) simp_all
  then have "uint imm = sint imm + 2 ^ 64"
    by (simp add: uint_sint take_bit_eq_mod mod_add_self2)
  with False sint64_bounds [of imm] show ?thesis by simp
qed

lemma computes_skeletons [simp]:
  "computes (Suc 0) (rrr_op f) (\<lambda>w a b c i. Inr (f a b))"
  "computes (Suc 0) (rr_op g) (\<lambda>w a b c i. Inr (g a))"
  "computes 3 (rri_op f) (\<lambda>w a b c i. Inr (f a i))"
  "computes (Suc 0) (rrr_op_raw f) (\<lambda>w a b c i. Inr (f a b))"
  "computes (Suc 0) (rr_op_raw g) (\<lambda>w a b c i. Inr (g a))"
  "computes 3 (rri_op_raw f) (\<lambda>w a b c i. Inr (f a i))"
  "computes 3 (shift_imm_op s) (\<lambda>w a b c i. if 63 < uint i then Inl Host_UB else Inr (s a (unat i)))"
  "computes 3 (wrap_shl_op g)
     (\<lambda>w a b c i. if 63 < uint i then Inl Host_UB else Inr (g (push_bit (unat i) a)))"
  by (simp_all add: computes_defs skeleton_defs shift_imm_op_def wrap_shl_op_def sint_shift_range)

lemma cc_i64_lo_make: "cc_i64_lo (cc_read_i64_at t p) = t p"
proof (rule bit_word_eqI)
  fix n assume "n < LENGTH(32)"
  have mask: "(0xFFFFFFFF :: u64) = mask 32" by (simp add: mask_eq_exp_minus_1)
  show "bit (cc_i64_lo (cc_read_i64_at t p)) n = bit (t p) n"
    using \<open>n < LENGTH(32)\<close>
    by (simp add: cc_i64_lo_def cc_read_i64_at_def mask bit_simps bit_cc_make)
qed

lemmas computes_shifts [simp] =
  computes_skeletons(7) [of "\<lambda>a k. push_bit k a"] computes_skeletons(7) [of "\<lambda>a k. drop_bit k a"]

lemma computes_singles [simp]:
  "computes (Suc 0) op_DIV3_fn (\<lambda>w a b c i. if b = 0 then Inl Div_By_Zero
     else Inr (if sint a = LLONG_MIN \<and> sint b = -1 then word_of_int LLONG_MIN else c_sdiv a b))"
  "computes (Suc 0) op_MOD3_fn (\<lambda>w a b c i. if b = 0 then Inl Mod_By_Zero
     else if sint a = LLONG_MIN \<and> sint b = -1 then Inl Host_UB else Inr (c_smod a b))"
  "computes (Suc 0) op_UDIV3_fn (\<lambda>w a b c i. if b = 0 then Inl Div_By_Zero else Inr (a div b))"
  "computes (Suc 0) op_UMOD3_fn (\<lambda>w a b c i. if b = 0 then Inl Mod_By_Zero else Inr (a mod b))"
  "computes 3 op_LI3_fn (\<lambda>w a b c i. Inr i)"
  "computes (Suc 0) op_MULADD3_fn (\<lambda>w a b c i. Inr (a + b * c))"
  "computes 3 op_MULADDI3_fn (\<lambda>w a b c i. Inr (a + b * i))"
  by (simp_all add: computes_defs op_DIV3_fn_eq op_MOD3_fn_def op_UDIV3_fn_def op_UMOD3_fn_def
      op_LI3_fn_def op_MULADD3_fn_def op_MULADDI3_fn_def)

lemma computes_fields [simp]:
  "computes (Suc 0) op_UBFX_fn
     (\<lambda>w a b c i. Inr (drop_bit (DECODE_BF_off w) a AND bf_mask (DECODE_BF_w w)))"
  "computes (Suc 0) op_SBFX_fn
     (\<lambda>w a b c i. if DECODE_BF_off w + DECODE_BF_w w > 64 then Inl Host_UB
        else Inr (c_sar (push_bit (64 - DECODE_BF_w w - DECODE_BF_off w) a) (64 - DECODE_BF_w w)))"
  "computes 2 op_BFI_fn
     (\<lambda>w a b c i. let fw = cc_i64_lo i; off = DECODE_BFW_off fw; m = bf_mask (DECODE_BFW_w fw)
        in Inr ((a AND NOT (push_bit off m)) OR push_bit off (b AND m)))"
  by (simp_all add: computes_defs op_UBFX_fn_def op_SBFX_fn_def op_BFI_fn_def cc_i64_lo_make)

lemma op_table_alu:
  "op_table hl cm ADD3 = Some op_ADD3_fn"
  "op_table hl cm SUB3 = Some op_SUB3_fn"
  "op_table hl cm MUL3 = Some op_MUL3_fn"
  "op_table hl cm AND3 = Some op_AND3_fn"
  "op_table hl cm OR3 = Some op_OR3_fn"
  "op_table hl cm XOR3 = Some op_XOR3_fn"
  "op_table hl cm SHL3 = Some op_SHL3_fn"
  "op_table hl cm SHR3 = Some op_SHR3_fn"
  "op_table hl cm USHR3 = Some op_USHR3_fn"
  "op_table hl cm SEQ3 = Some op_SEQ3_fn"
  "op_table hl cm SNE3 = Some op_SNE3_fn"
  "op_table hl cm SLT3 = Some op_SLT3_fn"
  "op_table hl cm SGE3 = Some op_SGE3_fn"
  "op_table hl cm SGT3 = Some op_SGT3_fn"
  "op_table hl cm SLE3 = Some op_SLE3_fn"
  "op_table hl cm ULT3 = Some op_ULT3_fn"
  "op_table hl cm ULE3 = Some op_ULE3_fn"
  "op_table hl cm MOV3 = Some op_MOV3_fn"
  "op_table hl cm NEG3 = Some op_NEG3_fn"
  "op_table hl cm NOT3 = Some op_NOT3_fn"
  "op_table hl cm BNOT3 = Some op_BNOT3_fn"
  "op_table hl cm SX1 = Some op_SX1_fn"
  "op_table hl cm SX2 = Some op_SX2_fn"
  "op_table hl cm SX4 = Some op_SX4_fn"
  "op_table hl cm ZX1 = Some op_ZX1_fn"
  "op_table hl cm ZX2 = Some op_ZX2_fn"
  "op_table hl cm ZX4 = Some op_ZX4_fn"
  "op_table hl cm ADDI3 = Some op_ADDI3_fn"
  "op_table hl cm MULI3 = Some op_MULI3_fn"
  "op_table hl cm SEQI3 = Some op_SEQI3_fn"
  "op_table hl cm SNEI3 = Some op_SNEI3_fn"
  "op_table hl cm SLTI3 = Some op_SLTI3_fn"
  "op_table hl cm SLEI3 = Some op_SLEI3_fn"
  "op_table hl cm SGTI3 = Some op_SGTI3_fn"
  "op_table hl cm SGEI3 = Some op_SGEI3_fn"
  "op_table hl cm ULTI3 = Some op_ULTI3_fn"
  "op_table hl cm ULEI3 = Some op_ULEI3_fn"
  "op_table hl cm UGTI3 = Some op_UGTI3_fn"
  "op_table hl cm UGEI3 = Some op_UGEI3_fn"
  "op_table hl cm SHLI3 = Some op_SHLI3_fn"
  "op_table hl cm SHRI3 = Some op_SHRI3_fn"
  "op_table hl cm USHRI3 = Some op_USHRI3_fn"
  "op_table hl cm ANDI3 = Some op_ANDI3_fn"
  "op_table hl cm ORI3 = Some op_ORI3_fn"
  "op_table hl cm XORI3 = Some op_XORI3_fn"
  "op_table hl cm ADDSX3 = Some op_ADDSX3_fn"
  "op_table hl cm ADDZX3 = Some op_ADDZX3_fn"
  "op_table hl cm SUBSX3 = Some op_SUBSX3_fn"
  "op_table hl cm SUBZX3 = Some op_SUBZX3_fn"
  "op_table hl cm MULSX3 = Some op_MULSX3_fn"
  "op_table hl cm MULZX3 = Some op_MULZX3_fn"
  "op_table hl cm ADDISX3 = Some op_ADDISX3_fn"
  "op_table hl cm ADDIZX3 = Some op_ADDIZX3_fn"
  "op_table hl cm MULISX3 = Some op_MULISX3_fn"
  "op_table hl cm MULIZX3 = Some op_MULIZX3_fn"
  "op_table hl cm SHLISX3 = Some op_SHLISX3_fn"
  "op_table hl cm SHLIZX3 = Some op_SHLIZX3_fn"
  "op_table hl cm DIV3 = Some op_DIV3_fn"
  "op_table hl cm MOD3 = Some op_MOD3_fn"
  "op_table hl cm UDIV3 = Some op_UDIV3_fn"
  "op_table hl cm UMOD3 = Some op_UMOD3_fn"
  "op_table hl cm LI3 = Some op_LI3_fn"
  "op_table hl cm MULADD3 = Some op_MULADD3_fn"
  "op_table hl cm MULADDI3 = Some op_MULADDI3_fn"
  "op_table hl cm UBFX = Some op_UBFX_fn"
  "op_table hl cm SBFX = Some op_SBFX_fn"
  "op_table hl cm BFI = Some op_BFI_fn"
  unfolding op_table_def handlers_def by (rule map_of_hd | rule map_of_tl, simp)+

lemma handlers_compute:
  "list_all (\<lambda>(op, g). case op_table hl cm op of
     None \<Rightarrow> False | Some h \<Rightarrow> computes (operand_words ! op) h g) alu_table"
  by (simp add: alu_table_def op_table_alu operand_words_def
      op_ADD3_fn_def op_SUB3_fn_def op_MUL3_fn_def op_AND3_fn_def op_OR3_fn_def op_XOR3_fn_def
      op_SHL3_fn_def op_SHR3_fn_def op_USHR3_fn_def op_SEQ3_fn_def op_SNE3_fn_def op_SLT3_fn_def
      op_SGE3_fn_def op_SGT3_fn_def op_SLE3_fn_def op_ULT3_fn_def op_ULE3_fn_def op_MOV3_fn_def
      op_NEG3_fn_def op_NOT3_fn_def op_BNOT3_fn_def op_SX1_fn_def op_SX2_fn_def op_SX4_fn_def
      op_ZX1_fn_def op_ZX2_fn_def op_ZX4_fn_def op_ADDI3_fn_def op_MULI3_fn_def op_SEQI3_fn_def
      op_SNEI3_fn_def op_SLTI3_fn_def op_SLEI3_fn_def op_SGTI3_fn_def op_SGEI3_fn_def
      op_ULTI3_fn_def op_ULEI3_fn_def op_UGTI3_fn_def op_UGEI3_fn_def op_SHLI3_fn_def
      op_SHRI3_fn_def op_USHRI3_fn_def op_ANDI3_fn_def op_ORI3_fn_def op_XORI3_fn_def
      op_ADDSX3_fn_def op_ADDZX3_fn_def op_SUBSX3_fn_def op_SUBZX3_fn_def op_MULSX3_fn_def
      op_MULZX3_fn_def op_ADDISX3_fn_def op_ADDIZX3_fn_def op_MULISX3_fn_def op_MULIZX3_fn_def
      op_SHLISX3_fn_def op_SHLIZX3_fn_def
     
      del: push_bit_and)

lemma alu_refines:
  assumes "alu op = Some g"
  obtains h where "op_table hl cm op = Some h" and "computes (operand_words ! op) h g"
  using handlers_compute [of hl cm] map_of_SomeD [of alu_table op g] assms
  by (auto simp: alu_def list_all_iff split: option.splits)

lemma alu_handler_step:
  assumes "alu op = Some g" "op_table hl cm op = Some h"
    and "opnd_byte (text_seg vm (pc vm)) 0 \<noteq> REG_ZERO"
  shows "h vm = alu_step (operand_words ! op) g vm"
  using assms alu_refines [OF assms(1), of hl cm] by (metis computes_def option.inject)

end
