(* ===== verification/Peep_Insn.thy ===== *)
theory Peep_Insn
  imports Alu_Spec
begin

text \<open>
  The peephole optimiser's view of an instruction (\<open>src/src/codegen_peep.c\<close>, lines 62 to 470):
  what each byte of the operand word means (\<open>op_spec\<close>), which registers an instruction reads
  and writes (\<open>effects\<close>), how it transfers control (\<open>ctrl_kind\<close>), and the decoder of a
  function's text window. The text segment is the function \<open>text\<close> from word index to word.
\<close>

datatype role = R_NO | R_IU | R_ID | R_FU | R_FD

datatype op_spec = SPEC (role0: role) (role1: role) (role2: role) (role3: role)
  (sp_pure: bool) (sp_move: bool)

definition role :: "op_spec \<Rightarrow> nat \<Rightarrow> role" where
  "role s k = (if k = 0 then role0 s else if k = 1 then role1 s else if k = 2 then role2 s
     else if k = 3 then role3 s else R_NO)"

definition op_spec :: "opcode \<Rightarrow> op_spec option" where
  "op_spec op =
     (if op \<in> {ADD3, SUB3, MUL3, AND3, OR3, XOR3, SHL3, SHR3, USHR3, SEQ3, SNE3, SLT3, SGE3, SGT3,
          SLE3, ULT3, ULE3}
      then Some (SPEC R_ID R_IU R_IU R_NO True False)
      else if op \<in> {DIV3, MOD3, UDIV3, UMOD3}
      then Some (SPEC R_ID R_IU R_IU R_NO False False)
      else if op \<in> {MOV3}
      then Some (SPEC R_ID R_IU R_NO R_NO True True)
      else if op \<in> {NEG3, NOT3, BNOT3, SX1, SX2, SX4, ZX1, ZX2, ZX4, ADDI3, MULI3, SHLI3, SHRI3, USHRI3,
          ANDI3, ORI3, XORI3, ADDISX3, ADDIZX3, MULISX3, MULIZX3, SHLISX3, SHLIZX3, SEQI3,
          SNEI3, SLTI3, SLEI3, SGTI3, SGEI3, ULTI3, ULEI3, UGTI3, UGEI3, UBFX, SBFX}
      then Some (SPEC R_ID R_IU R_NO R_NO True False)
      else if op \<in> {BFI}
      then Some (SPEC R_ID R_IU R_IU R_NO True False)
      else if op \<in> {MULADD3}
      then Some (SPEC R_ID R_IU R_IU R_IU True False)
      else if op \<in> {MULADDI3, ADDSX3, ADDZX3, SUBSX3, SUBZX3, MULSX3, MULZX3}
      then Some (SPEC R_ID R_IU R_IU R_NO True False)
      else if op \<in> {LI3, LDA3}
      then Some (SPEC R_ID R_NO R_NO R_NO True False)
      else if op \<in> {LEA3, LDR_LOCAL_B, LDR_LOCAL_H, LDR_LOCAL_W, LDR_LOCAL_D, LDR_LOCAL_UB, LDR_LOCAL_UW}
      then Some (SPEC R_ID R_NO R_NO R_NO False False)
      else if op \<in> {STR_LOCAL_B, STR_LOCAL_H, STR_LOCAL_W, STR_LOCAL_D}
      then Some (SPEC R_IU R_NO R_NO R_NO False False)
      else if op \<in> {LDR_B, LDR_H, LDR_W, LDR_D, LDR_UB, LDR_UW}
      then Some (SPEC R_ID R_IU R_NO R_NO False False)
      else if op \<in> {STR_B, STR_H, STR_W, STR_D}
      then Some (SPEC R_IU R_IU R_NO R_NO False False)
      else if op \<in> {LDR_INDEX_B, LDR_INDEX_H, LDR_INDEX_W, LDR_INDEX_D, LDR_INDEX_UB, LDR_INDEX_UW}
      then Some (SPEC R_ID R_IU R_IU R_NO False False)
      else if op \<in> {STR_INDEX_B, STR_INDEX_H, STR_INDEX_W, STR_INDEX_D}
      then Some (SPEC R_IU R_IU R_IU R_NO False False)
      else if op \<in> {FMOV3}
      then Some (SPEC R_FD R_FU R_NO R_NO True True)
      else if op \<in> {FNEG3, FNEG3_F32}
      then Some (SPEC R_FD R_FU R_NO R_NO True False)
      else if op \<in> {FADD3, FSUB3, FMUL3, FDIV3, FADD3_F32, FSUB3_F32, FMUL3_F32, FDIV3_F32}
      then Some (SPEC R_FD R_FU R_FU R_NO False False)
      else if op \<in> {FMADD3, FMADD3_F32, FMSUB3, FMSUB3_F32, FNMSUB3, FNMSUB3_F32}
      then Some (SPEC R_FD R_FU R_FU R_FU False False)
      else if op \<in> {FEQ3, FNE3, FLT3, FLE3, FGT3, FGE3, FEQ3_F32, FNE3_F32, FLT3_F32, FLE3_F32, FGT3_F32,
          FGE3_F32}
      then Some (SPEC R_ID R_FU R_FU R_NO False False)
      else if op \<in> {I2F3, I2F3_F32}
      then Some (SPEC R_FD R_IU R_NO R_NO False False)
      else if op \<in> {F2I3, F2I3_F32, FNZ3, FNZ3_F32}
      then Some (SPEC R_ID R_FU R_NO R_NO False False)
      else if op \<in> {FLDR, FLDR_F32}
      then Some (SPEC R_FD R_IU R_NO R_NO False False)
      else if op \<in> {FSTR, FSTR_F32}
      then Some (SPEC R_FU R_IU R_NO R_NO False False)
      else if op \<in> {FLDR_LOCAL, FLDR_LOCAL_F32}
      then Some (SPEC R_FD R_NO R_NO R_NO False False)
      else if op \<in> {FSTR_LOCAL, FSTR_LOCAL_F32}
      then Some (SPEC R_FU R_NO R_NO R_NO False False)
      else if op \<in> {FLDR_INDEX, FLDR_INDEX_F32}
      then Some (SPEC R_FD R_IU R_IU R_NO False False)
      else if op \<in> {FSTR_INDEX, FSTR_INDEX_F32}
      then Some (SPEC R_FU R_IU R_IU R_NO False False)
      else None)"

subsection \<open>Decoded instructions\<close>

record insn =
  i_pc :: u32
  i_op :: opcode
  i_size :: nat
  dead :: bool
  leader :: bool
  addr_target :: bool
  known :: bool
  src_ext :: u8
  ret_ext :: u8
  fold_v :: "u64 option"
  spec :: op_spec

type_synonym text_words = "u32 \<Rightarrow> u32"

definition operand :: "text_words \<Rightarrow> insn \<Rightarrow> u32" where
  "operand text i = text (i_pc i + 1)"

definition get_byte :: "text_words \<Rightarrow> insn \<Rightarrow> nat \<Rightarrow> nat" where
  "get_byte text i k = opnd_byte (operand text i) k"

definition set_byte :: "text_words \<Rightarrow> insn \<Rightarrow> nat \<Rightarrow> nat \<Rightarrow> text_words" where
  "set_byte text i k r =
     text(i_pc i + 1 := (text (i_pc i + 1) AND NOT (push_bit (8 * k) 0xFF)) OR
                        push_bit (8 * k) (of_nat r))"

definition insn_imm :: "text_words \<Rightarrow> insn \<Rightarrow> u64" where
  "insn_imm text i = cc_read_i64_at text (i_pc i + 2)"

definition IS_FUSED_BR :: "opcode \<Rightarrow> bool" where
  "IS_FUSED_BR op \<longleftrightarrow> BEQ3 \<le> op \<and> op \<le> BUGEW3"

datatype ctrl = C_NONE | C_JMP | C_COND | C_EXIT

definition ctrl_kind :: "text_words \<Rightarrow> insn \<Rightarrow> ctrl" where
  "ctrl_kind text i =
     (let op = i_op i;
          on_zero = (op = JZ3 \<or> op = JNZ3) \<and> get_byte text i 0 = REG_ZERO
      in if dead i then C_NONE
         else if op = JMP then C_JMP
         else if op = JZ3 then (if on_zero then C_JMP else C_COND)
         else if op = JNZ3 then (if on_zero then C_NONE else C_COND)
         else if op \<in> {JMPT, LEV3, CALLT, JMPI, LONGJMP} then C_EXIT
         else if IS_FUSED_BR op then C_COND else C_NONE)"

definition is_call :: "opcode \<Rightarrow> bool" where
  "is_call op \<longleftrightarrow> op = CALL \<or> op = CALLI \<or> op = CALLN \<or> op = CALLF"

subsection \<open>Register effects\<close>

text \<open>\<open>1u << r\<close>. The C shift is undefined from 32 on, where this is 0; the theorems about blocks assume
  instructions whose register bytes are below \<open>NUM_REGS\<close> (\<open>insn_wf\<close>).\<close>

definition BIT :: "nat \<Rightarrow> u32" where
  "BIT r = push_bit r 1"

definition ALL_REGS :: u32 where
  "ALL_REGS = 0xFFFFFFFF"

definition EXIT_LIVE :: u32 where
  "EXIT_LIVE = 0x03FFFC00"

record eff =
  iuse :: u32
  idef :: u32
  fuse :: u32
  fdef :: u32

definition no_eff :: eff where
  "no_eff = \<lparr>iuse = 0, idef = 0, fuse = 0, fdef = 0\<rparr>"

definition role_effect :: "text_words \<Rightarrow> insn \<Rightarrow> nat \<Rightarrow> eff \<Rightarrow> eff" where
  "role_effect text i k e =
     (let r = get_byte text i k
      in case role (spec i) k of
           R_NO \<Rightarrow> e
         | R_IU \<Rightarrow> if r \<noteq> REG_ZERO then e\<lparr>iuse := iuse e OR BIT r\<rparr> else e
         | R_ID \<Rightarrow> if r \<noteq> REG_ZERO then e\<lparr>idef := idef e OR BIT r\<rparr> else e
         | R_FU \<Rightarrow> e\<lparr>fuse := fuse e OR BIT r\<rparr>
         | R_FD \<Rightarrow> e\<lparr>fdef := fdef e OR BIT r\<rparr>)"

definition effects :: "text_words \<Rightarrow> insn \<Rightarrow> eff" where
  "effects text i =
     (let op = i_op i; r = get_byte text i 0
      in if op = JMP then no_eff
         else if op = JZ3 \<or> op = JNZ3
         then no_eff\<lparr>iuse := (if REG_ZERO < r \<and> r < NUM_REGS then BIT r
                else if NUM_REGS \<le> r then ALL_REGS else 0)\<rparr>
         else if IS_FUSED_BR op
         then no_eff\<lparr>iuse := (BIT r OR (if op \<le> BULE3 then BIT (get_byte text i 1) else 0))
                AND NOT (BIT REG_ZERO)\<rparr>
         else if op = LEV3 \<or> op = CALLT then no_eff\<lparr>iuse := EXIT_LIVE, fuse := EXIT_LIVE\<rparr>
         else if op = JMPT then no_eff\<lparr>iuse := BIT REG_A0\<rparr>
         else if is_call op
         then no_eff\<lparr>iuse := (if op = CALLI \<or> op = CALLN
                  then (if NUM_REGS \<le> r then ALL_REGS
                        else if r \<noteq> REG_ZERO then EXIT_LIVE OR BIT r else EXIT_LIVE)
                  else EXIT_LIVE), fuse := EXIT_LIVE\<rparr>
         else if op = JMPI
         then no_eff\<lparr>iuse := (if NUM_REGS \<le> r then ALL_REGS else if r \<noteq> REG_ZERO then BIT r else 0)\<rparr>
         else if \<not> known i then no_eff\<lparr>iuse := ALL_REGS, fuse := ALL_REGS\<rparr>
         else fold (role_effect text i) [0, 1, 2, 3] no_eff)"

subsection \<open>Decoding a window\<close>

definition blank_spec :: op_spec where
  "blank_spec = SPEC R_NO R_NO R_NO R_NO False False"

text \<open>One round of the first loop of \<open>decode_window\<close> for the instruction at \<open>p\<close>, then the
  range check of its register bytes; \<open>None\<close> where the C function gives up.\<close>

definition insn_words :: "text_words \<Rightarrow> u32 \<Rightarrow> nat \<Rightarrow> nat option" where
  "insn_words text p end_pc =
     (case cc_instr_words (unat (text p)) of
        None \<Rightarrow> None
      | Some n \<Rightarrow>
          if unat (text p) = JMPT
          then if unat p + 3 \<ge> end_pc \<or> text (p + 1) \<noteq> p + 4 then None
               else Some (n + unat (text (p + 2)))
          else Some n)"

definition decode_insn :: "text_words \<Rightarrow> u32 \<Rightarrow> nat \<Rightarrow> insn" where
  "decode_insn text p n =
     (let op = unat (text p); s = op_spec op
      in \<lparr>i_pc = p, i_op = op, i_size = n, dead = False, leader = False, addr_target = False,
          known = (op \<noteq> JMP \<and> op \<noteq> JZ3 \<and> op \<noteq> JNZ3 \<and> s \<noteq> None \<and>
            (\<forall>k \<in> {0, 1, 2, 3}. role (the s) k \<noteq> R_NO \<longrightarrow> opnd_byte (text (p + 1)) k < NUM_REGS)),
          src_ext = 0, ret_ext = 0, fold_v = None,
          spec = (case s of None \<Rightarrow> blank_spec | Some s1 \<Rightarrow> s1)\<rparr>)"

function decode_from :: "text_words \<Rightarrow> nat \<Rightarrow> nat \<Rightarrow> insn list option" where
  "decode_from text p end_pc =
     (if end_pc < p then None
      else if p = end_pc then Some []
      else case insn_words text (of_nat p) end_pc of
             None \<Rightarrow> None
           | Some n \<Rightarrow>
               if n = 0 \<or> end_pc < p + n then None
               else map_option (\<lambda>is. decode_insn text (of_nat p) n # is)
                      (decode_from text (p + n) end_pc))"
  by pat_completeness auto
termination
  by (relation "measure (\<lambda>(text, p, end_pc). Suc end_pc - p)") auto

definition decode_window :: "text_words \<Rightarrow> nat \<Rightarrow> nat \<Rightarrow> insn list option" where
  "decode_window text start end_pc = decode_from text start end_pc"

declare decode_from.simps [simp del]

end
