(* ===== verification/Peep_Facts.thy ===== *)
theory Peep_Facts
  imports Peep_Insn
begin

text \<open>
  The optimiser's facts about registers (\<open>src/src/codegen_peep.c\<close>, lines 706 to 905 and 1683 to
  1800): extension bits and value intervals, which imply each other, copies, and the latest
  compare; how they are reset, killed, merged at a join, widened on a back edge and narrowed.
  \<open>facts_ok f R\<close> is their meaning: everything \<open>f\<close> claims holds of the register file \<open>R\<close>.
  Intervals are \<open>long long\<close> in the code; here they are integers, and \<open>facts_ok\<close> includes that
  they stay in range.
\<close>

subsection \<open>Extension facts\<close>

definition X_SX1 :: u8 where "X_SX1 = 1"

definition X_SX2 :: u8 where "X_SX2 = 2"

definition X_SX4 :: u8 where "X_SX4 = 4"

definition X_ZX1 :: u8 where "X_ZX1 = 8"

definition X_ZX2 :: u8 where "X_ZX2 = 16"

definition X_ZX4 :: u8 where "X_ZX4 = 32"

definition X_ALL :: u8 where "X_ALL = 63"

lemmas X_defs = X_SX1_def X_SX2_def X_SX4_def X_ZX1_def X_ZX2_def X_ZX4_def

definition EXT_LIMITS :: "(u8 \<times> int \<times> int) list" where
  "EXT_LIMITS =
     [(X_SX1, - 128, 127), (X_SX2, - 32768, 32767), (X_SX4, INT_MIN, INT_MAX),
      (X_ZX1, 0, 255), (X_ZX2, 0, 65535), (X_ZX4, 0, 4294967295)]"

definition ext_of_range :: "int \<Rightarrow> int \<Rightarrow> u8" where
  "ext_of_range lo hi =
     fold (\<lambda>(b, l, h) x. if l \<le> lo \<and> hi \<le> h then x OR b else x) EXT_LIMITS 0"

definition range_step :: "u8 \<Rightarrow> u8 \<times> int \<times> int \<Rightarrow> int \<times> int \<Rightarrow> int \<times> int" where
  "range_step x = (\<lambda>(b, l, h) (lo, hi).
     if x AND b = 0 then (lo, hi) else (if lo < l then l else lo, if h < hi then h else hi))"

definition range_of_ext :: "u8 \<Rightarrow> int \<times> int" where
  "range_of_ext x = fold (range_step x) EXT_LIMITS (LLONG_MIN, LLONG_MAX)"

definition ext_needed :: "opcode \<Rightarrow> u8" where
  "ext_needed op =
     (if op = SX1 then X_SX1 else if op = SX2 then X_SX2 else if op = SX4 then X_SX4
      else if op = ZX1 then X_ZX1 else if op = ZX2 then X_ZX2 else if op = ZX4 then X_ZX4 else 0)"

definition ext_result :: "opcode \<Rightarrow> u8" where
  "ext_result op =
     (if op \<in> {SX1} then ext_of_range (- 128) 127
      else if op \<in> {SX2} then ext_of_range (- 32768) 32767
      else if op \<in> {SX4, ADDSX3, SUBSX3, MULSX3, ADDISX3, MULISX3, SHLISX3} then ext_of_range INT_MIN INT_MAX
      else if op \<in> {ZX1} then ext_of_range 0 255
      else if op \<in> {ZX2} then ext_of_range 0 65535
      else if op \<in> {ZX4, ADDZX3, SUBZX3, MULZX3, ADDIZX3, MULIZX3, SHLIZX3} then ext_of_range 0 4294967295
      else if op \<in> {LDR_B, LDR_INDEX_B, LDR_LOCAL_B} then ext_of_range (- 128) 127
      else if op \<in> {LDR_H, LDR_INDEX_H, LDR_LOCAL_H} then ext_of_range (- 32768) 32767
      else if op \<in> {LDR_W, LDR_INDEX_W, LDR_LOCAL_W} then ext_of_range INT_MIN INT_MAX
      else if op \<in> {LDR_UB, LDR_INDEX_UB, LDR_LOCAL_UB} then ext_of_range 0 255
      else if op \<in> {LDR_UW, LDR_INDEX_UW, LDR_LOCAL_UW} then ext_of_range 0 4294967295
      else if op \<in> {NOT3, SEQ3, SNE3, SLT3, SGE3, SGT3, SLE3, ULT3, ULE3, SEQI3, SNEI3, SLTI3, SLEI3,
          SGTI3, SGEI3, ULTI3, ULEI3, UGTI3, UGEI3, FEQ3, FNE3, FLT3, FLE3, FGT3, FGE3, FNZ3,
          FEQ3_F32, FNE3_F32, FNZ3_F32, FLT3_F32, FLE3_F32, FGT3_F32, FGE3_F32} then ext_of_range 0 1
      else 0)"

text \<open>What a set of extension facts says of a value.\<close>

definition ext_fits :: "u8 \<Rightarrow> int \<Rightarrow> bool" where
  "ext_fits x v \<longleftrightarrow> (\<forall>(b, l, h) \<in> set EXT_LIMITS. x AND b \<noteq> 0 \<longrightarrow> l \<le> v \<and> v \<le> h)"

lemma and_bit_u8: "(x :: u8) AND push_bit n 1 = 0 \<longleftrightarrow> \<not> bit x n"
proof
  assume "x AND push_bit n 1 = 0"
  then have "\<not> bit (x AND push_bit n 1) n" by simp
  then show "\<not> bit x n" by (auto simp: bit_simps dest: bit_imp_le_length)
next
  assume "\<not> bit x n"
  then show "x AND push_bit n 1 = 0" by (intro bit_word_eqI) (auto simp: bit_simps)
qed

lemma X_push_bit:
  "X_SX1 = push_bit 0 1" "X_SX2 = push_bit 1 1" "X_SX4 = push_bit 2 1"
  "X_ZX1 = push_bit 3 1" "X_ZX2 = push_bit 4 1" "X_ZX4 = push_bit 5 1"
  by (simp_all add: X_defs)

lemma X_and:
  "x AND X_SX1 = 0 \<longleftrightarrow> \<not> bit x 0" "x AND X_SX2 = 0 \<longleftrightarrow> \<not> bit x 1" "x AND X_SX4 = 0 \<longleftrightarrow> \<not> bit x 2"
  "x AND X_ZX1 = 0 \<longleftrightarrow> \<not> bit x 3" "x AND X_ZX2 = 0 \<longleftrightarrow> \<not> bit x 4" "x AND X_ZX4 = 0 \<longleftrightarrow> \<not> bit x 5"
  by (simp_all only: X_push_bit and_bit_u8)

lemma ext_fits_bits:
  "ext_fits x v \<longleftrightarrow>
     (bit x 0 \<longrightarrow> - 128 \<le> v \<and> v \<le> 127) \<and> (bit x 1 \<longrightarrow> - 32768 \<le> v \<and> v \<le> 32767) \<and>
     (bit x 2 \<longrightarrow> INT_MIN \<le> v \<and> v \<le> INT_MAX) \<and> (bit x 3 \<longrightarrow> 0 \<le> v \<and> v \<le> 255) \<and>
     (bit x 4 \<longrightarrow> 0 \<le> v \<and> v \<le> 65535) \<and> (bit x 5 \<longrightarrow> 0 \<le> v \<and> v \<le> 4294967295)"
  unfolding ext_fits_def EXT_LIMITS_def by (simp add: X_and)

lemma ext_fits_0 [simp]: "ext_fits 0 v"
  by (simp add: ext_fits_bits)

lemma ext_fits_or [simp]: "ext_fits (x OR y) v \<longleftrightarrow> ext_fits x v \<and> ext_fits y v"
  unfolding ext_fits_bits bit_or_iff by blast

lemma ext_fits_and1: "ext_fits x v \<Longrightarrow> ext_fits (x AND y) v"
  unfolding ext_fits_bits bit_and_iff by blast

lemma ext_fits_and2: "ext_fits y v \<Longrightarrow> ext_fits (x AND y) v"
  unfolding ext_fits_bits bit_and_iff by blast

lemma ext_fits_limit: "(b, l, h) \<in> set EXT_LIMITS \<Longrightarrow> l \<le> v \<Longrightarrow> v \<le> h \<Longrightarrow> ext_fits b v"
  unfolding EXT_LIMITS_def X_push_bit
  by (auto simp: ext_fits_bits bit_simps limits)

lemma ext_of_range_fits:
  assumes "lo \<le> v" "v \<le> hi"
  shows "ext_fits (ext_of_range lo hi) v"
proof -
  have "set L \<subseteq> set EXT_LIMITS \<Longrightarrow> ext_fits x v \<Longrightarrow>
    ext_fits (fold (\<lambda>(b, l, h) x. if l \<le> lo \<and> hi \<le> h then x OR b else x) L x) v" for L x
  proof (induction L arbitrary: x)
    case (Cons e L)
    obtain b l h where e: "e = (b, l, h)" by (cases e)
    have "l \<le> lo \<and> hi \<le> h \<longrightarrow> ext_fits b v"
      using Cons.prems(1) assms ext_fits_limit [of b l h v] by (auto simp: e)
    with Cons show ?case by (auto simp: e)
  qed simp
  then show ?thesis by (simp add: ext_of_range_def)
qed

definition between :: "int \<times> int \<Rightarrow> int \<Rightarrow> bool" where
  "between I v \<longleftrightarrow> fst I \<le> v \<and> v \<le> snd I"

lemma between_range_step:
  "between (range_step x (b, l, h) I) v \<longleftrightarrow> between I v \<and> (x AND b \<noteq> 0 \<longrightarrow> l \<le> v \<and> v \<le> h)"
  by (cases I) (auto simp: range_step_def between_def)

lemma between_range_fold:
  "between (fold (range_step x) L I) v \<longleftrightarrow>
     between I v \<and> (\<forall>(b, l, h) \<in> set L. x AND b \<noteq> 0 \<longrightarrow> l \<le> v \<and> v \<le> h)"
  by (induction L arbitrary: I) (auto simp: between_range_step)

text \<open>The interval of a set of extension facts holds exactly the values with those facts.\<close>

lemma between_range_of_ext: "between (range_of_ext x) v \<longleftrightarrow> ll_range v \<and> ext_fits x v"
  unfolding range_of_ext_def between_range_fold by (auto simp: ext_fits_def between_def ll_range_def)

lemma range_of_ext_ll:
  "ll_range (fst (range_of_ext x)) \<and> ll_range (snd (range_of_ext x))"
proof -
  have step: "ll_range (fst (range_step x e I)) \<and> ll_range (snd (range_step x e I))"
    if "e \<in> set EXT_LIMITS" "ll_range (fst I) \<and> ll_range (snd I)" for e I
    using that by (cases I) (auto simp: range_step_def EXT_LIMITS_def ll_range_def limits)
  have "set L \<subseteq> set EXT_LIMITS \<Longrightarrow> ll_range (fst I) \<and> ll_range (snd I) \<Longrightarrow>
    ll_range (fst (fold (range_step x) L I)) \<and> ll_range (snd (fold (range_step x) L I))" for L I
    by (induction L arbitrary: I) (use step in auto)
  then show ?thesis by (simp add: range_of_ext_def ll_range_def limits)
qed

subsection \<open>Facts\<close>

text \<open>A compare \<open>dst = a OP b\<close>; \<open>cmp_b = None\<close> is the code's \<open>b < 0\<close>, a compare with the
  immediate. In \<open>facts\<close>, \<open>None\<close> is the code's \<open>-1\<close>, and \<open>cmp = None\<close> its \<open>!cmp.valid\<close>.\<close>

record cmp =
  cmp_op :: opcode
  cmp_dst :: nat
  cmp_a :: nat
  cmp_b :: "nat option"
  cmp_imm :: u64

record facts =
  icopy :: "nat \<Rightarrow> nat option"
  fcopy :: "nat \<Rightarrow> nat option"
  ext :: "nat \<Rightarrow> u8"
  lo :: "nat \<Rightarrow> int"
  hi :: "nat \<Rightarrow> int"
  fcmp :: "cmp option"

definition fit_reg :: "nat \<Rightarrow> facts \<Rightarrow> facts" where
  "fit_reg r f =
     (let (l, h) = range_of_ext (ext f r);
          l1 = (if lo f r < l then l else lo f r);
          h1 = (if h < hi f r then h else hi f r);
          l2 = (if h1 < l1 then l else l1);
          h2 = (if h1 < l1 then h else h1)
      in f\<lparr>lo := (lo f)(r := l2), hi := (hi f)(r := h2),
           ext := (ext f)(r := ext f r OR ext_of_range l2 h2)\<rparr>)"

definition facts_reset :: "(nat \<Rightarrow> u8) \<Rightarrow> facts" where
  "facts_reset seed =
     \<lparr>icopy = (\<lambda>_. None), fcopy = (\<lambda>_. None),
      ext = seed(REG_ZERO := X_ALL),
      lo = (\<lambda>r. fst (range_of_ext (seed r)))(REG_ZERO := 0),
      hi = (\<lambda>r. snd (range_of_ext (seed r)))(REG_ZERO := 0), fcmp = None\<rparr>"

definition facts_after_call :: "(nat \<Rightarrow> u8) \<Rightarrow> u32 \<Rightarrow> facts \<Rightarrow> facts" where
  "facts_after_call seed promoted f =
     (let g = facts_reset seed; keep = (\<lambda>r. r \<noteq> REG_ZERO \<and> promoted AND BIT r \<noteq> 0)
      in g\<lparr>ext := (\<lambda>r. if keep r then ext f r else ext g r),
           lo := (\<lambda>r. if keep r then lo f r else lo g r),
           hi := (\<lambda>r. if keep r then hi f r else hi g r)\<rparr>)"

definition kill_int :: "nat \<Rightarrow> facts \<Rightarrow> facts" where
  "kill_int d f =
     f\<lparr>icopy := (\<lambda>r. if r = d \<or> icopy f r = Some d then None else icopy f r),
       fcmp := (case fcmp f of
          None \<Rightarrow> None
        | Some c \<Rightarrow> if cmp_dst c = d \<or> cmp_a c = d \<or> cmp_b c = Some d then None else Some c)\<rparr>"

definition kill_float :: "nat \<Rightarrow> facts \<Rightarrow> facts" where
  "kill_float d f = f\<lparr>fcopy := (\<lambda>r. if r = d \<or> fcopy f r = Some d then None else fcopy f r)\<rparr>"

definition ext_bitwise :: "opcode \<Rightarrow> u8 \<Rightarrow> u8 \<Rightarrow> u8" where
  "ext_bitwise op a b =
     (let nonneg = X_ZX1 OR X_ZX2 OR X_ZX4; x = a AND b
      in if op = AND3
         then let x1 = (if a AND nonneg \<noteq> 0 then x OR a else x)
              in if b AND nonneg \<noteq> 0 then x1 OR b else x1
         else x)"

definition forget_copies :: "facts \<Rightarrow> facts" where
  "forget_copies f = f\<lparr>icopy := (\<lambda>_. None), fcopy := (\<lambda>_. None), fcmp := None\<rparr>"

subsection \<open>Widening, joining, narrowing\<close>

definition WIDEN_STEPS :: "int list" where
  "WIDEN_STEPS =
     [LLONG_MIN, LLONG_MIN + 1, INT_MIN, INT_MIN + 1, - 32768, - 128, 0, 127, 255, 32767, 65535,
      INT_MAX - 1, INT_MAX, 4294967294, 4294967295, LLONG_MAX - 1, LLONG_MAX]"

definition widen_down :: "int \<Rightarrow> int" where
  "widen_down x = fold (\<lambda>s w. if s \<le> x then s else w) WIDEN_STEPS LLONG_MIN"

definition widen_up :: "int \<Rightarrow> int" where
  "widen_up x = (case find (\<lambda>s. x \<le> s) WIDEN_STEPS of Some s \<Rightarrow> s | None \<Rightarrow> LLONG_MAX)"

definition meet_reg :: "facts \<Rightarrow> bool \<Rightarrow> nat \<Rightarrow> facts \<times> bool \<Rightarrow> facts \<times> bool" where
  "meet_reg src widen r = (\<lambda>(dst, changed).
     let x = ext dst r AND ext src r;
         l = (if lo src r < lo dst r then (if widen then widen_down (lo src r) else lo src r)
              else lo dst r);
         h = (if hi dst r < hi src r then (if widen then widen_up (hi src r) else hi src r)
              else hi dst r)
     in if x = ext dst r \<and> l = lo dst r \<and> h = hi dst r then (dst, changed)
        else let dst' = fit_reg r (dst\<lparr>ext := (ext dst)(r := x), lo := (lo dst)(r := l),
                    hi := (hi dst)(r := h)\<rparr>)
             in (dst', changed \<or> ext dst' r \<noteq> ext dst r \<or> lo dst' r \<noteq> lo dst r \<or>
                  hi dst' r \<noteq> hi dst r))"

definition meet_facts :: "facts \<Rightarrow> facts \<Rightarrow> bool \<Rightarrow> facts \<times> bool" where
  "meet_facts dst src widen = fold (meet_reg src widen) [0..<NUM_REGS] (dst, False)"

definition narrow_reg :: "facts \<Rightarrow> nat \<Rightarrow> facts \<Rightarrow> facts" where
  "narrow_reg src r dst =
     (let l = (if lo src r < lo dst r then lo dst r else lo src r);
          h = (if hi dst r < hi src r then hi dst r else hi src r)
      in if h < l then dst
         else fit_reg r (dst\<lparr>lo := (lo dst)(r := l), hi := (hi dst)(r := h),
                ext := (ext dst)(r := ext dst r OR ext src r)\<rparr>))"

definition narrow_facts :: "facts \<Rightarrow> facts \<Rightarrow> facts" where
  "narrow_facts dst src = fold (narrow_reg src) [0..<NUM_REGS] dst"

subsection \<open>The meaning of facts\<close>

text \<open>\<open>reg_ok\<close>: the interval is in range and holds the value, and so do the extension facts.\<close>

definition reg_ok :: "facts \<Rightarrow> nat \<Rightarrow> int \<Rightarrow> bool" where
  "reg_ok f r v \<longleftrightarrow> ll_range (lo f r) \<and> ll_range (hi f r) \<and> lo f r \<le> v \<and> v \<le> hi f r \<and>
     ext_fits (ext f r) v"

definition cmp_value :: "cmp \<Rightarrow> regfile \<Rightarrow> vm_fault + u64" where
  "cmp_value c R =
     (case alu (cmp_op c) of
        None \<Rightarrow> Inl Host_UB
      | Some g \<Rightarrow> g 0 (R (cmp_a c)) (case cmp_b c of None \<Rightarrow> 0 | Some b \<Rightarrow> R b) 0 (cmp_imm c))"

definition cmp_ok :: "cmp \<Rightarrow> regfile \<Rightarrow> bool" where
  "cmp_ok c R \<longleftrightarrow> cmp_dst c < NUM_REGS \<and> cmp_a c < NUM_REGS \<and> pred_option (\<lambda>b. b < NUM_REGS) (cmp_b c) \<and>
     cmp_value c R = Inr (R (cmp_dst c))"

definition ranges_ok :: "facts \<Rightarrow> regfile \<Rightarrow> bool" where
  "ranges_ok f R \<longleftrightarrow> (\<forall>r < NUM_REGS. reg_ok f r (sint (R r)))"

definition copies_ok :: "facts \<Rightarrow> regfile \<Rightarrow> bool" where
  "copies_ok f R \<longleftrightarrow>
     (\<forall>r s. icopy f r = Some s \<longrightarrow> s < NUM_REGS \<and> R r = R s) \<and>
     (\<forall>c. fcmp f = Some c \<longrightarrow> cmp_ok c R)"

definition facts_ok :: "facts \<Rightarrow> regfile \<Rightarrow> bool" where
  "facts_ok f R \<longleftrightarrow> R REG_ZERO = 0 \<and> ranges_ok f R \<and> copies_ok f R"

definition seed_ok :: "(nat \<Rightarrow> u8) \<Rightarrow> regfile \<Rightarrow> bool" where
  "seed_ok seed R \<longleftrightarrow> R REG_ZERO = 0 \<and> (\<forall>r < NUM_REGS. ext_fits (seed r) (sint (R r)))"

lemmas facts_ok_defs = facts_ok_def ranges_ok_def copies_ok_def

lemma reg_ok_ll: "reg_ok f r v \<Longrightarrow> ll_range v"
  by (auto simp: reg_ok_def ll_range_def)

lemma range_of_ext_prod:
  "range_of_ext x = (l, h) \<Longrightarrow> ll_range l \<and> ll_range h \<and> (ll_range v \<longrightarrow> ext_fits x v \<longrightarrow> l \<le> v \<and> v \<le> h)"
  using range_of_ext_ll [of x] between_range_of_ext [of x v] by (auto simp: between_def)

text \<open>\<open>fit_reg\<close> loses no value.\<close>

lemma fit_reg_ok:
  assumes "reg_ok f r v"
  shows "reg_ok (fit_reg r f) r v"
proof -
  obtain l h where lh: "range_of_ext (ext f r) = (l, h)" by (cases "range_of_ext (ext f r)")
  from assms range_of_ext_prod [OF lh, of v] reg_ok_ll [OF assms]
  have "ll_range l" "ll_range h" "l \<le> v" "v \<le> h" by (auto simp: reg_ok_def)
  with assms show ?thesis
    by (auto simp: reg_ok_def fit_reg_def lh Let_def intro!: ext_of_range_fits)
qed

lemma fit_reg_simps [simp]:
  "icopy (fit_reg r f) = icopy f" "fcopy (fit_reg r f) = fcopy f" "fcmp (fit_reg r f) = fcmp f"
  by (simp_all add: fit_reg_def split_beta Let_def)

lemma fit_reg_other: "s \<noteq> r \<Longrightarrow> reg_ok (fit_reg r f) s v = reg_ok f s v"
  by (simp add: fit_reg_def split_beta Let_def reg_ok_def)

lemma facts_reset_ok: "seed_ok seed R \<Longrightarrow> facts_ok (facts_reset seed) R"
  using between_range_of_ext range_of_ext_ll
  by (auto simp: facts_ok_defs facts_reset_def seed_ok_def reg_ok_def between_def
      ext_fits_bits limits ll_range_def [of 0])

lemma reg_ok_after_call:
  "reg_ok (facts_after_call seed promoted f) r v =
     (if r \<noteq> REG_ZERO \<and> promoted AND BIT r \<noteq> 0 then reg_ok f r v else reg_ok (facts_reset seed) r v)"
  by (simp add: facts_after_call_def Let_def reg_ok_def)

lemma facts_after_call_ok:
  assumes "seed_ok seed R'" "facts_ok f R"
    and "\<And>r. promoted AND BIT r \<noteq> 0 \<Longrightarrow> R' r = R r"
  shows "facts_ok (facts_after_call seed promoted f) R'"
proof -
  have g: "facts_ok (facts_reset seed) R'" by (rule facts_reset_ok [OF assms(1)])
  show ?thesis
    unfolding facts_ok_def
  proof (intro conjI)
    show "R' REG_ZERO = 0" using assms(1) by (simp add: seed_ok_def)
    show "ranges_ok (facts_after_call seed promoted f) R'"
      using g assms(2,3) by (auto simp: facts_ok_def ranges_ok_def reg_ok_after_call)
    show "copies_ok (facts_after_call seed promoted f) R'"
      by (simp add: copies_ok_def facts_after_call_def facts_reset_def Let_def)
  qed
qed

lemma forget_copies_ok: "facts_ok f R \<Longrightarrow> facts_ok (forget_copies f) R"
  by (auto simp: facts_ok_defs forget_copies_def reg_ok_def)

lemma cmp_value_upd:
  "cmp_a c \<noteq> d \<Longrightarrow> cmp_b c \<noteq> Some d \<Longrightarrow> cmp_value c (R(d := v)) = cmp_value c R"
  by (auto simp: cmp_value_def split: option.splits)

lemma kill_int_copies:
  assumes "copies_ok f R" shows "copies_ok (kill_int d f) (R(d := v))"
  using assms
  by (auto simp: copies_ok_def kill_int_def cmp_ok_def cmp_value_upd split: option.splits if_splits)

lemma kill_int_simps [simp]:
  "ext (kill_int d f) = ext f" "lo (kill_int d f) = lo f" "hi (kill_int d f) = hi f"
  by (simp_all add: kill_int_def)

subsection \<open>Joins, widening and narrowing lose no value\<close>

lemma widen_down_le: "ll_range x \<Longrightarrow> ll_range (widen_down x) \<and> widen_down x \<le> x"
  by (simp add: widen_down_def WIDEN_STEPS_def limits ll_range_def)

lemma widen_up_ge: "ll_range x \<Longrightarrow> ll_range (widen_up x) \<and> x \<le> widen_up x"
  by (simp add: widen_up_def WIDEN_STEPS_def limits ll_range_def)

definition facts_wf :: "facts \<Rightarrow> bool" where
  "facts_wf f \<longleftrightarrow> (\<forall>r < NUM_REGS. ll_range (lo f r) \<and> ll_range (hi f r))"

lemma facts_ok_wf: "facts_ok f R \<Longrightarrow> facts_wf f"
  by (auto simp: facts_ok_defs facts_wf_def reg_ok_def)

text \<open>A join keeps the values of both sides; when it reports no change, the destination already
  held every value of the source.\<close>

lemma meet_reg_cases:
  assumes "meet_reg src widen r (dst, ch) = (dst', ch')"
    and "ll_range (lo dst r)" "ll_range (hi dst r)" "ll_range (lo src r)" "ll_range (hi src r)"
  shows "reg_ok src r v \<or> reg_ok dst r v \<Longrightarrow> reg_ok dst' r v"
    and "s \<noteq> r \<Longrightarrow> reg_ok dst' s v = reg_ok dst s v"
    and "icopy dst' = icopy dst" "fcopy dst' = fcopy dst" "fcmp dst' = fcmp dst"
    and "ch \<Longrightarrow> ch'"
    and "\<not> ch' \<Longrightarrow> reg_ok dst' r v = reg_ok dst r v"
proof -
  define x where "x = ext dst r AND ext src r"
  define l where "l = (if lo src r < lo dst r then (if widen then widen_down (lo src r) else lo src r)
              else lo dst r)"
  define h where "h = (if hi dst r < hi src r then (if widen then widen_up (hi src r) else hi src r)
              else hi dst r)"
  define d where "d = dst\<lparr>ext := (ext dst)(r := x), lo := (lo dst)(r := l), hi := (hi dst)(r := h)\<rparr>"
  have eq: "(dst', ch') = (if x = ext dst r \<and> l = lo dst r \<and> h = hi dst r then (dst, ch)
     else (fit_reg r d, ch \<or> ext (fit_reg r d) r \<noteq> ext dst r \<or> lo (fit_reg r d) r \<noteq> lo dst r \<or>
                  hi (fit_reg r d) r \<noteq> hi dst r))"
    unfolding assms(1) [symmetric] meet_reg_def Let_def d_def l_def h_def x_def prod.case ..
  have l: "ll_range l" "l \<le> lo dst r" "l \<le> lo src r" and h: "ll_range h" "hi dst r \<le> h" "hi src r \<le> h"
    using assms(2-5) widen_down_le [of "lo src r"] widen_up_ge [of "hi src r"]
    by (auto simp: l_def h_def)
  have other: "s \<noteq> r \<Longrightarrow> reg_ok d s v = reg_ok dst s v" for s by (simp add: reg_ok_def d_def)
  have or: "dst' = dst \<and> x = ext dst r \<and> l = lo dst r \<and> h = hi dst r \<or> dst' = fit_reg r d"
    using eq by (auto split: if_splits)
  have d: "reg_ok d r v" if "reg_ok src r v \<or> reg_ok dst r v"
    using that l h by (auto simp: reg_ok_def d_def x_def intro: ext_fits_and1 ext_fits_and2)
  show "reg_ok src r v \<or> reg_ok dst r v \<Longrightarrow> reg_ok dst' r v"
    using or d fit_reg_ok [of d r v] by (auto simp: d_def reg_ok_def)
  show "s \<noteq> r \<Longrightarrow> reg_ok dst' s v = reg_ok dst s v"
    using or other fit_reg_other [of s r d v] by auto
  show "icopy dst' = icopy dst" "fcopy dst' = fcopy dst" "fcmp dst' = fcmp dst"
    using or by (auto simp: d_def)
  show "ch \<Longrightarrow> ch'" using eq by (auto split: if_splits)
  show "\<not> ch' \<Longrightarrow> reg_ok dst' r v = reg_ok dst r v"
    using eq by (auto split: if_splits simp: reg_ok_def)
qed

lemma fit_reg_fields:
  "s \<noteq> r \<Longrightarrow> lo (fit_reg r f) s = lo f s \<and> hi (fit_reg r f) s = hi f s \<and> ext (fit_reg r f) s = ext f s"
  by (simp add: fit_reg_def split_beta Let_def)

lemma fit_reg_ll:
  "ll_range (lo f r) \<Longrightarrow> ll_range (hi f r) \<Longrightarrow> ll_range (lo (fit_reg r f) r) \<and> ll_range (hi (fit_reg r f) r)"
  using range_of_ext_ll [of "ext f r"] by (simp add: fit_reg_def split_beta Let_def)

lemma meet_reg_fields:
  assumes "s \<noteq> r"
  shows "lo (fst (meet_reg src widen r X)) s = lo (fst X) s \<and>
    hi (fst (meet_reg src widen r X)) s = hi (fst X) s"
  using assms by (cases X) (simp add: meet_reg_def Let_def fit_reg_fields)

lemma meet_fold:
  fixes src :: facts and X :: "facts \<times> bool" and rs :: "nat list" and widen :: bool
  assumes "distinct rs" "\<forall>r \<in> set rs. ll_range (lo src r) \<and> ll_range (hi src r)"
    and "\<forall>r \<in> set rs. ll_range (lo (fst X) r) \<and> ll_range (hi (fst X) r)"
  defines "Y \<equiv> fold (meet_reg src widen) rs X"
  shows "(s \<in> set rs \<longrightarrow> reg_ok src s v \<or> reg_ok (fst X) s v \<longrightarrow> reg_ok (fst Y) s v) \<and>
    (s \<notin> set rs \<longrightarrow> reg_ok (fst Y) s v = reg_ok (fst X) s v) \<and>
    icopy (fst Y) = icopy (fst X) \<and> fcmp (fst Y) = fcmp (fst X) \<and>
    (snd X \<longrightarrow> snd Y) \<and> (\<not> snd Y \<longrightarrow> reg_ok (fst Y) s v = reg_ok (fst X) s v)"
  using assms(1-3) unfolding Y_def
proof (induction rs arbitrary: X)
  case (Cons r rs)
  obtain d c where m: "meet_reg src widen r X = (d, c)" by force
  note step = meet_reg_cases [of src widen r "fst X" "snd X" d c, unfolded prod.collapse, OF m]
  have "lo d q = lo (fst X) q \<and> hi d q = hi (fst X) q" if "q \<in> set rs" for q
    using meet_reg_fields [of q r src widen X] that Cons.prems(1) m by auto
  moreover define Z where "Z = fold (meet_reg src widen) rs (d, c)"
  ultimately have IH: "(s \<in> set rs \<longrightarrow> reg_ok src s v \<or> reg_ok d s v \<longrightarrow> reg_ok (fst Z) s v) \<and>
    (s \<notin> set rs \<longrightarrow> reg_ok (fst Z) s v = reg_ok d s v) \<and>
    icopy (fst Z) = icopy d \<and> fcmp (fst Z) = fcmp d \<and> (c \<longrightarrow> snd Z) \<and>
    (\<not> snd Z \<longrightarrow> reg_ok (fst Z) s v = reg_ok d s v)"
    using Cons.IH [of "(d, c)"] Cons.prems by simp
  have Z: "fold (meet_reg src widen) (r # rs) X = Z" by (simp add: m Z_def)
  have ll: "ll_range (lo (fst X) r)" "ll_range (hi (fst X) r)" "ll_range (lo src r)" "ll_range (hi src r)"
    using Cons.prems by auto
  have r: "reg_ok src r v \<or> reg_ok (fst X) r v \<longrightarrow> reg_ok d r v" using step(1) [OF ll] by blast
  have s: "s \<noteq> r \<Longrightarrow> reg_ok d s v = reg_ok (fst X) s v" by (rule step(2) [OF ll])
  have c: "\<not> c \<Longrightarrow> reg_ok d r v = reg_ok (fst X) r v" "snd X \<Longrightarrow> c"
    using step(6,7) [OF ll] by blast+
  have fields: "icopy d = icopy (fst X)" "fcmp d = fcmp (fst X)" using step(3,5) [OF ll] by auto
  show ?case
    unfolding Z using IH r s c fields Cons.prems(1) by (cases "s = r") auto
qed simp

lemma meet_facts_ok:
  assumes "facts_wf dst" "facts_wf src" "r < NUM_REGS"
  shows "reg_ok src r v \<or> reg_ok dst r v \<Longrightarrow> reg_ok (fst (meet_facts dst src widen)) r v"
    and "\<not> snd (meet_facts dst src widen) \<Longrightarrow>
      reg_ok (fst (meet_facts dst src widen)) r v = reg_ok dst r v"
  using meet_fold [of "[0..<NUM_REGS]" src "(dst, False)" r v widen] assms
  by (auto simp: meet_facts_def facts_wf_def)

lemma narrow_reg_ok:
  assumes "reg_ok src r v" "reg_ok dst r v"
  shows "reg_ok (narrow_reg src r dst) r v"
proof -
  define d where "d = dst\<lparr>lo := (lo dst)(r := max (lo src r) (lo dst r)),
    hi := (hi dst)(r := min (hi src r) (hi dst r)), ext := (ext dst)(r := ext dst r OR ext src r)\<rparr>"
  have "reg_ok d r v" using assms by (auto simp: d_def reg_ok_def max_def min_def)
  moreover have "narrow_reg src r dst = dst \<or> narrow_reg src r dst = fit_reg r d"
    by (auto simp: narrow_reg_def Let_def d_def max_def min_def not_less intro!: arg_cong [where f = "fit_reg r"])
  ultimately show ?thesis using assms(2) fit_reg_ok by metis
qed

lemma narrow_reg_other: "s \<noteq> r \<Longrightarrow> reg_ok (narrow_reg src r dst) s v = reg_ok dst s v"
  by (simp add: narrow_reg_def Let_def fit_reg_other) (simp add: reg_ok_def)

lemma narrow_fold:
  assumes "distinct rs" "reg_ok src s v" "reg_ok dst s v"
  shows "reg_ok (fold (narrow_reg src) rs dst) s v"
  using assms
proof (induction rs arbitrary: dst)
  case (Cons r rs)
  then have "reg_ok (narrow_reg src r dst) s v"
    by (cases "s = r") (simp_all add: narrow_reg_ok narrow_reg_other)
  with Cons show ?case by simp
qed simp

lemma narrow_facts_ok:
  "reg_ok src r v \<Longrightarrow> reg_ok dst r v \<Longrightarrow> reg_ok (narrow_facts dst src) r v"
  by (simp add: narrow_facts_def narrow_fold)

subsection \<open>Bitwise operations keep extension facts\<close>

lemma ext_limit_take_bit:
  "(- 128 \<le> v \<and> v \<le> 127) = (signed_take_bit 7 v = v)"
  "(- 32768 \<le> v \<and> v \<le> 32767) = (signed_take_bit 15 v = v)"
  "(INT_MIN \<le> v \<and> v \<le> INT_MAX) = (signed_take_bit 31 v = v)"
  "(0 \<le> v \<and> v \<le> 255) = (take_bit 8 v = v)"
  "(0 \<le> v \<and> v \<le> 65535) = (take_bit 16 v = v)"
  "(0 \<le> v \<and> v \<le> 4294967295) = (take_bit 32 v = v)"
  by (auto simp: signed_take_bit_int_eq_self_iff take_bit_int_eq_self_iff limits)

lemmas ext_fits_take_bit = ext_fits_bits [unfolded ext_limit_take_bit]

lemma take_bit_bitwise:
  fixes v u :: int
  assumes "take_bit n v = v" "take_bit n u = u"
  shows "take_bit n (v AND u) = v AND u" "take_bit n (v OR u) = v OR u" "take_bit n (v XOR u) = v XOR u"
  using assms by simp_all

lemma signed_take_bit_bitwise:
  fixes v u :: int
  assumes "signed_take_bit n v = v" "signed_take_bit n u = u"
  shows "signed_take_bit n (v AND u) = v AND u" "signed_take_bit n (v OR u) = v OR u"
    "signed_take_bit n (v XOR u) = v XOR u"
proof -
  have b: "bit v m = bit v (min n m)" "bit u m = bit u (min n m)" for m
    using arg_cong [OF assms(1), of "\<lambda>z. bit z m"] arg_cong [OF assms(2), of "\<lambda>z. bit z m"]
    by (simp_all add: bit_signed_take_bit_iff)
  show "signed_take_bit n (v AND u) = v AND u"
    by (rule bit_eqI) (simp add: bit_signed_take_bit_iff bit_and_iff b [symmetric])
  show "signed_take_bit n (v OR u) = v OR u"
    by (rule bit_eqI) (simp add: bit_signed_take_bit_iff bit_or_iff b [symmetric])
  show "signed_take_bit n (v XOR u) = v XOR u"
    by (rule bit_eqI) (simp add: bit_signed_take_bit_iff bit_xor_iff b [symmetric])
qed

lemma ext_fits_bitwise:
  assumes "ext_fits x v" "ext_fits y u"
  shows "ext_fits (x AND y) (v AND u)" "ext_fits (x AND y) (v OR u)" "ext_fits (x AND y) (v XOR u)"
  using assms unfolding ext_fits_take_bit bit_and_iff
  by - (blast intro: take_bit_bitwise signed_take_bit_bitwise)+

lemma nonneg_and: "x AND (X_ZX1 OR X_ZX2 OR X_ZX4) \<noteq> 0 \<longleftrightarrow> bit x 3 \<or> bit x 4 \<or> bit x 5"
  by (simp add: bit.conj_disj_distrib or_eq_0_iff X_and)

lemma ext_fits_and_nonneg:
  assumes "ext_fits x v" "x AND (X_ZX1 OR X_ZX2 OR X_ZX4) \<noteq> 0"
  shows "ext_fits x (v AND u)" "ext_fits x (u AND v)"
proof -
  from assms have "0 \<le> v" unfolding nonneg_and by (auto simp: ext_fits_bits)
  then have "0 \<le> v AND u" "v AND u \<le> v" by (simp_all add: AND_upper1)
  then show "ext_fits x (v AND u)" using assms(1) unfolding ext_fits_bits limits by linarith
  then show "ext_fits x (u AND v)" by (simp add: and.commute)
qed

lemma ext_bitwise_ok:
  assumes "ext_fits x v" "ext_fits y u"
  shows "ext_fits (ext_bitwise AND3 x y) (v AND u)" "ext_fits (ext_bitwise OR3 x y) (v OR u)"
    "ext_fits (ext_bitwise XOR3 x y) (v XOR u)"
  using assms ext_fits_bitwise [OF assms] ext_fits_and_nonneg [OF assms(1), of u]
    ext_fits_and_nonneg [OF assms(2), of v]
  by (auto simp: ext_bitwise_def Let_def)

lemma sint_and: "sint (a AND b :: u64) = sint a AND sint b" "sint (a OR b :: u64) = sint a OR sint b"
  "sint (a XOR b :: u64) = sint a XOR sint b"
  by (simp_all add: signed_and_eq signed_or_eq signed_xor_eq)

end
