(* ===== verification/Peep_Fold.thy ===== *)
theory Peep_Fold
  imports Peep_Facts
begin

text \<open>
  Compares, constant folding and interval arithmetic of the optimiser
  (\<open>src/src/codegen_peep.c\<close>, lines 907 to 1445), with their soundness against the instruction
  table: a decided compare has the decided value, a folded instruction computes the folded
  constant, the computed interval holds the result, and narrowing the operands of a compare
  along a branch keeps every value that can take the branch.
\<close>

datatype rel = REL_LT | REL_LE | REL_EQ | REL_NE

datatype cmp_form = CmpForm (cf_rel: rel) (cf_swap: bool) (cf_uns: bool) (cf_imm: bool)

definition cmp_form :: "opcode \<Rightarrow> cmp_form option" where
  "cmp_form op =
     (if op = SLT3 then Some (CmpForm REL_LT False False False)
      else if op = SLE3 then Some (CmpForm REL_LE False False False)
      else if op = SGT3 then Some (CmpForm REL_LT True False False)
      else if op = SGE3 then Some (CmpForm REL_LE True False False)
      else if op = SEQ3 then Some (CmpForm REL_EQ False False False)
      else if op = SNE3 then Some (CmpForm REL_NE False False False)
      else if op = ULT3 then Some (CmpForm REL_LT False True False)
      else if op = ULE3 then Some (CmpForm REL_LE False True False)
      else if op = SLTI3 then Some (CmpForm REL_LT False False True)
      else if op = SLEI3 then Some (CmpForm REL_LE False False True)
      else if op = SGTI3 then Some (CmpForm REL_LT True False True)
      else if op = SGEI3 then Some (CmpForm REL_LE True False True)
      else if op = SEQI3 then Some (CmpForm REL_EQ False False True)
      else if op = SNEI3 then Some (CmpForm REL_NE False False True)
      else if op = ULTI3 then Some (CmpForm REL_LT False True True)
      else if op = ULEI3 then Some (CmpForm REL_LE False True True)
      else if op = UGTI3 then Some (CmpForm REL_LT True True True)
      else if op = UGEI3 then Some (CmpForm REL_LE True True True)
      else None)"

definition point_of :: "facts \<Rightarrow> nat \<Rightarrow> u64 option" where
  "point_of f r = (if lo f r = hi f r then Some (word_of_int (lo f r)) else None)"

definition cmp_of :: "text_words \<Rightarrow> insn \<Rightarrow> cmp_form \<Rightarrow> cmp" where
  "cmp_of text i cf =
     \<lparr>cmp_op = i_op i, cmp_dst = get_byte text i 0, cmp_a = get_byte text i 1,
      cmp_b = (if cf_imm cf then None else Some (get_byte text i 2)),
      cmp_imm = (if cf_imm cf then insn_imm text i else 0)\<rparr>"

definition decide_rel :: "rel \<Rightarrow> int \<Rightarrow> int \<Rightarrow> int \<Rightarrow> int \<Rightarrow> bool option" where
  "decide_rel r xl xh yl yh =
     (case r of
        REL_LT \<Rightarrow> if xh < yl then Some True else if xl \<ge> yh then Some False else None
      | REL_LE \<Rightarrow> if xh \<le> yl then Some True else if xl > yh then Some False else None
      | REL_EQ \<Rightarrow> if xh < yl \<or> xl > yh then Some False
                  else if xl = xh \<and> yl = yh then Some True else None
      | REL_NE \<Rightarrow> if xh < yl \<or> xl > yh then Some True
                  else if xl = xh \<and> yl = yh then Some False else None)"

definition cmp_decide :: "facts \<Rightarrow> cmp \<Rightarrow> bool option" where
  "cmp_decide f c =
     (case cmp_form (cmp_op c) of
        None \<Rightarrow> None
      | Some cf \<Rightarrow>
          let xl = lo f (cmp_a c); xh = hi f (cmp_a c);
              (yl, yh) = (case cmp_b c of Some b \<Rightarrow> (lo f b, hi f b)
                            | None \<Rightarrow> (sint (cmp_imm c), sint (cmp_imm c)))
          in if cf_uns cf \<and> (xl < 0 \<or> yl < 0) then None
             else if cf_swap cf then decide_rel (cf_rel cf) yl yh xl xh
             else decide_rel (cf_rel cf) xl xh yl yh)"

text \<open>The relation an immediate compare tests, evaluated on two known values.\<close>

definition cmp_sem :: "cmp_form \<Rightarrow> u64 \<Rightarrow> u64 \<Rightarrow> bool" where
  "cmp_sem cf a b =
     (let x = (if cf_swap cf then b else a); y = (if cf_swap cf then a else b);
          lt = (if cf_uns cf then x < y else sint x < sint y); eq = (x = y)
      in case cf_rel cf of REL_LT \<Rightarrow> lt | REL_LE \<Rightarrow> lt \<or> eq | REL_EQ \<Rightarrow> eq | REL_NE \<Rightarrow> \<not> eq)"

definition fold_binary :: "opcode \<Rightarrow> u64 \<Rightarrow> u64 \<Rightarrow> u64 option" where
  "fold_binary op a b =
     (if op = ADD3 then Some (a + b)
      else if op = SUB3 then Some (a - b)
      else if op = MUL3 then Some (a * b)
      else if op = AND3 then Some (a AND b)
      else if op = OR3 then Some (a OR b)
      else if op = XOR3 then Some (a XOR b)
      else if op \<in> {SHL3, SHR3, USHR3}
      then if sint b < 0 \<or> sint b > 63 then None
           else Some (if op = SHL3 then push_bit (unat b) a
                      else if op = SHR3 then c_sar a (unat b) else drop_bit (unat b) a)
      else if op = SEQ3 then Some (c_bool (a = b))
      else if op = SNE3 then Some (c_bool (a \<noteq> b))
      else if op = SLT3 then Some (c_bool (sint a < sint b))
      else if op = SGE3 then Some (c_bool (sint a \<ge> sint b))
      else if op = SGT3 then Some (c_bool (sint a > sint b))
      else if op = SLE3 then Some (c_bool (sint a \<le> sint b))
      else if op = ULT3 then Some (c_bool (a < b))
      else if op = ULE3 then Some (c_bool (a \<le> b))
      else None)"

text \<open>The first \<open>switch\<close> of \<open>fold_point\<close>: \<open>Some r\<close> where it returns (\<open>r = None\<close> for false),
  \<open>None\<close> where it breaks to the second.\<close>

definition fold_unary :: "opcode \<Rightarrow> u64 \<Rightarrow> u64 option \<Rightarrow> u64 option \<Rightarrow> u64 \<Rightarrow> u64 option option" where
  "fold_unary op a b c imm =
     (if op = NEG3 then Some (Some (0 - a))
      else if op = NOT3 then Some (Some (c_bool (a = 0)))
      else if op = BNOT3 then Some (Some (NOT a))
      else if op = SX1 then Some (Some (c_sext 8 a))
      else if op = SX2 then Some (Some (c_sext 16 a))
      else if op = SX4 then Some (Some (c_sext 32 a))
      else if op = ZX1 then Some (Some (c_zext 8 a))
      else if op = ZX2 then Some (Some (c_zext 16 a))
      else if op = ZX4 then Some (Some (c_zext 32 a))
      else if op = ADDI3 then Some (Some (a + imm))
      else if op = MULI3 then Some (Some (a * imm))
      else if op \<in> {SHLI3, SHRI3, USHRI3}
      then if sint imm < 0 \<or> sint imm > 63 then Some None
           else Some (Some (if op = SHLI3 then push_bit (unat imm) a
                            else if op = SHRI3 then c_sar a (unat imm) else drop_bit (unat imm) a))
      else if op = ANDI3 then Some (Some (a AND imm))
      else if op = ORI3 then Some (Some (a OR imm))
      else if op = XORI3 then Some (Some (a XOR imm))
      else if op \<in> {SEQI3, SNEI3, SLTI3, SLEI3, SGTI3, SGEI3, ULTI3, ULEI3, UGTI3, UGEI3}
      then Some (case cmp_form op of None \<Rightarrow> None | Some cf \<Rightarrow> Some (c_bool (cmp_sem cf a imm)))
      else if op = MULADDI3
      then Some (case b of None \<Rightarrow> None | Some bv \<Rightarrow> Some (a + bv * imm))
      else if op = MULADD3
      then Some (case b of None \<Rightarrow> None | Some bv \<Rightarrow>
             (case c of None \<Rightarrow> None | Some cv \<Rightarrow> Some (a + bv * cv)))
      else None)"

definition fold_point :: "text_words \<Rightarrow> insn \<Rightarrow> opcode \<Rightarrow> facts \<Rightarrow> u64 option" where
  "fold_point text i op f =
     (let rs1 = get_byte text i 1; rs2 = get_byte text i 2; rs3 = get_byte text i 3;
          decided = (if known i \<and> sp_pure (spec i)
                     then case cmp_form op of None \<Rightarrow> None
                          | Some cf \<Rightarrow> cmp_decide f (cmp_of text i cf)
                     else None)
      in case decided of
           Some d \<Rightarrow> Some (c_bool d)
         | None \<Rightarrow>
             if \<not> known i \<or> \<not> sp_pure (spec i) \<or> role (spec i) 1 \<noteq> R_IU then None
             else case point_of f rs1 of
                    None \<Rightarrow> None
                  | Some a \<Rightarrow>
                      (case fold_unary op a (point_of f rs2) (point_of f rs3) (insn_imm text i) of
                         Some r \<Rightarrow> r
                       | None \<Rightarrow>
                           if role (spec i) 2 \<noteq> R_IU then None
                           else case point_of f rs2 of
                                  None \<Rightarrow> None
                                | Some b \<Rightarrow> fold_binary op a b))"

text \<open>\<open>!__builtin_add_overflow(..)\<close> on both bounds.\<close>

definition no_overflow :: "int \<Rightarrow> int \<Rightarrow> (int \<times> int) option" where
  "no_overflow l h = (if ll_range l \<and> ll_range h then Some (l, h) else None)"

text \<open>The \<open>switch\<close> of \<open>result_range\<close>, on the intervals of the two sources and the immediate.\<close>

definition interval_op ::
  "opcode \<Rightarrow> int \<Rightarrow> int \<Rightarrow> int \<Rightarrow> int \<Rightarrow> int \<Rightarrow> (int \<times> int) option" where
  "interval_op op l1 h1 l2 h2 imm =
     (if op = MOV3 then Some (l1, h1)
      else if op = LI3 then Some (imm, imm)
      else if op = ADDI3 then no_overflow (l1 + imm) (h1 + imm)
      else if op = ANDI3 then (if imm < 0 then None else Some (0, imm))
      else if op = SHRI3
      then (if imm < 0 \<or> imm > 63 then None
            else Some (drop_bit (nat imm) l1, drop_bit (nat imm) h1))
      else if op = USHRI3
      then (if imm < 0 \<or> imm > 63 then None
            else if l1 \<ge> 0 then Some (drop_bit (nat imm) l1, drop_bit (nat imm) h1)
            else if imm < 1 then None
            else Some (0, drop_bit (nat imm) (2 ^ 64 - 1)))
      else if op = NEG3 then (if l1 = LLONG_MIN then None else Some (- h1, - l1))
      else if op = BNOT3 then Some (NOT h1, NOT l1)
      else if op = DIV3
      then (if l2 < 1 then None
            else Some (if l1 < 0 then l1 else 0, if h1 > 0 then h1 else 0))
      else if op \<in> {USHR3, UDIV3} then (if l1 < 0 then None else Some (0, h1))
      else if op = UMOD3
      then (let h = (if l1 \<ge> 0 then h1 else LLONG_MAX);
                h' = (if l2 \<ge> 1 \<and> h2 - 1 < h then h2 - 1 else h)
            in if h' \<noteq> LLONG_MAX then Some (0, h') else None)
      else if op = ADD3 then no_overflow (l1 + l2) (h1 + h2)
      else if op = SUB3 then no_overflow (l1 - h2) (h1 - l2)
      else None)"

definition result_range ::
  "text_words \<Rightarrow> insn \<Rightarrow> opcode \<Rightarrow> facts \<Rightarrow> (int \<times> int) option" where
  "result_range text i op f =
     (let rs1 = get_byte text i 1; rs2 = get_byte text i 2;
          point = (if op \<noteq> LI3 \<and> op \<noteq> MOV3 then fold_point text i op f else None)
      in case point of
           Some v \<Rightarrow> Some (sint v, sint v)
         | None \<Rightarrow>
             if ext_result op = ext_of_range 0 1 then Some (0, 1)
             else interval_op op (lo f rs1) (hi f rs1) (lo f rs2) (hi f rs2)
                    (sint (insn_imm text i)))"

subsection \<open>What a branch on a compare tells\<close>

definition record_cmp :: "text_words \<Rightarrow> insn \<Rightarrow> facts \<Rightarrow> facts" where
  "record_cmp text i f =
     (case cmp_form (i_op i) of
        None \<Rightarrow> f
      | Some cf \<Rightarrow>
          let c = cmp_of text i cf
          in if cmp_dst c = REG_ZERO \<or> cmp_dst c = cmp_a c \<or> cmp_b c = Some (cmp_dst c) then f
             else f\<lparr>fcmp := Some c\<rparr>)"

type_synonym interval = "int \<times> int"

definition clip_le :: "interval \<Rightarrow> interval \<Rightarrow> bool \<Rightarrow> interval \<times> interval" where
  "clip_le x y strict =
     (if strict \<and> (snd y = LLONG_MIN \<or> fst x = LLONG_MAX) then (x, y)
      else let x_hi = (if strict then snd y - 1 else snd y);
               y_lo = (if strict then fst x + 1 else fst x);
               x' = (if x_hi \<ge> fst x \<and> x_hi < snd x then (fst x, x_hi) else x);
               y' = (if y_lo \<le> snd y \<and> y_lo > fst y then (y_lo, snd y) else y)
           in (x', y'))"

definition clip_eq :: "interval \<Rightarrow> interval \<Rightarrow> interval \<times> interval" where
  "clip_eq x y =
     (let l = (if fst x > fst y then fst x else fst y);
          h = (if snd x < snd y then snd x else snd y)
      in if l > h then (x, y) else ((l, h), (l, h)))"

definition exclude_point :: "interval \<Rightarrow> int \<Rightarrow> interval" where
  "exclude_point v k =
     (if fst v = k \<and> snd v > k then (fst v + 1, snd v)
      else if snd v = k \<and> fst v < k then (fst v, snd v - 1) else v)"

definition clip_ne :: "interval \<Rightarrow> interval \<Rightarrow> interval \<times> interval" where
  "clip_ne x y =
     (let x' = (if fst y = snd y then exclude_point x (fst y) else x);
          y' = (if fst x' = snd x' then exclude_point y (fst x') else y)
      in (x', y'))"

definition clip :: "rel \<Rightarrow> interval \<Rightarrow> interval \<Rightarrow> interval \<times> interval" where
  "clip r x y =
     (case r of REL_LT \<Rightarrow> clip_le x y True | REL_LE \<Rightarrow> clip_le x y False
      | REL_EQ \<Rightarrow> clip_eq x y | REL_NE \<Rightarrow> clip_ne x y)"

text \<open>On the edge where the compare is false the complementary relation holds.\<close>

definition negate_rel :: "rel \<Rightarrow> bool \<Rightarrow> rel \<times> bool" where
  "negate_rel r swap =
     (case r of REL_LT \<Rightarrow> (REL_LE, \<not> swap) | REL_LE \<Rightarrow> (REL_LT, \<not> swap)
      | REL_EQ \<Rightarrow> (REL_NE, swap) | REL_NE \<Rightarrow> (REL_EQ, swap))"

definition set_interval :: "nat \<Rightarrow> interval \<Rightarrow> facts \<Rightarrow> facts" where
  "set_interval r I f = f\<lparr>lo := (lo f)(r := fst I), hi := (hi f)(r := snd I)\<rparr>"

definition refine_cmp :: "cmp \<Rightarrow> bool \<Rightarrow> facts \<Rightarrow> facts" where
  "refine_cmp c truth f =
     (case cmp_form (cmp_op c) of
        None \<Rightarrow> f
      | Some cf \<Rightarrow>
          if cmp_b c = Some (cmp_a c) then f
          else let x = (lo f (cmp_a c), hi f (cmp_a c));
                   y = (case cmp_b c of Some b \<Rightarrow> (lo f b, hi f b)
                          | None \<Rightarrow> (sint (cmp_imm c), sint (cmp_imm c)));
                   (r, swap) = (if truth then (cf_rel cf, cf_swap cf)
                                else negate_rel (cf_rel cf) (cf_swap cf));
                   (x', y') = (if swap then prod.swap (clip r y x) else clip r x y)
               in if cf_uns cf \<and> (fst x < 0 \<or> fst y < 0) then f
                  else let f1 = fit_reg (cmp_a c) (set_interval (cmp_a c) x' (case cmp_b c of
                              None \<Rightarrow> f | Some b \<Rightarrow> set_interval b y' f))
                       in case cmp_b c of None \<Rightarrow> f1 | Some b \<Rightarrow> fit_reg b f1)"

text \<open>The facts on the jump edge and on the fall-through edge of a \<open>JZ3\<close> or \<open>JNZ3\<close>.\<close>

definition branch_facts :: "text_words \<Rightarrow> insn \<Rightarrow> facts \<Rightarrow> facts \<times> facts" where
  "branch_facts text br f =
     (let r = get_byte text br 0; when = (i_op br = JNZ3)
      in case fcmp f of
           None \<Rightarrow> (f, f)
         | Some c \<Rightarrow>
             if r \<le> REG_ZERO \<or> NUM_REGS \<le> r then (f, f)
             else if cmp_dst c \<noteq> r \<and> icopy f r \<noteq> Some (cmp_dst c) then (f, f)
             else (refine_cmp c when f, refine_cmp c (\<not> when) f))"

subsection \<open>Soundness of compares\<close>

lemma sint_le_iff64: "sint (x :: u64) \<le> sint y \<longleftrightarrow> sint x < sint y \<or> x = y"
  by (metis order_le_less sint_eq_iff64)

lemma uint_le_iff64: "uint (x :: u64) \<le> uint y \<longleftrightarrow> x < y \<or> x = y"
  by (metis order_le_less word_le_def)

lemma uint_less_iff64: "uint (x :: u64) < uint y \<longleftrightarrow> x < y"
  by (simp add: word_less_def)

lemmas cmp_eval = cmp_sem_def Let_def sint_le_iff64 uint_le_iff64 uint_less_iff64

lemma cmp_form_alu:
  assumes "cmp_form op = Some cf"
  shows "\<exists>g. alu op = Some g \<and>
    (\<forall>w a b c imm. g w a b c imm = Inr (c_bool (cmp_sem cf a (if cf_imm cf then imm else b))))"
  using assms unfolding cmp_form_def
  by (auto split: if_split_asm simp: alu_eval cmp_eval)

text \<open>A compare is well formed when it has an immediate exactly where its opcode has one.\<close>

definition cmp_wf :: "cmp \<Rightarrow> bool" where
  "cmp_wf c \<longleftrightarrow> (\<forall>cf. cmp_form (cmp_op c) = Some cf \<longrightarrow> cf_imm cf = (cmp_b c = None)) \<and>
     cmp_a c < NUM_REGS \<and> (\<forall>b. cmp_b c = Some b \<longrightarrow> b < NUM_REGS)"

definition cmp_rhs :: "cmp \<Rightarrow> regfile \<Rightarrow> u64" where
  "cmp_rhs c R = (case cmp_b c of None \<Rightarrow> cmp_imm c | Some b \<Rightarrow> R b)"

lemma cmp_value_sem:
  assumes "cmp_form (cmp_op c) = Some cf" "cmp_wf c"
  shows "cmp_value c R = Inr (c_bool (cmp_sem cf (R (cmp_a c)) (cmp_rhs c R)))"
  using cmp_form_alu [OF assms(1)] assms
  by (auto simp: cmp_value_def cmp_wf_def cmp_rhs_def split: option.splits)

lemma decide_rel_ok:
  assumes "decide_rel r xl xh yl yh = Some d" "xl \<le> x" "x \<le> xh" "yl \<le> y" "y \<le> yh"
  shows "(case r of REL_LT \<Rightarrow> x < y | REL_LE \<Rightarrow> x \<le> y | REL_EQ \<Rightarrow> x = y | REL_NE \<Rightarrow> x \<noteq> (y :: int)) = d"
  using assms by (cases r) (auto simp: decide_rel_def split: if_split_asm)

text \<open>With both sides known non-negative the unsigned order is the signed one.\<close>

lemma cmp_sem_signed:
  assumes "cf_uns cf \<Longrightarrow> 0 \<le> sint a \<and> 0 \<le> sint b"
  shows "cmp_sem cf a b =
    (let x = sint (if cf_swap cf then b else a); y = sint (if cf_swap cf then a else b)
     in case cf_rel cf of REL_LT \<Rightarrow> x < y | REL_LE \<Rightarrow> x \<le> y | REL_EQ \<Rightarrow> x = y | REL_NE \<Rightarrow> x \<noteq> y)"
proof -
  have "a < b \<longleftrightarrow> sint a < sint b" "b < a \<longleftrightarrow> sint b < sint a" if "cf_uns cf"
    using assms [OF that] uint_sint_nonneg [of a] uint_sint_nonneg [of b]
    by (auto simp: word_less_def)
  then show ?thesis
    by (cases cf; cases "cf_rel cf"; cases "cf_uns cf")
      (auto simp: cmp_sem_def Let_def sint_le_iff64 sint_eq_iff64)
qed

lemma ranges_okD: "ranges_ok f R \<Longrightarrow> r < NUM_REGS \<Longrightarrow> lo f r \<le> sint (R r) \<and> sint (R r) \<le> hi f r"
  by (simp add: ranges_ok_def reg_ok_def)

lemma cmp_decide_ok:
  assumes "cmp_decide f c = Some d" "cmp_wf c" "ranges_ok f R"
  shows "\<exists>cf. cmp_form (cmp_op c) = Some cf \<and> cmp_sem cf (R (cmp_a c)) (cmp_rhs c R) = d"
proof -
  obtain cf where cf: "cmp_form (cmp_op c) = Some cf"
    using assms(1) by (auto simp: cmp_decide_def split: option.splits)
  define yl yh where "yl = (case cmp_b c of Some b \<Rightarrow> lo f b | None \<Rightarrow> sint (cmp_imm c))"
    and "yh = (case cmp_b c of Some b \<Rightarrow> hi f b | None \<Rightarrow> sint (cmp_imm c))"
  have a: "lo f (cmp_a c) \<le> sint (R (cmp_a c))" "sint (R (cmp_a c)) \<le> hi f (cmp_a c)"
    using assms(2,3) ranges_okD by (auto simp: cmp_wf_def)
  have b: "yl \<le> sint (cmp_rhs c R)" "sint (cmp_rhs c R) \<le> yh"
    using assms(2,3) ranges_okD
    by (auto simp: cmp_wf_def yl_def yh_def cmp_rhs_def split: option.splits)
  have d: "\<not> (cf_uns cf \<and> (lo f (cmp_a c) < 0 \<or> yl < 0))"
    "(if cf_swap cf then decide_rel (cf_rel cf) yl yh (lo f (cmp_a c)) (hi f (cmp_a c))
      else decide_rel (cf_rel cf) (lo f (cmp_a c)) (hi f (cmp_a c)) yl yh) = Some d"
    using assms(1) cf by (auto simp: cmp_decide_def yl_def yh_def Let_def split: option.splits if_split_asm)
  then have "cmp_sem cf (R (cmp_a c)) (cmp_rhs c R) = d"
    using a b decide_rel_ok [of "cf_rel cf" _ _ _ _ d]
    by (subst cmp_sem_signed) (auto simp: Let_def split: if_split_asm)
  with cf show ?thesis by blast
qed

definition in_iv :: "int \<Rightarrow> interval \<Rightarrow> bool" where
  "in_iv v I \<longleftrightarrow> ll_range (fst I) \<and> ll_range (snd I) \<and> fst I \<le> v \<and> v \<le> snd I"

definition rel_holds :: "rel \<Rightarrow> int \<Rightarrow> int \<Rightarrow> bool" where
  "rel_holds r x y = (case r of REL_LT \<Rightarrow> x < y | REL_LE \<Rightarrow> x \<le> y | REL_EQ \<Rightarrow> x = y | REL_NE \<Rightarrow> x \<noteq> y)"

lemma clip_ok:
  assumes "in_iv x X" "in_iv y Y" "rel_holds r x y"
  shows "in_iv x (fst (clip r X Y)) \<and> in_iv y (snd (clip r X Y))"
proof (cases r)
  case REL_LT
  then show ?thesis using assms
    by (simp add: clip_def clip_le_def rel_holds_def in_iv_def ll_range_def Let_def)
next
  case REL_LE
  then show ?thesis using assms
    by (simp add: clip_def clip_le_def rel_holds_def in_iv_def ll_range_def Let_def)
next
  case REL_EQ
  then show ?thesis using assms
    by (simp add: clip_def clip_eq_def rel_holds_def in_iv_def ll_range_def Let_def)
next
  case REL_NE
  have ex: "in_iv u (exclude_point I k)" if "in_iv u I" "u \<noteq> k" for u I k
    using that by (auto simp: exclude_point_def in_iv_def ll_range_def)
  have pt: "u = fst I" if "in_iv u I" "fst I = snd I" for u I
    using that by (simp add: in_iv_def)
  define X' where "X' = (if fst Y = snd Y then exclude_point X (fst Y) else X)"
  have ne: "x \<noteq> y" using assms(3) REL_NE by (simp add: rel_holds_def)
  have X': "in_iv x X'"
    using assms(1,2) ex [of x X "fst Y"] pt [of y Y] ne by (auto simp: X'_def)
  have "in_iv y (if fst X' = snd X' then exclude_point Y (fst X') else Y)"
    using assms(2) ex [of y Y "fst X'"] pt [OF X'] ne by auto
  moreover have "clip r X Y = (X', if fst X' = snd X' then exclude_point Y (fst X') else Y)"
    by (simp only: REL_NE clip_def clip_ne_def X'_def Let_def rel.case)
  ultimately show ?thesis using X' by simp
qed

lemma negate_rel_ok:
  "negate_rel r s = (r', s') \<Longrightarrow>
     rel_holds r' (if s' then y else x) (if s' then x else y) =
     (\<not> rel_holds r (if s then y else x) (if s then x else y))"
  by (cases r) (auto simp: negate_rel_def rel_holds_def)

lemma set_interval_ok:
  assumes "reg_ok f r v" "in_iv v I"
  shows "reg_ok (set_interval r I f) r v"
  using assms by (auto simp: reg_ok_def set_interval_def in_iv_def)

lemma set_interval_other: "s \<noteq> r \<Longrightarrow> reg_ok (set_interval r I f) s v = reg_ok f s v"
  by (simp add: reg_ok_def set_interval_def)

lemma fit_ranges: "ranges_ok f R \<Longrightarrow> ranges_ok (fit_reg r f) R"
  unfolding ranges_ok_def by (metis fit_reg_ok fit_reg_other)

lemma set_ranges:
  "ranges_ok f R \<Longrightarrow> r < NUM_REGS \<Longrightarrow> in_iv (sint (R r)) I \<Longrightarrow> ranges_ok (set_interval r I f) R"
  unfolding ranges_ok_def by (metis set_interval_ok set_interval_other)

lemma reg_in_iv: "ranges_ok f R \<Longrightarrow> r < NUM_REGS \<Longrightarrow> in_iv (sint (R r)) (lo f r, hi f r)"
  by (simp add: ranges_ok_def reg_ok_def in_iv_def)

lemma refine_cmp_ranges:
  assumes "ranges_ok f R" "cmp_wf c" "cmp_form (cmp_op c) = Some cf"
    and "cmp_sem cf (R (cmp_a c)) (cmp_rhs c R) = truth"
  shows "ranges_ok (refine_cmp c truth f) R"
proof -
  define X Y x y where "X = (lo f (cmp_a c), hi f (cmp_a c))"
    and "Y = (case cmp_b c of Some b \<Rightarrow> (lo f b, hi f b) | None \<Rightarrow> (sint (cmp_imm c), sint (cmp_imm c)))"
    and "x = sint (R (cmp_a c))" and "y = sint (cmp_rhs c R)"
  obtain r s where rs: "(if truth then (cf_rel cf, cf_swap cf)
      else negate_rel (cf_rel cf) (cf_swap cf)) = (r, s)" by force
  obtain X' Y' where XY: "(if s then prod.swap (clip r Y X) else clip r X Y) = (X', Y')" by (meson surj_pair)
  have a: "cmp_a c < NUM_REGS" and b: "\<And>b. cmp_b c = Some b \<Longrightarrow> b < NUM_REGS"
    using assms(2) by (auto simp: cmp_wf_def)
  have X: "in_iv x X" unfolding X_def x_def by (rule reg_in_iv [OF assms(1) a])
  have Y: "in_iv y Y" using reg_in_iv [OF assms(1) b]
    by (auto simp: Y_def y_def cmp_rhs_def in_iv_def split: option.splits)
  show ?thesis
  proof (cases "cmp_b c = Some (cmp_a c) \<or> cf_uns cf \<and> (fst X < 0 \<or> fst Y < 0)")
    case True
    then have "refine_cmp c truth f = f"
      using assms(3) unfolding refine_cmp_def X_def Y_def
      by (auto simp: Let_def split_beta split: option.splits)
    with assms(1) show ?thesis by simp
  next
    case False
    with X Y have "cmp_sem cf (R (cmp_a c)) (cmp_rhs c R) =
        rel_holds (cf_rel cf) (if cf_swap cf then y else x) (if cf_swap cf then x else y)"
      by (subst cmp_sem_signed) (auto simp: in_iv_def x_def y_def rel_holds_def Let_def split: rel.splits)
    then have "rel_holds r (if s then y else x) (if s then x else y)"
      using assms(4) rs negate_rel_ok [of "cf_rel cf" "cf_swap cf" r s y x] by (auto split: if_split_asm)
    then have "in_iv x X' \<and> in_iv y Y'"
      using clip_ok [of x X y Y r] clip_ok [of y Y x X r] X Y XY
      by (auto split: if_split_asm simp: prod.swap_def)
    then have "ranges_ok (fit_reg (cmp_a c) (set_interval (cmp_a c) X' (case cmp_b c of
        None \<Rightarrow> f | Some b \<Rightarrow> set_interval b Y' f))) R"
      using assms(1) a b
      by (intro fit_ranges set_ranges) (auto simp: x_def y_def cmp_rhs_def intro!: set_ranges split: option.splits)
    moreover have "refine_cmp c truth f = (let f1 = fit_reg (cmp_a c) (set_interval (cmp_a c) X' (case cmp_b c of
        None \<Rightarrow> f | Some b \<Rightarrow> set_interval b Y' f)) in case cmp_b c of None \<Rightarrow> f1 | Some b \<Rightarrow> fit_reg b f1)"
      using False assms(3) unfolding refine_cmp_def X_def [symmetric] Y_def [symmetric]
      by (auto simp: Let_def rs XY)
    ultimately show ?thesis by (auto simp: Let_def fit_ranges split: option.splits)
  qed
qed

lemma refine_cmp_simps [simp]: "icopy (refine_cmp c t f) = icopy f" "fcmp (refine_cmp c t f) = fcmp f"
  by (simp_all add: refine_cmp_def set_interval_def Let_def split_beta split: option.splits)

lemma branch_facts_ok:
  assumes "facts_ok f R" "\<And>c. fcmp f = Some c \<Longrightarrow> cmp_wf c" "get_byte text br 0 = r"
  shows "(if i_op br = JNZ3 then R r \<noteq> 0 else R r = 0) \<Longrightarrow> facts_ok (fst (branch_facts text br f)) R"
    and "(if i_op br = JNZ3 then R r = 0 else R r \<noteq> 0) \<Longrightarrow> facts_ok (snd (branch_facts text br f)) R"
proof -
  have ok: "facts_ok (refine_cmp c t f) R"
    if c: "fcmp f = Some c" "cmp_dst c = r \<or> icopy f r = Some (cmp_dst c)" and t: "t = (R r \<noteq> 0)" for c t
  proof (cases "cmp_form (cmp_op c)")
    case None
    then show ?thesis using assms(1) by (simp add: refine_cmp_def)
  next
    case (Some cf)
    have "R r = R (cmp_dst c)" "cmp_value c R = Inr (R (cmp_dst c))"
      using assms(1) c by (auto simp: facts_ok_defs cmp_ok_def)
    with cmp_value_sem [OF Some assms(2) [OF c(1)], of R]
    have "cmp_sem cf (R (cmp_a c)) (cmp_rhs c R) = t"
      using t by (auto simp: c_bool_def split: if_split_asm)
    from refine_cmp_ranges [OF _ assms(2) [OF c(1)] Some this] assms(1)
    show ?thesis by (simp add: facts_ok_def copies_ok_def)
  qed
  show "(if i_op br = JNZ3 then R r \<noteq> 0 else R r = 0) \<Longrightarrow> facts_ok (fst (branch_facts text br f)) R"
    using assms(1,3) ok by (auto simp: branch_facts_def Let_def split: option.splits if_splits)
  show "(if i_op br = JNZ3 then R r = 0 else R r \<noteq> 0) \<Longrightarrow> facts_ok (snd (branch_facts text br f)) R"
    using assms(1,3) ok by (auto simp: branch_facts_def Let_def split: option.splits if_splits)
qed

subsection \<open>Soundness of constant folding\<close>

definition insn_wf :: "text_words \<Rightarrow> insn \<Rightarrow> bool" where
  "insn_wf text i \<longleftrightarrow> (known i \<longrightarrow> op_spec (i_op i) = Some (spec i) \<and>
     (\<forall>k < 4. role (spec i) k \<noteq> R_NO \<longrightarrow> get_byte text i k < NUM_REGS))"

text \<open>The value the instruction \<open>i\<close> computes in the register file \<open>R\<close>.\<close>

definition insn_value :: "text_words \<Rightarrow> insn \<Rightarrow> regfile \<Rightarrow> alu_fn \<Rightarrow> vm_fault + u64" where
  "insn_value text i R g =
     g (operand text i) (R (get_byte text i 1)) (R (get_byte text i 2)) (R (get_byte text i 3))
       (insn_imm text i)"

lemma shift_count_small: "\<not> (sint b < 0 \<or> 63 < sint b) \<Longrightarrow> shift_count b = unat b"
proof -
  assume "\<not> (sint b < 0 \<or> 63 < sint b)"
  then have "uint b < 2 ^ 6" by (simp add: sint_shift_range)
  then have "take_bit 6 b = b"
    by (simp add: word_uint_eq_iff unsigned_take_bit_eq take_bit_int_eq_self)
  moreover have "(63 :: u64) = mask 6" by (simp add: mask_eq_exp_minus_1)
  ultimately show ?thesis unfolding shift_count_def by (metis take_bit_eq_mask)
qed

lemma fold_binary_ok:
  assumes "fold_binary op a b = Some v"
  shows "\<exists>g. alu op = Some g \<and> (\<forall>w c imm. g w a b c imm = Inr v)"
  using assms shift_count_small [of b]
  by (auto simp: fold_binary_def alu_eval word_less_def word_le_def split: if_split_asm)

lemma fold_unary_ok:
  assumes "fold_unary op a p2 p3 imm = Some (Some v)"
    and "\<And>x. op \<in> {MULADDI3, MULADD3} \<Longrightarrow> p2 = Some x \<Longrightarrow> x = b"
    and "\<And>x. op = MULADD3 \<Longrightarrow> p3 = Some x \<Longrightarrow> x = c"
  shows "\<exists>g. alu op = Some g \<and> (\<forall>w. g w a b c imm = Inr v)"
proof (cases "cmp_form op")
  case (Some cf)
  then have "v = c_bool (cmp_sem cf a imm)" "cf_imm cf"
    using assms(1) by (auto simp: fold_unary_def cmp_form_def split: if_split_asm)
  with cmp_form_alu [OF Some] show ?thesis by auto
next
  case None
  with assms show ?thesis
    by (auto simp: fold_unary_def alu_eval sint_shift_range split: if_split_asm option.split_asm)
qed

lemma point_of_ok:
  assumes "point_of f r = Some v" "ranges_ok f R" "r < NUM_REGS"
  shows "R r = v"
proof -
  from assms(1) have "lo f r = hi f r" "v = word_of_int (lo f r)"
    by (auto simp: point_of_def split: if_split_asm)
  with ranges_okD [OF assms(2,3)] have "lo f r = sint (R r)" by simp
  with \<open>v = _\<close> show ?thesis by simp
qed

lemma op_spec_muladd:
  "op_spec MULADDI3 = Some s \<Longrightarrow> role s 2 = R_IU" "op_spec MULADD3 = Some s \<Longrightarrow> role s 2 = R_IU \<and> role s 3 = R_IU"
  by (auto simp: op_spec_def role_def)

lemma cmp_form_spec:
  "cmp_form op = Some cf \<Longrightarrow> op_spec op = Some s \<Longrightarrow>
     role s 0 = R_ID \<and> role s 1 = R_IU \<and> (\<not> cf_imm cf \<longrightarrow> role s 2 = R_IU)"
  by (auto simp: cmp_form_def op_spec_def role_def split: if_split_asm)

lemma cmp_of_wf:
  assumes "cmp_form (i_op i) = Some cf" "insn_wf text i" "known i"
  shows "cmp_wf (cmp_of text i cf)"
proof -
  from assms have "op_spec (i_op i) = Some (spec i)"
    and byte: "\<And>k. k < 4 \<Longrightarrow> role (spec i) k \<noteq> R_NO \<Longrightarrow> get_byte text i k < NUM_REGS"
    by (auto simp: insn_wf_def)
  with cmp_form_spec [OF assms(1)] show ?thesis
    using byte [of 1] byte [of 2] assms(1) by (auto simp: cmp_wf_def cmp_of_def)
qed

lemma fold_point_ok:
  assumes "fold_point text i (i_op i) f = Some v" "insn_wf text i" "ranges_ok f R"
  shows "\<exists>g. alu (i_op i) = Some g \<and> insn_value text i R g = Inr v"
proof -
  let ?op = "i_op i"
  have k: "known i" using assms(1) by (auto simp: fold_point_def Let_def split: option.splits if_splits)
  then have sp: "op_spec ?op = Some (spec i)"
    and byte: "\<And>k. k < 4 \<Longrightarrow> role (spec i) k \<noteq> R_NO \<Longrightarrow> get_byte text i k < NUM_REGS"
    using assms(2) by (auto simp: insn_wf_def)
  have pt: "R (get_byte text i k) = x" if "k < 4" "role (spec i) k = R_IU" "point_of f (get_byte text i k) = Some x" for k x
    using point_of_ok [OF that(3) assms(3)] byte [OF that(1)] that(2) by simp
  consider (decided) cf d where "cmp_form ?op = Some cf" "cmp_decide f (cmp_of text i cf) = Some d" "v = c_bool d"
    | (unary) a where "role (spec i) 1 = R_IU" "point_of f (get_byte text i 1) = Some a"
        "fold_unary ?op a (point_of f (get_byte text i 2)) (point_of f (get_byte text i 3)) (insn_imm text i)
          = Some (Some v)"
    | (binary) a b where "role (spec i) 1 = R_IU" "role (spec i) 2 = R_IU"
        "point_of f (get_byte text i 1) = Some a" "point_of f (get_byte text i 2) = Some b"
        "fold_binary ?op a b = Some v"
    using assms(1) unfolding fold_point_def Let_def by (auto split: option.splits if_split_asm)
  then show ?thesis
  proof cases
    case decided
    note wf = cmp_of_wf [OF decided(1) assms(2) k]
    from cmp_decide_ok [OF decided(2) wf assms(3)] decided(1)
    have "cmp_sem cf (R (get_byte text i 1)) (cmp_rhs (cmp_of text i cf) R) = d" by (simp add: cmp_of_def)
    with cmp_form_alu [OF decided(1)] decided(3) show ?thesis
      by (auto simp: insn_value_def cmp_rhs_def cmp_of_def split: if_split_asm)
  next
    case unary
    from fold_unary_ok [OF unary(3), of "R (get_byte text i 2)" "R (get_byte text i 3)"]
      op_spec_muladd [of "spec i"] sp pt [of 2] pt [of 3] pt [of 1] unary(1,2)
    show ?thesis by (fastforce simp: insn_value_def)
  next
    case binary
    from fold_binary_ok [OF binary(5)] pt [of 1 a] pt [of 2 b] binary show ?thesis
      by (auto simp: insn_value_def)
  qed
qed

subsection \<open>Soundness of the result intervals\<close>

lemma sint_arith_ll:
  fixes a b :: u64
  shows "ll_range (sint a + sint b) \<Longrightarrow> sint (a + b) = sint a + sint b"
    and "ll_range (sint a - sint b) \<Longrightarrow> sint (a - b) = sint a - sint b"
    and "sint a \<noteq> LLONG_MIN \<Longrightarrow> sint (- a) = - sint a"
proof -
  have "a + b = word_of_int (sint a + sint b)" by simp
  then show "ll_range (sint a + sint b) \<Longrightarrow> sint (a + b) = sint a + sint b"
    by (metis sint_word_of_int_ll)
  have "a - b = word_of_int (sint a - sint b)" by simp
  then show "ll_range (sint a - sint b) \<Longrightarrow> sint (a - b) = sint a - sint b"
    by (metis sint_word_of_int_ll)
  have "- a = word_of_int (- sint a)" by simp
  moreover have "ll_range (- sint a)" if "sint a \<noteq> LLONG_MIN"
    using that sint64_bounds [of a] by (auto simp: ll_range_def limits)
  ultimately show "sint a \<noteq> LLONG_MIN \<Longrightarrow> sint (- a) = - sint a"
    by (metis sint_word_of_int_ll)
qed

lemma sint_sar: "sint (c_sar a k) = drop_bit k (sint a)"
proof (cases "k = 0")
  case False
  then show ?thesis
    by (intro bit_eqI) (auto simp: c_sar_def bit_sint_iff bit_simps min_def dest: bit_imp_le_length)
qed (simp add: c_sar_def)

lemma uint_nonneg_bounds: "0 \<le> uint (a :: u64)" "uint a < 2 ^ 64"
  using uint_lt2p [of a] by simp_all

lemma sint_of_uint: "uint (a :: u64) < 2 ^ 63 \<Longrightarrow> sint a = uint a"
proof -
  assume "uint a < 2 ^ 63"
  moreover have "- (2 ^ 63) \<le> uint a" by (rule order_trans [of _ 0]) simp_all
  ultimately have "signed_take_bit 63 (uint a) = uint a" by (intro signed_take_bit_int_eq_self)
  then show ?thesis by (simp add: sint_uint)
qed

lemma drop_bit_mono: "x \<le> y \<Longrightarrow> drop_bit k x \<le> drop_bit k (y :: int)"
  by (simp add: drop_bit_eq_div zdiv_mono1)

lemma drop_bit_ll:
  assumes "ll_range x" shows "ll_range (drop_bit k x)"
proof -
  have b: "bit x m = bit x (min 63 m)" for m
    using arg_cong [OF signed_take_bit_ll [OF assms], of "\<lambda>z. bit z m"] by (simp add: bit_signed_take_bit_iff)
  have "bit x (k + min 63 n) = bit x (k + n)" for n
  proof -
    have "min 63 (k + min 63 n) = min 63 (k + n)" by simp
    then show ?thesis by (metis b)
  qed
  then have "signed_take_bit 63 (drop_bit k x) = drop_bit k x"
    by (intro bit_eqI) (simp add: bit_signed_take_bit_iff bit_drop_bit_eq)
  then show ?thesis by (simp add: signed_take_bit_int_eq_self_iff ll_range_def limits)
qed

lemma uint_shr: "uint (drop_bit k a) = drop_bit k (uint (a :: u64))"
  using take_bit_int_eq_self [OF uint_nonneg_bounds [of a]] by (simp add: unsigned_drop_bit_eq)

lemma drop_bit_le_self: "0 \<le> x \<Longrightarrow> drop_bit k x \<le> (x :: int)"
  using zdiv_mono2 [of x 1 "2 ^ k"] by (simp add: drop_bit_eq_div)

lemma sint_shr: "0 \<le> sint a \<Longrightarrow> sint (drop_bit k a) = drop_bit k (sint (a :: u64))"
  using drop_bit_le_self [of "uint a" k] sint64_bounds [of a]
  by (subst sint_of_uint) (simp_all add: uint_shr uint_sint_nonneg)

lemma udiv_bounds:
  assumes "0 \<le> sint (a :: u64)"
  shows "0 \<le> sint (a div b)" "sint (a div b) \<le> sint a"
proof -
  have "uint (a div b) \<le> uint a"
  proof -
    have "uint b = 0 \<or> 1 \<le> uint b" using uint_nonneg_bounds(1) [of b] by linarith
    then show ?thesis using zdiv_mono2 [of "uint a" 1 "uint b"] by (auto simp: uint_div)
  qed
  with uint_sint_nonneg [OF assms] have "uint (a div b) \<le> sint a" by simp
  moreover from this have "sint (a div b) = uint (a div b)"
    using sint64_bounds(2) [of a] by (intro sint_of_uint) linarith
  ultimately show "0 \<le> sint (a div b)" "sint (a div b) \<le> sint a" by simp_all
qed

lemma sdiv_bounds:
  assumes "1 \<le> (b :: int)"
  shows "(if a < 0 then a else 0) \<le> a sdiv b" "a sdiv b \<le> (if a > 0 then a else 0)"
proof -
  have "0 \<le> \<bar>a\<bar> div b" "\<bar>a\<bar> div b \<le> \<bar>a\<bar>"
    using assms zdiv_mono2 [of "\<bar>a\<bar>" 1 b] by (simp_all add: pos_imp_zdiv_nonneg_iff)
  then show "(if a < 0 then a else 0) \<le> a sdiv b" "a sdiv b \<le> (if a > 0 then a else 0)"
    using assms by (auto simp: signed_divide_int_def sgn_if abs_if)
qed

lemma umod_bounds:
  fixes a b :: u64
  assumes "b \<noteq> 0"
  shows "0 \<le> sint a \<Longrightarrow> 0 \<le> sint (a mod b) \<and> sint (a mod b) \<le> sint a"
    and "0 \<le> sint b \<Longrightarrow> 0 \<le> sint (a mod b) \<and> sint (a mod b) < sint b"
proof -
  have "uint b \<noteq> 0" using assms by (simp add: word_uint_eq_iff)
  then have b: "0 < uint b" using uint_nonneg_bounds(1) [of b] by linarith
  have m: "uint (a mod b) = uint a mod uint b" by (simp add: uint_mod)
  have "uint a mod uint b \<le> uint a" "uint a mod uint b < uint b"
    using b by (simp_all add: zmod_le_nonneg_dividend)
  note le = this [folded m]
  show "0 \<le> sint (a mod b) \<and> sint (a mod b) \<le> sint a" if "0 \<le> sint a"
  proof -
    from le(1) uint_sint_nonneg [OF that] have "uint (a mod b) \<le> sint a" by simp
    moreover from this have "sint (a mod b) = uint (a mod b)"
      using sint64_bounds(2) [of a] by (intro sint_of_uint) linarith
    ultimately show ?thesis by simp
  qed
  show "0 \<le> sint (a mod b) \<and> sint (a mod b) < sint b" if "0 \<le> sint b"
  proof -
    from le(2) uint_sint_nonneg [OF that] have "uint (a mod b) < sint b" by simp
    moreover from this have "sint (a mod b) = uint (a mod b)"
      using sint64_bounds(2) [of b] by (intro sint_of_uint) linarith
    ultimately show ?thesis by simp
  qed
qed

lemma alu_none:
  "alu FEQ3 = None" "alu FNE3 = None" "alu FLT3 = None" "alu FLE3 = None" "alu FGT3 = None"
  "alu FGE3 = None" "alu FNZ3 = None" "alu FEQ3_F32 = None" "alu FNE3_F32 = None"
  "alu FNZ3_F32 = None" "alu FLT3_F32 = None" "alu FLE3_F32 = None" "alu FGT3_F32 = None"
  "alu FGE3_F32 = None"
  unfolding alu_def alu_table_def by (rule map_of_nil | rule map_of_tl, simp)+

lemma ext_of_range_eval [simp]:
  "ext_of_range 0 1 = 63" "ext_of_range (- 128) 127 = 7" "ext_of_range (- 32768) 32767 = 6"
  "ext_of_range INT_MIN INT_MAX = 4" "ext_of_range 0 255 = 62" "ext_of_range 0 65535 = 52"
  "ext_of_range 0 4294967295 = 32"
  by (simp_all add: ext_of_range_def EXT_LIMITS_def X_defs limits)

lemma ext_result_bool:
  assumes "ext_result op = ext_of_range 0 1" "alu op = Some g" "g w a b c imm = Inr v"
  shows "v = 0 \<or> v = 1"
  using assms by (auto simp: ext_result_def alu_eval alu_none c_bool_def split: if_split_asm)


lemma sint_not: "sint (NOT a) = NOT (sint (a :: u64))"
proof -
  have "NOT a = word_of_int (- sint a - 1)" by (simp add: not_eq_complement)
  moreover have "ll_range (- sint a - 1)" using ll_range_sint [of a] by (auto simp: ll_range_def limits)
  ultimately show ?thesis by (simp only: sint_word_of_int_ll not_int_def)
qed

lemma nat_sint: "0 \<le> sint (x :: u64) \<Longrightarrow> nat (sint x) = unat x"
  by (metis uint_sint_nonneg nat_uint_eq)

lemma interval_op_ok:
  assumes "interval_op op l1 h1 l2 h2 (sint imm) = Some (l, h)"
    and "alu op = Some g" "g w a b c imm = Inr v"
    and a: "op \<noteq> LI3 \<Longrightarrow> ll_range l1 \<and> ll_range h1 \<and> l1 \<le> sint a \<and> sint a \<le> h1"
    and b: "op \<in> {DIV3, UMOD3, ADD3, SUB3} \<Longrightarrow> ll_range l2 \<and> ll_range h2 \<and> l2 \<le> sint b \<and> sint b \<le> h2"
  shows "ll_range l \<and> ll_range h \<and> l \<le> sint v \<and> sint v \<le> h"
proof -
  consider "op = MOV3" | "op = LI3" | "op = ADDI3" | "op = ANDI3" | "op = SHRI3" | "op = USHRI3" | "op = NEG3"
    | "op = BNOT3" | "op = DIV3" | "op = USHR3" | "op = UDIV3" | "op = UMOD3" | "op = ADD3" | "op = SUB3"
    using assms(1) by (auto simp: interval_op_def split: if_split_asm)
  then show ?thesis
  proof cases
    case 1
    then show ?thesis using assms a by (auto simp: interval_op_def alu_eval)
  next
    case 2
    then show ?thesis using assms by (auto simp: interval_op_def alu_eval)
  next
    case 3
    then have "ll_range (l1 + sint imm)" "ll_range (h1 + sint imm)" "l = l1 + sint imm" "h = h1 + sint imm"
      "v = a + imm" using assms(1-3) by (auto simp: interval_op_def alu_eval no_overflow_def split: if_split_asm)
    moreover from this have "ll_range (sint a + sint imm)" using a 3 by (auto simp: ll_range_def)
    ultimately show ?thesis using a 3 sint_arith_ll(1) [of a imm] by simp
  next
    case 4
    then have "0 \<le> sint imm" "l = 0" "h = sint imm" "v = a AND imm"
      using assms(1-3) by (auto simp: interval_op_def alu_eval split: if_split_asm)
    then show ?thesis using ll_range_sint [of imm] by (simp add: sint_and AND_upper2) (simp add: ll_range_def limits)
  next
    case 5
    then have "\<not> (sint imm < 0 \<or> 63 < sint imm)" "l = drop_bit (nat (sint imm)) l1" "h = drop_bit (nat (sint imm)) h1"
      "v = c_sar a (unat imm)"
      using assms(1-3) by (auto simp: interval_op_def alu_eval split: if_split_asm)
    moreover from this have "nat (sint imm) = unat imm" by (intro nat_sint) simp
    ultimately show ?thesis using a 5 by (simp add: sint_sar drop_bit_mono drop_bit_ll)
  next
    case 6
    then have imm: "\<not> (sint imm < 0 \<or> 63 < sint imm)" and v: "v = drop_bit (unat imm) a"
      and lh: "(if 0 \<le> l1 then Some (drop_bit (nat (sint imm)) l1, drop_bit (nat (sint imm)) h1)
         else if sint imm < 1 then None else Some (0, drop_bit (nat (sint imm)) (2 ^ 64 - 1))) = Some (l, h)"
      using assms(1-3) by (auto simp: interval_op_def alu_eval split: if_split_asm)
    from imm have n: "nat (sint imm) = unat imm" by (intro nat_sint) simp
    show ?thesis
    proof (cases "0 \<le> l1")
      case True
      with a 6 have "0 \<le> sint a" by simp
      then show ?thesis using True a 6 v lh n by (auto simp: sint_shr drop_bit_mono drop_bit_ll)
    next
      case False
      then have lh': "l = 0" "h = drop_bit (unat imm) (2 ^ 64 - 1)" "1 \<le> unat imm"
        using lh n by (auto split: if_split_asm)
      have "uint v = drop_bit (unat imm) (uint a)" by (simp add: v uint_shr)
      then have "uint v \<le> h" using drop_bit_mono [of "uint a" "2 ^ 64 - 1" "unat imm"] uint_nonneg_bounds(2) [of a]
        by (simp add: lh')
      moreover have "h \<le> 2 ^ 63 - 1"
        using lh'(3) zdiv_mono2 [of "2 ^ 64 - 1" 2 "2 ^ unat imm"] self_le_power [of "2::int" "unat imm"]
        by (simp add: lh'(2) drop_bit_eq_div)
      moreover have "0 \<le> h" using \<open>uint v \<le> h\<close> uint_nonneg_bounds(1) [of v] by linarith
      ultimately show ?thesis using sint_of_uint [of v] by (auto simp: ll_range_def limits lh'(1))
    qed
  next
    case 7
    then have "l1 \<noteq> LLONG_MIN" "l = - h1" "h = - l1" "v = - a"
      using assms(1-3) by (auto simp: interval_op_def alu_eval split: if_split_asm)
    then show ?thesis using a 7 sint_arith_ll(3) [of a] by (auto simp: ll_range_def limits)
  next
    case 8
    then have "l = NOT h1" "h = NOT l1" "v = NOT a"
      using assms(1-3) by (auto simp: interval_op_def alu_eval)
    then show ?thesis using a 8 by (auto simp: sint_not not_int_def ll_range_def limits)
  next
    case 9
    then have "1 \<le> l2" "l = (if l1 < 0 then l1 else 0)" "h = (if h1 > 0 then h1 else 0)"
      "v = c_sdiv a b"
      using assms(1-3) b by (auto simp: interval_op_def alu_eval split: if_split_asm)
    moreover have "1 \<le> sint b" using \<open>1 \<le> l2\<close> b 9 by simp
    ultimately show ?thesis
      using a 9 sdiv_bounds [of "sint b" "sint a"] ll_range_sint [of a]
        sint_word_of_int_ll [of "sint a sdiv sint b"]
      by (auto simp: c_sdiv_def ll_range_def limits split: if_split_asm)
  next
    case 10
    then have "0 \<le> l1" "l = 0" "h = h1" "v = drop_bit (shift_count b) a"
      using assms(1-3) by (auto simp: interval_op_def alu_eval split: if_split_asm)
    then show ?thesis using a 10 drop_bit_le_self [of "sint a" "shift_count b"]
      by (auto simp: sint_shr ll_range_def limits)
  next
    case 11
    then have "0 \<le> l1" "l = 0" "h = h1" "v = a div b"
      using assms(1-3) by (auto simp: interval_op_def alu_eval split: if_split_asm)
    then show ?thesis using a 11 udiv_bounds [of a b] by (auto simp: ll_range_def limits)
  next
    case 12
    then have "b \<noteq> 0" "v = a mod b" "l = 0"
      and h: "h = (if l2 \<ge> 1 \<and> h2 - 1 < (if l1 \<ge> 0 then h1 else LLONG_MAX) then h2 - 1
        else (if l1 \<ge> 0 then h1 else LLONG_MAX))" "h \<noteq> LLONG_MAX"
      using assms(1-3) by (auto simp: interval_op_def alu_eval Let_def split: if_split_asm)
    then show ?thesis using a b 12 umod_bounds [of b a] by (auto simp: ll_range_def limits split: if_split_asm)
  next
    case 13
    then have "ll_range (l1 + l2)" "ll_range (h1 + h2)" "l = l1 + l2" "h = h1 + h2" "v = a + b"
      using assms(1-3) by (auto simp: interval_op_def alu_eval no_overflow_def split: if_split_asm)
    moreover from this have "ll_range (sint a + sint b)" using a b 13 by (auto simp: ll_range_def)
    ultimately show ?thesis using a b 13 sint_arith_ll(1) [of a b] by simp
  next
    case 14
    then have "ll_range (l1 - h2)" "ll_range (h1 - l2)" "l = l1 - h2" "h = h1 - l2" "v = a - b"
      using assms(1-3) by (auto simp: interval_op_def alu_eval no_overflow_def split: if_split_asm)
    moreover from this have "ll_range (sint a - sint b)" using a b 14 by (auto simp: ll_range_def)
    ultimately show ?thesis using a b 14 sint_arith_ll(2) [of a b] by simp
  qed
qed

end
