(* ===== verification/Peep_Forward.thy ===== *)
theory Peep_Forward
  imports Peep_Fold
begin

text \<open>
  The forward pass (\<open>src/src/codegen_peep.c\<close>, lines 1447 to 1678): rewriting one instruction
  under the facts that hold before it (redundant extensions, copy propagation, constant folding,
  algebraic identities, decided branches) and the facts it leaves. \<open>forward_insn\<close> is one round of
  the loop of \<open>forward_block\<close>. The state of a round is the text, the instruction, the facts and
  the flag \<open>changed\<close>.
\<close>

subsection \<open>Rewriting one instruction\<close>

definition make_mov :: "text_words \<Rightarrow> insn \<Rightarrow> nat \<Rightarrow> text_words \<times> insn" where
  "make_mov text i src =
     (let text1 = text(i_pc i := of_nat MOV3);
          text2 = set_byte text1 i 1 src;
          text3 = set_byte text2 i 2 0
      in (text3, i\<lparr>i_op := MOV3, i_size := the (cc_instr_words MOV3), spec := the (op_spec MOV3)\<rparr>))"

definition make_imm_op :: "text_words \<Rightarrow> insn \<Rightarrow> opcode \<Rightarrow> u64 \<Rightarrow> text_words \<times> insn" where
  "make_imm_op text i op imm =
     (cc_write_i64_at (text(i_pc i := of_nat op)) (i_pc i + 2) imm,
      i\<lparr>i_op := op, spec := (case op_spec op of None \<Rightarrow> spec i | Some s \<Rightarrow> s)\<rparr>)"

definition imm_identity_src :: "opcode \<Rightarrow> u64 \<Rightarrow> nat \<Rightarrow> nat option" where
  "imm_identity_src op imm rs1 =
     (if op \<in> {ADDI3, ORI3, XORI3, SHLI3, SHRI3, USHRI3} then (if imm = 0 then Some rs1 else None)
      else if op = ANDI3 then (if imm = 0 then Some REG_ZERO else if imm = - 1 then Some rs1 else None)
      else if op = MULI3 then (if imm = 0 then Some REG_ZERO else if imm = 1 then Some rs1 else None)
      else None)"

text \<open>The last \<open>switch\<close> of \<open>fold_in_place\<close>: the source a two-register operation copies, from the
  known values \<open>a\<close> and \<open>b\<close> of its operands.\<close>

definition identity_src ::
  "opcode \<Rightarrow> u64 option \<Rightarrow> u64 option \<Rightarrow> nat \<Rightarrow> nat \<Rightarrow> nat option" where
  "identity_src op a b rs1 rs2 =
     (if op \<in> {ADD3, OR3, XOR3}
      then (if b = Some 0 then Some rs1 else if a = Some 0 then Some rs2 else None)
      else if op \<in> {SUB3, SHL3, SHR3, USHR3} then (if b = Some 0 then Some rs1 else None)
      else if op = MUL3
      then (if b = Some 1 then Some rs1 else if a = Some 1 then Some rs2
            else if a = Some 0 \<or> b = Some 0 then Some REG_ZERO else None)
      else if op = AND3
      then (if a = Some 0 \<or> b = Some 0 then Some REG_ZERO
            else if b = Some (- 1) then Some rs1 else if a = Some (- 1) then Some rs2 else None)
      else None)"

text \<open>\<open>fold_in_place\<close>: the new text and instruction, and whether it was rewritten.\<close>

definition fold_in_place :: "text_words \<Rightarrow> insn \<Rightarrow> facts \<Rightarrow> text_words \<times> insn \<times> bool" where
  "fold_in_place text i f =
     (let op = i_op i; rd = get_byte text i 0; rs1 = get_byte text i 1; rs2 = get_byte text i 2;
          imm = insn_imm text i
      in if \<not> sp_pure (spec i) \<or> role (spec i) 0 \<noteq> R_ID \<or> role (spec i) 1 \<noteq> R_IU \<or> rd = REG_ZERO \<or>
            op = LI3 \<or> op = MOV3
         then (text, i, False)
         else case fold_point text i op f of
           Some v \<Rightarrow>
             if i_size i = 4
             then let (text1, i1) = make_imm_op text i LI3 v
                  in (text1(i_pc i + 1 := of_nat rd), i1, True)
             else if v = 0
             then let (text1, i1) = make_mov text i REG_ZERO in (text1, i1, True)
             else (text, i\<lparr>fold_v := Some v\<rparr>, False)
         | None \<Rightarrow>
             if op = MULADDI3 \<and> point_of f rs2 \<noteq> None
             then let (text1, i1) = make_imm_op text i ADDI3 (the (point_of f rs2) * imm)
                  in (set_byte text1 i1 2 0, i1, True)
             else if i_size i = 4
             then (case imm_identity_src op imm rs1 of
                     None \<Rightarrow> (text, i, False)
                   | Some src \<Rightarrow>
                       if src = rd then (text, i\<lparr>dead := True\<rparr>, True)
                       else let (text1, i1) = make_mov text i src in (text1, i1, True))
             else if i_size i \<noteq> 2 \<or> role (spec i) 2 \<noteq> R_IU \<or> role (spec i) 3 \<noteq> R_NO
             then (text, i, False)
             else (case identity_src op (point_of f rs1) (point_of f rs2) rs1 rs2 of
                     None \<Rightarrow> (text, i, False)
                   | Some src \<Rightarrow> let (text1, i1) = make_mov text i src in (text1, i1, True)))"

definition copy_byte ::
  "facts \<Rightarrow> u32 \<Rightarrow> insn \<Rightarrow> nat \<Rightarrow> text_words \<times> bool \<Rightarrow> text_words \<times> bool" where
  "copy_byte f promoted i k = (\<lambda>(text, changed).
     let r = get_byte text i k
     in case role (spec i) k of
          R_IU \<Rightarrow> (case icopy f r of
                    Some s \<Rightarrow> if r > REG_ZERO \<and> promoted AND BIT r = 0
                              then (set_byte text i k s, True) else (text, changed)
                  | None \<Rightarrow> (text, changed))
        | R_FU \<Rightarrow> (case fcopy f r of
                    Some s \<Rightarrow> (set_byte text i k s, True)
                  | None \<Rightarrow> (text, changed))
        | _ \<Rightarrow> (text, changed))"

subsection \<open>The facts an instruction leaves\<close>

definition result_ext :: "text_words \<Rightarrow> insn \<Rightarrow> opcode \<Rightarrow> facts \<Rightarrow> u8" where
  "result_ext text i op f =
     (let e1 = ext f (get_byte text i 1); e2 = ext f (get_byte text i 2);
          imm = sint (insn_imm text i)
      in if op = MOV3 then e1
         else if op \<in> {AND3, OR3, XOR3} then ext_bitwise op e1 e2
         else if op \<in> {ANDI3, ORI3, XORI3}
         then ext_bitwise (if op = ANDI3 then AND3 else if op = ORI3 then OR3 else XOR3)
                e1 (ext_of_range imm imm)
         else if op = LI3 then ext_of_range imm imm
         else ext_result op)"

definition define_reg :: "eff \<Rightarrow> u8 \<Rightarrow> interval \<Rightarrow> nat \<Rightarrow> facts \<Rightarrow> facts" where
  "define_reg e x I r f =
     (let f1 = (if idef e AND BIT r \<noteq> 0
                then let g = kill_int r f
                     in fit_reg r (g\<lparr>ext := (ext g)(r := x), lo := (lo g)(r := fst I),
                          hi := (hi g)(r := snd I)\<rparr>)
                else f)
      in if fdef e AND BIT r \<noteq> 0 then kill_float r f1 else f1)"

definition record_copy :: "text_words \<Rightarrow> insn \<Rightarrow> opcode \<Rightarrow> interval \<Rightarrow> facts \<Rightarrow> facts" where
  "record_copy text i op I f =
     (let rd = get_byte text i 0; rs = get_byte text i 1
      in if op = MOV3
         then (if rd \<noteq> rs \<and> rd \<noteq> REG_ZERO then f\<lparr>icopy := (icopy f)(rd := Some rs)\<rparr> else f)
         else if op = LI3 \<and> I = (0, 0)
         then (if rd \<noteq> REG_ZERO then f\<lparr>icopy := (icopy f)(rd := Some REG_ZERO)\<rparr> else f)
         else if op = FMOV3
         then (if rd \<noteq> rs then f\<lparr>fcopy := (fcopy f)(rd := Some rs)\<rparr> else f)
         else f)"

text \<open>The facts after a known instruction that acts as \<open>op\<close>.\<close>

definition facts_after :: "text_words \<Rightarrow> insn \<Rightarrow> opcode \<Rightarrow> facts \<Rightarrow> facts" where
  "facts_after text i op f =
     (let e = effects text i; x = result_ext text i op f;
          I = (case result_range text i op f of None \<Rightarrow> range_of_ext x | Some I \<Rightarrow> I);
          f1 = fold (define_reg e x I) [1..<NUM_REGS] f
      in record_copy text i op I (record_cmp text i f1))"

subsection \<open>One round of the forward pass\<close>

record fwd =
  w_text :: text_words
  w_insn :: insn
  w_facts :: facts
  w_changed :: bool

text \<open>A conditional branch on a register: the register is replaced by its copy, and a branch on a
  known value is dropped or made unconditional.\<close>

definition forward_branch :: "fwd \<Rightarrow> fwd" where
  "forward_branch s =
     (let i = w_insn s; f = w_facts s; text = w_text s; r = get_byte text i 0;
          copy = (if REG_ZERO < r \<and> r < NUM_REGS then icopy f r else None);
          (text1, r1, ch1) = (case copy of Some c \<Rightarrow> (set_byte text i 0 c, c, True)
                                | None \<Rightarrow> (text, r, w_changed s))
      in case (if r1 < NUM_REGS then point_of f r1 else None) of
           None \<Rightarrow> s\<lparr>w_text := text1, w_changed := ch1\<rparr>
         | Some v \<Rightarrow>
             if (i_op i = JZ3) \<noteq> (v = 0)
             then s\<lparr>w_text := text1, w_insn := i\<lparr>dead := True\<rparr>, w_changed := True\<rparr>
             else if i_op i \<noteq> JZ3 \<or> r1 \<noteq> REG_ZERO
             then s\<lparr>w_text := set_byte (text1(i_pc i := of_nat JZ3)) i 0 REG_ZERO,
                    w_insn := i\<lparr>i_op := JZ3\<rparr>, w_changed := True\<rparr>
             else s\<lparr>w_text := text1, w_changed := ch1\<rparr>)"

definition forward_unknown :: "(nat \<Rightarrow> u8) \<Rightarrow> u32 \<Rightarrow> bool \<Rightarrow> fwd \<Rightarrow> fwd" where
  "forward_unknown seed promoted rewrite s =
     (let i = w_insn s; f = w_facts s
      in if i_op i = JZ3 \<or> i_op i = JNZ3 then (if rewrite then forward_branch s else s)
         else if ctrl_kind (w_text s) i = C_NONE
         then if is_call (i_op i)
              then let g = facts_after_call seed promoted f
                   in s\<lparr>w_facts := (if ret_ext i \<noteq> 0
                        then g\<lparr>ext := (ext g)(REG_A0 := ret_ext i),
                               lo := (lo g)(REG_A0 := fst (range_of_ext (ret_ext i))),
                               hi := (hi g)(REG_A0 := snd (range_of_ext (ret_ext i)))\<rparr>
                        else g)\<rparr>
              else s\<lparr>w_facts := facts_reset seed\<rparr>
         else s)"

text \<open>A sign or zero extension of a value that already fits is a copy (or nothing, on its own
  register); otherwise the facts of its source are kept for \<open>drop_branch_ext\<close>. The result is
  \<open>None\<close> where the loop continues with the next instruction, else the opcode the facts are
  computed for.\<close>

definition forward_ext :: "bool \<Rightarrow> fwd \<Rightarrow> fwd \<times> opcode option" where
  "forward_ext rewrite s =
     (let i = w_insn s; f = w_facts s; text = w_text s; need = ext_needed (i_op i);
          rd = get_byte text i 0; rs = get_byte text i 1
      in if need = 0 then (s, Some (i_op i))
         else if ext f rs AND need \<noteq> 0
         then let s1 = (if rewrite then s\<lparr>w_changed := True\<rparr> else s)
              in if rd = rs
                 then (if rewrite then s1\<lparr>w_insn := i\<lparr>dead := True\<rparr>\<rparr> else s1, None)
                 else (if rewrite
                       then s1\<lparr>w_text := text(i_pc i := of_nat MOV3),
                               w_insn := i\<lparr>i_op := MOV3, spec := the (op_spec MOV3)\<rparr>\<rparr>
                       else s1, Some MOV3)
         else (if rewrite then s\<lparr>w_insn := i\<lparr>src_ext := ext f rs\<rparr>\<rparr> else s, Some (i_op i)))"

definition forward_rewrite :: "u32 \<Rightarrow> fwd \<Rightarrow> fwd" where
  "forward_rewrite promoted s =
     (let (text1, ch1) = fold (copy_byte (w_facts s) promoted (w_insn s)) [0, 1, 2, 3]
                           (w_text s, w_changed s);
          (text2, i2, folded) = fold_in_place text1 ((w_insn s)\<lparr>fold_v := None\<rparr>) (w_facts s)
      in s\<lparr>w_text := text2, w_insn := i2, w_changed := ch1 \<or> folded\<rparr>)"

definition forward_insn :: "(nat \<Rightarrow> u8) \<Rightarrow> u32 \<Rightarrow> bool \<Rightarrow> fwd \<Rightarrow> fwd" where
  "forward_insn seed promoted rewrite s =
     (let i = w_insn s; text = w_text s
      in if dead i then s
         else if (i_op i = MOV3 \<or> i_op i = FMOV3) \<and> get_byte text i 0 = get_byte text i 1
         then (if rewrite then s\<lparr>w_insn := i\<lparr>dead := True\<rparr>, w_changed := True\<rparr> else s)
         else if \<not> known i then forward_unknown seed promoted rewrite s
         else case forward_ext rewrite s of
                (s1, None) \<Rightarrow> s1
              | (s1, Some op) \<Rightarrow>
                  let s2 = (if rewrite then forward_rewrite promoted s1 else s1);
                      op2 = (if rewrite then i_op (w_insn s2) else op)
                  in s2\<lparr>w_facts := facts_after (w_text s2) (w_insn s2) op2 (w_facts s2)\<rparr>)"

end
