(* ===== verification/Peep_Transfer.thy ===== *)
theory Peep_Transfer
  imports Peep_Forward
begin

text \<open>
  Soundness of the forward transfer: the facts \<open>facts_after\<close> computes hold after the instruction has
  run, whatever the registers were as long as the facts before it held.
\<close>

subsection \<open>What the table's instructions read and write\<close>

lemma alu_ops_spec:
  "list_all (\<lambda>(op, g). \<exists>s. op_spec op = Some s \<and> role0 s = R_ID \<and> role1 s \<in> {R_NO, R_IU} \<and>
     role2 s \<in> {R_NO, R_IU} \<and> role3 s \<in> {R_NO, R_IU} \<and> (op \<noteq> LI3 \<longrightarrow> role1 s = R_IU) \<and>
     op \<notin> {JMP, JZ3, JNZ3, LEV3, CALLT, JMPT, JMPI, CALL, CALLI, CALLN, CALLF} \<and> \<not> IS_FUSED_BR op)
   alu_table"
  unfolding alu_table_def list.pred_inject prod.case
  by (intro conjI TrueI; simp add: op_spec_def IS_FUSED_BR_def)

lemma alu_spec:
  assumes "alu op = Some g"
  obtains s where "op_spec op = Some s" "role0 s = R_ID" "role1 s \<in> {R_NO, R_IU}"
    "role2 s \<in> {R_NO, R_IU}" "role3 s \<in> {R_NO, R_IU}" "op \<noteq> LI3 \<longrightarrow> role1 s = R_IU"
    "op \<notin> {JMP, JZ3, JNZ3, LEV3, CALLT, JMPT, JMPI, CALL, CALLI, CALLN, CALLF}" "\<not> IS_FUSED_BR op"
  using alu_ops_spec map_of_SomeD [of alu_table op g] assms unfolding alu_def list_all_iff by fastforce

lemma role_simps [simp]:
  "role s 0 = role0 s" "role s (Suc 0) = role1 s" "role s 2 = role2 s" "role s 3 = role3 s"
  by (simp_all add: role_def)

lemma BIT_and: "r < 32 \<Longrightarrow> s < 32 \<Longrightarrow> BIT r AND BIT s \<noteq> 0 \<longleftrightarrow> r = s"
proof
  assume "r < 32" "s < 32" "BIT r AND BIT s \<noteq> 0"
  then obtain n where "bit (BIT r AND BIT s) n" using bit_eqI [of "BIT r AND BIT s" 0] by auto
  then show "r = s" by (auto simp: BIT_def bit_simps)
next
  assume "r < 32" "s < 32" "r = s"
  then have "bit (BIT r AND BIT s) r" by (simp add: BIT_def bit_simps)
  then show "BIT r AND BIT s \<noteq> 0" by auto
qed

lemma role_effect_use:
  assumes "role (spec i) k \<in> {R_NO, R_IU}"
  shows "idef (role_effect text i k e) = idef e" "fdef (role_effect text i k e) = fdef e"
  using assms by (auto simp: role_effect_def Let_def)

lemma effects_alu:
  assumes "known i" "insn_wf text i" "alu (i_op i) = Some g"
  shows "idef (effects text i) = (if get_byte text i 0 = 0 then 0 else BIT (get_byte text i 0))"
    and "fdef (effects text i) = 0" and "get_byte text i 0 < NUM_REGS"
proof -
  obtain s where s: "op_spec (i_op i) = Some s" "role0 s = R_ID" "role1 s \<in> {R_NO, R_IU}"
    "role2 s \<in> {R_NO, R_IU}" "role3 s \<in> {R_NO, R_IU}"
    "i_op i \<notin> {JMP, JZ3, JNZ3, LEV3, CALLT, JMPT, JMPI, CALL, CALLI, CALLN, CALLF}"
    "\<not> IS_FUSED_BR (i_op i)"
    using alu_spec [OF assms(3)] by metis
  have sp: "spec i = s" using assms(1,2) s(1) by (simp add: insn_wf_def)
  have e: "effects text i = fold (role_effect text i) [0, 1, 2, 3] no_eff"
    using s(6,7) assms(1) by (simp add: effects_def Let_def is_call_def)
  show "idef (effects text i) = (if get_byte text i 0 = 0 then 0 else BIT (get_byte text i 0))"
    "fdef (effects text i) = 0"
    using s(2-5) unfolding e by (simp_all add: role_effect_use role_effect_def [where k = 0] Let_def sp no_eff_def)
  show "get_byte text i 0 < NUM_REGS" using assms(1,2) s(2) by (simp add: insn_wf_def sp)
qed

lemma fold_single:
  assumes "distinct xs" "a \<in> set xs" "\<And>x s. x \<in> set xs \<Longrightarrow> x \<noteq> a \<Longrightarrow> F x s = s"
  shows "fold F xs s = F a s"
  using assms
proof (induction xs arbitrary: s)
  case (Cons y ys)
  have id: "fold F zs t = t" if "a \<notin> set zs" "set zs \<subseteq> set ys" for zs t
    using that Cons.prems(3) by (induction zs arbitrary: t) auto
  show ?case
  proof (cases "y = a")
    case True
    then show ?thesis using id [of ys] Cons.prems(1) by simp
  next
    case False
    then show ?thesis using Cons by simp
  qed
qed simp

definition assign_reg :: "nat \<Rightarrow> u8 \<Rightarrow> interval \<Rightarrow> facts \<Rightarrow> facts" where
  "assign_reg r x I f = fit_reg r ((kill_int r f)\<lparr>ext := (ext f)(r := x), lo := (lo f)(r := fst I),
     hi := (hi f)(r := snd I)\<rparr>)"

lemma fold_define_reg:
  assumes "idef e = (if rd = 0 then 0 else BIT rd)" "fdef e = 0" "rd < NUM_REGS"
  shows "fold (define_reg e x I) [1..<NUM_REGS] f = (if rd = 0 then f else assign_reg rd x I f)"
proof (cases "rd = 0")
  case True
  have "fold (define_reg e x I) xs f = f" for xs
    using assms True by (induction xs) (simp_all add: define_reg_def)
  then show ?thesis using True by simp
next
  case False
  have "fold (define_reg e x I) [1..<NUM_REGS] f = define_reg e x I rd f"
    using assms False
    by (intro fold_single) (auto simp: define_reg_def BIT_and)
  also have "\<dots> = assign_reg rd x I f"
    using assms False BIT_and [of rd rd] by (simp add: define_reg_def assign_reg_def Let_def)
  finally show ?thesis using False by simp
qed

lemma assign_reg_ok:
  assumes "ranges_ok f R" "copies_ok f R" "rd < NUM_REGS"
    and "ext_fits x (sint v)" "in_iv (sint v) I"
  shows "ranges_ok (assign_reg rd x I f) (R(rd := v)) \<and> copies_ok (assign_reg rd x I f) (R(rd := v))"
proof
  let ?g = "(kill_int rd f)\<lparr>ext := (ext f)(rd := x), lo := (lo f)(rd := fst I), hi := (hi f)(rd := snd I)\<rparr>"
  have "reg_ok ?g rd (sint v)" using assms(4,5) by (simp add: reg_ok_def in_iv_def)
  then have "ranges_ok ?g (R(rd := v))"
    using assms(1) unfolding ranges_ok_def by (simp add: reg_ok_def)
  then show "ranges_ok (assign_reg rd x I f) (R(rd := v))" unfolding assign_reg_def by (rule fit_ranges)
  show "copies_ok (assign_reg rd x I f) (R(rd := v))"
    using kill_int_copies [OF assms(2), of rd v] by (simp add: assign_reg_def copies_ok_def)
qed

subsection \<open>Extension facts of results\<close>

lemma sint_c_sext: "0 < n \<Longrightarrow> n \<le> 64 \<Longrightarrow> sint (c_sext n a) = signed_take_bit (n - 1) (sint a)"
  by (rule bit_eqI) (auto simp: c_sext_def bit_simps bit_sint_iff min_def)

lemma sint_c_zext:
  assumes "n < 64" shows "sint (c_zext n a) = take_bit n (uint a)"
proof -
  have "uint (c_zext n a) = take_bit n (uint a)" by (simp add: c_zext_def unsigned_take_bit_eq)
  moreover have "take_bit n (uint a) < 2 ^ 63"
    using take_bit_int_less_exp [of n "uint a"] power_increasing [of n 63 "2 :: int"] assms by linarith
  ultimately show ?thesis using sint_of_uint [of "c_zext n a"] by simp
qed

lemma c_ext_fits:
  "ext_fits 7 (sint (c_sext 8 a))" "ext_fits 6 (sint (c_sext 16 a))" "ext_fits 4 (sint (c_sext 32 a))"
  "ext_fits 62 (sint (c_zext 8 a))" "ext_fits 52 (sint (c_zext 16 a))" "ext_fits 32 (sint (c_zext 32 a))"
proof -
  have s: "- (2 ^ n) \<le> signed_take_bit n x \<and> signed_take_bit n x \<le> 2 ^ n - 1" for n and x :: int
    using signed_take_bit_int_greater_eq_minus_exp [of n x] signed_take_bit_int_less_exp [of n x] by simp
  have z: "0 \<le> take_bit n x \<and> take_bit n x \<le> 2 ^ n - 1" for n and x :: int
    using take_bit_int_less_exp [of n x] by simp
  show "ext_fits 7 (sint (c_sext 8 a))" using ext_of_range_fits [of "- 128" _ 127] s [of 7] by (simp add: sint_c_sext)
  show "ext_fits 6 (sint (c_sext 16 a))" using ext_of_range_fits [of "- 32768" _ 32767] s [of 15] by (simp add: sint_c_sext)
  show "ext_fits 4 (sint (c_sext 32 a))" using ext_of_range_fits [of INT_MIN _ INT_MAX] s [of 31] by (simp add: sint_c_sext) (simp add: limits)
  show "ext_fits 62 (sint (c_zext 8 a))" using ext_of_range_fits [of 0 _ 255] z [of 8] by (simp add: sint_c_zext)
  show "ext_fits 52 (sint (c_zext 16 a))" using ext_of_range_fits [of 0 _ 65535] z [of 16] by (simp add: sint_c_zext)
  show "ext_fits 32 (sint (c_zext 32 a))" using ext_of_range_fits [of 0 _ 4294967295] z [of 32] by (simp add: sint_c_zext)
qed

lemma ext_fits_c_bool: "ext_fits 63 (sint (c_bool x))"
  using ext_of_range_fits [of 0 "sint (c_bool x)" 1] by (cases x) simp_all

lemma alu_ext_result:
  "list_all (\<lambda>(op, g). \<forall>w a b c imm v. g w a b c imm = Inr v \<longrightarrow> ext_fits (ext_result op) (sint v))
     alu_table"
  unfolding alu_table_def list.pred_inject prod.case
  by (intro conjI TrueI;
      auto simp add: ext_result_def c_ext_fits ext_fits_c_bool Let_def split: if_split_asm)

lemma ext_result_ok:
  "alu op = Some g \<Longrightarrow> g w a b c imm = Inr v \<Longrightarrow> ext_fits (ext_result op) (sint v)"
  using alu_ext_result map_of_SomeD [of alu_table op g] unfolding alu_def list_all_iff by fastforce

text \<open>The facts about the operands of an instruction with these roles.\<close>

lemma operand_ok:
  assumes "ranges_ok f R" "insn_wf text i" "known i" "role (spec i) k \<noteq> R_NO" "k < 4"
  shows "reg_ok f (get_byte text i k) (sint (R (get_byte text i k)))"
  using assms by (simp add: ranges_ok_def insn_wf_def)

lemma insn_spec: "insn_wf text i \<Longrightarrow> known i \<Longrightarrow> op_spec (i_op i) = Some (spec i)"
  by (simp add: insn_wf_def)

text \<open>\<open>acts_as text i op\<close>: the facts may be computed as if \<open>i\<close> were \<open>op\<close>: \<open>i\<close> has the opcode, or \<open>op\<close> is
  a copy in place of an extension.\<close>

definition acts_as :: "insn \<Rightarrow> opcode \<Rightarrow> bool" where
  "acts_as i op \<longleftrightarrow> op = i_op i \<or> op = MOV3 \<and> ext_needed (i_op i) \<noteq> 0"

lemma acts_as_roles:
  assumes "acts_as i op" "insn_wf text i" "known i"
  shows "op \<noteq> LI3 \<Longrightarrow> alu op = Some g \<Longrightarrow> role (spec i) 1 = R_IU"
    and "op \<in> {DIV3, UMOD3, ADD3, SUB3, AND3, OR3, XOR3} \<Longrightarrow> role (spec i) 2 = R_IU"
proof -
  have sp: "Some (spec i) = op_spec (i_op i)" using assms by (simp add: insn_spec)
  show "role (spec i) 1 = R_IU" if "op \<noteq> LI3" "alu op = Some g"
    using assms(1) unfolding acts_as_def
  proof
    assume "op = i_op i"
    with alu_spec [OF that(2)] sp that(1) show ?thesis by fastforce
  next
    assume "op = MOV3 \<and> ext_needed (i_op i) \<noteq> 0"
    with sp show ?thesis by (auto simp: ext_needed_def op_spec_def split: if_split_asm)
  qed
  show "role (spec i) 2 = R_IU" if "op \<in> {DIV3, UMOD3, ADD3, SUB3, AND3, OR3, XOR3}"
    using assms(1) that sp unfolding acts_as_def
    by (elim disjE) (auto simp: op_spec_def)
qed

lemma result_ext_ok:
  assumes "acts_as i op" "insn_wf text i" "known i" "ranges_ok f R"
    and "alu op = Some g" "insn_value text i R g = Inr v"
  shows "ext_fits (result_ext text i op f) (sint v)"
proof -
  have e1: "ext_fits (ext f (get_byte text i 1)) (sint (R (get_byte text i 1)))" if "op \<noteq> LI3"
    using operand_ok [OF assms(4,2,3), of 1] acts_as_roles(1) [OF assms(1-3) that assms(5)]
    by (simp add: reg_ok_def)
  have e2: "ext_fits (ext f (get_byte text i 2)) (sint (R (get_byte text i 2)))"
    if "op \<in> {AND3, OR3, XOR3}"
    using operand_ok [OF assms(4,2,3), of 2] acts_as_roles(2) [OF assms(1-3)] that
    by (auto simp: reg_ok_def)
  have ei: "ext_fits (ext_of_range (sint (insn_imm text i)) (sint (insn_imm text i))) (sint (insn_imm text i))"
    by (rule ext_of_range_fits) simp_all
  consider "op = MOV3" | "op = AND3" | "op = OR3" | "op = XOR3" | "op = ANDI3" | "op = ORI3" | "op = XORI3"
    | "op = LI3" | "op \<notin> {MOV3, AND3, OR3, XOR3, ANDI3, ORI3, XORI3, LI3}" by blast
  then show ?thesis
  proof cases
    case 9
    then show ?thesis using ext_result_ok [OF assms(5)] assms(6) by (simp add: result_ext_def insn_value_def Let_def)
  qed (use e1 e2 ei assms(5,6) in
    \<open>auto simp: result_ext_def insn_value_def alu_eval sint_and ext_bitwise_ok Let_def\<close>)
qed

lemma result_range_ok:
  assumes "acts_as i op" "insn_wf text i" "known i" "ranges_ok f R"
    and "alu op = Some g" "insn_value text i R g = Inr v"
    and "result_range text i op f = Some I"
  shows "in_iv (sint v) I"
proof -
  consider (point) u where "op \<noteq> LI3" "op \<noteq> MOV3" "fold_point text i op f = Some u" "I = (sint u, sint u)"
    | (bool) "ext_result op = ext_of_range 0 1" "I = (0, 1)"
    | (iv) "interval_op op (lo f (get_byte text i 1)) (hi f (get_byte text i 1)) (lo f (get_byte text i 2))
        (hi f (get_byte text i 2)) (sint (insn_imm text i)) = Some I"
  proof (cases "if op \<noteq> LI3 \<and> op \<noteq> MOV3 then fold_point text i op f else None")
    case None
    with assms(7) have "ext_result op = ext_of_range 0 1 \<and> I = (0, 1) \<or>
      interval_op op (lo f (get_byte text i 1)) (hi f (get_byte text i 1)) (lo f (get_byte text i 2))
        (hi f (get_byte text i 2)) (sint (insn_imm text i)) = Some I"
      unfolding result_range_def Let_def by (simp split: if_split_asm)
    with that(2,3) show ?thesis by blast
  next
    case (Some u)
    with assms(7) that(1) [of u] show ?thesis
      unfolding result_range_def Let_def by (simp split: if_split_asm)
  qed
  then show ?thesis
  proof cases
    case point
    then have "op = i_op i" using assms(1) by (simp add: acts_as_def)
    with fold_point_ok [OF point(3) [unfolded \<open>op = i_op i\<close>] assms(2,4)] assms(5,6) have "u = v" by simp
    then show ?thesis using point(4) by (simp add: in_iv_def)
  next
    case bool
    have "v = 0 \<or> v = 1"
      using ext_result_bool [OF bool(1) assms(5) assms(6) [unfolded insn_value_def]] .
    then show ?thesis using bool(2) by (auto simp: in_iv_def ll_range_def limits)
  next
    case iv
    obtain l h where I: "I = (l, h)" by (cases I)
    have a: "reg_ok f (get_byte text i 1) (sint (R (get_byte text i 1)))" if "op \<noteq> LI3"
      using operand_ok [OF assms(4,2,3), of 1] acts_as_roles(1) [OF assms(1-3) that assms(5)] by simp
    have b: "reg_ok f (get_byte text i 2) (sint (R (get_byte text i 2)))" if "op \<in> {DIV3, UMOD3, ADD3, SUB3}"
      using operand_ok [OF assms(4,2,3), of 2] acts_as_roles(2) [OF assms(1-3)] that by auto
    show ?thesis
      using interval_op_ok [OF iv [unfolded I] assms(5) assms(6) [unfolded insn_value_def]] a b
      by (simp add: I in_iv_def reg_ok_def)
  qed
qed

subsection \<open>The facts after an instruction hold\<close>

lemma range_of_ext_in_iv: "ext_fits x v \<Longrightarrow> ll_range v \<Longrightarrow> in_iv v (range_of_ext x)"
  using between_range_of_ext [of x v] range_of_ext_ll [of x] by (simp add: in_iv_def between_def)

lemma record_cmp_simps [simp]:
  "ext (record_cmp text i f) = ext f" "lo (record_cmp text i f) = lo f" "hi (record_cmp text i f) = hi f"
  "icopy (record_cmp text i f) = icopy f"
  by (simp_all add: record_cmp_def Let_def split: option.splits)

lemma record_copy_simps [simp]:
  "ext (record_copy text i op I f) = ext f" "lo (record_copy text i op I f) = lo f"
  "hi (record_copy text i op I f) = hi f" "fcmp (record_copy text i op I f) = fcmp f"
  by (simp_all add: record_copy_def Let_def)

lemma record_cmp_ok:
  assumes "insn_wf text i" "known i" "alu (i_op i) = Some g" "insn_value text i R g = Inr v"
    and "get_byte text i 0 = rd" "copies_ok f (R(rd := v))"
  shows "copies_ok (record_cmp text i f) (R(rd := v))"
proof (cases "cmp_form (i_op i)")
  case (Some cf)
  let ?c = "cmp_of text i cf"
  have wf: "cmp_wf ?c" by (rule cmp_of_wf [OF Some assms(1,2)])
  have rd: "cmp_dst ?c = rd" "rd < NUM_REGS"
    using assms(5) effects_alu(3) [OF assms(2,1,3)] by (simp_all add: cmp_of_def)
  show ?thesis
  proof (cases "cmp_dst ?c = REG_ZERO \<or> cmp_dst ?c = cmp_a ?c \<or> cmp_b ?c = Some (cmp_dst ?c)")
    case True
    then show ?thesis using assms(6) Some by (simp add: record_cmp_def Let_def)
  next
    case False
    have "cmp_value ?c R = Inr v"
      using assms(3,4) Some cmp_form_alu [OF Some] by (auto simp: cmp_value_def insn_value_def cmp_of_def)
    then have "cmp_ok ?c (R(rd := v))"
      using False wf rd by (auto simp: cmp_ok_def cmp_value_upd cmp_wf_def pred_option_def)
    with assms(6) show ?thesis using Some False by (auto simp: record_cmp_def Let_def copies_ok_def)
  qed
next
  case None
  then show ?thesis using assms(6) by (simp add: record_cmp_def)
qed

lemma record_cmp_zero:
  "copies_ok f R \<Longrightarrow> get_byte text i 0 = 0 \<Longrightarrow> copies_ok (record_cmp text i f) R"
  by (simp add: record_cmp_def cmp_of_def split: option.splits)

lemma copies_upd:
  "copies_ok g R \<Longrightarrow> s < NUM_REGS \<Longrightarrow> R r = R s \<Longrightarrow> copies_ok (g\<lparr>icopy := (icopy g)(r := Some s)\<rparr>) R"
  by (auto simp: copies_ok_def)

lemma copies_fcopy: "copies_ok (g\<lparr>fcopy := c\<rparr>) R = copies_ok g R"
  by (simp add: copies_ok_def)

lemma record_copy_ok:
  assumes "copies_ok g R" "get_byte text i 0 \<noteq> 0 \<Longrightarrow> op = MOV3 \<Longrightarrow> get_byte text i 1 < NUM_REGS \<and>
      R (get_byte text i 0) = R (get_byte text i 1)"
    and "get_byte text i 0 \<noteq> 0 \<Longrightarrow> op = LI3 \<Longrightarrow> I = (0, 0) \<Longrightarrow> R (get_byte text i 0) = R 0"
  shows "copies_ok (record_copy text i op I g) R"
  using assms by (simp add: record_copy_def Let_def copies_fcopy copies_upd)

lemma facts_after_ok:
  assumes "acts_as i op" "insn_wf text i" "known i" "facts_ok f R"
    and "alu op = Some g" "insn_value text i R g = Inr v"
    and "alu (i_op i) = Some g'" "insn_value text i R g' = Inr v"
    and "get_byte text i 0 = rd"
  shows "facts_ok (facts_after text i op f) (if rd = 0 then R else R(rd := v))"
proof -
  define x I where "x = result_ext text i op f"
    and "I = (case result_range text i op f of None \<Rightarrow> range_of_ext x | Some I \<Rightarrow> I)"
  have R0: "R 0 = 0" and rng: "ranges_ok f R" and cp: "copies_ok f R"
    using assms(4) by (simp_all add: facts_ok_def)
  have x: "ext_fits x (sint v)" unfolding x_def by (rule result_ext_ok [OF assms(1-3) rng assms(5,6)])
  have I: "in_iv (sint v) I"
    using result_range_ok [OF assms(1-3) rng assms(5,6)] range_of_ext_in_iv [OF x]
    by (auto simp: I_def split: option.splits)
  have e: "idef (effects text i) = (if rd = 0 then 0 else BIT rd)" "fdef (effects text i) = 0" "rd < NUM_REGS"
    using effects_alu [OF assms(3,2,7)] assms(9) by simp_all
  define f1 where "f1 = (if rd = 0 then f else assign_reg rd x I f)"
  have fa: "facts_after text i op f = record_copy text i op I (record_cmp text i f1)"
    unfolding facts_after_def Let_def x_def [symmetric] I_def [symmetric]
    by (simp only: fold_define_reg [OF e] f1_def)
  show ?thesis
  proof (cases "rd = 0")
    case True
    then show ?thesis
      using R0 rng record_copy_ok [OF record_cmp_zero [OF cp], of "text" i "text" i op I] assms(9)
      unfolding fa by (simp add: f1_def facts_ok_def ranges_ok_def reg_ok_def)
  next
    case False
    let ?R = "R(rd := v)"
    from False assign_reg_ok [OF rng cp e(3) x I]
    have r1: "ranges_ok f1 ?R" and c1: "copies_ok f1 ?R" by (simp_all add: f1_def)
    have c2: "copies_ok (record_cmp text i f1) ?R"
      by (rule record_cmp_ok [OF assms(2,3,7,8,9) c1])
    have mov: "v = R (get_byte text i 1) \<and> get_byte text i 1 < NUM_REGS" if "op = MOV3"
      using that assms(5,6) acts_as_roles(1) [OF assms(1-3) _ assms(5)] assms(2,3)
      by (auto simp: alu_eval insn_value_def insn_wf_def)
    have li: "v = 0" if "op = LI3" "I = (0, 0)"
      using that I sint_eq_iff64 [of v 0] by (simp add: in_iv_def)
    have "copies_ok (record_copy text i op I (record_cmp text i f1)) ?R"
      by (rule record_copy_ok [OF c2]) (use mov li False R0 assms(9) in auto)
    moreover have "ranges_ok (record_copy text i op I (record_cmp text i f1)) ?R"
      using r1 by (simp add: ranges_ok_def reg_ok_def)
    ultimately show ?thesis using R0 False by (simp add: fa facts_ok_def)
  qed
qed

end
