(* ===== verification/Peep_Edit.thy ===== *)
theory Peep_Edit
  imports Peep_Transfer
begin

text \<open>
  Soundness of the forward pass's edits: every rewrite of an instruction (extension to copy, copy
  propagation, constant folding, algebraic identities, removal) leaves the same value in the
  same register.
\<close>

subsection \<open>Editing operand bytes\<close>

lemma bit_clear_set_byte:
  fixes w :: u32
  assumes "r < 256" "k < 4" "n < 32"
  shows "bit ((w AND NOT (push_bit (8 * k) 0xFF)) OR push_bit (8 * k) (of_nat r)) n =
    (if 8 * k \<le> n \<and> n < 8 * k + 8 then bit r (n - 8 * k) else bit w n)"
  using assms unfolding mask8_u32
  by (auto simp: bit_simps dest: bit_byte_lt)

lemma opnd_byte_bits:
  assumes "\<And>n. n < 8 \<Longrightarrow> bit w (8 * k + n) = bit w' (8 * k + n)" "k < 4"
  shows "opnd_byte w k = opnd_byte w' k"
proof -
  have "drop_bit (8 * k) w AND 0xFF = drop_bit (8 * k) w' AND 0xFF"
    unfolding mask8_u32 by (rule bit_word_eqI) (use assms in \<open>auto simp: bit_simps\<close>)
  then show ?thesis by (simp add: opnd_byte_def)
qed

lemma opnd_byte_set:
  assumes "r < 256" "k < 4" "j < 4"
  shows "opnd_byte ((w AND NOT (push_bit (8 * k) 0xFF)) OR push_bit (8 * k) (of_nat r)) j =
    (if j = k then r else opnd_byte w j)"
proof (cases "j = k")
  case True
  then show ?thesis
    using assms by (simp, intro opnd_byte_eqI) (simp_all add: bit_clear_set_byte del: bit_or_iff bit_and_iff)
next
  case False
  have out: "\<not> (8 * k \<le> 8 * j + n \<and> 8 * j + n < 8 * k + 8)" if "n < 8" for n
    using False that by presburger
  have "bit ((w AND NOT (push_bit (8 * k) 0xFF)) OR push_bit (8 * k) (of_nat r)) (8 * j + n) =
      bit w (8 * j + n)" if "n < 8" for n
    using bit_clear_set_byte [OF assms(1,2), of "8 * j + n" w] out [OF that] that assms(3) by simp
  from opnd_byte_bits [OF this assms(3)] False show ?thesis by simp
qed

lemma pc_neq: "(p :: u32) + 1 \<noteq> p" "p + 2 \<noteq> p" "p + 3 \<noteq> p" "p + 1 \<noteq> p + 2" "p + 1 \<noteq> p + 3" "p + 2 \<noteq> p + 3"
  by simp_all

lemma get_byte_set_byte [simp]:
  "r < 256 \<Longrightarrow> k < 4 \<Longrightarrow> j < 4 \<Longrightarrow>
     get_byte (set_byte text i k r) i j = (if j = k then r else get_byte text i j)"
  by (simp add: get_byte_def operand_def set_byte_def opnd_byte_set del: push_bit_of_Suc_0)

lemma insn_imm_edit [simp]:
  "insn_imm (set_byte text i k r) i = insn_imm text i"
  "insn_imm (text(i_pc i := x)) i = insn_imm text i"
  "insn_imm (text(i_pc i + 1 := x)) i = insn_imm text i"
  "insn_imm (cc_write_i64_at text (i_pc i + 2) v) i = v"
  by (simp_all add: insn_imm_def cc_read_i64_at_def set_byte_def cc_write_i64_at_def add.assoc)

lemma operand_edit [simp]:
  "operand (text(i_pc i := x)) i = operand text i"
  "operand (text(i_pc i + 1 := x)) i = x"
  "operand (cc_write_i64_at text (i_pc i + 2) v) i = operand text i"
  by (simp_all add: operand_def cc_write_i64_at_def add.assoc)

lemma get_byte_edit [simp]:
  "get_byte (text(i_pc i := x)) i k = get_byte text i k"
  "get_byte (cc_write_i64_at text (i_pc i + 2) v) i k = get_byte text i k"
  by (simp_all add: get_byte_def)

lemma get_byte_pc: "i_pc j = i_pc i \<Longrightarrow> get_byte text j k = get_byte text i k"
  by (simp add: get_byte_def operand_def)

lemma insn_imm_pc: "i_pc j = i_pc i \<Longrightarrow> insn_imm text j = insn_imm text i"
  by (simp add: insn_imm_def)

lemma opnd_byte_of_nat: "r < 256 \<Longrightarrow> opnd_byte (of_nat r) 0 = r"
  by (intro opnd_byte_eqI) (auto simp: bit_simps)

lemma drop16_set_byte:
  assumes "k < 2" "r < 256"
  shows "drop_bit 16 (operand (set_byte text i k r) i) = drop_bit 16 (operand text i)"
proof (rule bit_word_eqI)
  fix n assume "n < LENGTH(32)"
  show "bit (drop_bit 16 (operand (set_byte text i k r) i)) n = bit (drop_bit 16 (operand text i)) n"
  proof (cases "n < 16")
    case True
    have "\<not> 16 + n < 8 * k + 8" using assms(1) by simp
    then show ?thesis
      using bit_clear_set_byte [OF assms(2), of k "16 + n" "text (i_pc i + 1)"] assms(1) True
      unfolding operand_def set_byte_def bit_drop_bit_eq comp_def by simp
  next
    case False
    then show ?thesis by (auto simp: bit_drop_bit_eq dest!: bit_imp_le_length)
  qed
qed

subsection \<open>The operand word matters to the field extracts only\<close>

lemma alu_word:
  assumes "alu op = Some g" "op \<in> {UBFX, SBFX} \<Longrightarrow> drop_bit 16 w = drop_bit 16 w'"
  shows "g w a b c imm = g w' a b c imm"
proof (cases "op \<in> {UBFX, SBFX}")
  case True
  then have e: "drop_bit 16 w = drop_bit 16 w'" by (rule assms(2))
  then have "drop_bit 6 (drop_bit 16 w) = drop_bit 6 (drop_bit 16 w')" by simp
  then have "drop_bit 22 w = drop_bit 22 w'" by simp
  with e have "DECODE_BF_off w = DECODE_BF_off w'" "DECODE_BF_w w = DECODE_BF_w w'"
    by (simp_all add: DECODE_BF_off_def DECODE_BF_w_def)
  then show ?thesis using True assms(1) by (auto simp: alu_eval)
next
  case False
  have "list_all (\<lambda>(op, g). op \<in> {UBFX, SBFX} \<or> (\<forall>w w' a b c imm. g w a b c imm = g w' a b c imm)) alu_table"
    unfolding alu_table_def list.pred_inject prod.case by (intro conjI TrueI; simp)
  then show ?thesis
    using False map_of_SomeD [of alu_table op g] assms(1) unfolding alu_def list_all_iff by fastforce
qed

subsection \<open>Rewrites compute the same value\<close>

text \<open>\<open>gives text i R v rd\<close>: the instruction \<open>i\<close>, as it stands in the text, puts \<open>v\<close> into \<open>rd\<close>.\<close>

definition gives :: "text_words \<Rightarrow> insn \<Rightarrow> regfile \<Rightarrow> u64 \<Rightarrow> nat \<Rightarrow> bool" where
  "gives text i R v rd \<longleftrightarrow> known i \<and> insn_wf text i \<and> get_byte text i 0 = rd \<and>
     text (i_pc i) = of_nat (i_op i) \<and>
     (\<exists>g. alu (i_op i) = Some g \<and> insn_value text i R g = Inr v)"

lemma gives_cong:
  "gives text i R v rd \<Longrightarrow> i_pc j = i_pc i \<Longrightarrow> i_op j = i_op i \<Longrightarrow> known j = known i \<Longrightarrow> spec j = spec i \<Longrightarrow>
     gives text j R v rd"
  by (auto simp: gives_def insn_wf_def insn_value_def get_byte_def operand_def insn_imm_def)

lemma set_byte_at [simp]: "set_byte text i k r (i_pc i) = text (i_pc i)"
  by (simp add: set_byte_def)

lemma set_byte_pc: "i_pc j = i_pc i \<Longrightarrow> set_byte text j k r = set_byte text i k r"
  by (simp add: set_byte_def)

lemma MOV3_spec: "op_spec MOV3 = Some (SPEC R_ID R_IU R_NO R_NO True True)"
  "op_spec LI3 = Some (SPEC R_ID R_NO R_NO R_NO True False)"
  "op_spec ADDI3 = Some (SPEC R_ID R_IU R_NO R_NO True False)"
  by (simp_all add: op_spec_def)

lemma role_less4: "(\<forall>k < 4. P k) \<longleftrightarrow> P 0 \<and> P 1 \<and> P 2 \<and> P (3 :: nat)"
  by (auto simp: less_Suc_eq numeral_eq_Suc)

lemma make_mov_gives:
  assumes "known i" "get_byte text i 0 = rd" "rd < NUM_REGS" "src < NUM_REGS" "R src = v"
    and "make_mov text i src = (text', i')"
  shows "gives text' i' R v rd" "i_pc i' = i_pc i" "dead i' = dead i"
proof -
  have t: "text' = set_byte (set_byte (text(i_pc i := of_nat MOV3)) i 1 src) i 2 0"
    and i: "i' = i\<lparr>i_op := MOV3, i_size := the (cc_instr_words MOV3), spec := the (op_spec MOV3)\<rparr>"
    using assms(6) by (simp_all add: make_mov_def Let_def)
  show "i_pc i' = i_pc i" "dead i' = dead i" by (simp_all add: i)
  have b: "get_byte text' i' 0 = rd" "get_byte text' i' 1 = src"
    using assms(2-4) get_byte_pc [of i' i text'] by (simp_all add: t i)
  have "text' (i_pc i') = of_nat MOV3" by (simp add: t i set_byte_def)
  then show "gives text' i' R v rd"
    using assms b by (simp add: gives_def insn_wf_def i MOV3_spec role_less4 alu_eval insn_value_def)
qed

lemma make_imm_fields:
  assumes "make_imm_op text i op imm = (text1, i1)"
  shows "text1 = cc_write_i64_at (text(i_pc i := of_nat op)) (i_pc i + 2) imm"
    and "i_pc i1 = i_pc i" "i_op i1 = op" "known i1 = known i" "dead i1 = dead i"
    and "op_spec op = Some s \<Longrightarrow> spec i1 = s" and "text1 (i_pc i) = of_nat op"
  using assms by (auto simp: make_imm_op_def cc_write_i64_at_def add.assoc)

lemma li_gives:
  assumes "known i" "rd < NUM_REGS" "make_imm_op text i LI3 v = (text1, i1)"
  shows "gives (text1(i_pc i + 1 := of_nat rd)) i1 R v rd"
proof -
  note m = make_imm_fields [OF assms(3)]
  let ?t = "text1(i_pc i + 1 := of_nat rd)"
  have "get_byte ?t i1 0 = rd" using assms(2) m(2) by (simp add: get_byte_def operand_def opnd_byte_of_nat)
  moreover have "insn_imm ?t i1 = v"
    using m(1,2) insn_imm_pc [of i1 i ?t] by simp
  ultimately show ?thesis
    using assms m(2-7) m(6) [OF MOV3_spec(2)]
    by (simp add: gives_def insn_wf_def role_less4 alu_eval insn_value_def MOV3_spec)
qed

lemma muladdi_gives:
  assumes "gives text i R v rd" "i_op i = MULADDI3" "R (get_byte text i 2) = b"
    and "make_imm_op text i ADDI3 (b * insn_imm text i) = (text1, i1)"
  shows "gives (set_byte text1 i1 2 0) i1 R v rd"
proof -
  note m = make_imm_fields [OF assms(4)]
  have g: "known i" "insn_wf text i" "get_byte text i 0 = rd" "v = R (get_byte text i 1) + b * insn_imm text i"
    using assms(1-3) by (auto simp: gives_def alu_eval insn_value_def)
  have sp: "spec i = SPEC R_ID R_IU R_IU R_NO True False"
    using g(1,2) assms(2) by (auto simp: insn_wf_def op_spec_def)
  have b: "get_byte (set_byte text1 i1 2 0) i1 k = get_byte text i k" if "k < 2" for k
    using that m(1) by (simp add: get_byte_pc [OF m(2)] set_byte_pc [OF m(2)])
  have "insn_imm (set_byte text1 i1 2 0) i1 = b * insn_imm text i"
    using m(1) by (simp add: insn_imm_pc [OF m(2)] set_byte_pc [OF m(2)])
  then show ?thesis
    using g m(2-7) m(6) [OF MOV3_spec(3)] b [of 0] b [of 1] sp
    by (auto simp: gives_def insn_wf_def role_less4 alu_eval insn_value_def MOV3_spec set_byte_def)
qed

lemma imm_identity_ok:
  assumes "imm_identity_src op imm rs1 = Some src" "alu op = Some g" "g w (R rs1) b c imm = Inr v" "R 0 = 0"
  shows "R src = v"
  using assms by (auto simp: imm_identity_src_def alu_eval c_sar_def split: if_split_asm)

lemma shift_count_0 [simp]: "shift_count 0 = 0"
  by (simp add: shift_count_def)

lemma identity_src_ok:
  assumes "identity_src op pa pb rs1 rs2 = Some src" "alu op = Some g" "g w (R rs1) (R rs2) c imm = Inr v" "R 0 = 0"
    and a: "\<And>x. pa = Some x \<Longrightarrow> R rs1 = x" and b: "\<And>x. pb = Some x \<Longrightarrow> R rs2 = x"
  shows "R src = v \<and> src \<in> {0, rs1, rs2}"
proof -
  consider "op \<in> {ADD3, OR3, XOR3}" | "op \<in> {SUB3, SHL3, SHR3, USHR3}" | "op = MUL3" | "op = AND3"
    using assms(1) by (auto simp: identity_src_def split: if_split_asm)
  then show ?thesis
    by cases (use assms(1-4) a [of 0] a [of 1] a [of "- 1"] b [of 0] b [of 1] b [of "- 1"] in
      \<open>auto simp: identity_src_def alu_eval c_sar_def split: if_split_asm\<close>)
qed

text \<open>What \<open>fold_in_place\<close> checks first, and the ways it can end.\<close>

lemma fold_in_place_guard:
  assumes "fold_in_place text i f = (text', i', b)"
  obtains "text' = text" "i' = i"
    | "sp_pure (spec i)" "role (spec i) 0 = R_ID" "role (spec i) 1 = R_IU" "get_byte text i 0 \<noteq> REG_ZERO"
        "i_op i \<notin> {LI3, MOV3}"
proof (cases "\<not> sp_pure (spec i) \<or> role (spec i) 0 \<noteq> R_ID \<or> role (spec i) 1 \<noteq> R_IU \<or> get_byte text i 0 = REG_ZERO \<or>
    i_op i = LI3 \<or> i_op i = MOV3")
  case True
  then have "text' = text" "i' = i" using assms unfolding fold_in_place_def Let_def by simp_all
  then show ?thesis by (rule that(1))
next
  case False
  then show ?thesis by (intro that(2)) simp_all
qed

lemma fold_in_place_cases [consumes 1, case_names same li zero muladd imm ident]:
  assumes "fold_in_place text i f = (text', i', b)"
  obtains (same) "text' = text" "i' = i \<or> (\<exists>u. i' = i\<lparr>fold_v := Some u\<rparr> \<and> fold_point text i (i_op i) f = Some u)"
    | (li) u text1 where "fold_point text i (i_op i) f = Some u" "make_imm_op text i LI3 u = (text1, i')"
        "text' = text1(i_pc i + 1 := of_nat (get_byte text i 0))" "i_size i = 4"
    | (zero) "fold_point text i (i_op i) f = Some 0" "make_mov text i REG_ZERO = (text', i')"
    | (muladd) bv text1 where "i_op i = MULADDI3" "point_of f (get_byte text i 2) = Some bv"
        "make_imm_op text i ADDI3 (bv * insn_imm text i) = (text1, i')" "text' = set_byte text1 i' 2 0"
    | (imm) src where "imm_identity_src (i_op i) (insn_imm text i) (get_byte text i 1) = Some src"
        "role (spec i) 1 = R_IU"
        "text' = text \<and> i' = i\<lparr>dead := True\<rparr> \<and> src = get_byte text i 0 \<or> make_mov text i src = (text', i')"
    | (ident) src where "identity_src (i_op i) (point_of f (get_byte text i 1)) (point_of f (get_byte text i 2))
          (get_byte text i 1) (get_byte text i 2) = Some src"
        "role (spec i) 1 = R_IU" "role (spec i) 2 = R_IU" "make_mov text i src = (text', i')"
proof (cases "\<not> sp_pure (spec i) \<or> role (spec i) 0 \<noteq> R_ID \<or> role (spec i) 1 \<noteq> R_IU \<or> get_byte text i 0 = REG_ZERO \<or>
    i_op i = LI3 \<or> i_op i = MOV3")
  case True
  then show ?thesis using assms same unfolding fold_in_place_def Let_def by simp
next
  case guard: False
  note A = assms [unfolded fold_in_place_def Let_def if_not_P [OF guard]]
  show ?thesis
  proof (cases "fold_point text i (i_op i) f")
    case (Some u)
    note A = A [unfolded Some option.case]
    obtain t1 i1 where m: "make_imm_op text i LI3 u = (t1, i1)" by (meson surj_pair)
    obtain t2 i2 where z: "make_mov text i REG_ZERO = (t2, i2)" by (meson surj_pair)
    consider "i_size i = 4" | "i_size i \<noteq> 4" "u = 0" | "i_size i \<noteq> 4" "u \<noteq> 0" by blast
    then show ?thesis
    proof cases
      case 1
      with A m have "text' = t1(i_pc i + 1 := of_nat (get_byte text i 0))" "i' = i1" by simp_all
      with m 1 show ?thesis by (intro li [OF Some]) simp_all
    next
      case 2
      with A z have "text' = t2" "i' = i2" by simp_all
      with z Some 2 show ?thesis by (intro zero) simp_all
    next
      case 3
      with A Some show ?thesis by (intro same) auto
    qed
  next
    case None
    note A = A [unfolded None option.case]
    show ?thesis
    proof (cases "i_op i = MULADDI3 \<and> point_of f (get_byte text i 2) \<noteq> None")
      case True
      then obtain bv where bv: "point_of f (get_byte text i 2) = Some bv" by blast
      obtain t1 i1 where m: "make_imm_op text i ADDI3 (bv * insn_imm text i) = (t1, i1)" by (meson surj_pair)
      with A True bv have "text' = set_byte t1 i1 2 0" "i' = i1" by auto
      with m True bv show ?thesis by (intro muladd) simp_all
    next
      case False
      note A = A [unfolded if_not_P [OF False]]
      show ?thesis
      proof (cases "i_size i = 4")
        case True
        note A = A [unfolded if_P [OF True]]
        show ?thesis
        proof (cases "imm_identity_src (i_op i) (insn_imm text i) (get_byte text i 1)")
          case None
          with A show ?thesis by (intro same) simp_all
        next
          case (Some src)
          with A have "text' = text \<and> i' = i\<lparr>dead := True\<rparr> \<and> src = get_byte text i 0 \<or> make_mov text i src = (text', i')"
            by (simp split: if_split_asm prod.split_asm)
          with Some guard show ?thesis by (intro imm) simp_all
        qed
      next
        case False
        note A = A [unfolded if_not_P [OF False]]
        show ?thesis
        proof (cases "(i_size i \<noteq> 2 \<or> role (spec i) 2 \<noteq> R_IU \<or> role (spec i) 3 \<noteq> R_NO) \<or>
          identity_src (i_op i) (point_of f (get_byte text i 1)) (point_of f (get_byte text i 2))
              (get_byte text i 1) (get_byte text i 2) = None")
          case True
          with A show ?thesis by (intro same) (simp_all split: if_split_asm)
        next
          case False
          then obtain src where src: "identity_src (i_op i) (point_of f (get_byte text i 1)) (point_of f (get_byte text i 2))
              (get_byte text i 1) (get_byte text i 2) = Some src" by blast
          with A False have "make_mov text i src = (text', i')" by (simp split: prod.split_asm)
          with src guard False show ?thesis by (intro ident) simp_all
        qed
      qed
    qed
  qed
qed

lemma fold_in_place_gives:
  assumes "gives text i R v rd" "facts_ok f R" "rd \<noteq> 0" "fold_in_place text i f = (text', i', b)"
  shows "gives text' i' R v rd \<and> i_pc i' = i_pc i \<and> (dead i' \<longrightarrow> dead i \<or> R rd = v)"
proof -
  let ?op = "i_op i" and ?rs1 = "get_byte text i 1" and ?rs2 = "get_byte text i 2"
  obtain g where g: "alu ?op = Some g" "insn_value text i R g = Inr v" and k: "known i" and wf: "insn_wf text i"
    and rd: "get_byte text i 0 = rd" using assms(1) by (auto simp: gives_def)
  have rd32: "rd < NUM_REGS" using effects_alu(3) [OF k wf g(1)] rd by simp
  have R0: "R 0 = 0" and rng: "ranges_ok f R" using assms(2) by (simp_all add: facts_ok_def)
  have reg: "get_byte text i k < NUM_REGS" if "k < 4" "role (spec i) k \<noteq> R_NO" for k
    using that wf k by (simp add: insn_wf_def)
  have pt: "R (get_byte text i k) = x" if "k < 4" "role (spec i) k \<noteq> R_NO" "point_of f (get_byte text i k) = Some x" for k x
    using point_of_ok [OF that(3) rng reg [OF that(1,2)]] .
  show ?thesis
    using assms(4)
  proof (cases rule: fold_in_place_cases)
    case same
    then show ?thesis using assms(1) gives_cong [OF assms(1), of i'] by auto
  next
    case (li u t1)
    have "u = v" using fold_point_ok [OF li(1) wf rng] g by auto
    with li_gives [OF k rd32, of "text" v _ i' R] li rd make_imm_fields(2,5) [OF li(2)] show ?thesis by simp
  next
    case zero
    have "v = 0" using fold_point_ok [OF zero(1) wf rng] g by auto
    with make_mov_gives [where R = R and v = v, OF k rd rd32 _ _ zero(2)] R0 show ?thesis by simp
  next
    case (muladd bv t1)
    have "role (spec i) 2 \<noteq> R_NO" using insn_spec [OF wf k] op_spec_muladd(1) muladd(1) by simp
    then have "R ?rs2 = bv" using pt [of 2 bv] muladd(2) by simp
    from muladdi_gives [OF assms(1) muladd(1) this muladd(3)] muladd(4) make_imm_fields(2,5) [OF muladd(3)]
    show ?thesis by simp
  next
    case (imm src)
    have "R src = v" using imm_identity_ok [where R = R, OF imm(1) g(1) _ R0] g(2) by (simp add: insn_value_def)
    moreover have "src < NUM_REGS"
      using imm(1,2) reg [of 1] by (auto simp: imm_identity_src_def split: if_split_asm)
    ultimately show ?thesis
      using imm(3) rd make_mov_gives [OF k rd rd32, of src R v text' i'] gives_cong [OF assms(1), of i'] by auto
  next
    case (ident src)
    have "R src = v \<and> src \<in> {0, ?rs1, ?rs2}"
      by (rule identity_src_ok [where R = R, OF ident(1) g(1) _ R0]) (use g(2) pt [of 1] pt [of 2] ident(2,3) in \<open>auto simp: insn_value_def\<close>)
    then show ?thesis
      using make_mov_gives [where R = R and v = v, OF k rd rd32 _ _ ident(4)] reg [of 1] reg [of 2] ident(2,3) by auto
  qed
qed

lemma copy_byte_value:
  assumes "gives text i R v rd" "copies_ok f R" "k < 4" "copy_byte f promoted i k (text, ch) = (text', ch')"
  shows "gives text' i R v rd"
proof -
  obtain g where g: "alu (i_op i) = Some g" "insn_value text i R g = Inr v" and k: "known i" and wf: "insn_wf text i"
    and rd: "get_byte text i 0 = rd" and at: "text (i_pc i) = of_nat (i_op i)"
    using assms(1) by (auto simp: gives_def)
  obtain s0 where sp: "spec i = s0" "op_spec (i_op i) = Some s0" "role0 s0 = R_ID"
    "role1 s0 \<in> {R_NO, R_IU}" "role2 s0 \<in> {R_NO, R_IU}" "role3 s0 \<in> {R_NO, R_IU}"
    using alu_spec [OF g(1)] insn_spec [OF wf k] by (metis option.inject)
  have roles: "role (spec i) j \<in> {R_ID, R_NO, R_IU}" "j = 0 \<Longrightarrow> role (spec i) j = R_ID" if "j < 4" for j
  proof -
    have "j = 0 \<or> j = 1 \<or> j = 2 \<or> j = 3" using that by auto
    then show "role (spec i) j \<in> {R_ID, R_NO, R_IU}" "j = 0 \<Longrightarrow> role (spec i) j = R_ID" using sp by auto
  qed
  show ?thesis
  proof (cases "role (spec i) k = R_IU \<and> (\<exists>s. icopy f (get_byte text i k) = Some s) \<and> text' \<noteq> text")
    case False
    then have "text' = text" using assms(4) roles(1) [OF assms(3)]
      by (auto simp: copy_byte_def Let_def split: option.splits if_split_asm role.splits)
    with assms(1) show ?thesis by simp
  next
    case True
    then obtain s where s: "icopy f (get_byte text i k) = Some s" and t: "text' = set_byte text i k s"
      using assms(4) by (auto simp: copy_byte_def Let_def split: if_split_asm)
    have s32: "s < NUM_REGS" and eq: "R (get_byte text i k) = R s"
      using assms(2) s by (auto simp: copies_ok_def)
    have k0: "k \<noteq> 0" using True roles(2) [OF assms(3)] by auto
    have b: "get_byte text' i j = (if j = k then s else get_byte text i j)" if "j < 4" for j
      using that s32 assms(3) by (simp add: t)
    have R: "R (get_byte text' i j) = R (get_byte text i j)" if "j < 4" for j
      using b [OF that] eq by simp
    have "insn_value text' i R g = insn_value text i R g"
    proof -
      have "drop_bit 16 (operand text' i) = drop_bit 16 (operand text i)" if "i_op i \<in> {UBFX, SBFX}"
      proof -
        have "role2 s0 = R_NO \<and> role3 s0 = R_NO" using that sp(2) by (auto simp: op_spec_def)
        then have "k \<noteq> 2" "k \<noteq> 3" using True sp(1) by auto
        with assms(3) have "k < 2" by simp
        then show ?thesis using drop16_set_byte [of k s] s32 by (simp add: t)
      qed
      from alu_word [OF g(1) this] R [of 1] R [of 2] R [of 3] show ?thesis
        by (simp add: insn_value_def) (simp add: t)
    qed
    moreover have "insn_wf text' i" using wf b s32 by (auto simp: insn_wf_def)
    ultimately show ?thesis using g k rd at b [of 0] k0 by (auto simp: gives_def t)
  qed
qed

lemma copy_prop_gives:
  assumes "gives text i R v rd" "copies_ok f R" "set ks \<subseteq> {0, 1, 2, 3}"
    and "fold (copy_byte f promoted i) ks (text, ch) = (text', ch')"
  shows "gives text' i R v rd"
  using assms
proof (induction ks arbitrary: "text" ch)
  case (Cons k ks)
  obtain t c where c: "copy_byte f promoted i k (text, ch) = (t, c)" by (meson surj_pair)
  have "gives t i R v rd" by (rule copy_byte_value [OF Cons.prems(1,2) _ c]) (use Cons.prems(3) in auto)
  with Cons.IH [OF this Cons.prems(2)] Cons.prems(3,4) c show ?case by simp
qed simp

text \<open>An extension of a value that fits is the value.\<close>

lemma ext_needed_id:
  assumes "x AND ext_needed op \<noteq> 0" "ext_fits x (sint a)" "alu op = Some g" "g w a b c imm = Inr v"
  shows "v = a"
proof -
  have sx: "c_sext (Suc n) a = a" if "signed_take_bit n (sint a) = sint a" "n < 64" for n
    using sint_c_sext [of "Suc n" a] that sint_eq_iff64 by (metis Suc_leI diff_Suc_1 zero_less_Suc)
  have zx: "c_zext n a = a" if "take_bit n (sint a) = sint a" "n < 64" for n
  proof -
    have "0 \<le> sint a" using that(1) by (metis take_bit_nonnegative)
    then show ?thesis using sint_c_zext [OF that(2), of a] that(1) uint_sint_nonneg [of a] sint_eq_iff64
      by metis
  qed
  have "op \<in> {SX1, SX2, SX4, ZX1, ZX2, ZX4}" using assms(1) by (auto simp: ext_needed_def split: if_split_asm)
  then show ?thesis
    using assms sx [of 7] sx [of 15] sx [of 31] zx [of 8] zx [of 16] zx [of 32]
    by (auto simp: ext_needed_def alu_eval X_and ext_fits_take_bit)
qed

text \<open>The state of a round: text, instruction and facts.\<close>

definition round_ok :: "fwd \<Rightarrow> regfile \<Rightarrow> u64 \<Rightarrow> nat \<Rightarrow> bool" where
  "round_ok s R v rd \<longleftrightarrow> gives (w_text s) (w_insn s) R v rd \<and> facts_ok (w_facts s) R"

lemma forward_ext_ok:
  assumes "round_ok s R v rd" "rd \<noteq> 0" "\<not> dead (w_insn s)" "forward_ext rewrite s = (s', r)"
  shows "round_ok s' R v rd \<and> i_pc (w_insn s') = i_pc (w_insn s) \<and>
    (r = None \<longrightarrow> v = R rd) \<and> (r \<noteq> None \<longrightarrow> \<not> dead (w_insn s')) \<and>
    (\<forall>op. r = Some op \<longrightarrow> acts_as (w_insn s') op \<and>
      (\<exists>g. alu op = Some g \<and> insn_value (w_text s') (w_insn s') R g = Inr v) \<and>
      (rewrite \<longrightarrow> op = i_op (w_insn s')))"
proof -
  let ?i = "w_insn s" and ?t = "w_text s" and ?f = "w_facts s"
  let ?rs = "get_byte ?t ?i 1"
  obtain g where g: "alu (i_op ?i) = Some g" "insn_value ?t ?i R g = Inr v" and k: "known ?i" and wf: "insn_wf ?t ?i"
    and rd: "get_byte ?t ?i 0 = rd" and gv: "gives ?t ?i R v rd" and f: "facts_ok ?f R"
    using assms(1) by (auto simp: round_ok_def gives_def)
  show ?thesis
  proof (cases "ext_needed (i_op ?i) = 0 \<or> ext ?f ?rs AND ext_needed (i_op ?i) = 0")
    case True
    then have "r = Some (i_op ?i)" "s' = s \<or> s' = s\<lparr>w_insn := ?i\<lparr>src_ext := ext ?f ?rs\<rparr>\<rparr>"
      using assms(4) by (auto simp: forward_ext_def Let_def split: if_split_asm)
    moreover have "gives ?t (?i\<lparr>src_ext := x\<rparr>) R v rd" for x by (rule gives_cong [OF gv]) simp_all
    ultimately show ?thesis using assms(1,3) gv f g
      by (auto simp: round_ok_def acts_as_def gives_def)
  next
    case False
    have ne: "i_op ?i \<noteq> LI3" using False by (auto simp: ext_needed_def)
    have rs: "?rs < NUM_REGS" "role (spec ?i) 1 = R_IU"
      using acts_as_roles(1) [of ?i "i_op ?i" ?t g] wf k g(1) ne by (auto simp: acts_as_def insn_wf_def)
    have "reg_ok ?f ?rs (sint (R ?rs))" using f rs(1) by (simp add: facts_ok_def ranges_ok_def)
    then have v: "v = R ?rs" using ext_needed_id [of "ext ?f ?rs" "i_op ?i"] False g by (simp add: reg_ok_def insn_value_def)
    have as: "acts_as ?i MOV3" using False by (simp add: acts_as_def)
    have mov: "alu MOV3 = Some (\<lambda>w a b c imm. Inr a)" by (simp add: alu_eval)
    show ?thesis
    proof (cases "rd = ?rs")
      case True
      then have "r = None" "gives (w_text s') (w_insn s') R v rd" "w_facts s' = ?f" "i_pc (w_insn s') = i_pc ?i"
        using assms(4) False rd gv gives_cong [OF gv, of "?i\<lparr>dead := True\<rparr>"]
        by (auto simp: forward_ext_def Let_def)
      then show ?thesis using True v f by (simp add: round_ok_def)
    next
      case ne2: False
      show ?thesis
      proof (cases rewrite)
        case True
        then have r: "r = Some MOV3" and s': "w_text s' = ?t(i_pc ?i := of_nat MOV3)"
          "w_insn s' = ?i\<lparr>i_op := MOV3, spec := the (op_spec MOV3)\<rparr>" "w_facts s' = ?f"
          using assms(4) False rd ne2 by (auto simp: forward_ext_def Let_def)
        have b: "get_byte (w_text s') (w_insn s') j = get_byte ?t ?i j" for j
          using get_byte_pc [of "w_insn s'" ?i] by (simp add: s')
        have "rd < NUM_REGS" using effects_alu(3) [OF k wf g(1)] rd by simp
        then have gv': "gives (w_text s') (w_insn s') R v rd"
          using k rd rs v b by (simp add: gives_def insn_wf_def role_less4 insn_value_def mov s'(2) MOV3_spec) (simp add: s'(1))
        then show ?thesis using r s' f assms(3) by (auto simp: round_ok_def acts_as_def gives_def)
      next
        case nr: False
        then have "r = Some MOV3" "s' = s" using assms(4) False rd ne2 by (auto simp: forward_ext_def Let_def)
        then show ?thesis using as mov v assms(1,3) nr by (auto simp: insn_value_def)
      qed
    qed
  qed
qed

lemma forward_rewrite_ok:
  assumes "round_ok s R v rd" "rd \<noteq> 0" "\<not> dead (w_insn s)"
  shows "round_ok (forward_rewrite promoted s) R v rd \<and>
    i_pc (w_insn (forward_rewrite promoted s)) = i_pc (w_insn s) \<and>
    (dead (w_insn (forward_rewrite promoted s)) \<longrightarrow> R rd = v)"
proof -
  obtain t1 c1 where c: "fold (copy_byte (w_facts s) promoted (w_insn s)) [0, 1, 2, 3] (w_text s, w_changed s) = (t1, c1)"
    by (meson surj_pair)
  obtain t2 i2 b where b: "fold_in_place t1 ((w_insn s)\<lparr>fold_v := None\<rparr>) (w_facts s) = (t2, i2, b)"
    by (meson prod_cases3)
  have gv: "gives (w_text s) (w_insn s) R v rd" and f: "facts_ok (w_facts s) R"
    using assms(1) by (simp_all add: round_ok_def)
  have "gives t1 (w_insn s) R v rd"
    by (rule copy_prop_gives [OF gv _ _ c]) (use f in \<open>auto simp: facts_ok_def\<close>)
  then have "gives t1 ((w_insn s)\<lparr>fold_v := None\<rparr>) R v rd" by (rule gives_cong) simp_all
  note G = fold_in_place_gives [OF this f assms(2) b]
  have "forward_rewrite promoted s = s\<lparr>w_text := t2, w_insn := i2, w_changed := c1 \<or> b\<rparr>"
    by (simp only: forward_rewrite_def c b Let_def prod.case)
  with G assms(3) f show ?thesis by (simp add: round_ok_def)
qed

lemma facts_after_gives:
  assumes "gives text i R v rd" "facts_ok f R" "rd \<noteq> 0" "acts_as i op"
    and "alu op = Some g" "insn_value text i R g = Inr v"
  shows "facts_ok (facts_after text i op f) (R(rd := v))"
  using assms facts_after_ok [OF assms(4) _ _ assms(2,5,6)] by (auto simp: gives_def)

lemma alu_FMOV3: "alu FMOV3 = None"
  unfolding alu_def alu_table_def by (rule map_of_nil | rule map_of_tl, simp)+

lemma forward_insn_ok:
  fixes s :: fwd and seed :: "nat \<Rightarrow> u8" and promoted :: u32 and rewrite :: bool
  assumes "round_ok s R v rd" "rd \<noteq> 0" "\<not> dead (w_insn s)"
  defines "s' \<equiv> forward_insn seed promoted rewrite s"
  shows "gives (w_text s') (w_insn s') R v rd \<and> facts_ok (w_facts s') (R(rd := v)) \<and>
    i_pc (w_insn s') = i_pc (w_insn s) \<and> (dead (w_insn s') \<longrightarrow> R rd = v)"
proof -
  let ?i = "w_insn s" and ?t = "w_text s" and ?f = "w_facts s"
  have gv: "gives ?t ?i R v rd" and f: "facts_ok ?f R" using assms(1) by (simp_all add: round_ok_def)
  then obtain g where g: "alu (i_op ?i) = Some g" "insn_value ?t ?i R g = Inr v" and k: "known ?i"
    and rd: "get_byte ?t ?i 0 = rd" by (auto simp: gives_def)
  have same: "facts_ok ?f (R(rd := v))" if "v = R rd" using f that by (simp add: fun_upd_idem)
  show ?thesis
  proof (cases "(i_op ?i = MOV3 \<or> i_op ?i = FMOV3) \<and> get_byte ?t ?i 0 = get_byte ?t ?i 1")
    case True
    have "i_op ?i \<noteq> FMOV3" using g(1) alu_FMOV3 by auto
    with True g rd have v: "v = R rd" by (auto simp: alu_eval insn_value_def)
    have "s' = (if rewrite then s\<lparr>w_insn := ?i\<lparr>dead := True\<rparr>, w_changed := True\<rparr> else s)"
      using True assms(3) by (simp add: s'_def forward_insn_def Let_def)
    then show ?thesis
      using same [OF v] v gv gives_cong [OF gv, of "?i\<lparr>dead := True\<rparr>"] by (auto split: if_split_asm)
  next
    case False
    obtain s1 r where e: "forward_ext rewrite s = (s1, r)" by (meson surj_pair)
    note E = forward_ext_ok [OF assms(1-3) e]
    have s': "s' = (case (s1, r) of (s1, None) \<Rightarrow> s1 | (s1, Some op) \<Rightarrow>
        let s2 = (if rewrite then forward_rewrite promoted s1 else s1);
            op2 = (if rewrite then i_op (w_insn s2) else op)
        in s2\<lparr>w_facts := facts_after (w_text s2) (w_insn s2) op2 (w_facts s2)\<rparr>)"
      unfolding s'_def forward_insn_def Let_def if_not_P [OF assms(3)] if_not_P [OF False]
      using k e by simp
    show ?thesis
    proof (cases r)
      case None
      with E have v: "v = R rd" and r1: "round_ok s1 R v rd" by auto
      have "facts_ok (w_facts s1) (R(rd := v))" using r1 v by (simp add: round_ok_def fun_upd_idem)
      with E None s' r1 v show ?thesis by (simp add: round_ok_def)
    next
      case (Some op)
      show ?thesis
      proof (cases rewrite)
        case True
        have d: "\<not> dead (w_insn s1)" and r1: "round_ok s1 R v rd" using E Some by auto
        define s2 where "s2 = forward_rewrite promoted s1"
        note F = forward_rewrite_ok [OF r1 assms(2) d, of promoted, folded s2_def]
        then have g2: "gives (w_text s2) (w_insn s2) R v rd" and f2: "facts_ok (w_facts s2) R"
          by (simp_all add: round_ok_def)
        then obtain g' where "alu (i_op (w_insn s2)) = Some g'" "insn_value (w_text s2) (w_insn s2) R g' = Inr v"
          by (auto simp: gives_def)
        from facts_after_gives [OF g2 f2 assms(2) _ this] F E g2
        show ?thesis by (simp add: s' Some True s2_def [symmetric] Let_def acts_as_def)
      next
        case False
        have r1: "round_ok s1 R v rd" and as: "acts_as (w_insn s1) op"
          and "\<exists>g. alu op = Some g \<and> insn_value (w_text s1) (w_insn s1) R g = Inr v" using E Some by auto
        then obtain g1 where g1: "alu op = Some g1" "insn_value (w_text s1) (w_insn s1) R g1 = Inr v" by blast
        have "gives (w_text s1) (w_insn s1) R v rd" "facts_ok (w_facts s1) R" using r1 by (simp_all add: round_ok_def)
        from facts_after_gives [OF this assms(2) as g1] this E Some False
        show ?thesis by (simp add: s' Let_def)
      qed
    qed
  qed
qed

subsection \<open>A rewritten instruction on the machine\<close>

lemma alu_small: "alu op = Some g \<Longrightarrow> op < 400"
proof -
  have "list_all (\<lambda>(op, g). op < 400) alu_table"
    unfolding alu_table_def list.pred_inject prod.case by simp
  then show "alu op = Some g \<Longrightarrow> op < 400"
    using map_of_SomeD [of alu_table op g] unfolding alu_def list_all_iff by fastforce
qed

lemma alu_value_insn:
  "pc vm = i_pc i + 1 \<Longrightarrow> alu_value g vm = insn_value (text_seg vm) i (regs vm) g"
  by (simp add: alu_value_def insn_value_def get_byte_def operand_def insn_imm_def Let_def add.assoc)

lemma alu_handler_regs:
  assumes "gives (text_seg vm) i (regs vm) v rd" "rd \<noteq> 0" "pc vm = i_pc i + 1"
  obtains h vm1 where "op_table hl cm (i_op i) = Some h" "h vm = Inr vm1"
    "regs vm1 = (regs vm)(rd := v)" "mem vm1 = mem vm"
proof -
  obtain g where g: "alu (i_op i) = Some g" "insn_value (text_seg vm) i (regs vm) g = Inr v"
    using assms(1) by (auto simp: gives_def)
  obtain h where h: "op_table hl cm (i_op i) = Some h" by (rule alu_refines [OF g(1), of hl cm])
  have rd: "opnd_byte (text_seg vm (pc vm)) 0 = rd"
    using assms(1,3) by (simp add: gives_def get_byte_def operand_def)
  then have "h vm = alu_step (operand_words ! i_op i) g vm"
    using alu_handler_step [OF g(1) h] assms(2) by simp
  moreover have "alu_value g vm = Inr v" using alu_value_insn [OF assms(3)] g(2) by simp
  ultimately have "h vm = Inr (vm\<lparr>pc := pc vm + of_nat (operand_words ! i_op i), regs := (regs vm)(rd := v)\<rparr>)"
    by (simp add: alu_step_def Let_def rd)
  with h that show ?thesis by simp
qed

text \<open>
  C7: The forward pass changes no result. Take a machine about to run the
  operands of an instruction whose destination is not the zero register, with registers that
  satisfy the facts the pass has there. If the instruction ends normally, then the facts the pass
  computes for the next instruction hold of the registers it leaves; and after the pass has
  rewritten it, either the instruction is gone and had left the registers as they were, or the
  rewritten instruction, run from the same machine on the rewritten text, leaves the same
  registers and the same memory.
\<close>

theorem forward_pass_preserves:
  fixes vm vm1 :: vm and i :: insn and f :: facts and seed :: "nat \<Rightarrow> u8" and promoted :: u32
  defines "s' \<equiv> forward_insn seed promoted True
     \<lparr>w_text = text_seg vm, w_insn = i, w_facts = f, w_changed = False\<rparr>"
  assumes "known i" "insn_wf (text_seg vm) i" "\<not> dead i" "text_seg vm (i_pc i) = of_nat (i_op i)"
    and "pc vm = i_pc i + 1" "get_byte (text_seg vm) i 0 \<noteq> REG_ZERO" "facts_ok f (regs vm)"
    and "alu (i_op i) \<noteq> None" "op_table hl cm (i_op i) = Some h" "h vm = Inr vm1"
  shows "facts_ok (w_facts s') (regs vm1) \<and>
    (if dead (w_insn s') then regs vm1 = regs vm
     else \<exists>h' vm2. op_table hl cm (unat (w_text s' (i_pc i))) = Some h' \<and>
       h' (vm\<lparr>text_seg := w_text s'\<rparr>) = Inr vm2 \<and> regs vm2 = regs vm1 \<and> mem vm2 = mem vm1)"
proof -
  define rd where "rd = get_byte (text_seg vm) i 0"
  obtain g where g: "alu (i_op i) = Some g" using assms(9) by blast
  have "opnd_byte (text_seg vm (pc vm)) 0 \<noteq> REG_ZERO" using assms(6,7) by (simp add: get_byte_def operand_def)
  note step = alu_handler_step [OF g assms(10) this]
  then obtain v where "alu_value g vm = Inr v"
    using assms(11) by (cases "alu_value g vm") (auto simp: alu_step_def Let_def)
  then have gv: "gives (text_seg vm) i (regs vm) v rd"
    using assms(2,3,5,6) g by (simp add: gives_def rd_def alu_value_insn [of vm i])
  have rd0: "rd \<noteq> 0" using assms(7) by (simp add: rd_def)
  obtain vm1' where "h vm = Inr vm1'" and r1': "regs vm1' = (regs vm)(rd := v)" "mem vm1' = mem vm"
    using alu_handler_regs [OF gv rd0 assms(6), of hl cm] assms(10) by (metis option.inject)
  then have r1: "regs vm1 = (regs vm)(rd := v)" "mem vm1 = mem vm" using assms(11) by auto
  let ?s = "\<lparr>w_text = text_seg vm, w_insn = i, w_facts = f, w_changed = False\<rparr>"
  have "round_ok ?s (regs vm) v rd" using gv assms(8) by (simp add: round_ok_def)
  from forward_insn_ok [OF this rd0, of seed promoted True] assms(4)
  have G: "gives (w_text s') (w_insn s') (regs vm) v rd" and F: "facts_ok (w_facts s') ((regs vm)(rd := v))"
    and P: "i_pc (w_insn s') = i_pc i" and D: "dead (w_insn s') \<longrightarrow> regs vm rd = v" by (simp_all add: s'_def)
  have "\<exists>h' vm2. op_table hl cm (unat (w_text s' (i_pc i))) = Some h' \<and>
       h' (vm\<lparr>text_seg := w_text s'\<rparr>) = Inr vm2 \<and> regs vm2 = regs vm1 \<and> mem vm2 = mem vm1"
  proof -
    let ?vm = "vm\<lparr>text_seg := w_text s'\<rparr>"
    obtain h' vm2 where "op_table hl cm (i_op (w_insn s')) = Some h'" "h' ?vm = Inr vm2"
      "regs vm2 = (regs vm)(rd := v)" "mem vm2 = mem vm"
      using alu_handler_regs [of ?vm "w_insn s'" v rd hl cm] G P rd0 assms(6) by auto
    moreover have "unat (w_text s' (i_pc i)) = i_op (w_insn s')"
    proof -
      have "i_op (w_insn s') < 400" using G alu_small by (auto simp: gives_def)
      then show ?thesis using G P by (simp add: gives_def unsigned_of_nat take_bit_nat_eq_self)
    qed
    ultimately show ?thesis using r1 by auto
  qed
  then show ?thesis using F D r1 by (auto simp: fun_upd_idem)
qed

text \<open>An addition of zero, decoded at word 0, in a machine with one nonzero register.\<close>

definition addi_text :: "u32 \<Rightarrow> u32" where
  "addi_text = (\<lambda>_. 0)(0 := of_nat ADDI3, 1 := ENCODE_RR 10 11)"

definition addi_vm :: vm where
  "addi_vm = (blank_vm addi_text)\<lparr>pc := 1, regs := (\<lambda>_. 0)(11 := 3)\<rparr>"

definition addi_insn :: insn where
  "addi_insn = decode_insn addi_text 0 4"

lemma addi_insn_simps:
  "i_op addi_insn = ADDI3" "i_pc addi_insn = 0" "known addi_insn" "\<not> dead addi_insn"
  "spec addi_insn = SPEC R_ID R_IU R_NO R_NO True False" "i_size addi_insn = 4"
  "get_byte addi_text addi_insn 0 = 10" "get_byte addi_text addi_insn 1 = 11" "insn_imm addi_text addi_insn = 0"
proof -
  have b: "opnd_byte (ENCODE_RR 10 11) 0 = 10" "opnd_byte (ENCODE_RR 10 11) 1 = 11"
    by (simp_all add: opnd_byte_ENCODE_RR opnd_byte_ENCODE_RR(2) [unfolded One_nat_def])
  have sp: "op_spec ADDI3 = Some (SPEC R_ID R_IU R_NO R_NO True False)" by (fact MOV3_spec(3))
  show "i_op addi_insn = ADDI3" "i_pc addi_insn = 0" "known addi_insn" "\<not> dead addi_insn"
    "spec addi_insn = SPEC R_ID R_IU R_NO R_NO True False" "i_size addi_insn = 4"
    "get_byte addi_text addi_insn 0 = 10" "get_byte addi_text addi_insn 1 = 11" "insn_imm addi_text addi_insn = 0"
    using b by (simp_all add: addi_insn_def decode_insn_def addi_text_def sp get_byte_def operand_def insn_imm_def
        cc_read_i64_at_def cc_make_u64_def)
qed

theorem forward_pass_preserves_witness:
  "let s' = forward_insn (\<lambda>_. 0) 0 True
      \<lparr>w_text = addi_text, w_insn = addi_insn, w_facts = facts_reset (\<lambda>_. 0), w_changed = False\<rparr>
   in facts_ok (w_facts s') ((\<lambda>_. 0)(11 := 3, 10 := 3))"
proof -
  have wf: "insn_wf (text_seg addi_vm) addi_insn"
    by (simp add: insn_wf_def addi_vm_def blank_vm_def addi_insn_simps MOV3_spec role_less4)
      (simp add: addi_insn_simps [simplified])
  have ok: "facts_ok (facts_reset (\<lambda>_. 0)) (regs addi_vm)"
    by (rule facts_reset_ok) (simp add: seed_ok_def addi_vm_def)
  have alu: "alu (i_op addi_insn) \<noteq> None" by (simp add: addi_insn_simps alu_eval)
  have tab: "op_table (\<lambda>_ _. 0) (\<lambda>_ _ _. True) (i_op addi_insn) = Some op_ADDI3_fn"
    by (simp add: addi_insn_simps op_table_alu)
  have run: "op_ADDI3_fn addi_vm = Inr (addi_vm\<lparr>pc := 4, regs := (\<lambda>_. 0)(11 := 3, 10 := 3)\<rparr>)"
    using addi_insn_simps(7,8,9)
    by (simp add: op_ADDI3_fn_def rri_op_def read_eqs addi_vm_def blank_vm_def set_reg_def
        get_byte_def operand_def insn_imm_def addi_insn_simps)
  from forward_pass_preserves [OF _ wf _ _ _ _ ok alu tab run, of "\<lambda>_. 0" 0]
  show ?thesis
    by (simp add: addi_insn_simps addi_vm_def blank_vm_def addi_text_def [THEN fun_cong])
qed

end
