(* ===== verification/Peep_Live.thy ===== *)
theory Peep_Live
  imports Peep_Edit
begin

text \<open>
  Liveness (\<open>src/src/codegen_peep.c\<close>, lines 667 to 704): \<open>step_back\<close>, and its soundness against the
  handlers. Two machines that agree on the registers live before an instruction take the same
  step: the same fault, or machines that differ in dead registers only. Removing a pure
  instruction whose result is dead rests on it.
\<close>

definition step_back :: "text_words \<Rightarrow> insn \<Rightarrow> u32 \<times> u32 \<Rightarrow> u32 \<times> u32" where
  "step_back text i live =
     (let e = effects text i
      in ((fst live AND NOT (idef e)) OR iuse e, (snd live AND NOT (fdef e)) OR fuse e))"

subsection \<open>Machines that agree on some registers\<close>

definition agree :: "nat set \<Rightarrow> vm \<Rightarrow> vm \<Rightarrow> bool" where
  "agree L vm vm' \<longleftrightarrow> vm' = vm\<lparr>regs := regs vm'\<rparr> \<and> (\<forall>r \<in> L. regs vm' r = regs vm r)"

fun agree_step :: "nat set \<Rightarrow> step \<Rightarrow> step \<Rightarrow> bool" where
  "agree_step L (Inr vm) (Inr vm') = agree L vm vm'"
| "agree_step L (Inl (e, vm)) (Inl (e', vm')) = (e = e')"
| "agree_step L _ _ = False"

lemma agree_mono: "agree L vm vm' \<Longrightarrow> M \<subseteq> L \<Longrightarrow> agree M vm vm'"
  by (auto simp: agree_def)

lemma agree_step_mono: "agree_step L s s' \<Longrightarrow> M \<subseteq> L \<Longrightarrow> agree_step M s s'"
  by (induction L s s' rule: agree_step.induct) (auto intro: agree_mono)

text \<open>\<open>uses ks h\<close>: the handler's outcome depends on the registers its operand bytes \<open>ks\<close> name and on
  no other, and it changes no register but the one byte 0 names.\<close>

definition uses :: "nat list \<Rightarrow> (vm \<Rightarrow> step) \<Rightarrow> bool" where
  "uses ks h \<longleftrightarrow>
     (\<forall>vm R L. let w = text_seg vm (pc vm)
        in R REG_ZERO = regs vm REG_ZERO \<longrightarrow> (\<forall>k \<in> set ks. R (opnd_byte w k) = regs vm (opnd_byte w k)) \<longrightarrow>
           (\<forall>r \<in> L. R r = regs vm r) \<longrightarrow>
           agree_step (insert (opnd_byte w 0) L) (h vm) (h (vm\<lparr>regs := R\<rparr>)))"

lemma contain_regs [simp]:
  "cccc_comptime_addr_ok hl (vm\<lparr>regs := R\<rparr>) p n wr = cccc_comptime_addr_ok hl vm p n wr"
  by (simp add: cccc_comptime_addr_ok_def comptime_region_left_def comptime_vm_region_left_def
      comptime_regions_def)

lemmas uses_defs = uses_def agree_def read_eqs set_reg_def put_reg_def COMPTIME_CONTAIN_def

lemma uses_skeletons [simp]:
  "uses [Suc 0, 2] (rrr_op f)" "uses [Suc 0] (rr_op g)" "uses [Suc 0] (rri_op f)"
  "uses [Suc 0, 2] (rrr_op_raw f)" "uses [Suc 0] (rr_op_raw g)" "uses [Suc 0] (rri_op_raw f)"
  "uses [Suc 0] (shift_imm_op s)" "uses [Suc 0] (wrap_shl_op g)"
  by (auto simp: uses_defs skeleton_defs shift_imm_op_def wrap_shl_op_def)

lemma uses_memory [simp]:
  "uses [Suc 0] (load_op n ld hl)" "uses [0, Suc 0] (store_op n st hl)"
  "uses [Suc 0, 2] (index_load_op n ld hl)" "uses [0, Suc 0, 2] (index_store_op n st hl)"
  "uses [] (local_load_op ld)" "uses [0] (local_store_op st)"
  by (auto simp: uses_defs load_op_def store_op_def index_load_op_def index_store_op_def
      local_load_op_def local_store_op_def op_index_addr_def local_addr_def)

lemma uses_singles [simp]:
  "uses [Suc 0, 2] op_DIV3_fn" "uses [Suc 0, 2] op_MOD3_fn" "uses [Suc 0, 2] op_UDIV3_fn"
  "uses [Suc 0, 2] op_UMOD3_fn" "uses [] op_LI3_fn" "uses [] op_LDA3_fn" "uses [] op_LEA3_fn"
  "uses [Suc 0, 2, 3] op_MULADD3_fn" "uses [Suc 0, 2] op_MULADDI3_fn" "uses [Suc 0] op_UBFX_fn"
  "uses [Suc 0] op_SBFX_fn" "uses [Suc 0, 2] op_BFI_fn"
  by (auto simp: uses_defs op_DIV3_fn_eq op_MOD3_fn_def op_UDIV3_fn_def op_UMOD3_fn_def op_LI3_fn_def
      op_LDA3_fn_def op_LEA3_fn_def local_addr_def op_MULADD3_fn_def op_MULADDI3_fn_def op_UBFX_fn_def op_SBFX_fn_def op_BFI_fn_def)

text \<open>Every known instruction of the handler table uses what \<open>op_spec\<close> says it uses.\<close>

definition use_list :: "op_spec \<Rightarrow> nat list" where
  "use_list s = filter (\<lambda>k. role s k = R_IU) [0, 1, 2, 3]"

lemma set_use_list: "set (use_list s) = {k. k < 4 \<and> role s k = R_IU}"
proof -
  have "set [0, 1, 2, 3 :: nat] = {k. k < 4}" by auto
  then show ?thesis unfolding use_list_def set_filter by blast
qed

lemma handlers_use:
  "list_all (\<lambda>(op, h). case op_spec op of None \<Rightarrow> True | Some s \<Rightarrow> uses (use_list s) h)
     (handlers hl cm)"
  unfolding handlers_def list.pred_inject prod.case
  by (intro conjI TrueI; simp add: op_spec_def use_list_def handler_defs)

subsection \<open>Effects as sets of registers\<close>

lemma op_spec_none:
  "op_spec JMP = None" "op_spec JZ3 = None" "op_spec JNZ3 = None" "op_spec LEV3 = None"
  "op_spec CALLT = None" "op_spec JMPT = None" "op_spec JMPI = None" "op_spec CALL = None"
  "op_spec CALLI = None" "op_spec CALLN = None" "op_spec CALLF = None"
  by (simp_all add: op_spec_def)

lemma fused_ops: "IS_FUSED_BR op \<Longrightarrow> op \<in> set [BEQ3 ..< Suc BUGEW3]"
  unfolding IS_FUSED_BR_def set_upt atLeastLessThan_iff less_Suc_eq_le .

lemma op_spec_fused: "list_all (\<lambda>op. op_spec op = None) [BEQ3 ..< Suc BUGEW3]"
  by (simp add: upt_rec op_spec_def)

lemma op_spec_ctrl:
  assumes "op_spec op = Some s"
  shows "op \<notin> {JMP, JZ3, JNZ3, LEV3, CALLT, JMPT, JMPI, CALL, CALLI, CALLN, CALLF}" "\<not> IS_FUSED_BR op"
proof -
  show "op \<notin> {JMP, JZ3, JNZ3, LEV3, CALLT, JMPT, JMPI, CALL, CALLI, CALLN, CALLF}"
  proof
    assume "op \<in> {JMP, JZ3, JNZ3, LEV3, CALLT, JMPT, JMPI, CALL, CALLI, CALLN, CALLF}"
    then have "op_spec op = None" by (elim insertE emptyE) (simp_all only: op_spec_none)
    with assms show False by simp
  qed
  show "\<not> IS_FUSED_BR op"
    using assms op_spec_fused fused_ops [of op] unfolding list_all_iff by force
qed

lemma role_effect_bits:
  "iuse (role_effect text i k e) =
     iuse e OR (if role (spec i) k = R_IU \<and> get_byte text i k \<noteq> 0 then BIT (get_byte text i k) else 0)"
  "idef (role_effect text i k e) =
     idef e OR (if role (spec i) k = R_ID \<and> get_byte text i k \<noteq> 0 then BIT (get_byte text i k) else 0)"
  by (cases "role (spec i) k"; simp add: role_effect_def Let_def)+

lemma bit_BIT: "bit (BIT r) n \<longleftrightarrow> r = n \<and> n < 32"
  by (auto simp: BIT_def bit_simps)

lemma bit_role:
  "bit (if c then BIT r else 0) n \<longleftrightarrow> c \<and> r = n \<and> n < 32"
  by (simp add: bit_BIT)

lemma effects_known:
  assumes "known i" "insn_wf text i"
  shows "bit (iuse (effects text i)) n \<longleftrightarrow>
      (\<exists>k < 4. role (spec i) k = R_IU \<and> get_byte text i k = n) \<and> 0 < n \<and> n < 32"
    and "bit (idef (effects text i)) n \<longleftrightarrow>
      (\<exists>k < 4. role (spec i) k = R_ID \<and> get_byte text i k = n) \<and> 0 < n \<and> n < 32"
proof -
  have sp: "op_spec (i_op i) = Some (spec i)" using assms by (simp add: insn_spec)
  have e: "effects text i = fold (role_effect text i) [0, 1, 2, 3] no_eff"
    using op_spec_ctrl [OF sp] assms(1) by (simp add: effects_def Let_def is_call_def)
  have ex: "(\<exists>k < 4. P k) \<longleftrightarrow> P 0 \<or> P 1 \<or> P 2 \<or> P (3 :: nat)" for P
    using role_less4 [of "\<lambda>k. \<not> P k"] by auto
  show "bit (iuse (effects text i)) n \<longleftrightarrow>
      (\<exists>k < 4. role (spec i) k = R_IU \<and> get_byte text i k = n) \<and> 0 < n \<and> n < 32"
    unfolding e ex fold_simps comp_def id_def by (auto simp: role_effect_bits no_eff_def bit_or_iff bit_role)
  show "bit (idef (effects text i)) n \<longleftrightarrow>
      (\<exists>k < 4. role (spec i) k = R_ID \<and> get_byte text i k = n) \<and> 0 < n \<and> n < 32"
    unfolding e ex fold_simps comp_def id_def by (auto simp: role_effect_bits no_eff_def bit_or_iff bit_role)
qed

text \<open>Every known integer instruction names its destination, if it has one, in byte 0.\<close>

lemma if_SomeE:
  "(if c then Some a else x) = Some s \<Longrightarrow> (a = s \<Longrightarrow> P) \<Longrightarrow> (x = Some s \<Longrightarrow> P) \<Longrightarrow> P"
  by (simp split: if_split_asm)

lemma op_spec_def0: "op_spec op = Some s \<Longrightarrow> role s k = R_ID \<Longrightarrow> k = 0"
  unfolding op_spec_def by (elim if_SomeE) (auto simp: role_def split: if_split_asm)

definition live_regs :: "u32 \<Rightarrow> nat set" where
  "live_regs L = {r. r < NUM_REGS \<and> (r = REG_ZERO \<or> bit L r)}"

text \<open>The handler contract, lifted to a decoded instruction.\<close>

lemma known_handler_uses:
  assumes "known i" "insn_wf text i" "op_table hl cm (i_op i) = Some h"
  shows "uses (use_list (spec i)) h"
  using handlers_use [of hl cm] map_of_SomeD [of "handlers hl cm" "i_op i" h] assms(3)
    insn_spec [OF assms(2,1)]
  by (fastforce simp: op_table_def list_all_iff)

lemma step_back_agree:
  assumes "known i" "insn_wf (text_seg vm) i" "op_table hl cm (i_op i) = Some h" "pc vm = i_pc i + 1"
    and "agree (live_regs (fst (step_back (text_seg vm) i (L, F)))) vm vm'"
  shows "agree_step (live_regs L) (h vm) (h vm')"
proof -
  let ?t = "text_seg vm" and ?w = "text_seg vm (pc vm)" and ?R = "regs vm'"
  define M where "M = {r \<in> live_regs L. \<not> bit (idef (effects ?t i)) r}"
  have b: "get_byte ?t i k = opnd_byte ?w k" for k using assms(4) by (simp add: get_byte_def operand_def)
  have vm': "vm' = vm\<lparr>regs := ?R\<rparr>" using assms(5) by (simp add: agree_def)
  have eq: "?R r = regs vm r" if "r < NUM_REGS" "r = 0 \<or> bit (fst (step_back ?t i (L, F))) r" for r
    using assms(5) that by (auto simp: agree_def live_regs_def)
  have "?R (opnd_byte ?w k) = regs vm (opnd_byte ?w k)" if "k \<in> set (use_list (spec i))" for k
  proof (rule eq)
    have k: "k < 4" "role (spec i) k = R_IU" using that by (auto simp only: set_use_list mem_Collect_eq)
    with assms(1,2) b show "opnd_byte ?w k < NUM_REGS" by (fastforce simp: insn_wf_def)
    with k b show "opnd_byte ?w k = 0 \<or> bit (fst (step_back ?t i (L, F))) (opnd_byte ?w k)"
      using effects_known(1) [OF assms(1,2), of "opnd_byte ?w k"]
      by (auto simp: step_back_def Let_def bit_or_iff)
  qed
  moreover have "\<forall>r \<in> M. ?R r = regs vm r"
    using eq by (auto simp: M_def live_regs_def step_back_def Let_def bit_or_iff bit_and_iff bit_not_iff)
  moreover have "?R 0 = regs vm 0" by (rule eq) simp_all
  ultimately have "agree_step (insert (opnd_byte ?w 0) M) (h vm) (h (vm\<lparr>regs := ?R\<rparr>))"
    using known_handler_uses [OF assms(1-3)] unfolding uses_def Let_def by blast
  moreover have "live_regs L \<subseteq> insert (opnd_byte ?w 0) M"
    using effects_known(2) [OF assms(1,2)] op_spec_def0 [OF insn_spec [OF assms(2,1)]] b
    by (auto simp: M_def)
  ultimately show ?thesis unfolding vm' [symmetric] by (rule agree_step_mono)
qed

subsection \<open>Removing a dead definition\<close>

text \<open>The immediates C defines the handlers' shifts for: a count below 64, a bit field inside the
  word. The optimiser calls these instructions pure, relying on the code generator for it.\<close>

definition imm_ok :: "opcode \<Rightarrow> u32 \<Rightarrow> u64 \<Rightarrow> bool" where
  "imm_ok op w imm \<longleftrightarrow>
     (op \<in> {SHLI3, SHRI3, USHRI3, SHLISX3, SHLIZX3} \<longrightarrow> uint imm \<le> 63) \<and>
     (op \<in> {UBFX, SBFX} \<longrightarrow> DECODE_BF_off w + DECODE_BF_w w \<le> 64)"

lemma pure_no_fault_table:
  "list_all (\<lambda>(op, g). case op_spec op of None \<Rightarrow> True
     | Some s \<Rightarrow> sp_pure s \<longrightarrow> (\<forall>w a b c imm. imm_ok op w imm \<longrightarrow> (\<exists>v. g w a b c imm = Inr v))) alu_table"
  unfolding alu_table_def list.pred_inject prod.case
  by (intro conjI TrueI; simp add: op_spec_def imm_ok_def Let_def)

lemma pure_no_fault:
  assumes "alu op = Some g" "op_spec op = Some s" "sp_pure s" "imm_ok op w imm"
  obtains v where "g w a b c imm = Inr v"
proof -
  have "(op, g) \<in> set alu_table" using assms(1) unfolding alu_def by (rule map_of_SomeD)
  from bspec [OF pure_no_fault_table [unfolded list_all_iff] this]
  have "\<exists>v. g w a b c imm = Inr v" using assms(2-4) by simp
  then show thesis using that by blast
qed

definition addi_other :: vm where
  "addi_other = addi_vm\<lparr>regs := (regs addi_vm)(10 := 99)\<rparr>"

lemma addi_machine:
  "text_seg addi_vm = addi_text" "pc addi_vm = i_pc addi_insn + 1" "insn_wf addi_text addi_insn"
  "op_table hl cm (i_op addi_insn) = Some op_ADDI3_fn"
  by (simp_all add: addi_vm_def blank_vm_def addi_insn_simps insn_wf_def MOV3_spec role_less4 op_table_alu)
    (simp add: addi_insn_simps [simplified])

lemma addi_effects: "effects addi_text addi_insn = \<lparr>iuse = BIT 11, idef = BIT 10, fuse = 0, fdef = 0\<rparr>"
  using addi_insn_simps(8) [unfolded One_nat_def]
  by (simp add: effects_def addi_insn_simps is_call_def IS_FUSED_BR_def role_effect_def no_eff_def)

end
