(* ===== verification/Peep_Fuse.thy ===== *)
theory Peep_Fuse
  imports Peep_Live
begin

text \<open>
  Instruction selection of the optimiser (\<open>src/src/codegen_peep.c\<close>, lines 1958 to 2090 and 2335 to
  2545): which immediate form replaces an operation on a constant, which fused opcode replaces an
  operation and its 32-bit wrap, which bit-field extract replaces a pair of shifts, which fused
  branch replaces a compare and its conditional jump, and when a branch may test the source of an
  extension. Each choice is proved equivalent to the pair of instructions it replaces.
\<close>

subsection \<open>Immediate forms\<close>

text \<open>The opcode and the immediate; \<open>None\<close> is the code's 0.\<close>

definition imm_opcode :: "opcode \<Rightarrow> bool \<Rightarrow> u64 \<Rightarrow> (opcode \<times> u64) option" where
  "imm_opcode op c_left c =
     (if op = ADD3 then Some (ADDI3, c)
      else if op = MUL3 then Some (MULI3, c)
      else if op = AND3 then Some (ANDI3, c)
      else if op = OR3 then Some (ORI3, c)
      else if op = XOR3 then Some (XORI3, c)
      else if op = SUB3 then (if c_left then None else Some (ADDI3, 0 - c))
      else if op = SHL3 \<or> op = SHR3 \<or> op = USHR3
      then if c_left \<or> sint c < 0 \<or> sint c > 63 then None
           else Some (if op = SHL3 then SHLI3 else if op = SHR3 then SHRI3 else USHRI3, c)
      else if op = SEQ3 then Some (SEQI3, c)
      else if op = SNE3 then Some (SNEI3, c)
      else if op = SLT3 then Some (if c_left then SGTI3 else SLTI3, c)
      else if op = SLE3 then Some (if c_left then SGEI3 else SLEI3, c)
      else if op = SGT3 then Some (if c_left then SLTI3 else SGTI3, c)
      else if op = SGE3 then Some (if c_left then SLEI3 else SGEI3, c)
      else if op = ULT3 then Some (if c_left then UGTI3 else ULTI3, c)
      else if op = ULE3 then Some (if c_left then UGEI3 else ULEI3, c)
      else None)"

lemma mask6: "c AND (63 :: u64) = take_bit 6 c"
proof -
  have "(63 :: u64) = mask 6" by (simp add: mask_eq_exp_minus_1)
  then show ?thesis by (simp add: take_bit_eq_mask)
qed

lemma small_const:
  assumes "0 \<le> sint (c :: u64)" "sint c \<le> 63"
  shows "shift_count c = unat c" "\<not> 63 < uint c"
proof -
  have u: "uint c = sint c" by (rule uint_sint_nonneg [OF assms(1)])
  then show "\<not> 63 < uint c" using assms(2) by simp
  have "unat c < 64" using u assms by (simp add: unat_eq_nat_uint nat_less_iff)
  then show "shift_count c = unat c" 
    unfolding shift_count_def mask6 by (simp add: unsigned_take_bit_eq take_bit_nat_eq_self_iff)
qed

lemma imm_opcode_alu:
  assumes "imm_opcode op c_left c = Some (iop, c')"
  shows "\<exists>g g'. alu op = Some g \<and> alu iop = Some g' \<and>
    (\<forall>w w' a x y z imm. g w (if c_left then c else a) (if c_left then a else c) x imm = g' w' a y z c')"
  using assms unfolding imm_opcode_def
  by (auto split: if_split_asm simp: alu_eval small_const add.commute mult.commute
      and.commute or.commute xor.commute
      eq_commute)

subsection \<open>Wraps\<close>

definition wrapped_op :: "opcode \<Rightarrow> opcode \<Rightarrow> opcode option" where
  "wrapped_op op ext_op =
     (let sx = (ext_op = SX4)
      in if op = ADD3 then Some (if sx then ADDSX3 else ADDZX3)
         else if op = SUB3 \<or> op = NEG3 then Some (if sx then SUBSX3 else SUBZX3)
         else if op = MUL3 then Some (if sx then MULSX3 else MULZX3)
         else if op = ADDI3 then Some (if sx then ADDISX3 else ADDIZX3)
         else if op = MULI3 then Some (if sx then MULISX3 else MULIZX3)
         else if op = SHLI3 then Some (if sx then SHLISX3 else SHLIZX3)
         else None)"

text \<open>The rewrite moves the source of a negation to the second operand of a subtraction from zero.\<close>

lemma wrapped_op_alu:
  assumes "wrapped_op op ext_op = Some fop" "ext_op = SX4 \<or> ext_op = ZX4"
  shows "\<exists>g e g'. alu op = Some g \<and> alu ext_op = Some e \<and> alu fop = Some g' \<and>
    (\<forall>w w' w'' a b c imm x y z t.
       (case g w a b c imm of Inl f \<Rightarrow> Inl f | Inr v \<Rightarrow> e w' v x y t) =
       g' w'' (if op = NEG3 then 0 else a) (if op = NEG3 then a else b) z imm)"
  using assms unfolding wrapped_op_def by (auto split: if_split_asm simp: alu_eval Let_def)

subsection \<open>Bit-field extracts\<close>

text \<open>\<open>__builtin_popcountll\<close>.\<close>

definition popcount :: "u64 \<Rightarrow> nat" where
  "popcount x = length (filter (bit x) [0..<64])"

text \<open>\<open>bfx_form\<close>: opcode, offset and width. \<open>k\<close> and \<open>m\<close> are the immediates of the two instructions,
  \<open>opa\<close> and \<open>opb\<close> their opcodes.\<close>

definition bfx_form :: "opcode \<Rightarrow> opcode \<Rightarrow> u64 \<Rightarrow> u64 \<Rightarrow> (opcode \<times> nat \<times> nat) option" where
  "bfx_form opa opb k m =
     (if sint k < 0 \<or> sint k > 63 then None
      else if opb = ANDI3 \<and> (opa = USHRI3 \<or> opa = SHRI3)
      then if sint m \<le> 0 \<or> m AND (m + 1) \<noteq> 0 \<or> unat k + popcount m > 64 then None
           else Some (UBFX, unat k, popcount m)
      else if opa = SHLI3 \<and> (opb = SHRI3 \<or> opb = USHRI3)
      then if sint m < sint k \<or> sint m > 63 then None
           else Some (if opb = SHRI3 then SBFX else UBFX, unat m - unat k, 64 - unat m)
      else None)"

lemma and_even: "2 * q AND Suc (2 * q) = (2 * q :: nat)"
  by (subst and_nat_rec) simp

lemma and_odd: "Suc (2 * q) AND Suc (Suc (2 * q)) = 2 * (q AND Suc q :: nat)"
  by (subst and_nat_rec) simp

lemma low_ones_nat: "m AND Suc m = 0 \<Longrightarrow> \<exists>w. m = mask w"
proof (induction m rule: less_induct)
  case (less m)
  show ?case
  proof (cases "even m")
    case True
    then obtain q where q: "m = 2 * q" by blast
    then have "m = mask 0" using less.prems and_even [of q] by simp
    then show ?thesis by blast
  next
    case False
    then obtain q where q: "m = Suc (2 * q)" by (auto elim!: oddE)
    then have "q AND Suc q = 0" using less.prems and_odd [of q] by simp
    then obtain w where "q = mask w" using less.IH [of q] q by auto
    then have "m = mask (Suc w)" 
      unfolding q by (cases "2 ^ w :: nat") (simp_all add: mask_eq_exp_minus_1)
    then show ?thesis by blast
  qed
qed

lemma of_nat_unat_id: "of_nat (unat x) = (x :: u64)"
  by simp

lemma low_ones:
  assumes "(m :: u64) AND (m + 1) = 0" "0 < sint m"
  shows "m = mask (popcount m)" "popcount m < 64"
proof -
  have "unat m < 2 ^ 63"
    using uint_sint_nonneg [of m] assms(2) sint64_bounds [of m] by (simp add: unat_eq_nat_uint nat_less_iff)
  then have "unat (m + 1) = Suc (unat m)" by (simp add: unat_word_ariths)
  then have "unat m AND Suc (unat m) = 0" using assms(1) by (metis unsigned_and_eq unsigned_0)
  then obtain w where w: "unat m = mask w" using low_ones_nat by blast
  have "w < 64"
  proof (rule ccontr)
    assume "\<not> w < 64"
    then have "(2 :: nat) ^ 64 \<le> 2 ^ w" by (intro power_increasing) auto
    then show False using w \<open>unat m < 2 ^ 63\<close> by (simp add: mask_eq_exp_minus_1)
  qed
  have m: "m = mask w" using w by (metis of_nat_mask_eq of_nat_unat_id)
  have "filter (bit m) [0..<64] = [0..<w]"
  proof -
    have "[0..<64] = [0..<w] @ [w..<64]" using \<open>w < 64\<close> by (metis le_add_diff_inverse less_imp_le upt_add_eq_append zero_le)
    then show ?thesis unfolding m using \<open>w < 64\<close> by (auto simp: bit_mask_iff filter_empty_conv intro!: filter_True)
  qed
  then show "m = mask (popcount m)" "popcount m < 64" using m \<open>w < 64\<close> by (simp_all add: popcount_def)
qed

lemma bit_bf_mask: "bit (bf_mask w) n \<longleftrightarrow> n < w \<and> n < 64"
proof -
  have "bf_mask w = (if w \<ge> 64 then NOT 0 else mask w)" by (simp add: bf_mask_def mask_eq_decr_exp push_bit_eq_mult)
  then show ?thesis by (auto simp: bit_mask_iff bit_not_iff dest: bit_imp_le_length)
qed

lemma bit_six_high [simp]: "k < 64 \<Longrightarrow> 6 \<le> n \<Longrightarrow> \<not> bit (k :: nat) n"
  using bit_nat_lt [of k n] power_increasing [of 6 n "2 :: nat"] by auto

lemma bit_of_nat_u32: "bit (of_nat k :: u32) n \<longleftrightarrow> bit k n \<and> n < 32"
  by (auto simp: bit_of_nat_iff dest: bit_imp_le_length)

lemma DECODE_ENCODE_BF:
  assumes "d < 256" "s < 256" "off < 64" "0 < w" "w \<le> 64"
  shows "DECODE_BF_off (ENCODE_BF d s off w) = off" "DECODE_BF_w (ENCODE_BF d s off w) = w"
proof -
  have m: "(0x3F :: u32) = mask 6" by (simp add: mask_eq_exp_minus_1)
  obtain v where v: "w = Suc v" "v < 64" using assms(4,5) by (cases w) auto
  have w1: "(of_nat w - 1 :: u32) = of_nat v" by (simp add: v)
  have e: "bit (ENCODE_BF d s off w) n \<longleftrightarrow> n < 32 \<and> (bit d n \<or> 8 \<le> n \<and> bit s (n - 8) \<or>
      16 \<le> n \<and> bit off (n - 16) \<or> 22 \<le> n \<and> bit v (n - 22))" for n
    unfolding ENCODE_BF_def ENCODE_RR_def w1 by (auto simp: bit_or_iff bit_push_bit_iff bit_of_nat_u32)
  have "drop_bit 16 (ENCODE_BF d s off w) AND 0x3F = of_nat off"
  proof (rule bit_word_eqI)
    fix n assume "n < LENGTH(32)"
    then show "bit (drop_bit 16 (ENCODE_BF d s off w) AND 0x3F) n = bit (of_nat off :: u32) n"
      unfolding m using assms(1-3) by (cases "n < 6") (simp_all add: bit_and_iff bit_drop_bit_eq bit_mask_iff e bit_of_nat_u32)
  qed
  then show "DECODE_BF_off (ENCODE_BF d s off w) = off"
    using assms(3) by (simp add: DECODE_BF_off_def unat_of_nat)
  have "drop_bit 22 (ENCODE_BF d s off w) AND 0x3F = of_nat v"
  proof (rule bit_word_eqI)
    fix n assume "n < LENGTH(32)"
    then show "bit (drop_bit 22 (ENCODE_BF d s off w) AND 0x3F) n = bit (of_nat v :: u32) n"
      unfolding m using assms(1-3) v(2) by (cases "n < 6") (simp_all add: bit_and_iff bit_drop_bit_eq bit_mask_iff e bit_of_nat_u32)
  qed
  then show "DECODE_BF_w (ENCODE_BF d s off w) = w"
    using v by (simp add: DECODE_BF_w_def unat_of_nat)
qed

lemma bfx_mask_shift:
  assumes "k + w \<le> 64" "0 < w"
  shows "drop_bit k a AND mask w = drop_bit k (a :: u64) AND bf_mask w"
    and "c_sar a k AND mask w = drop_bit k a AND bf_mask w"
  by (rule bit_word_eqI; use assms in \<open>auto simp: bit_simps bit_bf_mask c_sar_def\<close>)+

lemma bfx_shift_pair:
  assumes "k \<le> m" "m \<le> 63"
  shows "drop_bit m (push_bit k a) = drop_bit (m - k) (a :: u64) AND bf_mask (64 - m)"
  by (rule bit_word_eqI) (use assms in \<open>auto simp: bit_simps bit_bf_mask\<close>)

lemma const_bounds: "0 \<le> sint (c :: u64) \<Longrightarrow> sint c = int (unat c)"
  by (metis uint_nat uint_sint_nonneg)

lemma bfx_cases:
  assumes "bfx_form opa opb k m = Some (op, off, w)"
  shows "0 \<le> sint k" "sint k \<le> 63" and
   "opb = ANDI3 \<and> (opa = USHRI3 \<or> opa = SHRI3) \<and> 0 < sint m \<and> m AND (m + 1) = 0 \<and>
      unat k + popcount m \<le> 64 \<and> op = UBFX \<and> off = unat k \<and> w = popcount m \<or>
   opa = SHLI3 \<and> (opb = SHRI3 \<or> opb = USHRI3) \<and> sint k \<le> sint m \<and> sint m \<le> 63 \<and>
      op = (if opb = SHRI3 then SBFX else UBFX) \<and> off = unat m - unat k \<and> w = 64 - unat m"
  using assms unfolding bfx_form_def by (simp_all split: if_split_asm)

lemma bfx_form_alu:
  assumes "bfx_form opa opb k m = Some (op, off, w)" "d < 256" "s < 256"
  shows "\<exists>ga gb g. alu opa = Some ga \<and> alu opb = Some gb \<and> alu op = Some g \<and>
    (\<forall>w1 w2 a b c x y. (case ga w1 a b c k of Inl f \<Rightarrow> Inl f | Inr v \<Rightarrow> gb w2 v x y m) =
       g (ENCODE_BF d s off w) a b c k)"
proof -
  note k = bfx_cases(1,2) [OF assms(1)]
  note k' = small_const [OF k] const_bounds [OF k(1)]
  consider (mask) "opb = ANDI3" "opa = USHRI3 \<or> opa = SHRI3" "0 < sint m" "m AND (m + 1) = 0"
      "unat k + popcount m \<le> 64" "op = UBFX" "off = unat k" "w = popcount m"
    | (pair) "opa = SHLI3" "opb = SHRI3 \<or> opb = USHRI3" "sint k \<le> sint m" "sint m \<le> 63"
      "op = (if opb = SHRI3 then SBFX else UBFX)" "off = unat m - unat k" "w = 64 - unat m"
    using bfx_cases(3) [OF assms(1)] by blast
  then show ?thesis
  proof cases
    case mask
    have m: "m = mask w" unfolding mask(8) by (rule low_ones(1) [OF mask(4,3)])
    have w: "0 < w" using m mask(3) by (cases w) auto
    have off: "off < 64" using k k' mask(7) by linarith
    have le: "off + w \<le> 64" using mask(5,7,8) by simp
    note dec = DECODE_ENCODE_BF [OF assms(2,3) off w] and eq = bfx_mask_shift [OF le w]
    have "w \<le> 64" using le by simp
    then show ?thesis using mask(2) k'(2) dec eq unfolding m mask(1,6)
      by (elim disjE) (simp_all add: alu_eval mask(7) [symmetric])
  next
    case pair
    have m: "0 \<le> sint m" using pair(3) k by linarith
    note m' = small_const [OF m pair(4)] const_bounds [OF m]
    have le: "unat k \<le> unat m" "unat m \<le> 63" using pair(3,4) k' m' by linarith+
    have dec: "DECODE_BF_off (ENCODE_BF d s off w) = off" "DECODE_BF_w (ENCODE_BF d s off w) = w"
      using DECODE_ENCODE_BF [OF assms(2,3), of off w] pair(6,7) le by auto
    have w: "64 - w - off = unat k" "64 - w = unat m" "\<not> 64 < off + w" using pair(6,7) le by auto
    have eq: "drop_bit (unat m) (push_bit (unat k) a) = drop_bit off a AND bf_mask w" for a
      unfolding pair(6,7) by (rule bfx_shift_pair [OF le])
    show ?thesis using pair(2) k'(2) m'(2) dec w eq unfolding pair(1,5)
      by (elim disjE) (simp_all add: alu_eval)
  qed
qed

subsection \<open>Fused compare-and-branch\<close>

definition fits_imm24 :: "u64 \<Rightarrow> bool" where
  "fits_imm24 v \<longleftrightarrow> - (2 ^ 23) \<le> sint v \<and> sint v < 2 ^ 23"

definition fits_imm56 :: "u64 \<Rightarrow> bool" where
  "fits_imm56 v \<longleftrightarrow> - (2 ^ 55) \<le> sint v \<and> sint v < 2 ^ 55"

datatype arel = A_LT | A_LE | A_GT | A_GE | A_EQ | A_NE

text \<open>The relation of an immediate compare, read with the register on the left, and its negation.\<close>

definition imm_rel :: "cmp_form \<Rightarrow> arel" where
  "imm_rel cf =
     (case cf_rel cf of REL_EQ \<Rightarrow> A_EQ | REL_NE \<Rightarrow> A_NE
      | REL_LT \<Rightarrow> (if cf_swap cf then A_GT else A_LT)
      | REL_LE \<Rightarrow> (if cf_swap cf then A_GE else A_LE))"

definition arel_not :: "arel \<Rightarrow> arel" where
  "arel_not ra =
     (case ra of A_LT \<Rightarrow> A_GE | A_LE \<Rightarrow> A_GT | A_GT \<Rightarrow> A_LE | A_GE \<Rightarrow> A_LT | A_EQ \<Rightarrow> A_NE | A_NE \<Rightarrow> A_EQ)"

definition wide_branch :: "bool \<Rightarrow> arel \<Rightarrow> opcode" where
  "wide_branch uns ra =
     (case ra of A_LT \<Rightarrow> (if uns then BULTW3 else BLTW3) | A_LE \<Rightarrow> (if uns then BULEW3 else BLEW3)
      | A_GT \<Rightarrow> (if uns then BUGTW3 else BGTW3) | A_GE \<Rightarrow> (if uns then BUGEW3 else BGEW3)
      | A_EQ \<Rightarrow> BEQW3 | A_NE \<Rightarrow> BNEW3)"

definition imm_branch :: "bool \<Rightarrow> arel \<Rightarrow> opcode" where
  "imm_branch uns ra =
     (case ra of A_LT \<Rightarrow> (if uns then BULTI3 else BLTI3) | A_LE \<Rightarrow> (if uns then BULEI3 else BLEI3)
      | A_GT \<Rightarrow> (if uns then BUGTI3 else BGTI3) | A_GE \<Rightarrow> (if uns then BUGEI3 else BGEI3)
      | A_EQ \<Rightarrow> BEQI3 | A_NE \<Rightarrow> BNEI3)"

text \<open>The relation and the operand order of a register compare, negated for a jump on zero.\<close>

definition branch_rel :: "cmp_form \<Rightarrow> bool \<Rightarrow> rel \<times> bool" where
  "branch_rel cf when =
     (if when then (cf_rel cf, cf_swap cf)
      else case cf_rel cf of REL_LT \<Rightarrow> (REL_LE, \<not> cf_swap cf) | REL_LE \<Rightarrow> (REL_LT, \<not> cf_swap cf)
           | REL_EQ \<Rightarrow> (REL_NE, cf_swap cf) | REL_NE \<Rightarrow> (REL_EQ, cf_swap cf))"

text \<open>The opcode and the two words it fills (the second is left unset, here 0, unless the branch is
  wide); \<open>None\<close> is the code's -1.\<close>

definition fused_branch :: "cmp_form \<Rightarrow> cmp \<Rightarrow> bool \<Rightarrow> bool \<Rightarrow> (opcode \<times> u32 \<times> u32) option" where
  "fused_branch cf c when adjacent =
     (if cf_imm cf then
        let narrow = fits_imm24 (cmp_imm c); u = cmp_imm c; a = of_nat (cmp_a c) AND 0xFF;
            ra = (if when then imm_rel cf else arel_not (imm_rel cf))
        in if \<not> narrow \<and> \<not> (adjacent \<and> fits_imm56 (cmp_imm c)) then None
           else if \<not> narrow
           then Some (wide_branch (cf_uns cf) ra,
                  a OR push_bit 8 (ucast (drop_bit 32 u AND 0xFFFFFF)), ucast u)
           else Some (imm_branch (cf_uns cf) ra, a OR push_bit 8 (ucast (u AND 0xFFFFFF)), 0)
      else
        let (rel, sw) = branch_rel cf when;
            b = (case cmp_b c of Some b \<Rightarrow> b | None \<Rightarrow> 0xFF);
            x = (if sw then b else cmp_a c); y = (if sw then cmp_a c else b)
        in Some (case rel of REL_EQ \<Rightarrow> BEQ3 | REL_NE \<Rightarrow> BNE3
                   | REL_LT \<Rightarrow> (if cf_uns cf then BULT3 else BLT3)
                   | REL_LE \<Rightarrow> (if cf_uns cf then BULE3 else BLE3),
                 (of_nat x AND 0xFF) OR push_bit 8 (of_nat y AND 0xFF), 0))"

lemma op_table_branch:
  "op_table hl cm BEQ3 = Some op_BEQ3_fn" "op_table hl cm BNE3 = Some op_BNE3_fn"
  "op_table hl cm BLT3 = Some op_BLT3_fn" "op_table hl cm BLE3 = Some op_BLE3_fn"
  "op_table hl cm BULT3 = Some op_BULT3_fn" "op_table hl cm BULE3 = Some op_BULE3_fn"
  "op_table hl cm BEQI3 = Some op_BEQI3_fn" "op_table hl cm BNEI3 = Some op_BNEI3_fn"
  "op_table hl cm BLTI3 = Some op_BLTI3_fn" "op_table hl cm BLEI3 = Some op_BLEI3_fn"
  "op_table hl cm BGTI3 = Some op_BGTI3_fn" "op_table hl cm BGEI3 = Some op_BGEI3_fn"
  "op_table hl cm BULTI3 = Some op_BULTI3_fn" "op_table hl cm BULEI3 = Some op_BULEI3_fn"
  "op_table hl cm BUGTI3 = Some op_BUGTI3_fn" "op_table hl cm BUGEI3 = Some op_BUGEI3_fn"
  "op_table hl cm BEQW3 = Some op_BEQW3_fn" "op_table hl cm BNEW3 = Some op_BNEW3_fn"
  "op_table hl cm BLTW3 = Some op_BLTW3_fn" "op_table hl cm BLEW3 = Some op_BLEW3_fn"
  "op_table hl cm BGTW3 = Some op_BGTW3_fn" "op_table hl cm BGEW3 = Some op_BGEW3_fn"
  "op_table hl cm BULTW3 = Some op_BULTW3_fn" "op_table hl cm BULEW3 = Some op_BULEW3_fn"
  "op_table hl cm BUGTW3 = Some op_BUGTW3_fn" "op_table hl cm BUGEW3 = Some op_BUGEW3_fn"
  unfolding op_table_def handlers_def by (rule map_of_hd | rule map_of_tl, simp)+

text \<open>The operand words decode to the register and the immediate they were built from.\<close>

lemma bit_sext_bits:
  assumes "- (2 ^ m) \<le> sint v" "sint v < 2 ^ m" "m \<le> n" "n < 64"
  shows "bit (v :: u64) n = bit v m"
proof -
  have "signed_take_bit m (sint v) = sint v" using assms(1,2) by (simp add: signed_take_bit_int_eq_self_iff)
  then have "bit (sint v) n \<longleftrightarrow> bit (sint v) m"
    using bit_signed_take_bit_iff [of m "sint v" n] assms(3) by (simp add: min_def)
  then show ?thesis using assms(3,4) by (simp add: bit_sint_iff)
qed

lemma bit_sdrop8: "bit (sint (signed_drop_bit 8 (w :: u32))) n \<longleftrightarrow> bit w (if n < 23 then n + 8 else 31)"
proof -
  have "bit (sint (signed_drop_bit 8 w)) n \<longleftrightarrow> bit (signed_take_bit 31 (uint w)) (8 + n)"
    unfolding sint_signed_drop_bit_eq bit_drop_bit_eq by (simp add: sint_uint)
  also have "\<dots> \<longleftrightarrow> bit w (min 31 (8 + n))"
    unfolding bit_signed_take_bit_iff by (simp add: bit_uint_iff) (auto dest: bit_imp_le_length)
  also have "min 31 (8 + n) = (if n < 23 then n + 8 else 31)" by simp
  finally show ?thesis .
qed

lemma bit_br_imm24: "bit (br_imm24 w) n \<longleftrightarrow> n < 64 \<and> bit w (if n < 23 then n + 8 else 31)"
  unfolding br_imm24_def bit_word_of_int_iff bit_sdrop8 by simp

text \<open>The operand word of an immediate branch: the register, then 24 bits of the immediate.\<close>

lemma and_FFFFFF: "(v :: u64) AND 0xFFFFFF = take_bit 24 v"
proof -
  have "(0xFFFFFF :: u64) = mask 24" by (simp add: mask_eq_exp_minus_1)
  then show ?thesis by (simp only: take_bit_eq_mask)
qed

lemma bit_imm_word:
  assumes "a < 256"
  shows "bit (of_nat a OR push_bit 8 (ucast (v AND 0xFFFFFF)) :: u32) n \<longleftrightarrow>
    n < 32 \<and> (if n < 8 then bit a n else bit (v :: u64) (n - 8))"
proof -
  have u: "bit (ucast (take_bit 24 v) :: u32) k \<longleftrightarrow> k < 24 \<and> bit v k" for k
    by (auto simp: bit_ucast_iff bit_take_bit_iff)
  have p: "bit (push_bit 8 (ucast (take_bit 24 v)) :: u32) n \<longleftrightarrow> 8 \<le> n \<and> n < 32 \<and> bit v (n - 8)"
    unfolding bit_push_bit_iff u by auto
  show ?thesis unfolding and_FFFFFF bit_or_iff bit_of_nat_u32 p
    using bit_byte_high [OF assms, of n] by (cases "n < 8") simp_all
qed

lemma imm_word_reg:
  assumes "a < 256"
  shows "opnd_byte (of_nat a OR push_bit 8 (ucast ((v :: u64) AND 0xFFFFFF)) :: u32) 0 = a"
  by (rule opnd_byte_eqI) (use assms in \<open>simp_all only: bit_imm_word\<close>, simp_all)

lemma br_imm24_enc:
  assumes "fits_imm24 v" "a < 256"
  shows "br_imm24 (of_nat a OR push_bit 8 (ucast (v AND 0xFFFFFF))) = v"
proof (rule bit_word_eqI)
  fix n assume n: "n < LENGTH(64)"
  have "bit v n = bit v 23" if "23 \<le> n"
    using assms(1) that n by (intro bit_sext_bits) (simp_all add: fits_imm24_def)
  then show "bit (br_imm24 (of_nat a OR push_bit 8 (ucast (v AND 0xFFFFFF)))) n = bit v n"
    using n unfolding bit_br_imm24 bit_imm_word [OF assms(2)] by (cases "n < 23") simp_all
qed

lemma bit_br_imm56: "bit (br_imm56 w l) n \<longleftrightarrow>
    n < 64 \<and> (if n < 32 then bit l n else bit w (if n < 55 then n - 24 else 31))"
proof -
  let ?s = "sint (signed_drop_bit 8 w)"
  have b: "bit (push_bit 32 ?s) n \<longleftrightarrow> 32 \<le> n \<and> bit ?s (n - 32)" for n
    by (simp add: bit_push_bit_iff)
  have l: "bit (uint l) n \<longleftrightarrow> n < 32 \<and> bit l n" for n by (simp add: bit_uint_iff)
  have "?s * 0x100000000 + uint l = push_bit 32 ?s + uint l" by (simp add: push_bit_eq_mult)
  also have "\<dots> = push_bit 32 ?s OR uint l" by (rule disjunctive_add) (simp only: b l, auto)
  finally have "bit (br_imm56 w l) n \<longleftrightarrow> n < 64 \<and> (32 \<le> n \<and> bit ?s (n - 32) \<or> n < 32 \<and> bit l n)"
    unfolding br_imm56_def bit_word_of_int_iff by (simp only: bit_or_iff b l) simp
  then show ?thesis unfolding bit_sdrop8 by auto
qed

lemma br_imm56_enc:
  assumes "fits_imm56 v" "a < 256"
  shows "br_imm56 (of_nat a OR push_bit 8 (ucast (drop_bit 32 v AND 0xFFFFFF))) (ucast v) = v"
proof (rule bit_word_eqI)
  fix n assume n: "n < LENGTH(64)"
  have "bit v n = bit v 55" if "55 \<le> n"
    using assms(1) that n by (intro bit_sext_bits) (simp_all add: fits_imm56_def)
  then show "bit (br_imm56 (of_nat a OR push_bit 8 (ucast (drop_bit 32 v AND 0xFFFFFF))) (ucast v)) n = bit v n"
    using n unfolding bit_br_imm56 bit_imm_word [OF assms(2)] bit_drop_bit_eq
    by (cases "n < 32"; cases "n < 55") (simp_all add: bit_ucast_iff, linarith)
qed

definition arel_sem :: "bool \<Rightarrow> arel \<Rightarrow> word_rel" where
  "arel_sem uns ra =
     (case ra of A_LT \<Rightarrow> (if uns then (\<lambda>a b. uint a < uint b) else (\<lambda>a b. sint a < sint b))
      | A_LE \<Rightarrow> (if uns then (\<lambda>a b. uint a \<le> uint b) else (\<lambda>a b. sint a \<le> sint b))
      | A_GT \<Rightarrow> (if uns then (\<lambda>a b. uint a > uint b) else (\<lambda>a b. sint a > sint b))
      | A_GE \<Rightarrow> (if uns then (\<lambda>a b. uint a \<ge> uint b) else (\<lambda>a b. sint a \<ge> sint b))
      | A_EQ \<Rightarrow> (\<lambda>a b. a = b) | A_NE \<Rightarrow> (\<lambda>a b. a \<noteq> b))"

lemma branch_handlers:
  "op_table hl cm (imm_branch uns ra) = Some (br_imm_op (arel_sem uns ra))"
  "op_table hl cm (wide_branch uns ra) = Some (br_wide_op (arel_sem uns ra))"
  by (cases ra; cases uns; simp add: imm_branch_def wide_branch_def arel_sem_def op_table_branch
      op_BEQI3_fn_def op_BNEI3_fn_def op_BLTI3_fn_def op_BLEI3_fn_def op_BGTI3_fn_def op_BGEI3_fn_def
      op_BULTI3_fn_def op_BULEI3_fn_def op_BUGTI3_fn_def op_BUGEI3_fn_def
      op_BEQW3_fn_def op_BNEW3_fn_def op_BLTW3_fn_def op_BLEW3_fn_def op_BGTW3_fn_def op_BGEW3_fn_def
      op_BULTW3_fn_def op_BULEW3_fn_def op_BUGTW3_fn_def op_BUGEW3_fn_def)+

lemma branch_wide: "BEQW3 \<le> wide_branch uns ra" "\<not> BEQW3 \<le> imm_branch uns ra"
  by (cases ra; simp add: imm_branch_def wide_branch_def)+

lemma arel_not_sem: "arel_sem uns (arel_not ra) a b = (\<not> arel_sem uns ra a b)"
  by (cases ra) (auto simp: arel_not_def arel_sem_def)

lemma imm_rel_sem: "cmp_sem cf a b = arel_sem (cf_uns cf) (imm_rel cf) a b"
  by (cases "cf_rel cf")
    (auto simp: cmp_sem_def imm_rel_def arel_sem_def Let_def word_less_alt sint_eq_iff64 order_le_less
      dest: unsigned_word_eqI)

lemma and_byte: "r < 256 \<Longrightarrow> of_nat r AND (0xFF :: u32) = of_nat r"
  by (rule bit_word_eqI) (unfold bit_and_iff bit_FF bit_of_nat_u32, auto dest: bit_byte_lt)

lemma reg_branch_handler:
  "op_table hl cm (case rel of REL_EQ \<Rightarrow> BEQ3 | REL_NE \<Rightarrow> BNE3
      | REL_LT \<Rightarrow> (if uns then BULT3 else BLT3) | REL_LE \<Rightarrow> (if uns then BULE3 else BLE3)) =
    Some (br_op (cmp_sem (CmpForm rel False uns im)))"
  unfolding imm_rel_sem [abs_def]
  by (cases rel; cases uns; simp add: op_table_branch op_BEQ3_fn_def op_BNE3_fn_def op_BLT3_fn_def
      op_BLE3_fn_def op_BULT3_fn_def op_BULE3_fn_def arel_sem_def imm_rel_def)

lemma reg_branch_narrow:
  "\<not> BEQW3 \<le> (case rel of REL_EQ \<Rightarrow> BEQ3 | REL_NE \<Rightarrow> BNE3
      | REL_LT \<Rightarrow> (if uns then BULT3 else BLT3) | REL_LE \<Rightarrow> (if uns then BULE3 else BLE3))"
  by (cases rel) simp_all

lemma cmp_sem_swap: "cmp_sem (CmpForm r True u i) a b = cmp_sem (CmpForm r False u i) b a"
  by (simp add: cmp_sem_def)

lemma cmp_sem_negate:
  "cmp_sem (CmpForm REL_LE (\<not> sw) u i) a b = (\<not> cmp_sem (CmpForm REL_LT sw u i) a b)"
  "cmp_sem (CmpForm REL_LT (\<not> sw) u i) a b = (\<not> cmp_sem (CmpForm REL_LE sw u i) a b)"
  "cmp_sem (CmpForm REL_NE sw u i) a b = (\<not> cmp_sem (CmpForm REL_EQ sw u i) a b)"
  by (auto simp: cmp_sem_def Let_def sint_eq_iff64 not_less order_le_less)

text \<open>A fused branch jumps exactly when the compare's value tests as \<open>when\<close>.\<close>

lemma fused_branch_imm:
  assumes "cf_imm cf" "cmp_a c < 256" "fused_branch cf c when adjacent = Some (op, w0, w1)"
    and "op_table hl cm op = Some h" "text_seg vm (pc vm) = w0" "BEQW3 \<le> op \<longrightarrow> text_seg vm (pc vm + 2) = w1"
  shows "h vm = jump_if (cmp_sem cf (regs vm (cmp_a c)) (cmp_imm c) = when) (text_seg vm (pc vm + 1))
      (vm\<lparr>pc := pc vm + (if BEQW3 \<le> op then 3 else 2)\<rparr>)"
proof -
  define ra where "ra = (if when then imm_rel cf else arel_not (imm_rel cf))"
  have ra: "arel_sem (cf_uns cf) ra a b = (cmp_sem cf a b = when)" for a b
    by (simp add: ra_def imm_rel_sem arel_not_sem)
  note a = and_byte [OF assms(2)]
  consider (narrow) "fits_imm24 (cmp_imm c)" "op = imm_branch (cf_uns cf) ra"
      "w0 = of_nat (cmp_a c) OR push_bit 8 (ucast (cmp_imm c AND 0xFFFFFF))"
    | (wide) "fits_imm56 (cmp_imm c)" "op = wide_branch (cf_uns cf) ra"
      "w0 = of_nat (cmp_a c) OR push_bit 8 (ucast (drop_bit 32 (cmp_imm c) AND 0xFFFFFF))" "w1 = ucast (cmp_imm c)"
    using assms(1,3) unfolding fused_branch_def Let_def a ra_def [symmetric] by (simp split: if_split_asm)
  then show ?thesis
  proof cases
    case narrow
    have h: "h = br_imm_op (arel_sem (cf_uns cf) ra)" using assms(4) unfolding narrow(2) branch_handlers by simp
    show ?thesis unfolding h narrow(2) br_imm_op_def read_eqs
      using assms(5) branch_wide by (simp add: ra narrow(3) imm_word_reg br_imm24_enc narrow(1) assms(2) add.commute [of 2])
  next
    case wide
    have h: "h = br_wide_op (arel_sem (cf_uns cf) ra)" using assms(4) unfolding wide(2) branch_handlers by simp
    have "text_seg vm (pc vm + 2) = w1" using assms(6) branch_wide wide(2) by simp
    then show ?thesis unfolding h wide(2) br_wide_op_def read_eqs
      using assms(5) branch_wide by (simp add: ra wide(3,4) imm_word_reg br_imm56_enc wide(1) assms(2) add.assoc
        add.commute [of 3])
  qed
qed

lemma branch_rel_sem:
  assumes "branch_rel cf when = (rl', sw')"
  shows "cmp_sem (CmpForm rl' sw' (cf_uns cf) (cf_imm cf)) x y = (cmp_sem cf x y = when)"
proof -
  obtain rl sw u i where cf: "cf = CmpForm rl sw u i" by (cases cf)
  show ?thesis
  proof (cases "when")
    case False
    then show ?thesis using assms cmp_sem_negate [of sw u i x y] unfolding cf branch_rel_def by (cases rl) auto
  qed (use assms in \<open>auto simp: cf branch_rel_def\<close>)
qed

lemma fused_branch_reg:
  assumes "\<not> cf_imm cf" "cmp_a c < 256" "cmp_b c = Some b" "b < 256"
    and "fused_branch cf c when adjacent = Some (op, w0, w1)"
    and "op_table hl cm op = Some h" "text_seg vm (pc vm) = w0"
  shows "h vm = jump_if (cmp_sem cf (regs vm (cmp_a c)) (regs vm b) = when) (text_seg vm (pc vm + 1))
      (vm\<lparr>pc := pc vm + 2\<rparr>)" "\<not> BEQW3 \<le> op"
proof -
  obtain rl sw where p: "branch_rel cf when = (rl, sw)" by (cases "branch_rel cf when")
  define x where "x = (if sw then b else cmp_a c)"
  define y where "y = (if sw then cmp_a c else b)"
  let ?u = "cf_uns cf"
  have xy: "x < 256" "y < 256" using assms(2,4) by (simp_all add: x_def y_def)
  have "fused_branch cf c when adjacent = Some (case rl of REL_EQ \<Rightarrow> BEQ3 | REL_NE \<Rightarrow> BNE3
      | REL_LT \<Rightarrow> (if ?u then BULT3 else BLT3) | REL_LE \<Rightarrow> (if ?u then BULE3 else BLE3), ENCODE_RR x y, 0)"
    (is "_ = Some (?op, _)")
    using assms(1) unfolding fused_branch_def p Let_def prod.case assms(3) option.case x_def [symmetric]
      y_def [symmetric] and_byte [OF xy(1)] and_byte [OF xy(2)] ENCODE_RR_def by simp
  then have op: "op = ?op" and w0: "w0 = ENCODE_RR x y" using assms(5) by simp_all
  show "\<not> BEQW3 \<le> op" unfolding op by (rule reg_branch_narrow)
  have h: "h = br_op (cmp_sem (CmpForm rl False ?u (cf_imm cf)))"
    using assms(6) unfolding op reg_branch_handler [where im = "cf_imm cf"] by simp
  have "cmp_sem (CmpForm rl False ?u (cf_imm cf)) (regs vm x) (regs vm y) =
      (cmp_sem cf (regs vm (cmp_a c)) (regs vm b) = when)"
    unfolding branch_rel_sem [OF p, symmetric] x_def y_def by (cases sw) (simp_all add: cmp_sem_swap)
  then show "h vm = jump_if (cmp_sem cf (regs vm (cmp_a c)) (regs vm b) = when) (text_seg vm (pc vm + 1))
      (vm\<lparr>pc := pc vm + 2\<rparr>)"
    unfolding h br_op_def read_eqs
    by (simp add: assms(7) w0 opnd_byte_ENCODE_RR [OF xy, simplified] add.commute [of 2])
qed

lemma fused_branch_equiv:
  assumes "cmp_form (cmp_op c) = Some cf" "cmp_wf c" "fused_branch cf c when adjacent = Some (op, w0, w1)"
    and "op_table hl cm op = Some h" "text_seg vm (pc vm) = w0" "BEQW3 \<le> op \<longrightarrow> text_seg vm (pc vm + 2) = w1"
    and "cmp_value c (regs vm) = Inr v"
  shows "h vm = jump_if ((v \<noteq> 0) = when) (text_seg vm (pc vm + 1))
      (vm\<lparr>pc := pc vm + (if BEQW3 \<le> op then 3 else 2)\<rparr>)"
proof -
  have v: "(v \<noteq> 0) = cmp_sem cf (regs vm (cmp_a c)) (cmp_rhs c (regs vm))"
    using cmp_value_sem [OF assms(1,2), of "regs vm"] assms(7) by (simp add: c_bool_def split: if_split_asm)
  have a: "cmp_a c < 256" using assms(2) by (simp add: cmp_wf_def)
  show ?thesis
  proof (cases "cf_imm cf")
    case True
    then have "cmp_rhs c (regs vm) = cmp_imm c" using assms(1,2) by (auto simp: cmp_wf_def cmp_rhs_def)
    then show ?thesis using fused_branch_imm [OF True a assms(3-6)] v by simp
  next
    case False
    then obtain b where b: "cmp_b c = Some b" "b < 256" using assms(1,2) by (auto simp: cmp_wf_def)
    then show ?thesis using fused_branch_reg [OF False a b assms(3-5)] v by (simp add: cmp_rhs_def)
  qed
qed

subsection \<open>Branches on an extended value\<close>

definition ext_zero_facts :: "opcode \<Rightarrow> u8" where
  "ext_zero_facts op =
     (if op = SX1 \<or> op = ZX1 then X_SX1 OR X_ZX1
      else if op = SX2 \<or> op = ZX2 then X_SX2 OR X_ZX2
      else X_SX4 OR X_ZX4)"

text \<open>The new text and extension; \<open>None\<close> where the function returns false.\<close>

definition drop_branch_ext :: "text_words \<Rightarrow> insn \<Rightarrow> insn \<Rightarrow> u32 \<Rightarrow> (text_words \<times> insn) option" where
  "drop_branch_ext text x br after_br =
     (let rd = get_byte text x 0; rs = get_byte text x 1
      in if rd = REG_ZERO \<or> get_byte text br 0 \<noteq> rd \<or> after_br AND BIT rd \<noteq> 0 \<or>
            src_ext x AND ext_zero_facts (i_op x) = 0
         then None
         else Some (set_byte text br 0 rs, x\<lparr>dead := True\<rparr>))"

lemma low_bits_zero:
  assumes "take_bit n (a :: u64) = 0" "\<bar>sint a\<bar> < 2 ^ n" "n \<le> 63"
  shows "a = 0"
proof -
  have "take_bit n (uint a) = 0" using assms(1) by (metis unsigned_take_bit_eq unsigned_0)
  moreover have "take_bit n (sint a) = take_bit n (uint a)"
    using assms(3) by (simp add: sint_uint take_bit_signed_take_bit)
  ultimately have "take_bit n (sint a) = 0" by (rule trans [rotated])
  then have "2 ^ n dvd sint a" by (simp only: take_bit_eq_0_iff)
  then have "sint a = 0" using assms(2) dvd_imp_le_int [of "sint a" "2 ^ n"] by auto
  then show ?thesis by (simp add: signed_eq_0_iff)
qed

lemma sext_low_bits: "c_sext (Suc n) a = 0 \<Longrightarrow> n < 63 \<Longrightarrow> take_bit (Suc n) a = 0"
  by (metis Suc_leI c_sext_def diff_Suc_1 take_bit_of_0 take_bit_signed_take_bit order_refl)

lemma ext_zero_iff:
  assumes "x AND ext_zero_facts op \<noteq> 0" "ext_fits x (sint a)" "op \<in> {SX1, SX2, SX4, ZX1, ZX2, ZX4}"
    and "alu op = Some g" "g w a b c imm = Inr v"
  shows "v = 0 \<longleftrightarrow> a = 0"
proof
  assume v: "v = 0"
  have or: "x AND (y OR z) \<noteq> 0 \<Longrightarrow> x AND y \<noteq> 0 \<or> x AND z \<noteq> 0" for y z :: u8
    by (auto simp: bit.conj_disj_distrib)
  have bound: "\<bar>sint a\<bar> < 2 ^ 8" if "op \<in> {SX1, ZX1}"
    using or that assms(1,2) by (auto simp: ext_zero_facts_def X_and ext_fits_bits dest!: or)
  have bound2: "\<bar>sint a\<bar> < 2 ^ 16" if "op \<in> {SX2, ZX2}"
    using that assms(1,2) by (auto simp: ext_zero_facts_def X_and ext_fits_bits dest!: or)
  have bound4: "\<bar>sint a\<bar> < 2 ^ 32" if "op \<in> {SX4, ZX4}"
    using that assms(1,2) by (auto simp: ext_zero_facts_def X_and ext_fits_bits limits dest!: or)
  have low: "take_bit 8 a = 0" if "op \<in> {SX1, ZX1}"
    using that v assms(4,5) sext_low_bits [of 7 a] by (auto simp: alu_eval c_zext_def)
  have low2: "take_bit 16 a = 0" if "op \<in> {SX2, ZX2}"
    using that v assms(4,5) sext_low_bits [of 15 a] by (auto simp: alu_eval c_zext_def)
  have low4: "take_bit 32 a = 0" if "op \<in> {SX4, ZX4}"
    using that v assms(4,5) sext_low_bits [of 31 a] by (auto simp: alu_eval c_zext_def)
  show "a = 0"
    using assms(3) low_bits_zero [OF low bound] low_bits_zero [OF low2 bound2] low_bits_zero [OF low4 bound4]
    by auto
next
  assume "a = 0"
  then show "v = 0" using assms(3-5) by (auto simp: alu_eval c_sext_def c_zext_def)
qed

end
