(* ===== verification/Dataflow.thy ===== *)
theory Dataflow
  imports Main
begin

text \<open>
  The round-robin iteration the optimiser's backward analyses share (the loops of
  \<open>compute_liveness\<close>, \<open>src/src/codegen_peep.c\<close> line 679, and \<open>drop_unread_wraps\<close>, line 2293): blocks are
  visited from the last to the first, each recomputes its out-value from its successors and its
  in-value from that, and the sweep repeats until nothing changes. The locale \<open>backward_flow\<close> states
  what the iteration relies on; under it the loop ends with a solution of the flow equations.
\<close>

text \<open>The values at the start and at the end of every block.\<close>

type_synonym 'a flow = "(nat \<Rightarrow> 'a) \<times> (nat \<Rightarrow> 'a)"

definition flow_out :: "('a \<Rightarrow> 'a \<Rightarrow> 'a) \<Rightarrow> (nat \<Rightarrow> nat list) \<Rightarrow> (nat \<Rightarrow> 'a) \<Rightarrow> (nat \<Rightarrow> 'a) \<Rightarrow> nat \<Rightarrow> 'a" where
  "flow_out join succs base inn b = fold (\<lambda>s acc. join acc (inn s)) (succs b) (base b)"

definition flow_visit ::
  "('a \<Rightarrow> 'a \<Rightarrow> 'a) \<Rightarrow> (nat \<Rightarrow> nat list) \<Rightarrow> (nat \<Rightarrow> 'a) \<Rightarrow> (nat \<Rightarrow> 'a \<Rightarrow> 'a) \<Rightarrow> nat \<Rightarrow> 'a flow \<times> bool \<Rightarrow> 'a flow \<times> bool"
where
  "flow_visit join succs base tr b s =
     (let ((inn, out), again) = s;
          o1 = flow_out join succs base inn b;
          i1 = tr b o1
      in ((inn(b := i1), out(b := o1)), again \<or> i1 \<noteq> inn b))"

definition flow_sweep ::
  "('a \<Rightarrow> 'a \<Rightarrow> 'a) \<Rightarrow> (nat \<Rightarrow> nat list) \<Rightarrow> (nat \<Rightarrow> 'a) \<Rightarrow> (nat \<Rightarrow> 'a \<Rightarrow> 'a) \<Rightarrow> nat \<Rightarrow> 'a flow \<Rightarrow> 'a flow \<times> bool"
where
  "flow_sweep join succs base tr n s = fold (flow_visit join succs base tr) (rev [0..<n]) (s, False)"

text \<open>\<open>while (again)\<close>; \<open>None\<close> if it never ends.\<close>

partial_function (option) flow_loop :: "('s \<Rightarrow> 's \<times> bool) \<Rightarrow> 's \<Rightarrow> 's option" where
  "flow_loop sweep s = (let (s1, again) = sweep s in if again then flow_loop sweep s1 else Some s1)"

definition flow_solve ::
  "('a \<Rightarrow> 'a \<Rightarrow> 'a) \<Rightarrow> (nat \<Rightarrow> nat list) \<Rightarrow> (nat \<Rightarrow> 'a) \<Rightarrow> (nat \<Rightarrow> 'a \<Rightarrow> 'a) \<Rightarrow> nat \<Rightarrow> 'a \<Rightarrow> 'a flow option"
where
  "flow_solve join succs base tr n least =
     flow_loop (flow_sweep join succs base tr n) (\<lambda>_. least, \<lambda>_. least)"

text \<open>What the iteration relies on: a join on values ordered by \<open>le\<close>, a rank that strictly grows along
  \<open>le\<close> up to a bound, and monotone block transfers.\<close>

locale backward_flow =
  fixes le :: "'a \<Rightarrow> 'a \<Rightarrow> bool" and join :: "'a \<Rightarrow> 'a \<Rightarrow> 'a" and least :: 'a
    and rank :: "'a \<Rightarrow> nat" and bound :: nat
    and succs :: "nat \<Rightarrow> nat list" and base :: "nat \<Rightarrow> 'a" and tr :: "nat \<Rightarrow> 'a \<Rightarrow> 'a" and n :: nat
  assumes le_refl: "le a a"
    and le_trans: "le a b \<Longrightarrow> le b c \<Longrightarrow> le a c"
    and least_le: "le least a"
    and join_mono: "le a a' \<Longrightarrow> le b b' \<Longrightarrow> le (join a b) (join a' b')"
    and join_left: "le a (join a b)"
    and join_right: "le b (join a b)"
    and rank_less: "le a b \<Longrightarrow> a \<noteq> b \<Longrightarrow> rank a < rank b"
    and rank_bound: "rank a \<le> bound"
    and tr_mono: "le a b \<Longrightarrow> le (tr k a) (tr k b)"
begin

definition fout :: "(nat \<Rightarrow> 'a) \<Rightarrow> nat \<Rightarrow> 'a" where
  "fout inn b = flow_out join succs base inn b"

definition ascending :: "(nat \<Rightarrow> 'a) \<Rightarrow> bool" where
  "ascending inn \<longleftrightarrow> (\<forall>b. inn b = least \<or> le (inn b) (tr b (fout inn b)))"

definition solution :: "'a flow \<Rightarrow> bool" where
  "solution s \<longleftrightarrow> (\<forall>b < n. snd s b = fout (fst s) b \<and> fst s b = tr b (snd s b))"

lemma join_fold_mono:
  assumes "\<And>b. le (f b) (g b)" "le x y"
  shows "le (fold (\<lambda>s acc. join acc (f s)) xs x) (fold (\<lambda>s acc. join acc (g s)) xs y)"
  using assms(2) by (induction xs arbitrary: x y) (simp_all add: join_mono assms(1))

lemma fout_mono: "(\<And>b. le (f b) (g b)) \<Longrightarrow> le (fout f b) (fout g b)"
  unfolding fout_def flow_out_def by (rule join_fold_mono) (simp_all add: le_refl)

lemma join_fold_ge: "le x (fold (\<lambda>s acc. join acc (f s)) xs x)"
  by (induction xs arbitrary: x) (auto simp: le_refl intro: le_trans join_left)

lemma join_fold_upper: "s \<in> set xs \<Longrightarrow> le (f s) (fold (\<lambda>s acc. join acc (f s)) xs x)"
  by (induction xs arbitrary: x) (auto intro: le_trans join_right join_fold_ge)

text \<open>The out-value is above the in-value of every successor.\<close>

lemma fout_upper: "s \<in> set (succs b) \<Longrightarrow> le (f s) (fout f b)"
  unfolding fout_def flow_out_def by (rule join_fold_upper)

text \<open>A visit raises the in-value of its block and keeps the state ascending.\<close>

lemma visit_ascending:
  fixes b
  assumes "ascending inn"
  defines "i1 \<equiv> tr b (fout inn b)"
  shows "le (inn b) i1" "ascending (inn(b := i1))"
proof -
  show up: "le (inn b) i1" using assms(1) least_le [of i1] unfolding ascending_def i1_def by metis
  have le: "le (inn c) ((inn(b := i1)) c)" for c using up by (simp add: le_refl)
  have "le i1 (tr b (fout (inn(b := i1)) b))" unfolding i1_def
    by (rule tr_mono, rule fout_mono) (use le in \<open>simp add: i1_def\<close>)
  moreover have "le (inn c) (tr c (fout (inn(b := i1)) c))" if "inn c \<noteq> least" for c
  proof (rule le_trans)
    show "le (inn c) (tr c (fout inn c))" using assms(1) that by (auto simp: ascending_def)
    show "le (tr c (fout inn c)) (tr c (fout (inn(b := i1)) c))" by (rule tr_mono, rule fout_mono, rule le)
  qed
  ultimately show "ascending (inn(b := i1))" by (auto simp: ascending_def)
qed

definition slack :: "nat set \<Rightarrow> (nat \<Rightarrow> 'a) \<Rightarrow> nat" where
  "slack B inn = (\<Sum>b \<in> B. bound - rank (inn b))"

lemma slack_visit:
  assumes "le (inn b) v" "b \<in> B" "finite B"
  shows "slack B (inn(b := v)) \<le> slack B inn" "v \<noteq> inn b \<Longrightarrow> slack B (inn(b := v)) < slack B inn"
proof -
  have s: "slack B f = (bound - rank (f b)) + slack (B - {b}) f" for f
    unfolding slack_def using assms(2,3) by (rule sum.remove [rotated])
  have r: "slack (B - {b}) (inn(b := v)) = slack (B - {b}) inn"
    unfolding slack_def by (rule sum.cong) auto
  show "slack B (inn(b := v)) \<le> slack B inn"
    unfolding s [of "inn(b := v)"] s [of inn] r using rank_less [OF assms(1)] rank_bound [of v]
    by (cases "v = inn b") auto
  show "slack B (inn(b := v)) < slack B inn" if "v \<noteq> inn b"
    unfolding s [of "inn(b := v)"] s [of inn] r
    using rank_less [OF assms(1)] that rank_bound [of v] by auto
qed

text \<open>A run of visits: the state stays ascending; if none changed anything the visited blocks solve
  the equations, otherwise the slack shrank.\<close>

lemma visits:
  assumes "fold (flow_visit join succs base tr) bs ((inn, out), again) = ((inn', out'), again')"
    and "ascending inn" "set bs \<subseteq> {0..<n}"
  shows "ascending inn' \<and> slack {0..<n} inn' \<le> slack {0..<n} inn \<and>
    (again' \<longrightarrow> again \<or> slack {0..<n} inn' < slack {0..<n} inn) \<and>
    (\<not> again' \<longrightarrow> \<not> again \<and> inn' = inn \<and> (\<forall>b. out' b = (if b \<in> set bs then fout inn b else out b)) \<and>
       (\<forall>b \<in> set bs. inn b = tr b (fout inn b)))"
  using assms
proof (induction bs arbitrary: inn out again)
  case (Cons b bs)
  let ?i = "tr b (fout inn b)"
  have v: "flow_visit join succs base tr b ((inn, out), again) =
      ((inn(b := ?i), out(b := fout inn b)), again \<or> ?i \<noteq> inn b)"
    by (simp add: flow_visit_def Let_def fout_def)
  note up = visit_ascending [OF Cons.prems(2), of b]
  have b: "b \<in> {0..<n}" using Cons.prems(3) by simp
  note sl = slack_visit [where inn = inn and b = b, OF up(1) b finite_atLeastLessThan]
  note IH = Cons.IH [OF Cons.prems(1) [unfolded fold_Cons comp_apply v] up(2)]
  have bs: "set bs \<subseteq> {0..<n}" using Cons.prems(3) by simp
  show ?case
  proof (cases "?i = inn b")
    case True
    then have same: "inn(b := ?i) = inn" by (metis fun_upd_triv)
    show ?thesis using IH [OF bs] unfolding same by (auto simp: True)
  next
    case False
    define inn1 where "inn1 = inn(b := ?i)"
    from False show ?thesis using IH [OF bs] sl(2) [OF False] unfolding inn1_def [symmetric] by auto
  qed
qed simp

lemma sweep_cases:
  assumes "ascending (fst s)" "flow_sweep join succs base tr n s = (s', again)"
  shows "again \<Longrightarrow> ascending (fst s') \<and> slack {0..<n} (fst s') < slack {0..<n} (fst s)"
    and "\<not> again \<Longrightarrow> solution s'"
proof -
  obtain inn out inn' out' where s: "s = (inn, out)" "s' = (inn', out')" by (cases s; cases s')
  note v = visits [OF assms(2) [unfolded flow_sweep_def s] assms(1) [unfolded s fst_conv]]
  show "again \<Longrightarrow> ascending (fst s') \<and> slack {0..<n} (fst s') < slack {0..<n} (fst s)"
    using v s by auto
  show "\<not> again \<Longrightarrow> solution s'" using v s by (auto simp: solution_def)
qed

lemma loop_solves:
  assumes "ascending (fst s)"
  shows "\<exists>s'. flow_loop (flow_sweep join succs base tr n) s = Some s' \<and> solution s'"
  using assms
proof (induction "slack {0..<n} (fst s)" arbitrary: s rule: less_induct)
  case less
  obtain s1 again where sw: "flow_sweep join succs base tr n s = (s1, again)" by fastforce
  note c = sweep_cases [OF less.prems sw]
  show ?case
  proof (cases again)
    case True
    then show ?thesis using c(1) less.hyps [of s1] sw by (subst flow_loop.simps) simp
  next
    case False
    then show ?thesis using c(2) sw by (subst flow_loop.simps) simp
  qed
qed

theorem solve_solution:
  obtains s where "flow_solve join succs base tr n least = Some s" "solution s"
  using loop_solves [of "(\<lambda>_. least, \<lambda>_. least)"] unfolding flow_solve_def by (auto simp: ascending_def)

end

end
