(* ===== verification/Peep_Cfg.thy ===== *)
theory Peep_Cfg
  imports Peep_Fuse Dataflow
begin

text \<open>
  The optimiser's control-flow graph (\<open>src/src/codegen_peep.c\<close>, lines 469 to 708 and 2126 to 2178):
  branch targets, basic blocks and their successors, liveness over the blocks, unreachable code and
  jumps to the next instruction. The arrays of \<open>Peep\<close> become lists; \<open>at\<close> (word offset to instruction
  index) is the lookup \<open>at_pc\<close>; the successors of a block, \<open>edges[eoff .. eoff + nsucc)\<close> in the code,
  are its list \<open>b_succs\<close>.
\<close>

record block =
  b_first :: nat
  b_last :: nat
  b_succs :: "nat list"
  ext_entry :: bool

record peep =
  p_text :: text_words
  p_start :: u32
  p_end :: u32
  p_ins :: "insn list"
  p_blocks :: "block list"
  p_blk_of :: "nat list"
  p_changed :: bool
  p_seed :: "nat \<Rightarrow> u8"
  p_promoted :: u32

subsection \<open>Branch targets\<close>

definition in_window :: "peep \<Rightarrow> u32 \<Rightarrow> bool" where
  "in_window p t \<longleftrightarrow> p_start p \<le> t \<and> t < p_end p"

definition at_pc :: "insn list \<Rightarrow> u32 \<Rightarrow> nat option" where
  "at_pc is t = (case filter (\<lambda>i. i_pc (is ! i) = t) [0..<length is] of [] \<Rightarrow> None | i # _ \<Rightarrow> Some i)"

definition update_insn :: "nat \<Rightarrow> (insn \<Rightarrow> insn) \<Rightarrow> peep \<Rightarrow> peep" where
  "update_insn i f p = p\<lparr>p_ins := (p_ins p)[i := f (p_ins p ! i)]\<rparr>"

text \<open>\<open>None\<close> where the C functions return false.\<close>

definition mark_target :: "u32 \<Rightarrow> peep \<Rightarrow> peep option" where
  "mark_target t p =
     (if \<not> in_window p t then Some p
      else map_option (\<lambda>i. update_insn i (leader_update (\<lambda>_. True)) p) (at_pc (p_ins p) t))"

definition mark_address_target :: "u32 \<Rightarrow> peep \<Rightarrow> peep option" where
  "mark_address_target t p =
     (case mark_target t p of
        None \<Rightarrow> None
      | Some p1 \<Rightarrow>
          if in_window p1 t
          then map_option (\<lambda>i. update_insn i (addr_target_update (\<lambda>_. True)) p1) (at_pc (p_ins p1) t)
          else Some p1)"

fun mark_all :: "(u32 \<Rightarrow> peep \<Rightarrow> peep option) \<Rightarrow> u32 list \<Rightarrow> peep \<Rightarrow> peep option" where
  "mark_all mark [] p = Some p"
| "mark_all mark (t # ts) p = (case mark t p of None \<Rightarrow> None | Some p1 \<Rightarrow> mark_all mark ts p1)"

text \<open>The targets an instruction names, and whether they are taken as addresses (\<open>LTA3\<close>).\<close>

definition jump_table :: "text_words \<Rightarrow> u32 \<Rightarrow> u32 \<Rightarrow> u32 list" where
  "jump_table text table count = map (\<lambda>k. text (table + of_nat k)) [0..<unat count]"

definition insn_targets :: "text_words \<Rightarrow> insn \<Rightarrow> u32 list" where
  "insn_targets text i =
     (if i_op i = JMP then [text (i_pc i + 1)]
      else if i_op i = JZ3 \<or> i_op i = JNZ3 \<or> IS_FUSED_BR (i_op i) then [text (i_pc i + 2)]
      else if i_op i = JMPT
      then text (i_pc i + 3) # jump_table text (text (i_pc i + 1)) (text (i_pc i + 2))
      else [])"

definition mark_insn :: "insn \<Rightarrow> peep \<Rightarrow> peep option" where
  "mark_insn i p =
     (if i_op i = LTA3
      then mark_address_target (cc_byte_offset_to_pc (cc_read_i64_at (p_text p) (i_pc i + 2))) p
      else mark_all mark_target (insn_targets (p_text p) i) p)"

fun mark_insns :: "insn list \<Rightarrow> peep \<Rightarrow> peep option" where
  "mark_insns [] p = Some p"
| "mark_insns (i # is) p = (case mark_insn i p of None \<Rightarrow> None | Some p1 \<Rightarrow> mark_insns is p1)"

text \<open>\<open>labels\<close> holds the offsets of \<open>global_label_map\<close> from \<open>m.labels\<close> on.\<close>

definition mark_leaders :: "u32 list \<Rightarrow> peep \<Rightarrow> peep option" where
  "mark_leaders labels p =
     (case mark_insns (p_ins p) p of
        None \<Rightarrow> None
      | Some p1 \<Rightarrow>
          if list_ex (\<lambda>i. i_op i = JMPI) (p_ins p) then mark_all mark_address_target labels p1
          else Some p1)"

subsection \<open>Basic blocks\<close>

definition close_block :: "nat \<Rightarrow> block list \<Rightarrow> block list" where
  "close_block l bs = bs[length bs - 1 := (bs ! (length bs - 1))\<lparr>b_last := l\<rparr>]"

text \<open>One round of the loop of \<open>build_blocks\<close>; the state is the blocks, \<open>open\<close> and \<open>blk_of\<close>.\<close>

definition build_step ::
  "text_words \<Rightarrow> insn list \<Rightarrow> nat \<Rightarrow> block list \<times> bool \<times> nat list \<Rightarrow> block list \<times> bool \<times> nat list" where
  "build_step text is i s =
     (let (bs, opened, bi) = s;
          start = (\<not> opened \<or> leader (is ! i));
          bs1 = (if start
                 then (if opened then close_block i bs else bs) @
                      [\<lparr>b_first = i, b_last = 0, b_succs = [], ext_entry = (bs = [] \<or> addr_target (is ! i))\<rparr>]
                 else bs);
          bi1 = bi @ [length bs1 - 1]
      in if ctrl_kind text (is ! i) \<noteq> C_NONE then (close_block (i + 1) bs1, False, bi1)
         else (bs1, True, bi1))"

definition build_blocks :: "peep \<Rightarrow> peep" where
  "build_blocks p =
     (let n = length (p_ins p);
          (bs, opened, bi) = fold (build_step (p_text p) (p_ins p)) [0..<n] ([], False, [])
      in p\<lparr>p_blocks := (if opened then close_block n bs else bs), p_blk_of := bi\<rparr>)"

text \<open>\<open>count_blocks\<close> sizes the block array.\<close>

definition count_step :: "text_words \<Rightarrow> insn \<Rightarrow> nat \<times> bool \<Rightarrow> nat \<times> bool" where
  "count_step text i s =
     (let (count, opened) = s
      in (if \<not> opened \<or> leader i then count + 1 else count, ctrl_kind text i = C_NONE))"

definition count_blocks :: "peep \<Rightarrow> nat" where
  "count_blocks p = fst (fold (count_step (p_text p)) (p_ins p) (0, False))"

subsection \<open>Successors\<close>

definition target_block :: "peep \<Rightarrow> u32 \<Rightarrow> nat list" where
  "target_block p t =
     (if in_window p t then case at_pc (p_ins p) t of None \<Rightarrow> [] | Some i \<Rightarrow> [p_blk_of p ! i] else [])"

definition label_blocks :: "peep \<Rightarrow> nat list" where
  "label_blocks p =
     filter (\<lambda>b. addr_target (p_ins p ! b_first (p_blocks p ! b))) [0..<length (p_blocks p)]"

definition succs_of :: "peep \<Rightarrow> nat \<Rightarrow> nat list" where
  "succs_of p b =
     (let blk = p_blocks p ! b; last = p_ins p ! (b_last blk - 1); kind = ctrl_kind (p_text p) last
      in (if (kind = C_NONE \<or> kind = C_COND) \<and> b + 1 < length (p_blocks p) then [b + 1] else []) @
         (if kind = C_JMP \<or> kind = C_COND
          then target_block p (p_text p (i_pc last + (if i_op last = JMP then 1 else 2)))
          else if i_op last = JMPT \<and> \<not> dead last
          then concat (map (target_block p) (p_text p (i_pc last + 3) #
                 jump_table (p_text p) (i_pc last + 4) (p_text p (i_pc last + 2))))
          else if i_op last = JMPI \<and> \<not> dead last then label_blocks p
          else []))"

definition compute_succs :: "peep \<Rightarrow> peep" where
  "compute_succs p =
     p\<lparr>p_blocks := map (\<lambda>b. (p_blocks p ! b)\<lparr>b_succs := succs_of p b\<rparr>) [0..<length (p_blocks p)]\<rparr>"

subsection \<open>Liveness\<close>

definition block_insns :: "peep \<Rightarrow> nat \<Rightarrow> insn list" where
  "block_insns p b =
     (let blk = p_blocks p ! b in take (b_last blk - b_first blk) (drop (b_first blk) (p_ins p)))"

definition live_insns :: "text_words \<Rightarrow> insn list \<Rightarrow> u32 \<times> u32 \<Rightarrow> u32 \<times> u32" where
  "live_insns text is live = foldr (\<lambda>i l. if dead i then l else step_back text i l) is live"

definition join_live :: "u32 \<times> u32 \<Rightarrow> u32 \<times> u32 \<Rightarrow> u32 \<times> u32" where
  "join_live a b = (fst a OR fst b, snd a OR snd b)"

definition compute_liveness :: "peep \<Rightarrow> (u32 \<times> u32) flow option" where
  "compute_liveness p =
     flow_solve join_live (\<lambda>b. b_succs (p_blocks p ! b)) (\<lambda>_. (0, 0))
       (\<lambda>b. live_insns (p_text p) (block_insns p b)) (length (p_blocks p)) (0, 0)"

subsection \<open>Unreachable code and empty jumps\<close>

definition push_succ :: "nat \<Rightarrow> nat list \<times> bool list \<Rightarrow> nat list \<times> bool list" where
  "push_succ t s =
     (let (stack, seen) = s
      in if t < length seen \<and> \<not> seen ! t then (t # stack, seen[t := True]) else (stack, seen))"

definition unseen :: "bool list \<Rightarrow> nat" where
  "unseen seen = length (filter Not seen)"

lemma unseen_update: "t < length seen \<Longrightarrow> \<not> seen ! t \<Longrightarrow> Suc (unseen (seen[t := True])) = unseen seen"
  unfolding unseen_def by (induction seen arbitrary: t) (auto split: nat.splits simp: nth_Cons')

lemma push_succ_measure:
  "fold push_succ ts (stack, seen) = (stack', seen') \<Longrightarrow>
     2 * unseen seen' + length stack' \<le> 2 * unseen seen + length stack"
proof (induction ts arbitrary: stack seen)
  case (Cons t ts)
  then show ?case using unseen_update [of t seen]
    by (force simp: push_succ_def split: if_splits)
qed simp

function reach_loop :: "(nat \<Rightarrow> nat list) \<Rightarrow> nat list \<Rightarrow> bool list \<Rightarrow> bool list" where
  "reach_loop succs [] seen = seen"
| "reach_loop succs (b # stack) seen =
     (let (stack', seen') = fold push_succ (succs b) (stack, seen) in reach_loop succs stack' seen')"
  by pat_completeness auto
termination
  by (relation "measure (\<lambda>(succs, stack, seen). 2 * unseen seen + length stack)")
    (auto simp: less_Suc_eq_le split: prod.split dest!: push_succ_measure)

definition reached_blocks :: "peep \<Rightarrow> bool list" where
  "reached_blocks p =
     (let n = length (p_blocks p); entries = filter (\<lambda>b. ext_entry (p_blocks p ! b)) [0..<n]
      in reach_loop (\<lambda>b. b_succs (p_blocks p ! b)) (rev entries) (map ext_entry (p_blocks p)))"

definition drop_unreachable :: "peep \<Rightarrow> peep" where
  "drop_unreachable p =
     (let seen = reached_blocks p;
          gone = (\<lambda>i. \<exists>b \<in> set [0..<length (p_blocks p)]. \<not> seen ! b \<and>
                    b_first (p_blocks p ! b) \<le> i \<and> i < b_last (p_blocks p ! b))
      in p\<lparr>p_ins := map (\<lambda>i. if gone i then (p_ins p ! i)\<lparr>dead := True\<rparr> else p_ins p ! i) [0..<length (p_ins p)],
           p_changed := (p_changed p \<or> list_ex (\<lambda>i. gone i \<and> \<not> dead (p_ins p ! i)) [0..<length (p_ins p)])\<rparr>)"

definition next_live_pc :: "peep \<Rightarrow> nat \<Rightarrow> u32" where
  "next_live_pc p i =
     (case filter (\<lambda>j. \<not> dead (p_ins p ! j)) [i + 1..<length (p_ins p)] of [] \<Rightarrow> p_end p | j # _ \<Rightarrow> i_pc (p_ins p ! j))"

definition drop_jump_step :: "nat \<Rightarrow> peep \<Rightarrow> peep" where
  "drop_jump_step i p =
     (let j = p_ins p ! i;
          target = p_text p (i_pc j + (if i_op j = JMP then 1 else 2))
      in if dead j \<or> (i_op j \<noteq> JMP \<and> i_op j \<noteq> JZ3 \<and> i_op j \<noteq> JNZ3) then p
         else if i_pc j < target \<and> target \<le> next_live_pc p i
         then (update_insn i (dead_update (\<lambda>_. True)) p)\<lparr>p_changed := True\<rparr>
         else p)"

definition drop_jump_to_next :: "peep \<Rightarrow> peep" where
  "drop_jump_to_next p = fold drop_jump_step [0..<length (p_ins p)] p"

subsection \<open>Reachability of blocks\<close>

inductive reachable :: "nat \<Rightarrow> (nat \<Rightarrow> nat list) \<Rightarrow> nat set \<Rightarrow> nat \<Rightarrow> bool" for n succs entries where
  entry: "b \<in> entries \<Longrightarrow> b < n \<Longrightarrow> reachable n succs entries b"
| edge: "reachable n succs entries b \<Longrightarrow> t \<in> set (succs b) \<Longrightarrow> t < n \<Longrightarrow> reachable n succs entries t"

definition seen_set :: "bool list \<Rightarrow> nat set" where
  "seen_set seen = {b. b < length seen \<and> seen ! b}"

text \<open>The search invariant: the stack holds seen blocks, and every seen block off the stack has only
  seen successors.\<close>

definition search_inv :: "(nat \<Rightarrow> nat list) \<Rightarrow> nat list \<Rightarrow> bool list \<Rightarrow> bool" where
  "search_inv succs stack seen \<longleftrightarrow> set stack \<subseteq> seen_set seen \<and>
     (\<forall>b \<in> seen_set seen - set stack. \<forall>t \<in> set (succs b). t < length seen \<longrightarrow> t \<in> seen_set seen)"

lemma push_succs:
  assumes "fold push_succ ts (stack, seen) = (stack', seen')"
  shows "length seen' = length seen \<and> seen_set seen' = seen_set seen \<union> {t \<in> set ts. t < length seen} \<and>
    set stack \<subseteq> set stack' \<and> seen_set seen' - set stack' \<subseteq> seen_set seen - set stack \<and>
    set stack' \<subseteq> set stack \<union> seen_set seen'"
  using assms
proof (induction ts arbitrary: stack seen)
  case (Cons t ts)
  let ?s = "push_succ t (stack, seen)"
  obtain st1 seen1 where s1: "?s = (st1, seen1)" by fastforce
  have one: "length seen1 = length seen" "seen_set seen1 = seen_set seen \<union> {u. u = t \<and> t < length seen}"
      "set stack \<subseteq> set st1" "seen_set seen1 - set st1 \<subseteq> seen_set seen - set stack"
      "set st1 \<subseteq> set stack \<union> seen_set seen1"
    using s1 by (auto simp: push_succ_def seen_set_def nth_list_update split: if_splits)
  from Cons.IH [of st1 seen1] Cons.prems s1 have IH: "length seen' = length seen1"
    "seen_set seen' = seen_set seen1 \<union> {t \<in> set ts. t < length seen1}" "set st1 \<subseteq> set stack'"
    "seen_set seen' - set stack' \<subseteq> seen_set seen1 - set st1" "set stack' \<subseteq> set st1 \<union> seen_set seen'" by auto
  show ?case using one IH by auto
qed simp

lemma search_step:
  assumes "search_inv succs (b # stack) seen" "fold push_succ (succs b) (stack, seen) = (stack', seen')"
  shows "search_inv succs stack' seen'"
proof -
  have p: "length seen' = length seen" "seen_set seen' = seen_set seen \<union> {t \<in> set (succs b). t < length seen}"
    "set stack \<subseteq> set stack'" "seen_set seen' - set stack' \<subseteq> seen_set seen - set stack"
    "set stack' \<subseteq> set stack \<union> seen_set seen'"
    using push_succs [OF assms(2)] by - (elim conjE, assumption)+
  have old: "set (b # stack) \<subseteq> seen_set seen" using assms(1) unfolding search_inv_def by (rule conjunct1)
  have closed: "t \<in> seen_set seen" if "c \<in> seen_set seen" "c \<notin> set (b # stack)" "t \<in> set (succs c)" "t < length seen" for c t
    using assms(1) that unfolding search_inv_def by blast
  have "t \<in> seen_set seen'" if c: "c \<in> seen_set seen'" "c \<notin> set stack'" "t \<in> set (succs c)" "t < length seen'" for c t
  proof (cases "c = b")
    case True
    then show ?thesis using p(1,2) c(3,4) by simp
  next
    case False
    then have "c \<in> seen_set seen" "c \<notin> set (b # stack)" using False p(4) c(1,2) by auto
    then show ?thesis using closed c(3,4) p(1,2) by auto
  qed
  moreover have "set stack' \<subseteq> seen_set seen'" using p(2,5) old by auto
  ultimately show ?thesis unfolding search_inv_def by blast
qed

lemma reach_loop_closed:
  assumes "search_inv succs stack seen"
  shows "length (reach_loop succs stack seen) = length seen \<and> search_inv succs [] (reach_loop succs stack seen) \<and>
    seen_set seen \<subseteq> seen_set (reach_loop succs stack seen)"
  using assms
proof (induction succs stack seen rule: reach_loop.induct)
  case (2 succs b stack seen)
  obtain stack' seen' where f: "fold push_succ (succs b) (stack, seen) = (stack', seen')" by fastforce
  from "2.IH" [OF f [symmetric] refl search_step [OF "2.prems" f]] show ?case
    using push_succs [OF f] by (auto simp: f)
qed simp

lemma reach_loop_sound:
  assumes "\<And>b. b \<in> seen_set seen \<Longrightarrow> P b" "set stack \<subseteq> seen_set seen"
    and "\<And>b t. P b \<Longrightarrow> t \<in> set (succs b) \<Longrightarrow> t < length seen \<Longrightarrow> P t"
    and "b \<in> seen_set (reach_loop succs stack seen)"
  shows "P b"
  using assms
proof (induction succs stack seen rule: reach_loop.induct)
  case (2 succs c stack seen)
  obtain stack' seen' where f: "fold push_succ (succs c) (stack, seen) = (stack', seen')" by fastforce
  note p = push_succs [OF f]
  show ?case
  proof (rule "2.IH" [OF f [symmetric] refl])
    show "P d" if "d \<in> seen_set seen'" for d using that p "2.prems"(1-3) by auto
    show "set stack' \<subseteq> seen_set seen'" using p "2.prems"(2) by auto
    show "P t" if "P b" "t \<in> set (succs b)" "t < length seen'" for b t
      using "2.prems"(3) [OF that(1,2)] that(3) p by simp
    show "b \<in> seen_set (reach_loop succs stack' seen')" using "2.prems"(4) by (simp add: f)
  qed
qed simp

lemma reached_iff:
  fixes p
  defines "n \<equiv> length (p_blocks p)"
  shows "b < n \<Longrightarrow> reached_blocks p ! b \<longleftrightarrow>
    reachable n (\<lambda>b. b_succs (p_blocks p ! b)) {b. ext_entry (p_blocks p ! b)} b"
proof -
  let ?succs = "\<lambda>b. b_succs (p_blocks p ! b)" and ?seen = "map ext_entry (p_blocks p)"
  let ?stack = "rev (filter (\<lambda>b. ext_entry (p_blocks p ! b)) [0..<n])"
  let ?E = "{b. ext_entry (p_blocks p ! b)}"
  have r: "reached_blocks p = reach_loop ?succs ?stack ?seen" by (simp add: reached_blocks_def n_def)
  have s: "seen_set ?seen = set ?stack" by (auto simp: seen_set_def n_def)
  then have inv: "search_inv ?succs ?stack ?seen" by (simp add: search_inv_def)
  note c = reach_loop_closed [OF inv]
  have "reachable n ?succs ?E b \<Longrightarrow> b \<in> seen_set (reached_blocks p)" for b
  proof (induction rule: reachable.induct)
    case (entry b)
    then have "b \<in> seen_set ?seen" by (simp add: seen_set_def n_def)
    then show ?case using c unfolding r by blast
  next
    case (edge b t)
    then have "b \<in> seen_set (reached_blocks p)" "t < length ?seen" by (simp_all add: n_def)
    then show ?case using c edge(2) unfolding r search_inv_def by auto
  qed
  moreover have "reachable n ?succs ?E b" if "b \<in> seen_set (reached_blocks p)" for b
  proof (rule reach_loop_sound [OF _ _ _ that [unfolded r]])
    show "reachable n ?succs ?E b" if "b \<in> seen_set ?seen" for b
      using that by (auto simp: seen_set_def n_def intro: reachable.entry)
    show "set ?stack \<subseteq> seen_set ?seen" using s by simp
    show "reachable n ?succs ?E t" if "reachable n ?succs ?E b" "t \<in> set (?succs b)" "t < length ?seen" for b t
      using that by (auto simp: n_def intro: reachable.edge)
  qed
  moreover have "length (reached_blocks p) = n" using c unfolding r by (simp add: n_def)
  ultimately show "b < n \<Longrightarrow> reached_blocks p ! b \<longleftrightarrow> reachable n ?succs ?E b"
    unfolding seen_set_def by blast
qed

subsection \<open>Blocks partition the window\<close>

text \<open>The blocks closed so far cover the instructions before \<open>i\<close> without gaps; a leader or the
  instruction after a control transfer only starts a block.\<close>

definition chained :: "block list \<Rightarrow> nat \<Rightarrow> bool" where
  "chained bs i \<longleftrightarrow>
     (\<forall>k < length bs. b_first (bs ! k) < b_last (bs ! k) \<and>
        b_first (bs ! k) = (if k = 0 then 0 else b_last (bs ! (k - 1)))) \<and>
     (if bs = [] then i = 0 else b_last (last bs) = i)"

definition straight :: "text_words \<Rightarrow> insn list \<Rightarrow> block list \<Rightarrow> bool" where
  "straight text is bs \<longleftrightarrow>
     (\<forall>blk \<in> set bs. \<forall>j. b_first blk \<le> j \<and> j < b_last blk \<longrightarrow>
        (b_first blk < j \<longrightarrow> \<not> leader (is ! j)) \<and>
        (j + 1 < b_last blk \<longrightarrow> ctrl_kind text (is ! j) = C_NONE))"

text \<open>The state between two rounds: with an open block, closing it at \<open>i\<close> gives the blocks so far.\<close>

definition build_inv :: "text_words \<Rightarrow> insn list \<Rightarrow> nat \<Rightarrow> block list \<times> bool \<times> nat list \<Rightarrow> bool" where
  "build_inv text is i s =
     (let (bs, opened, bi) = s; bs1 = (if opened then close_block i bs else bs)
      in chained bs1 i \<and> straight text is bs1 \<and> length bi = i \<and>
         (opened \<longrightarrow> bs \<noteq> [] \<and> ctrl_kind text (is ! (i - 1)) = C_NONE) \<and>
         (\<forall>j < i. bi ! j < length bs \<and> b_first (bs1 ! (bi ! j)) \<le> j \<and> j < b_last (bs1 ! (bi ! j))))"

lemma close_block_append [simp]: "close_block l (bs @ [b]) = bs @ [b\<lparr>b_last := l\<rparr>]"
  by (simp add: close_block_def)

lemma chained_snoc:
  "chained (bs @ [b]) i \<longleftrightarrow> chained bs (b_first b) \<and> b_first b < b_last b \<and> b_last b = i"
proof
  assume c: "chained (bs @ [b]) i"
  then have n: "\<And>k. k < length bs \<Longrightarrow> b_first (bs ! k) < b_last (bs ! k) \<and>
      b_first (bs ! k) = (if k = 0 then 0 else b_last (bs ! (k - 1)))"
    unfolding chained_def by (metis less_SucI length_append_singleton nth_append less_imp_diff_less)
  have l: "b_first b < b_last b" "b_first b = (if bs = [] then 0 else b_last (last bs))" "b_last b = i"
    using c by (auto simp: chained_def nth_append last_conv_nth dest: spec [of _ "length bs"])
  from n have "\<forall>k < length bs. b_first (bs ! k) < b_last (bs ! k) \<and>
      b_first (bs ! k) = (if k = 0 then 0 else b_last (bs ! (k - 1)))" by blast
  moreover have "if bs = [] then b_first b = 0 else b_last (last bs) = b_first b" using l(2) by simp
  ultimately show "chained bs (b_first b) \<and> b_first b < b_last b \<and> b_last b = i"
    using l(1,3) unfolding chained_def by blast
next
  assume a: "chained bs (b_first b) \<and> b_first b < b_last b \<and> b_last b = i"
  then show "chained (bs @ [b]) i"
    by (auto simp: chained_def nth_append less_Suc_eq last_conv_nth split: if_splits)
qed

lemma straight_snoc:
  "straight text is (bs @ [b]) \<longleftrightarrow> straight text is bs \<and> straight text is [b]"
  by (auto simp: straight_def)

lemma straight_extend:
  assumes "straight text is [b\<lparr>b_last := i\<rparr>]" "\<not> leader (is ! i)" "ctrl_kind text (is ! (i - 1)) = C_NONE"
  shows "straight text is [b\<lparr>b_last := Suc i\<rparr>]"
  using assms by (auto simp: straight_def less_Suc_eq)

lemma straight_new: "straight text is [b] \<longleftrightarrow> True" if "b_last b = Suc (b_first b)"
  using that by (auto simp: straight_def less_Suc_eq)

text \<open>Closing the open block one instruction further.\<close>

definition covers :: "block list \<Rightarrow> nat list \<Rightarrow> bool" where
  "covers bs bi \<longleftrightarrow> (\<forall>j < length bi. bi ! j < length bs \<and> b_first (bs ! (bi ! j)) \<le> j \<and> j < b_last (bs ! (bi ! j)))"

lemma covers_snoc:
  assumes "covers bs bi" "b_first b = length bi" "b_last b = Suc (length bi)"
  shows "covers (bs @ [b]) (bi @ [length bs])"
  using assms by (auto simp: covers_def nth_append less_Suc_eq)

lemma covers_extend:
  assumes "covers (bs @ [b\<lparr>b_last := length bi\<rparr>]) bi" "b_first b \<le> length bi"
  shows "covers (bs @ [b\<lparr>b_last := Suc (length bi)\<rparr>]) (bi @ [length bs])"
proof -
  have "bi ! j < Suc (length bs) \<and> b_first ((bs @ [b\<lparr>b_last := Suc (length bi)\<rparr>]) ! (bi ! j)) \<le> j \<and>
      j < b_last ((bs @ [b\<lparr>b_last := Suc (length bi)\<rparr>]) ! (bi ! j))" if "j < length bi" for j
    using assms(1) that unfolding covers_def
    by (cases "bi ! j < length bs") (auto simp: nth_append dest!: spec [of _ j])
  note old = this
  show ?thesis unfolding covers_def
  proof (intro allI impI)
    fix j assume "j < length (bi @ [length bs])"
    then consider "j < length bi" | "j = length bi" by fastforce
    then show "(bi @ [length bs]) ! j < length (bs @ [b\<lparr>b_last := Suc (length bi)\<rparr>]) \<and>
        b_first ((bs @ [b\<lparr>b_last := Suc (length bi)\<rparr>]) ! ((bi @ [length bs]) ! j)) \<le> j \<and>
        j < b_last ((bs @ [b\<lparr>b_last := Suc (length bi)\<rparr>]) ! ((bi @ [length bs]) ! j))"
    proof cases
      case 1
      then show ?thesis using old [OF 1] by (simp add: nth_append [of bi])
    next
      case 2
      then show ?thesis using assms(2) by (simp add: nth_append)
    qed
  qed
qed

lemma build_inv_iff:
  "build_inv text is i (bs, opened, bi) \<longleftrightarrow>
     (let bs1 = (if opened then close_block i bs else bs)
      in chained bs1 i \<and> straight text is bs1 \<and> length bi = i \<and> covers bs1 bi \<and>
         (opened \<longrightarrow> bs \<noteq> [] \<and> ctrl_kind text (is ! (i - 1)) = C_NONE))"
  unfolding build_inv_def Let_def prod.case covers_def by (cases opened) (auto simp: close_block_def)

lemma build_step_inv:
  assumes "build_inv text is i s"
  shows "build_inv text is (Suc i) (build_step text is i s)"
proof -
  obtain bs opened bi where s: "s = (bs, opened, bi)" by (cases s)
  define cl where "cl = (if opened then close_block i bs else bs)"
  note inv = assms [unfolded s build_inv_iff Let_def, folded cl_def]
  show ?thesis
  proof (cases "\<not> opened \<or> leader (is ! i)")
    case True
    define b where "b = \<lparr>b_first = i, b_last = 0, b_succs = [], ext_entry = (bs = [] \<or> addr_target (is ! i))\<rparr>"
    let ?b = "b\<lparr>b_last := Suc i\<rparr>"
    have step: "build_step text is i s =
        (if ctrl_kind text (is ! i) \<noteq> C_NONE then (cl @ [?b], False, bi @ [length cl]) else (cl @ [b], True, bi @ [length cl]))"
      using True by (auto simp: build_step_def s Let_def b_def cl_def)
    have "chained (cl @ [?b]) (Suc i)" "straight text is (cl @ [?b])" "covers (cl @ [?b]) (bi @ [length cl])"
      using inv covers_snoc [of cl bi ?b] straight_new [of ?b] by (auto simp: chained_snoc straight_snoc b_def)
    then show ?thesis using inv unfolding step by (auto simp: build_inv_iff)
  next
    case False
    then have o: "opened" "\<not> leader (is ! i)" by auto
    then have ne: "bs \<noteq> []" using inv by simp
    then obtain bs' b where bs: "bs = bs' @ [b]" by (metis rev_exhaust)
    let ?b = "b\<lparr>b_last := Suc i\<rparr>"
    have step: "build_step text is i s =
        (if ctrl_kind text (is ! i) \<noteq> C_NONE then (bs' @ [?b], False, bi @ [length bs']) else (bs' @ [b], True, bi @ [length bs']))"
      using False by (auto simp: build_step_def s Let_def bs)
    have d: "cl = bs' @ [b\<lparr>b_last := i\<rparr>]" using o by (simp add: cl_def bs)
    have "chained (bs' @ [?b]) (Suc i)" using inv unfolding d chained_snoc by simp
    moreover have "straight text is (bs' @ [?b])"
      using inv straight_extend [where b = b and i = i] o unfolding d straight_snoc by auto
    moreover have "covers (bs' @ [?b]) (bi @ [length bs'])"
      using inv covers_extend [where bs = bs' and b = b and bi = bi] unfolding d chained_snoc by simp
    ultimately show ?thesis using inv unfolding step by (auto simp: build_inv_iff)
  qed
qed

lemma build_blocks_inv:
  assumes "build_blocks p = p'"
  shows "chained (p_blocks p') (length (p_ins p)) \<and> straight (p_text p) (p_ins p) (p_blocks p') \<and>
    length (p_blk_of p') = length (p_ins p) \<and> covers (p_blocks p') (p_blk_of p')"
proof -
  let ?n = "length (p_ins p)"
  have "build_inv (p_text p) (p_ins p) n (fold (build_step (p_text p) (p_ins p)) [0..<n] ([], False, []))" for n
    by (induction n) (simp_all add: build_step_inv build_inv_iff chained_def straight_def covers_def)
  from this [of ?n] show ?thesis using assms
    by (auto simp: build_blocks_def Let_def build_inv_iff split: prod.splits if_splits)
qed

lemma length_close_block [simp]: "length (close_block l bs) = length bs"
  by (simp add: close_block_def)

lemma count_matches:
  "n \<le> length (p_ins p) \<Longrightarrow>
   (case fold (build_step (p_text p) (p_ins p)) [0..<n] ([], False, []) of (bs, opened, bi) \<Rightarrow>
     fold (count_step (p_text p)) (take n (p_ins p)) (0, False) = (length bs, opened))"
proof (induction n)
  case (Suc n)
  obtain bs opened bi where f: "fold (build_step (p_text p) (p_ins p)) [0..<n] ([], False, []) = (bs, opened, bi)"
    by (metis prod_cases3)
  have t: "take (Suc n) (p_ins p) = take n (p_ins p) @ [p_ins p ! n]" using Suc.prems by (simp add: take_Suc_conv_app_nth)
  have IH: "fold (count_step (p_text p)) (take n (p_ins p)) (0, False) = (length bs, opened)" using Suc f by simp
  show ?case unfolding upt_Suc_append [OF le0] fold_append comp_apply t IH f
    by (auto simp: build_step_def count_step_def Let_def)
qed simp

lemma count_blocks_length: "length (p_blocks (build_blocks p)) = count_blocks p"
  using count_matches [of "length (p_ins p)" p]
  by (auto simp: build_blocks_def count_blocks_def Let_def split: prod.splits)

subsection \<open>Liveness of blocks\<close>

definition le32 :: "u32 \<Rightarrow> u32 \<Rightarrow> bool" where
  "le32 a b \<longleftrightarrow> (\<forall>n < 32. bit a n \<longrightarrow> bit b n)"

definition rank32 :: "u32 \<Rightarrow> nat" where
  "rank32 a = card {n. n < 32 \<and> bit a n}"

lemma le32_eqI: "le32 a b \<Longrightarrow> le32 b a \<Longrightarrow> a = b"
  unfolding le32_def by (rule bit_word_eqI) auto

lemma rank32_le: "le32 a b \<Longrightarrow> rank32 a \<le> rank32 b"
  unfolding rank32_def le32_def by (rule card_mono) auto

lemma rank32_less:
  assumes "le32 a b" "a \<noteq> b" shows "rank32 a < rank32 b"
proof -
  have "\<not> le32 b a" using assms le32_eqI by blast
  then show ?thesis using assms(1) unfolding rank32_def le32_def by (intro psubset_card_mono) auto
qed

lemma rank32_bound: "rank32 a \<le> 32"
proof -
  have "card {n. n < 32 \<and> bit a n} \<le> card {n :: nat. n < 32}" by (rule card_mono) auto
  then show ?thesis by (simp add: rank32_def)
qed

definition le_live :: "u32 \<times> u32 \<Rightarrow> u32 \<times> u32 \<Rightarrow> bool" where
  "le_live a b \<longleftrightarrow> le32 (fst a) (fst b) \<and> le32 (snd a) (snd b)"

lemma live_insns_mono: "le_live a b \<Longrightarrow> le_live (live_insns text is a) (live_insns text is b)"
  unfolding live_insns_def
  by (induction "is") (auto simp: le_live_def le32_def step_back_def Let_def bit_or_iff bit_and_iff)

interpretation live: backward_flow le_live join_live "(0, 0)" "\<lambda>a. rank32 (fst a) + rank32 (snd a)" 64
  "\<lambda>b. b_succs (p_blocks p ! b)" "\<lambda>_. (0, 0)" "\<lambda>b. live_insns (p_text p) (block_insns p b)"
  "length (p_blocks p)" for p
proof
  show "rank32 (fst a) + rank32 (snd a) < rank32 (fst b) + rank32 (snd b)" if "le_live a b" "a \<noteq> b" for a b
  proof (cases "fst a = fst b")
    case True
    then have "snd a \<noteq> snd b" using that(2) by (simp add: prod_eq_iff)
    then show ?thesis using that(1) rank32_less True by (simp add: le_live_def)
  next
    case False
    then show ?thesis using that(1) rank32_less [of "fst a" "fst b"] rank32_le [of "snd a" "snd b"]
      by (simp add: le_live_def)
  qed
  show "rank32 (fst a) + rank32 (snd a) \<le> 64" for a :: "u32 \<times> u32"
    using rank32_bound [of "fst a"] rank32_bound [of "snd a"] by simp
  show "le_live (live_insns (p_text p) (block_insns p k) a) (live_insns (p_text p) (block_insns p k) b)"
    if "le_live a b" for k a b using that by (rule live_insns_mono)
qed (auto simp: le_live_def le32_def join_live_def bit_or_iff)

lemma compute_liveness_solution:
  obtains inn out where "compute_liveness p = Some (inn, out)"
    and "\<And>b. b < length (p_blocks p) \<Longrightarrow> inn b = live_insns (p_text p) (block_insns p b) (out b)"
    and "\<And>b s. b < length (p_blocks p) \<Longrightarrow> s \<in> set (b_succs (p_blocks p ! b)) \<Longrightarrow> le_live (inn s) (out b)"
proof -
  obtain s where s: "compute_liveness p = Some s" "live.solution p s"
    using live.solve_solution [of p] unfolding compute_liveness_def by blast
  obtain inn out where i: "s = (inn, out)" by (cases s)
  have "inn b = live_insns (p_text p) (block_insns p b) (out b)"
    "out b = live.fout p inn b" if "b < length (p_blocks p)" for b
    using s(2) that unfolding i live.solution_def by simp_all
  then show thesis using that [of inn out] s(1) live.fout_upper [of _ p] unfolding i by metis
qed

subsection \<open>Properties\<close>

text \<open>
  C26: \<open>build_blocks\<close> partitions the window: the blocks are non-empty and follow
  each other without gaps from the first instruction to the last, a branch target or an instruction
  after a control transfer only starts a block, control leaves a block only at its last instruction,
  and \<open>blk_of\<close> names the block of every instruction.
\<close>

theorem build_blocks_partition:
  "chained (p_blocks (build_blocks p)) (length (p_ins p)) \<and>
   straight (p_text p) (p_ins p) (p_blocks (build_blocks p)) \<and>
   length (p_blk_of (build_blocks p)) = length (p_ins p) \<and>
   covers (p_blocks (build_blocks p)) (p_blk_of (build_blocks p))"
  by (rule build_blocks_inv [OF refl])

text \<open>Three instructions in two blocks: \<open>JZ3 r11, 3; MOV3 r12, r11; LEV3\<close>, the last a target.\<close>

definition jz_text :: "u32 \<Rightarrow> u32" where
  "jz_text = (\<lambda>_. 0)(0 := of_nat JZ3, 1 := 11, 2 := 5, 3 := of_nat MOV3, 4 := ENCODE_RR 12 11, 5 := of_nat LEV3)"

definition jz_peep :: peep where
  "jz_peep = \<lparr>p_text = jz_text, p_start = 0, p_end = 6,
     p_ins = [decode_insn jz_text 0 3, decode_insn jz_text 3 2, (decode_insn jz_text 5 1)\<lparr>leader := True\<rparr>],
     p_blocks = [], p_blk_of = [], p_changed = False, p_seed = (\<lambda>_. 0), p_promoted = 0\<rparr>"

text \<open>
  C27: \<open>count_blocks\<close>, which sizes the block array before it is filled, returns exactly
  the number of blocks \<open>build_blocks\<close> writes, so the array is never overrun.
\<close>

theorem count_blocks_exact: "length (p_blocks (build_blocks p)) = count_blocks p"
  by (rule count_blocks_length)

text \<open>
  C17: The depth-first search of \<open>drop_unreachable\<close> ends, and marks a block as seen
  exactly when a path along successor edges leads to it from a block that can be entered from
  outside the graph.
\<close>

theorem unreachable_exact:
  assumes "b < length (p_blocks p)"
  shows "reached_blocks p ! b \<longleftrightarrow>
    reachable (length (p_blocks p)) (\<lambda>b. b_succs (p_blocks p ! b)) {b. ext_entry (p_blocks p ! b)} b"
  by (rule reached_iff [OF assms])

definition three_blocks :: peep where
  "three_blocks = jz_peep\<lparr>p_blocks :=
     [\<lparr>b_first = 0, b_last = 1, b_succs = [2], ext_entry = True\<rparr>,
      \<lparr>b_first = 1, b_last = 2, b_succs = [2], ext_entry = False\<rparr>,
      \<lparr>b_first = 2, b_last = 3, b_succs = [], ext_entry = False\<rparr>]\<rparr>"

theorem unreachable_exact_witness:
  "reached_blocks three_blocks ! 2 \<and> \<not> reached_blocks three_blocks ! 1 \<and>
   reachable 3 (\<lambda>b. b_succs (p_blocks three_blocks ! b)) {b. ext_entry (p_blocks three_blocks ! b)} 2"
proof -
  have r: "reached_blocks three_blocks = [True, False, True]"
    by (simp add: reached_blocks_def three_blocks_def push_succ_def)
  have n: "length (p_blocks three_blocks) = 3" by (simp add: three_blocks_def)
  show ?thesis using unreachable_exact [of 2 three_blocks, unfolded n] r by simp
qed

text \<open>
  C16: \<open>compute_liveness\<close> ends on every block graph, and its result solves the flow
  equations: a block's live-in set is the backward transfer of its live-out set through its
  instructions, and its live-out set contains the live-in set of every successor.
\<close>

theorem liveness_terminates:
  "\<exists>inn out. compute_liveness p = Some (inn, out) \<and>
     (\<forall>b < length (p_blocks p). inn b = live_insns (p_text p) (block_insns p b) (out b) \<and>
        (\<forall>s \<in> set (b_succs (p_blocks p ! b)). le_live (inn s) (out b)))"
proof (rule compute_liveness_solution [of p])
  fix inn out
  assume "compute_liveness p = Some (inn, out)"
    and "\<And>b. b < length (p_blocks p) \<Longrightarrow> inn b = live_insns (p_text p) (block_insns p b) (out b)"
    and "\<And>b s. b < length (p_blocks p) \<Longrightarrow> s \<in> set (b_succs (p_blocks p ! b)) \<Longrightarrow> le_live (inn s) (out b)"
  then show ?thesis by blast
qed

theorem liveness_terminates_witness:
  "\<exists>inn out. compute_liveness three_blocks = Some (inn, out) \<and>
     inn 0 = live_insns jz_text (block_insns three_blocks 0) (out 0) \<and> le_live (inn 2) (out 0)"
proof -
  obtain inn out where c: "compute_liveness three_blocks = Some (inn, out)"
    and e: "\<forall>b < length (p_blocks three_blocks). inn b = live_insns (p_text three_blocks) (block_insns three_blocks b) (out b) \<and>
        (\<forall>s \<in> set (b_succs (p_blocks three_blocks ! b)). le_live (inn s) (out b))"
    using liveness_terminates [of three_blocks] by blast
  have "0 < length (p_blocks three_blocks)" "2 \<in> set (b_succs (p_blocks three_blocks ! 0))" "p_text three_blocks = jz_text"
    by (simp_all add: three_blocks_def jz_peep_def)
  then show ?thesis using c e by metis
qed

end
