(* ===== verification/Peep_Block.thy ===== *)
theory Peep_Block
  imports Peep_Cfg
begin

text \<open>
  Straight-line execution of decoded instructions, and what the block-level liveness means for it:
  two machines that agree on the registers live at the start of a run of known instructions end with
  the same fault or agree on the registers live at its end. Instructions marked dead are skipped, as
  compaction removes them.
\<close>

subsection \<open>Handlers keep the text segment\<close>

definition keeps_text :: "(vm \<Rightarrow> step) \<Rightarrow> bool" where
  "keeps_text h \<longleftrightarrow> (\<forall>vm vm'. h vm = Inr vm' \<longrightarrow> text_seg vm' = text_seg vm)"

lemma vm_stack_grow_text: "vm_stack_grow c vm n = Some vm' \<Longrightarrow> text_seg vm' = text_seg vm"
  by (auto simp: vm_stack_grow_def Let_def split: if_splits)

lemma check_stack_overflow_text: "check_stack_overflow c vm n = Some vm' \<Longrightarrow> text_seg vm' = text_seg vm"
  by (auto simp: check_stack_overflow_def split: if_splits dest: vm_stack_grow_text)

lemmas text_defs = keeps_text_def skeleton_defs shift_imm_op_def wrap_shl_op_def checked_arith_op_def
  load_op_def store_op_def index_load_op_def index_store_op_def local_load_op_def local_store_op_def
  br_op_def br_imm_op_def br_wide_op_def bit_scan_op_def jump_if_def put_reg_def set_reg_def COMPTIME_CONTAIN_def read_eqs

lemma keeps_text_skeletons [simp]:
  "keeps_text (rrr_op g)" "keeps_text (rr_op f)" "keeps_text (rri_op g)" "keeps_text (shift_imm_op s)"
  "keeps_text (rr_op_raw f)" "keeps_text (rrr_op_raw g)" "keeps_text (rri_op_raw g)" "keeps_text (wrap_shl_op f)"
  "keeps_text (checked_arith_op k)" "keeps_text (load_op n ld hl)" "keeps_text (store_op n st hl)"
  "keeps_text (index_load_op n ld hl)" "keeps_text (index_store_op n st hl)"
  "keeps_text (local_load_op ld)" "keeps_text (local_store_op st)"
  "keeps_text (br_op r)" "keeps_text (br_imm_op r)" "keeps_text (br_wide_op r)" "keeps_text (bit_scan_op b)"
  by (auto simp: text_defs split: if_splits)

lemma keeps_text_singles [simp]:
  "keeps_text op_DIV3_fn" "keeps_text op_DIVC_fn" "keeps_text op_MOD3_fn" "keeps_text op_UDIV3_fn"
  "keeps_text op_UMOD3_fn" "keeps_text op_LI3_fn" "keeps_text op_LDA3_fn" "keeps_text op_MULADD3_fn"
  "keeps_text op_MULADDI3_fn" "keeps_text op_UBFX_fn" "keeps_text op_SBFX_fn" "keeps_text op_BFI_fn"
  "keeps_text op_JMP_fn" "keeps_text op_JZ3_fn" "keeps_text op_JNZ3_fn" "keeps_text op_JMPT_fn"
  "keeps_text op_JMPI_fn" "keeps_text op_ADJ_fn" "keeps_text op_POP3_fn" "keeps_text (op_PSH3_fn c)"
  "keeps_text (op_CALL_fn c)"
  by (auto simp: text_defs op_DIV3_fn_eq op_DIVC_fn_eq op_MOD3_fn_def op_UDIV3_fn_def
      op_UMOD3_fn_def op_LI3_fn_def op_LDA3_fn_def op_MULADD3_fn_def op_MULADDI3_fn_def
      op_UBFX_fn_def op_SBFX_fn_def op_BFI_fn_def op_JMP_fn_def op_JZ3_fn_def op_JNZ3_fn_def
      op_JMPT_fn_def op_JMPI_fn_def op_ADJ_fn_def op_POP3_fn_def op_PSH3_fn_def op_CALL_fn_def
      push_slot_def push_shadow_def split: if_splits option.splits dest!: check_stack_overflow_text)

lemma keeps_text_builtins [simp]:
  "keeps_text op_LDTLS3_fn" "keeps_text op_LTA3_fn" "keeps_text op_LEA3_fn" "keeps_text (op_IOVFL_fn hl)"
  "keeps_text (op_ALDR_fn hl)" "keeps_text (op_ASTR_fn hl)" "keeps_text (op_AXCHG_fn hl)"
  "keeps_text (op_ACAS_fn hl)" "keeps_text (op_MCPY_fn hl)" "keeps_text (op_MSET_fn hl)"
  by (auto simp: text_defs op_LDTLS3_fn_def op_LTA3_fn_def op_LEA3_fn_def op_IOVFL_fn_def op_ALDR_fn_def
      op_ASTR_fn_def op_AXCHG_fn_def op_ACAS_fn_def op_MCPY_fn_def op_MSET_fn_def
      split: if_splits option.splits prod.splits)

lemma handlers_keep_text: "list_all (\<lambda>(op, h). keeps_text h) (handlers hl cm)"
  by (simp add: handlers_def handler_defs)

lemma handler_keeps_text:
  assumes "op_table hl cm op = Some h" "h vm = Inr vm'"
  shows "text_seg vm' = text_seg vm"
  using handlers_keep_text [of hl cm] map_of_SomeD [of "handlers hl cm" op h] assms
  by (auto simp: op_table_def list_all_iff keeps_text_def)

subsection \<open>Running a list of instructions\<close>

definition exec_insn :: "host_ranges \<Rightarrow> committer \<Rightarrow> insn \<Rightarrow> vm \<Rightarrow> step" where
  "exec_insn hl cm i vm =
     (case op_table hl cm (i_op i) of
        None \<Rightarrow> Inl (Not_Modelled, vm)
      | Some h \<Rightarrow> h (vm\<lparr>pc := i_pc i + 1\<rparr>))"

fun exec_insns :: "host_ranges \<Rightarrow> committer \<Rightarrow> insn list \<Rightarrow> vm \<Rightarrow> step" where
  "exec_insns hl cm [] vm = Inr vm"
| "exec_insns hl cm (i # is) vm =
     (if dead i then exec_insns hl cm is vm
      else case exec_insn hl cm i vm of Inl e \<Rightarrow> Inl e | Inr vm1 \<Rightarrow> exec_insns hl cm is vm1)"

definition runnable :: "host_ranges \<Rightarrow> committer \<Rightarrow> text_words \<Rightarrow> insn \<Rightarrow> bool" where
  "runnable hl cm text i \<longleftrightarrow> dead i \<or> known i \<and> insn_wf text i \<and> op_table hl cm (i_op i) \<noteq> None"

text \<open>Machines that agree on some registers, whatever their pc.\<close>

definition agree_pc :: "nat set \<Rightarrow> vm \<Rightarrow> vm \<Rightarrow> bool" where
  "agree_pc L vm vm' \<longleftrightarrow> agree L (vm\<lparr>pc := 0\<rparr>) (vm'\<lparr>pc := 0\<rparr>)"

fun agree_pc_step :: "nat set \<Rightarrow> step \<Rightarrow> step \<Rightarrow> bool" where
  "agree_pc_step L (Inr vm) (Inr vm') = agree_pc L vm vm'"
| "agree_pc_step L (Inl (e, vm)) (Inl (e', vm')) = (e = e')"
| "agree_pc_step L _ _ = False"

lemma agree_fields:
  "agree L vm vm' \<longleftrightarrow> (\<forall>r \<in> L. regs vm' r = regs vm r) \<and> pc vm' = pc vm \<and> agree_pc L vm vm'"
  by (cases vm, cases vm') (auto simp: agree_def agree_pc_def)

lemma agree_set_pc: "agree_pc L vm vm' \<Longrightarrow> agree L (vm\<lparr>pc := p\<rparr>) (vm'\<lparr>pc := p\<rparr>)"
  by (cases vm, cases vm') (auto simp: agree_def agree_pc_def)

lemma agree_pc_text: "agree_pc L vm vm' \<Longrightarrow> text_seg vm' = text_seg vm"
  by (cases vm, cases vm') (auto simp: agree_def agree_pc_def)

lemma agree_step_pc: "agree_step L s s' \<Longrightarrow> agree_pc_step L s s'"
  by (induction L s s' rule: agree_step.induct) (auto simp: agree_fields)

lemma agree_pc_step_split:
  assumes "agree_pc_step L s s'"
  shows "(\<exists>e vm vm'. s = Inl (e, vm) \<and> s' = Inl (e, vm')) \<or> (\<exists>vm vm'. s = Inr vm \<and> s' = Inr vm' \<and> agree_pc L vm vm')"
  using assms by (induction L s s' rule: agree_pc_step.induct) auto

subsection \<open>Liveness of a run\<close>

lemma live_insns_Cons:
  "live_insns text (i # is) l = (if dead i then live_insns text is l else step_back text i (live_insns text is l))"
  by (simp add: live_insns_def)

lemma exec_insns_agree:
  assumes "list_all (runnable hl cm text) is" "text_seg vm = text"
    and "agree_pc (live_regs (fst (live_insns text is (L, F)))) vm vm'"
  shows "agree_pc_step (live_regs L) (exec_insns hl cm is vm) (exec_insns hl cm is vm')"
  using assms
proof (induction "is" arbitrary: vm vm')
  case (Cons i "is")
  show ?case
  proof (cases "dead i")
    case True
    then show ?thesis using Cons by (simp add: live_insns_Cons)
  next
    case False
    let ?v = "vm\<lparr>pc := i_pc i + 1\<rparr>" and ?v' = "vm'\<lparr>pc := i_pc i + 1\<rparr>"
    obtain L1 F1 where l1: "live_insns text is (L, F) = (L1, F1)" by (cases "live_insns text is (L, F)")
    obtain h where h: "op_table hl cm (i_op i) = Some h" "known i" "insn_wf text i"
      using Cons.prems(1) False by (auto simp: runnable_def)
    have "agree (live_regs (fst (step_back (text_seg ?v) i (L1, F1)))) ?v ?v'"
      using agree_set_pc [OF Cons.prems(3)] False Cons.prems(2) by (simp add: live_insns_Cons l1)
    then have "agree_step (live_regs L1) (h ?v) (h ?v')"
      using step_back_agree [OF h(2) _ h(1), of ?v] h(3) Cons.prems(2) by simp
    then consider e w w' where "h ?v = Inl (e, w)" "h ?v' = Inl (e, w')"
      | w w' where "h ?v = Inr w" "h ?v' = Inr w'" "agree_pc (live_regs L1) w w'"
      using agree_pc_step_split [OF agree_step_pc] by metis
    then show ?thesis
    proof cases
      case 1
      then show ?thesis using False h(1) by (simp add: exec_insn_def)
    next
      case 2
      have "text_seg w = text" using handler_keeps_text [OF h(1) 2(1)] Cons.prems(2) by simp
      then show ?thesis using Cons.IH [of w w'] Cons.prems(1) 2 False h(1) by (simp add: exec_insn_def l1)
    qed
  qed
qed (simp add: live_insns_def)

lemma agree_trans: "agree_pc L a b \<Longrightarrow> agree_pc L b c \<Longrightarrow> agree_pc L a c"
  by (cases a, cases b, cases c) (auto simp: agree_pc_def agree_def)

subsection \<open>Properties\<close>

text \<open>
  C9: Block liveness is sound for execution: when two machines agree on the integer
  registers the analysis reports live at the start of a run of known instructions (and on memory,
  stack and text), running it ends in the same fault on both, or in machines that agree on the
  registers live at its end.
\<close>

theorem block_liveness_sound:
  assumes "list_all (runnable hl cm text) is" "text_seg vm = text"
    and "agree_pc (live_regs (fst (live_insns text is (L, F)))) vm vm'"
  shows "agree_pc_step (live_regs L) (exec_insns hl cm is vm) (exec_insns hl cm is vm')"
  by (rule exec_insns_agree [OF assms])

theorem block_liveness_sound_witness:
  "agree_pc_step (live_regs (BIT 10)) (exec_insns (\<lambda>_ _. 0) (\<lambda>_ _ _. True) [addi_insn] addi_vm)
     (exec_insns (\<lambda>_ _. 0) (\<lambda>_ _ _. True) [addi_insn] addi_other)"
proof -
  have r: "list_all (runnable (\<lambda>_ _. 0) (\<lambda>_ _ _. True) addi_text) [addi_insn]"
    by (simp add: runnable_def addi_insn_simps addi_machine op_table_alu)
  have "agree_pc (live_regs (fst (live_insns addi_text [addi_insn] (BIT 10, 0)))) addi_vm addi_other"
    by (auto simp: addi_machine live_insns_def addi_insn_simps step_back_def addi_effects agree_pc_def agree_def
        live_regs_def addi_other_def bit_or_iff bit_BIT bit_and_iff bit_not_iff)
  from block_liveness_sound [OF r addi_machine(1) this] show ?thesis .
qed

end
