(* ===== verification/Peep_Wrap.thy ===== *)
theory Peep_Wrap
  imports Peep_Block
begin

text \<open>
  Wrap elimination (\<open>src/src/codegen_peep.c\<close>, lines 2180 to 2333): the set of registers whose upper 32
  bits a later instruction may read, computed backwards over the blocks, and the removal of the
  \<open>SX4\<close>/\<open>ZX4\<close> whose result's upper half nothing reads. Soundness is stated on machines that agree on
  the low halves of all registers and on the whole of the registers in the set.
\<close>

datatype hi_kind = HK_ALL | HK_LOW | HK_SHL | HK_EXT | HK_STORE

definition hi_kind :: "opcode \<Rightarrow> hi_kind" where
  "hi_kind op =
     (if op \<in> {ADD3, SUB3, MUL3, AND3, OR3, XOR3, ADDI3, MULI3, SHLI3, ANDI3, ORI3, XORI3, NEG3,
          BNOT3, MOV3, MULADD3, MULADDI3} then HK_LOW
      else if op \<in> {SHL3} then HK_SHL
      else if op \<in> {SX1, SX2, SX4, ZX1, ZX2, ZX4, ADDSX3, ADDZX3, SUBSX3, SUBZX3, MULSX3, MULZX3, ADDISX3,
          ADDIZX3, MULISX3, MULIZX3, SHLISX3, SHLIZX3} then HK_EXT
      else if op \<in> {STR_B, STR_H, STR_W, STR_LOCAL_B, STR_LOCAL_H, STR_LOCAL_W, STR_INDEX_B, STR_INDEX_H,
          STR_INDEX_W} then HK_STORE
      else HK_ALL)"

definition store_uses :: "text_words \<Rightarrow> insn \<Rightarrow> u32" where
  "store_uses text i =
     fold (\<lambda>k keep. let r = get_byte text i k
             in if role (spec i) k = R_IU \<and> r \<noteq> REG_ZERO then keep OR BIT r else keep) [1, 2, 3] 0"

definition hi_step :: "u32 \<Rightarrow> text_words \<Rightarrow> insn \<Rightarrow> u32 \<Rightarrow> u32" where
  "hi_step promoted text i up =
     (let e = effects text i;
          keep = (case (if known i then hi_kind (i_op i) else HK_ALL) of
                    HK_ALL \<Rightarrow> iuse e
                  | HK_LOW \<Rightarrow> if up AND idef e = 0 then 0 else iuse e
                  | HK_SHL \<Rightarrow> if up AND idef e = 0 then BIT (get_byte text i 2) AND NOT (BIT REG_ZERO) else iuse e
                  | HK_EXT \<Rightarrow> 0
                  | HK_STORE \<Rightarrow> store_uses text i)
      in (up AND NOT (idef e)) OR keep OR promoted)"

definition hi_insns :: "u32 \<Rightarrow> text_words \<Rightarrow> insn list \<Rightarrow> u32 \<Rightarrow> u32" where
  "hi_insns promoted text is up = foldr (\<lambda>i h. if dead i then h else hi_step promoted text i h) is up"

text \<open>What a block's successors read before any of them is counted: everything when it falls out of
  the window, nothing otherwise.\<close>

definition hi_base :: "peep \<Rightarrow> nat \<Rightarrow> u32" where
  "hi_base p b =
     (let blk = p_blocks p ! b
      in if b_succs blk = [] \<and> ctrl_kind (p_text p) (p_ins p ! (b_last blk - 1)) \<noteq> C_EXIT then ALL_REGS else 0)"

definition hi_out :: "peep \<Rightarrow> (nat \<Rightarrow> u32) \<Rightarrow> nat \<Rightarrow> u32" where
  "hi_out p hin b = flow_out (OR) (\<lambda>b. b_succs (p_blocks p ! b)) (hi_base p) hin b"

definition hi_halves :: "peep \<Rightarrow> u32 flow option" where
  "hi_halves p =
     flow_solve (OR) (\<lambda>b. b_succs (p_blocks p ! b)) (hi_base p)
       (\<lambda>b. hi_insns (p_promoted p) (p_text p) (block_insns p b)) (length (p_blocks p)) 0"

text \<open>The rewriting walk over a block, from its end: text, instructions done, registers read, changed.\<close>

definition drop_wrap :: "u32 \<Rightarrow> insn \<Rightarrow> text_words \<times> insn list \<times> u32 \<times> bool \<Rightarrow> text_words \<times> insn list \<times> u32 \<times> bool" where
  "drop_wrap promoted i s =
     (let (text, out, up, changed) = s; rd = get_byte text i 0; rs = get_byte text i 1
      in if dead i then (text, i # out, up, changed)
         else if known i \<and> (i_op i = SX4 \<or> i_op i = ZX4) \<and> rd \<noteq> REG_ZERO \<and> up AND BIT rd = 0
         then if rd = rs then (text, i\<lparr>dead := True\<rparr> # out, up, True)
              else let (text1, i1) = make_mov text i rs
                   in (text1, i1 # out, hi_step promoted text1 i1 up, True)
         else (text, i # out, hi_step promoted text i up, changed))"

definition drop_block_wraps :: "u32 \<Rightarrow> text_words \<Rightarrow> insn list \<Rightarrow> u32 \<Rightarrow> text_words \<times> insn list \<times> u32 \<times> bool" where
  "drop_block_wraps promoted text is up = foldr (drop_wrap promoted) is (text, [], up, False)"

definition put_insns :: "nat \<Rightarrow> insn list \<Rightarrow> insn list \<Rightarrow> insn list" where
  "put_insns k new is = take k is @ new @ drop (k + length new) is"

definition drop_wraps_in :: "(nat \<Rightarrow> u32) \<Rightarrow> nat \<Rightarrow> peep \<Rightarrow> peep" where
  "drop_wraps_in hin b p =
     (let (text, new, up, changed) = drop_block_wraps (p_promoted p) (p_text p) (block_insns p b) (hi_out p hin b)
      in p\<lparr>p_text := text, p_ins := put_insns (b_first (p_blocks p ! b)) new (p_ins p),
           p_changed := (p_changed p \<or> changed)\<rparr>)"

definition drop_unread_wraps :: "peep \<Rightarrow> peep option" where
  "drop_unread_wraps p =
     map_option (\<lambda>(hin, _). fold (drop_wraps_in hin) [0..<length (p_blocks p)] p) (hi_halves p)"

subsection \<open>The analysis ends\<close>

text \<open>A window whose known instructions carry the description of their opcode and name registers in
  range, as the decoder leaves it and every rewrite keeps it.\<close>

lemma shl_use:
  assumes "known i" "insn_wf text i" "hi_kind (i_op i) = HK_SHL"
  shows "le32 (BIT (get_byte text i 2) AND NOT (BIT REG_ZERO)) (iuse (effects text i))"
proof -
  have "i_op i = SHL3" using assms(3) by (simp add: hi_kind_def split: if_split_asm)
  then have "spec i = SPEC R_ID R_IU R_IU R_NO True False"
    using insn_spec [OF assms(2,1)] by (simp add: op_spec_def)
  then have "role (spec i) 2 = R_IU" by simp
  moreover have "(2 :: nat) < 4" by simp
  ultimately show ?thesis unfolding le32_def effects_known(1) [OF assms(1,2)]
    by (auto simp: bit_and_iff bit_not_iff bit_BIT intro: exI [of _ "2 :: nat"])
qed

lemma hi_step_mono:
  assumes "le32 a b" "insn_wf text i"
  shows "le32 (hi_step pr text i a) (hi_step pr text i b)"
proof -
  have "b AND x = 0 \<Longrightarrow> a AND x = 0" for x
  proof (rule bit_word_eqI)
    fix n assume b: "b AND x = 0" and n: "n < LENGTH(32)"
    have "\<not> bit (b AND x) n" using b by simp
    then show "bit (a AND x) n = bit (0 :: u32) n" using assms(1) n by (auto simp: le32_def bit_and_iff)
  qed
  then show ?thesis using assms(1) shl_use [OF _ assms(2)]
    by (cases "if known i then hi_kind (i_op i) else HK_ALL")
      (auto simp: hi_step_def le32_def Let_def bit_or_iff bit_and_iff bit_not_iff split: if_split_asm)
qed

lemma hi_insns_mono:
  "le32 a b \<Longrightarrow> list_all (insn_wf text) is \<Longrightarrow> le32 (hi_insns pr text is a) (hi_insns pr text is b)"
  unfolding hi_insns_def by (induction "is") (auto intro: hi_step_mono)

locale decoded_window =
  fixes p :: peep
  assumes decoded: "i \<in> set (p_ins p) \<Longrightarrow> insn_wf (p_text p) i"
begin

lemma block_wf: "list_all (insn_wf (p_text p)) (block_insns p b)"
  using decoded by (auto simp: list_all_iff block_insns_def Let_def dest!: in_set_takeD in_set_dropD)

end

sublocale decoded_window \<subseteq> hi: backward_flow le32 "(OR)" "0" rank32 32
  "\<lambda>b. b_succs (p_blocks p ! b)" "hi_base p"
  "\<lambda>b. hi_insns (p_promoted p) (p_text p) (block_insns p b)" "length (p_blocks p)"
proof
  show "le32 (hi_insns (p_promoted p) (p_text p) (block_insns p k) a)
      (hi_insns (p_promoted p) (p_text p) (block_insns p k) b)" if "le32 a b" for k a b
    using that block_wf by (rule hi_insns_mono)
qed (auto simp: le32_def bit_or_iff intro: rank32_less [unfolded le32_def] rank32_bound)

context decoded_window
begin

lemma hi_halves_solution:
  obtains hin out where "hi_halves p = Some (hin, out)"
    and "\<And>b. b < length (p_blocks p) \<Longrightarrow> hin b = hi_insns (p_promoted p) (p_text p) (block_insns p b) (hi_out p hin b)"
    and "\<And>b s. b < length (p_blocks p) \<Longrightarrow> s \<in> set (b_succs (p_blocks p ! b)) \<Longrightarrow> le32 (hin s) (hi_out p hin b)"
proof -
  obtain s where s: "hi_halves p = Some s" "hi.solution s"
    using hi.solve_solution unfolding hi_halves_def by blast
  obtain hin out where i: "s = (hin, out)" by (cases s)
  have o: "hi.fout hin b = hi_out p hin b" for b by (simp add: hi.fout_def hi_out_def)
  have "hin b = hi_insns (p_promoted p) (p_text p) (block_insns p b) (hi_out p hin b)" if "b < length (p_blocks p)" for b
    using s(2) that unfolding i hi.solution_def by (simp add: o)
  then show thesis using that [of hin out] s(1) hi.fout_upper [of _ _ hin] unfolding i o by metis
qed

end

lemma decode_insn_wf: "insn_wf text (decode_insn text q n)"
  by (auto simp: insn_wf_def decode_insn_def Let_def get_byte_def operand_def role_less4 split: option.split)

lemma decode_from_wf: "decode_from text s e = Some is \<Longrightarrow> list_all (insn_wf text) is"
proof (induction "text" s e arbitrary: "is" rule: decode_from.induct)
  case (1 "text" s e)
  show ?case using "1.prems" "1.IH"
    by (subst (asm) decode_from.simps) (auto simp: decode_insn_wf split: if_split_asm option.split_asm)
qed

definition window_of :: "text_words \<Rightarrow> nat \<Rightarrow> nat \<Rightarrow> peep" where
  "window_of text s e =
     \<lparr>p_text = text, p_start = of_nat s, p_end = of_nat e,
      p_ins = (case decode_window text s e of None \<Rightarrow> [] | Some is \<Rightarrow> is),
      p_blocks = [], p_blk_of = [], p_changed = False, p_seed = (\<lambda>_. 0), p_promoted = 0\<rparr>"

lemma build_blocks_fields [simp]:
  "p_ins (build_blocks p) = p_ins p" "p_text (build_blocks p) = p_text p"
  "p_ins (compute_succs p) = p_ins p" "p_text (compute_succs p) = p_text p"
  by (simp_all add: build_blocks_def compute_succs_def Let_def split: prod.split)

interpretation window: decoded_window "compute_succs (build_blocks (window_of text s e))" for "text" s e
proof
  fix i assume "i \<in> set (p_ins (compute_succs (build_blocks (window_of text s e))))"
  then show "insn_wf (p_text (compute_succs (build_blocks (window_of text s e)))) i"
    using decode_from_wf [of "text" s e]
    by (cases "decode_from text s e") (auto simp: window_of_def decode_window_def list_all_iff)
qed

subsection \<open>What the handlers read of the upper halves\<close>

definition low_eq :: "u64 \<Rightarrow> u64 \<Rightarrow> bool" where
  "low_eq a b \<longleftrightarrow> take_bit 32 a = take_bit 32 b"

lemma low_eq_refl [simp]: "low_eq a a"
  by (simp add: low_eq_def)

lemma low_eq_int: "low_eq a b \<longleftrightarrow> take_bit 32 (uint a) = take_bit 32 (uint b)"
  unfolding low_eq_def unsigned_take_bit_eq [symmetric] by (metis unsigned_word_eqI)

lemma take_uint:
  "take_bit 32 (uint (a + b :: u64)) = take_bit 32 (take_bit 32 (uint a) + take_bit 32 (uint b))"
  "take_bit 32 (uint (a - b :: u64)) = take_bit 32 (take_bit 32 (uint a) - take_bit 32 (uint b))"
  "take_bit 32 (uint (a * b :: u64)) = take_bit 32 (take_bit 32 (uint a) * take_bit 32 (uint b))"
proof -
  have u: "uint (a + b) = take_bit 64 (uint a + uint b)" "uint (a - b) = take_bit 64 (uint a - uint b)"
      "uint (a * b) = take_bit 64 (uint a * uint b)"
    by (simp_all add: uint_word_ariths take_bit_eq_mod)
  show "take_bit 32 (uint (a + b :: u64)) = take_bit 32 (take_bit 32 (uint a) + take_bit 32 (uint b))"
    "take_bit 32 (uint (a - b :: u64)) = take_bit 32 (take_bit 32 (uint a) - take_bit 32 (uint b))"
    "take_bit 32 (uint (a * b :: u64)) = take_bit 32 (take_bit 32 (uint a) * take_bit 32 (uint b))"
    unfolding u by (simp_all add: take_bit_add take_bit_diff take_bit_mult)
qed

lemma low_eq_arith:
  assumes "low_eq a a'" "low_eq b b'"
  shows "low_eq (a + b) (a' + b')" "low_eq (a - b) (a' - b')" "low_eq (a * b) (a' * b')"
    "low_eq (a AND b) (a' AND b')" "low_eq (a OR b) (a' OR b')" "low_eq (a XOR b) (a' XOR b')"
proof -
  show "low_eq (a + b) (a' + b')" "low_eq (a - b) (a' - b')" "low_eq (a * b) (a' * b')"
    using assms unfolding low_eq_int take_uint by (simp_all only:)
  show "low_eq (a AND b) (a' AND b')" "low_eq (a OR b) (a' OR b')" "low_eq (a XOR b) (a' XOR b')"
    using assms unfolding low_eq_def take_bit_and take_bit_or take_bit_xor by (simp_all only:)
qed

lemma low_eq_minus: "low_eq a a' \<Longrightarrow> low_eq (- a) (- a')"
  using low_eq_arith(2) [of 0 0 a a'] by simp

lemma low_eq_push: "low_eq a a' \<Longrightarrow> low_eq (push_bit n a) (push_bit n a')"
proof -
  assume a: "low_eq a a'"
  have t: "take_bit (32 - n) x = take_bit (32 - n) (take_bit 32 x)" for x :: u64 by (simp add: min_def)
  have "take_bit (32 - n) a = take_bit (32 - n) a'" unfolding t [of a] t [of a'] using a by (simp only: low_eq_def)
  then show ?thesis by (simp add: low_eq_def take_bit_push_bit)
qed

lemma low_eq_not: "low_eq a a' \<Longrightarrow> low_eq (NOT a) (NOT a')"
  unfolding low_eq_def by (metis take_bit_not_take_bit)

lemma low_eq_ext:
  assumes "low_eq a a'" "0 < n" "n \<le> 32"
  shows "c_sext n a = c_sext n a'" "c_zext n a = c_zext n a'"
proof -
  have "\<not> 32 \<le> n - 1" using assms(2,3) by simp
  then have s: "signed_take_bit (n - 1) x = signed_take_bit (n - 1) (take_bit 32 x)" for x :: u64
    by (simp only: signed_take_bit_take_bit if_False)
  show "c_sext n a = c_sext n a'" using assms(1) unfolding c_sext_def low_eq_def s [of a] s [of a'] by (simp only:)
  have t: "take_bit n x = take_bit n (take_bit 32 x)" for x :: u64 using assms(3) by (simp add: min_def)
  show "c_zext n a = c_zext n a'" using assms(1) unfolding c_zext_def low_eq_def t [of a] t [of a'] by (simp only:)
qed

text \<open>Equal up to the relation on values, faults included.\<close>

definition rel_result :: "(u64 \<Rightarrow> u64 \<Rightarrow> bool) \<Rightarrow> vm_fault + u64 \<Rightarrow> vm_fault + u64 \<Rightarrow> bool" where
  "rel_result P x y = (case x of Inl e \<Rightarrow> y = Inl e | Inr v \<Rightarrow> (case y of Inl _ \<Rightarrow> False | Inr v' \<Rightarrow> P v v'))"

lemma rel_result_simps [simp]:
  "rel_result P (Inl e) y \<longleftrightarrow> y = Inl e" "rel_result P (Inr v) (Inr v') \<longleftrightarrow> P v v'"
  "\<not> rel_result P (Inr v) (Inl e)"
  by (simp_all add: rel_result_def)

lemma hi_kind_table:
  "list_all (\<lambda>(op, g).
     (hi_kind op = HK_LOW \<longrightarrow> (\<forall>w a b c a' b' c' imm. low_eq a a' \<longrightarrow> low_eq b b' \<longrightarrow> low_eq c c' \<longrightarrow>
        rel_result low_eq (g w a b c imm) (g w a' b' c' imm))) \<and>
     (hi_kind op = HK_SHL \<longrightarrow> (\<forall>w a b c a' c' imm. low_eq a a' \<longrightarrow>
        rel_result low_eq (g w a b c imm) (g w a' b c' imm))) \<and>
     (hi_kind op = HK_EXT \<longrightarrow> (\<forall>w a b c a' b' c' imm. low_eq a a' \<longrightarrow> low_eq b b' \<longrightarrow>
        rel_result (=) (g w a b c imm) (g w a' b' c' imm))) \<and>
     hi_kind op \<noteq> HK_STORE) alu_table"
  unfolding alu_table_def list.pred_inject prod.case
  by (intro conjI TrueI; simp add: hi_kind_def low_eq_arith low_eq_minus low_eq_push low_eq_not low_eq_ext)

subsection \<open>Machines that agree on low halves\<close>

definition agree_half :: "nat set \<Rightarrow> vm \<Rightarrow> vm \<Rightarrow> bool" where
  "agree_half H vm vm' \<longleftrightarrow> agree H vm vm' \<and> (\<forall>r. low_eq (regs vm r) (regs vm' r))"

fun half_step :: "nat set \<Rightarrow> step \<Rightarrow> step \<Rightarrow> bool" where
  "half_step H (Inr vm) (Inr vm') = agree_half H vm vm'"
| "half_step H (Inl (e, vm)) (Inl (e', vm')) = (e = e')"
| "half_step H _ _ = False"

text \<open>A handler changes no register but the one byte 0 names.\<close>

definition frame :: "(vm \<Rightarrow> step) \<Rightarrow> bool" where
  "frame h \<longleftrightarrow> (\<forall>vm vm1 r. h vm = Inr vm1 \<longrightarrow> r \<noteq> opnd_byte (text_seg vm (pc vm)) 0 \<longrightarrow> regs vm1 r = regs vm r)"

lemma frame_skeletons [simp]:
  "frame (rrr_op g)" "frame (rr_op f)" "frame (rri_op g)" "frame (shift_imm_op s)" "frame (rr_op_raw f)"
  "frame (rrr_op_raw g)" "frame (rri_op_raw g)" "frame (wrap_shl_op f)" "frame (load_op n ld hl)"
  "frame (store_op n st hl)" "frame (index_load_op n ld hl)" "frame (index_store_op n st hl)"
  "frame (local_load_op ld)" "frame (local_store_op st)" "frame op_DIV3_fn" "frame op_MOD3_fn"
  "frame op_UDIV3_fn" "frame op_UMOD3_fn" "frame op_LI3_fn" "frame op_LDA3_fn" "frame op_LEA3_fn" "frame op_MULADD3_fn"
  "frame op_MULADDI3_fn" "frame op_UBFX_fn" "frame op_SBFX_fn" "frame op_BFI_fn"
  by (auto simp: frame_def text_defs op_DIV3_fn_eq op_MOD3_fn_def op_UDIV3_fn_def
      op_UMOD3_fn_def op_LI3_fn_def op_LDA3_fn_def op_LEA3_fn_def op_MULADD3_fn_def op_MULADDI3_fn_def
      op_UBFX_fn_def op_SBFX_fn_def op_BFI_fn_def split: if_splits)

lemma handlers_frame: "list_all (\<lambda>(op, h). op_spec op \<noteq> None \<longrightarrow> frame h) (handlers hl cm)"
  unfolding handlers_def list.pred_inject prod.case
  by (intro conjI TrueI; simp add: op_spec_def handler_defs)

lemma handler_frame:
  assumes "op_table hl cm op = Some h" "op_spec op \<noteq> None" shows "frame h"
  using handlers_frame [of hl cm] map_of_SomeD [of "handlers hl cm" op h] assms
  by (fastforce simp: op_table_def list_all_iff)

text \<open>A store of at most four bytes sees only the low half of the stored register.\<close>

lemma st_bytes_low: "take_bit (8 * n) v = take_bit (8 * n) v' \<Longrightarrow> st_bytes n m p v = st_bytes n m p v'"
proof (induction n arbitrary: p v v')
  case (Suc n)
  have b: "bit v k = bit v' k" if "k < 8 * Suc n" for k
    using arg_cong [OF Suc.prems, of "\<lambda>x. bit x k"] that by (simp add: bit_take_bit_iff)
  have "take_bit (8 * n) (drop_bit 8 v) = take_bit (8 * n) (drop_bit 8 v')"
    by (rule bit_word_eqI) (auto simp: bit_take_bit_iff bit_drop_bit_eq b)
  from Suc.IH [OF this] have "st_bytes n m (p + 1) (drop_bit 8 v) = st_bytes n m (p + 1) (drop_bit 8 v')" .
  moreover have "(ucast v :: u8) = ucast v'" by (rule bit_word_eqI) (simp add: bit_ucast_iff b)
  ultimately show ?case by (simp only: st_bytes.simps)
qed simp

lemma st_low:
  assumes "low_eq v v'"
  shows "st_i8 m p v' = st_i8 m p v" "st_i16 m p v' = st_i16 m p v" "st_i32 m p v' = st_i32 m p v"
proof -
  have t: "take_bit k v' = take_bit k v" if "k \<le> 32" for k
  proof -
    have "take_bit k x = take_bit k (take_bit 32 x)" for x :: u64 using that by (simp add: min_def)
    from this [of v] this [of v'] show ?thesis using assms by (simp only: low_eq_def)
  qed
  show "st_i8 m p v' = st_i8 m p v" "st_i16 m p v' = st_i16 m p v" "st_i32 m p v' = st_i32 m p v"
    unfolding st_i8_def st_i16_def st_i32_def by (rule st_bytes_low, rule t, simp)+
qed

definition low_store :: "nat list \<Rightarrow> (vm \<Rightarrow> step) \<Rightarrow> bool" where
  "low_store ks h \<longleftrightarrow>
     (\<forall>vm R. let w = text_seg vm (pc vm)
        in (\<forall>k \<in> set ks. R (opnd_byte w k) = regs vm (opnd_byte w k)) \<longrightarrow>
           low_eq (regs vm (opnd_byte w 0)) (R (opnd_byte w 0)) \<longrightarrow>
           h (vm\<lparr>regs := R\<rparr>) = map_sum (\<lambda>(e, w). (e, w\<lparr>regs := R\<rparr>)) (\<lambda>w. w\<lparr>regs := R\<rparr>) (h vm))"

text \<open>Applied to its own registers, the contract says that a store changes none.\<close>

lemma low_store_regs: "low_store ks h \<Longrightarrow> h vm = Inr w \<Longrightarrow> regs w = regs vm"
proof -
  assume c: "low_store ks h" and h: "h vm = Inr w"
  have "h (vm\<lparr>regs := regs vm\<rparr>) = map_sum (\<lambda>(e, w). (e, w\<lparr>regs := regs vm\<rparr>)) (\<lambda>w. w\<lparr>regs := regs vm\<rparr>) (h vm)"
    using c low_eq_refl unfolding low_store_def Let_def by blast
  then have "w = w\<lparr>regs := regs vm\<rparr>" using h by simp
  then show ?thesis by (metis vm.select_convs(1) vm.surjective vm.update_convs(1))
qed

lemma low_storeI:
  assumes "\<And>v v' m p. low_eq v v' \<Longrightarrow> st m p v' = st m p v"
    and "\<And>vm R. (\<forall>m p. st m p (R (opnd_byte (text_seg vm (pc vm)) 0)) = st m p (regs vm (opnd_byte (text_seg vm (pc vm)) 0))) \<Longrightarrow>
      (\<forall>k \<in> set ks. R (opnd_byte (text_seg vm (pc vm)) k) = regs vm (opnd_byte (text_seg vm (pc vm)) k)) \<Longrightarrow>
      h (vm\<lparr>regs := R\<rparr>) = map_sum (\<lambda>(e, w). (e, w\<lparr>regs := R\<rparr>)) (\<lambda>w. w\<lparr>regs := R\<rparr>) (h vm)"
  shows "low_store ks h"
  unfolding low_store_def Let_def using assms(1) by (intro allI impI assms(2)) blast+

lemma low_store_skeletons:
  assumes "\<And>v v' m p. low_eq v v' \<Longrightarrow> st m p v' = st m p v"
  shows "low_store [Suc 0] (store_op n st hl)" "low_store [] (local_store_op st)"
    "low_store [Suc 0, 2] (index_store_op n st hl)"
  by (rule low_storeI [where st = st], erule assms, simp add: store_op_def local_store_op_def index_store_op_def
      read_eqs local_addr_def op_index_addr_def COMPTIME_CONTAIN_def)+

lemmas low_stores = low_store_skeletons [OF st_low(1)] low_store_skeletons [OF st_low(2)] low_store_skeletons [OF st_low(3)]

lemma handlers_low_store:
  "list_all (\<lambda>(op, h). hi_kind op = HK_STORE \<longrightarrow>
     (case op_spec op of None \<Rightarrow> False
      | Some s \<Rightarrow> role0 s = R_IU \<and> low_store (filter (\<lambda>k. role s k = R_IU) [1, 2, 3]) h \<and> (\<forall>k. role s k \<noteq> R_ID))) (handlers hl cm)"
  unfolding handlers_def list.pred_inject prod.case
  by (intro conjI TrueI; simp add: op_spec_def hi_kind_def handler_defs low_stores role_def)

subsection \<open>Soundness of a step\<close>

lemma live_regs_le: "le32 a b \<Longrightarrow> live_regs a \<subseteq> live_regs b"
  by (auto simp: live_regs_def le32_def)

lemma idef_byte0:
  assumes "known i" "insn_wf text i" "bit (idef (effects text i)) n"
  shows "n = get_byte text i 0"
  using assms(3) op_spec_def0 [OF insn_spec [OF assms(2,1)]] unfolding effects_known(2) [OF assms(1,2)] by auto

text \<open>All sources agree: the steps agree on the destination as well.\<close>

lemma agree_decode: "agree L vm vm' \<Longrightarrow> text_seg vm' = text_seg vm \<and> pc vm' = pc vm"
  by (cases vm, cases vm') (auto simp: agree_def)

lemma agree_regs: "agree L vm vm' \<longleftrightarrow> agree {} vm vm' \<and> (\<forall>r \<in> L. regs vm' r = regs vm r)"
  by (auto simp: agree_def)

lemma usesD:
  assumes "uses ks h" "R REG_ZERO = regs vm REG_ZERO"
    and "\<And>k. k \<in> set ks \<Longrightarrow> R (opnd_byte (text_seg vm (pc vm)) k) = regs vm (opnd_byte (text_seg vm (pc vm)) k)"
    and "\<And>r. r \<in> L \<Longrightarrow> R r = regs vm r"
  shows "agree_step (insert (opnd_byte (text_seg vm (pc vm)) 0) L) (h vm) (h (vm\<lparr>regs := R\<rparr>))"
  using assms unfolding uses_def Let_def by blast

lemma uses_agree:
  assumes i: "known i" "insn_wf (text_seg vm) i" "op_table hl cm (i_op i) = Some h" "pc vm = i_pc i + 1"
    and "agree (live_regs M) vm vm'" "le32 (iuse (effects (text_seg vm) i)) M"
  shows "agree_step (insert (opnd_byte (text_seg vm (pc vm)) 0) {r. regs vm' r = regs vm r}) (h vm) (h vm')"
proof -
  let ?w = "text_seg vm (pc vm)"
  have b: "get_byte (text_seg vm) i k = opnd_byte ?w k" for k using i(4) by (simp add: get_byte_def operand_def)
  have eq: "\<forall>r \<in> live_regs M. regs vm' r = regs vm r" and vm': "vm' = vm\<lparr>regs := regs vm'\<rparr>"
    using assms(5) unfolding agree_def by blast+
  have src: "regs vm' (opnd_byte ?w k) = regs vm (opnd_byte ?w k)" if k: "k \<in> set (use_list (spec i))" for k
  proof (rule bspec [OF eq])
    have u: "k < 4" "role (spec i) k = R_IU" using k unfolding set_use_list by blast+
    then have r: "opnd_byte ?w k < NUM_REGS" using i(1,2) b [of k] unfolding insn_wf_def by auto
    have "bit (iuse (effects (text_seg vm) i)) (opnd_byte ?w k)" if "opnd_byte ?w k \<noteq> 0"
      unfolding effects_known(1) [OF i(1,2)] using u b [of k] that r by blast
    then show "opnd_byte ?w k \<in> live_regs M" using r assms(6) unfolding live_regs_def le32_def by auto
  qed
  have "agree_step (insert (opnd_byte ?w 0) {r. regs vm' r = regs vm r}) (h vm) (h (vm\<lparr>regs := regs vm'\<rparr>))"
  proof (rule usesD [OF known_handler_uses [OF i(1-3)] _ src])
    show "regs vm' REG_ZERO = regs vm REG_ZERO" by (rule bspec [OF eq]) (simp add: live_regs_def)
    show "regs vm' r = regs vm r" if "r \<in> {r. regs vm' r = regs vm r}" for r using that by (rule CollectD)
  qed
  moreover have "h vm' = h (vm\<lparr>regs := regs vm'\<rparr>)" using vm' by (rule arg_cong)
  ultimately show ?thesis by (simp only:)
qed

lemma half_all:
  assumes i: "known i" "insn_wf (text_seg vm) i" "op_table hl cm (i_op i) = Some h" "pc vm = i_pc i + 1"
    and a: "agree_half (live_regs M) vm vm'" and "le32 (iuse (effects (text_seg vm) i)) M"
    and up: "le32 (up AND NOT (idef (effects (text_seg vm) i))) M"
  shows "half_step (live_regs up) (h vm) (h vm')"
proof -
  let ?rd = "opnd_byte (text_seg vm (pc vm)) 0"
  have b: "get_byte (text_seg vm) i 0 = ?rd" using i(4) by (simp add: get_byte_def operand_def)
  have ag: "agree (live_regs M) vm vm'" and low: "\<And>r. low_eq (regs vm r) (regs vm' r)"
    using a by (simp_all add: agree_half_def)
  have dec: "text_seg vm' = text_seg vm" "pc vm' = pc vm" using agree_decode [OF ag] by simp_all
  note step = uses_agree [OF i ag assms(6)]
  have fr: "frame h" using handler_frame [OF i(3)] insn_spec [OF i(2,1)] by simp
  show ?thesis
  proof (cases "h vm")
    case (Inl x)
    then obtain y where "h vm' = Inl y" "fst x = fst y" using step by (cases x; cases "h vm'") auto
    then show ?thesis using Inl by (cases x; cases y) simp
  next
    case (Inr w)
    then obtain w' where w': "h vm' = Inr w'" "agree (insert ?rd {r. regs vm' r = regs vm r}) w w'"
      using step by (cases "h vm'") auto
    have same: "regs w r = regs vm r" "regs w' r = regs vm' r" if "r \<noteq> ?rd" for r
      using fr [unfolded frame_def, rule_format, OF Inr that] fr [unfolded frame_def, rule_format, OF w'(1), of r] dec that
      by simp_all
    have rd: "regs w' ?rd = regs w ?rd" using w'(2) unfolding agree_def by blast
    have "regs w' r = regs w r" if "r \<in> live_regs up" for r
    proof (cases "r = ?rd")
      case False
      then have "\<not> bit (idef (effects (text_seg vm) i)) r" using idef_byte0 [OF i(1,2), of r] b by metis
      then have "r \<in> live_regs M"
        using that up by (auto simp: live_regs_def le32_def bit_and_iff bit_not_iff)
      then show ?thesis using ag same [OF False] unfolding agree_def by simp
    qed (simp add: rd)
    moreover have "low_eq (regs w r) (regs w' r)" for r
      using low [of r] same [of r] rd by (cases "r = ?rd") simp_all
    moreover have "agree {} w w'" using w'(2) agree_regs by blast
    ultimately show ?thesis using Inr w'(1) agree_regs [of "live_regs up" w w'] by (simp add: agree_half_def)
  qed
qed

text \<open>A register operation whose results are related: the destination may differ above bit 31 when
  nothing reads it there.\<close>

lemma agree_upd:
  "agree H vm vm' \<Longrightarrow> agree (insert d H) (vm\<lparr>pc := q, regs := (regs vm)(d := v)\<rparr>) (vm'\<lparr>pc := q, regs := (regs vm')(d := v)\<rparr>)"
  "agree H vm vm' \<Longrightarrow> agree (H - {d}) (vm\<lparr>pc := q, regs := (regs vm)(d := v)\<rparr>) (vm'\<lparr>pc := q, regs := (regs vm')(d := v')\<rparr>)"
  by (cases vm, cases vm', auto simp: agree_def)+

lemma half_alu:
  assumes i: "known i" "insn_wf (text_seg vm) i" "op_table hl cm (i_op i) = Some h" "pc vm = i_pc i + 1"
    and g: "alu (i_op i) = Some g" "get_byte (text_seg vm) i 0 \<noteq> REG_ZERO"
    and a: "agree_half (live_regs M) vm vm'" and up: "le32 (up AND NOT (idef (effects (text_seg vm) i))) M"
    and res: "rel_result P (alu_value g vm) (alu_value g vm')" "\<And>v v'. P v v' \<Longrightarrow> low_eq v v'"
      "bit up (get_byte (text_seg vm) i 0) \<Longrightarrow> P = (=)"
  shows "half_step (live_regs up) (h vm) (h vm')"
proof -
  let ?rd = "opnd_byte (text_seg vm (pc vm)) 0" and ?n = "pc vm + of_nat (operand_words ! i_op i)"
  have b: "get_byte (text_seg vm) i 0 = ?rd" using i(4) by (simp add: get_byte_def operand_def)
  have ag: "agree (live_regs M) vm vm'" and low: "\<And>r. low_eq (regs vm r) (regs vm' r)"
    using a by (simp_all add: agree_half_def)
  have dec: "text_seg vm' = text_seg vm" "pc vm' = pc vm" using agree_decode [OF ag] by simp_all
  have h: "h vm = alu_step (operand_words ! i_op i) g vm" "h vm' = alu_step (operand_words ! i_op i) g vm'"
    using alu_handler_step [OF g(1) i(3)] g(2) b dec by simp_all
  have sub: "live_regs up \<subseteq> insert ?rd (live_regs M)"
    using up idef_byte0 [OF i(1,2)] b by (auto simp: live_regs_def le32_def bit_and_iff bit_not_iff)
  show ?thesis
  proof (cases "alu_value g vm")
    case (Inl e)
    then show ?thesis using res(1) h by (simp add: alu_step_def)
  next
    case (Inr v)
    then obtain v' where v': "alu_value g vm' = Inr v'" "P v v'" using res(1) by (cases "alu_value g vm'") auto
    let ?w = "vm\<lparr>pc := ?n, regs := (regs vm)(?rd := v)\<rparr>" and ?w' = "vm'\<lparr>pc := ?n, regs := (regs vm')(?rd := v')\<rparr>"
    have hs: "h vm = Inr ?w" "h vm' = Inr ?w'" using h Inr v'(1) dec by (simp_all add: alu_step_def)
    have "agree (live_regs up) ?w ?w'"
    proof (cases "v = v'")
      case True
      then show ?thesis using agree_mono [OF agree_upd(1) [OF ag] sub] by simp
    next
      case False
      then have "\<not> bit up ?rd" using res(3) v'(2) b by auto
      then have "live_regs up \<subseteq> live_regs M - {?rd}" using sub g(2) b by (auto simp: live_regs_def)
      then show ?thesis using agree_mono [OF agree_upd(2) [OF ag]] by blast
    qed
    moreover have "low_eq (regs ?w r) (regs ?w' r)" for r using low res(2) [OF v'(2)] by simp
    ultimately show ?thesis unfolding hs half_step.simps agree_half_def by blast
  qed
qed

lemma alu_table_kind:
  assumes "alu op = Some g"
  shows "hi_kind op = HK_LOW \<Longrightarrow> low_eq a a' \<Longrightarrow> low_eq b b' \<Longrightarrow> low_eq c c' \<Longrightarrow>
      rel_result low_eq (g w a b c imm) (g w a' b' c' imm)"
    and "hi_kind op = HK_SHL \<Longrightarrow> low_eq a a' \<Longrightarrow> rel_result low_eq (g w a b c imm) (g w a' b c' imm)"
    and "hi_kind op = HK_EXT \<Longrightarrow> low_eq a a' \<Longrightarrow> low_eq b b' \<Longrightarrow> rel_result (=) (g w a b c imm) (g w a' b' c' imm)"
    and "hi_kind op \<noteq> HK_STORE"
proof -
  have "(op, g) \<in> set alu_table" using assms unfolding alu_def by (rule map_of_SomeD)
  from bspec [OF hi_kind_table [unfolded list_all_iff] this]
  show "hi_kind op = HK_LOW \<Longrightarrow> low_eq a a' \<Longrightarrow> low_eq b b' \<Longrightarrow> low_eq c c' \<Longrightarrow>
      rel_result low_eq (g w a b c imm) (g w a' b' c' imm)"
    "hi_kind op = HK_SHL \<Longrightarrow> low_eq a a' \<Longrightarrow> rel_result low_eq (g w a b c imm) (g w a' b c' imm)"
    "hi_kind op = HK_EXT \<Longrightarrow> low_eq a a' \<Longrightarrow> low_eq b b' \<Longrightarrow> rel_result (=) (g w a b c imm) (g w a' b' c' imm)"
    "hi_kind op \<noteq> HK_STORE"
    unfolding prod.case by - (elim conjE, simp)+
qed

lemma hi_kind_alu: "hi_kind op \<in> {HK_LOW, HK_SHL, HK_EXT} \<Longrightarrow> alu op \<noteq> None"
  unfolding hi_kind_def by (auto simp: alu_eval split: if_split_asm)

lemma store_uses_bits:
  "bit (store_uses text i) n \<longleftrightarrow> (\<exists>k \<in> {1, 2, 3}. role (spec i) k = R_IU \<and> get_byte text i k = n) \<and> 0 < n \<and> n < 32"
  by (auto simp: store_uses_def Let_def bit_or_iff bit_BIT)

lemma insn_reg:
  "known i \<Longrightarrow> insn_wf text i \<Longrightarrow> k < 4 \<Longrightarrow> role (spec i) k \<noteq> R_NO \<Longrightarrow> get_byte text i k < NUM_REGS"
  by (simp add: insn_wf_def)

lemma half_store:
  assumes i: "known i" "insn_wf (text_seg vm) i" "op_table hl cm (i_op i) = Some h" "pc vm = i_pc i + 1"
    and st: "hi_kind (i_op i) = HK_STORE"
    and a: "agree_half (live_regs M) vm vm'" and "le32 (store_uses (text_seg vm) i) M"
    and up: "le32 (up AND NOT (idef (effects (text_seg vm) i))) M"
  shows "half_step (live_regs up) (h vm) (h vm')"
proof -
  let ?w = "text_seg vm (pc vm)" and ?ks = "filter (\<lambda>k. role (spec i) k = R_IU) [1, 2, 3]"
  have b: "get_byte (text_seg vm) i k = opnd_byte ?w k" for k using i(4) by (simp add: get_byte_def operand_def)
  have ag: "agree (live_regs M) vm vm'" and low: "\<And>r. low_eq (regs vm r) (regs vm' r)"
    using a by (simp_all add: agree_half_def)
  then have vm': "vm' = vm\<lparr>regs := regs vm'\<rparr>" and eq: "\<forall>r \<in> live_regs M. regs vm' r = regs vm r"
    unfolding agree_def by blast+
  have "(i_op i, h) \<in> set (handlers hl cm)" using i(3) unfolding op_table_def by (rule map_of_SomeD)
  from bspec [OF handlers_low_store [unfolded list_all_iff] this] st insn_spec [OF i(2,1)]
  have c: "low_store ?ks h" "\<forall>k. role (spec i) k \<noteq> R_ID" by auto
  have src: "\<forall>k \<in> set ?ks. regs vm' (opnd_byte ?w k) = regs vm (opnd_byte ?w k)"
  proof (intro ballI bspec [OF eq])
    fix k assume "k \<in> set ?ks"
    then have u: "k \<in> {1, 2, 3}" "role (spec i) k = R_IU" unfolding set_filter by auto
    have "k < 4" "role (spec i) k \<noteq> R_NO" using u by auto
    then have r: "opnd_byte ?w k < NUM_REGS" using insn_reg [OF i(1,2)] b [of k] by metis
    have "bit (store_uses (text_seg vm) i) (opnd_byte ?w k)" if "opnd_byte ?w k \<noteq> 0"
      unfolding store_uses_bits using u b [of k] that r by blast
    then show "opnd_byte ?w k \<in> live_regs M" using r assms(7) unfolding live_regs_def le32_def by auto
  qed
  have "h vm' = h (vm\<lparr>regs := regs vm'\<rparr>)" using vm' by (rule arg_cong)
  also have "\<dots> = map_sum (\<lambda>(e, w). (e, w\<lparr>regs := regs vm'\<rparr>)) (\<lambda>w. w\<lparr>regs := regs vm'\<rparr>) (h vm)"
    using c(1) src low unfolding low_store_def Let_def by blast
  finally have h': "h vm' = map_sum (\<lambda>(e, w). (e, w\<lparr>regs := regs vm'\<rparr>)) (\<lambda>w. w\<lparr>regs := regs vm'\<rparr>) (h vm)" .
  have nd: "\<not> bit (idef (effects (text_seg vm) i)) n" for n
    unfolding effects_known(2) [OF i(1,2)] using c(2) by blast
  have sub: "live_regs up \<subseteq> live_regs M" using up nd by (auto simp: live_regs_def le32_def bit_and_iff bit_not_iff)
  have fr: "frame h" using handler_frame [OF i(3)] insn_spec [OF i(2,1)] by simp
  show ?thesis
  proof (cases "h vm")
    case (Inl x)
    then show ?thesis using h' by (cases x) simp
  next
    case (Inr w)
    have "regs w = regs vm"
      using low_store_regs [OF c(1) Inr] .
    then show ?thesis using Inr h' eq low sub by (auto simp: agree_half_def agree_def)
  qed
qed

lemma unread_dest:
  assumes "known i" "insn_wf text i" "role (spec i) 0 = R_ID" "get_byte text i 0 \<noteq> REG_ZERO"
    and "up AND idef (effects text i) = 0"
  shows "\<not> bit up (get_byte text i 0)"
proof
  assume "bit up (get_byte text i 0)"
  moreover have "bit (idef (effects text i)) (get_byte text i 0)"
    unfolding effects_known(2) [OF assms(1,2)] using assms(3,4) insn_reg [OF assms(1,2), of 0]
    by (auto intro: exI [of _ 0])
  ultimately have "bit (up AND idef (effects text i)) (get_byte text i 0)" by (simp add: bit_and_iff)
  then show False using assms(5) by simp
qed

lemma shift_count_kept:
  assumes "known i" "insn_wf text i" "hi_kind (i_op i) = HK_SHL" "up AND idef (effects text i) = 0"
  shows "get_byte text i 2 \<in> live_regs (hi_step pr text i up)"
proof -
  have op: "i_op i = SHL3" using assms(3) by (simp add: hi_kind_def split: if_split_asm)
  have "spec i = SPEC R_ID R_IU R_IU R_NO True False"
    using insn_spec [OF assms(2,1)] unfolding op by (simp add: op_spec_def)
  then have "role (spec i) 2 \<noteq> R_NO" by simp
  then have "get_byte text i 2 < NUM_REGS" using insn_reg [OF assms(1,2), of 2] by simp
  then show ?thesis using assms(1,3,4)
    by (auto simp: live_regs_def hi_step_def Let_def bit_or_iff bit_and_iff bit_not_iff bit_BIT)
qed

lemma alu_kind_obtain:
  assumes "known i" "insn_wf text i" "hi_kind (i_op i) \<in> {HK_LOW, HK_SHL, HK_EXT}"
  obtains g where "alu (i_op i) = Some g" "role (spec i) 0 = R_ID"
proof -
  obtain g where g: "alu (i_op i) = Some g" using hi_kind_alu [OF assms(3)] by blast
  obtain s where "op_spec (i_op i) = Some s" "role0 s = R_ID" using alu_spec [OF g] by blast
  then show thesis using that [OF g] insn_spec [OF assms(2,1)] by simp
qed

lemma hi_step_agree:
  assumes i: "known i" "insn_wf (text_seg vm) i" "op_table hl cm (i_op i) = Some h" "pc vm = i_pc i + 1"
    and rd: "role (spec i) 0 = R_ID \<Longrightarrow> get_byte (text_seg vm) i 0 \<noteq> REG_ZERO"
    and a: "agree_half (live_regs (hi_step pr (text_seg vm) i up)) vm vm'"
  shows "half_step (live_regs up) (h vm) (h vm')"
proof -
  let ?t = "text_seg vm" and ?w = "text_seg vm (pc vm)" and ?M = "hi_step pr (text_seg vm) i up" and ?e = "effects (text_seg vm) i"
  have up: "le32 (up AND NOT (idef ?e)) ?M" by (simp add: hi_step_def Let_def le32_def bit_or_iff)
  have all: ?thesis if "hi_kind (i_op i) = HK_ALL \<or> hi_kind (i_op i) \<in> {HK_LOW, HK_SHL} \<and> up AND idef ?e \<noteq> 0"
    by (rule half_all [OF i a _ up]) (use that i(1) in \<open>auto simp: hi_step_def Let_def le32_def bit_or_iff\<close>)
  have low: "low_eq (regs vm r) (regs vm' r)" for r using a by (simp add: agree_half_def)
  have dec: "text_seg vm' = text_seg vm" "pc vm' = pc vm" and eq: "\<forall>r \<in> live_regs ?M. regs vm' r = regs vm r"
    using a agree_decode [of _ vm vm'] by (auto simp: agree_half_def agree_def)
  have val: "alu_value g v = g ?w (regs v (opnd_byte ?w 1)) (regs v (opnd_byte ?w 2)) (regs v (opnd_byte ?w 3))
      (cc_read_i64_at ?t (pc vm + 1))" if "v = vm \<or> v = vm'" for g v
    using that dec by (auto simp: alu_value_def Let_def)
  consider "hi_kind (i_op i) = HK_ALL \<or> hi_kind (i_op i) \<in> {HK_LOW, HK_SHL} \<and> up AND idef ?e \<noteq> 0"
    | (st) "hi_kind (i_op i) = HK_STORE" | (ext) "hi_kind (i_op i) = HK_EXT"
    | (low) "hi_kind (i_op i) = HK_LOW" "up AND idef ?e = 0" | (shl) "hi_kind (i_op i) = HK_SHL" "up AND idef ?e = 0"
    by (cases "hi_kind (i_op i)") auto
  then show ?thesis
  proof cases
    case st
    then have "le32 (store_uses ?t i) ?M" using i(1) by (simp add: hi_step_def Let_def le32_def bit_or_iff)
    then show ?thesis by (rule half_store [OF i st a _ up])
  next
    case ext
    then obtain g where g: "alu (i_op i) = Some g" "role (spec i) 0 = R_ID" using alu_kind_obtain [OF i(1,2)] by auto
    have "rel_result (=) (alu_value g vm) (alu_value g vm')"
      unfolding val [OF disjI1 [OF refl]] val [OF disjI2 [OF refl]] by (rule alu_table_kind(3) [OF g(1) ext low low])
    then show ?thesis by (rule half_alu [OF i g(1) rd [OF g(2)] a up]) auto
  next
    case low
    then obtain g where g: "alu (i_op i) = Some g" "role (spec i) 0 = R_ID" using alu_kind_obtain [OF i(1,2)] by auto
    have "rel_result low_eq (alu_value g vm) (alu_value g vm')"
      unfolding val [OF disjI1 [OF refl]] val [OF disjI2 [OF refl]]
      by (rule alu_table_kind(1) [OF g(1) low(1)]) (rule \<open>\<And>r. low_eq (regs vm r) (regs vm' r)\<close>)+
    then show ?thesis using unread_dest [OF i(1,2) g(2) rd [OF g(2)] low(2)]
      by (intro half_alu [OF i g(1) rd [OF g(2)] a up]) auto
  next
    case shl
    then obtain g where g: "alu (i_op i) = Some g" "role (spec i) 0 = R_ID" using alu_kind_obtain [OF i(1,2)] by auto
    have "opnd_byte ?w 2 \<in> live_regs ?M"
      using shift_count_kept [OF i(1,2) shl, of pr] i(4) by (simp add: get_byte_def operand_def)
    then have cnt: "regs vm' (opnd_byte ?w 2) = regs vm (opnd_byte ?w 2)" using eq by blast
    have "rel_result low_eq (alu_value g vm) (alu_value g vm')"
      unfolding val [OF disjI1 [OF refl]] val [OF disjI2 [OF refl]] cnt by (rule alu_table_kind(2) [OF g(1) shl(1) low])
    then show ?thesis using unread_dest [OF i(1,2) g(2) rd [OF g(2)] shl(2)]
      by (intro half_alu [OF i g(1) rd [OF g(2)] a up]) auto
  qed (rule all)
qed

text \<open>Dropping the wrap itself: a copy of the source, or nothing when the destination is the source,
  differs from the extension in the upper half of the destination only.\<close>

lemma wrap_value_low:
  assumes "op = SX4 \<or> op = ZX4" "alu op = Some g" "g w a b c imm = Inr v"
  shows "low_eq v a"
proof -
  have "take_bit 32 (signed_take_bit 31 a) = take_bit 32 a" by (simp add: take_bit_signed_take_bit)
  then show ?thesis using assms by (auto simp: alu_eval low_eq_def c_sext_def c_zext_def)
qed

lemma wrap_dropped_agree:
  assumes "i_op i = SX4 \<or> i_op i = ZX4" "op_table hl cm (i_op i) = Some h" "pc vm = i_pc i + 1"
    and "get_byte (text_seg vm) i 0 \<noteq> REG_ZERO" "up AND BIT (get_byte (text_seg vm) i 0) = 0"
    and "get_byte (text_seg vm) i 0 < NUM_REGS"
  shows "\<exists>w. h vm = Inr w \<and> agree_half (live_regs up)
      (vm\<lparr>pc := pc w, regs := (regs vm)(get_byte (text_seg vm) i 0 := regs vm (get_byte (text_seg vm) i 1))\<rparr>) w"
proof -
  let ?w = "text_seg vm (pc vm)"
  let ?rd = "opnd_byte ?w 0"
  have b: "get_byte (text_seg vm) i k = opnd_byte ?w k" for k using assms(3) by (simp add: get_byte_def operand_def)
  obtain g where g: "alu (i_op i) = Some g" using assms(1) by (auto simp: alu_eval)
  have h: "h vm = alu_step (operand_words ! i_op i) g vm" using alu_handler_step [OF g assms(2)] assms(4) b by simp
  obtain v where v: "alu_value g vm = Inr v" using g assms(1) by (auto simp: alu_eval alu_value_def Let_def)
  have low: "low_eq v (regs vm (opnd_byte ?w 1))"
    using wrap_value_low [OF assms(1) g] v unfolding alu_value_def Let_def by blast
  have "\<not> bit (up AND BIT ?rd) ?rd" using assms(5) b by simp
  then have "?rd \<notin> live_regs up" using assms(4,6) b [of 0] by (auto simp: live_regs_def bit_and_iff bit_BIT)
  then show ?thesis using h v low unfolding b
    by (auto simp: alu_step_def agree_half_def agree_def low_eq_def)
qed

subsection \<open>Properties\<close>

text \<open>
  C25: The upper-half analysis ends on every decoded window, and its result solves
  the flow equations: a block's set is the backward transfer of what its successors read.
\<close>

theorem upper_halves_terminate:
  assumes "\<forall>i \<in> set (p_ins p). insn_wf (p_text p) i"
  shows "\<exists>hin out. hi_halves p = Some (hin, out) \<and>
    (\<forall>b < length (p_blocks p). hin b = hi_insns (p_promoted p) (p_text p) (block_insns p b) (hi_out p hin b) \<and>
       (\<forall>s \<in> set (b_succs (p_blocks p ! b)). le32 (hin s) (hi_out p hin b)))"
proof -
  have "decoded_window p" using assms by (simp add: decoded_window_def)
  then show ?thesis by (rule decoded_window.hi_halves_solution) blast
qed

theorem upper_halves_terminate_witness:
  "list_all (insn_wf (p_text three_blocks)) (p_ins three_blocks) \<and> (\<exists>s. hi_halves three_blocks = Some s)"
proof -
  have w: "\<forall>i \<in> set (p_ins three_blocks). insn_wf (p_text three_blocks) i"
    using decode_insn_wf [of jz_text] by (simp add: three_blocks_def jz_peep_def insn_wf_def get_byte_def operand_def)
  then have "\<exists>s. hi_halves three_blocks = Some s" using upper_halves_terminate [of three_blocks] by blast
  then show ?thesis using w by (simp add: list_all_iff)
qed

text \<open>
  C14: The upper-half transfer is sound for every known integer instruction: when
  two machines have equal low halves in every register and equal registers in the set \<open>hi_step\<close>
  reports, a step ends in the same fault on both, or leaves equal memory, equal low halves, and equal
  registers in the set read afterwards. A 32-bit store, an operation on low halves and an extension
  do not see the upper halves of their sources.
\<close>

theorem upper_half_step_sound:
  assumes "known i" "insn_wf (text_seg vm) i" "op_table hl cm (i_op i) = Some h" "pc vm = i_pc i + 1"
    and "role (spec i) 0 = R_ID \<Longrightarrow> get_byte (text_seg vm) i 0 \<noteq> REG_ZERO"
    and "agree_half (live_regs (hi_step pr (text_seg vm) i up)) vm vm'"
  shows "half_step (live_regs up) (h vm) (h vm')"
  by (rule hi_step_agree [OF assms])

definition addi_high :: vm where
  "addi_high = addi_vm\<lparr>regs := (regs addi_vm)(11 := 0x100000003)\<rparr>"

theorem upper_half_step_sound_witness:
  "half_step (live_regs 0) (op_ADDI3_fn addi_vm) (op_ADDI3_fn addi_high)"
proof -
  have "hi_step 0 addi_text addi_insn 0 = 0"
    by (simp add: hi_step_def addi_effects addi_insn_simps hi_kind_def)
  then have "agree_half (live_regs (hi_step 0 (text_seg addi_vm) addi_insn 0)) addi_vm addi_high"
    unfolding addi_machine(1)
    by (auto simp: agree_half_def agree_def live_regs_def addi_high_def addi_vm_def low_eq_def)
  from upper_half_step_sound [OF _ _ addi_machine(4) addi_machine(2) _ this] show ?thesis
    by (simp add: addi_insn_simps addi_machine)
qed

end
