(* ===== verification/Peep_Local.thy ===== *)
theory Peep_Local
  imports Peep_Wrap
begin

text \<open>
  The framework in which the rewriting walks of the optimiser are proved: a handler reads no word
  of the text but its own operands and goes on to the next instruction, so a run of instructions
  can be executed over a text that the optimiser is changing elsewhere. \<open>run_insns\<close> executes a
  decoded block: dead instructions are skipped as compaction removes them, an instruction the
  optimiser does not understand is left to a parameter, and a jump leaves the block.
\<close>

subsection \<open>Handlers read their own words only\<close>

definition with_text :: "text_words \<Rightarrow> (vm \<Rightarrow> step) \<Rightarrow> vm \<Rightarrow> step" where
  "with_text t h vm =
     map_sum (\<lambda>(e, w). (e, w\<lparr>text_seg := text_seg vm\<rparr>)) (\<lambda>w. w\<lparr>text_seg := text_seg vm\<rparr>)
       (h (vm\<lparr>text_seg := t\<rparr>))"

definition reads_words :: "nat \<Rightarrow> (vm \<Rightarrow> step) \<Rightarrow> bool" where
  "reads_words n h \<longleftrightarrow>
     (\<forall>vm t. (\<forall>k < n. t (pc vm + of_nat k) = text_seg vm (pc vm + of_nat k)) \<longrightarrow> with_text t h vm = h vm) \<and>
     (\<forall>vm w. h vm = Inr w \<longrightarrow> pc w = pc vm + of_nat n)"

lemma contain_text [simp]:
  "cccc_comptime_addr_ok hl (vm\<lparr>text_seg := t\<rparr>) p n wr = cccc_comptime_addr_ok hl vm p n wr"
  by (simp add: cccc_comptime_addr_ok_def comptime_region_left_def comptime_vm_region_left_def
      comptime_regions_def)

lemma less_words:
  "(\<forall>k < Suc 0. P k) \<longleftrightarrow> P 0" "(\<forall>k < 2. P k) \<longleftrightarrow> P 0 \<and> P 1" "(\<forall>k < 3. P k) \<longleftrightarrow> P 0 \<and> P 1 \<and> P (2 :: nat)"
  by (auto simp: less_Suc_eq numeral_2_eq_2 numeral_3_eq_3)

lemmas reads_defs = reads_words_def with_text_def less_words skeleton_defs shift_imm_op_def
  wrap_shl_op_def read_eqs put_reg_def set_reg_def COMPTIME_CONTAIN_def cc_read_i64_at_def

lemma reads_skeletons [simp]:
  "reads_words (Suc 0) (rrr_op g)" "reads_words (Suc 0) (rr_op f)" "reads_words 3 (rri_op g)"
  "reads_words 3 (shift_imm_op s)" "reads_words (Suc 0) (rr_op_raw f)" "reads_words (Suc 0) (rrr_op_raw g)"
  "reads_words 3 (rri_op_raw g)" "reads_words 3 (wrap_shl_op f)"
  by (auto simp: reads_defs add.assoc split: if_splits)

lemma reads_memory [simp]:
  "reads_words (Suc 0) (load_op n ld hl)" "reads_words (Suc 0) (store_op n st hl)"
  "reads_words 3 (index_load_op n ld hl)" "reads_words 3 (index_store_op n st hl)"
  "reads_words 3 (local_load_op ld)" "reads_words 3 (local_store_op st)"
  by (auto simp: reads_defs load_op_def store_op_def index_load_op_def index_store_op_def
      local_load_op_def local_store_op_def op_index_addr_def local_addr_def add.assoc split: if_splits)

lemma reads_singles [simp]:
  "reads_words (Suc 0) op_DIV3_fn" "reads_words (Suc 0) op_MOD3_fn" "reads_words (Suc 0) op_UDIV3_fn"
  "reads_words (Suc 0) op_UMOD3_fn" "reads_words 3 op_LI3_fn" "reads_words 3 op_LDA3_fn" "reads_words 3 op_LEA3_fn"
  "reads_words (Suc 0) op_MULADD3_fn" "reads_words 3 op_MULADDI3_fn" "reads_words (Suc 0) op_UBFX_fn"
  "reads_words (Suc 0) op_SBFX_fn" "reads_words 2 op_BFI_fn"
  by (auto simp: reads_defs op_DIV3_fn_eq op_MOD3_fn_def op_UDIV3_fn_def op_UMOD3_fn_def op_LI3_fn_def
      op_LDA3_fn_def op_LEA3_fn_def local_addr_def op_MULADD3_fn_def op_MULADDI3_fn_def op_UBFX_fn_def op_SBFX_fn_def op_BFI_fn_def
      add.assoc split: if_splits)

lemma handlers_read:
  "list_all (\<lambda>(op, h). op_spec op \<noteq> None \<longrightarrow> reads_words (operand_words ! op) h) (handlers hl cm)"
  unfolding handlers_def list.pred_inject prod.case
  by (intro conjI TrueI; simp add: op_spec_def handler_defs operand_words_def)

text \<open>An instruction without a destination changes no register.\<close>

definition no_dest :: "(vm \<Rightarrow> step) \<Rightarrow> bool" where
  "no_dest h \<longleftrightarrow> (\<forall>vm w. h vm = Inr w \<longrightarrow> regs w = regs vm)"

lemma no_dest_stores [simp]:
  "no_dest (store_op n st hl)" "no_dest (index_store_op n st hl)" "no_dest (local_store_op st)"
  by (auto simp: no_dest_def store_op_def index_store_op_def local_store_op_def read_eqs COMPTIME_CONTAIN_def
      split: if_splits)

lemma handlers_no_dest:
  "list_all (\<lambda>(op, h). case op_spec op of None \<Rightarrow> True | Some s \<Rightarrow> role0 s \<noteq> R_ID \<longrightarrow> no_dest h) (handlers hl cm)"
  unfolding handlers_def list.pred_inject prod.case
  by (intro conjI TrueI; simp add: op_spec_def handler_defs)

text \<open>A pure integer handler is an ALU operation or \<open>LDA3\<close>.\<close>

lemma handlers_pure:
  "list_all (\<lambda>(op, h). case op_spec op of None \<Rightarrow> True
     | Some s \<Rightarrow> sp_pure s \<longrightarrow> role0 s = R_ID \<and> (op = LDA3 \<or> alu op \<noteq> None)) (handlers hl cm)"
  unfolding handlers_def list.pred_inject prod.case
  by (intro conjI TrueI; simp add: op_spec_def alu_eval)

text \<open>What the table lemmas say of one known instruction.\<close>

lemma known_handler:
  assumes "known i" "insn_wf text i" "op_table hl cm (i_op i) = Some h"
  shows "reads_words (operand_words ! i_op i) h"
    and "role (spec i) 0 \<noteq> R_ID \<Longrightarrow> no_dest h"
    and "sp_pure (spec i) \<Longrightarrow> role (spec i) 0 = R_ID"
    and "sp_pure (spec i) \<Longrightarrow> i_op i = LDA3 \<or> alu (i_op i) \<noteq> None"
proof -
  have sp: "op_spec (i_op i) = Some (spec i)" using assms(1,2) by (simp add: insn_wf_def)
  have "(i_op i, h) \<in> set (handlers hl cm)" using assms(3) unfolding op_table_def by (rule map_of_SomeD)
  note t = bspec [OF _ this, unfolded prod.case]
  show "reads_words (operand_words ! i_op i) h" using t [OF handlers_read [unfolded list_all_iff]] sp by simp
  show "role (spec i) 0 \<noteq> R_ID \<Longrightarrow> no_dest h"
    using t [OF handlers_no_dest [unfolded list_all_iff]] sp by (simp add: role_def)
  show "sp_pure (spec i) \<Longrightarrow> role (spec i) 0 = R_ID" "sp_pure (spec i) \<Longrightarrow> i_op i = LDA3 \<or> alu (i_op i) \<noteq> None"
    using t [OF handlers_pure [unfolded list_all_iff]] sp by (simp_all add: role_def)
qed

subsection \<open>The words of an instruction\<close>

definition same_words :: "text_words \<Rightarrow> text_words \<Rightarrow> insn \<Rightarrow> bool" where
  "same_words t t' i \<longleftrightarrow> (\<forall>k < i_size i. t' (i_pc i + of_nat k) = t (i_pc i + of_nat k))"

definition before :: "insn \<Rightarrow> insn \<Rightarrow> bool" where
  "before i j \<longleftrightarrow> unat (i_pc i) + i_size i \<le> unat (i_pc j)"

definition layout :: "insn list \<Rightarrow> bool" where
  "layout is \<longleftrightarrow> sorted_wrt before is \<and> (\<forall>i \<in> set is. unat (i_pc i) + i_size i < 2 ^ 32)"

text \<open>A change of the text confined to the words of \<open>j\<close>.\<close>

definition changed_at :: "insn \<Rightarrow> text_words \<Rightarrow> text_words \<Rightarrow> bool" where
  "changed_at j t t' \<longleftrightarrow> (\<forall>a. t' a \<noteq> t a \<longrightarrow> unat (i_pc j) \<le> unat a \<and> unat a < unat (i_pc j) + i_size j)"

lemma same_words_refl [simp]: "same_words t t i"
  by (simp add: same_words_def)

lemma same_words_sym: "same_words t t' i \<Longrightarrow> same_words t' t i"
  by (simp add: same_words_def)

lemma same_words_trans: "same_words t t' i \<Longrightarrow> same_words t' t'' i \<Longrightarrow> same_words t t'' i"
  by (simp add: same_words_def)

lemma changed_at_refl [simp]: "changed_at j t t"
  by (simp add: changed_at_def)

lemma changed_at_trans: "changed_at j t t' \<Longrightarrow> changed_at j t' t'' \<Longrightarrow> changed_at j t t''"
  unfolding changed_at_def by metis

lemma unat_pc_add:
  assumes "unat (p :: u32) + n < 2 ^ 32" "k \<le> n"
  shows "unat (p + of_nat k) = unat p + k"
proof -
  have "k < 2 ^ 32" using assms by simp
  then have "unat (of_nat k :: u32) = k" by (simp add: unsigned_of_nat take_bit_nat_eq_self)
  then show ?thesis using assms by (simp add: unat_plus_if')
qed

lemma changed_before:
  assumes "before i j \<or> before j i" "changed_at j t t'"
    and "unat (i_pc i) + i_size i < 2 ^ 32" "0 < i_size j"
  shows "same_words t t' i"
  unfolding same_words_def
proof (intro allI impI, rule ccontr)
  fix k assume k: "k < i_size i" and ne: "t' (i_pc i + of_nat k) \<noteq> t (i_pc i + of_nat k)"
  have u: "unat (i_pc i + of_nat k) = unat (i_pc i) + k" using unat_pc_add [OF assms(3)] k by simp
  from ne assms(2) have "unat (i_pc j) \<le> unat (i_pc i) + k" "unat (i_pc i) + k < unat (i_pc j) + i_size j"
    unfolding changed_at_def u [symmetric] by blast+
  then show False using assms(1) k by (auto simp: before_def)
qed

lemma layout_Cons:
  "layout (i # is) \<longleftrightarrow> (\<forall>j \<in> set is. before i j) \<and> unat (i_pc i) + i_size i < 2 ^ 32 \<and> layout is"
  by (auto simp: layout_def)

lemma layout_append:
  "layout (xs @ ys) \<longleftrightarrow> layout xs \<and> layout ys \<and> (\<forall>i \<in> set xs. \<forall>j \<in> set ys. before i j)"
  by (auto simp: layout_def sorted_wrt_append)

lemma layout_change:
  assumes "layout (xs @ j # ys)" "changed_at j t t'" "0 < i_size j" "i \<in> set xs \<union> set ys"
  shows "same_words t t' i"
proof (rule changed_before [OF _ assms(2) _ assms(3)])
  show "before i j \<or> before j i" using assms(1,4) by (auto simp: layout_append layout_Cons)
  show "unat (i_pc i) + i_size i < 2 ^ 32" using assms(1,4) by (auto simp: layout_def)
qed

text \<open>What the optimiser reads of an instruction is in its words.\<close>

lemma same_operand:
  assumes "same_words t t' i"
  shows "2 \<le> i_size i \<Longrightarrow> operand t' i = operand t i" "2 \<le> i_size i \<Longrightarrow> get_byte t' i k = get_byte t i k"
    and "4 \<le> i_size i \<Longrightarrow> insn_imm t' i = insn_imm t i"
proof -
  have w: "t' (i_pc i + of_nat k) = t (i_pc i + of_nat k)" if "k < i_size i" for k
    using assms that by (simp add: same_words_def)
  from w [of 1] show o: "2 \<le> i_size i \<Longrightarrow> operand t' i = operand t i" by (simp add: operand_def)
  from o show "2 \<le> i_size i \<Longrightarrow> get_byte t' i k = get_byte t i k" by (simp add: get_byte_def)
  from w [of 2] w [of 3] show "4 \<le> i_size i \<Longrightarrow> insn_imm t' i = insn_imm t i"
    by (simp add: insn_imm_def cc_read_i64_at_def add.assoc)
qed

lemma reg_op_words:
  "op \<in> {JZ3, JNZ3, CALLI, CALLN, JMPI} \<Longrightarrow> 1 \<le> operand_words ! op"
  by (auto simp: operand_words_def)

lemma fused_op_words: "IS_FUSED_BR op \<Longrightarrow> 1 \<le> operand_words ! op"
proof -
  have "list_all (\<lambda>op. 1 \<le> operand_words ! op) [BEQ3 ..< Suc BUGEW3]" by (simp add: upt_rec operand_words_def)
  then show "IS_FUSED_BR op \<Longrightarrow> 1 \<le> operand_words ! op" using fused_ops [of op] unfolding list_all_iff by blast
qed

lemma spec_op_words: "op_spec op \<noteq> None \<Longrightarrow> op_table hl cm op \<noteq> None \<Longrightarrow> 1 \<le> operand_words ! op"
proof -
  have "list_all (\<lambda>(op, h). op_spec op \<noteq> None \<longrightarrow> 1 \<le> operand_words ! op) (handlers hl cm)"
    unfolding handlers_def list.pred_inject prod.case
    by (intro conjI TrueI; simp add: op_spec_def operand_words_def)
  then show "op_spec op \<noteq> None \<Longrightarrow> op_table hl cm op \<noteq> None \<Longrightarrow> 1 \<le> operand_words ! op"
    using map_of_SomeD [of "handlers hl cm" op] by (force simp: op_table_def list_all_iff)
qed

subsection \<open>Instructions the walks may meet\<close>

definition is_jz :: "opcode \<Rightarrow> bool" where
  "is_jz op \<longleftrightarrow> op = JZ3 \<or> op = JNZ3"

definition insn_ok :: "host_ranges \<Rightarrow> committer \<Rightarrow> text_words \<Rightarrow> insn \<Rightarrow> bool" where
  "insn_ok hl cm text i \<longleftrightarrow>
     Suc (operand_words ! i_op i) \<le> i_size i \<and>
     (known i \<longrightarrow> insn_wf text i \<and> op_table hl cm (i_op i) \<noteq> None \<and> i_size i = Suc (operand_words ! i_op i) \<and>
        (role (spec i) 0 = R_ID \<longrightarrow> get_byte text i 0 \<noteq> REG_ZERO) \<and>
        imm_ok (i_op i) (operand text i) (insn_imm text i) \<and> (i_op i = LI3 \<longrightarrow> fold_v i = None)) \<and>
     (is_jz (i_op i) \<longrightarrow> get_byte text i 0 < NUM_REGS \<and> i_size i = 3)"

lemma insn_ok_known:
  assumes "insn_ok hl cm text i" "known i"
  obtains h where "op_table hl cm (i_op i) = Some h" "insn_wf text i" "2 \<le> i_size i"
    "op_spec (i_op i) = Some (spec i)" "i_size i = Suc (operand_words ! i_op i)" "\<not> is_jz (i_op i)"
proof -
  obtain h where h: "op_table hl cm (i_op i) = Some h" "insn_wf text i" "i_size i = Suc (operand_words ! i_op i)"
    using assms by (auto simp: insn_ok_def)
  have sp: "op_spec (i_op i) = Some (spec i)" using insn_spec [OF h(2) assms(2)] .
  have "1 \<le> operand_words ! i_op i" using spec_op_words [of "i_op i" hl cm] sp h(1) by simp
  with that [OF h(1,2) _ sp h(3)] h(3) op_spec_ctrl [OF sp] show thesis by (simp add: is_jz_def)
qed

lemma imm_size:
  "op \<in> {SHLI3, SHRI3, USHRI3, SHLISX3, SHLIZX3} \<Longrightarrow> operand_words ! op = 3"
  by (auto simp: operand_words_def)

lemma insn_ok_same:
  assumes "same_words t t' i" "insn_ok hl cm t i"
  shows "insn_ok hl cm t' i"
proof -
  note so = same_operand [OF assms(1)]
  have k: "insn_wf t' i \<and> get_byte t' i 0 = get_byte t i 0 \<and> imm_ok (i_op i) (operand t' i) (insn_imm t' i)"
    if "known i"
  proof -
    have h: "insn_wf t i" "2 \<le> i_size i" "i_size i = Suc (operand_words ! i_op i)"
      using insn_ok_known [OF assms(2) that] by blast+
    have "imm_ok (i_op i) (operand t i) (insn_imm t i)" using assms(2) that by (simp add: insn_ok_def)
    then have "imm_ok (i_op i) (operand t' i) (insn_imm t' i)"
      using so(1) [OF h(2)] so(3) h(3) imm_size [of "i_op i"] by (auto simp: imm_ok_def)
    then show ?thesis using h(1) so(2) [OF h(2)] by (simp add: insn_wf_def)
  qed
  have "get_byte t' i 0 = get_byte t i 0" if "is_jz (i_op i)"
    using assms(2) that so(2) by (simp add: insn_ok_def)
  with k show ?thesis using assms(2) by (auto simp: insn_ok_def)
qed

lemma effects_same:
  assumes "same_words t t' i" "insn_ok hl cm t i"
  shows "effects t' i = effects t i" "step_back t' i l = step_back t i l"
proof -
  note so = same_operand [OF assms(1)]
  have b: "2 \<le> i_size i \<Longrightarrow> get_byte t' i = get_byte t i" using so(2) by blast
  have k: "known i \<Longrightarrow> get_byte t' i = get_byte t i" using insn_ok_known [OF assms(2)] b by blast
  have r: "1 \<le> operand_words ! i_op i \<Longrightarrow> get_byte t' i = get_byte t i"
    using b assms(2) by (simp add: insn_ok_def)
  have re: "known i \<Longrightarrow> role_effect t' i k e = role_effect t i k e" for k e
    using k by (simp add: role_effect_def)
  show e: "effects t' i = effects t i"
  proof (cases "i_op i \<in> {JZ3, JNZ3, CALLI, CALLN, JMPI} \<or> IS_FUSED_BR (i_op i)")
    case True
    then have "get_byte t' i = get_byte t i" using r reg_op_words fused_op_words by blast
    moreover have "role_effect t' i = role_effect t i"
      using calculation by (simp add: role_effect_def fun_eq_iff)
    ultimately show ?thesis by (simp only: effects_def)
  next
    case False
    then have "role_effect t' i = role_effect t i \<or> \<not> known i" using re by (auto simp: fun_eq_iff)
    then show ?thesis using False by (auto simp: effects_def Let_def is_call_def)
  qed
  show "step_back t' i l = step_back t i l" by (simp add: step_back_def e)
qed

subsection \<open>Running a block over a text\<close>

type_synonym opaque = "text_words \<Rightarrow> insn \<Rightarrow> vm \<Rightarrow> step"

definition run_insn :: "opaque \<Rightarrow> host_ranges \<Rightarrow> committer \<Rightarrow> text_words \<Rightarrow> insn \<Rightarrow> vm \<Rightarrow> step" where
  "run_insn opq hl cm text i vm =
     (let v = vm\<lparr>pc := i_pc i + 1\<rparr>
      in if known i \<or> is_jz (i_op i)
         then (case op_table hl cm (i_op i) of
                 None \<Rightarrow> Inl (Not_Modelled, v)
               | Some h \<Rightarrow> with_text text h v)
         else opq text i v)"

text \<open>The run goes on as long as an instruction ends at the next one: \<open>reach\<close> is the machine at the
  end of the list, or the outcome that left it earlier. Falling off the end leads to the word
  \<open>stop\<close>.\<close>

fun reach :: "opaque \<Rightarrow> host_ranges \<Rightarrow> committer \<Rightarrow> text_words \<Rightarrow> insn list \<Rightarrow> vm \<Rightarrow> step + vm" where
  "reach opq hl cm text [] vm = Inr vm"
| "reach opq hl cm text (i # is) vm =
     (if dead i then reach opq hl cm text is vm
      else case run_insn opq hl cm text i vm of
             Inl e \<Rightarrow> Inl (Inl e)
           | Inr w \<Rightarrow> if pc w = i_pc i + of_nat (i_size i) then reach opq hl cm text is w else Inl (Inr w))"

definition run_insns :: "opaque \<Rightarrow> host_ranges \<Rightarrow> committer \<Rightarrow> u32 \<Rightarrow> text_words \<Rightarrow> insn list \<Rightarrow> vm \<Rightarrow> step" where
  "run_insns opq hl cm stop text is vm =
     (case reach opq hl cm text is vm of Inl s \<Rightarrow> s | Inr w \<Rightarrow> Inr (w\<lparr>pc := stop\<rparr>))"

text \<open>Only the last instruction of a block leaves it.\<close>

definition falls_through :: "insn \<Rightarrow> bool" where
  "falls_through i \<longleftrightarrow>
     known i \<or> i_op i \<notin> {JMP, JZ3, JNZ3, JMPT, LEV3, CALLT, JMPI, LONGJMP} \<and> \<not> IS_FUSED_BR (i_op i)"

definition block_ok :: "host_ranges \<Rightarrow> committer \<Rightarrow> text_words \<Rightarrow> insn list \<Rightarrow> bool" where
  "block_ok hl cm text is \<longleftrightarrow>
     layout is \<and> (\<forall>i \<in> set is. dead i \<or> insn_ok hl cm text i) \<and> (\<forall>i \<in> set (butlast is). dead i \<or> falls_through i)"

lemma with_text_same:
  assumes "reads_words n h" "\<forall>k < n. t' (pc vm + of_nat k) = t (pc vm + of_nat k)"
  shows "with_text t' h vm = with_text t h vm"
proof -
  have "with_text t' h (vm\<lparr>text_seg := t\<rparr>) = h (vm\<lparr>text_seg := t\<rparr>)"
    using assms(1) [unfolded reads_words_def, THEN conjunct1, rule_format, of t' "vm\<lparr>text_seg := t\<rparr>"] assms(2) by simp
  moreover have "with_text t' h vm =
      map_sum (\<lambda>(e, w). (e, w\<lparr>text_seg := text_seg vm\<rparr>)) (\<lambda>w. w\<lparr>text_seg := text_seg vm\<rparr>) (with_text t' h (vm\<lparr>text_seg := t\<rparr>))"
    by (cases "h (vm\<lparr>text_seg := t'\<rparr>)") (auto simp: with_text_def)
  ultimately show ?thesis by (simp add: with_text_def)
qed

lemma with_text_pc:
  assumes "reads_words n h" "with_text t h vm = Inr w"
  shows "pc w = pc vm + of_nat n"
  using assms by (cases "h (vm\<lparr>text_seg := t\<rparr>)") (auto simp: with_text_def reads_words_def)

lemma op_table_jz:
  "op_table hl cm JZ3 = Some op_JZ3_fn" "op_table hl cm JNZ3 = Some op_JNZ3_fn"
  by (simp_all add: op_table_def handlers_def)

lemma run_insn_jz:
  assumes "is_jz (i_op i)"
  shows "run_insn opq hl cm text i vm =
    Inr (vm\<lparr>pc := (if (regs vm (get_byte text i 0) = 0) = (i_op i = JZ3) then text (i_pc i + 2) else i_pc i + 3)\<rparr>)"
  using assms by (auto simp: is_jz_def run_insn_def Let_def op_table_jz with_text_def op_JZ3_fn_def op_JNZ3_fn_def
      read_eqs jump_if_def get_byte_def operand_def add.assoc)

text \<open>A known instruction: the next pc, its destination, and the registers it depends on.\<close>

definition uses_of :: "text_words \<Rightarrow> insn \<Rightarrow> nat set" where
  "uses_of text i = {r. \<exists>k < 4. role (spec i) k = R_IU \<and> get_byte text i k = r}"

definition dest_of :: "text_words \<Rightarrow> insn \<Rightarrow> nat set" where
  "dest_of text i = (if role (spec i) 0 = R_ID then {get_byte text i 0} else {})"

lemma run_known:
  assumes "known i" "insn_ok hl cm text i" "run_insn opq hl cm text i vm = Inr w"
  shows "pc w = i_pc i + of_nat (i_size i)" "r \<notin> dest_of text i \<Longrightarrow> regs w r = regs vm r"
    "text_seg w = text_seg vm"
proof -
  obtain h where h: "op_table hl cm (i_op i) = Some h" "insn_wf text i" "i_size i = Suc (operand_words ! i_op i)"
    "op_spec (i_op i) = Some (spec i)"
    using insn_ok_known [OF assms(2,1)] by metis
  let ?v = "vm\<lparr>pc := i_pc i + 1\<rparr>"
  have w: "with_text text h ?v = Inr w" using assms(1,3) h(1) by (simp add: run_insn_def)
  note K = known_handler [OF assms(1) h(2,1)]
  show "pc w = i_pc i + of_nat (i_size i)" using with_text_pc [OF K(1) w] h(3) by (simp add: add.assoc)
  show "text_seg w = text_seg vm" using w by (cases "h (?v\<lparr>text_seg := text\<rparr>)") (auto simp: with_text_def)
  obtain w1 where w1: "h (?v\<lparr>text_seg := text\<rparr>) = Inr w1" "regs w = regs w1"
    using w by (cases "h (?v\<lparr>text_seg := text\<rparr>)") (auto simp: with_text_def)
  show "regs w r = regs vm r" if "r \<notin> dest_of text i"
  proof (cases "role (spec i) 0 = R_ID")
    case True
    have "frame h" using handler_frame [OF h(1)] h(4) by simp
    moreover have "r \<noteq> opnd_byte (text (i_pc i + 1)) 0" using that True by (simp add: dest_of_def get_byte_def operand_def)
    ultimately show ?thesis using w1 unfolding frame_def by force
  next
    case False
    from K(2) [OF False] show ?thesis using w1 unfolding no_dest_def by force
  qed
qed

lemma agree_text:
  "agree L v v' \<Longrightarrow> agree L (v\<lparr>text_seg := t\<rparr>) (v'\<lparr>text_seg := t\<rparr>)"
  by (cases v, cases v') (auto simp: agree_def)

lemma agree_step_text:
  assumes "agree_step L (h (v\<lparr>text_seg := t\<rparr>)) (h (v'\<lparr>text_seg := t\<rparr>))" "text_seg v' = text_seg v"
  shows "agree_step L (with_text t h v) (with_text t h v')"
  using assms by (cases "h (v\<lparr>text_seg := t\<rparr>)"; cases "h (v'\<lparr>text_seg := t\<rparr>)")
    (auto simp: with_text_def intro: agree_text)

lemma run_uses:
  assumes "known i" "insn_ok hl cm text i"
    and "agree_pc (insert 0 (uses_of text i \<union> M)) vm vm'"
  shows "agree_step (dest_of text i \<union> M) (run_insn opq hl cm text i vm) (run_insn opq hl cm text i vm')"
proof -
  obtain h where h: "op_table hl cm (i_op i) = Some h" "insn_wf text i"
    using insn_ok_known [OF assms(2,1)] by metis
  let ?v = "vm\<lparr>pc := i_pc i + 1, text_seg := text\<rparr>" and ?v' = "vm'\<lparr>pc := i_pc i + 1, text_seg := text\<rparr>"
  have a: "agree (insert 0 (uses_of text i \<union> M)) ?v ?v'"
    using agree_text [OF agree_set_pc [OF assms(3)]] .
  then have v': "?v' = ?v\<lparr>regs := regs vm'\<rparr>" by (simp add: agree_def)
  have b: "get_byte text i k = opnd_byte (text_seg ?v (pc ?v)) k" for k by (simp add: get_byte_def operand_def)
  have eq: "\<forall>r \<in> insert 0 (uses_of text i \<union> M). regs vm' r = regs ?v r" using a by (simp add: agree_def)
  have "regs vm' (opnd_byte (text_seg ?v (pc ?v)) k) = regs ?v (opnd_byte (text_seg ?v (pc ?v)) k)"
    if "k \<in> set (use_list (spec i))" for k
    using eq that unfolding set_use_list b [symmetric] uses_of_def by blast
  then have "agree_step (insert (opnd_byte (text_seg ?v (pc ?v)) 0) M) (h ?v) (h (?v\<lparr>regs := regs vm'\<rparr>))"
    using known_handler_uses [OF assms(1) h(2,1)] eq unfolding uses_def Let_def by blast
  then have "agree_step (dest_of text i \<union> M) (h ?v) (h ?v')"
    unfolding v' by (rule agree_step_mono) (auto simp: dest_of_def get_byte_def operand_def)
  moreover have "text_seg vm' = text_seg vm" using agree_pc_text [OF assms(3)] .
  ultimately show ?thesis using assms(1) h(1)
    by (simp add: run_insn_def) (rule agree_step_text, simp_all)
qed

text \<open>The same for sets of registers given as masks.\<close>

lemma uses_live:
  assumes "known i" "insn_ok hl cm text i"
  shows "insert 0 (uses_of text i \<union> {r \<in> live_regs L. r \<notin> dest_of text i}) \<subseteq> live_regs (fst (step_back text i (L, F)))"
proof -
  have w: "insn_wf text i" using insn_ok_known [OF assms(2,1)] by metis
  have u: "r < NUM_REGS" if "r \<in> uses_of text i" for r
    using that w assms(1) by (fastforce simp: uses_of_def insn_wf_def)
  have d: "bit (idef (effects text i)) r \<longleftrightarrow> r \<in> dest_of text i \<and> 0 < r \<and> r < 32" for r
    unfolding effects_known(2) [OF assms(1) w] dest_of_def
    using op_spec_def0 [OF insn_spec [OF w assms(1)]] by (metis empty_iff insert_iff zero_less_numeral)
  have e: "bit (iuse (effects text i)) r \<longleftrightarrow> r \<in> uses_of text i \<and> 0 < r \<and> r < 32" for r
    unfolding effects_known(1) [OF assms(1) w] uses_of_def by auto
  show ?thesis using u
    by (auto simp: live_regs_def step_back_def Let_def bit_or_iff bit_and_iff bit_not_iff d e)
qed

lemma agree_pc_mono: "agree_pc L vm vm' \<Longrightarrow> M \<subseteq> L \<Longrightarrow> agree_pc M vm vm'"
  by (auto simp: agree_pc_def intro: agree_mono)

lemma run_jz_agree:
  assumes "is_jz (i_op i)" "insn_ok hl cm text i" "agree_pc (live_regs (fst (step_back text i (L, F)))) vm vm'"
  shows "agree_step (live_regs L) (run_insn opq hl cm text i vm) (run_insn opq hl cm text i vm')"
proof -
  let ?r = "get_byte text i 0"
  have r: "?r < NUM_REGS" using assms(1,2) by (simp add: insn_ok_def)
  have "?r \<in> live_regs (fst (step_back text i (L, F)))"
    using assms(1) r by (auto simp: live_regs_def step_back_def effects_def is_jz_def Let_def bit_or_iff bit_BIT)
  then have "regs vm' ?r = regs vm ?r" using assms(3) by (auto simp: agree_pc_def agree_def)
  moreover have "agree_pc (live_regs L) vm vm'"
    by (rule agree_pc_mono [OF assms(3)])
      (use assms(1) in \<open>auto simp: live_regs_def step_back_def effects_def is_jz_def Let_def bit_or_iff no_eff_def\<close>)
  ultimately show ?thesis using agree_set_pc by (simp add: run_insn_jz [OF assms(1)])
qed

subsection \<open>Code the optimiser does not understand\<close>

text \<open>What the analysis assumes of an instruction outside \<open>op_spec\<close>, of a call with everything it
  runs included: it depends on the registers \<open>effects\<close> names and on no word but its own.\<close>

locale opaque_code =
  fixes opq :: opaque and hl :: host_ranges and cm :: committer
  assumes opaque_agree: "\<not> known i \<Longrightarrow> \<not> is_jz (i_op i) \<Longrightarrow> insn_ok hl cm text i \<Longrightarrow>
      agree (live_regs (fst (step_back text i (L, F)))) vm vm' \<Longrightarrow>
      agree_step (live_regs L) (opq text i vm) (opq text i vm')"
    and opaque_words: "\<not> known i \<Longrightarrow> \<not> is_jz (i_op i) \<Longrightarrow> same_words text text' i \<Longrightarrow>
      insn_ok hl cm text i \<Longrightarrow> opq text' i vm = opq text i vm"
    and opaque_next: "\<not> known i \<Longrightarrow> falls_through i \<Longrightarrow> opq text i vm = Inr w \<Longrightarrow>
      pc w = i_pc i + of_nat (i_size i)"
begin

abbreviation "run_i \<equiv> run_insn opq hl cm"

abbreviation "go \<equiv> reach opq hl cm"

lemma run_i_same:
  assumes "same_words text text' i" "insn_ok hl cm text i"
  shows "run_i text' i vm = run_i text i vm"
proof (cases "known i")
  case True
  obtain h where h: "op_table hl cm (i_op i) = Some h" "insn_wf text i" "i_size i = Suc (operand_words ! i_op i)"
    using insn_ok_known [OF assms(2) True] by metis
  have "with_text text' h (vm\<lparr>pc := i_pc i + 1\<rparr>) = with_text text h (vm\<lparr>pc := i_pc i + 1\<rparr>)"
  proof (rule with_text_same [OF known_handler(1) [OF True h(2,1)]], intro allI impI)
    fix k assume "k < operand_words ! i_op i"
    then have "text' (i_pc i + of_nat (Suc k)) = text (i_pc i + of_nat (Suc k))"
      using assms(1) h(3) by (simp add: same_words_def del: of_nat_Suc)
    then show "text' (pc (vm\<lparr>pc := i_pc i + 1\<rparr>) + of_nat k) = text (pc (vm\<lparr>pc := i_pc i + 1\<rparr>) + of_nat k)"
      by (simp add: add.assoc)
  qed
  then show ?thesis using True h(1) by (simp add: run_insn_def)
next
  case False
  show ?thesis
  proof (cases "is_jz (i_op i)")
    case True
    have "i_size i = 3" using assms(2) True by (simp add: insn_ok_def)
    then have "text' (i_pc i + 2) = text (i_pc i + 2)" "get_byte text' i 0 = get_byte text i 0"
      using assms(1) [unfolded same_words_def, rule_format, of 2] same_operand(2) [OF assms(1)] by auto
    then show ?thesis by (simp add: run_insn_jz [OF True])
  next
    case f: False
    show ?thesis using False f opaque_words [OF False f assms] by (simp add: run_insn_def)
  qed
qed

lemma run_i_agree:
  assumes "insn_ok hl cm text i" "agree_pc (live_regs (fst (step_back text i (L, F)))) vm vm'"
  shows "agree_step (live_regs L) (run_i text i vm) (run_i text i vm')"
proof (cases "known i")
  case True
  have "agree_pc (insert 0 (uses_of text i \<union> {r \<in> live_regs L. r \<notin> dest_of text i})) vm vm'"
    by (rule agree_pc_mono [OF assms(2) uses_live [OF True assms(1)]])
  from run_uses [OF True assms(1) this] show ?thesis by (rule agree_step_mono) blast
next
  case False
  show ?thesis
  proof (cases "is_jz (i_op i)")
    case True
    show ?thesis by (rule run_jz_agree [OF True assms])
  next
    case f: False
    show ?thesis using opaque_agree [OF False f assms(1) agree_set_pc [OF assms(2)]] False f
      by (simp add: run_insn_def)
  qed
qed

lemma run_i_next:
  assumes "falls_through i" "insn_ok hl cm text i" "run_i text i vm = Inr w"
  shows "pc w = i_pc i + of_nat (i_size i)"
proof (cases "known i")
  case True
  then show ?thesis using run_known(1) [OF True assms(2,3)] by simp
next
  case False
  then have "\<not> is_jz (i_op i)" using assms(1) by (auto simp: falls_through_def is_jz_def)
  then show ?thesis using opaque_next [OF False assms(1)] assms(3) False by (simp add: run_insn_def)
qed

lemma go_append: "go text (xs @ ys) vm = (case go text xs vm of Inl s \<Rightarrow> Inl s | Inr w \<Rightarrow> go text ys w)"
  by (induction xs arbitrary: vm) (auto split: sum.split)

lemma go_same:
  assumes "\<forall>i \<in> set is. dead i \<or> insn_ok hl cm text i \<and> same_words text text' i"
  shows "go text' is vm = go text is vm"
  using assms
proof (induction "is" arbitrary: vm)
  case (Cons i "is")
  have "run_i text' i vm = run_i text i vm" if "\<not> dead i" using Cons.prems that run_i_same by auto
  then show ?case using Cons by (auto split: sum.split)
qed simp

text \<open>Faults are the only way out of instructions that fall through.\<close>

lemma go_through:
  assumes "\<forall>i \<in> set is. dead i \<or> insn_ok hl cm text i \<and> falls_through i" "go text is vm = Inl s"
  shows "\<exists>e. s = Inl e"
  using assms
proof (induction "is" arbitrary: vm)
  case (Cons i "is")
  show ?case
  proof (cases "dead i")
    case False
    then have "insn_ok hl cm text i" "falls_through i" using Cons.prems(1) by auto
    then show ?thesis
      using Cons.IH Cons.prems False run_i_next [of i "text" vm] by (cases "run_i text i vm") auto
  qed (use Cons in auto)
qed simp

end

subsection \<open>Outcomes that agree\<close>

fun agree_reach :: "nat set \<Rightarrow> nat set \<Rightarrow> step + vm \<Rightarrow> step + vm \<Rightarrow> bool" where
  "agree_reach K L (Inr w) (Inr w') = agree_pc K w w'"
| "agree_reach K L (Inl s) (Inl s') = agree_step L s s'"
| "agree_reach K L _ _ = False"

lemma agree_refl [simp]: "agree L v v"
  by (simp add: agree_def)

lemma agree_pc_refl [simp]: "agree_pc L v v"
  by (simp add: agree_pc_def)

lemma agree_step_refl [simp]: "agree_step L s s"
  by (cases s) auto

lemma agree_reach_refl [simp]: "agree_reach K L s s"
  by (cases s) auto

lemma agree_trans1: "agree L a b \<Longrightarrow> agree L b c \<Longrightarrow> agree L a c"
  by (cases a, cases b, cases c) (auto simp: agree_def)

lemma agree_step_trans: "agree_step L a b \<Longrightarrow> agree_step L b c \<Longrightarrow> agree_step L a c"
  by (cases a; cases b; cases c) (auto intro: agree_trans1)

lemma agree_reach_trans: "agree_reach K L a b \<Longrightarrow> agree_reach K L b c \<Longrightarrow> agree_reach K L a c"
  by (cases a; cases b; cases c) (auto intro: agree_trans agree_step_trans)

lemma agree_reach_run:
  assumes "agree_reach L L (reach opq hl cm text is vm) (reach opq hl cm text' is' vm')"
  shows "agree_step L (run_insns opq hl cm stop text is vm) (run_insns opq hl cm stop text' is' vm')"
  using assms by (cases "reach opq hl cm text is vm"; cases "reach opq hl cm text' is' vm'")
    (auto simp: run_insns_def intro: agree_set_pc)

lemma block_ok_Cons:
  "block_ok hl cm text (i # is) \<longleftrightarrow> (\<forall>j \<in> set is. before i j) \<and> unat (i_pc i) + i_size i < 2 ^ 32 \<and>
     (dead i \<or> insn_ok hl cm text i \<and> (is \<noteq> [] \<longrightarrow> falls_through i)) \<and> block_ok hl cm text is"
  by (cases "is") (auto simp: block_ok_def layout_Cons)

lemma block_ok_append:
  assumes "ys \<noteq> []"
  shows "block_ok hl cm text (xs @ ys) \<longleftrightarrow> layout xs \<and> (\<forall>i \<in> set xs. dead i \<or> insn_ok hl cm text i \<and> falls_through i) \<and>
     block_ok hl cm text ys \<and> (\<forall>i \<in> set xs. \<forall>j \<in> set ys. before i j)"
  using assms by (auto simp: block_ok_def layout_append butlast_append)

context opaque_code
begin

lemma go_agree:
  assumes "block_ok hl cm text is" "agree_pc (live_regs (fst (live_insns text is (L, F)))) vm vm'"
  shows "agree_reach (live_regs L) (live_regs L) (go text is vm) (go text is vm')"
  using assms
proof (induction "is" arbitrary: vm vm')
  case Nil
  then show ?case by (simp add: live_insns_def)
next
  case (Cons i "is")
  show ?case
  proof (cases "dead i")
    case True
    then show ?thesis using Cons by (simp add: live_insns_Cons block_ok_Cons)
  next
    case False
    obtain L1 F1 where l1: "live_insns text is (L, F) = (L1, F1)" by (cases "live_insns text is (L, F)")
    have ok: "insn_ok hl cm text i" "is \<noteq> [] \<longrightarrow> falls_through i" "block_ok hl cm text is"
      using Cons.prems(1) False by (simp_all add: block_ok_Cons)
    have "agree_step (live_regs L1) (run_i text i vm) (run_i text i vm')"
      using run_i_agree [OF ok(1)] Cons.prems(2) False by (simp add: live_insns_Cons l1)
    then consider e w w' where "run_i text i vm = Inl (e, w)" "run_i text i vm' = Inl (e, w')"
      | w w' where "run_i text i vm = Inr w" "run_i text i vm' = Inr w'" "agree (live_regs L1) w w'"
      by (cases "run_i text i vm"; cases "run_i text i vm'") auto
    then show ?thesis
    proof cases
      case 1
      then show ?thesis using False by simp
    next
      case 2
      have p: "pc w' = pc w" and a: "agree_pc (live_regs L1) w w'" using 2(3) by (auto simp: agree_fields)
      show ?thesis
      proof (cases "pc w = i_pc i + of_nat (i_size i)")
        case True
        have "agree_pc (live_regs (fst (live_insns text is (L, F)))) w w'" using a by (simp add: l1)
        from Cons.IH [OF ok(3) this] show ?thesis using False 2 p True by simp
      next
        case f: False
        then have "is = []" using run_i_next [OF _ ok(1) 2(1)] ok(2) by blast
        then have "L1 = L" using l1 by (simp add: live_insns_def)
        then show ?thesis using False 2 p f by simp
      qed
    qed
  qed
qed

end

subsection \<open>Rewriting a part of a block\<close>

text \<open>A pure instruction ends normally and changes its destination only.\<close>

lemma LDA3_run:
  assumes "opnd_byte (text_seg vm (pc vm)) 0 \<noteq> REG_ZERO"
  shows "op_LDA3_fn vm = Inr (vm\<lparr>pc := pc vm + 3, regs := (regs vm)(opnd_byte (text_seg vm (pc vm)) 0 :=
     data_seg vm + cc_read_i64_at (text_seg vm) (pc vm + 1))\<rparr>)"
  using assms by (simp add: op_LDA3_fn_def read_eqs set_reg_def put_reg_def)

text \<open>Instructions that neither read nor write the registers of a set cannot see or change them.\<close>

definition avoids :: "host_ranges \<Rightarrow> committer \<Rightarrow> text_words \<Rightarrow> nat set \<Rightarrow> insn \<Rightarrow> bool" where
  "avoids hl cm text X i \<longleftrightarrow> dead i \<or>
     known i \<and> insn_ok hl cm text i \<and> uses_of text i \<inter> X = {} \<and> dest_of text i \<inter> X = {}"

lemma run_alu:
  assumes "known i" "insn_ok hl cm text i" "alu (i_op i) = Some g" "role (spec i) 0 = R_ID"
  shows "run_insn opq hl cm text i vm =
     (case insn_value text i (regs vm) g of
        Inl e \<Rightarrow> Inl (e, vm\<lparr>pc := i_pc i + of_nat (i_size i)\<rparr>)
      | Inr v \<Rightarrow> Inr (vm\<lparr>pc := i_pc i + of_nat (i_size i), regs := (regs vm)(get_byte text i 0 := v)\<rparr>))"
proof -
  obtain h where h: "op_table hl cm (i_op i) = Some h" "i_size i = Suc (operand_words ! i_op i)"
    using insn_ok_known [OF assms(2,1)] by metis
  let ?v = "vm\<lparr>pc := i_pc i + 1, text_seg := text\<rparr>"
  have b: "opnd_byte (text_seg ?v (pc ?v)) 0 = get_byte text i 0" by (simp add: get_byte_def operand_def)
  have "get_byte text i 0 \<noteq> REG_ZERO" using assms(1,2,4) by (simp add: insn_ok_def)
  then have "h ?v = alu_step (operand_words ! i_op i) g ?v"
    using alu_handler_step [OF assms(3) h(1), of ?v] unfolding b by blast
  moreover have "alu_value g ?v = insn_value text i (regs vm) g"
    using alu_value_insn [of ?v i g] by simp
  moreover have "i_pc i + 1 + of_nat (operand_words ! i_op i) = i_pc i + of_nat (i_size i)"
    by (simp add: h(2) add.assoc)
  ultimately show ?thesis using assms(1) h(1)
    by (auto simp: run_insn_def with_text_def alu_step_def Let_def b [simplified] split: sum.split)
qed

lemma run_pure:
  assumes "known i" "insn_ok hl cm text i" "sp_pure (spec i)"
  obtains v where "run_insn opq hl cm text i vm =
      Inr (vm\<lparr>pc := i_pc i + of_nat (i_size i), regs := (regs vm)(get_byte text i 0 := v)\<rparr>)"
    "\<And>g. alu (i_op i) = Some g \<Longrightarrow> insn_value text i (regs vm) g = Inr v"
proof -
  obtain h where h: "op_table hl cm (i_op i) = Some h" "insn_wf text i" "i_size i = Suc (operand_words ! i_op i)"
      "op_spec (i_op i) = Some (spec i)"
    using insn_ok_known [OF assms(2,1)] by metis
  have d: "role (spec i) 0 = R_ID" by (rule known_handler(3) [OF assms(1) h(2,1) assms(3)])
  show thesis
  proof (cases "alu (i_op i)")
    case (Some g)
    have "imm_ok (i_op i) (operand text i) (insn_imm text i)" using assms(1,2) by (simp add: insn_ok_def)
    then obtain v where v: "insn_value text i (regs vm) g = Inr v"
      using pure_no_fault [OF Some h(4) assms(3), of "operand text i" "insn_imm text i"] unfolding insn_value_def by blast
    show ?thesis
      by (rule that [of v]) (use run_alu [OF assms(1,2) Some d] v Some in auto)
  next
    case None
    then have op: "i_op i = LDA3" using known_handler(4) [OF assms(1) h(2,1) assms(3)] by simp
    have hh: "h = op_LDA3_fn" "operand_words ! i_op i = 3"
      using h(1) unfolding op by (simp_all add: op_table_def handlers_def operand_words_def)
    let ?v = "vm\<lparr>pc := i_pc i + 1, text_seg := text\<rparr>"
    have "opnd_byte (text_seg ?v (pc ?v)) 0 \<noteq> REG_ZERO" 
      using assms(1,2) d by (simp add: insn_ok_def get_byte_def operand_def)
    from LDA3_run [OF this] show ?thesis
      using that [of "data_seg vm + cc_read_i64_at text (i_pc i + 2)"] assms(1) h(1,3) None
      by (simp add: run_insn_def with_text_def hh get_byte_def operand_def add.assoc)
  qed
qed

context opaque_code
begin

lemma agree_reach_bind:
  assumes "agree_reach K L s s'" "\<And>w w'. agree_pc K w w' \<Longrightarrow> agree_reach K' L (k w) (k' w')"
  shows "agree_reach K' L (case s of Inl x \<Rightarrow> Inl x | Inr w \<Rightarrow> k w) (case s' of Inl x \<Rightarrow> Inl x | Inr w \<Rightarrow> k' w)"
  using assms by (cases s; cases s') auto

text \<open>Replacing the middle of a block, when what follows cannot tell the difference.\<close>

lemma go_replace:
  assumes "\<forall>i \<in> set pre. dead i \<or> insn_ok hl cm text i \<and> same_words text text' i"
    and "\<forall>i \<in> set post. dead i \<or> insn_ok hl cm text i \<and> same_words text text' i" "block_ok hl cm text post"
    and "\<And>w. go text pre vm = Inr w \<Longrightarrow>
      agree_reach (live_regs (fst (live_insns text post (L, F)))) (live_regs L) (go text mid w) (go text' mid' w)"
  shows "agree_reach (live_regs L) (live_regs L) (go text (pre @ mid @ post) vm) (go text' (pre @ mid' @ post) vm)"
proof -
  have pre: "go text' pre vm = go text pre vm" by (rule go_same [OF assms(1)])
  have post: "go text' post = go text post" using go_same [OF assms(2)] by blast
  show ?thesis
  proof (cases "go text pre vm")
    case (Inr w)
    then show ?thesis unfolding go_append pre post
      using agree_reach_bind [OF assms(4) [OF Inr] go_agree [OF assms(3)]] by simp
  qed (simp add: go_append pre)
qed

lemma go_dead:
  assumes "known i" "insn_ok hl cm text i" "sp_pure (spec i)" "idef (effects text i) AND L = 0"
  shows "agree_reach (live_regs L) M (go text [i] w) (Inr w)"
proof (cases "dead i")
  case False
  obtain v where v: "run_i text i w =
      Inr (w\<lparr>pc := i_pc i + of_nat (i_size i), regs := (regs w)(get_byte text i 0 := v)\<rparr>)"
    by (rule run_pure [OF assms(1-3)])
  obtain h where h: "op_table hl cm (i_op i) = Some h" "insn_wf text i"
    using insn_ok_known [OF assms(2,1)] by metis
  have d: "role (spec i) 0 = R_ID" by (rule known_handler(3) [OF assms(1) h(2,1) assms(3)])
  have "get_byte text i 0 \<notin> live_regs L"
  proof
    let ?r = "get_byte text i 0"
    assume "?r \<in> live_regs L"
    then have "bit L ?r" "?r < 32" "?r \<noteq> 0" using assms(1,2) d by (auto simp: live_regs_def insn_ok_def)
    moreover from this d have "bit (idef (effects text i)) ?r"
      unfolding effects_known(2) [OF assms(1) h(2)] by (auto intro: exI [of _ 0])
    ultimately have "bit (idef (effects text i) AND L) ?r" by (simp add: bit_and_iff)
    then show False using assms(4) by simp
  qed
  then have "agree_pc (live_regs L) (w\<lparr>pc := p, regs := (regs w)(get_byte text i 0 := v)\<rparr>) w" for p
    by (auto simp: agree_pc_def agree_def)
  then show ?thesis using v False by simp
qed simp

lemma go_avoid:
  assumes "\<forall>i \<in> set is. avoids hl cm text X i" "0 \<notin> X" "agree_pc (- X) w w'"
  shows "agree_reach (- X) L (go text is w) (go text is w') \<and>
    (\<forall>u u'. go text is w = Inr u \<longrightarrow> go text is w' = Inr u' \<longrightarrow> (\<forall>r \<in> X. regs u r = regs w r \<and> regs u' r = regs w' r))"
  using assms(1,3)
proof (induction "is" arbitrary: w w')
  case (Cons i "is")
  show ?case
  proof (cases "dead i")
    case False
    have i: "known i" "insn_ok hl cm text i" "uses_of text i \<inter> X = {}" "dest_of text i \<inter> X = {}"
      using Cons.prems(1) False by (auto simp: avoids_def)
    have "insert 0 (uses_of text i \<union> - X) = - X" using i(3) assms(2) by blast
    then have "agree_step (dest_of text i \<union> - X) (run_i text i w) (run_i text i w')"
      using run_uses [OF i(1,2), of "- X" w w'] Cons.prems(2) by simp
    then have "agree_step (- X) (run_i text i w) (run_i text i w')" by (rule agree_step_mono) blast
    then consider e v v' where "run_i text i w = Inl (e, v)" "run_i text i w' = Inl (e, v')"
      | v v' where "run_i text i w = Inr v" "run_i text i w' = Inr v'" "agree (- X) v v'"
      by (cases "run_i text i w"; cases "run_i text i w'") auto
    then show ?thesis
    proof cases
      case 1
      then show ?thesis using False by simp
    next
      case 2
      have "agree_pc (- X) v v'" using 2(3) by (simp add: agree_fields)
      note IH = Cons.IH [OF _ this]
      have "regs v r = regs w r" "regs v' r = regs w' r" if "r \<in> X" for r
        using run_known(2) [OF i(1,2) 2(1)] run_known(2) [OF i(1,2) 2(2)] that i(4) by auto
      then show ?thesis
        using IH Cons.prems(1) False 2 run_known(1) [OF i(1,2) 2(1)] run_known(1) [OF i(1,2) 2(2)] by simp
    qed
  qed (use Cons in simp)
qed simp

lemma go_keeps:
  assumes "\<forall>i \<in> set is. dead i \<or> known i \<and> insn_ok hl cm text i \<and> r \<notin> dest_of text i" "go text is w = Inr u"
  shows "regs u r = regs w r"
  using assms
proof (induction "is" arbitrary: w)
  case (Cons i "is")
  show ?case
  proof (cases "dead i")
    case False
    then have i: "known i" "insn_ok hl cm text i" "r \<notin> dest_of text i" using Cons.prems(1) by auto
    obtain v where v: "run_i text i w = Inr v" "go text is v = Inr u"
      using Cons.prems(2) False by (auto split: sum.split_asm if_split_asm)
    show ?thesis using Cons.IH [OF _ v(2)] Cons.prems(1) run_known(2) [OF i(1,2) v(1) i(3)] by simp
  qed (use Cons in auto)
qed simp

end

end
