(* ===== verification/Peep_Back.thy ===== *)
theory Peep_Back
  imports Peep_Local
begin

text \<open>
  The backward pass over a block (\<open>src/src/codegen_peep.c\<close>, lines 1920 to 2125): dead definitions,
  retargeting of a definition that is only copied, constants merged into the operation that uses
  them, and extensions a branch on zero does not need. The block is a zipper: the instructions
  before the current one, the nearest first, and those after it, already processed.
\<close>

subsection \<open>Retargeting\<close>

text \<open>The definition of \<open>t\<close> that can write \<open>x\<close> instead, within the nearest \<open>n\<close> instructions.\<close>

fun retarget_def :: "text_words \<Rightarrow> bool \<Rightarrow> nat \<Rightarrow> nat \<Rightarrow> nat \<Rightarrow> insn list \<Rightarrow> insn option" where
  "retarget_def text fp x t n [] = None"
| "retarget_def text fp x t 0 (d # bs) = None"
| "retarget_def text fp x t (Suc n) (d # bs) =
     (if dead d then retarget_def text fp x t n bs
      else if \<not> known d then None
      else let e = effects text d;
               defs = (if fp then fdef e else idef e); uses = (if fp then fuse e else iuse e)
        in if defs AND BIT t \<noteq> 0
           then (if defs \<noteq> BIT t \<or> role (spec d) 0 \<noteq> (if fp then R_FD else R_ID) \<or> get_byte text d 0 \<noteq> t
                 then None else Some d)
           else if (defs OR uses) AND (BIT t OR BIT x) \<noteq> 0 then None
           else retarget_def text fp x t n bs)"

text \<open>The text after retargeting the source of the move \<open>m\<close>, which then goes.\<close>

definition try_retarget :: "text_words \<Rightarrow> insn \<Rightarrow> insn list \<Rightarrow> u32 \<Rightarrow> u32 \<Rightarrow> text_words option" where
  "try_retarget text m bs il fl =
     (let fp = (i_op m = FMOV3); x = get_byte text m 0; t = get_byte text m 1
      in if x = t \<or> \<not> fp \<and> (x = REG_ZERO \<or> t = REG_ZERO) then None
         else if (if fp then fl else il) AND BIT t \<noteq> 0 then None
         else map_option (\<lambda>d. set_byte text d 0 x) (retarget_def text fp x t 8 bs))"

subsection \<open>Merging a constant\<close>

text \<open>The position of the \<open>LI3 t\<close> that feeds the operation, among the eight nearest live
  instructions; \<open>a\<close> is the other operand of a binary operation.\<close>

fun find_li :: "text_words \<Rightarrow> nat \<Rightarrow> nat \<Rightarrow> nat option \<Rightarrow> nat \<Rightarrow> insn list \<Rightarrow> nat option" where
  "find_li text d t a seen [] = None"
| "find_li text d t a seen (x # bs) =
     (if 8 \<le> seen then None
      else if dead x then map_option Suc (find_li text d t a seen bs)
      else if \<not> known x then None
      else let e = effects text x
        in if idef e AND BIT t \<noteq> 0
           then (if i_op x = LI3 \<and> idef e = BIT t \<and> get_byte text x 0 = t then Some 0 else None)
           else if iuse e AND BIT t \<noteq> 0 \<or> (idef e OR iuse e) AND BIT d \<noteq> 0 \<or>
                (case a of None \<Rightarrow> False | Some r \<Rightarrow> idef e AND BIT r \<noteq> 0)
           then None
           else map_option Suc (find_li text d t a (Suc seen) bs))"

text \<open>One round of the loop over the operands: \<open>t\<close> is operand \<open>k\<close> of \<open>o\<close>.\<close>

definition imm_fold_at :: "text_words \<Rightarrow> insn \<Rightarrow> insn list \<Rightarrow> u32 \<Rightarrow> bool \<Rightarrow> nat \<Rightarrow> (text_words \<times> insn list) option" where
  "imm_fold_at text opn bs il binary k =
     (let d = get_byte text opn 0; t = get_byte text opn (Suc k); a = get_byte text opn (2 - k)
      in if t = REG_ZERO \<or> binary \<and> k = 0 \<and> t = a \<or> t \<noteq> d \<and> il AND BIT t \<noteq> 0 then None
         else case find_li text d t (if binary then Some a else None) 0 bs of
           None \<Rightarrow> None
         | Some j \<Rightarrow>
             let li = bs ! j
             in (case fold_v opn of
                   Some v \<Rightarrow>
                     Some ((cc_write_i64_at text (i_pc li + 2) v)(i_pc li + 1 := of_nat d), bs)
                 | None \<Rightarrow>
                     if \<not> binary then None
                     else (case imm_opcode (i_op opn) (k = 0) (insn_imm text li) of
                             None \<Rightarrow> None
                           | Some (iop, c) \<Rightarrow>
                               let (text1, li1) = make_imm_op text li iop c
                               in Some (text1(i_pc li + 1 := of_nat d OR push_bit 8 (of_nat a)), bs[j := li1]))))"

definition try_imm_fold :: "text_words \<Rightarrow> insn \<Rightarrow> insn list \<Rightarrow> u32 \<Rightarrow> (text_words \<times> insn list) option" where
  "try_imm_fold text opn bs il =
     (if \<not> known opn \<or> i_size opn \<noteq> 2 \<or> \<not> sp_pure (spec opn) \<or> role (spec opn) 0 \<noteq> R_ID \<or>
         role (spec opn) 1 \<noteq> R_IU \<or> get_byte text opn 0 = REG_ZERO
      then None
      else let binary = (role (spec opn) 2 = R_IU \<and> role (spec opn) 3 = R_NO)
        in case imm_fold_at text opn bs il binary 0 of
             Some r \<Rightarrow> Some r
           | None \<Rightarrow> if binary then imm_fold_at text opn bs il binary 1 else None)"

subsection \<open>The walk\<close>

record walk =
  bk_text :: text_words
  bk_before :: "insn list"
  bk_after :: "insn list"
  bk_il :: u32
  bk_fl :: u32
  bk_br :: u32
  bk_changed :: bool

text \<open>The instruction \<open>next\<close> of the C loop is the first one of those after that is not dead.\<close>

definition drop_next_ext :: "insn \<Rightarrow> walk \<Rightarrow> text_words option" where
  "drop_next_ext i s =
     (if ext_needed (i_op i) = 0 then None
      else case find (\<lambda>j. \<not> dead j) (bk_after s) of
        None \<Rightarrow> None
      | Some br \<Rightarrow> if is_jz (i_op br) then map_option fst (drop_branch_ext (bk_text s) i br (bk_br s)) else None)"

text \<open>The rewrites of a known instruction; \<open>None\<close> where it stays.\<close>

definition back_known :: "insn \<Rightarrow> walk \<Rightarrow> walk option" where
  "back_known i s =
     (let text = bk_text s; e = effects text i; il = bk_il s; fl = bk_fl s;
          gone = s\<lparr>bk_after := i\<lparr>dead := True\<rparr> # bk_after s, bk_changed := True\<rparr>
      in if sp_pure (spec i) \<and> idef e AND il = 0 \<and> fdef e AND fl = 0 then Some gone
         else case (if sp_move (spec i) then try_retarget text i (bk_before s) il fl else None) of
           Some text1 \<Rightarrow> Some (gone\<lparr>bk_text := text1\<rparr>)
         | None \<Rightarrow>
           (case try_imm_fold text i (bk_before s) il of
              Some (text1, bs1) \<Rightarrow> Some (gone\<lparr>bk_text := text1, bk_before := bs1\<rparr>)
            | None \<Rightarrow>
              map_option (\<lambda>text1. let rs = get_byte text i 1 in
                  gone\<lparr>bk_text := text1,
                       bk_il := bk_br s OR (if REG_ZERO < rs then BIT rs else 0)\<rparr>)
                (drop_next_ext i s)))"

definition back_step :: "insn \<Rightarrow> walk \<Rightarrow> walk" where
  "back_step i s =
     (if dead i then s\<lparr>bk_after := i # bk_after s\<rparr>
      else case (if known i then back_known i s else None) of
        Some s1 \<Rightarrow> s1
      | None \<Rightarrow>
          let (il, fl) = step_back (bk_text s) i (bk_il s, bk_fl s)
          in s\<lparr>bk_after := i # bk_after s, bk_il := il, bk_fl := fl,
               bk_br := (if is_jz (i_op i) then bk_il s else bk_br s)\<rparr>)"

lemma imm_fold_at_length: "imm_fold_at text opn bs il binary k = Some (t', bs') \<Longrightarrow> length bs' = length bs"
  by (auto simp: imm_fold_at_def Let_def make_imm_op_def split: option.split_asm prod.split_asm if_split_asm)

lemma try_imm_fold_length: "try_imm_fold text opn bs il = Some (t', bs') \<Longrightarrow> length bs' = length bs"
  by (auto simp: try_imm_fold_def Let_def split: option.split_asm if_split_asm dest: imm_fold_at_length)

lemma length_back_known: "back_known i s = Some s' \<Longrightarrow> length (bk_before s') = length (bk_before s)"
  by (auto simp: back_known_def Let_def split: option.split_asm if_split_asm dest: try_imm_fold_length)

lemma length_back_step: "length (bk_before (back_step i s)) = length (bk_before s)"
  by (auto simp: back_step_def Let_def split: option.split prod.split dest: length_back_known)

function back_loop :: "walk \<Rightarrow> walk" where
  "back_loop s =
     (case bk_before s of
        [] \<Rightarrow> s
      | i # bs \<Rightarrow> back_loop (back_step i (s\<lparr>bk_before := bs\<rparr>)))"
  by pat_completeness auto
termination
  by (relation "measure (\<lambda>s. length (bk_before s))") (simp_all add: length_back_step)

declare back_loop.simps [simp del]

definition backward_block :: "text_words \<Rightarrow> insn list \<Rightarrow> u32 \<times> u32 \<Rightarrow> text_words \<times> insn list \<times> bool" where
  "backward_block text is out =
     (let s = back_loop \<lparr>bk_text = text, bk_before = rev is, bk_after = [], bk_il = fst out, bk_fl = snd out,
                bk_br = 0, bk_changed = False\<rparr>
      in (bk_text s, bk_after s, bk_changed s))"

subsection \<open>Writing another register\<close>

text \<open>With another destination byte, a handler puts the same value there.\<close>

definition retargets :: "(vm \<Rightarrow> step) \<Rightarrow> bool" where
  "retargets h \<longleftrightarrow>
     (\<forall>vm t. let w = text_seg vm (pc vm); w' = t (pc vm)
        in opnd_byte w 0 \<noteq> 0 \<longrightarrow> opnd_byte w' 0 \<noteq> 0 \<longrightarrow> opnd_byte w' (Suc 0) = opnd_byte w (Suc 0) \<longrightarrow>
           opnd_byte w' 2 = opnd_byte w 2 \<longrightarrow> opnd_byte w' 3 = opnd_byte w 3 \<longrightarrow>
           DECODE_BF_off w' = DECODE_BF_off w \<longrightarrow> DECODE_BF_w w' = DECODE_BF_w w \<longrightarrow>
           (\<forall>a. a \<noteq> pc vm \<longrightarrow> t a = text_seg vm a) \<longrightarrow>
           with_text t h vm = map_sum id (\<lambda>u. u\<lparr>regs := (regs vm)(opnd_byte w' 0 := regs u (opnd_byte w 0))\<rparr>) (h vm))"

lemmas retarget_defs = retargets_def with_text_def skeleton_defs shift_imm_op_def
  wrap_shl_op_def read_eqs put_reg_def set_reg_def COMPTIME_CONTAIN_def cc_read_i64_at_def

lemma retargets_skeletons [simp]:
  "retargets (rrr_op g)" "retargets (rr_op f)" "retargets (rri_op g)" "retargets (shift_imm_op s)"
  "retargets (rr_op_raw f)" "retargets (rrr_op_raw g)" "retargets (rri_op_raw g)" "retargets (wrap_shl_op f)"
  by (auto simp: retarget_defs)

lemma retargets_loads [simp]:
  "retargets (load_op n ld hl)" "retargets (index_load_op n ld hl)" "retargets (local_load_op ld)"
  by (auto simp: retarget_defs load_op_def index_load_op_def local_load_op_def op_index_addr_def local_addr_def)

lemma retargets_singles [simp]:
  "retargets op_DIV3_fn" "retargets op_MOD3_fn" "retargets op_UDIV3_fn" "retargets op_UMOD3_fn"
  "retargets op_LI3_fn" "retargets op_LDA3_fn" "retargets op_LEA3_fn" "retargets op_MULADD3_fn" "retargets op_MULADDI3_fn"
  "retargets op_UBFX_fn" "retargets op_SBFX_fn" "retargets op_BFI_fn"
  by (auto simp: retarget_defs op_DIV3_fn_eq op_MOD3_fn_def op_UDIV3_fn_def op_UMOD3_fn_def op_LI3_fn_def
      op_LDA3_fn_def op_LEA3_fn_def lea3_align_byte local_addr_def op_MULADD3_fn_def op_MULADDI3_fn_def op_UBFX_fn_def op_SBFX_fn_def op_BFI_fn_def)

lemma handlers_retarget:
  "list_all (\<lambda>(op, h). case op_spec op of None \<Rightarrow> True | Some s \<Rightarrow> role0 s = R_ID \<longrightarrow> retargets h) (handlers hl cm)"
  unfolding handlers_def list.pred_inject prod.case
  by (intro conjI TrueI; simp add: op_spec_def handler_defs)

lemma drop8_set_byte0:
  "drop_bit 8 (operand (set_byte text i 0 r) i) = drop_bit 8 (operand text i)" if "r < 256"
proof (rule bit_word_eqI)
  fix n assume "n < LENGTH(32)"
  show "bit (drop_bit 8 (operand (set_byte text i 0 r) i)) n = bit (drop_bit 8 (operand text i)) n"
    using bit_clear_set_byte [OF that, of 0 "8 + n" "text (i_pc i + 1)"]
    unfolding operand_def set_byte_def bit_drop_bit_eq comp_def
    by (cases "8 + n < 32") (auto simp: dest!: bit_imp_le_length)
qed

lemma DECODE_BF_set_byte0:
  assumes "r < 256"
  shows "DECODE_BF_off (operand (set_byte text i 0 r) i) = DECODE_BF_off (operand text i)"
    "DECODE_BF_w (operand (set_byte text i 0 r) i) = DECODE_BF_w (operand text i)"
proof -
  note e = drop8_set_byte0 [OF assms, of "text" i]
  have "drop_bit 16 (operand (set_byte text i 0 r) i) = drop_bit 16 (operand text i)"
    "drop_bit 22 (operand (set_byte text i 0 r) i) = drop_bit 22 (operand text i)"
    using arg_cong [OF e, of "drop_bit 8"] arg_cong [OF e, of "drop_bit 14"] by simp_all
  then show "DECODE_BF_off (operand (set_byte text i 0 r) i) = DECODE_BF_off (operand text i)"
    "DECODE_BF_w (operand (set_byte text i 0 r) i) = DECODE_BF_w (operand text i)"
    by (simp_all add: DECODE_BF_off_def DECODE_BF_w_def)
qed

lemma run_retarget:
  assumes "known d" "insn_ok hl cm text d" "role (spec d) 0 = R_ID" "0 < x" "x < NUM_REGS"
  shows "run_insn opq hl cm (set_byte text d 0 x) d w =
    map_sum id (\<lambda>u. u\<lparr>regs := (regs w)(x := regs u (get_byte text d 0))\<rparr>) (run_insn opq hl cm text d w)"
proof -
  let ?t = "set_byte text d 0 x" and ?v = "w\<lparr>pc := i_pc d + 1, text_seg := text\<rparr>"
  obtain h where h: "op_table hl cm (i_op d) = Some h" "insn_wf text d"
    using insn_ok_known [OF assms(2,1)] by metis
  have "(i_op d, h) \<in> set (handlers hl cm)" using h(1) unfolding op_table_def by (rule map_of_SomeD)
  from bspec [OF handlers_retarget [unfolded list_all_iff] this] have r: "retargets h"
    using insn_spec [OF h(2) assms(1)] assms(3) by (simp add: role_def)
  have x: "x < 256" using assms(5) by simp
  have b: "opnd_byte (text (i_pc d + 1)) k = get_byte text d k" "opnd_byte (?t (i_pc d + 1)) k = get_byte ?t d k" for k
    by (simp_all add: get_byte_def operand_def)
  have z: "get_byte text d 0 \<noteq> 0" using assms(1-3) by (simp add: insn_ok_def)
  have o: "\<forall>a. a \<noteq> i_pc d + 1 \<longrightarrow> ?t a = text a" by (simp add: set_byte_def)
  have dd: "DECODE_BF_off (?t (i_pc d + 1)) = DECODE_BF_off (text (i_pc d + 1))"
    "DECODE_BF_w (?t (i_pc d + 1)) = DECODE_BF_w (text (i_pc d + 1))"
    using DECODE_BF_set_byte0 [OF x, of "text" d] by (simp_all add: operand_def)
  have "with_text ?t h ?v = map_sum id (\<lambda>u. u\<lparr>regs := (regs w)(x := regs u (get_byte text d 0))\<rparr>) (h ?v)"
    using r [unfolded retargets_def Let_def, rule_format, of ?v ?t] z x assms(4) o dd by (simp add: b)
  moreover have "with_text ?t h (w\<lparr>pc := i_pc d + 1\<rparr>) =
      map_sum (\<lambda>(e, u). (e, u\<lparr>text_seg := text_seg w\<rparr>)) (\<lambda>u. u\<lparr>text_seg := text_seg w\<rparr>) (with_text ?t h ?v)"
    by (cases "h (?v\<lparr>text_seg := ?t\<rparr>)") (auto simp: with_text_def)
  ultimately show ?thesis using assms(1) h(1)
    by (cases "h ?v") (auto simp: run_insn_def with_text_def)
qed

subsection \<open>What the searches find\<close>

lemma and_BIT: "r < 32 \<Longrightarrow> m AND BIT r = 0 \<longleftrightarrow> \<not> bit m r"
proof -
  assume r: "r < 32"
  have "bit (m AND BIT r) r = bit m r" using r by (simp add: bit_and_iff bit_BIT)
  moreover have "m AND BIT r = 0" if "\<not> bit m r"
    by (rule bit_word_eqI) (use that in \<open>auto simp: bit_and_iff bit_BIT\<close>)
  ultimately show ?thesis by fastforce
qed

lemma effects_sets:
  assumes "known i" "insn_ok hl cm text i" "0 < r" "r < 32"
  shows "iuse (effects text i) AND BIT r = 0 \<longleftrightarrow> r \<notin> uses_of text i"
    "idef (effects text i) AND BIT r = 0 \<longleftrightarrow> r \<notin> dest_of text i"
proof -
  have w: "insn_wf text i" using insn_ok_known [OF assms(2,1)] by metis
  show "iuse (effects text i) AND BIT r = 0 \<longleftrightarrow> r \<notin> uses_of text i"
    using effects_known(1) [OF assms(1) w, of r] assms(3,4) by (auto simp: and_BIT uses_of_def)
  show "idef (effects text i) AND BIT r = 0 \<longleftrightarrow> r \<notin> dest_of text i"
    unfolding and_BIT [OF assms(4)] effects_known(2) [OF assms(1) w] dest_of_def
    using assms(3,4) op_spec_def0 [OF insn_spec [OF w assms(1)]] by (metis empty_iff insert_iff zero_less_numeral)
qed

lemma or_zero: "(a :: u32) OR b = 0 \<longleftrightarrow> a = 0 \<and> b = 0"
  by (metis bit_word_eqI bit_or_iff bit_0_eq bot_apply bot_bool_def or.right_neutral)

lemma and_or_zero: "m AND (BIT t OR BIT x) = 0 \<longleftrightarrow> m AND BIT t = 0 \<and> m AND BIT x = (0 :: u32)"
  by (simp add: bit.conj_disj_distrib or_zero)

lemma or_and_zero: "(m OR n) AND b = 0 \<longleftrightarrow> m AND b = 0 \<and> n AND b = (0 :: u32)"
  by (simp add: bit.conj_disj_distrib2 or_zero)

lemma retarget_def_split:
  assumes "retarget_def text False x t n bs = Some d" "\<forall>i \<in> set bs. dead i \<or> insn_ok hl cm text i"
    and "0 < x" "x < 32" "0 < t" "t < 32"
  shows "\<exists>bs1 bs2. bs = bs1 @ d # bs2 \<and> (\<forall>i \<in> set bs1. avoids hl cm text {t, x} i) \<and> \<not> dead d \<and> known d \<and>
    insn_ok hl cm text d \<and> role (spec d) 0 = R_ID \<and> get_byte text d 0 = t"
  using assms
proof (induction "text" False x t n bs rule: retarget_def.induct)
  case (3 "text" x t n e bs)
  show ?case
  proof (cases "dead e")
    case True
    then obtain bs1 bs2 where "bs = bs1 @ d # bs2" "\<forall>i \<in> set bs1. avoids hl cm text {t, x} i" "\<not> dead d" "known d"
      "insn_ok hl cm text d" "role (spec d) 0 = R_ID" "get_byte text d 0 = t"
      using 3 by auto
    then show ?thesis using True by (intro exI [of _ "e # bs1"] exI [of _ bs2]) (simp add: avoids_def)
  next
    case False
    then have k: "known e" and ok: "insn_ok hl cm text e" using 3 by (auto split: if_split_asm)
    note E = effects_sets [OF k ok]
    show ?thesis
    proof (cases "idef (effects text e) AND BIT t = 0")
      case True
      then have c: "(idef (effects text e) OR iuse (effects text e)) AND (BIT t OR BIT x) = 0"
        and r: "retarget_def text False x t n bs = Some d" using 3 False k by (auto simp: Let_def split: if_split_asm)
      from c have "avoids hl cm text {t, x} e"
        using k ok E 3(4-8) True unfolding avoids_def and_or_zero or_and_zero by auto
      moreover obtain bs1 bs2 where "bs = bs1 @ d # bs2" "\<forall>i \<in> set bs1. avoids hl cm text {t, x} i" "\<not> dead d" "known d"
        "insn_ok hl cm text d" "role (spec d) 0 = R_ID" "get_byte text d 0 = t"
        using 3(2) [OF False _ refl refl refl] 3(4-8) k True c r by auto
      ultimately show ?thesis by (intro exI [of _ "e # bs1"] exI [of _ bs2]) simp
    next
      case f: False
      then have "e = d" "role (spec d) 0 = R_ID" "get_byte text d 0 = t"
        using 3 False k by (auto simp: Let_def split: if_split_asm)
      then show ?thesis using False k ok by (intro exI [of _ "[]"] exI [of _ bs]) simp
    qed
  qed
qed simp_all

lemma dest_not_zero: "known i \<Longrightarrow> insn_ok hl cm text i \<Longrightarrow> 0 \<notin> dest_of text i"
  by (auto simp: insn_ok_def dest_of_def)

lemma find_li_split:
  assumes "find_li text d t a seen bs = Some j" "\<forall>i \<in> set bs. dead i \<or> insn_ok hl cm text i"
    and "0 < d" "d < 32" "0 < t" "t < 32" "\<And>r. a = Some r \<Longrightarrow> r < 32"
  shows "\<exists>bs1 li bs2. bs = bs1 @ li # bs2 \<and> length bs1 = j \<and>
    (\<forall>i \<in> set bs1. avoids hl cm text {t, d} i \<and> (\<forall>r. a = Some r \<longrightarrow> dead i \<or> r \<notin> dest_of text i)) \<and>
    \<not> dead li \<and> known li \<and> insn_ok hl cm text li \<and> i_op li = LI3 \<and> get_byte text li 0 = t"
  using assms(1,2)
proof (induction bs arbitrary: seen j)
  case (Cons x bs)
  have s8: "\<not> 8 \<le> seen" using Cons.prems(1) by (auto split: if_split_asm)
  show ?case
  proof (cases "dead x")
    case True
    then obtain k where k: "find_li text d t a seen bs = Some k" "j = Suc k" using Cons.prems(1) s8 by auto
    then obtain bs1 li bs2 where "bs = bs1 @ li # bs2" "length bs1 = k"
      "\<forall>i \<in> set bs1. avoids hl cm text {t, d} i \<and> (\<forall>r. a = Some r \<longrightarrow> dead i \<or> r \<notin> dest_of text i)"
      "\<not> dead li" "known li" "insn_ok hl cm text li" "i_op li = LI3" "get_byte text li 0 = t"
      using Cons.IH [OF k(1)] Cons.prems(2) by auto
    then show ?thesis using True k(2) by (intro exI [of _ "x # bs1"] exI [of _ li] exI [of _ bs2]) (simp add: avoids_def)
  next
    case False
    then have k: "known x" and ok: "insn_ok hl cm text x" using Cons.prems s8 by (auto split: if_split_asm)
    note E = effects_sets [OF k ok]
    show ?thesis
    proof (cases "idef (effects text x) AND BIT t = 0")
      case True
      then have c: "iuse (effects text x) AND BIT t = 0" "(idef (effects text x) OR iuse (effects text x)) AND BIT d = 0"
        "\<And>r. a = Some r \<Longrightarrow> idef (effects text x) AND BIT r = 0"
        and "\<exists>k. find_li text d t a (Suc seen) bs = Some k \<and> j = Suc k"
        using Cons.prems(1) False k s8 by (auto simp: Let_def split: if_split_asm option.split_asm)
      then obtain k' where k': "find_li text d t a (Suc seen) bs = Some k'" "j = Suc k'" by blast
      have "avoids hl cm text {t, d} x"
        using c(1,2) k ok E assms(3-6) True unfolding avoids_def or_and_zero by auto
      moreover have "r \<notin> dest_of text x" if "a = Some r" for r
        using c(3) [OF that] E(2) [of r] assms(7) [OF that] dest_not_zero [OF k ok] by (cases "r = 0") auto
      moreover obtain bs1 li bs2 where "bs = bs1 @ li # bs2" "length bs1 = k'"
        "\<forall>i \<in> set bs1. avoids hl cm text {t, d} i \<and> (\<forall>r. a = Some r \<longrightarrow> dead i \<or> r \<notin> dest_of text i)"
        "\<not> dead li" "known li" "insn_ok hl cm text li" "i_op li = LI3" "get_byte text li 0 = t"
        using Cons.IH [OF k'(1)] Cons.prems(2) by auto
      ultimately show ?thesis using k'(2) by (intro exI [of _ "x # bs1"] exI [of _ li] exI [of _ bs2]) simp
    next
      case f: False
      then have "i_op x = LI3" "get_byte text x 0 = t" "j = 0"
        using Cons.prems(1) False k s8 by (auto simp: Let_def split: if_split_asm)
      then show ?thesis using False k ok by (intro exI [of _ "[]"] exI [of _ x] exI [of _ bs]) simp
    qed
  qed
qed simp

subsection \<open>What the forward pass has noted\<close>

text \<open>The folded value and the source facts an instruction carries hold in the machine that runs it.\<close>

definition note_ok :: "opaque \<Rightarrow> host_ranges \<Rightarrow> committer \<Rightarrow> text_words \<Rightarrow> insn \<Rightarrow> vm \<Rightarrow> bool" where
  "note_ok opq hl cm text i vm \<longleftrightarrow>
     (\<forall>v w. fold_v i = Some v \<longrightarrow> role (spec i) 0 = R_ID \<longrightarrow> run_insn opq hl cm text i vm = Inr w \<longrightarrow>
        regs w (get_byte text i 0) = v) \<and>
     (ext_needed (i_op i) \<noteq> 0 \<longrightarrow> ext_fits (src_ext i) (sint (regs vm (get_byte text i 1))))"

fun notes_ok :: "opaque \<Rightarrow> host_ranges \<Rightarrow> committer \<Rightarrow> text_words \<Rightarrow> insn list \<Rightarrow> vm \<Rightarrow> bool" where
  "notes_ok opq hl cm text [] vm \<longleftrightarrow> True"
| "notes_ok opq hl cm text (i # is) vm \<longleftrightarrow>
     (if dead i then notes_ok opq hl cm text is vm
      else (known i \<longrightarrow> note_ok opq hl cm text i vm) \<and>
        (case run_insn opq hl cm text i vm of
           Inl e \<Rightarrow> True
         | Inr w \<Rightarrow> pc w = i_pc i + of_nat (i_size i) \<longrightarrow> notes_ok opq hl cm text is w))"

text \<open>An operation on one constant twice that has an immediate form for it has been folded:
  \<open>try_imm_fold\<close> could not merge the constant into it, as it would read the register the constant
  no longer reaches. \<open>li_feeds\<close>: the nearest definition of \<open>t\<close> is an \<open>LI3\<close> of a constant with \<open>P\<close>.\<close>

fun li_feeds :: "text_words \<Rightarrow> (u64 \<Rightarrow> bool) \<Rightarrow> nat \<Rightarrow> insn list \<Rightarrow> bool" where
  "li_feeds text P t [] \<longleftrightarrow> False"
| "li_feeds text P t (x # bs) \<longleftrightarrow>
     (if dead x then li_feeds text P t bs
      else known x \<and> (if t \<in> dest_of text x then i_op x = LI3 \<and> P (insn_imm text x) else li_feeds text P t bs))"

definition clash :: "text_words \<Rightarrow> insn \<Rightarrow> bool" where
  "clash text i \<longleftrightarrow> known i \<and> fold_v i = None \<and> i_size i = 2 \<and> role (spec i) 1 = R_IU \<and> role (spec i) 2 = R_IU \<and>
     role (spec i) 3 = R_NO \<and> get_byte text i 1 = get_byte text i 2"

fun settled :: "text_words \<Rightarrow> insn list \<Rightarrow> bool" where
  "settled text [] \<longleftrightarrow> True"
| "settled text (x # bs) \<longleftrightarrow>
     (dead x \<or> \<not> clash text x \<or>
        \<not> li_feeds text (\<lambda>c. imm_opcode (i_op x) False c \<noteq> None) (get_byte text x 1) bs) \<and> settled text bs"

lemma find_li_feeds:
  assumes "find_li text d t a seen bs = Some j" "\<forall>i \<in> set bs. dead i \<or> insn_ok hl cm text i" "0 < t" "t < 32"
    and "P (insn_imm text (bs ! j))"
  shows "li_feeds text P t bs"
  using assms(1,2,5)
proof (induction bs arbitrary: seen j)
  case (Cons x bs)
  then have s8: "\<not> 8 \<le> seen" by (auto split: if_split_asm)
  show ?case
  proof (cases "dead x")
    case False
    then have k: "known x" and ok: "insn_ok hl cm text x" using Cons.prems s8 by (auto split: if_split_asm)
    note E = effects_sets [OF k ok assms(3,4)]
    show ?thesis
    proof (cases "idef (effects text x) AND BIT t = 0")
      case True
      then obtain k' where "find_li text d t a (Suc seen) bs = Some k'" "j = Suc k'"
        using Cons.prems(1) False k s8 by (auto simp: Let_def split: if_split_asm)
      then show ?thesis using Cons.IH Cons.prems(2,3) E(2) True False k by simp
    next
      case f: False
      then have "i_op x = LI3" "j = 0" using Cons.prems(1) False k s8 by (auto simp: Let_def split: if_split_asm)
      then show ?thesis using E(2) f False k Cons.prems(3) by simp
    qed
  qed (use Cons s8 in auto)
qed simp

lemma dest_uses_same:
  assumes "same_words text text' i" "insn_ok hl cm text i" "known i"
  shows "dest_of text' i = dest_of text i" "uses_of text' i = uses_of text i" "clash text' i = clash text i"
    "get_byte text' i = get_byte text i"
proof -
  obtain h where "2 \<le> i_size i" using insn_ok_known [OF assms(2,3)] by metis
  then show b: "get_byte text' i = get_byte text i" using same_operand(2) [OF assms(1)] by blast
  show "dest_of text' i = dest_of text i" "uses_of text' i = uses_of text i" "clash text' i = clash text i"
    by (simp_all add: dest_of_def uses_of_def clash_def b)
qed

lemma li_imm_same:
  assumes "same_words text text' i" "insn_ok hl cm text i" "known i" "i_op i = LI3"
  shows "insn_imm text' i = insn_imm text i"
proof -
  have "i_size i = 4" using assms(2-4) by (simp add: insn_ok_def operand_words_def)
  then show ?thesis using same_operand(3) [OF assms(1)] by simp
qed

lemma li_feeds_same:
  assumes "\<forall>i \<in> set bs. dead i \<or> insn_ok hl cm text i \<and> same_words text text' i"
  shows "li_feeds text' P t bs = li_feeds text P t bs"
  using assms
proof (induction bs)
  case (Cons i bs)
  then show ?case using dest_uses_same(1) [of "text" text' i hl cm] li_imm_same [of "text" text' i hl cm]
    by (cases "dead i"; cases "known i"; cases "i_op i = LI3") auto
qed simp

lemma settled_same:
  assumes "\<forall>i \<in> set bs. dead i \<or> insn_ok hl cm text i \<and> same_words text text' i"
  shows "settled text' bs = settled text bs"
  using assms
proof (induction bs)
  case (Cons i bs)
  have "\<forall>i \<in> set bs. dead i \<or> insn_ok hl cm text i \<and> same_words text text' i" using Cons.prems by simp
  from li_feeds_same [OF this] Cons show ?case
    using dest_uses_same(3,4) [of "text" text' i hl cm] by (cases "dead i"; cases "known i") (auto simp: clash_def)
qed simp

text \<open>Another destination does not matter to instructions that avoid both.\<close>

lemma li_feeds_change:
  assumes "\<forall>i \<in> set bs1 \<union> set bs2. dead i \<or> insn_ok hl cm text i \<and> same_words text text' i"
    and "known D" "\<not> dead D" "known D'" "\<not> dead D'" "y \<notin> dest_of text D" "y \<notin> dest_of text' D'"
  shows "li_feeds text' P y (bs1 @ D' # bs2) = li_feeds text P y (bs1 @ D # bs2)"
  using assms(1)
proof (induction bs1)
  case Nil
  then show ?case using assms(2-7) li_feeds_same [of bs2 hl cm "text" text'] by simp
next
  case (Cons i bs)
  then show ?case using dest_uses_same(1) [of "text" text' i hl cm] li_imm_same [of "text" text' i hl cm]
    by (cases "dead i"; cases "known i"; cases "i_op i = LI3") auto
qed

lemma settled_change:
  assumes "settled text (bs1 @ D # bs2)" "\<forall>i \<in> set bs1 \<union> set bs2. dead i \<or> insn_ok hl cm text i \<and> same_words text text' i"
    and "known D" "\<not> dead D" "known D'" "\<not> dead D'" "\<forall>i \<in> set bs1. avoids hl cm text (dest_of text D \<union> dest_of text' D') i"
    and "clash text' D' \<Longrightarrow> clash text D \<and> i_op D' = i_op D \<and> get_byte text' D' 1 = get_byte text D 1"
  shows "settled text' (bs1 @ D' # bs2)"
  using assms(1,2,7)
proof (induction bs1)
  case Nil
  then show ?case using assms(3-6,8) li_feeds_same [of bs2 hl cm "text" text'] settled_same [of bs2 hl cm "text" text'] by auto
next
  case (Cons i bs)
  have IH: "settled text' (bs @ D' # bs2)" using Cons by simp
  show ?case
  proof (cases "dead i \<or> \<not> clash text' i")
    case False
    then have i: "known i" "insn_ok hl cm text i" "same_words text text' i" "\<not> dead i"
      using Cons.prems(2,3) by (auto simp: avoids_def)
    note S = dest_uses_same [OF i(3,2,1)]
    have "get_byte text i 1 \<in> uses_of text i" using False S(3) by (auto simp: clash_def uses_of_def intro!: exI [of _ 1])
    then have "get_byte text i 1 \<notin> dest_of text D \<union> dest_of text' D'"
      using Cons.prems(3) i(4) by (auto simp: avoids_def)
    then have "li_feeds text' P (get_byte text i 1) (bs @ D' # bs2) = li_feeds text P (get_byte text i 1) (bs @ D # bs2)" for P
      using Cons.prems(2) by (intro li_feeds_change [where hl = hl and cm = cm]) (use assms(3-6) in auto)
    then show ?thesis using IH Cons.prems(1) False S(3,4) i(4) by simp
  qed (use IH in auto)
qed

subsection \<open>Each rewrite keeps what the block computes\<close>

lemma agree_pc_regs:
  "agree_pc L v v' \<longleftrightarrow> v'\<lparr>pc := 0\<rparr> = v\<lparr>pc := 0, regs := regs v'\<rparr> \<and> (\<forall>r \<in> L. regs v' r = regs v r)"
  by (simp add: agree_pc_def agree_def)

lemma agree_pc_upd:
  assumes "agree_pc K v v'" "\<forall>r \<in> L. R' r = R r"
  shows "agree_pc L (v\<lparr>pc := p, regs := R\<rparr>) (v'\<lparr>pc := p', regs := R'\<rparr>)"
  using assms by (cases v, cases v') (auto simp: agree_pc_def agree_def)

context opaque_code
begin

lemma retarget_sound:
  assumes d: "known d" "insn_ok hl cm text d" "\<not> dead d" "role (spec d) 0 = R_ID" "get_byte text d 0 = t"
    and mid: "\<forall>i \<in> set mid. avoids hl cm text {t, x} i \<and> same_words text text' i"
    and m: "known m" "insn_ok hl cm text m" "\<not> dead m" "i_op m = MOV3" "get_byte text m 0 = x" "get_byte text m 1 = t"
    and "0 < x" "x < 32" "0 < t" "x \<noteq> t" "t \<notin> live_regs il" and t': "text' = set_byte text d 0 x"
  shows "agree_reach (live_regs il) M (go text (d # mid @ [m]) w) (go text' (d # mid @ [m\<lparr>dead := True\<rparr>]) w)"
proof -
  have new: "run_i text' d w = map_sum id (\<lambda>u. u\<lparr>regs := (regs w)(x := regs u t)\<rparr>) (run_i text d w)"
    unfolding t' using run_retarget [OF d(1,2,4) assms(13), of opq w] assms(14) d(5) by simp
  show ?thesis
  proof (cases "run_i text d w")
    case (Inl e)
    then show ?thesis using d(3) new by simp
  next
    case (Inr w1)
    define w1' where "w1' = w1\<lparr>regs := (regs w)(x := regs w1 t)\<rparr>"
    have n: "run_i text' d w = Inr w1'" using new Inr by (simp add: w1'_def)
    have p: "pc w1 = i_pc d + of_nat (i_size d)" by (rule run_known(1) [OF d(1,2) Inr])
    then have p': "pc w1' = i_pc d + of_nat (i_size d)" by (simp add: w1'_def)
    have dest: "dest_of text d = {t}" using d(4,5) by (simp add: dest_of_def)
    have "regs w1 r = regs w r" if "r \<noteq> t" for r using run_known(2) [OF d(1,2) Inr] that dest by simp
    then have a: "agree_pc (- {t, x}) w1 w1'"
      by (cases w1) (auto simp: w1'_def agree_pc_def agree_def)
    have av: "\<forall>i \<in> set mid. avoids hl cm text {t, x} i" using mid by blast
    have same: "go text' mid = go text mid"
      using go_same [of mid "text" text'] mid by (auto simp: avoids_def)
    have z: "0 \<notin> {t, x}" using assms(13,15) by simp
    note G = go_avoid [OF av z a]
    show ?thesis
    proof (cases "go text mid w1")
      case (Inl s)
      then obtain s' where "go text mid w1' = Inl s'" using G [of M] by (cases "go text mid w1'") auto
      then show ?thesis using G [of M] Inl Inr n d(3) p p' by (simp add: go_append same)
    next
      case u: (Inr u)
      then obtain u' where u': "go text mid w1' = Inr u'" using G [of M] by (cases "go text mid w1'") auto
      have au: "agree_pc (- {t, x}) u u'" using G [of M] u u' by simp
      have R: "regs u t = regs w1 t" "regs u' x = regs w1' x" using G [of M] u u' by auto
      have v: "regs w1' x = regs w1 t" by (simp add: w1'_def)
      have "role (spec m) 0 = R_ID" using insn_ok_known [OF m(2,1)] m(4) by (metis MOV3_spec(1) option.inject role_simps(1) op_spec.sel(1))
      from run_alu [OF m(1,2) _ this, of _ opq u] have mm: "run_i text m u =
          Inr (u\<lparr>pc := i_pc m + of_nat (i_size m), regs := (regs u)(x := regs u t)\<rparr>)"
        using m(4-6) by (simp add: alu_eval insn_value_def)
      have "\<forall>r \<in> live_regs il. regs u' r = ((regs u)(x := regs u t)) r"
        using au R v assms(17) by (auto simp: agree_pc_def agree_def)
      then have "agree_pc (live_regs il) (u\<lparr>pc := q, regs := (regs u)(x := regs u t)\<rparr>) u'" for q
        using au by (cases u, cases u') (auto simp: agree_pc_def agree_def)
      then show ?thesis using Inr n d(3) p p' u u' mm m(3) by (simp add: go_append same)
    qed
  qed
qed

lemma imm_fold_sound:
  assumes li: "known li" "insn_ok hl cm text li" "\<not> dead li" "i_op li = LI3" "get_byte text li 0 = t"
    and li1: "known li1" "insn_ok hl cm text' li1" "\<not> dead li1" "sp_pure (spec li1)" "get_byte text' li1 0 = d"
    and mid: "\<forall>i \<in> set mid. avoids hl cm text {t, d} i \<and> same_words text text' i"
    and m: "known m" "insn_ok hl cm text m" "\<not> dead m" "sp_pure (spec m)" "get_byte text m 0 = d"
    and V: "\<And>u v v'. go text (li # mid) w = Inr u \<Longrightarrow>
      run_i text m u = Inr (u\<lparr>pc := i_pc m + of_nat (i_size m), regs := (regs u)(d := v)\<rparr>) \<Longrightarrow>
      run_i text' li1 w = Inr (w\<lparr>pc := i_pc li1 + of_nat (i_size li1), regs := (regs w)(d := v')\<rparr>) \<Longrightarrow> v = v'"
    and "0 < t" "0 < d" "t = d \<or> t \<notin> live_regs il"
  shows "agree_reach (live_regs il) M (go text (li # mid @ [m]) w) (go text' (li1 # mid @ [m\<lparr>dead := True\<rparr>]) w)"
proof -
  have sp: "spec li = SPEC R_ID R_NO R_NO R_NO True False"
    using insn_ok_known [OF li(2,1)] li(4) by (metis MOV3_spec(2) option.inject)
  obtain c where w1: "run_i text li w = Inr (w\<lparr>pc := i_pc li + of_nat (i_size li), regs := (regs w)(t := c)\<rparr>)"
    (is "_ = Inr ?w1") using run_pure [OF li(1,2), of opq w] sp li(5) by (metis op_spec.sel(5))
  obtain v' where w2: "run_i text' li1 w = Inr (w\<lparr>pc := i_pc li1 + of_nat (i_size li1), regs := (regs w)(d := v')\<rparr>)"
    (is "_ = Inr ?w2") using run_pure [OF li1(1,2,4), of opq w] li1(5) by metis
  have a: "agree_pc (- {t, d}) ?w1 ?w2" by (cases w) (auto simp: agree_pc_def agree_def)
  have av: "\<forall>i \<in> set mid. avoids hl cm text {t, d} i" using mid by blast
  have same: "go text' mid = go text mid" using go_same [of mid "text" text'] mid by (auto simp: avoids_def)
  have z: "0 \<notin> {t, d}" using assms(18,19) by simp
  note G = go_avoid [OF av z a, of M]
  show ?thesis
  proof (cases "go text mid ?w1")
    case (Inl s)
    then obtain s' where "go text mid ?w2 = Inl s'" using G by (cases "go text mid ?w2") auto
    then show ?thesis using G Inl w1 w2 li(3) li1(3) by (simp add: go_append same)
  next
    case u: (Inr u)
    then obtain u' where u': "go text mid ?w2 = Inr u'" using G by (cases "go text mid ?w2") auto
    have au: "agree_pc (- {t, d}) u u'" and R: "regs u' d = v'" using G u u' by auto
    obtain v where mm: "run_i text m u = Inr (u\<lparr>pc := i_pc m + of_nat (i_size m), regs := (regs u)(d := v)\<rparr>)"
      using run_pure [OF m(1,2,4), of opq u] m(5) by metis
    have "v = v'" using V [OF _ mm w2] w1 u li(3) by simp
    then have "\<forall>r \<in> live_regs il. regs u' r = ((regs u)(d := v)) r"
      using au R assms(20) by (auto simp: agree_pc_def agree_def)
    then have "agree_pc (live_regs il) (u\<lparr>pc := q, regs := (regs u)(d := v)\<rparr>) u'" for q
      using au by (cases u, cases u') (auto simp: agree_pc_def agree_def)
    then show ?thesis using w1 w2 u u' mm m(3) li(3) li1(3) by (simp add: go_append same)
  qed
qed

lemma go_all_dead: "\<forall>i \<in> set is. dead i \<Longrightarrow> go text is w = Inr w"
  by (induction "is") auto

lemma drop_ext_sound:
  assumes i: "known i" "insn_ok hl cm text i" "\<not> dead i" "i_op i \<in> {SX1, SX2, SX4, ZX1, ZX2, ZX4}"
    and ds: "\<forall>j \<in> set ds. dead j" and br: "is_jz (i_op br)" "\<not> dead br"
    and dr: "drop_branch_ext text i br L = Some (text', i')"
    and fits: "ext_fits (src_ext i) (sint (regs w (get_byte text i 1)))"
  shows "agree_reach (live_regs L) (live_regs L) (go text (i # ds @ [br]) w)
    (go text' (i\<lparr>dead := True\<rparr> # ds @ [br]) w)"
proof -
  let ?rd = "get_byte text i 0" and ?rs = "get_byte text i 1"
  have D: "?rd \<noteq> 0" "get_byte text br 0 = ?rd" "L AND BIT ?rd = 0" "src_ext i AND ext_zero_facts (i_op i) \<noteq> 0"
    "text' = set_byte text br 0 ?rs"
    using dr by (auto simp: drop_branch_ext_def Let_def split: if_split_asm)
  obtain h where wf: "insn_wf text i" "op_spec (i_op i) = Some (spec i)"
    using insn_ok_known [OF i(2,1)] by metis
  have sp: "spec i = SPEC R_ID R_IU R_NO R_NO True False" using i(4) wf(2) by (auto simp: op_spec_def)
  then have r: "?rd < 32" "?rs < 32" using wf(1) i(1) by (simp_all add: insn_wf_def role_less4)
  obtain v where v: "run_i text i w = Inr (w\<lparr>pc := i_pc i + of_nat (i_size i), regs := (regs w)(?rd := v)\<rparr>)"
      "\<And>g. alu (i_op i) = Some g \<Longrightarrow> insn_value text i (regs w) g = Inr v"
    using run_pure [OF i(1,2), of opq w] sp by (metis op_spec.sel(5))
  obtain g where g: "alu (i_op i) = Some g" using i(4) by (auto simp: alu_eval)
  have z: "v = 0 \<longleftrightarrow> regs w ?rs = 0"
    by (rule ext_zero_iff [OF D(4) fits i(4) g]) (use v(2) [OF g] in \<open>simp add: insn_value_def\<close>)
  have "get_byte text' br 0 = ?rs" "text' (i_pc br + 2) = text (i_pc br + 2)"
    using r(2) unfolding D(5) by (simp_all only: get_byte_set_byte) (simp_all add: set_byte_def)
  moreover have "?rd \<notin> live_regs L" using D(1,3) r by (simp add: live_regs_def and_BIT)
  then have "\<forall>r \<in> live_regs L. regs w r = ((regs w)(?rd := v)) r" by auto
  then have "agree (live_regs L) (w\<lparr>regs := (regs w)(?rd := v), pc := q\<rparr>) (w\<lparr>pc := q\<rparr>)"
    "agree_pc (live_regs L) (w\<lparr>regs := (regs w)(?rd := v), pc := q\<rparr>) (w\<lparr>pc := q\<rparr>)" for q
    by (cases w; auto simp: agree_def agree_pc_def)+
  ultimately show ?thesis
    using v(1) z D(2) br i(3) run_insn_jz [OF br(1)] go_all_dead [OF ds] by (simp add: go_append)
qed

lemma notes_append:
  "notes_ok opq hl cm text (xs @ ys) vm \<longleftrightarrow>
     notes_ok opq hl cm text xs vm \<and> (\<forall>w. go text xs vm = Inr w \<longrightarrow> notes_ok opq hl cm text ys w)"
  by (induction xs arbitrary: vm) (auto split: sum.split)

lemma note_same:
  assumes "same_words text text' i" "insn_ok hl cm text i" "known i"
  shows "note_ok opq hl cm text' i vm = note_ok opq hl cm text i vm"
  using run_i_same [OF assms(1,2)] dest_uses_same(4) [OF assms(1,2,3)] by (simp add: note_ok_def)

lemma notes_same:
  assumes "\<forall>i \<in> set is. dead i \<or> insn_ok hl cm text i \<and> same_words text text' i"
  shows "notes_ok opq hl cm text' is vm = notes_ok opq hl cm text is vm"
  using assms
proof (induction "is" arbitrary: vm)
  case (Cons i "is")
  show ?case
  proof (cases "dead i")
    case False
    then have i: "insn_ok hl cm text i" "same_words text text' i" using Cons.prems by auto
    show ?thesis using Cons note_same [OF i(2,1)] run_i_same [OF i(2,1)] by (auto split: sum.split)
  qed (use Cons in auto)
qed simp

lemma ext_role: "known i \<Longrightarrow> insn_ok hl cm text i \<Longrightarrow> ext_needed (i_op i) \<noteq> 0 \<Longrightarrow> get_byte text i 1 \<in> uses_of text i"
proof -
  assume i: "known i" "insn_ok hl cm text i" "ext_needed (i_op i) \<noteq> 0"
  have "op_spec (i_op i) = Some (spec i)" using insn_ok_known [OF i(2,1)] by metis
  moreover have "i_op i \<in> {SX1, SX2, SX4, ZX1, ZX2, ZX4}" using i(3) by (auto simp: ext_needed_def split: if_split_asm)
  ultimately have "spec i = SPEC R_ID R_IU R_NO R_NO True False" by (auto simp: op_spec_def)
  then have "role (spec i) 1 = R_IU" by (simp add: role_def)
  then show ?thesis by (auto simp: uses_of_def intro!: exI [of _ 1])
qed

text \<open>Notes hold as well in a machine that differs in registers the instructions avoid.\<close>

lemma notes_avoid:
  assumes "\<forall>i \<in> set is. avoids hl cm text X i" "0 \<notin> X" "agree_pc (- X) w w'" "notes_ok opq hl cm text is w"
  shows "notes_ok opq hl cm text is w'"
  using assms(1,3,4)
proof (induction "is" arbitrary: w w')
  case (Cons i "is")
  show ?case
  proof (cases "dead i")
    case False
    have i: "known i" "insn_ok hl cm text i" "uses_of text i \<inter> X = {}" "dest_of text i \<inter> X = {}"
      using Cons.prems(1) False by (auto simp: avoids_def)
    have eq: "insert 0 (uses_of text i \<union> - X) = - X" using i(3) assms(2) by blast
    have st: "agree_step (dest_of text i \<union> - X) (run_i text i w) (run_i text i w')"
      using run_uses [OF i(1,2), of "- X" w w'] Cons.prems(2) unfolding eq by simp
    have n: "note_ok opq hl cm text i w" using Cons.prems(3) False i(1) by simp
    have n': "note_ok opq hl cm text i w'"
      unfolding note_ok_def
    proof (intro conjI allI impI)
      fix v u assume f: "fold_v i = Some v" "role (spec i) 0 = R_ID" "run_i text i w' = Inr u"
      then obtain u0 where u0: "run_i text i w = Inr u0" using st by (cases "run_i text i w") auto
      then have "regs u (get_byte text i 0) = regs u0 (get_byte text i 0)"
        using st f(2,3) by (auto simp: agree_def dest_of_def)
      then show "regs u (get_byte text i 0) = v" using n f u0 by (simp add: note_ok_def)
    next
      assume e: "ext_needed (i_op i) \<noteq> 0"
      have "get_byte text i 1 \<in> - X" using ext_role [OF i(1,2) e] i(3) by blast
      then have "regs w' (get_byte text i 1) = regs w (get_byte text i 1)"
        using Cons.prems(2) by (auto simp: agree_pc_def agree_def)
      then show "ext_fits (src_ext i) (sint (regs w' (get_byte text i 1)))" using n e by (simp add: note_ok_def)
    qed
    show ?thesis
    proof (cases "run_i text i w'")
      case (Inr u)
      then obtain u0 where u0: "run_i text i w = Inr u0" using st by (cases "run_i text i w") auto
      then have "agree (dest_of text i \<union> - X) u0 u" using st Inr by simp
      then have "agree_pc (- X) u0 u" "pc u = pc u0" using agree_fields by (auto intro: agree_pc_mono)
      then show ?thesis using Cons.IH [of u0 u] Cons.prems(1,3) u0 Inr n' False by auto
    qed (use n' False in simp)
  qed (use Cons in auto)
qed simp

end

lemma same_pc_size: "i_pc j = i_pc i \<Longrightarrow> i_size j = i_size i \<Longrightarrow> before j = before i \<and> (\<lambda>k. before k j) = (\<lambda>k. before k i)"
  by (simp add: before_def fun_eq_iff)

lemma layout_update:
  assumes "layout (xs @ i # ys)" "i_pc j = i_pc i" "i_size j = i_size i"
  shows "layout (xs @ j # ys)"
proof -
  have "before k j = before k i" "before j k = before i k" for k using assms(2,3) by (simp_all add: before_def)
  then show ?thesis using assms by (auto simp: layout_append layout_Cons)
qed

lemma block_ok_update:
  assumes "block_ok hl cm text (xs @ i # ys)" "i_pc j = i_pc i" "i_size j = i_size i"
    and "dead j \<or> insn_ok hl cm text' j \<and> (ys \<noteq> [] \<longrightarrow> falls_through j)"
    and "\<forall>k \<in> set xs \<union> set ys. dead k \<or> same_words text text' k"
  shows "block_ok hl cm text' (xs @ j # ys)"
proof -
  have l: "layout (xs @ j # ys)" using layout_update assms(1-3) by (auto simp: block_ok_def)
  have "\<forall>k \<in> set xs \<union> set ys. dead k \<or> insn_ok hl cm text' k"
    using assms(1,5) insn_ok_same by (auto simp: block_ok_def) blast+
  moreover have "\<forall>k \<in> set (butlast (xs @ j # ys)). dead k \<or> falls_through k"
    using assms(1,4) by (auto simp: block_ok_def butlast_append)
  ultimately show ?thesis using l assms(4) by (auto simp: block_ok_def)
qed

lemma block_ok_part: "block_ok hl cm text (xs @ ys) \<Longrightarrow> block_ok hl cm text ys"
  by (cases "ys = []") (simp add: block_ok_def layout_def, simp add: block_ok_append)

subsection \<open>The walk keeps an invariant\<close>

definition back_inv :: "opaque \<Rightarrow> host_ranges \<Rightarrow> committer \<Rightarrow> u32 \<Rightarrow> u32 \<Rightarrow> vm \<Rightarrow> step + vm \<Rightarrow> walk \<Rightarrow> bool" where
  "back_inv opq hl cm L F vm r s \<longleftrightarrow>
     block_ok hl cm (bk_text s) (rev (bk_before s) @ bk_after s) \<and>
     live_insns (bk_text s) (bk_after s) (L, F) = (bk_il s, bk_fl s) \<and>
     notes_ok opq hl cm (bk_text s) (rev (bk_before s)) vm \<and>
     settled (bk_text s) (bk_before s) \<and>
     agree_reach (live_regs L) (live_regs L) r (reach opq hl cm (bk_text s) (rev (bk_before s) @ bk_after s) vm) \<and>
     (\<forall>br. find (\<lambda>j. \<not> dead j) (bk_after s) = Some br \<longrightarrow> is_jz (i_op br) \<longrightarrow> bk_br s = L)"

lemma handlers_move:
  "list_all (\<lambda>(op, h). case op_spec op of None \<Rightarrow> True | Some s \<Rightarrow> sp_move s \<longrightarrow> op = MOV3) (handlers hl cm)"
  unfolding handlers_def list.pred_inject prod.case
  by (intro conjI TrueI; simp add: op_spec_def)

lemma move_MOV3:
  assumes "known i" "insn_ok hl cm text i" "sp_move (spec i)"
  shows "i_op i = MOV3"
proof -
  obtain h where h: "op_table hl cm (i_op i) = Some h" "op_spec (i_op i) = Some (spec i)"
    using insn_ok_known [OF assms(2,1)] by metis
  have "(i_op i, h) \<in> set (handlers hl cm)" using h(1) unfolding op_table_def by (rule map_of_SomeD)
  from bspec [OF handlers_move [unfolded list_all_iff] this] show ?thesis using h(2) assms(3) by simp
qed

lemma known_falls: "known i \<Longrightarrow> falls_through i"
  by (simp add: falls_through_def)

lemma words_of_others:
  assumes "block_ok hl cm text (xs @ j # ys)" "changed_at j text text'" "0 < i_size j" "k \<in> set xs \<union> set ys"
  shows "same_words text text' k"
  using layout_change [OF _ assms(2-4)] assms(1) by (simp add: block_ok_def)

context opaque_code
begin

lemma live_insns_same:
  assumes "\<forall>i \<in> set is. dead i \<or> insn_ok hl cm text i \<and> same_words text text' i"
  shows "live_insns text' is l = live_insns text is l"
  using assms by (induction "is") (auto simp: live_insns_Cons live_insns_def [of _ "[]"] effects_same)

lemma retarget_notes:
  assumes "known d" "insn_ok hl cm text d" "\<not> dead d" "role (spec d) 0 = R_ID" "get_byte text d 0 = t"
    and "\<forall>i \<in> set pre. dead i \<or> insn_ok hl cm text i \<and> same_words text text' i"
    and "\<forall>i \<in> set mid. avoids hl cm text {t, x} i \<and> same_words text text' i"
    and "0 < x" "x < 32" "0 < t" "text' = set_byte text d 0 x"
    and "notes_ok opq hl cm text (pre @ d # mid) vm"
  shows "notes_ok opq hl cm text' (pre @ d # mid) vm"
proof -
  have pre: "notes_ok opq hl cm text' pre vm" and g: "go text' pre = go text pre"
    using notes_same [OF assms(6)] go_same [OF assms(6)] assms(12) by (auto simp: notes_append)
  have mid: "\<forall>i \<in> set mid. dead i \<or> insn_ok hl cm text i \<and> same_words text text' i"
    using assms(7) by (auto simp: avoids_def)
  have "notes_ok opq hl cm text' (d # mid) w" if w: "go text pre vm = Inr w" for w
  proof -
    have N: "note_ok opq hl cm text d w" "\<And>w1. run_i text d w = Inr w1 \<Longrightarrow> notes_ok opq hl cm text mid w1"
      using assms(1-3,12) w run_known(1) [OF assms(1,2)] by (auto simp: notes_append)
    have new: "run_i text' d w = map_sum id (\<lambda>u. u\<lparr>regs := (regs w)(x := regs u t)\<rparr>) (run_i text d w)"
      unfolding assms(11) using run_retarget [OF assms(1,2,4,8), of opq w] assms(9) assms(5) by simp
    have b: "get_byte text' d 0 = x" "get_byte text' d 1 = get_byte text d 1"
      using assms(9) unfolding assms(11) by simp_all
    have "note_ok opq hl cm text' d w"
      using N(1) new b assms(5) by (cases "run_i text d w") (auto simp: note_ok_def)
    moreover have "notes_ok opq hl cm text' mid w1'" if h: "run_i text' d w = Inr w1'" for w1'
    proof -
      obtain w1 where w1: "run_i text d w = Inr w1" "w1' = w1\<lparr>regs := (regs w)(x := regs w1 t)\<rparr>"
        using h new by (cases "run_i text d w") auto
      have "regs w1 r = regs w r" if "r \<noteq> t" for r
        using run_known(2) [OF assms(1,2) w1(1)] that assms(4,5) by (simp add: dest_of_def)
      then have "agree_pc (- {t, x}) w1 w1'" by (cases w1) (auto simp: w1(2) agree_pc_def agree_def)
      then have "notes_ok opq hl cm text mid w1'"
        using notes_avoid [of mid "text" "{t, x}" w1 w1'] assms(7,8,10) N(2) [OF w1(1)] by auto
      then show ?thesis using notes_same [OF mid] by simp
    qed
    ultimately show ?thesis using assms(3) by (simp split: sum.split)
  qed
  then show ?thesis using pre g by (simp add: notes_append)
qed

text \<open>An instruction removed without touching the text.\<close>

lemma back_inv_gone:
  assumes "back_inv opq hl cm L F vm r (s\<lparr>bk_before := i # bk_before s\<rparr>)" "\<not> dead i" "known i"
    and "sp_pure (spec i)" "idef (effects (bk_text s) i) AND bk_il s = 0"
  shows "back_inv opq hl cm L F vm r (s\<lparr>bk_after := i\<lparr>dead := True\<rparr> # bk_after s, bk_changed := True\<rparr>)"
proof -
  let ?t = "bk_text s" and ?pre = "rev (bk_before s)" and ?post = "bk_after s"
  have I: "block_ok hl cm ?t (?pre @ i # ?post)" "live_insns ?t ?post (L, F) = (bk_il s, bk_fl s)"
    "notes_ok opq hl cm ?t (?pre @ [i]) vm" "settled ?t (i # bk_before s)"
    "agree_reach (live_regs L) (live_regs L) r (go ?t (?pre @ [i] @ ?post) vm)"
    using assms(1) by (simp_all add: back_inv_def)
  have ok: "insn_ok hl cm ?t i" using I(1) assms(2) by (simp add: block_ok_def)
  have pre: "\<forall>k \<in> set ?pre. dead k \<or> insn_ok hl cm ?t k \<and> same_words ?t ?t k"
    and post: "\<forall>k \<in> set ?post. dead k \<or> insn_ok hl cm ?t k \<and> same_words ?t ?t k"
    using I(1) by (auto simp: block_ok_def)
  have bp: "block_ok hl cm ?t ?post" using block_ok_part [of hl cm ?t "?pre @ [i]" ?post] I(1) by simp
  have "agree_reach (live_regs L) (live_regs L) (go ?t (?pre @ [i] @ ?post) vm) (go ?t (?pre @ [i\<lparr>dead := True\<rparr>] @ ?post) vm)"
  proof (rule go_replace [OF pre post bp])
    fix w
    show "agree_reach (live_regs (fst (live_insns ?t ?post (L, F)))) (live_regs L) (go ?t [i] w) (go ?t [i\<lparr>dead := True\<rparr>] w)"
      using go_dead [OF assms(3) ok assms(4), of "bk_il s" "live_regs L" w] assms(5) I(2) by simp
  qed
  then have "agree_reach (live_regs L) (live_regs L) r (go ?t (?pre @ [i\<lparr>dead := True\<rparr>] @ ?post) vm)"
    by (rule agree_reach_trans [OF I(5)])
  moreover have "block_ok hl cm ?t (?pre @ i\<lparr>dead := True\<rparr> # ?post)"
    by (rule block_ok_update [OF I(1)]) simp_all
  ultimately show ?thesis
    using I(2-4) assms(1) by (simp add: back_inv_def live_insns_Cons notes_append)
qed

lemma set_byte_changed: "2 \<le> i_size i \<Longrightarrow> unat (i_pc i) + i_size i < 2 ^ 32 \<Longrightarrow> changed_at i text (set_byte text i k r)"
  using unat_pc_add [of "i_pc i" "i_size i" 1] by (auto simp: changed_at_def set_byte_def)

lemma back_inv_retarget:
  assumes "back_inv opq hl cm L F vm r (s\<lparr>bk_before := i # bk_before s\<rparr>)" "\<not> dead i" "known i"
    and "sp_move (spec i)" "try_retarget (bk_text s) i (bk_before s) (bk_il s) (bk_fl s) = Some text'"
  shows "back_inv opq hl cm L F vm r (s\<lparr>bk_after := i\<lparr>dead := True\<rparr> # bk_after s, bk_changed := True, bk_text := text'\<rparr>)"
proof -
  let ?t = "bk_text s" and ?post = "bk_after s" and ?x = "get_byte (bk_text s) i 0" and ?s = "get_byte (bk_text s) i 1"
  have I: "block_ok hl cm ?t (rev (bk_before s) @ i # ?post)" "live_insns ?t ?post (L, F) = (bk_il s, bk_fl s)"
    "notes_ok opq hl cm ?t (rev (bk_before s) @ [i]) vm" "settled ?t (i # bk_before s)"
    "agree_reach (live_regs L) (live_regs L) r (go ?t (rev (bk_before s) @ i # ?post) vm)"
    using assms(1) by (simp_all add: back_inv_def)
  have ok: "insn_ok hl cm ?t i" using I(1) assms(2) by (simp add: block_ok_def)
  have op: "i_op i = MOV3" by (rule move_MOV3 [OF assms(3) ok assms(4)])
  have wf: "insn_wf ?t i" and sp: "spec i = SPEC R_ID R_IU R_NO R_NO True True"
    using insn_ok_known [OF ok assms(3)] op by (metis MOV3_spec(1) option.inject)+
  have reg: "?x < 32" "?s < 32" using wf sp assms(3) by (simp_all add: insn_wf_def role_less4)
  obtain d where R: "?x \<noteq> ?s" "0 < ?x" "0 < ?s" "bk_il s AND BIT ?s = 0"
      "retarget_def ?t False ?x ?s 8 (bk_before s) = Some d" "text' = set_byte ?t d 0 ?x"
    using assms(5) op by (auto simp: try_retarget_def Let_def split: if_split_asm)
  have okb: "\<forall>k \<in> set (bk_before s). dead k \<or> insn_ok hl cm ?t k" using I(1) by (auto simp: block_ok_def)
  obtain bs1 bs2 where B: "bk_before s = bs1 @ d # bs2" "\<forall>k \<in> set bs1. avoids hl cm ?t {?s, ?x} k" "\<not> dead d" "known d"
    "insn_ok hl cm ?t d" "role (spec d) 0 = R_ID" "get_byte ?t d 0 = ?s"
    using retarget_def_split [OF R(5) okb R(2) reg(1) R(3) reg(2)] by blast
  have blk: "block_ok hl cm ?t (rev bs2 @ d # (rev bs1 @ i # ?post))" using I(1) by (simp add: B(1))
  have sz: "2 \<le> i_size d" using insn_ok_known [OF B(5,4)] by metis
  have pcs: "unat (i_pc d) + i_size d < 2 ^ 32" using blk by (simp add: block_ok_def layout_def)
  have ch: "changed_at d ?t text'" unfolding R(6) by (rule set_byte_changed [OF sz pcs])
  have same: "same_words ?t text' k" if "k \<in> set bs1 \<union> set bs2 \<union> {i} \<union> set ?post" for k
    using words_of_others [OF blk ch] sz that by auto
  have ok': "\<forall>k \<in> set bs1 \<union> set bs2 \<union> set ?post. dead k \<or> insn_ok hl cm ?t k \<and> same_words ?t text' k"
    using blk same by (auto simp: block_ok_def)
  have post: "block_ok hl cm ?t ?post" using block_ok_part [of hl cm ?t "rev bs2 @ d # rev bs1 @ [i]" ?post] blk by simp
  have x256: "?x < 256" using reg by simp
  have gb: "get_byte text' d k = (if k = 0 then ?x else get_byte ?t d k)" if "k < 4" for k
    using that x256 unfolding R(6) by simp
  have opd: "DECODE_BF_off (operand text' d) = DECODE_BF_off (operand ?t d)"
    "DECODE_BF_w (operand text' d) = DECODE_BF_w (operand ?t d)" "insn_imm text' d = insn_imm ?t d"
    unfolding R(6) by (simp_all add: DECODE_BF_set_byte0 [OF x256])
  have okd: "insn_ok hl cm text' d"
    using B(4-6) gb [of 0] R(2) reg(1) opd by (auto simp: insn_ok_def insn_wf_def imm_ok_def gb)
  have x0: "?s \<notin> live_regs (bk_il s)" using R(3,4) reg(2) by (simp add: live_regs_def and_BIT)
  have live': "live_insns text' ?post (L, F) = (bk_il s, bk_fl s)"
    using live_insns_same [of ?post ?t text'] ok' I(2) by simp
  have step: "agree_reach (live_regs L) (live_regs L) (go ?t (rev bs2 @ (d # rev bs1 @ [i]) @ ?post) vm)
      (go text' (rev bs2 @ (d # rev bs1 @ [i\<lparr>dead := True\<rparr>]) @ ?post) vm)"
  proof (rule go_replace [OF _ _ post])
    fix w
    show "agree_reach (live_regs (fst (live_insns ?t ?post (L, F)))) (live_regs L) (go ?t (d # rev bs1 @ [i]) w)
        (go text' (d # rev bs1 @ [i\<lparr>dead := True\<rparr>]) w)"
      unfolding I(2) fst_conv
      by (rule retarget_sound [OF B(4,5,3,6,7) _ assms(3) ok assms(2) op refl refl R(2) reg(1) R(3,1) x0 R(6)])
        (use B(2) same in auto)
  qed (use ok' in auto)
  have "agree_reach (live_regs L) (live_regs L) r (go text' (rev (bk_before s) @ i\<lparr>dead := True\<rparr> # ?post) vm)"
    using agree_reach_trans [OF I(5)] step by (simp add: B(1))
  moreover have "block_ok hl cm text' (rev (bk_before s) @ i\<lparr>dead := True\<rparr> # ?post)"
  proof -
    have "block_ok hl cm text' (rev bs2 @ d # (rev bs1 @ i # ?post))"
      by (rule block_ok_update [OF blk]) (use okd known_falls [OF B(4)] same in auto)
    then have "block_ok hl cm text' (rev (bk_before s) @ i # ?post)" by (simp add: B(1))
    then show ?thesis by (rule block_ok_update) simp_all
  qed
  moreover have "notes_ok opq hl cm text' (rev (bk_before s)) vm"
  proof -
    have "notes_ok opq hl cm ?t (rev (bk_before s)) vm" using I(3) unfolding notes_append by blast
    then have "notes_ok opq hl cm ?t (rev bs2 @ d # rev bs1) vm" by (simp add: B(1))
    then have "notes_ok opq hl cm text' (rev bs2 @ d # rev bs1) vm"
      by (intro retarget_notes [OF B(4,5,3,6,7) _ _ R(2) reg(1) R(3,6)]) (use ok' B(2) same in auto)
    then show ?thesis by (simp add: B(1))
  qed
  moreover have "settled text' (bk_before s)"
  proof -
    have "dest_of ?t d = {?s}" "dest_of text' d = {?x}" using B(6,7) gb [of 0] by (simp_all add: dest_of_def)
    note dest = this
    have st: "settled ?t (bs1 @ d # bs2)" using I(4) by (simp add: B(1))
    have okb': "\<forall>k \<in> set bs1 \<union> set bs2. dead k \<or> insn_ok hl cm ?t k \<and> same_words ?t text' k" using ok' by blast
    have av: "\<forall>k \<in> set bs1. avoids hl cm ?t (dest_of ?t d \<union> dest_of text' d) k"
      using B(2) unfolding dest by (simp only: insert_is_Un [symmetric])
    have g1: "get_byte text' d 1 = get_byte ?t d 1" "get_byte text' d 2 = get_byte ?t d 2" using gb [of 1] gb [of 2] by simp_all
    show ?thesis unfolding B(1)
      by (rule settled_change [OF st okb' B(4,3,4,3) av]) (use g1 in \<open>simp add: clash_def\<close>)
  qed
  ultimately show ?thesis using live' assms(1) by (simp add: back_inv_def live_insns_Cons)
qed

lemma li_run:
  assumes "known li" "insn_ok hl cm text li" "i_op li = LI3"
  shows "run_i text li w = Inr (w\<lparr>pc := i_pc li + of_nat (i_size li),
    regs := (regs w)(get_byte text li 0 := insn_imm text li)\<rparr>)" "dest_of text li = {get_byte text li 0}"
proof -
  have sp: "spec li = SPEC R_ID R_NO R_NO R_NO True False"
    using insn_ok_known [OF assms(2,1)] assms(3) by (metis MOV3_spec(2) option.inject)
  then have r: "role (spec li) 0 = R_ID" by simp
  show "run_i text li w = Inr (w\<lparr>pc := i_pc li + of_nat (i_size li),
    regs := (regs w)(get_byte text li 0 := insn_imm text li)\<rparr>)"
    using run_alu [OF assms(1,2) _ r, of _ opq w] assms(3) by (simp add: alu_eval insn_value_def)
  show "dest_of text li = {get_byte text li 0}" using r by (simp add: dest_of_def)
qed

lemma fold_notes:
  assumes "known li" "insn_ok hl cm text li" "\<not> dead li" "i_op li = LI3" "get_byte text li 0 = t"
    and "known li1" "insn_ok hl cm text' li1" "\<not> dead li1" "sp_pure (spec li1)" "get_byte text' li1 0 = d"
      "fold_v li1 = None" "ext_needed (i_op li1) = 0"
    and "\<forall>i \<in> set pre. dead i \<or> insn_ok hl cm text i \<and> same_words text text' i"
    and "\<forall>i \<in> set mid. avoids hl cm text {t, d} i \<and> same_words text text' i"
    and "0 < t" "0 < d" "notes_ok opq hl cm text (pre @ li # mid) vm"
  shows "notes_ok opq hl cm text' (pre @ li1 # mid) vm"
proof -
  have pre: "notes_ok opq hl cm text' pre vm" and g: "go text' pre = go text pre"
    using notes_same [OF assms(13)] go_same [OF assms(13)] assms(17) by (auto simp: notes_append)
  have mid: "\<forall>i \<in> set mid. dead i \<or> insn_ok hl cm text i \<and> same_words text text' i"
    using assms(14) by (auto simp: avoids_def)
  have "notes_ok opq hl cm text' (li1 # mid) w" if w: "go text pre vm = Inr w" for w
  proof -
    note L = li_run(1) [OF assms(1,2,4), of w]
    have N: "\<And>w1. run_i text li w = Inr w1 \<Longrightarrow> notes_ok opq hl cm text mid w1"
      using assms(1-3,17) w run_known(1) [OF assms(1,2)] by (auto simp: notes_append)
    obtain v' where w2: "run_i text' li1 w = Inr (w\<lparr>pc := i_pc li1 + of_nat (i_size li1), regs := (regs w)(d := v')\<rparr>)"
      using run_pure [OF assms(6,7,9), of opq w] assms(10) by metis
    have a: "agree_pc (- {t, d}) (w\<lparr>pc := p, regs := (regs w)(t := c)\<rparr>) (w\<lparr>pc := q, regs := (regs w)(d := v')\<rparr>)" for p q c
      by (cases w) (auto simp: agree_pc_def agree_def)
    have "\<forall>i \<in> set mid. avoids hl cm text {t, d} i" "0 \<notin> {t, d}" using assms(14-16) by auto
    from notes_avoid [OF this a N [OF L [unfolded assms(5)]]]
    have "notes_ok opq hl cm text' mid (w\<lparr>pc := i_pc li1 + of_nat (i_size li1), regs := (regs w)(d := v')\<rparr>)"
      using notes_same [OF mid] by simp
    then show ?thesis using w2 assms(8,11,12) by (simp add: note_ok_def)
  qed
  then show ?thesis using pre g by (simp add: notes_append)
qed

lemma back_inv_fold:
  assumes inv: "back_inv opq hl cm L F vm r (s\<lparr>bk_before := i # bk_before s\<rparr>)" and i: "\<not> dead i" "known i" "sp_pure (spec i)"
    and bs: "bk_before s = bs1 @ li # bs2" "get_byte (bk_text s) i 0 = d" "0 < d" "d < 32" "0 < t" "t < 32"
      "t = d \<or> bk_il s AND BIT t = 0"
    and li: "\<forall>k \<in> set bs1. avoids hl cm (bk_text s) {t, d} k" "\<not> dead li" "known li" "i_op li = LI3"
      "get_byte (bk_text s) li 0 = t"
    and ch: "changed_at li (bk_text s) text'"
    and li1: "i_pc li1 = i_pc li" "i_size li1 = i_size li" "known li1" "\<not> dead li1" "insn_ok hl cm text' li1"
      "sp_pure (spec li1)" "get_byte text' li1 0 = d" "fold_v li1 = None" "ext_needed (i_op li1) = 0"
    and V: "\<And>w u v v'. notes_ok opq hl cm (bk_text s) (rev (bk_before s) @ [i]) vm \<Longrightarrow> go (bk_text s) (rev bs2) vm = Inr w \<Longrightarrow>
      go (bk_text s) (li # rev bs1) w = Inr u \<Longrightarrow>
      run_i (bk_text s) i u = Inr (u\<lparr>pc := i_pc i + of_nat (i_size i), regs := (regs u)(d := v)\<rparr>) \<Longrightarrow>
      run_i text' li1 w = Inr (w\<lparr>pc := i_pc li1 + of_nat (i_size li1), regs := (regs w)(d := v')\<rparr>) \<Longrightarrow> v = v'"
  shows "back_inv opq hl cm L F vm r (s\<lparr>bk_after := i\<lparr>dead := True\<rparr> # bk_after s, bk_changed := True, bk_text := text',
    bk_before := bs1 @ li1 # bs2\<rparr>)"
proof -
  let ?t = "bk_text s" and ?post = "bk_after s"
  have I: "block_ok hl cm ?t (rev (bk_before s) @ i # ?post)" "live_insns ?t ?post (L, F) = (bk_il s, bk_fl s)"
    "notes_ok opq hl cm ?t (rev (bk_before s) @ [i]) vm" "settled ?t (i # bk_before s)"
    "agree_reach (live_regs L) (live_regs L) r (go ?t (rev (bk_before s) @ i # ?post) vm)"
    using inv by (simp_all add: back_inv_def)
  have ok: "insn_ok hl cm ?t i" using I(1) i(1) by (simp add: block_ok_def)
  have blk: "block_ok hl cm ?t (rev bs2 @ li # (rev bs1 @ i # ?post))" using I(1) by (simp add: bs(1))
  have okl: "insn_ok hl cm ?t li" using blk li(2) by (simp add: block_ok_def)
  have sz: "0 < i_size li" using okl by (simp add: insn_ok_def)
  have same: "same_words ?t text' k" if "k \<in> set bs1 \<union> set bs2 \<union> {i} \<union> set ?post" for k
    using words_of_others [OF blk ch sz] that by auto
  have ok': "\<forall>k \<in> set bs1 \<union> set bs2 \<union> set ?post. dead k \<or> insn_ok hl cm ?t k \<and> same_words ?t text' k"
    using blk same by (auto simp: block_ok_def)
  have post: "block_ok hl cm ?t ?post" using block_ok_part [of hl cm ?t "rev bs2 @ li # rev bs1 @ [i]" ?post] blk by simp
  have live': "live_insns text' ?post (L, F) = (bk_il s, bk_fl s)"
    using live_insns_same [of ?post ?t text'] ok' I(2) by simp
  have tl: "t = d \<or> t \<notin> live_regs (bk_il s)" using bs(5-7) by (auto simp: live_regs_def and_BIT)
  have mid: "\<forall>k \<in> set (rev bs1). avoids hl cm ?t {t, d} k \<and> same_words ?t text' k" using li(1) same by auto
  have step: "agree_reach (live_regs L) (live_regs L) (go ?t (rev bs2 @ (li # rev bs1 @ [i]) @ ?post) vm)
      (go text' (rev bs2 @ (li1 # rev bs1 @ [i\<lparr>dead := True\<rparr>]) @ ?post) vm)"
  proof (rule go_replace [OF _ _ post])
    fix w assume w: "go ?t (rev bs2) vm = Inr w"
    show "agree_reach (live_regs (fst (live_insns ?t ?post (L, F)))) (live_regs L) (go ?t (li # rev bs1 @ [i]) w)
        (go text' (li1 # rev bs1 @ [i\<lparr>dead := True\<rparr>]) w)"
      unfolding I(2) fst_conv
      by (rule imm_fold_sound [OF li(3) okl li(2,4,5) li1(3,5,4,6,7) mid i(2) ok i(1,3) bs(2) _ bs(5,3) tl]) (rule V [OF I(3) w])
  qed (use ok' in auto)
  have "agree_reach (live_regs L) (live_regs L) r (go text' (rev (bs1 @ li1 # bs2) @ i\<lparr>dead := True\<rparr> # ?post) vm)"
    using agree_reach_trans [OF I(5)] step by (simp add: bs(1))
  moreover have "block_ok hl cm text' (rev (bs1 @ li1 # bs2) @ i\<lparr>dead := True\<rparr> # ?post)"
  proof -
    have "block_ok hl cm text' (rev bs2 @ li1 # (rev bs1 @ i # ?post))"
      by (rule block_ok_update [OF blk li1(1,2)]) (use li1(5) known_falls [OF li1(3)] same in auto)
    then have "block_ok hl cm text' (rev (bs1 @ li1 # bs2) @ i # ?post)" by simp
    then show ?thesis by (rule block_ok_update) simp_all
  qed
  moreover have "notes_ok opq hl cm text' (rev (bs1 @ li1 # bs2)) vm"
  proof -
    have "notes_ok opq hl cm ?t (rev (bk_before s)) vm" using I(3) unfolding notes_append by blast
    then have "notes_ok opq hl cm ?t (rev bs2 @ li # rev bs1) vm" by (simp add: bs(1))
    then have "notes_ok opq hl cm text' (rev bs2 @ li1 # rev bs1) vm"
      by (intro fold_notes [OF li(3) okl li(2,4,5) li1(3,5,4,6-9) _ mid bs(5,3)]) (use ok' in auto)
    then show ?thesis by simp
  qed
  moreover have "settled text' (bs1 @ li1 # bs2)"
  proof -
    have st: "settled ?t (bs1 @ li # bs2)" using I(4) by (simp add: bs(1))
    have okb': "\<forall>k \<in> set bs1 \<union> set bs2. dead k \<or> insn_ok hl cm ?t k \<and> same_words ?t text' k" using ok' by blast
    have "role (spec li1) 0 = R_ID"
      using li1(3,5,6) known_handler(3) [OF li1(3)] insn_ok_known [OF li1(5,3)] by metis
    then have dest: "dest_of text' li1 = {d}" using li1(7) by (simp add: dest_of_def)
    have av: "\<forall>k \<in> set bs1. avoids hl cm ?t (dest_of ?t li \<union> dest_of text' li1) k"
      using li(1) unfolding dest li_run(2) [OF li(3) okl li(4)] li(5) by (simp only: insert_is_Un [symmetric])
    have "i_size li = 4" using okl li(3,4) by (simp add: insn_ok_def operand_words_def)
    then have "\<not> clash text' li1" using li1(2) by (simp add: clash_def)
    then show ?thesis using settled_change [OF st okb' li(3,2) li1(3,4) av] by blast
  qed
  ultimately show ?thesis using live' inv by (simp add: back_inv_def live_insns_Cons)
qed

end

end
