(* ===== verification/Peep_Sources.thy ===== *)
theory Peep_Sources
  imports Peep_Back
begin

text \<open>
  What the forward pass relies on when it rewrites an instruction in place: a handler reads a source
  operand through its value only, so a register may be replaced by another of the same value; the
  extension facts of \<open>ext_result\<close> hold of every value a handler writes; and an instruction that is not
  an ALU operation leaves the facts its table entry promises.
\<close>

subsection \<open>Another register of the same value\<close>

definition sources :: "nat list \<Rightarrow> (vm \<Rightarrow> step) \<Rightarrow> bool" where
  "sources ks h \<longleftrightarrow>
     (\<forall>vm t. let w = text_seg vm (pc vm); w' = t (pc vm)
        in (\<forall>k < 4. k \<notin> set ks \<longrightarrow> opnd_byte w' k = opnd_byte w k) \<longrightarrow>
           (\<forall>k \<in> set ks. regs vm (opnd_byte w' k) = regs vm (opnd_byte w k)) \<longrightarrow>
           (2 \<notin> set ks \<longrightarrow> DECODE_BF_off w' = DECODE_BF_off w \<and> DECODE_BF_w w' = DECODE_BF_w w) \<longrightarrow>
           (\<forall>a. a \<noteq> pc vm \<longrightarrow> t a = text_seg vm a) \<longrightarrow>
           with_text t h vm = h vm)"

lemma less4: "(\<forall>k < 4. P k) \<longleftrightarrow> P 0 \<and> P (Suc 0) \<and> P 2 \<and> P (3 :: nat)"
  by (auto simp: less_Suc_eq numeral_eq_Suc)

lemmas sources_defs = sources_def with_text_def less4 skeleton_defs shift_imm_op_def
  wrap_shl_op_def read_eqs put_reg_def set_reg_def COMPTIME_CONTAIN_def cc_read_i64_at_def

lemma sources_skeletons [simp]:
  "sources [Suc 0, 2] (rrr_op g)" "sources [Suc 0] (rr_op f)" "sources [Suc 0] (rri_op g)"
  "sources [Suc 0] (shift_imm_op s)" "sources [Suc 0] (rr_op_raw f)" "sources [Suc 0, 2] (rrr_op_raw g)"
  "sources [Suc 0] (rri_op_raw g)" "sources [Suc 0] (wrap_shl_op f)"
  by (auto simp: sources_defs)

lemma sources_memory [simp]:
  "sources [Suc 0] (load_op n ld hl)" "sources [0, Suc 0] (store_op n st hl)"
  "sources [Suc 0, 2] (index_load_op n ld hl)" "sources [0, Suc 0, 2] (index_store_op n st hl)"
  "sources [] (local_load_op ld)" "sources [0] (local_store_op st)"
  by (auto simp: sources_defs load_op_def store_op_def index_load_op_def index_store_op_def
      local_load_op_def local_store_op_def op_index_addr_def local_addr_def)

lemma sources_singles [simp]:
  "sources [Suc 0, 2] op_DIV3_fn" "sources [Suc 0, 2] op_MOD3_fn" "sources [Suc 0, 2] op_UDIV3_fn"
  "sources [Suc 0, 2] op_UMOD3_fn" "sources [] op_LI3_fn" "sources [] op_LDA3_fn" "sources [] op_LEA3_fn"
  "sources [Suc 0, 2, 3] op_MULADD3_fn" "sources [Suc 0, 2] op_MULADDI3_fn" "sources [Suc 0] op_UBFX_fn"
  "sources [Suc 0] op_SBFX_fn" "sources [Suc 0, 2] op_BFI_fn"
  by (auto simp: sources_defs op_DIV3_fn_eq op_MOD3_fn_def op_UDIV3_fn_def op_UMOD3_fn_def op_LI3_fn_def
      op_LDA3_fn_def op_LEA3_fn_def lea3_align_byte local_addr_def op_MULADD3_fn_def op_MULADDI3_fn_def op_UBFX_fn_def op_SBFX_fn_def op_BFI_fn_def)

lemma handlers_sources:
  "list_all (\<lambda>(op, h). case op_spec op of None \<Rightarrow> True | Some s \<Rightarrow> sources (use_list s) h) (handlers hl cm)"
  unfolding handlers_def list.pred_inject prod.case
  by (intro conjI TrueI; simp add: op_spec_def use_list_def handler_defs)

lemma role3_use: "op_spec op = Some s \<Longrightarrow> role3 s = R_IU \<Longrightarrow> role2 s = R_IU"
  unfolding op_spec_def by (elim if_SomeE) (auto split: if_split_asm)

lemma handlers_integer:
  "list_all (\<lambda>(op, h). case op_spec op of None \<Rightarrow> True
     | Some s \<Rightarrow> {role0 s, role1 s, role2 s, role3 s} \<subseteq> {R_NO, R_IU, R_ID}) (handlers hl cm)"
  unfolding handlers_def list.pred_inject prod.case
  by (intro conjI TrueI; simp add: op_spec_def)


subsection \<open>What loads write\<close>

lemma ld_bytes_bit: "bit (ld_bytes n m p) k \<Longrightarrow> k < 8 * n"
proof (induction n arbitrary: p k)
  case (Suc n)
  show ?case
  proof (cases "bit (ucast (m p) :: u64) k")
    case True
    then have "k < 8" by (auto simp: bit_simps dest: bit_imp_le_length)
    then show ?thesis by simp
  next
    case False
    then have "8 \<le> k" "bit (ld_bytes n m (p + 1)) (k - 8)" using Suc.prems by (auto simp: bit_simps)
    then show ?thesis using Suc.IH [of "p + 1" "k - 8"] by simp
  qed
qed simp

lemma ld_bytes_zext: "c_zext (8 * n) (ld_bytes n m p) = ld_bytes n m p"
  unfolding c_zext_def by (rule bit_word_eqI) (auto simp: bit_take_bit_iff dest: ld_bytes_bit)

lemma ld_fits:
  "ext_fits 7 (sint (ld_i8 m p))" "ext_fits 6 (sint (ld_i16 m p))" "ext_fits 4 (sint (ld_i32 m p))"
  "ext_fits 62 (sint (ld_u8 m p))" "ext_fits 32 (sint (ld_u32 m p))"
proof -
  show "ext_fits 7 (sint (ld_i8 m p))" "ext_fits 6 (sint (ld_i16 m p))" "ext_fits 4 (sint (ld_i32 m p))"
    by (simp_all only: ld_i8_def ld_i16_def ld_i32_def c_ext_fits)
  have "ld_u8 m p = c_zext 8 (ld_bytes 1 m p)" "ld_u32 m p = c_zext 32 (ld_bytes 4 m p)"
    using ld_bytes_zext [of 1 m p] ld_bytes_zext [of 4 m p] unfolding ld_u8_def ld_u32_def by simp_all
  then show "ext_fits 62 (sint (ld_u8 m p))" "ext_fits 32 (sint (ld_u32 m p))" by (simp_all only: c_ext_fits)
qed

definition dest_fits :: "u8 \<Rightarrow> (vm \<Rightarrow> step) \<Rightarrow> bool" where
  "dest_fits x h \<longleftrightarrow> (\<forall>vm w. h vm = Inr w \<longrightarrow> opnd_byte (text_seg vm (pc vm)) 0 \<noteq> 0 \<longrightarrow>
     ext_fits x (sint (regs w (opnd_byte (text_seg vm (pc vm)) 0))))"

lemma dest_fits_0 [simp]: "dest_fits 0 h"
  by (simp add: dest_fits_def)

lemma dest_fits_loads [simp]:
  "(\<And>m p. ext_fits x (sint (ld m p))) \<Longrightarrow> dest_fits x (load_op n ld hl)"
  "(\<And>m p. ext_fits x (sint (ld m p))) \<Longrightarrow> dest_fits x (index_load_op n ld hl)"
  "(\<And>m p. ext_fits x (sint (ld m p))) \<Longrightarrow> dest_fits x (local_load_op ld)"
  by (auto simp: dest_fits_def load_op_def index_load_op_def local_load_op_def read_eqs put_reg_def set_reg_def
      COMPTIME_CONTAIN_def split: if_splits)

lemma handlers_fit:
  "list_all (\<lambda>(op, h). case op_spec op of None \<Rightarrow> True
     | Some s \<Rightarrow> alu op = None \<longrightarrow> role0 s = R_ID \<longrightarrow> dest_fits (ext_result op) h) (handlers hl cm)"
  unfolding handlers_def list.pred_inject prod.case
  by (intro conjI TrueI; simp add: op_spec_def alu_eval handler_defs ext_result_def ld_fits)

text \<open>The instructions with a description that are no ALU operation.\<close>

definition memory_ops :: "opcode set" where
  "memory_ops = {LDA3, LEA3, LDR_B, LDR_H, LDR_W, LDR_D, LDR_UB, LDR_UW, STR_B, STR_H, STR_W, STR_D,
     LDR_INDEX_B, LDR_INDEX_H, LDR_INDEX_W, LDR_INDEX_D, LDR_INDEX_UB, LDR_INDEX_UW,
     STR_INDEX_B, STR_INDEX_H, STR_INDEX_W, STR_INDEX_D, LDR_LOCAL_B, LDR_LOCAL_H, LDR_LOCAL_W, LDR_LOCAL_D,
     LDR_LOCAL_UB, LDR_LOCAL_UW, STR_LOCAL_B, STR_LOCAL_H, STR_LOCAL_W, STR_LOCAL_D}"

lemma handlers_memory:
  "list_all (\<lambda>(op, h). op_spec op = None \<or> alu op \<noteq> None \<or> op \<in> memory_ops) (handlers hl cm)"
  unfolding handlers_def list.pred_inject prod.case
  by (intro conjI TrueI; simp add: op_spec_def alu_eval memory_ops_def)

lemma memory_op_facts:
  assumes "op \<in> memory_ops"
  shows "cmp_form op = None" "ext_needed op = 0" "op \<notin> {MOV3, FMOV3, LI3, AND3, OR3, XOR3, ANDI3, ORI3, XORI3}"
    "fold_unary op a b c imm = None" "fold_binary op a d = None" "ext_result op \<noteq> ext_of_range 0 1"
    "interval_op op l1 h1 l2 h2 m = None"
  using assms unfolding memory_ops_def
  by (elim insertE emptyE; simp add: cmp_form_def ext_needed_def fold_unary_def fold_binary_def ext_result_def interval_op_def)+


lemma op_table_in: "op_table hl cm op = Some h \<Longrightarrow> (op, h) \<in> set (handlers hl cm)"
  unfolding op_table_def by (rule map_of_SomeD)

lemma memory_op:
  assumes "known i" "insn_ok hl cm text i" "alu (i_op i) = None"
  shows "i_op i \<in> memory_ops"
proof -
  obtain h where h: "op_table hl cm (i_op i) = Some h" "op_spec (i_op i) = Some (spec i)"
    using insn_ok_known [OF assms(2,1)] by metis
  from bspec [OF handlers_memory [unfolded list_all_iff] op_table_in [OF h(1)]] show ?thesis using h(2) assms(3) by simp
qed

lemma memory_facts_after:
  assumes "known i" "insn_ok hl cm text i" "alu (i_op i) = None"
  shows "facts_after text i (i_op i) f = (if role (spec i) 0 = R_ID
    then assign_reg (get_byte text i 0) (ext_result (i_op i)) (range_of_ext (ext_result (i_op i))) f else f)"
proof -
  obtain h where h: "op_table hl cm (i_op i) = Some h" "insn_wf text i" "op_spec (i_op i) = Some (spec i)"
    using insn_ok_known [OF assms(2,1)] by metis
  note M = memory_op_facts [OF memory_op [OF assms]]
  have int: "role (spec i) k \<in> {R_NO, R_IU, R_ID}" if "k < 4" for k
    using bspec [OF handlers_integer [unfolded list_all_iff] op_table_in [OF h(1)]] h(3) that
    by (auto simp: less4 less_Suc_eq numeral_eq_Suc role_def)
  have later: "role (spec i) k \<noteq> R_ID" if "0 < k" for k using op_spec_def0 [OF h(3)] that by blast
  have e: "effects text i = fold (role_effect text i) [0, 1, 2, 3] no_eff"
    using op_spec_ctrl [OF h(3)] assms(1) by (simp add: effects_def Let_def is_call_def)
  have rest: "idef (fold (role_effect text i) ks g) = idef g \<and> fdef (fold (role_effect text i) ks g) = fdef g"
    if "set ks \<subseteq> {1, 2, 3}" for ks g
    using that
  proof (induction ks arbitrary: g)
    case (Cons k ks)
    then have "role (spec i) k \<in> {R_NO, R_IU}" using int [of k] later [of k] by auto
    then show ?case using Cons role_effect_use [of i k "text" g] by simp
  qed simp
  have "idef (effects text i) = idef (role_effect text i 0 no_eff) \<and> fdef (effects text i) = fdef (role_effect text i 0 no_eff)"
    unfolding e using rest [of "[1, 2, 3]" "role_effect text i 0 no_eff"] by simp
  then have def: "idef (effects text i) = (if role (spec i) 0 = R_ID \<and> get_byte text i 0 \<noteq> 0 then BIT (get_byte text i 0) else 0)"
      "fdef (effects text i) = 0"
    using int [of 0] by (auto simp: role_effect_def no_eff_def Let_def split: role.splits)
  have fp: "fold_point text i (i_op i) f = None"
    using M by (simp add: fold_point_def Let_def split: option.split)
  have rr: "result_range text i (i_op i) f = None" using M by (simp add: result_range_def Let_def fp)
  have re: "result_ext text i (i_op i) f = ext_result (i_op i)" using M(3) by (simp add: result_ext_def Let_def)
  have rc: "record_copy text i (i_op i) I (record_cmp text i g) = g" for I g
    using M(1,3) by (simp add: record_copy_def record_cmp_def Let_def)
  show ?thesis
  proof (cases "role (spec i) 0 = R_ID")
    case True
    have z: "get_byte text i 0 \<noteq> 0" "get_byte text i 0 < NUM_REGS"
      using assms(1,2) True h(2) by (simp_all add: insn_ok_def insn_wf_def)
    show ?thesis
      unfolding facts_after_def Let_def rr re option.case rc
      using fold_define_reg [of "effects text i" "get_byte text i 0"] def True z by simp
  next
    case False
    have "fold (define_reg (effects text i) x I) [1..<NUM_REGS] f = f" for x I
      using fold_define_reg [of "effects text i" 0 x I f] def False by simp
    then show ?thesis unfolding facts_after_def Let_def rr re option.case rc using False by simp
  qed
qed


subsection \<open>Facts after a run\<close>

text \<open>The facts computed for \<open>op\<close> hold after \<open>i\<close> has run, when \<open>i\<close> acts as \<open>op\<close> on these registers.\<close>

definition runs_as :: "text_words \<Rightarrow> insn \<Rightarrow> regfile \<Rightarrow> opcode \<Rightarrow> bool" where
  "runs_as text i R op \<longleftrightarrow> op = i_op i \<or> ext_needed (i_op i) \<noteq> 0 \<and> op = MOV3 \<and>
     (\<exists>g. alu (i_op i) = Some g \<and> insn_value text i R g = Inr (R (get_byte text i 1)))"

lemma known_facts:
  assumes "known i" "insn_ok hl cm text i" "facts_ok f (regs vm)" "runs_as text i (regs vm) op"
    and "run_insn opq hl cm text i vm = Inr w"
  shows "facts_ok (facts_after text i op f) (regs w)"
proof (cases "alu (i_op i)")
  case (Some g)
  have wf: "insn_wf text i" using insn_ok_known [OF assms(2,1)] by metis
  have sp: "op_spec (i_op i) = Some (spec i)" by (rule insn_spec [OF wf assms(1)])
  obtain s where "op_spec (i_op i) = Some s" "role0 s = R_ID" using alu_spec [OF Some] by metis
  then have d: "role (spec i) 0 = R_ID" using sp by simp
  obtain v where v: "insn_value text i (regs vm) g = Inr v"
      "regs w = (regs vm)(get_byte text i 0 := v)"
    using run_alu [OF assms(1,2) Some d, of opq vm] assms(5) by (auto split: sum.split_asm)
  have z: "get_byte text i 0 \<noteq> 0" using assms(1,2) d by (simp add: insn_ok_def)
  obtain g' where g': "alu op = Some g'" "insn_value text i (regs vm) g' = Inr v" "acts_as i op"
  proof (cases "op = i_op i")
    case True
    then show ?thesis using that [of g] Some v(1) by (simp add: acts_as_def)
  next
    case False
    then have m: "op = MOV3" "ext_needed (i_op i) \<noteq> 0" "v = regs vm (get_byte text i 1)"
      using assms(4) Some v(1) by (auto simp: runs_as_def)
    obtain gm where "alu MOV3 = Some gm" "insn_value text i (regs vm) gm = Inr v"
      using m(3) by (simp add: alu_eval insn_value_def)
    then show ?thesis using that [of gm] m(1,2) by (simp add: acts_as_def)
  qed
  show ?thesis
    using facts_after_ok [OF g'(3) wf assms(1,3) g'(1,2) Some v(1) refl] z v(2) by simp
next
  case None
  obtain h where h: "op_table hl cm (i_op i) = Some h" "insn_wf text i" "op_spec (i_op i) = Some (spec i)"
    using insn_ok_known [OF assms(2,1)] by metis
  have op: "op = i_op i"
    using assms(4) None by (auto simp: runs_as_def)
  note F = memory_facts_after [OF assms(1,2) None, of f]
  show ?thesis
  proof (cases "role (spec i) 0 = R_ID")
    case True
    let ?rd = "get_byte text i 0" and ?x = "ext_result (i_op i)"
    have z: "?rd \<noteq> 0" "?rd < NUM_REGS" using assms(1,2) True h(2) by (simp_all add: insn_ok_def insn_wf_def)
    have "regs w r = regs vm r" if "r \<noteq> ?rd" for r
      using run_known(2) [OF assms(1,2,5), of r] that True by (simp add: dest_of_def)
    then have R: "regs w = (regs vm)(?rd := regs w ?rd)" by auto
    have "dest_fits ?x h"
      using bspec [OF handlers_fit [unfolded list_all_iff] op_table_in [OF h(1)]] h(3) None True by (simp add: role_def)
    moreover obtain w1 where "h (vm\<lparr>pc := i_pc i + 1, text_seg := text\<rparr>) = Inr w1" "regs w = regs w1"
      using assms(1,5) h(1) by (cases "h (vm\<lparr>pc := i_pc i + 1, text_seg := text\<rparr>)") (auto simp: run_insn_def with_text_def)
    ultimately have x: "ext_fits ?x (sint (regs w ?rd))"
      using z(1) unfolding dest_fits_def by (force simp: get_byte_def operand_def)
    have I: "in_iv (sint (regs w ?rd)) (range_of_ext ?x)" by (rule range_of_ext_in_iv [OF x]) simp
    have ok: "regs vm 0 = 0" "ranges_ok f (regs vm)" "copies_ok f (regs vm)" using assms(3) by (simp_all add: facts_ok_def)
    have "facts_ok (assign_reg ?rd ?x (range_of_ext ?x) f) ((regs vm)(?rd := regs w ?rd))"
      using assign_reg_ok [OF ok(2,3) z(2) x I] ok(1) z(1) by (simp add: facts_ok_def)
    then show ?thesis unfolding R [symmetric] op F using True by simp
  next
    case False
    have "regs w = regs vm" using run_known(2) [OF assms(1,2,5)] False by (auto simp: dest_of_def)
    then show ?thesis unfolding op F using False assms(3) by simp
  qed
qed

subsection \<open>Copy propagation\<close>

lemma with_text_at:
  assumes "with_text t' h (vm\<lparr>text_seg := t\<rparr>) = h (vm\<lparr>text_seg := t\<rparr>)"
  shows "with_text t' h vm = with_text t h vm"
proof -
  have "with_text t' h vm =
      map_sum (\<lambda>(e, w). (e, w\<lparr>text_seg := text_seg vm\<rparr>)) (\<lambda>w. w\<lparr>text_seg := text_seg vm\<rparr>) (with_text t' h (vm\<lparr>text_seg := t\<rparr>))"
    by (cases "h (vm\<lparr>text_seg := t'\<rparr>)") (auto simp: with_text_def)
  then show ?thesis by (simp only: assms) (simp add: with_text_def)
qed

lemma changed_word1:
  assumes "2 \<le> i_size i" "unat (i_pc i) + i_size i < 2 ^ 32" "\<And>a. a \<noteq> i_pc i + 1 \<Longrightarrow> t' a = t a"
  shows "changed_at i t t'"
  unfolding changed_at_def
proof (intro allI impI)
  fix a assume "t' a \<noteq> t a"
  then have "a = i_pc i + 1" using assms(3) by blast
  then show "unat (i_pc i) \<le> unat a \<and> unat a < unat (i_pc i) + i_size i"
    using unat_pc_add [OF assms(2), of 1] assms(1) by simp
qed

lemma copy_run:
  assumes "known i" "insn_ok hl cm text i" "k < 4" "role (spec i) k = R_IU" "s < NUM_REGS"
    and "regs vm s = regs vm (get_byte text i k)"
  shows "insn_ok hl cm (set_byte text i k s) i"
    and "run_insn opq hl cm (set_byte text i k s) i vm = run_insn opq hl cm text i vm"
proof -
  let ?t = "set_byte text i k s"
  obtain h where h: "op_table hl cm (i_op i) = Some h" "insn_wf text i" "op_spec (i_op i) = Some (spec i)"
    using insn_ok_known [OF assms(2,1)] by metis
  have s: "s < 256" using assms(5) by simp
  have b: "get_byte ?t i j = (if j = k then s else get_byte text i j)" if "j < 4" for j
    using get_byte_set_byte [OF s assms(3) that] .
  have big: "k < 2" if "i_op i \<in> {UBFX, SBFX}"
  proof -
    have "op_spec (i_op i) = Some (SPEC R_ID R_IU R_NO R_NO True False)" using that by (auto simp: op_spec_def)
    then have "spec i = SPEC R_ID R_IU R_NO R_NO True False" using h(3) by simp
    then show ?thesis using assms(3,4) by (auto simp: role_def split: if_split_asm)
  qed
  have bf: "drop_bit 16 (operand ?t i) = drop_bit 16 (operand text i)" if "k < 2"
    by (rule drop16_set_byte [OF that s])
  have BF: "DECODE_BF_off (operand ?t i) = DECODE_BF_off (operand text i) \<and>
      DECODE_BF_w (operand ?t i) = DECODE_BF_w (operand text i)" if "k < 2"
  proof -
    have "drop_bit 6 (drop_bit 16 (operand ?t i)) = drop_bit 6 (drop_bit 16 (operand text i))" by (simp only: bf [OF that])
    then have "drop_bit 22 (operand ?t i) = drop_bit 22 (operand text i)" by simp
    then show ?thesis by (simp add: DECODE_BF_off_def DECODE_BF_w_def bf [OF that])
  qed
  have im: "imm_ok (i_op i) (operand ?t i) (insn_imm ?t i)"
    using assms(1,2) BF big by (auto simp: insn_ok_def imm_ok_def)
  have wf: "insn_wf ?t i" using h(2) b assms(5) by (auto simp: insn_wf_def)
  have z: "get_byte ?t i 0 \<noteq> REG_ZERO" if "role (spec i) 0 = R_ID"
    using b [of 0] assms(1,2,4) that by (auto simp: insn_ok_def)
  show "insn_ok hl cm ?t i"
    using assms(1,2) im wf z insn_ok_known [OF assms(2,1)] unfolding insn_ok_def by blast
  show "run_insn opq hl cm ?t i vm = run_insn opq hl cm text i vm"
  proof -
    let ?v = "vm\<lparr>pc := i_pc i + 1, text_seg := text\<rparr>"
    have src: "sources (use_list (spec i)) h"
      using bspec [OF handlers_sources [unfolded list_all_iff] op_table_in [OF h(1)]] h(3) by simp
    have kin: "k \<in> set (use_list (spec i))" using assms(3,4) by (simp add: set_use_list)
    have bo: "opnd_byte (text (i_pc i + 1)) j = get_byte text i j" "opnd_byte (?t (i_pc i + 1)) j = get_byte ?t i j" for j
      by (simp_all add: get_byte_def operand_def)
    have others: "\<forall>a. a \<noteq> i_pc i + 1 \<longrightarrow> ?t a = text a" by (simp add: set_byte_def)
    have low: "k < 2" if "2 \<notin> set (use_list (spec i))"
    proof (rule ccontr)
      assume "\<not> k < 2"
      then have "k = 2 \<or> k = 3" using assms(3) by linarith
      then show False using assms(4) that role3_use [OF h(3)] by (auto simp: set_use_list)
    qed
    have "with_text ?t h ?v = h ?v"
    proof (rule src [unfolded sources_def Let_def, rule_format, of ?t ?v])
      show "opnd_byte (?t (pc ?v)) j = opnd_byte (text_seg ?v (pc ?v)) j" if "j < 4" "j \<notin> set (use_list (spec i))" for j
        using b [OF that(1)] that(2) kin by (auto simp: bo)
      show "regs ?v (opnd_byte (?t (pc ?v)) j) = regs ?v (opnd_byte (text_seg ?v (pc ?v)) j)" if "j \<in> set (use_list (spec i))" for j
        using b [of j] that assms(6) by (auto simp: bo set_use_list)
      show "DECODE_BF_off (?t (pc ?v)) = DECODE_BF_off (text_seg ?v (pc ?v)) \<and> DECODE_BF_w (?t (pc ?v)) = DECODE_BF_w (text_seg ?v (pc ?v))"
        if "2 \<notin> set (use_list (spec i))" using BF [OF low [OF that]] by (simp add: operand_def)
      show "?t a = text_seg ?v a" if "a \<noteq> pc ?v" for a using others that by simp
    qed
    then have "with_text ?t h (vm\<lparr>pc := i_pc i + 1\<rparr>) = with_text text h (vm\<lparr>pc := i_pc i + 1\<rparr>)"
      by (rule with_text_at)
    then show ?thesis using assms(1) h(1) by (simp add: run_insn_def)
  qed
qed

end
