(* ===== verification/Peep_Backward.thy ===== *)
theory Peep_Backward
  imports Peep_Back
begin

text \<open>
  The backward pass over a whole block keeps what the block computes: every kind of step of the walk
  preserves the invariant of \<open>Peep_Back\<close>, so the rewritten block ends as the original does.
\<close>

subsection \<open>The merged instruction\<close>

text \<open>The immediate forms: their description, size and the immediates C defines them for.\<close>

lemma imm_opcode_form:
  assumes "imm_opcode op c_left c = Some (iop, c')"
  shows "op_spec iop = Some (SPEC R_ID R_IU R_NO R_NO True False)" "op_table hl cm iop \<noteq> None"
    "operand_words ! iop = 3" "ext_needed iop = 0" "iop \<noteq> LI3" "\<not> is_jz iop" "imm_ok iop w c'"
proof -
  have "iop \<in> {ADDI3, MULI3, ANDI3, ORI3, XORI3, SHLI3, SHRI3, USHRI3, SEQI3, SNEI3, SGTI3, SLTI3, SGEI3, SLEI3, UGTI3, ULTI3, UGEI3, ULEI3}"
    using assms by (auto simp: imm_opcode_def split: if_split_asm)
  note ops = this
  show "op_spec iop = Some (SPEC R_ID R_IU R_NO R_NO True False)"
    using ops by (elim insertE emptyE; simp add: op_spec_def)
  show "operand_words ! iop = 3" using ops by (elim insertE emptyE; simp add: operand_words_def)
  show "ext_needed iop = 0" "iop \<noteq> LI3" "\<not> is_jz iop"
    using ops by (elim insertE emptyE; simp add: ext_needed_def is_jz_def)+
  obtain g' where "alu iop = Some g'" using imm_opcode_alu [OF assms] by blast
  then show "op_table hl cm iop \<noteq> None" by (rule alu_refines [of iop g' hl cm]) simp
  have "0 \<le> sint c' \<and> sint c' \<le> 63" if "iop \<in> {SHLI3, SHRI3, USHRI3}"
    using assms that by (auto simp: imm_opcode_def split: if_split_asm)
  moreover have "iop \<notin> {SHLISX3, SHLIZX3, UBFX, SBFX}"
    using assms by (auto simp: imm_opcode_def split: if_split_asm)
  ultimately show "imm_ok iop w c'" using uint_sint_nonneg [of c'] by (auto simp: imm_ok_def)
qed

lemma write_changed:
  assumes "i_size i = 4" "unat (i_pc i) + i_size i < 2 ^ 32"
  shows "changed_at i text (cc_write_i64_at text (i_pc i + 2) v)" "changed_at i text (text(i_pc i := x))"
    "changed_at i text (text(i_pc i + 1 := x))"
proof -
  have u: "unat (i_pc i + of_nat k) = unat (i_pc i) + k" if "k < 4" for k
    using unat_pc_add [OF assms(2), of k] that assms(1) by simp
  show "changed_at i text (cc_write_i64_at text (i_pc i + 2) v)" "changed_at i text (text(i_pc i := x))"
    "changed_at i text (text(i_pc i + 1 := x))"
    using assms(1) u [of 1] u [of 2] u [of 3] by (auto simp: changed_at_def cc_write_i64_at_def add.assoc)
qed

context opaque_code
begin

abbreviation gone :: "insn \<Rightarrow> walk \<Rightarrow> walk" where
  "gone i s \<equiv> s\<lparr>bk_after := i\<lparr>dead := True\<rparr> # bk_after s, bk_changed := True\<rparr>"

lemma imm_fold_inv:
  assumes inv: "back_inv opq hl cm L F vm r (s\<lparr>bk_before := i # bk_before s\<rparr>)" and i: "\<not> dead i" "known i" "sp_pure (spec i)"
    and sz: "i_size i = 2" and ro: "role (spec i) 0 = R_ID" "role (spec i) 1 = R_IU" "binary = (role (spec i) 2 = R_IU \<and> role (spec i) 3 = R_NO)"
    and k: "k = 0 \<or> k = 1 \<and> binary" and f: "imm_fold_at (bk_text s) i (bk_before s) (bk_il s) binary k = Some (text', bs')"
  shows "back_inv opq hl cm L F vm r ((gone i s)\<lparr>bk_text := text', bk_before := bs'\<rparr>)"
proof -
  let ?t = "bk_text s" and ?d = "get_byte (bk_text s) i 0" and ?b = "get_byte (bk_text s) i (Suc k)"
    and ?a = "get_byte (bk_text s) i (2 - k)"
  have I: "block_ok hl cm ?t (rev (bk_before s) @ i # bk_after s)" "settled ?t (i # bk_before s)"
    using inv by (simp_all add: back_inv_def)
  have ok: "insn_ok hl cm ?t i" using I(1) i(1) by (simp add: block_ok_def)
  have wf: "insn_wf ?t i" using insn_ok_known [OF ok i(2)] by metis
  have d: "0 < ?d" using ok i(2) ro(1) by (simp add: insn_ok_def)
  have reg: "get_byte ?t i m < 32" if "m < 4" "role (spec i) m \<noteq> R_NO" for m
    using wf i(2) that by (simp add: insn_wf_def)
  have d32: "?d < 32" using reg [of 0] ro by simp
  have b32: "?b < 32" using reg [of "Suc k"] ro k by (auto simp: numeral_2_eq_2)
  have a32: "?a < 32" if binary using reg [of "2 - k"] ro k that by auto
  define ao where "ao = (if binary then Some ?a else None)"
  obtain j where C: "?b \<noteq> 0" "\<not> (binary \<and> k = 0 \<and> ?b = ?a)" "?b = ?d \<or> bk_il s AND BIT ?b = 0"
      "find_li ?t ?d ?b ao 0 (bk_before s) = Some j"
    using f by (auto simp: imm_fold_at_def Let_def ao_def split: if_split_asm option.split_asm)
  let ?li = "bk_before s ! j"
  have okb: "\<forall>x \<in> set (bk_before s). dead x \<or> insn_ok hl cm ?t x" using I(1) by (auto simp: block_ok_def)
  have b0: "0 < ?b" using C(1) by simp
  have a: "\<And>x. ao = Some x \<Longrightarrow> x < 32" using a32 by (simp add: ao_def split: if_split_asm)
  obtain bs1 li bs2 where B: "bk_before s = bs1 @ li # bs2" "length bs1 = j"
      "\<forall>x \<in> set bs1. avoids hl cm ?t {?b, ?d} x \<and> (\<forall>y. ao = Some y \<longrightarrow> dead x \<or> y \<notin> dest_of ?t x)"
      "\<not> dead li" "known li" "insn_ok hl cm ?t li" "i_op li = LI3" "get_byte ?t li 0 = ?b"
    using find_li_split [OF C(4) okb d d32 b0 b32 a] by blast
  have lij: "?li = li" using B(1,2) by (metis nth_append_length)
  have sz4: "i_size li = 4" using B(5-7) by (simp add: insn_ok_def operand_words_def)
  have blk: "block_ok hl cm ?t (rev bs2 @ li # (rev bs1 @ i # bk_after s))" using I(1) by (simp add: B(1))
  have pcs: "unat (i_pc li) + i_size li < 2 ^ 32" using blk by (simp add: block_ok_def layout_def)
  note W = write_changed [OF sz4 pcs]
  have av: "\<forall>x \<in> set bs1. avoids hl cm ?t {?b, ?d} x" using B(3) by blast
  note core = back_inv_fold [OF inv i B(1) refl d d32 b0 b32 C(3) av B(4,5,7,8)]
  have at_i: "regs u ?b = insn_imm ?t li" "binary \<Longrightarrow> ?a \<noteq> ?b \<Longrightarrow> regs u ?a = regs w ?a"
    if "go ?t (li # rev bs1) w = Inr u" for w u
  proof -
    have g: "go ?t (rev bs1) (w\<lparr>pc := i_pc li + of_nat (i_size li), regs := (regs w)(?b := insn_imm ?t li)\<rparr>) = Inr u"
      using that li_run(1) [OF B(5-7), of w] B(4,8) by (simp split: if_split_asm)
    have kb: "\<forall>x \<in> set (rev bs1). dead x \<or> known x \<and> insn_ok hl cm ?t x \<and> ?b \<notin> dest_of ?t x"
      using av by (auto simp: avoids_def)
    show "regs u ?b = insn_imm ?t li" using go_keeps [OF kb g] by simp
    assume "binary" "?a \<noteq> ?b"
    then have ka: "\<forall>x \<in> set (rev bs1). dead x \<or> known x \<and> insn_ok hl cm ?t x \<and> ?a \<notin> dest_of ?t x"
      using B(3) by (auto simp: avoids_def ao_def)
    show "regs u ?a = regs w ?a" using go_keeps [OF ka g] \<open>?a \<noteq> ?b\<close> by simp
  qed
  show ?thesis
  proof (cases "fold_v i")
    case (Some v)
    let ?t' = "(cc_write_i64_at ?t (i_pc li + 2) v)(i_pc li + 1 := of_nat ?d)"
    have t': "text' = ?t'" "bs' = bk_before s"
      using f C Some unfolding imm_fold_at_def Let_def ao_def [symmetric] by (auto simp: lij)
    have ch: "changed_at li ?t text'" unfolding t' by (rule changed_at_trans [OF W(1)]) (rule write_changed(3) [OF sz4 pcs])
    have g0: "get_byte text' li 0 = ?d" using d32 by (simp add: t' get_byte_def opnd_byte_of_nat)
    have im: "insn_imm text' li = v" by (simp add: t')
    have spl: "spec li = SPEC R_ID R_NO R_NO R_NO True False"
      using insn_ok_known [OF B(6,5)] B(7) by (metis MOV3_spec(2) option.inject)
    have okl: "insn_ok hl cm text' li"
      using B(5-7) g0 d d32 spl by (auto simp: insn_ok_def insn_wf_def imm_ok_def role_less4)
    have fl: "fold_v li = None" "ext_needed (i_op li) = 0" using B(5-7) by (simp_all add: insn_ok_def ext_needed_def)
    have "back_inv opq hl cm L F vm r ((gone i s)\<lparr>bk_text := text', bk_before := bs1 @ li # bs2\<rparr>)"
    proof (rule core [OF ch refl refl B(5,4) okl _ g0 fl])
      show "sp_pure (spec li)" by (simp add: spl)
      fix w u x x'
      assume n: "notes_ok opq hl cm ?t (rev (bk_before s) @ [i]) vm" "go ?t (rev bs2) vm = Inr w" "go ?t (li # rev bs1) w = Inr u"
        and rx: "run_i ?t i u = Inr (u\<lparr>pc := i_pc i + of_nat (i_size i), regs := (regs u)(?d := x)\<rparr>)"
        and rx': "run_i text' li w = Inr (w\<lparr>pc := i_pc li + of_nat (i_size li), regs := (regs w)(?d := x')\<rparr>)"
      have "go ?t (rev (bk_before s)) vm = Inr u" using n(2,3) by (simp add: B(1) go_append)
      then have "notes_ok opq hl cm ?t [i] u" using n(1) unfolding notes_append by blast
      then have "note_ok opq hl cm ?t i u" using i by simp
      then have "x = v" using rx Some ro(1) by (simp add: note_ok_def)
      have "regs (w\<lparr>pc := i_pc li + of_nat (i_size li), regs := (regs w)(?d := x')\<rparr>) ?d =
          regs (w\<lparr>pc := i_pc li + of_nat (i_size li), regs := (regs w)(?d := v)\<rparr>) ?d"
        using rx' li_run(1) [OF B(5) okl B(7), of w] by (simp only: g0 im sum.inject)
      then show "x = x'" using \<open>x = v\<close> by simp
    qed
    then show ?thesis by (simp add: t' B(1))
  next
    case None
    then obtain iop c' where bin: "binary" and io: "imm_opcode (i_op i) (k = 0) (insn_imm ?t li) = Some (iop, c')"
      using f C unfolding imm_fold_at_def Let_def ao_def [symmetric] by (auto simp: lij split: if_split_asm option.split_asm)
    obtain text1 li1 where mk: "make_imm_op ?t li iop c' = (text1, li1)" by (meson surj_pair)
    have t': "text' = text1(i_pc li + 1 := ENCODE_RR ?d ?a)" "bs' = (bk_before s)[j := li1]"
      using f C None bin io mk unfolding imm_fold_at_def Let_def ao_def [symmetric] by (auto simp: lij ENCODE_RR_def)
    note M = make_imm_fields [OF mk] and F = imm_opcode_form [OF io]
    have bs': "bs' = bs1 @ li1 # bs2" using B(1,2) t'(2) by (metis list_update_length)
    have li1: "i_size li1 = i_size li" "fold_v li1 = None" "spec li1 = SPEC R_ID R_IU R_NO R_NO True False"
      using mk B(5-7) F(1) by (auto simp: make_imm_op_def insn_ok_def)
    have ch: "changed_at li ?t text'"
      unfolding t' M(1) by (rule changed_at_trans [OF changed_at_trans [OF W(2) write_changed(1) [OF sz4 pcs]] write_changed(3) [OF sz4 pcs]])
    have g0: "get_byte text' li1 0 = ?d" "get_byte text' li1 1 = ?a"
      using d32 a32 [OF bin] M(2) by (simp_all add: t' get_byte_def operand_def opnd_byte_ENCODE_RR opnd_byte_ENCODE_RR(2) [unfolded One_nat_def])
    have im: "insn_imm text' li1 = c'" using M(1,2) by (simp add: insn_imm_pc [OF M(2)] t')
    have a32': "?a < 32" by (rule a32 [OF bin])
    have okl: "insn_ok hl cm text' li1"
      using F(1,2,3,5,6,7) M(2-4) g0 g0(2) [unfolded One_nat_def] d d32 a32' li1 sz4 im B(5)
      by (auto simp: insn_ok_def insn_wf_def role_less4)
    have nab: "?a \<noteq> ?b"
    proof
      assume eq: "?a = ?b"
      with C(2) bin k have k1: "k = 1" by auto
      have "clash ?t i" using i(2) None sz ro bin eq k1 by (simp add: clash_def numeral_2_eq_2)
      moreover have "li_feeds ?t (\<lambda>c. imm_opcode (i_op i) False c \<noteq> None) (get_byte ?t i 1) (bk_before s)"
        using find_li_feeds [OF C(4) okb b0 b32, of "\<lambda>c. imm_opcode (i_op i) False c \<noteq> None"] eq k1 io lij by simp
      ultimately show False using I(2) i(1) by simp
    qed
    have "back_inv opq hl cm L F vm r ((gone i s)\<lparr>bk_text := text', bk_before := bs1 @ li1 # bs2\<rparr>)"
    proof (rule core [OF ch M(2) li1(1) _ _ okl _ g0(1) li1(2)])
      show "known li1" "\<not> dead li1" "sp_pure (spec li1)" "ext_needed (i_op li1) = 0"
        using M(3-5) B(4,5) li1(3) F(4) by simp_all
      fix w u x x'
      assume go: "go ?t (li # rev bs1) w = Inr u"
        and rx: "run_i ?t i u = Inr (u\<lparr>pc := i_pc i + of_nat (i_size i), regs := (regs u)(?d := x)\<rparr>)"
        and rx': "run_i text' li1 w = Inr (w\<lparr>pc := i_pc li1 + of_nat (i_size li1), regs := (regs w)(?d := x')\<rparr>)"
      obtain g g' where gg: "alu (i_op i) = Some g" "alu iop = Some g'"
        "\<And>w w' a x y z imm. g w (if k = 0 then insn_imm ?t li else a) (if k = 0 then a else insn_imm ?t li) x imm = g' w' a y z c'"
        using imm_opcode_alu [OF io] by blast
      have "role (spec i) 0 = R_ID" by (rule ro(1))
      obtain y where y: "insn_value ?t i (regs u) g = Inr y" "run_i ?t i u = Inr (u\<lparr>pc := i_pc i + of_nat (i_size i), regs := (regs u)(?d := y)\<rparr>)"
        using run_pure [OF i(2) ok i(3), of opq u] gg(1) by metis
      obtain y' where y': "insn_value text' li1 (regs w) g' = Inr y'"
          "run_i text' li1 w = Inr (w\<lparr>pc := i_pc li1 + of_nat (i_size li1), regs := (regs w)(?d := y')\<rparr>)"
        using run_pure [OF _ okl, of opq w] gg(2) M(3,4) B(5) li1(3) g0(1) by (metis op_spec.sel(5))
      note v = at_i(1) [OF go] at_i(2) [OF go bin nab]
      have "insn_value ?t i (regs u) g = insn_value text' li1 (regs w) g'"
        using gg(3) v k im g0(2) unfolding insn_value_def by (auto simp: numeral_2_eq_2)
      then have "y = y'" using y(1) y'(1) by simp
      moreover have "x = y"
        using arg_cong [OF trans [OF rx [symmetric] y(2)], of "\<lambda>q. case q of Inr z \<Rightarrow> regs z ?d"] by simp
      moreover have "x' = y'"
        using arg_cong [OF trans [OF rx' [symmetric] y'(2)], of "\<lambda>q. case q of Inr z \<Rightarrow> regs z ?d"] by simp
      ultimately show "x = x'" by simp
    qed
    then show ?thesis by (simp add: bs')
  qed
qed

lemma try_imm_fold_inv:
  assumes inv: "back_inv opq hl cm L F vm r (s\<lparr>bk_before := i # bk_before s\<rparr>)" and i: "\<not> dead i"
    and f: "try_imm_fold (bk_text s) i (bk_before s) (bk_il s) = Some (text', bs')"
  shows "back_inv opq hl cm L F vm r ((gone i s)\<lparr>bk_text := text', bk_before := bs'\<rparr>)"
proof -
  let ?bin = "role (spec i) 2 = R_IU \<and> role (spec i) 3 = R_NO"
  have c: "known i" "i_size i = 2" "sp_pure (spec i)" "role (spec i) 0 = R_ID" "role (spec i) 1 = R_IU"
    using f by (auto simp: try_imm_fold_def split: if_split_asm)
  obtain k where "k = 0 \<or> k = 1 \<and> ?bin" "imm_fold_at (bk_text s) i (bk_before s) (bk_il s) ?bin k = Some (text', bs')"
    using f by (auto simp: try_imm_fold_def Let_def split: if_split_asm option.split_asm)
  from imm_fold_inv [OF inv i c(1,3,2,4,5) refl this] show ?thesis .
qed

lemma jz_last:
  assumes "block_ok hl cm text (xs @ b # ys)" "is_jz (i_op b)" "\<not> dead b"
  shows "ys = []"
proof (rule ccontr)
  assume "ys \<noteq> []"
  then have "falls_through b" using assms(1,3) by (auto simp: block_ok_def butlast_append)
  moreover have "insn_ok hl cm text b" using assms(1,3) by (simp add: block_ok_def)
  ultimately show False using assms(2) insn_ok_known [of hl cm "text" b] by (auto simp: falls_through_def is_jz_def)
qed

lemma find_split:
  assumes "find P xs = Some x" obtains ys zs where "xs = ys @ x # zs" "\<forall>y \<in> set ys. \<not> P y" "P x"
  using assms
proof (induction xs)
  case (Cons a xs)
  show ?case
  proof (cases "P a")
    case True
    then show ?thesis using Cons.prems(2) by (intro Cons.prems(1) [of "[]" xs]) auto
  next
    case False
    then have "find P xs = Some x" using Cons.prems(2) by simp
    then show ?thesis using Cons.IH Cons.prems(1) [of "a # ys" zs for ys zs] False
      by (metis append_Cons set_ConsD)
  qed
qed simp

lemma live_jz:
  assumes "is_jz (i_op br)" "\<not> dead br" "\<forall>j \<in> set ds. dead j" "get_byte text br 0 < 32"
  shows "live_insns text (ds @ [br]) (L, F) = (L OR (if 0 < get_byte text br 0 then BIT (get_byte text br 0) else 0), F)"
proof -
  have "live_insns text (ds @ [br]) (L, F) = live_insns text [br] (L, F)"
    using assms(3) by (induction ds) (auto simp: live_insns_Cons)
  then show ?thesis using assms(1,2,4)
    by (auto simp: live_insns_def step_back_def effects_def is_jz_def no_eff_def Let_def)
qed

lemma drop_next_inv:
  assumes inv: "back_inv opq hl cm L F vm r (s\<lparr>bk_before := i # bk_before s\<rparr>)" and i: "\<not> dead i" "known i"
    and f: "drop_next_ext i s = Some text'"
  shows "back_inv opq hl cm L F vm r ((gone i s)\<lparr>bk_text := text',
    bk_il := bk_br s OR (if 0 < get_byte (bk_text s) i 1 then BIT (get_byte (bk_text s) i 1) else 0)\<rparr>)"
proof -
  let ?t = "bk_text s" and ?pre = "rev (bk_before s)" and ?rs = "get_byte (bk_text s) i 1"
  obtain br i' where N: "ext_needed (i_op i) \<noteq> 0" "find (\<lambda>j. \<not> dead j) (bk_after s) = Some br" "is_jz (i_op br)"
      "drop_branch_ext ?t i br (bk_br s) = Some (text', i')"
    using f by (auto simp: drop_next_ext_def split: if_split_asm option.split_asm)
  obtain ds zs where A: "bk_after s = ds @ br # zs" "\<forall>j \<in> set ds. dead j" "\<not> dead br"
    using find_split [OF N(2)] by metis
  have I: "block_ok hl cm ?t (?pre @ i # bk_after s)" "live_insns ?t (bk_after s) (L, F) = (bk_il s, bk_fl s)"
    "notes_ok opq hl cm ?t (?pre @ [i]) vm" "settled ?t (i # bk_before s)" "bk_br s = L"
    "agree_reach (live_regs L) (live_regs L) r (go ?t (?pre @ i # bk_after s) vm)"
    using inv N(2,3) by (simp_all add: back_inv_def)
  have zs: "zs = []" using jz_last [of ?t "?pre @ i # ds" br zs] I(1) A N(3) by simp
  have after: "bk_after s = ds @ [br]" using A(1) zs by simp
  have blk: "block_ok hl cm ?t ((?pre @ i # ds) @ br # [])" using I(1) after by simp
  have ok: "insn_ok hl cm ?t i" and okb: "insn_ok hl cm ?t br" using blk i(1) A(3) by (simp_all add: block_ok_def)
  have op: "i_op i \<in> {SX1, SX2, SX4, ZX1, ZX2, ZX4}" using N(1) by (auto simp: ext_needed_def split: if_split_asm)
  have "?rs \<in> uses_of ?t i" by (rule ext_role [OF i(2) ok N(1)])
  moreover have "insn_wf ?t i" using insn_ok_known [OF ok i(2)] by metis
  ultimately have rs: "?rs < 32" using i(2) by (auto simp: uses_of_def insn_wf_def)
  have t': "text' = set_byte ?t br 0 ?rs" using N(4) by (auto simp: drop_branch_ext_def Let_def split: if_split_asm)
  have sz: "i_size br = 3" using okb N(3) by (simp add: insn_ok_def)
  have pcs: "unat (i_pc br) + i_size br < 2 ^ 32" using blk by (simp add: block_ok_def layout_def)
  have ch: "changed_at br ?t text'" unfolding t' by (rule set_byte_changed) (use sz pcs in simp_all)
  have same: "same_words ?t text' k" if "k \<in> set (?pre @ i # ds)" for k
    using words_of_others [OF blk ch] sz that by auto
  have gb: "get_byte text' br 0 = ?rs" using rs by (simp add: t')
  have okb': "insn_ok hl cm text' br"
    using okb N(3) gb rs insn_ok_known [OF okb] by (auto simp: insn_ok_def)
  have ok': "\<forall>k \<in> set ?pre. dead k \<or> insn_ok hl cm ?t k \<and> same_words ?t text' k"
    using blk same by (auto simp: block_ok_def)
  have step: "agree_reach (live_regs L) (live_regs L) (go ?t (?pre @ (i # ds @ [br]) @ []) vm)
      (go text' (?pre @ (i\<lparr>dead := True\<rparr> # ds @ [br]) @ []) vm)"
  proof (rule go_replace [OF ok'])
    fix w assume w: "go ?t ?pre vm = Inr w"
    have "notes_ok opq hl cm ?t [i] w" using I(3) w unfolding notes_append by blast
    then have "ext_fits (src_ext i) (sint (regs w ?rs))" using i N(1) by (simp add: note_ok_def)
    from drop_ext_sound [OF i(2) ok i(1) op A(2) N(3) A(3) N(4) [unfolded I(5)] this]
    show "agree_reach (live_regs (fst (live_insns ?t [] (L, F)))) (live_regs L) (go ?t (i # ds @ [br]) w)
      (go text' (i\<lparr>dead := True\<rparr> # ds @ [br]) w)" by (simp add: live_insns_def)
  qed (simp_all add: block_ok_def layout_def)
  have "agree_reach (live_regs L) (live_regs L) r (go text' (?pre @ i\<lparr>dead := True\<rparr> # bk_after s) vm)"
    using agree_reach_trans [OF I(6)] step by (simp add: after)
  moreover have "block_ok hl cm text' (?pre @ i\<lparr>dead := True\<rparr> # bk_after s)"
  proof -
    have "block_ok hl cm text' ((?pre @ i # ds) @ br # [])"
      by (rule block_ok_update [OF blk]) (use okb' same in auto)
    then have "block_ok hl cm text' (?pre @ i # bk_after s)" by (simp add: after)
    then show ?thesis by (rule block_ok_update) simp_all
  qed
  moreover have "live_insns text' (bk_after s) (L, F) = (L OR (if 0 < ?rs then BIT ?rs else 0), F)"
    using live_jz [OF N(3) A(3,2), of text' L F] gb rs by (simp add: after)
  moreover have "bk_fl s = F"
    using live_jz [OF N(3) A(3,2), of ?t L F] I(2) okb N(3) by (simp add: after insn_ok_def)
  moreover have "notes_ok opq hl cm text' ?pre vm" using notes_same [OF ok'] I(3) by (simp add: notes_append)
  moreover have "settled text' (bk_before s)"
    using settled_same [of "bk_before s" hl cm ?t text'] ok' I(4) by simp
  ultimately show ?thesis using inv I(5) by (simp add: back_inv_def live_insns_Cons)
qed

lemma back_known_inv:
  assumes inv: "back_inv opq hl cm L F vm r (s\<lparr>bk_before := i # bk_before s\<rparr>)" and i: "\<not> dead i" "known i"
    and f: "back_known i s = Some s'"
  shows "back_inv opq hl cm L F vm r s'"
proof -
  let ?dead = "sp_pure (spec i) \<and> idef (effects (bk_text s) i) AND bk_il s = 0 \<and> fdef (effects (bk_text s) i) AND bk_fl s = 0"
  show ?thesis
  proof (cases ?dead)
    case True
    then have "s' = gone i s" using f by (simp add: back_known_def Let_def)
    then show ?thesis using back_inv_gone [OF inv i] True by simp
  next
    case nd: False
    note F = f [unfolded back_known_def Let_def if_not_P [OF nd]]
    show ?thesis
    proof (cases "if sp_move (spec i) then try_retarget (bk_text s) i (bk_before s) (bk_il s) (bk_fl s) else None")
      case (Some text1)
      then have "sp_move (spec i)" "try_retarget (bk_text s) i (bk_before s) (bk_il s) (bk_fl s) = Some text1"
        by (simp_all split: if_split_asm)
      from back_inv_retarget [OF inv i this] show ?thesis using F Some by simp
    next
      case None
      note F = F [unfolded None option.case]
      show ?thesis
      proof (cases "try_imm_fold (bk_text s) i (bk_before s) (bk_il s)")
        case (Some q)
        obtain text1 bs1 where q: "q = (text1, bs1)" by (cases q)
        show ?thesis using try_imm_fold_inv [OF inv i(1) Some [unfolded q]] F unfolding Some q by simp
      next
        case n: None
        then obtain text1 where t: "drop_next_ext i s = Some text1"
            "s' = (gone i s)\<lparr>bk_text := text1,
               bk_il := bk_br s OR (if 0 < get_byte (bk_text s) i 1 then BIT (get_byte (bk_text s) i 1) else 0)\<rparr>"
          using F by auto
        show ?thesis unfolding t(2) by (rule drop_next_inv [OF inv i t(1)])
      qed
    qed
  qed
qed

lemma back_step_inv:
  assumes inv: "back_inv opq hl cm L F vm r (s\<lparr>bk_before := i # bk_before s\<rparr>)"
  shows "back_inv opq hl cm L F vm r (back_step i s)"
proof -
  let ?t = "bk_text s"
  have I: "block_ok hl cm ?t (rev (bk_before s) @ i # bk_after s)" "live_insns ?t (bk_after s) (L, F) = (bk_il s, bk_fl s)"
    "notes_ok opq hl cm ?t (rev (bk_before s)) vm"
    using inv by (auto simp: back_inv_def notes_append)
  show ?thesis
  proof (cases "dead i")
    case True
    then show ?thesis using inv I by (simp add: back_inv_def back_step_def live_insns_Cons)
  next
    case False
    show ?thesis
    proof (cases "if known i then back_known i s else None")
      case (Some s')
      then show ?thesis using back_known_inv [OF inv False] False by (simp add: back_step_def split: if_split_asm)
    next
      case None
      have "bk_after s = []" if "is_jz (i_op i)" using jz_last [OF I(1) that False] .
      then have br: "bk_il s = L" if "is_jz (i_op i)" using that I(2) by (simp add: live_insns_def)
      have st: "back_step i s = s\<lparr>bk_after := i # bk_after s, bk_il := fst (step_back ?t i (bk_il s, bk_fl s)),
          bk_fl := snd (step_back ?t i (bk_il s, bk_fl s)), bk_br := (if is_jz (i_op i) then bk_il s else bk_br s)\<rparr>"
        using None False by (cases "step_back ?t i (bk_il s, bk_fl s)") (simp add: back_step_def)
      show ?thesis unfolding st using inv I False br by (simp add: back_inv_def live_insns_Cons)
    qed
  qed
qed

lemma back_loop_inv:
  "back_inv opq hl cm L F vm r s \<Longrightarrow> back_inv opq hl cm L F vm r (back_loop s) \<and> bk_before (back_loop s) = []"
proof (induction s rule: back_loop.induct)
  case (1 s)
  show ?case
  proof (cases "bk_before s")
    case Nil
    then show ?thesis using 1(2) by (simp add: back_loop.simps)
  next
    case (Cons i bs)
    have "(s\<lparr>bk_before := bs\<rparr>)\<lparr>bk_before := i # bk_before (s\<lparr>bk_before := bs\<rparr>)\<rparr> = s" using Cons by simp
    then have "back_inv opq hl cm L F vm r (back_step i (s\<lparr>bk_before := bs\<rparr>))"
      using back_step_inv [of L F vm r i "s\<lparr>bk_before := bs\<rparr>"] 1(2) by simp
    from 1(1) [OF Cons this] show ?thesis using Cons by (subst (1 2) back_loop.simps) simp
  qed
qed

lemma backward_block_ok:
  assumes "block_ok hl cm text is" "notes_ok opq hl cm text is vm" "settled text (rev is)"
    and "backward_block text is (L, F) = (text', is', ch)"
  shows "block_ok hl cm text' is'"
    and "agree_reach (live_regs L) (live_regs L) (go text is vm) (go text' is' vm)"
proof -
  let ?s = "\<lparr>bk_text = text, bk_before = rev is, bk_after = [], bk_il = L, bk_fl = F, bk_br = 0, bk_changed = False\<rparr>"
  have "back_inv opq hl cm L F vm (go text is vm) ?s"
    using assms(1-3) by (simp add: back_inv_def live_insns_def)
  from back_loop_inv [OF this] show "block_ok hl cm text' is'"
      "agree_reach (live_regs L) (live_regs L) (go text is vm) (go text' is' vm)"
    using assms(4) by (auto simp: backward_block_def Let_def back_inv_def)
qed

end

subsection \<open>The branches satisfy the contract of opaque code\<close>

definition branch_ok :: "nat list \<Rightarrow> nat \<Rightarrow> (vm \<Rightarrow> step) \<Rightarrow> bool" where
  "branch_ok ks n h \<longleftrightarrow>
     (\<forall>vm t. (\<forall>k < n. t (pc vm + of_nat k) = text_seg vm (pc vm + of_nat k)) \<longrightarrow> with_text t h vm = h vm) \<and>
     (\<forall>vm R L. (\<forall>k \<in> set ks. R (opnd_byte (text_seg vm (pc vm)) k) = regs vm (opnd_byte (text_seg vm (pc vm)) k)) \<longrightarrow>
        (\<forall>r \<in> L. R r = regs vm r) \<longrightarrow> agree_step L (h vm) (h (vm\<lparr>regs := R\<rparr>)))"

lemma branch_ok_skeletons [simp]:
  "branch_ok [0, Suc 0] 2 (br_op r)" "branch_ok [0] 2 (br_imm_op r)" "branch_ok [0] 3 (br_wide_op r)"
  "branch_ok [] 1 op_JMP_fn"
  by (auto simp: branch_ok_def with_text_def less_words br_op_def br_imm_op_def br_wide_op_def op_JMP_fn_def jump_if_def
      read_eqs agree_def add.commute)

definition branch_ks :: "opcode \<Rightarrow> nat list" where
  "branch_ks op = (if op \<le> BULE3 then [0, Suc 0] else [0])"

definition branch_regs_ok :: "text_words \<Rightarrow> insn \<Rightarrow> bool" where
  "branch_regs_ok text i \<longleftrightarrow> (\<forall>k \<in> set (branch_ks (i_op i)). get_byte text i k < NUM_REGS)"

lemma handlers_branch:
  "list_all (\<lambda>(op, h). BEQ3 \<le> op \<and> op \<le> BUGEW3 \<longrightarrow>
     branch_ok (branch_ks op) (if op < BEQW3 then 2 else 3) h) (handlers hl cm)"
  unfolding handlers_def list.pred_inject prod.case
  by (intro conjI TrueI; simp add: handler_defs branch_ks_def)

lemma fused_words:
  assumes "IS_FUSED_BR op"
  shows "operand_words ! op = (if op < BEQW3 then 2 else 3)"
proof -
  have "list_all (\<lambda>op. operand_words ! op = (if op < BEQW3 then 2 else 3)) [BEQ3 ..< Suc BUGEW3]"
    by (simp add: upt_rec operand_words_def)
  then show ?thesis using fused_ops [OF assms] unfolding list_all_iff by blast
qed

text \<open>Jumps and fused branches run their handlers; any other instruction is a fault.\<close>

definition branch_code :: "host_ranges \<Rightarrow> committer \<Rightarrow> opaque" where
  "branch_code hl cm text i vm =
     (case (if i_op i = JMP then Some op_JMP_fn
            else if IS_FUSED_BR (i_op i) \<and> branch_regs_ok text i
            then op_table hl cm (i_op i) else None) of
        None \<Rightarrow> Inl (Not_Modelled, vm)
      | Some h \<Rightarrow> with_text text h (vm\<lparr>pc := i_pc i + 1\<rparr>))"

lemma branch_text:
  assumes "branch_ok ks n h" "\<forall>k < n. t' (pc vm + of_nat k) = t (pc vm + of_nat k)"
  shows "with_text t' h vm = with_text t h vm"
proof -
  have "with_text t' h (vm\<lparr>text_seg := t\<rparr>) = h (vm\<lparr>text_seg := t\<rparr>)"
    using assms(1) [unfolded branch_ok_def, THEN conjunct1, rule_format, of t' "vm\<lparr>text_seg := t\<rparr>"] assms(2) by simp
  moreover have "with_text t' h vm =
      map_sum (\<lambda>(e, w). (e, w\<lparr>text_seg := text_seg vm\<rparr>)) (\<lambda>w. w\<lparr>text_seg := text_seg vm\<rparr>) (with_text t' h (vm\<lparr>text_seg := t\<rparr>))"
    by (cases "h (vm\<lparr>text_seg := t'\<rparr>)") (auto simp: with_text_def)
  ultimately show ?thesis by (simp add: with_text_def)
qed

lemma branch_agree:
  assumes "branch_ok ks n h" "agree L v v'"
    and "\<forall>k \<in> set ks. opnd_byte (t (pc v)) k \<in> L"
  shows "agree_step L (with_text t h v) (with_text t h v')"
proof -
  have a: "agree L (v\<lparr>text_seg := t\<rparr>) (v'\<lparr>text_seg := t\<rparr>)" by (rule agree_text [OF assms(2)])
  then have v': "v'\<lparr>text_seg := t\<rparr> = (v\<lparr>text_seg := t\<rparr>)\<lparr>regs := regs v'\<rparr>" by (simp add: agree_def)
  have "agree_step L (h (v\<lparr>text_seg := t\<rparr>)) (h (v'\<lparr>text_seg := t\<rparr>))"
    unfolding v'
    by (rule assms(1) [unfolded branch_ok_def, THEN conjunct2, rule_format]) (use assms(2,3) in \<open>auto simp: agree_def\<close>)
  moreover have "text_seg v' = text_seg v" using assms(2) by (cases v, cases v') (auto simp: agree_def)
  ultimately show ?thesis by (rule agree_step_text)
qed

lemma branch_code_cases:
  obtains (fault) "\<And>vm. branch_code hl cm text i vm = Inl (Not_Modelled, vm)" "i_op i \<noteq> JMP"
      "\<not> (IS_FUSED_BR (i_op i) \<and> branch_regs_ok text i \<and> op_table hl cm (i_op i) \<noteq> None)"
  | (jump) "i_op i = JMP" "\<And>vm. branch_code hl cm text i vm = with_text text op_JMP_fn (vm\<lparr>pc := i_pc i + 1\<rparr>)"
  | (branch) h where "IS_FUSED_BR (i_op i)" "branch_regs_ok text i"
      "op_table hl cm (i_op i) = Some h" "\<And>vm. branch_code hl cm text i vm = with_text text h (vm\<lparr>pc := i_pc i + 1\<rparr>)"
      "branch_ok (branch_ks (i_op i)) (operand_words ! i_op i) h" "i_op i \<noteq> JMP"
proof (cases "i_op i = JMP")
  case True
  then show ?thesis by (intro jump) (simp_all add: branch_code_def)
next
  case False
  let ?c = "IS_FUSED_BR (i_op i) \<and> branch_regs_ok text i"
  show ?thesis
  proof (cases "?c \<and> op_table hl cm (i_op i) \<noteq> None")
    case True
    then obtain h where h: "op_table hl cm (i_op i) = Some h" by blast
    have "(i_op i, h) \<in> set (handlers hl cm)" using h unfolding op_table_def by (rule map_of_SomeD)
    from bspec [OF handlers_branch [unfolded list_all_iff] this]
    have "branch_ok (branch_ks (i_op i)) (operand_words ! i_op i) h"
      using True fused_words [of "i_op i"] by (simp add: IS_FUSED_BR_def)
    moreover have "branch_code hl cm text i vm = with_text text h (vm\<lparr>pc := i_pc i + 1\<rparr>)" for vm
      using True False h by (simp add: branch_code_def)
    ultimately show ?thesis using True False h by (intro branch) auto
  next
    case f: False
    then have n: "(if ?c then op_table hl cm (i_op i) else None) = None" by auto
    have "branch_code hl cm text i vm = Inl (Not_Modelled, vm)" for vm
      unfolding branch_code_def if_not_P [OF False] n by simp
    then show ?thesis using False f by (intro fault) auto
  qed
qed

lemma fused_live:
  assumes "IS_FUSED_BR (i_op i)" "i_op i \<noteq> JMP" "\<not> is_jz (i_op i)" "branch_regs_ok text i"
    "k \<in> set (branch_ks (i_op i))"
  shows "get_byte text i k \<in> live_regs (fst (step_back text i (L, F)))"
  using assms by (auto simp: branch_regs_ok_def branch_ks_def live_regs_def step_back_def effects_def Let_def is_jz_def bit_or_iff bit_and_iff bit_not_iff bit_BIT
      split: if_split_asm)

lemma step_back_ge: "idef (effects text i) = 0 \<Longrightarrow> live_regs L \<subseteq> live_regs (fst (step_back text i (L, F)))"
  by (auto simp: live_regs_def step_back_def Let_def bit_or_iff)

lemma branch_code_opaque: "opaque_code (branch_code hl cm) hl cm"
proof
  fix i "text" L F vm vm'
  assume u: "\<not> known i" "\<not> is_jz (i_op i)" "insn_ok hl cm text i" and a: "agree (live_regs (fst (step_back text i (L, F)))) vm vm'"
  have pc: "agree (live_regs (fst (step_back text i (L, F)))) (vm\<lparr>pc := p\<rparr>) (vm'\<lparr>pc := p\<rparr>)" for p
    using a by (cases vm, cases vm') (auto simp: agree_def)
  show "agree_step (live_regs L) (branch_code hl cm text i vm) (branch_code hl cm text i vm')"
  proof (cases rule: branch_code_cases [of hl cm "text" i])
    case fault
    then show ?thesis by simp
  next
    case jump
    have "live_regs L \<subseteq> live_regs (fst (step_back text i (L, F)))" by (rule step_back_ge) (simp add: effects_def jump(1) no_eff_def)
    then show ?thesis unfolding jump(2)
      by (rule agree_step_mono [OF branch_agree [OF branch_ok_skeletons(4) pc], rotated]) simp
  next
    case (branch h)
    have "live_regs L \<subseteq> live_regs (fst (step_back text i (L, F)))"
      using branch(1,6) u(2) by (intro step_back_ge) (simp add: effects_def Let_def is_jz_def no_eff_def)
    moreover have "agree_step (live_regs (fst (step_back text i (L, F)))) (branch_code hl cm text i vm) (branch_code hl cm text i vm')"
      unfolding branch(4)
    proof (rule branch_agree [OF branch(5) pc], rule ballI)
      fix k assume "k \<in> set (branch_ks (i_op i))"
      from fused_live [OF branch(1,6) u(2) branch(2) this]
      show "opnd_byte (text (pc (vm\<lparr>pc := i_pc i + 1\<rparr>))) k \<in> live_regs (fst (step_back text i (L, F)))"
        by (simp add: get_byte_def operand_def)
    qed
    ultimately show ?thesis using agree_step_mono by blast
  qed
next
  fix i "text" text' vm
  assume u: "\<not> known i" "\<not> is_jz (i_op i)" "same_words text text' i" "insn_ok hl cm text i"
  have w: "text' (i_pc i + 1 + of_nat k) = text (i_pc i + 1 + of_nat k)" if "k < operand_words ! i_op i" for k
    using u(3) [unfolded same_words_def, rule_format, of "Suc k"] that u(4) by (simp add: insn_ok_def add.assoc)
  have b: "get_byte text' i k = get_byte text i k" if "1 \<le> operand_words ! i_op i" for k
    using same_operand(2) [OF u(3)] u(4) that by (simp add: insn_ok_def)
  show "branch_code hl cm text' i vm = branch_code hl cm text i vm"
  proof (cases rule: branch_code_cases [of hl cm "text" i])
    case fault
    let ?c = "IS_FUSED_BR (i_op i) \<and> branch_regs_ok text' i"
    have "\<not> (?c \<and> op_table hl cm (i_op i) \<noteq> None)"
    proof
      assume c: "?c \<and> op_table hl cm (i_op i) \<noteq> None"
      then have "branch_regs_ok text i" using b fused_op_words by (auto simp: branch_regs_ok_def)
      then show False using c fault(3) by blast
    qed
    then have n: "(if ?c then op_table hl cm (i_op i) else None) = None" by auto
    show ?thesis unfolding fault(1) unfolding branch_code_def if_not_P [OF fault(2)] n by simp
  next
    case jump
    have "branch_code hl cm text' i vm = with_text text' op_JMP_fn (vm\<lparr>pc := i_pc i + 1\<rparr>)" by (simp add: branch_code_def jump(1))
    also have "\<dots> = with_text text op_JMP_fn (vm\<lparr>pc := i_pc i + 1\<rparr>)"
      by (rule branch_text [OF branch_ok_skeletons(4)]) (use w [of 0] jump(1) in \<open>simp add: operand_words_def\<close>)
    finally show ?thesis by (simp add: jump(2))
  next
    case (branch h)
    have "branch_code hl cm text' i vm = with_text text' h (vm\<lparr>pc := i_pc i + 1\<rparr>)"
      using branch b fused_op_words [OF branch(1)] by (simp add: branch_code_def branch_regs_ok_def)
    also have "\<dots> = with_text text h (vm\<lparr>pc := i_pc i + 1\<rparr>)"
      by (rule branch_text [OF branch(5)]) (use w in simp)
    finally show ?thesis by (simp add: branch(4))
  qed
next
  fix i "text" vm w
  assume "\<not> known i" "falls_through i" "branch_code hl cm text i vm = Inr w"
  then show "pc w = i_pc i + of_nat (i_size i)"
    by (cases rule: branch_code_cases [of hl cm "text" i]) (auto simp: falls_through_def)
qed

interpretation branches: opaque_code "branch_code hl cm" hl cm for hl cm
  by (rule branch_code_opaque)

subsection \<open>Properties\<close>

text \<open>
  C8: The backward pass keeps what a block computes. Take a decoded block whose notes from
  the forward pass hold in the run from a machine. The rewritten block run from the same machine ends in
  the same fault, or leaves at the same place a machine with the same memory and stack and the same
  value in every register live after the block; and it is again a block of well-formed instructions.
  Removed definitions, retargeted copies, merged constants and dropped extensions are all covered, and
  calls and other code the optimiser does not understand may stand anywhere in the block.
\<close>

theorem backward_block_preserves:
  assumes "opaque_code opq hl cm" "block_ok hl cm text is" "notes_ok opq hl cm text is vm" "settled text (rev is)"
    and "backward_block text is (L, F) = (text', is', ch)"
  shows "block_ok hl cm text' is' \<and>
    agree_step (live_regs L) (run_insns opq hl cm stop text is vm) (run_insns opq hl cm stop text' is' vm)"
  using opaque_code.backward_block_ok [OF assms] agree_reach_run by blast

text \<open>A constant loaded into register 11 and added to register 12; only the sum is live.\<close>

definition fold_text :: "u32 \<Rightarrow> u32" where
  "fold_text = (\<lambda>_. 0)(0 := of_nat LI3, 1 := ENCODE_R 11, 2 := 5, 4 := of_nat ADD3, 5 := ENCODE_RRR 10 12 11)"

definition fold_block :: "insn list" where
  "fold_block = [decode_insn fold_text 0 4, decode_insn fold_text 4 2]"

lemma fold_insns:
  "get_byte fold_text (decode_insn fold_text 0 4) 0 = 11"
  "get_byte fold_text (decode_insn fold_text 4 2) 0 = 10" "get_byte fold_text (decode_insn fold_text 4 2) (Suc 0) = 12"
  "get_byte fold_text (decode_insn fold_text 4 2) 2 = 11"
  using opnd_byte_ENCODE_RRR [of 10 12 11] opnd_byte_of_nat [of 11]
  by (simp_all add: get_byte_def operand_def decode_insn_def Let_def fold_text_def ENCODE_R_def)

lemma fold_specs:
  "op_spec LI3 = Some (SPEC R_ID R_NO R_NO R_NO True False)" "op_spec ADD3 = Some (SPEC R_ID R_IU R_IU R_NO True False)"
  by (simp_all add: op_spec_def)

lemma fold_fields:
  "known (decode_insn fold_text 0 4)" "i_op (decode_insn fold_text 0 4) = LI3" "i_pc (decode_insn fold_text 0 4) = 0"
  "i_size (decode_insn fold_text 0 4) = 4" "\<not> dead (decode_insn fold_text 0 4)" "fold_v (decode_insn fold_text 0 4) = None"
  "spec (decode_insn fold_text 0 4) = SPEC R_ID R_NO R_NO R_NO True False"
  "known (decode_insn fold_text 4 2)" "i_op (decode_insn fold_text 4 2) = ADD3" "i_pc (decode_insn fold_text 4 2) = 4"
  "i_size (decode_insn fold_text 4 2) = 2" "\<not> dead (decode_insn fold_text 4 2)" "fold_v (decode_insn fold_text 4 2) = None"
  "spec (decode_insn fold_text 4 2) = SPEC R_ID R_IU R_IU R_NO True False"
  using fold_insns fold_specs by (simp_all add: decode_insn_def Let_def fold_text_def get_byte_def operand_def)

theorem backward_block_preserves_witness:
  "\<exists>text' is' ch. backward_block fold_text fold_block (BIT 10, 0) = (text', is', ch) \<and>
     agree_step (live_regs (BIT 10)) (run_insns (branch_code (\<lambda>_ _. 0) (\<lambda>_ _ _. True)) (\<lambda>_ _. 0) (\<lambda>_ _ _. True) 6 fold_text fold_block addi_vm)
       (run_insns (branch_code (\<lambda>_ _. 0) (\<lambda>_ _ _. True)) (\<lambda>_ _. 0) (\<lambda>_ _ _. True) 6 text' is' addi_vm)"
proof -
  let ?hl = "\<lambda>_ _. 0 :: u64" and ?cm = "\<lambda>_ _ _. True"
  have b: "block_ok ?hl ?cm fold_text fold_block"
    by (simp add: fold_block_def block_ok_def layout_def before_def fold_fields insn_ok_def insn_wf_def fold_specs role_less4
        fold_insns imm_ok_def is_jz_def op_table_alu falls_through_def operand_words_def)
  have n: "notes_ok (branch_code ?hl ?cm) ?hl ?cm fold_text fold_block addi_vm"
    by (simp add: fold_block_def fold_fields note_ok_def ext_needed_def split: sum.split)
  have st: "settled fold_text (rev fold_block)"
    by (simp add: fold_block_def fold_fields clash_def fold_insns)
  obtain text' is' ch where "backward_block fold_text fold_block (BIT 10, 0) = (text', is', ch)" by (metis prod_cases3)
  with backward_block_preserves [OF branch_code_opaque b n st this] show ?thesis by blast
qed

end
