(* ===== verification/Peep_Pairs.thy ===== *)
theory Peep_Pairs
  imports Peep_Backward
begin

text \<open>
  The walks that fuse two neighbouring instructions into one (\<open>src/src/codegen_peep.c\<close>, lines 2360 to 2470):
  a wrap into the operation before it, two shifts or a shift and a mask into a bit-field extract. Both
  walks have one shape, so their soundness is proved once, in a locale for the fusing function.
\<close>

subsection \<open>The walk\<close>

record pairs =
  pr_text :: text_words
  pr_after :: "insn list"
  pr_il :: u32
  pr_fl :: u32
  pr_next :: u32
  pr_changed :: bool

text \<open>What fusing \<open>i\<close> with the next live instruction gives, from the registers live after that one.\<close>

type_synonym fuser = "text_words \<Rightarrow> insn \<Rightarrow> insn \<Rightarrow> u32 \<Rightarrow> (text_words \<times> insn) option"

fun kill_first :: "insn list \<Rightarrow> insn list" where
  "kill_first [] = []"
| "kill_first (i # is) = (if dead i then i # kill_first is else i\<lparr>dead := True\<rparr> # is)"

definition try_pair :: "fuser \<Rightarrow> insn \<Rightarrow> pairs \<Rightarrow> insn \<times> pairs" where
  "try_pair f i s =
     (case find (\<lambda>j. \<not> dead j) (pr_after s) of
        None \<Rightarrow> (i, s)
      | Some next \<Rightarrow>
          (case f (pr_text s) i next (pr_next s) of
             None \<Rightarrow> (i, s)
           | Some (text1, i1) \<Rightarrow>
               (i1, s\<lparr>pr_text := text1, pr_after := kill_first (pr_after s), pr_il := pr_next s, pr_changed := True\<rparr>)))"

definition pair_step :: "fuser \<Rightarrow> insn \<Rightarrow> pairs \<Rightarrow> pairs" where
  "pair_step f i s =
     (if dead i then s\<lparr>pr_after := i # pr_after s\<rparr>
      else let (i1, s1) = try_pair f i s;
               (il, fl) = step_back (pr_text s1) i1 (pr_il s1, pr_fl s1)
        in s1\<lparr>pr_after := i1 # pr_after s1, pr_next := pr_il s1, pr_il := il, pr_fl := fl\<rparr>)"

definition fuse_pairs :: "fuser \<Rightarrow> text_words \<Rightarrow> insn list \<Rightarrow> u32 \<times> u32 \<Rightarrow> text_words \<times> insn list \<times> bool" where
  "fuse_pairs f text is out =
     (let s = foldr (pair_step f) is \<lparr>pr_text = text, pr_after = [], pr_il = fst out, pr_fl = snd out, pr_next = 0, pr_changed = False\<rparr>
      in (pr_text s, pr_after s, pr_changed s))"

subsection \<open>The two fusions\<close>

definition fuse_wrap :: fuser where
  "fuse_wrap text i next after_ext =
     (if known i \<and> known next \<and> (i_op next = SX4 \<or> i_op next = ZX4)
      then case wrapped_op (i_op i) (i_op next) of
             None \<Rightarrow> None
           | Some fused \<Rightarrow>
               let t = get_byte text i 0; d = get_byte text next 0
               in if t \<noteq> REG_ZERO \<and> d \<noteq> REG_ZERO \<and> get_byte text next 1 = t \<and> (d = t \<or> after_ext AND BIT t = 0)
                  then let text1 = set_byte text i 0 d;
                           text2 = (if i_op i = NEG3
                                    then set_byte (set_byte text1 i 2 (get_byte text1 i 1)) i 1 REG_ZERO
                                    else text1)
                       in Some (text2(i_pc i := of_nat fused),
                            i\<lparr>i_op := fused, spec := (case op_spec fused of None \<Rightarrow> spec i | Some s \<Rightarrow> s)\<rparr>)
                  else None
      else None)"

definition fuse_bitfield :: fuser where
  "fuse_bitfield text i next after_next =
     (if known i \<and> known next \<and> i_size i = 4 \<and> i_size next = 4
      then case bfx_form (i_op i) (i_op next) (insn_imm text i) (insn_imm text next) of
             None \<Rightarrow> None
           | Some (op, off, w) \<Rightarrow>
               let t = get_byte text i 0; d = get_byte text next 0; s = get_byte text i 1
               in if t \<noteq> REG_ZERO \<and> d \<noteq> REG_ZERO \<and> get_byte text next 1 = t \<and> (d = t \<or> after_next AND BIT t = 0)
                  then Some (text(i_pc i := of_nat op, i_pc i + 1 := ENCODE_BF d s off w),
                         i\<lparr>i_op := op, i_size := 2, spec := (case op_spec op of None \<Rightarrow> spec i | Some s \<Rightarrow> s)\<rparr>)
                  else None
      else None)"

definition fuse_block_wraps :: "text_words \<Rightarrow> insn list \<Rightarrow> u32 \<times> u32 \<Rightarrow> text_words \<times> insn list \<times> bool" where
  "fuse_block_wraps = fuse_pairs fuse_wrap"

definition fuse_block_bitfields :: "text_words \<Rightarrow> insn list \<Rightarrow> u32 \<times> u32 \<Rightarrow> text_words \<times> insn list \<times> bool" where
  "fuse_block_bitfields = fuse_pairs fuse_bitfield"

subsection \<open>What a fusing function has to keep\<close>

locale pair_fusion =
  fixes f :: fuser and hl :: host_ranges and cm :: committer
  assumes pair_known: "f text i next live = Some (text', i') \<Longrightarrow> known i \<and> known next"
    and pair_insn: "f text i next live = Some (text', i') \<Longrightarrow> insn_ok hl cm text i \<Longrightarrow> insn_ok hl cm text next \<Longrightarrow>
      unat (i_pc i) + i_size i < 2 ^ 32 \<Longrightarrow>
      known i' \<and> dead i' = dead i \<and> insn_ok hl cm text' i' \<and> i_pc i' = i_pc i \<and> i_size i' \<le> i_size i \<and> changed_at i text text'"
    and pair_run: "f text i next live = Some (text', i') \<Longrightarrow> insn_ok hl cm text i \<Longrightarrow> insn_ok hl cm text next \<Longrightarrow>
      unat (i_pc i) + i_size i < 2 ^ 32 \<Longrightarrow> \<not> dead i \<Longrightarrow> \<not> dead next \<Longrightarrow> regs vm 0 = 0 \<Longrightarrow>
      agree_reach (live_regs live) M (reach opq hl cm text [i, next] vm) (reach opq hl cm text' [i'] vm)"

text \<open>A negation becomes a subtraction from the zero register, so that register has to hold zero.\<close>

locale zero_code = opaque_code +
  assumes opaque_zero: "\<not> known i \<Longrightarrow> \<not> is_jz (i_op i) \<Longrightarrow> opq text i vm = Inr w \<Longrightarrow> regs w 0 = regs vm 0"
begin

lemma run_i_zero:
  assumes "insn_ok hl cm text i" "run_i text i vm = Inr w"
  shows "regs w 0 = regs vm 0"
proof -
  consider "known i" | "\<not> known i" "is_jz (i_op i)" | "\<not> known i" "\<not> is_jz (i_op i)" by blast
  then show ?thesis
  proof cases
    case 1
    have "0 \<notin> dest_of text i" using assms(1) 1 by (auto simp: dest_of_def insn_ok_def)
    then show ?thesis using run_known(2) [OF 1 assms(1,2)] by simp
  next
    case 2
    then show ?thesis using assms(2) run_insn_jz [OF 2(2)] by auto
  next
    case 3
    then show ?thesis using opaque_zero [OF 3, of "text"] assms(2) by (fastforce simp: run_insn_def)
  qed
qed

end

locale fusing_code = zero_code opq hl cm + pair_fusion f hl cm
  for opq :: opaque and hl :: host_ranges and cm :: committer and f :: fuser

lemma layout_shrink:
  assumes "layout (xs @ i # ys)" "i_pc j = i_pc i" "i_size j \<le> i_size i"
  shows "layout (xs @ j # ys)"
proof -
  have "before k j = before k i" "before i k \<Longrightarrow> before j k" for k using assms(2,3) by (simp_all add: before_def)
  then show ?thesis using assms by (auto simp: layout_append layout_Cons)
qed

lemma block_ok_shrink:
  assumes "block_ok hl cm text (xs @ i # ys)" "i_pc j = i_pc i" "i_size j \<le> i_size i"
    and "dead j \<or> insn_ok hl cm text' j \<and> (ys \<noteq> [] \<longrightarrow> falls_through j)"
    and "\<forall>k \<in> set xs \<union> set ys. dead k \<or> same_words text text' k"
  shows "block_ok hl cm text' (xs @ j # ys)"
proof -
  have l: "layout (xs @ j # ys)" using layout_shrink assms(1-3) by (auto simp: block_ok_def)
  have "\<forall>k \<in> set xs \<union> set ys. dead k \<or> insn_ok hl cm text' k"
    using assms(1,5) insn_ok_same by (auto simp: block_ok_def) blast+
  moreover have "\<forall>k \<in> set (butlast (xs @ j # ys)). dead k \<or> falls_through k"
    using assms(1,4) by (auto simp: block_ok_def butlast_append)
  ultimately show ?thesis using l assms(4) by (auto simp: block_ok_def)
qed

lemma step_back_fst: "fst (step_back text i (il, fl)) = fst (step_back text i (il, fl'))"
  by (simp add: step_back_def Let_def)

lemma kill_first_split:
  assumes "find (\<lambda>j. \<not> dead j) as = Some next"
  obtains ds rest where "as = ds @ next # rest" "\<forall>d \<in> set ds. dead d" "\<not> dead next"
    "kill_first as = ds @ next\<lparr>dead := True\<rparr> # rest"
proof -
  have "\<exists>ds rest. as = ds @ next # rest \<and> (\<forall>d \<in> set ds. dead d) \<and> \<not> dead next \<and>
      kill_first as = ds @ next\<lparr>dead := True\<rparr> # rest"
    using assms
  proof (induction as)
    case (Cons a as)
    show ?case
    proof (cases "dead a")
      case True
      then obtain ds rest where "as = ds @ next # rest" "\<forall>d \<in> set ds. dead d" "\<not> dead next"
        "kill_first as = ds @ next\<lparr>dead := True\<rparr> # rest" using Cons by auto
      then have "a # as = (a # ds) @ next # rest \<and> (\<forall>d \<in> set (a # ds). dead d) \<and> \<not> dead next \<and>
          kill_first (a # as) = (a # ds) @ next\<lparr>dead := True\<rparr> # rest" using True by simp
      then show ?thesis by blast
    next
      case False
      then have "a # as = [] @ next # as \<and> (\<forall>d \<in> set []. dead d) \<and> \<not> dead next \<and>
          kill_first (a # as) = [] @ next\<lparr>dead := True\<rparr> # as" using Cons.prems by simp
      then show ?thesis by blast
    qed
  qed simp
  then show thesis using that by blast
qed

lemma live_dead: "\<forall>d \<in> set ds. dead d \<Longrightarrow> live_insns text (ds @ is) l = live_insns text is l"
  by (induction ds) (auto simp: live_insns_Cons)

lemma reach_dead: "\<forall>d \<in> set ds. dead d \<Longrightarrow> reach opq hl cm text (ds @ is) vm = reach opq hl cm text is vm"
  by (induction ds) auto

text \<open>The state of the walk after the instructions \<open>is\<close> of a block with text \<open>t0\<close>.\<close>

definition pairs_inv :: "opaque \<Rightarrow> host_ranges \<Rightarrow> committer \<Rightarrow> u32 \<Rightarrow> u32 \<Rightarrow> text_words \<Rightarrow> insn list \<Rightarrow> pairs \<Rightarrow> bool" where
  "pairs_inv opq hl cm L F t0 is s \<longleftrightarrow>
     block_ok hl cm (pr_text s) (pr_after s) \<and> (pr_after s = []) = (is = []) \<and>
     fst (live_insns (pr_text s) (pr_after s) (L, F)) = pr_il s \<and>
     (\<forall>ds next rest. pr_after s = ds @ next # rest \<longrightarrow> (\<forall>d \<in> set ds. dead d) \<longrightarrow> \<not> dead next \<longrightarrow>
        pr_next s = fst (live_insns (pr_text s) rest (L, F))) \<and>
     (\<forall>k. (\<forall>j \<in> set is. before k j) \<longrightarrow> (\<forall>j \<in> set (pr_after s). before k j) \<and>
        (unat (i_pc k) + i_size k < 2 ^ 32 \<longrightarrow> same_words t0 (pr_text s) k)) \<and>
     (\<forall>vm. regs vm 0 = 0 \<longrightarrow> agree_reach (live_regs L) (live_regs L) (reach opq hl cm t0 is vm) (reach opq hl cm (pr_text s) (pr_after s) vm))"

lemma pairs_invI:
  assumes "block_ok hl cm t1 as" "(as = []) = (is = [])" "fst (live_insns t1 as (L, F)) = il"
    and "\<And>ds next rest. as = ds @ next # rest \<Longrightarrow> \<forall>d \<in> set ds. dead d \<Longrightarrow> \<not> dead next \<Longrightarrow> nx = fst (live_insns t1 rest (L, F))"
    and "\<And>k. \<forall>j \<in> set is. before k j \<Longrightarrow> (\<forall>j \<in> set as. before k j) \<and> (unat (i_pc k) + i_size k < 2 ^ 32 \<longrightarrow> same_words t0 t1 k)"
    and "\<And>vm. regs vm 0 = 0 \<Longrightarrow> agree_reach (live_regs L) (live_regs L) (reach opq hl cm t0 is vm) (reach opq hl cm t1 as vm)"
  shows "pairs_inv opq hl cm L F t0 is \<lparr>pr_text = t1, pr_after = as, pr_il = il, pr_fl = fl, pr_next = nx, pr_changed = ch\<rparr>"
  unfolding pairs_inv_def pairs.simps using assms by blast

context fusing_code
begin

lemma go_Cons_agree:
  assumes "insn_ok hl cm t0 i" "same_words t0 t1 i" "\<not> dead i"
    and "\<And>w. regs w 0 = 0 \<Longrightarrow> agree_reach K L (go t0 is w) (go t1 is' w)" "regs vm 0 = 0"
  shows "agree_reach K L (go t0 (i # is) vm) (go t1 (i # is') vm)"
  using assms(3-5) run_i_same [OF assms(2,1)] run_i_zero [OF assms(1)] by (simp split: sum.split)

text \<open>One fusion in a block that starts with the pair.\<close>

lemma fuse_head:
  assumes "block_ok hl cm t (i # ds @ next # rest)" "\<not> dead i" "\<not> dead next" "\<forall>d \<in> set ds. dead d"
    and "f t i next (fst (live_insns t rest (L, F))) = Some (t', i')"
  shows "block_ok hl cm t' (i' # ds @ next\<lparr>dead := True\<rparr> # rest)"
    and "known i'" "\<not> dead i'" "changed_at i t t'" "i_pc i' = i_pc i"
    and "live_insns t' rest (L, F) = live_insns t rest (L, F)"
    and "regs vm 0 = 0 \<Longrightarrow>
      agree_reach (live_regs L) (live_regs L) (go t (i # ds @ next # rest) vm) (go t' (i' # ds @ next\<lparr>dead := True\<rparr> # rest) vm)"
proof -
  have ok: "insn_ok hl cm t i" "insn_ok hl cm t next" "unat (i_pc i) + i_size i < 2 ^ 32"
    using assms(1-3) by (auto simp: block_ok_def layout_Cons)
  note I = pair_insn [OF assms(5) ok]
  show k: "known i'" "\<not> dead i'" and ch: "changed_at i t t'" and "i_pc i' = i_pc i" using I assms(2) by auto
  have sz: "0 < i_size i" using ok(1) by (simp add: insn_ok_def)
  have same: "same_words t t' k" if "k \<in> set (ds @ next # rest)" for k
    using words_of_others [of hl cm t "[]" i "ds @ next # rest" t' k] assms(1) ch sz that by simp
  have "block_ok hl cm t' ([] @ i' # (ds @ next # rest))"
    by (rule block_ok_shrink [of hl cm t "[]" i]) (use assms(1) I same known_falls [OF k(1)] in auto)
  then have "block_ok hl cm t' ((i' # ds) @ next # rest)" by simp
  then show "block_ok hl cm t' (i' # ds @ next\<lparr>dead := True\<rparr> # rest)"
    using block_ok_shrink [of hl cm t' "i' # ds" "next" rest "next\<lparr>dead := True\<rparr>" t'] by simp
  have post: "block_ok hl cm t rest" using block_ok_part [of hl cm t "i # ds @ [next]" rest] assms(1) by simp
  have okr: "\<forall>k \<in> set rest. dead k \<or> insn_ok hl cm t k \<and> same_words t t' k"
    using post same by (auto simp: block_ok_def)
  show "live_insns t' rest (L, F) = live_insns t rest (L, F)" by (rule live_insns_same [OF okr])
  assume z: "regs vm 0 = 0"
  have "agree_reach (live_regs L) (live_regs L) (go t ([] @ (i # ds @ [next]) @ rest) vm)
      (go t' ([] @ (i' # ds @ [next\<lparr>dead := True\<rparr>]) @ rest) vm)"
  proof (rule go_replace [OF _ okr post])
    fix w assume "go t [] vm = Inr w"
    then have w: "regs w 0 = 0" using z by simp
    have "go t (ds @ [next]) = go t [next]" "go t' (ds @ [next\<lparr>dead := True\<rparr>]) = go t' []"
      using reach_dead [OF assms(4)] by (auto simp: fun_eq_iff)
    then have "go t (i # ds @ [next]) w = go t [i, next] w" "go t' (i' # ds @ [next\<lparr>dead := True\<rparr>]) w = go t' [i'] w"
      by (simp_all only: reach.simps)
    then show "agree_reach (live_regs (fst (live_insns t rest (L, F)))) (live_regs L)
        (go t (i # ds @ [next]) w) (go t' (i' # ds @ [next\<lparr>dead := True\<rparr>]) w)"
      using pair_run [OF assms(5) ok assms(2,3) w] by simp
  qed simp
  then show "agree_reach (live_regs L) (live_regs L) (go t (i # ds @ next # rest) vm)
      (go t' (i' # ds @ next\<lparr>dead := True\<rparr> # rest) vm)" by simp
qed


lemma pair_step_inv:
  assumes "pairs_inv opq hl cm L F t0 is s" "block_ok hl cm t0 (i # is)"
  shows "pairs_inv opq hl cm L F t0 (i # is) (pair_step f i s)"
proof -
  let ?t = "pr_text s" and ?as = "pr_after s"
  have I: "block_ok hl cm ?t ?as" "(?as = []) = (is = [])" "fst (live_insns ?t ?as (L, F)) = pr_il s"
    "\<And>ds next rest. ?as = ds @ next # rest \<Longrightarrow> \<forall>d \<in> set ds. dead d \<Longrightarrow> \<not> dead next \<Longrightarrow>
       pr_next s = fst (live_insns ?t rest (L, F))"
    "\<And>k. \<forall>j \<in> set is. before k j \<Longrightarrow> (\<forall>j \<in> set ?as. before k j) \<and> (unat (i_pc k) + i_size k < 2 ^ 32 \<longrightarrow> same_words t0 ?t k)"
    "\<And>vm. regs vm 0 = 0 \<Longrightarrow> agree_reach (live_regs L) (live_regs L) (go t0 is vm) (go ?t ?as vm)"
    using assms(1) unfolding pairs_inv_def by blast+
  have B: "\<forall>j \<in> set is. before i j" "unat (i_pc i) + i_size i < 2 ^ 32"
    "dead i \<or> insn_ok hl cm t0 i \<and> (is \<noteq> [] \<longrightarrow> falls_through i)"
    using assms(2) by (auto simp: block_ok_Cons)
  have bi: "\<forall>j \<in> set ?as. before i j" and wi: "same_words t0 ?t i" using I(5) [OF B(1)] B(2) by blast+
  have bk: "(\<forall>j \<in> set (i # ?as). before k j) \<and> (unat (i_pc k) + i_size k < 2 ^ 32 \<longrightarrow> same_words t0 ?t k)"
    if "\<forall>j \<in> set (i # is). before k j" for k using that I(5) [of k] by auto
  show ?thesis
  proof (cases "dead i")
    case True
    have "pr_next s = fst (live_insns ?t rest (L, F))"
      if "i # ?as = ds @ next # rest" "\<forall>d \<in> set ds. dead d" "\<not> dead next" for ds "next" rest
      using that I(4) [of "tl ds" "next" rest] True by (cases ds) auto
    note nx = this
    have st: "pair_step f i s = \<lparr>pr_text = ?t, pr_after = i # ?as, pr_il = pr_il s, pr_fl = pr_fl s, pr_next = pr_next s,
        pr_changed = pr_changed s\<rparr>"
      using True by (cases s) (simp add: pair_step_def)
    show ?thesis unfolding st
    proof (rule pairs_invI [OF _ _ _ nx bk])
      show "block_ok hl cm ?t (i # ?as)" using I(1) B(2) bi True by (simp add: block_ok_Cons)
      show "fst (live_insns ?t (i # ?as) (L, F)) = pr_il s" using I(3) True by (simp add: live_insns_Cons)
      show "agree_reach (live_regs L) (live_regs L) (go t0 (i # is) vm) (go ?t (i # ?as) vm)" if "regs vm 0 = 0" for vm
        using I(6) [OF that] True by simp
    qed simp_all
  next
    case False
    have oki: "insn_ok hl cm ?t i" and fi: "?as \<noteq> [] \<longrightarrow> falls_through i"
      using B(3) False I(2) insn_ok_same [OF wi] by auto
    have blk: "block_ok hl cm ?t (i # ?as)" using I(1) bi B(2) oki fi by (simp add: block_ok_Cons)
    have head: "agree_reach (live_regs L) (live_regs L) (go t0 (i # is) vm) (go ?t (i # ?as) vm)" if "regs vm 0 = 0" for vm
      by (rule go_Cons_agree [OF _ wi False I(6) that]) (use B(3) False in simp_all)
    show ?thesis
    proof (cases "\<exists>next text1 i1. find (\<lambda>j. \<not> dead j) ?as = Some next \<and> f ?t i next (pr_next s) = Some (text1, i1)")
      case f: False
      then have "try_pair f i s = (i, s)" by (auto simp: try_pair_def split: option.split)
      then have st: "pair_step f i s = \<lparr>pr_text = ?t, pr_after = i # ?as, pr_il = fst (step_back ?t i (pr_il s, pr_fl s)),
          pr_fl = snd (step_back ?t i (pr_il s, pr_fl s)), pr_next = pr_il s, pr_changed = pr_changed s\<rparr>"
        using False by (cases s) (simp add: pair_step_def split: prod.split)
      obtain fl where fl: "live_insns ?t ?as (L, F) = (pr_il s, fl)" using I(3) by (metis prod.collapse)
      show ?thesis unfolding st
      proof (rule pairs_invI [OF blk _ _ _ bk head])
        show "fst (live_insns ?t (i # ?as) (L, F)) = fst (step_back ?t i (pr_il s, pr_fl s))"
          using False fl by (simp add: live_insns_Cons) (rule step_back_fst)
        fix ds "next" rest
        assume h: "i # ?as = ds @ next # rest" "\<forall>d \<in> set ds. dead d" "\<not> dead next"
        then have "rest = ?as" using False by (cases ds) auto
        then show "pr_il s = fst (live_insns ?t rest (L, F))" by (simp add: I(3))
      qed simp_all
    next
      case t: True
      then obtain "next" t1 i1 where n: "find (\<lambda>j. \<not> dead j) ?as = Some next" "f ?t i next (pr_next s) = Some (t1, i1)" by blast
      obtain ds rest where S: "?as = ds @ next # rest" "\<forall>d \<in> set ds. dead d" "\<not> dead next"
        "kill_first ?as = ds @ next\<lparr>dead := True\<rparr> # rest" using kill_first_split [OF n(1)] .
      have pn: "pr_next s = fst (live_insns ?t rest (L, F))" by (rule I(4) [OF S(1-3)])
      let ?as1 = "ds @ next\<lparr>dead := True\<rparr> # rest"
      note H = fuse_head [OF blk [unfolded S(1)] False S(3,2) n(2) [unfolded pn]]
      have st: "pair_step f i s = \<lparr>pr_text = t1, pr_after = i1 # ?as1, pr_il = fst (step_back t1 i1 (pr_next s, pr_fl s)),
          pr_fl = snd (step_back t1 i1 (pr_next s, pr_fl s)), pr_next = pr_next s, pr_changed = True\<rparr>"
        using False n S(4) by (cases s) (simp add: pair_step_def try_pair_def split: prod.split)
      obtain fl where fl: "live_insns t1 ?as1 (L, F) = (pr_next s, fl)"
        using H(6) pn live_dead [OF S(2)] by (simp add: live_insns_Cons) (metis prod.collapse)
      show ?thesis unfolding st
      proof (rule pairs_invI [OF H(1)])
        show "fst (live_insns t1 (i1 # ?as1) (L, F)) = fst (step_back t1 i1 (pr_next s, pr_fl s))"
          using H(3) fl by (simp add: live_insns_Cons) (rule step_back_fst)
        show "agree_reach (live_regs L) (live_regs L) (go t0 (i # is) vm) (go t1 (i1 # ?as1) vm)" if "regs vm 0 = 0" for vm
          by (rule agree_reach_trans [OF head [unfolded S(1), OF that] H(7) [OF that]])
        show "pr_next s = fst (live_insns t1 rest' (L, F))"
          if h: "i1 # ?as1 = ds' @ next' # rest'" "\<forall>d \<in> set ds'. dead d" "\<not> dead next'" for ds' next' rest'
        proof -
          have "rest' = ?as1" using h H(3) by (cases ds') auto
          then show ?thesis by (simp add: fl)
        qed
        show "(\<forall>j \<in> set (i1 # ?as1). before k j) \<and> (unat (i_pc k) + i_size k < 2 ^ 32 \<longrightarrow> same_words t0 t1 k)"
          if h: "\<forall>j \<in> set (i # is). before k j" for k
        proof -
          have k: "\<forall>j \<in> set (i # ?as). before k j" "unat (i_pc k) + i_size k < 2 ^ 32 \<longrightarrow> same_words t0 ?t k"
            using bk [OF h] by blast+
          have "same_words ?t t1 k" if "unat (i_pc k) + i_size k < 2 ^ 32"
            by (rule changed_before [OF _ H(4) that]) (use k(1) oki in \<open>auto simp: insn_ok_def\<close>)
          then show ?thesis using k same_words_trans H(5) by (auto simp: S(1) before_def)
        qed
      qed simp
    qed
  qed
qed

theorem fuse_pairs_ok:
  assumes "block_ok hl cm text is" "fuse_pairs f text is (L, F) = (text', is', ch)" "regs vm 0 = 0"
  shows "block_ok hl cm text' is' \<and> agree_reach (live_regs L) (live_regs L) (go text is vm) (go text' is' vm)"
proof -
  let ?s0 = "\<lparr>pr_text = text, pr_after = [], pr_il = L, pr_fl = F, pr_next = 0, pr_changed = False\<rparr>"
  have "pairs_inv opq hl cm L F text is (foldr (pair_step f) is ?s0)" using assms(1)
  proof (induction "is")
    case Nil
    then show ?case by (simp add: pairs_inv_def block_ok_def layout_def live_insns_def)
  next
    case (Cons i "is")
    then show ?case using pair_step_inv [OF _ Cons.prems] by (simp add: block_ok_Cons)
  qed
  then show ?thesis using assms(2,3) by (auto simp: fuse_pairs_def pairs_inv_def Let_def)
qed

end

end
