(* ===== verification/Peep_Fusions.thy ===== *)
theory Peep_Fusions
  imports Peep_Pairs
begin

text \<open>
  The two fusing functions meet the contract of \<open>Peep_Pairs\<close>, so fusing a block keeps what it computes.
\<close>

subsection \<open>Two operations as one\<close>

lemma pair_alu:
  assumes i: "known i" "insn_ok hl cm text i" "sp_pure (spec i)" "\<not> dead i" "alu (i_op i) = Some g" "get_byte text i 0 = t"
    and n: "known next" "insn_ok hl cm text next" "sp_pure (spec next)" "\<not> dead next" "alu (i_op next) = Some e"
      "get_byte text next 0 = d"
    and i': "known i'" "insn_ok hl cm text' i'" "sp_pure (spec i')" "\<not> dead i'" "alu (i_op i') = Some g'" "get_byte text' i' 0 = d"
    and live: "d = t \<or> live AND BIT t = 0" "t \<noteq> 0"
    and vals: "\<And>v w w'. insn_value text i (regs vm) g = Inr v \<Longrightarrow> insn_value text next ((regs vm)(t := v)) e = Inr w \<Longrightarrow>
      insn_value text' i' (regs vm) g' = Inr w' \<Longrightarrow> w' = w"
  shows "agree_reach (live_regs live) M (reach opq hl cm text [i, next] vm) (reach opq hl cm text' [i'] vm)"
proof -
  obtain v where v: "run_insn opq hl cm text i vm = Inr (vm\<lparr>pc := i_pc i + of_nat (i_size i), regs := (regs vm)(t := v)\<rparr>)"
    "insn_value text i (regs vm) g = Inr v"
    using run_pure [OF i(1-3)] i(5,6) by metis
  let ?u = "vm\<lparr>pc := i_pc i + of_nat (i_size i), regs := (regs vm)(t := v)\<rparr>"
  obtain w where w: "run_insn opq hl cm text next ?u = Inr (?u\<lparr>pc := i_pc next + of_nat (i_size next), regs := (regs ?u)(d := w)\<rparr>)"
    "insn_value text next (regs ?u) e = Inr w"
    using run_pure [OF n(1-3), of opq ?u] n(5,6) by metis
  obtain w' where w': "run_insn opq hl cm text' i' vm = Inr (vm\<lparr>pc := i_pc i' + of_nat (i_size i'), regs := (regs vm)(d := w')\<rparr>)"
    "insn_value text' i' (regs vm) g' = Inr w'"
    using run_pure [OF i'(1-3)] i'(5,6) by metis
  have "w' = w" using vals [OF v(2)] w(2) w'(2) by simp
  moreover have "t = d \<or> t \<notin> live_regs live" using live by (auto simp: live_regs_def and_BIT)
  ultimately show ?thesis using v(1) w(1) w'(1) i(4) n(4) i'(4) by (auto simp: agree_pc_def agree_def)
qed

subsection \<open>Wraps\<close>

lemma wrapped_form:
  assumes "wrapped_op op x = Some fop"
  shows "op_spec fop = Some (SPEC R_ID R_IU (if op \<in> {ADDI3, MULI3, SHLI3} then R_NO else R_IU) R_NO True False)"
    "op_spec op = Some (SPEC R_ID R_IU (if op \<in> {ADDI3, MULI3, SHLI3, NEG3} then R_NO else R_IU) R_NO True False)"
    "op_table hl cm fop \<noteq> None" "operand_words ! fop = operand_words ! op" "fop \<noteq> LI3" "\<not> is_jz fop"
    "imm_ok op w imm \<Longrightarrow> imm_ok fop w' imm"
proof -
  have c: "op \<in> {ADD3, SUB3, NEG3, MUL3, ADDI3, MULI3, SHLI3}"
    using assms by (auto simp: wrapped_op_def Let_def split: if_split_asm)
  have "(op, fop) \<in> {(ADD3, ADDSX3), (ADD3, ADDZX3), (SUB3, SUBSX3), (SUB3, SUBZX3), (NEG3, SUBSX3), (NEG3, SUBZX3),
      (MUL3, MULSX3), (MUL3, MULZX3), (ADDI3, ADDISX3), (ADDI3, ADDIZX3), (MULI3, MULISX3), (MULI3, MULIZX3),
      (SHLI3, SHLISX3), (SHLI3, SHLIZX3)}"
    using assms c by (elim insertE emptyE) (auto simp: wrapped_op_def Let_def split: if_split_asm)
  note f = this
  show "op_spec fop = Some (SPEC R_ID R_IU (if op \<in> {ADDI3, MULI3, SHLI3} then R_NO else R_IU) R_NO True False)"
    using f by (elim insertE emptyE; simp add: op_spec_def)
  show "op_spec op = Some (SPEC R_ID R_IU (if op \<in> {ADDI3, MULI3, SHLI3, NEG3} then R_NO else R_IU) R_NO True False)"
    using c by (elim insertE emptyE; simp add: op_spec_def)
  show "operand_words ! fop = operand_words ! op" using f by (elim insertE emptyE; simp add: operand_words_def)
  show "fop \<noteq> LI3" "\<not> is_jz fop" using f by (elim insertE emptyE; simp add: is_jz_def)+
  show "imm_ok op w imm \<Longrightarrow> imm_ok fop w' imm" using f by (elim insertE emptyE; simp add: imm_ok_def)
  obtain g' where "alu fop = Some g'" using f by (elim insertE emptyE; simp add: alu_eval)
  then show "op_table hl cm fop \<noteq> None" by (rule alu_refines [of fop g' hl cm]) simp
qed

lemma ext4_spec:
  "op_spec SX4 = Some (SPEC R_ID R_IU R_NO R_NO True False)" "op_spec ZX4 = Some (SPEC R_ID R_IU R_NO R_NO True False)"
  by (simp_all add: op_spec_def)

lemma get_byte_op: "get_byte (text(i_pc i := x)) i j = get_byte text i j"
  by (simp add: get_byte_def operand_def)

text \<open>The pieces of a fused wrap.\<close>

lemma fuse_wrap_split:
  assumes "fuse_wrap text i next live = Some (text', i')" "insn_ok hl cm text i" "insn_ok hl cm text next"
  obtains fused t d where "known i" "known next" "i_op next = SX4 \<or> i_op next = ZX4" "wrapped_op (i_op i) (i_op next) = Some fused"
    "get_byte text i 0 = t" "get_byte text next 0 = d" "get_byte text next 1 = t" "t \<noteq> 0" "d \<noteq> 0" "d = t \<or> live AND BIT t = 0"
    "t < 32" "d < 32" "i' = i\<lparr>i_op := fused, spec := the (op_spec fused)\<rparr>"
    "get_byte text' i 0 = d" "get_byte text' i 1 = (if i_op i = NEG3 then 0 else get_byte text i 1)"
    "get_byte text' i 2 = (if i_op i = NEG3 then get_byte text i 1 else get_byte text i 2)"
    "insn_imm text' i = insn_imm text i"
    "\<exists>t1. text' = t1(i_pc i := of_nat fused) \<and> (\<forall>a. t1 a \<noteq> text a \<longrightarrow> a = i_pc i + 1)"
proof -
  have k: "known i" "known next" "i_op next = SX4 \<or> i_op next = ZX4"
    using assms(1) by (auto simp: fuse_wrap_def split: if_split_asm)
  obtain fused where w: "wrapped_op (i_op i) (i_op next) = Some fused"
    using assms(1) by (auto simp: fuse_wrap_def split: if_split_asm option.split_asm)
  let ?t = "get_byte text i 0" and ?d = "get_byte text next 0"
  let ?t1 = "set_byte text i 0 ?d"
  let ?t2 = "if i_op i = NEG3 then set_byte (set_byte ?t1 i 2 (get_byte ?t1 i 1)) i 1 REG_ZERO else ?t1"
  have c: "?t \<noteq> 0 \<and> ?d \<noteq> 0 \<and> get_byte text next 1 = ?t \<and> (?d = ?t \<or> live AND BIT ?t = 0)"
    using assms(1) k w by (auto simp: fuse_wrap_def Let_def split: if_split_asm)
  note F = wrapped_form [OF w]
  have r: "text' = ?t2(i_pc i := of_nat fused)" "i' = i\<lparr>i_op := fused, spec := the (op_spec fused)\<rparr>"
    using assms(1) k w c F(1) by (simp_all add: fuse_wrap_def Let_def)
  have reg: "get_byte text i m < 32" if "m < 4" "role (spec i) m \<noteq> R_NO" for m
    using assms(2) k(1) that by (simp add: insn_ok_def insn_wf_def)
  have sp: "op_spec (i_op i) = Some (spec i)" "op_spec (i_op next) = Some (spec next)"
    using insn_ok_known [OF assms(2) k(1)] insn_ok_known [OF assms(3) k(2)] by metis+
  have "spec i = SPEC R_ID R_IU (if i_op i \<in> {ADDI3, MULI3, SHLI3, NEG3} then R_NO else R_IU) R_NO True False"
    "spec next = SPEC R_ID R_IU R_NO R_NO True False"
    using sp F(2) ext4_spec k(3) by (metis option.inject)+
  then have ro: "role (spec i) 0 = R_ID" "role (spec i) 1 = R_IU" "role (spec next) 0 = R_ID" by simp_all
  have d: "?d < 32" using assms(3) k(2) ro(3) by (simp add: insn_ok_def insn_wf_def)
  have b1: "get_byte text i 1 < 256" using reg [of 1] ro(2) by simp
  have d2: "?d < 256" using d by simp
  have gb: "get_byte text' i j = get_byte ?t2 i j" for j unfolding r(1) by (rule get_byte_op)
  have g: "get_byte text' i 0 = ?d" "get_byte text' i 1 = (if i_op i = NEG3 then 0 else get_byte text i 1)"
    "get_byte text' i 2 = (if i_op i = NEG3 then get_byte text i 1 else get_byte text i 2)"
    unfolding gb using d2 b1 [unfolded One_nat_def] by simp_all
  have im: "insn_imm text' i = insn_imm text i" unfolding r(1) by simp
  have t: "?t < 32" using reg [of 0] ro(1) by simp
  have ch: "\<exists>t1. text' = t1(i_pc i := of_nat fused) \<and> (\<forall>a. t1 a \<noteq> text a \<longrightarrow> a = i_pc i + 1)"
    unfolding r(1) by (intro exI conjI, rule refl) (auto simp: set_byte_def)
  have c': "get_byte text next 1 = ?t" "?t \<noteq> 0" "?d \<noteq> 0" "?d = ?t \<or> live AND BIT ?t = 0" using c by blast+
  show thesis by (rule that [OF k w refl refl c' t d r(2) g im ch])
qed

lemma insn_changed:
  assumes "2 \<le> i_size i" "unat (i_pc i) + i_size i < 2 ^ 32" "\<And>a. t' a \<noteq> t a \<Longrightarrow> a = i_pc i \<or> a = i_pc i + 1"
  shows "changed_at i t t'"
  using assms(1) unat_pc_add [OF assms(2), of 1] assms(3) unfolding changed_at_def by fastforce

lemma fused_insn_ok:
  assumes "known i" "op_spec op = Some s" "op_table hl cm op \<noteq> None" "op \<noteq> LI3" "\<not> is_jz op" "n = Suc (operand_words ! op)"
    and "\<forall>k < 4. role s k \<noteq> R_NO \<longrightarrow> get_byte text i k < 32" "get_byte text i 0 \<noteq> 0"
    and "imm_ok op (operand text i) (insn_imm text i)"
  shows "insn_ok hl cm text (i\<lparr>i_op := op, i_size := n, spec := s\<rparr>)"
  using assms by (simp add: insn_ok_def insn_wf_def get_byte_def operand_def insn_imm_def)

lemma fuse_wrap_insn:
  assumes f: "fuse_wrap text i next live = Some (text', i')" and ok: "insn_ok hl cm text i" "insn_ok hl cm text next"
    and pcs: "unat (i_pc i) + i_size i < 2 ^ 32"
  shows "known i' \<and> dead i' = dead i \<and> insn_ok hl cm text' i' \<and> i_pc i' = i_pc i \<and> i_size i' \<le> i_size i \<and> changed_at i text text'"
proof -
  obtain fused t d where W: "known i" "known next" "i_op next = SX4 \<or> i_op next = ZX4" "wrapped_op (i_op i) (i_op next) = Some fused"
    "get_byte text i 0 = t" "get_byte text next 0 = d" "get_byte text next 1 = t" "t \<noteq> 0" "d \<noteq> 0" "d = t \<or> live AND BIT t = 0"
    "t < 32" "d < 32" "i' = i\<lparr>i_op := fused, spec := the (op_spec fused)\<rparr>"
    "get_byte text' i 0 = d" "get_byte text' i 1 = (if i_op i = NEG3 then 0 else get_byte text i 1)"
    "get_byte text' i 2 = (if i_op i = NEG3 then get_byte text i 1 else get_byte text i 2)"
    "insn_imm text' i = insn_imm text i"
    "\<exists>t1. text' = t1(i_pc i := of_nat fused) \<and> (\<forall>a. t1 a \<noteq> text a \<longrightarrow> a = i_pc i + 1)"
    using fuse_wrap_split [OF f ok] .
  note F = wrapped_form [OF W(4)]
  have sz: "i_size i = Suc (operand_words ! i_op i)" "2 \<le> i_size i" "op_spec (i_op i) = Some (spec i)" "insn_wf text i"
    using insn_ok_known [OF ok(1) W(1)] by metis+
  have sp: "spec i = SPEC R_ID R_IU (if i_op i \<in> {ADDI3, MULI3, SHLI3, NEG3} then R_NO else R_IU) R_NO True False"
    using sz(3) F(2) by simp
  have b: "get_byte text i 1 < 32" "i_op i \<notin> {ADDI3, MULI3, SHLI3, NEG3} \<Longrightarrow> get_byte text i 2 < 32"
    using sz(4) W(1) sp unfolding insn_wf_def by (auto dest: spec [of _ 1] spec [of _ 2])
  have "imm_ok (i_op i) (operand text i) (insn_imm text i)" using ok(1) W(1) by (simp add: insn_ok_def)
  then have im: "imm_ok fused (operand text' i) (insn_imm text' i)" using F(7) W(17) by metis
  have "insn_ok hl cm text' (i\<lparr>i_op := fused, i_size := i_size i, spec := the (op_spec fused)\<rparr>)"
    by (rule fused_insn_ok [OF W(1) _ F(3,5,6) _ _ _ im])
      (use F(1,4) sz(1) b W(9,12,14-16) in \<open>auto simp: role_less4\<close>)
  moreover have "i\<lparr>i_op := fused, i_size := i_size i, spec := the (op_spec fused)\<rparr> = i'" unfolding W(13) by (cases i) simp
  moreover have "changed_at i text text'"
    by (rule insn_changed [OF sz(2) pcs]) (use W(18) in \<open>auto split: if_split_asm\<close>)
  ultimately show ?thesis
    using W(1,13) by simp
qed

lemma fuse_wrap_run:
  assumes f: "fuse_wrap text i next live = Some (text', i')" and ok: "insn_ok hl cm text i" "insn_ok hl cm text next"
    and pcs: "unat (i_pc i) + i_size i < 2 ^ 32" and dead: "\<not> dead i" "\<not> dead next" and zero: "regs vm 0 = 0"
  shows "agree_reach (live_regs live) M (reach opq hl cm text [i, next] vm) (reach opq hl cm text' [i'] vm)"
proof -
  obtain fused t d where W: "known i" "known next" "i_op next = SX4 \<or> i_op next = ZX4" "wrapped_op (i_op i) (i_op next) = Some fused"
    "get_byte text i 0 = t" "get_byte text next 0 = d" "get_byte text next 1 = t" "t \<noteq> 0" "d \<noteq> 0" "d = t \<or> live AND BIT t = 0"
    "t < 32" "d < 32" "i' = i\<lparr>i_op := fused, spec := the (op_spec fused)\<rparr>"
    "get_byte text' i 0 = d" "get_byte text' i 1 = (if i_op i = NEG3 then 0 else get_byte text i 1)"
    "get_byte text' i 2 = (if i_op i = NEG3 then get_byte text i 1 else get_byte text i 2)"
    "insn_imm text' i = insn_imm text i"
    "\<exists>t1. text' = t1(i_pc i := of_nat fused) \<and> (\<forall>a. t1 a \<noteq> text a \<longrightarrow> a = i_pc i + 1)"
    using fuse_wrap_split [OF f ok] .
  note F = wrapped_form [OF W(4)] and N = fuse_wrap_insn [OF f ok pcs]
  obtain g e g' where A: "alu (i_op i) = Some g" "alu (i_op next) = Some e" "alu fused = Some g'"
    "\<And>w w' w'' a b c imm x y z t. (case g w a b c imm of Inl f \<Rightarrow> Inl f | Inr v \<Rightarrow> e w' v x y t) =
       g' w'' (if i_op i = NEG3 then 0 else a) (if i_op i = NEG3 then a else b) z imm"
    using wrapped_op_alu [OF W(4,3)] by metis
  have sp: "op_spec (i_op i) = Some (spec i)" "op_spec (i_op next) = Some (spec next)"
    using insn_ok_known [OF ok(1) W(1)] insn_ok_known [OF ok(2) W(2)] by metis+
  have "spec i = SPEC R_ID R_IU (if i_op i \<in> {ADDI3, MULI3, SHLI3, NEG3} then R_NO else R_IU) R_NO True False"
    "spec next = SPEC R_ID R_IU R_NO R_NO True False"
    using sp F(2) ext4_spec W(3) by (metis option.inject)+
  then have pure: "sp_pure (spec i)" "sp_pure (spec next)" "sp_pure (spec i')" using F(1) W(13) by simp_all
  have g0: "get_byte text' i' m = get_byte text' i m" "insn_imm text' i' = insn_imm text i" for m
    unfolding W(13) using W(17) by (simp_all add: get_byte_def operand_def insn_imm_def)
  show ?thesis
  proof (rule pair_alu [OF W(1) ok(1) pure(1) dead(1) A(1) W(5) W(2) ok(2) pure(2) dead(2) A(2) W(6) _ _ pure(3) _ _ _ W(10,8)])
    show "known i'" "insn_ok hl cm text' i'" "\<not> dead i'" using N dead(1) by auto
    show "alu (i_op i') = Some g'" "get_byte text' i' 0 = d" using A(3) W(13,14) g0 by simp_all
    let ?R = "regs vm"
    fix v w w'
    assume v: "insn_value text i ?R g = Inr v" "insn_value text next (?R(t := v)) e = Inr w" "insn_value text' i' ?R g' = Inr w'"
    show "w' = w" 
      using A(4) [where w = "operand text i" and a = "?R (get_byte text i 1)" and b = "?R (get_byte text i 2)" and
          c = "?R (get_byte text i 3)" and imm = "insn_imm text i" and w' = "operand text next" and
          x = "(?R(t := v)) (get_byte text next 2)" and y = "(?R(t := v)) (get_byte text next 3)" and t = "insn_imm text next" and w'' = "operand text' i'" and
          z = "?R (get_byte text' i' 3)"] v W(7,15,16) g0 zero
      by (auto simp: insn_value_def split: if_split_asm)
  qed
qed

lemma fuse_wrap_fusion: "pair_fusion fuse_wrap hl cm"
proof
  fix i "next" "text" text' and live i' assume "fuse_wrap text i next live = Some (text', i')"
  then show "known i \<and> known next" by (simp add: fuse_wrap_def split: if_split_asm)
qed (rule fuse_wrap_insn fuse_wrap_run; assumption)+

subsection \<open>Bit-field extracts\<close>

lemma opnd_byte_ENCODE_BF:
  assumes "rd < 256" "rs < 256"
  shows "opnd_byte (ENCODE_BF rd rs off w) 0 = rd" "opnd_byte (ENCODE_BF rd rs off w) 1 = rs"
  using assms by (auto intro!: opnd_byte_eqI simp: ENCODE_BF_def ENCODE_RR_def bit_simps)

lemma bfx_ops:
  assumes "bfx_form opa opb k m = Some (op, off, w)"
  shows "opa \<in> {USHRI3, SHRI3, SHLI3}" "opb \<in> {ANDI3, SHRI3, USHRI3}" "op \<in> {UBFX, SBFX}"
    "off < 64" "0 < w" "off + w \<le> 64"
proof -
  note k = bfx_cases(1,2) [OF assms] and c = bfx_cases(3) [OF assms]
  note k' = small_const [OF k] const_bounds [OF k(1)]
  show "opa \<in> {USHRI3, SHRI3, SHLI3}" "opb \<in> {ANDI3, SHRI3, USHRI3}" "op \<in> {UBFX, SBFX}" using c by auto
  have p: "0 < popcount m" if "m AND (m + 1) = 0" "0 < sint m"
    using low_ones(1) [OF that] that(2) by (cases "popcount m") auto
  have m: "unat k \<le> unat m \<and> unat m \<le> 63" if "sint k \<le> sint m" "sint m \<le> 63"
    using const_bounds [of m] k(1) k'(3) that by linarith
  have k63: "unat k \<le> 63" using k(2) k'(3) by linarith
  from c show "off < 64" "0 < w" "off + w \<le> 64"
    using p m k63 by (elim disjE conjE; force)+
qed

lemma bfx_specs:
  "op \<in> {USHRI3, SHRI3, SHLI3, ANDI3, UBFX, SBFX} \<Longrightarrow> op_spec op = Some (SPEC R_ID R_IU R_NO R_NO True False)"
  "op \<in> {UBFX, SBFX} \<Longrightarrow> operand_words ! op = 1 \<and> op \<noteq> LI3 \<and> \<not> is_jz op"
  by (elim insertE emptyE; simp add: op_spec_def operand_words_def is_jz_def)+

lemma bfx_handler: "op \<in> {UBFX, SBFX} \<Longrightarrow> op_table hl cm op \<noteq> None"
  by (elim insertE emptyE) (simp_all add: op_table_def handlers_def)

lemma fuse_bitfield_split:
  assumes "fuse_bitfield text i next live = Some (text', i')" "insn_ok hl cm text i" "insn_ok hl cm text next"
  obtains op off w t d s where "known i" "known next" "i_size i = 4"
    "bfx_form (i_op i) (i_op next) (insn_imm text i) (insn_imm text next) = Some (op, off, w)"
    "get_byte text i 0 = t" "get_byte text next 0 = d" "get_byte text i 1 = s" "get_byte text next 1 = t"
    "t \<noteq> 0" "d \<noteq> 0" "d = t \<or> live AND BIT t = 0" "d < 32" "s < 32"
    "text' = text(i_pc i := of_nat op, i_pc i + 1 := ENCODE_BF d s off w)"
    "i' = i\<lparr>i_op := op, i_size := 2, spec := SPEC R_ID R_IU R_NO R_NO True False\<rparr>"
    "spec i = SPEC R_ID R_IU R_NO R_NO True False" "spec next = SPEC R_ID R_IU R_NO R_NO True False"
proof -
  have k: "known i" "known next" "i_size i = 4" using assms(1) by (auto simp: fuse_bitfield_def split: if_split_asm)
  obtain op off w where b: "bfx_form (i_op i) (i_op next) (insn_imm text i) (insn_imm text next) = Some (op, off, w)"
    using assms(1) by (auto simp: fuse_bitfield_def split: if_split_asm option.split_asm)
  note B = bfx_ops [OF b]
  let ?t = "get_byte text i 0" and ?d = "get_byte text next 0" and ?s = "get_byte text i 1"
  have c: "?t \<noteq> 0 \<and> ?d \<noteq> 0 \<and> get_byte text next 1 = ?t \<and> (?d = ?t \<or> live AND BIT ?t = 0)"
    using assms(1) b by (auto simp: fuse_bitfield_def Let_def split: if_split_asm)
  have sp: "op_spec op = Some (SPEC R_ID R_IU R_NO R_NO True False)" using bfx_specs(1) B(3) by blast
  have r: "text' = text(i_pc i := of_nat op, i_pc i + 1 := ENCODE_BF ?d ?s off w)"
    "i' = i\<lparr>i_op := op, i_size := 2, spec := SPEC R_ID R_IU R_NO R_NO True False\<rparr>"
    using assms(1) b c sp by (auto simp: fuse_bitfield_def Let_def split: if_split_asm)
  have "op_spec (i_op i) = Some (SPEC R_ID R_IU R_NO R_NO True False)" "op_spec (i_op next) = Some (SPEC R_ID R_IU R_NO R_NO True False)"
    using bfx_specs(1) B(1,2) by blast+
  then have spi: "spec i = SPEC R_ID R_IU R_NO R_NO True False" "spec next = SPEC R_ID R_IU R_NO R_NO True False"
    using insn_ok_known [OF assms(2) k(1)] insn_ok_known [OF assms(3) k(2)] by (metis option.inject)+
  have "?d < 32" "?s < 32"
    using assms(2,3) k spi by (simp_all add: insn_ok_def insn_wf_def role_less4)
  moreover have "get_byte text next 1 = ?t" "?t \<noteq> 0" "?d \<noteq> 0" "?d = ?t \<or> live AND BIT ?t = 0" using c by blast+
  ultimately show thesis using that [OF k b refl refl refl] r spi by blast
qed

lemma fuse_bitfield_insn:
  assumes f: "fuse_bitfield text i next live = Some (text', i')" and ok: "insn_ok hl cm text i" "insn_ok hl cm text next"
    and pcs: "unat (i_pc i) + i_size i < 2 ^ 32"
  shows "known i' \<and> dead i' = dead i \<and> insn_ok hl cm text' i' \<and> i_pc i' = i_pc i \<and> i_size i' \<le> i_size i \<and> changed_at i text text'"
proof -
  obtain op off w t d s where W: "known i" "known next" "i_size i = 4"
    "bfx_form (i_op i) (i_op next) (insn_imm text i) (insn_imm text next) = Some (op, off, w)"
    "d \<noteq> 0" "d < 32" "s < 32" "text' = text(i_pc i := of_nat op, i_pc i + 1 := ENCODE_BF d s off w)"
    "i' = i\<lparr>i_op := op, i_size := 2, spec := SPEC R_ID R_IU R_NO R_NO True False\<rparr>"
    using fuse_bitfield_split [OF f ok] by metis
  note B = bfx_ops [OF W(4)]
  have b: "get_byte text' i 0 = d" "get_byte text' i 1 = s"
    using opnd_byte_ENCODE_BF [of d s] W(6,7) unfolding W(8) by (simp_all add: get_byte_def operand_def)
  have "w \<le> 64" using B(6) by simp
  from DECODE_ENCODE_BF [OF _ _ B(4,5) this, of d s] W(6,7)
  have "imm_ok op (operand text' i) (insn_imm text' i)" using B(3,6) by (auto simp: imm_ok_def operand_def W(8))
  moreover have op: "op_spec op = Some (SPEC R_ID R_IU R_NO R_NO True False)" "operand_words ! op = 1" "op \<noteq> LI3" "\<not> is_jz op"
    using bfx_specs B(3) by blast+
  ultimately have "insn_ok hl cm text' i'"
    unfolding W(9) using W(5-7) b b(2) [unfolded One_nat_def]
    by (intro fused_insn_ok [OF W(1) op(1) bfx_handler [OF B(3)] op(3,4)]) (auto simp: role_less4)
  moreover have "changed_at i text text'"
    by (rule insn_changed [OF _ pcs]) (use W(3,8) in \<open>auto split: if_split_asm\<close>)
  ultimately show ?thesis using W(1,3,9) by simp
qed

lemma fuse_bitfield_run:
  assumes f: "fuse_bitfield text i next live = Some (text', i')" and ok: "insn_ok hl cm text i" "insn_ok hl cm text next"
    and pcs: "unat (i_pc i) + i_size i < 2 ^ 32" and dead: "\<not> dead i" "\<not> dead next"
  shows "agree_reach (live_regs live) M (reach opq hl cm text [i, next] vm) (reach opq hl cm text' [i'] vm)"
proof -
  obtain op off w t d s where W: "known i" "known next" "i_size i = 4"
    "bfx_form (i_op i) (i_op next) (insn_imm text i) (insn_imm text next) = Some (op, off, w)"
    "get_byte text i 0 = t" "get_byte text next 0 = d" "get_byte text i 1 = s" "get_byte text next 1 = t"
    "t \<noteq> 0" "d \<noteq> 0" "d = t \<or> live AND BIT t = 0" "d < 32" "s < 32"
    "text' = text(i_pc i := of_nat op, i_pc i + 1 := ENCODE_BF d s off w)"
    "i' = i\<lparr>i_op := op, i_size := 2, spec := SPEC R_ID R_IU R_NO R_NO True False\<rparr>"
    "spec i = SPEC R_ID R_IU R_NO R_NO True False" "spec next = SPEC R_ID R_IU R_NO R_NO True False"
    using fuse_bitfield_split [OF f ok] .
  note N = fuse_bitfield_insn [OF f ok pcs]
  obtain ga gb g where A: "alu (i_op i) = Some ga" "alu (i_op next) = Some gb" "alu op = Some g"
    "\<And>wa wb a b c x y. (case ga wa a b c (insn_imm text i) of Inl f \<Rightarrow> Inl f | Inr v \<Rightarrow> gb wb v x y (insn_imm text next)) =
       g (ENCODE_BF d s off w) a b c (insn_imm text i)"
    using bfx_form_alu [OF W(4), of d s] W(12,13) by (auto simp: less_trans [of _ 32 256])
  have b: "get_byte text' i' 0 = d" "get_byte text' i' 1 = s" "operand text' i' = ENCODE_BF d s off w"
    using opnd_byte_ENCODE_BF [of d s] W(12,13) unfolding W(14,15) by (simp_all add: get_byte_def operand_def)
  have im: "insn_imm text' i' = insn_imm text i"
    unfolding W(14,15) by (simp add: insn_imm_def cc_read_i64_at_def add.assoc)
  show ?thesis
  proof (rule pair_alu [OF W(1) ok(1) _ dead(1) A(1) W(5) W(2) ok(2) _ dead(2) A(2) W(6) _ _ _ _ _ b(1) W(11,9)])
    show "sp_pure (spec i)" "sp_pure (spec next)" "sp_pure (spec i')" using W(15-17) by simp_all
    show "known i'" "insn_ok hl cm text' i'" "\<not> dead i'" using N dead(1) by auto
    show "alu (i_op i') = Some g" using A(3) W(15) by simp
    let ?R = "regs vm"
    fix v u u'
    assume v: "insn_value text i ?R ga = Inr v" "insn_value text next (?R(t := v)) gb = Inr u" "insn_value text' i' ?R g = Inr u'"
    have ga: "ga wa a b c im = ga wa' a b' c' im" for wa wa' a b c b' c' im
      using A(1) bfx_ops(1) [OF W(4)] by (elim insertE emptyE) (auto simp: alu_eval)
    have "g (ENCODE_BF d s off w) (?R s) b c (insn_imm text i) = Inr u" for b c
      using A(4) [where wa = "operand text i" and a = "?R s" and b = b and c = c and wb = "operand text next" and
          x = "(?R(t := v)) (get_byte text next 2)" and y = "(?R(t := v)) (get_byte text next 3)"] v(1,2) W(7,8)
        ga [of "operand text i" "?R s" b c "insn_imm text i" "operand text i" "?R (get_byte text i 2)" "?R (get_byte text i 3)"]
      by (simp add: insn_value_def)
    then show "u' = u" using v(3) unfolding insn_value_def b(2,3) im by simp
  qed
qed

lemma fuse_bitfield_fusion: "pair_fusion fuse_bitfield hl cm"
proof
  fix i "next" "text" text' and live i' assume "fuse_bitfield text i next live = Some (text', i')"
  then show "known i \<and> known next" by (simp add: fuse_bitfield_def split: if_split_asm)
qed (rule fuse_bitfield_insn fuse_bitfield_run; assumption)+

end
