(* ===== verification/Peep_Walk.thy ===== *)
theory Peep_Walk
  imports Peep_Sources Peep_Fusions
begin

text \<open>
  The forward pass over a block (\<open>forward_block\<close>, \<open>src/src/codegen_peep.c\<close>, lines 1577 to 1724): the
  stages of \<open>forward_insn\<close> on a known instruction (extension to copy, copy propagation, folding) keep
  its shape and what it does, the facts they leave hold after it, and the notes they attach to it are
  those the backward pass relies on.
\<close>

subsection \<open>What a stage keeps\<close>

definition shape :: "host_ranges \<Rightarrow> committer \<Rightarrow> text_words \<Rightarrow> insn \<Rightarrow> text_words \<Rightarrow> insn \<Rightarrow> bool" where
  "shape hl cm text i text' i' \<longleftrightarrow> known i' \<and> i_pc i' = i_pc i \<and> i_size i' \<le> i_size i \<and> changed_at i text text' \<and>
     insn_ok hl cm text' i' \<and> text' (i_pc i) = of_nat (i_op i')"

definition same_run :: "opaque \<Rightarrow> host_ranges \<Rightarrow> committer \<Rightarrow> text_words \<Rightarrow> insn \<Rightarrow> text_words \<Rightarrow> insn \<Rightarrow> vm \<Rightarrow> bool" where
  "same_run opq hl cm text i text' i' vm \<longleftrightarrow>
     run_insn opq hl cm text' i' vm =
       map_sum id (\<lambda>w. w\<lparr>pc := i_pc i' + of_nat (i_size i')\<rparr>) (run_insn opq hl cm text i vm)"

definition no_op :: "opaque \<Rightarrow> host_ranges \<Rightarrow> committer \<Rightarrow> text_words \<Rightarrow> insn \<Rightarrow> vm \<Rightarrow> bool" where
  "no_op opq hl cm text i vm \<longleftrightarrow> (\<exists>p. run_insn opq hl cm text i vm = Inr (vm\<lparr>pc := p\<rparr>))"

text \<open>Copies name registers.\<close>

definition facts_regs :: "facts \<Rightarrow> bool" where
  "facts_regs f \<longleftrightarrow> (\<forall>r s. icopy f r = Some s \<longrightarrow> s < NUM_REGS)"

lemma facts_ok_regs: "facts_ok f R \<Longrightarrow> facts_regs f"
  by (auto simp: facts_ok_def copies_ok_def facts_regs_def)

lemma shape_trans:
  assumes "shape hl cm text i t1 i1" "shape hl cm t1 i1 t2 i2"
  shows "shape hl cm text i t2 i2"
proof -
  have "changed_at i t1 t2" using assms by (force simp: shape_def changed_at_def)
  then show ?thesis using assms by (auto simp: shape_def intro: changed_at_trans)
qed

lemma shape_refl:
  "known i \<Longrightarrow> insn_ok hl cm text i \<Longrightarrow> text (i_pc i) = of_nat (i_op i) \<Longrightarrow> shape hl cm text i text i"
  by (simp add: shape_def)

lemma same_run_trans:
  assumes "same_run opq hl cm text i t1 i1 vm" "same_run opq hl cm t1 i1 t2 i2 vm"
  shows "same_run opq hl cm text i t2 i2 vm"
  using assms unfolding same_run_def by (cases "run_insn opq hl cm text i vm") simp_all

lemma same_run_refl:
  assumes "known i" "insn_ok hl cm text i"
  shows "same_run opq hl cm text i text i vm"
  using run_known(1) [OF assms, of opq vm] unfolding same_run_def
  by (cases "run_insn opq hl cm text i vm") auto

lemma run_insn_cong:
  assumes "i_pc j = i_pc i" "i_op j = i_op i" "known j = known i" "known i"
  shows "run_insn opq hl cm text j vm = run_insn opq hl cm text i vm"
  using assms by (simp add: run_insn_def)

lemma insn_ok_cong:
  assumes "insn_ok hl cm text i" "i_pc j = i_pc i" "i_op j = i_op i" "known j = known i" "i_size j = i_size i" "spec j = spec i"
    and "i_op i = LI3 \<Longrightarrow> fold_v j = fold_v i"
  shows "insn_ok hl cm text j"
  using assms by (auto simp: insn_ok_def insn_wf_def get_byte_def operand_def insn_imm_def)

text \<open>A known instruction that is an ALU operation, and back.\<close>

lemma alu_role:
  assumes "known i" "insn_ok hl cm text i" "alu (i_op i) = Some g"
  shows "role (spec i) 0 = R_ID" "get_byte text i 0 \<noteq> 0" "get_byte text i 0 < NUM_REGS" "insn_wf text i"
proof -
  show wf: "insn_wf text i" using insn_ok_known [OF assms(2,1)] by metis
  obtain s where "op_spec (i_op i) = Some s" "role0 s = R_ID" using alu_spec [OF assms(3)] by metis
  then show d: "role (spec i) 0 = R_ID" using insn_spec [OF wf assms(1)] by simp
  show "get_byte text i 0 \<noteq> 0" using assms(1,2) d by (simp add: insn_ok_def)
  show "get_byte text i 0 < NUM_REGS" by (rule effects_alu(3) [OF assms(1) wf assms(3)])
qed

lemma gives_run:
  fixes vm :: vm
  assumes "gives text i (regs vm) v rd" "insn_ok hl cm text i"
  shows "run_insn opq hl cm text i vm = Inr (vm\<lparr>pc := i_pc i + of_nat (i_size i), regs := (regs vm)(rd := v)\<rparr>)"
proof -
  obtain g where g: "alu (i_op i) = Some g" "insn_value text i (regs vm) g = Inr v" "known i" "get_byte text i 0 = rd"
    using assms(1) by (auto simp: gives_def)
  show ?thesis using run_alu [OF g(3) assms(2) g(1) alu_role(1) [OF g(3) assms(2) g(1)]] g(2,4) by simp
qed

lemma run_gives:
  fixes vm :: vm
  assumes "known i" "insn_ok hl cm text i" "text (i_pc i) = of_nat (i_op i)" "alu (i_op i) \<noteq> None" "sp_pure (spec i)"
  obtains v where "gives text i (regs vm) v (get_byte text i 0)"
proof -
  obtain g where g: "alu (i_op i) = Some g" using assms(4) by blast
  obtain v where "insn_value text i (regs vm) g = Inr v" using run_pure [OF assms(1,2,5), of undefined vm] g by metis
  then show ?thesis using that assms(1,3) g alu_role(4) [OF assms(1,2) g] by (simp add: gives_def)
qed


lemma gives_same_run:
  assumes "gives text i (regs vm) v rd" "insn_ok hl cm text i" "gives t' i' (regs vm) v rd" "insn_ok hl cm t' i'"
  shows "same_run opq hl cm text i t' i' vm"
  unfolding same_run_def using gives_run [OF assms(1,2)] gives_run [OF assms(3,4)] by simp

subsection \<open>Extensions\<close>

lemma ext_op:
  assumes "known i" "insn_ok hl cm text i" "ext_needed (i_op i) \<noteq> 0"
  shows "i_size i = 2" "spec i = SPEC R_ID R_IU R_NO R_NO True False" "alu (i_op i) \<noteq> None"
proof -
  have op: "i_op i \<in> {SX1, SX2, SX4, ZX1, ZX2, ZX4}" using assms(3) by (auto simp: ext_needed_def split: if_split_asm)
  have "op_spec (i_op i) = Some (spec i)" using insn_ok_known [OF assms(2,1)] by metis
  then show "spec i = SPEC R_ID R_IU R_NO R_NO True False" using op by (auto simp: op_spec_def)
  have "operand_words ! i_op i = 1" using op by (elim insertE emptyE; simp add: operand_words_def)
  then show "i_size i = 2" using assms(1,2) by (simp add: insn_ok_def)
  show "alu (i_op i) \<noteq> None" using op by (elim insertE emptyE; simp add: alu_eval)
qed

lemma forward_ext_cases [consumes 1, case_names plain kept gone copy]:
  assumes "forward_ext True s = (s1, r)"
  obtains (plain) "ext_needed (i_op (w_insn s)) = 0" "s1 = s" "r = Some (i_op (w_insn s))"
    | (kept) "ext_needed (i_op (w_insn s)) \<noteq> 0"
        "s1 = s\<lparr>w_insn := (w_insn s)\<lparr>src_ext := ext (w_facts s) (get_byte (w_text s) (w_insn s) 1)\<rparr>\<rparr>"
        "r = Some (i_op (w_insn s))"
    | (gone) "ext_needed (i_op (w_insn s)) \<noteq> 0" "s1 = s\<lparr>w_changed := True, w_insn := (w_insn s)\<lparr>dead := True\<rparr>\<rparr>" "r = None"
    | (copy) "ext_needed (i_op (w_insn s)) \<noteq> 0"
        "s1 = s\<lparr>w_changed := True, w_text := (w_text s)(i_pc (w_insn s) := of_nat MOV3),
           w_insn := (w_insn s)\<lparr>i_op := MOV3, spec := the (op_spec MOV3)\<rparr>\<rparr>" "r = Some MOV3"
proof -
  let ?i = "w_insn s" and ?need = "ext_needed (i_op (w_insn s))" and ?rs = "get_byte (w_text s) (w_insn s) 1"
  consider "?need = 0" | "?need \<noteq> 0" "ext (w_facts s) ?rs AND ?need = 0"
    | "?need \<noteq> 0" "ext (w_facts s) ?rs AND ?need \<noteq> 0" "get_byte (w_text s) ?i 0 = ?rs"
    | "?need \<noteq> 0" "ext (w_facts s) ?rs AND ?need \<noteq> 0" "get_byte (w_text s) ?i 0 \<noteq> ?rs" by blast
  then show thesis
  proof cases
    case 1
    then have "s1 = s" "r = Some (i_op ?i)" using assms by (auto simp: forward_ext_def Let_def)
    then show thesis by (rule plain [OF 1])
  next
    case 2
    then show thesis using assms by (intro kept) (simp_all add: forward_ext_def Let_def)
  next
    case 3
    then show thesis using assms by (intro gone) (simp_all add: forward_ext_def Let_def)
  next
    case 4
    then show thesis using assms by (intro copy) (simp_all add: forward_ext_def Let_def)
  qed
qed

lemma ext_stage:
  assumes i: "known i" "insn_ok hl cm text i" "\<not> dead i" "text (i_pc i) = of_nat (i_op i)" "unat (i_pc i) + i_size i < 2 ^ 32"
    and e: "forward_ext True \<lparr>w_text = text, w_insn = i, w_facts = f, w_changed = ch\<rparr> = (s1, r)"
  shows "shape hl cm text i (w_text s1) (w_insn s1)" "w_facts s1 = f" "dead (w_insn s1) \<longleftrightarrow> r = None"
    "r = Some op \<Longrightarrow> op = i_op (w_insn s1)"
    "r \<noteq> None \<Longrightarrow> ext_needed (i_op (w_insn s1)) \<noteq> 0 \<Longrightarrow> src_ext (w_insn s1) = ext f (get_byte (w_text s1) (w_insn s1) 1)"
    "facts_ok f (regs vm) \<Longrightarrow> same_run opq hl cm text i (w_text s1) (w_insn s1) vm \<and>
       (r = None \<longrightarrow> no_op opq hl cm text i vm)"
proof -
  let ?s = "\<lparr>w_text = text, w_insn = i, w_facts = f, w_changed = ch\<rparr>"
  have mov: "insn_ok hl cm (text(i_pc i := of_nat MOV3)) (i\<lparr>i_op := MOV3, spec := the (op_spec MOV3)\<rparr>)"
    if "ext_needed (i_op i) \<noteq> 0"
  proof -
    note E = ext_op [OF i(1,2) that]
    have wf: "insn_wf text i" using insn_ok_known [OF i(2,1)] by metis
    have b: "get_byte text i 0 < 32" "get_byte text i 1 < 32"
      using wf i(1) E(2) unfolding insn_wf_def by (auto dest: spec [of _ 0] spec [of _ 1])
    have "i\<lparr>i_op := MOV3, i_size := 2, spec := SPEC R_ID R_IU R_NO R_NO True True\<rparr> = i\<lparr>i_op := MOV3, spec := the (op_spec MOV3)\<rparr>"
      using E(1) MOV3_spec(1) by (cases i) simp
    moreover have "insn_ok hl cm (text(i_pc i := of_nat MOV3)) (i\<lparr>i_op := MOV3, i_size := 2, spec := SPEC R_ID R_IU R_NO R_NO True True\<rparr>)"
      by (rule fused_insn_ok [OF i(1) MOV3_spec(1)])
        (use b i(1,2) E(2) in \<open>auto simp: op_table_alu is_jz_def operand_words_def role_less4 imm_ok_def insn_ok_def\<close>)
    ultimately show ?thesis by simp
  qed
  have ch: "changed_at i text (text(i_pc i := x))" if "ext_needed (i_op i) \<noteq> 0" for x
    using insn_changed [of i "text(i_pc i := x)" "text"] ext_op(1) [OF i(1,2) that] i(5) by (auto split: if_split_asm)
  show shape: "shape hl cm text i (w_text s1) (w_insn s1)"
    using e
  proof (cases rule: forward_ext_cases)
    case plain
    then show ?thesis using i by (simp add: shape_def)
  next
    case kept
    then show ?thesis using i insn_ok_cong [OF i(2), of "i\<lparr>src_ext := x\<rparr>" for x] by (simp add: shape_def)
  next
    case gone
    then show ?thesis using i insn_ok_cong [OF i(2), of "i\<lparr>dead := True\<rparr>"] by (simp add: shape_def)
  next
    case copy
    then show ?thesis using i mov ch by (simp add: shape_def)
  qed
  show "w_facts s1 = f" using e by (cases rule: forward_ext_cases) simp_all
  show "dead (w_insn s1) \<longleftrightarrow> r = None" using e i(3) by (cases rule: forward_ext_cases) simp_all
  show "r = Some op \<Longrightarrow> op = i_op (w_insn s1)" using e by (cases rule: forward_ext_cases) simp_all
  show "r \<noteq> None \<Longrightarrow> ext_needed (i_op (w_insn s1)) \<noteq> 0 \<Longrightarrow> src_ext (w_insn s1) = ext f (get_byte (w_text s1) (w_insn s1) 1)"
    using e by (cases rule: forward_ext_cases) (simp_all add: get_byte_def operand_def ext_needed_def [of MOV3])
  assume f: "facts_ok f (regs vm)"
  show "same_run opq hl cm text i (w_text s1) (w_insn s1) vm \<and> (r = None \<longrightarrow> no_op opq hl cm text i vm)"
  proof (cases "ext_needed (i_op i) = 0")
    case True
    have "s1 = ?s \<and> r \<noteq> None" using e True by (cases rule: forward_ext_cases) simp_all
    then show ?thesis using same_run_refl [OF i(1,2)] by auto
  next
    case False
    note E = ext_op [OF i(1,2) False]
    obtain v where v: "gives text i (regs vm) v (get_byte text i 0)" by (rule run_gives [OF i(1,2,4) E(3)]) (simp add: E(2))
    have z: "get_byte text i 0 \<noteq> 0" using i(1,2) E(2) by (simp add: insn_ok_def)
    have "round_ok ?s (regs vm) v (get_byte text i 0)" using v f by (simp add: round_ok_def)
    from forward_ext_ok [OF this z _ e] i(3) have R: "round_ok s1 (regs vm) v (get_byte text i 0)"
      "r = None \<longrightarrow> v = regs vm (get_byte text i 0)" by auto
    have "same_run opq hl cm text i (w_text s1) (w_insn s1) vm"
      by (rule gives_same_run [OF v i(2)]) (use R(1) shape in \<open>auto simp: round_ok_def shape_def\<close>)
    moreover have "no_op opq hl cm text i vm" if "r = None"
      using gives_run [OF v i(2), of opq] R(2) that by (auto simp: no_op_def)
    ultimately show ?thesis by blast
  qed
qed


subsection \<open>Copies\<close>

lemma known_integer:
  assumes "known i" "insn_ok hl cm text i"
  shows "role (spec i) k \<in> {R_NO, R_IU, R_ID}"
proof -
  obtain h where h: "op_table hl cm (i_op i) = Some h" "op_spec (i_op i) = Some (spec i)"
    using insn_ok_known [OF assms(2,1)] by metis
  have "{role0 (spec i), role1 (spec i), role2 (spec i), role3 (spec i)} \<subseteq> {R_NO, R_IU, R_ID}"
    using bspec [OF handlers_integer [unfolded list_all_iff] op_table_in [OF h(1)]] h(2) by simp
  then show ?thesis by (simp add: role_def)
qed

lemma copy_byte_cases:
  assumes "known i" "insn_ok hl cm text i" "k < 4" "facts_regs f" "copy_byte f promoted i k (text, ch) = (t1, c1)"
  obtains "t1 = text"
    | s where "role (spec i) k = R_IU" "icopy f (get_byte text i k) = Some s" "s < NUM_REGS" "t1 = set_byte text i k s"
  using assms(4,5) known_integer [OF assms(1,2), of k]
  by (auto simp: copy_byte_def Let_def facts_regs_def split: option.split_asm if_split_asm)

lemma copies_stage:
  assumes "known i" "insn_ok hl cm text i" "set ks \<subseteq> {0, 1, 2, 3}" "facts_regs f"
    and "fold (copy_byte f promoted i) ks (text, ch) = (t1, c1)"
  shows "insn_ok hl cm t1 i \<and> (\<forall>a. a \<noteq> i_pc i + 1 \<longrightarrow> t1 a = text a) \<and>
    (copies_ok f (regs vm) \<longrightarrow> run_insn opq hl cm t1 i vm = run_insn opq hl cm text i vm \<and>
       (\<forall>k < 4. role (spec i) k = R_IU \<longrightarrow> regs vm (get_byte t1 i k) = regs vm (get_byte text i k)))"
  using assms(2,3,5)
proof (induction ks arbitrary: "text" ch)
  case (Cons k ks)
  obtain t0 c0 where c: "copy_byte f promoted i k (text, ch) = (t0, c0)" by (meson surj_pair)
  have k: "k < 4" using Cons.prems(2) by auto
  have one: "insn_ok hl cm t0 i \<and> (\<forall>a. a \<noteq> i_pc i + 1 \<longrightarrow> t0 a = text a) \<and>
    (copies_ok f (regs vm) \<longrightarrow> run_insn opq hl cm t0 i vm = run_insn opq hl cm text i vm \<and>
       (\<forall>k < 4. role (spec i) k = R_IU \<longrightarrow> regs vm (get_byte t0 i k) = regs vm (get_byte text i k)))"
  proof (cases rule: copy_byte_cases [OF assms(1) Cons.prems(1) k assms(4) c])
    case 1
    then show ?thesis using Cons.prems(1) by simp
  next
    case (2 s)
    have eq: "regs vm s = regs vm (get_byte text i k)" if "copies_ok f (regs vm)" using that 2(2) by (auto simp: copies_ok_def)
    have ok: "insn_ok hl cm t0 i"
      using copy_run(1) [OF assms(1) Cons.prems(1) k 2(1,3), of "vm\<lparr>regs := \<lambda>_. 0\<rparr>"] by (simp add: 2(4))
    moreover have "regs vm (get_byte t0 i j) = regs vm (get_byte text i j)" if "j < 4" "copies_ok f (regs vm)" for j
      using that k 2(3) eq by (simp add: 2(4))
    ultimately show ?thesis
      using copy_run(2) [OF assms(1) Cons.prems(1) k 2(1,3) eq] 2(4) by (auto simp: set_byte_def)
  qed
  have "fold (copy_byte f promoted i) ks (t0, c0) = (t1, c1)" using Cons.prems(3) by (simp add: c)
  from Cons.IH [OF _ _ this] one Cons.prems(2) show ?case by auto
qed simp

subsection \<open>Folding\<close>

lemma li_insn_ok:
  assumes "known i" "i_size i = 4" "make_imm_op text i LI3 u = (text1, i1)" "0 < rd" "rd < NUM_REGS" "fold_v i = None"
  shows "insn_ok hl cm (text1(i_pc i + 1 := of_nat rd)) i1" "i_size i1 = 4" "fold_v i1 = None"
proof -
  let ?t = "text1(i_pc i + 1 := of_nat rd)"
  have i1: "i1 = i\<lparr>i_op := LI3, i_size := 4, spec := SPEC R_ID R_NO R_NO R_NO True False\<rparr>"
    using assms(2,3) MOV3_spec(2) by (cases i) (simp add: make_imm_op_def)
  have b: "get_byte ?t i 0 = rd" using assms(5) by (simp add: get_byte_def operand_def opnd_byte_of_nat)
  have "insn_ok hl cm ?t (i\<lparr>i_op := LI3, i_size := 4, spec := SPEC R_ID R_NO R_NO R_NO True False\<rparr>)"
    using assms(1,4-6) b
    by (simp add: insn_ok_def insn_wf_def MOV3_spec role_less4 op_table_alu operand_words_def imm_ok_def is_jz_def
        get_byte_def operand_def)
  then show "insn_ok hl cm ?t i1" by (simp add: i1)
  show "i_size i1 = 4" "fold_v i1 = None" using assms(6) by (simp_all add: i1)
qed

lemma mov_insn_ok:
  assumes "known i" "make_mov text i src = (t', i')" "0 < get_byte text i 0" "get_byte text i 0 < NUM_REGS" "src < NUM_REGS"
  shows "insn_ok hl cm t' i'" "i_size i' = 2" "t' (i_pc i) = of_nat MOV3" "known i'" "i_pc i' = i_pc i" "i_op i' = MOV3"
    "dead i' = dead i" "\<And>a. a \<noteq> i_pc i \<Longrightarrow> a \<noteq> i_pc i + 1 \<Longrightarrow> t' a = text a"
proof -
  have t: "t' = set_byte (set_byte (text(i_pc i := of_nat MOV3)) i 1 src) i 2 0"
    and i': "i' = i\<lparr>i_op := MOV3, i_size := 2, spec := SPEC R_ID R_IU R_NO R_NO True True\<rparr>"
    using assms(2) MOV3_spec(1) by (auto simp: numeral_2_eq_2 make_mov_def Let_def cc_instr_words_def cc_opcode_operand_words_def operand_words_def)
  have b: "get_byte t' i 0 = get_byte text i 0" "get_byte t' i 1 = src" using assms(4,5) by (simp_all add: t)
  show "insn_ok hl cm t' i'"
    unfolding i' by (rule fused_insn_ok [OF assms(1) MOV3_spec(1)])
      (use assms(3-5) b in \<open>auto simp: op_table_alu is_jz_def operand_words_def role_less4 imm_ok_def\<close>)
  show "i_size i' = 2" "t' (i_pc i) = of_nat MOV3" "known i'" "i_pc i' = i_pc i" "i_op i' = MOV3" "dead i' = dead i"
    using assms(1) by (simp_all add: i' t)
  show "\<And>a. a \<noteq> i_pc i \<Longrightarrow> a \<noteq> i_pc i + 1 \<Longrightarrow> t' a = text a" by (simp add: t set_byte_def)
qed


lemma fold_shape:
  assumes i: "known i" "insn_ok hl cm text i" "text (i_pc i) = of_nat (i_op i)" "unat (i_pc i) + i_size i < 2 ^ 32"
    and v: "fold_v i = None" and f: "fold_in_place text i f = (t', i', b)"
  shows "shape hl cm text i t' i' \<and> (ext_needed (i_op i') \<noteq> 0 \<longrightarrow> t' = text \<and> src_ext i' = src_ext i \<and> i_op i' = i_op i) \<and>
    (\<forall>u. fold_v i' = Some u \<longrightarrow> t' = text \<and> fold_point text i (i_op i) f = Some u \<and> i_op i' = i_op i \<and> spec i' = spec i)"
  using f
proof (cases rule: fold_in_place_guard)
  case 1
  then show ?thesis using i v by (simp add: shape_def)
next
  case guard: 2
  have wf: "insn_wf text i" and sz: "2 \<le> i_size i" using insn_ok_known [OF i(2,1)] by blast+
  have reg: "get_byte text i k < NUM_REGS" if "k < 4" "role (spec i) k \<noteq> R_NO" for k
    using wf i(1) that by (simp add: insn_wf_def)
  have rd: "0 < get_byte text i 0" "get_byte text i 0 < NUM_REGS" using guard reg [of 0] by auto
  have mov: "shape hl cm text i t' i' \<and> i_op i' = MOV3 \<and> fold_v i' = None"
    if "make_mov text i src = (t', i')" "src < NUM_REGS" for src
  proof -
    note M = mov_insn_ok [OF i(1) that(1) rd that(2)]
    have "changed_at i text t'" by (rule insn_changed [OF sz i(4)]) (use M(8) in blast)
    then show ?thesis using M sz v that(1) by (auto simp: shape_def make_mov_def Let_def)
  qed
  show ?thesis
    using f
  proof (cases rule: fold_in_place_cases)
    case same
    have "insn_ok hl cm text (i\<lparr>fold_v := x\<rparr>)" for x
      by (rule insn_ok_cong [OF i(2)]) (use guard(5) in auto)
    then show ?thesis using same i v by (auto simp: shape_def)
  next
    case (li u t1)
    note L = li_insn_ok [OF i(1) li(4,2) rd v] and M = make_imm_fields [OF li(2)]
    have "changed_at i text t'"
      unfolding li(3) M(1) by (rule changed_at_trans [OF changed_at_trans [OF write_changed(2,1)] write_changed(3)])
        (use li(4) i(4) in simp_all)
    then show ?thesis using L M li i(1) by (auto simp: shape_def ext_needed_def)
  next
    case zero
    then show ?thesis using mov [of REG_ZERO] by (auto simp: ext_needed_def)
  next
    case (muladd bv t1)
    note M = make_imm_fields [OF muladd(3)]
    have sz4: "i_size i = 4" using i(1,2) muladd(1) by (simp add: insn_ok_def operand_words_def)
    have sp: "spec i = SPEC R_ID R_IU R_IU R_NO True False"
      using insn_spec [OF wf i(1)] muladd(1) by (simp add: op_spec_def)
    have i': "i' = i\<lparr>i_op := ADDI3, i_size := 4, spec := SPEC R_ID R_IU R_NO R_NO True False\<rparr>"
      using sz4 muladd(3) MOV3_spec(3) by (cases i) (auto simp: make_imm_op_def)
    have b: "get_byte t' i j = (if j = 2 then 0 else get_byte text i j)" if "j < 4" for j
      using that by (simp add: muladd(4) set_byte_pc [OF M(2)] M(1))
    have "insn_ok hl cm t' i'"
      unfolding i' by (rule fused_insn_ok [OF i(1) MOV3_spec(3)])
        (use b reg [of 1] sp rd in \<open>auto simp: op_table_alu is_jz_def operand_words_def role_less4 imm_ok_def\<close>)
    moreover have "changed_at i text t'"
      unfolding muladd(4) set_byte_pc [OF M(2)] M(1)
      by (rule changed_at_trans [OF changed_at_trans [OF write_changed(2,1)] changed_word1])
        (use sz4 i(4) in \<open>simp_all add: set_byte_def\<close>)
    moreover have "t' (i_pc i) = of_nat ADDI3" using M(7) by (simp add: muladd(4) set_byte_pc [OF M(2)])
    ultimately show ?thesis using i(1) sz4 v by (simp add: shape_def i' ext_needed_def)
  next
    case (imm src)
    have "src < NUM_REGS" using imm(1,2) reg [of 1] by (auto simp: imm_identity_src_def split: if_split_asm)
    moreover have "insn_ok hl cm text (i\<lparr>dead := True\<rparr>)" by (rule insn_ok_cong [OF i(2)]) simp_all
    ultimately show ?thesis using imm(3) mov [of src] i v by (auto simp: shape_def ext_needed_def imm_identity_src_def split: if_split_asm)
  next
    case (ident src)
    have "src \<in> {0, get_byte text i 1, get_byte text i 2}"
      using ident(1) by (auto simp: identity_src_def split: if_split_asm)
    then have "src < NUM_REGS" using ident(2,3) reg [of 1] reg [of 2] by auto
    then show ?thesis using mov [OF ident(4)] by (auto simp: ext_needed_def)
  qed
qed

lemma fold_run:
  assumes i: "known i" "insn_ok hl cm text i" "text (i_pc i) = of_nat (i_op i)" "unat (i_pc i) + i_size i < 2 ^ 32"
    and v: "fold_v i = None" and f: "fold_in_place text i f = (t', i', b)" and ok: "facts_ok f (regs vm)"
  shows "same_run opq hl cm text i t' i' vm \<and> (dead i' \<longrightarrow> dead i \<or> no_op opq hl cm text i vm)"
  using f
proof (cases rule: fold_in_place_guard)
  case 1
  then show ?thesis using same_run_refl [OF i(1,2)] by simp
next
  case guard: 2
  obtain h where h: "op_table hl cm (i_op i) = Some h" "insn_wf text i" "op_spec (i_op i) = Some (spec i)"
    using insn_ok_known [OF i(2,1)] by metis
  have "i_op i = LDA3 \<or> alu (i_op i) \<noteq> None" by (rule known_handler(4) [OF i(1) h(2,1) guard(1)])
  moreover have "i_op i \<noteq> LDA3"
    using arg_cong [OF h(3), of "\<lambda>x. role1 (the x)"] guard(3) by (auto simp: op_spec_def)
  ultimately have "alu (i_op i) \<noteq> None" by blast
  then obtain u where u: "gives text i (regs vm) u (get_byte text i 0)" by (rule run_gives [OF i(1-3) _ guard(1)])
  note G = fold_in_place_gives [OF u ok guard(4) f]
  have "shape hl cm text i t' i'" using fold_shape [OF i v f] by blast
  then have "insn_ok hl cm t' i'" by (simp add: shape_def)
  with G have "same_run opq hl cm text i t' i' vm" using gives_same_run [OF u i(2)] by blast
  moreover have "no_op opq hl cm text i vm" if "dead i'" "\<not> dead i"
    using gives_run [OF u i(2), of opq] G that by (auto simp: no_op_def)
  ultimately show ?thesis by blast
qed


subsection \<open>One known instruction\<close>

lemma define_regs_icopy:
  "icopy (fold (define_reg e x I) rs f) r = Some s \<Longrightarrow> icopy f r = Some s"
proof (induction rs arbitrary: f)
  case (Cons q rs)
  have "icopy (define_reg e x I q f) r = Some s" using Cons by simp
  then show ?case by (auto simp: define_reg_def Let_def kill_int_def kill_float_def split: if_split_asm)
qed simp

lemma facts_after_regs:
  assumes "known i" "insn_ok hl cm text i" "facts_regs f"
  shows "facts_regs (facts_after text i (i_op i) f)"
proof -
  have wf: "insn_wf text i" using insn_ok_known [OF assms(2,1)] by metis
  have "get_byte text i 1 < NUM_REGS" if "i_op i = MOV3"
  proof -
    have "op_spec MOV3 = Some (spec i)" using insn_spec [OF wf assms(1)] that by simp
    moreover have "role1 (the (op_spec MOV3)) = R_IU" by (simp add: MOV3_spec)
    ultimately have "role (spec i) 1 = R_IU" by simp
    then show ?thesis using wf assms(1) by (simp add: insn_wf_def)
  qed
  then have rec: "facts_regs g \<Longrightarrow> facts_regs (record_copy text i (i_op i) I g)" for I g
    by (simp add: facts_regs_def record_copy_def Let_def)
  have "facts_regs (fold (define_reg e x I) rs f)" for e x I rs
    using assms(3) define_regs_icopy unfolding facts_regs_def by blast
  then have "facts_regs (record_cmp text i (fold (define_reg e x I) rs f))" for e x I rs
    by (simp add: facts_regs_def)
  with rec show ?thesis unfolding facts_after_def Let_def by blast
qed

lemma known_not_fmov: "known i \<Longrightarrow> insn_ok hl cm text i \<Longrightarrow> i_op i \<noteq> FMOV3"
proof
  assume i: "known i" "insn_ok hl cm text i" "i_op i = FMOV3"
  moreover have "op_spec (i_op i) = Some (spec i)" using insn_ok_known [OF i(2,1)] by metis
  moreover have "role0 (the (op_spec FMOV3)) = R_FD" by (simp add: op_spec_def)
  ultimately have "role (spec i) 0 = R_FD" by simp
  then show False using known_integer [OF i(1,2), of 0] by simp
qed

text \<open>The result of \<open>forward_insn\<close> on a known instruction, by its stages.\<close>

lemma forward_known_cases [consumes 4, case_names self gone stages]:
  assumes "known i" "insn_ok hl cm text i" "\<not> dead i"
    and "s' = forward_insn seed promoted True \<lparr>w_text = text, w_insn = i, w_facts = f, w_changed = ch\<rparr>"
  obtains (self) "i_op i = MOV3" "get_byte text i 0 = get_byte text i 1" "w_text s' = text" "w_insn s' = i\<lparr>dead := True\<rparr>" "w_facts s' = f"
    | (gone) s1 where "forward_ext True \<lparr>w_text = text, w_insn = i, w_facts = f, w_changed = ch\<rparr> = (s1, None)" "s' = s1"
    | (stages) s1 op t2 c2 b where "forward_ext True \<lparr>w_text = text, w_insn = i, w_facts = f, w_changed = ch\<rparr> = (s1, Some op)"
        "fold (copy_byte (w_facts s1) promoted (w_insn s1)) [0, 1, 2, 3] (w_text s1, w_changed s1) = (t2, c2)"
        "fold_in_place t2 ((w_insn s1)\<lparr>fold_v := None\<rparr>) (w_facts s1) = (w_text s', w_insn s', b)"
        "w_facts s' = facts_after (w_text s') (w_insn s') (i_op (w_insn s')) (w_facts s1)"
proof -
  let ?s = "\<lparr>w_text = text, w_insn = i, w_facts = f, w_changed = ch\<rparr>"
  have "i_op i \<noteq> FMOV3" by (rule known_not_fmov [OF assms(1,2)])
  then have op: "(i_op i = MOV3 \<or> i_op i = FMOV3) \<longleftrightarrow> i_op i = MOV3" by blast
  show thesis
  proof (cases "i_op i = MOV3 \<and> get_byte text i 0 = get_byte text i 1")
    case True
    then have "s' = ?s\<lparr>w_insn := i\<lparr>dead := True\<rparr>, w_changed := True\<rparr>"
      using assms(3,4) by (simp add: forward_insn_def Let_def)
    then show thesis using True by (intro self) simp_all
  next
    case False
    obtain s1 r where e: "forward_ext True ?s = (s1, r)" by (meson surj_pair)
    have s': "s' = (case (s1, r) of (s1, None) \<Rightarrow> s1 | (s1, Some op) \<Rightarrow>
        let s2 = forward_rewrite promoted s1
        in s2\<lparr>w_facts := facts_after (w_text s2) (w_insn s2) (i_op (w_insn s2)) (w_facts s2)\<rparr>)"
      using assms(1,3,4) False e op by (auto simp: forward_insn_def Let_def)
    show thesis
    proof (cases r)
      case None
      then show thesis using gone e s' by simp
    next
      case (Some op)
      obtain t2 c2 where c: "fold (copy_byte (w_facts s1) promoted (w_insn s1)) [0, 1, 2, 3] (w_text s1, w_changed s1) = (t2, c2)"
        by (meson surj_pair)
      obtain t3 i3 b where b: "fold_in_place t2 ((w_insn s1)\<lparr>fold_v := None\<rparr>) (w_facts s1) = (t3, i3, b)"
        by (meson prod_cases3)
      have rw: "forward_rewrite promoted s1 = s1\<lparr>w_text := t3, w_insn := i3, w_changed := c2 \<or> b\<rparr>"
        by (simp only: forward_rewrite_def c b Let_def prod.case)
      have "w_text s' = t3" "w_insn s' = i3" "w_facts s' = facts_after t3 i3 (i_op i3) (w_facts s1)"
        using s' by (simp_all add: Some rw Let_def)
      then show thesis using stages [OF _ c] e b Some by simp
    qed
  qed
qed


lemma vm_but_pc: "b\<lparr>pc := q\<rparr> = vm\<lparr>pc := p\<rparr> \<Longrightarrow> \<exists>p. b = vm\<lparr>pc := p\<rparr>" for vm :: vm
  by (rule exI [of _ "pc b"]) (cases b, cases vm, simp)

text \<open>The first two stages together.\<close>

lemma two_stages:
  assumes i: "known i" "insn_ok hl cm text i" "\<not> dead i" "text (i_pc i) = of_nat (i_op i)" "unat (i_pc i) + i_size i < 2 ^ 32"
    and f: "facts_regs f"
    and e: "forward_ext True \<lparr>w_text = text, w_insn = i, w_facts = f, w_changed = ch\<rparr> = (s1, Some op)"
    and c: "fold (copy_byte (w_facts s1) promoted (w_insn s1)) [0, 1, 2, 3] (w_text s1, w_changed s1) = (t2, c2)"
  defines "i2 \<equiv> (w_insn s1)\<lparr>fold_v := None\<rparr>"
  shows "w_facts s1 = f" "shape hl cm text i t2 i2" "\<not> dead i2"
    "facts_ok f (regs vm) \<Longrightarrow> same_run opq hl cm text i t2 i2 vm \<and>
       (ext_needed (i_op i2) \<noteq> 0 \<longrightarrow> ext_fits (src_ext i2) (sint (regs vm (get_byte t2 i2 1))))"
proof -
  note E = ext_stage [OF i e]
  show s1: "w_facts s1 = f" by (rule E(2))
  have sh: "shape hl cm text i (w_text s1) (w_insn s1)" by (rule E(1))
  have k: "known (w_insn s1)" and ok1: "insn_ok hl cm (w_text s1) (w_insn s1)" using sh by (simp_all add: shape_def)
  have ks: "set [0, 1, 2, 3 :: nat] \<subseteq> {0, 1, 2, 3}" by simp
  note C = copies_stage [OF k ok1 ks f c [unfolded s1]]
  have ok2: "insn_ok hl cm t2 i2" unfolding i2_def
  proof (rule insn_ok_cong)
    show "insn_ok hl cm t2 (w_insn s1)" using C by blast
    then show "fold_v ((w_insn s1)\<lparr>fold_v := None\<rparr>) = fold_v (w_insn s1)" if "i_op (w_insn s1) = LI3"
      using that k by (simp add: insn_ok_def)
  qed simp_all
  have t2: "t2 a = w_text s1 a" if "a \<noteq> i_pc (w_insn s1) + 1" for a using C that by simp
  have sz: "2 \<le> i_size (w_insn s1)" using insn_ok_known [OF ok1 k] by blast
  have pcs: "unat (i_pc (w_insn s1)) + i_size (w_insn s1) < 2 ^ 32" using sh i(5) by (simp add: shape_def)
  have "shape hl cm (w_text s1) (w_insn s1) t2 i2"
    using changed_word1 [OF sz pcs, of t2 "w_text s1"] k ok2 t2 sh by (simp add: shape_def i2_def)
  then show "shape hl cm text i t2 i2" by (rule shape_trans [OF sh])
  show "\<not> dead i2" using E(3) by (simp add: i2_def)
  assume fo: "facts_ok f (regs vm)"
  then have cp: "copies_ok f (regs vm)" and rg: "ranges_ok f (regs vm)" by (simp_all add: facts_ok_def)
  have "same_run opq hl cm text i (w_text s1) (w_insn s1) vm" using E(6) [OF fo] by blast
  moreover have "run_insn opq hl cm t2 i2 vm = run_insn opq hl cm (w_text s1) (w_insn s1) vm"
    using C [of vm opq] cp run_insn_cong [of i2 "w_insn s1" opq hl cm t2 vm] k by (simp add: i2_def)
  ultimately have run: "same_run opq hl cm text i t2 i2 vm" by (simp add: same_run_def i2_def)
  have "ext_fits (src_ext i2) (sint (regs vm (get_byte t2 i2 1)))" if n: "ext_needed (i_op i2) \<noteq> 0"
  proof -
    let ?rs = "get_byte (w_text s1) (w_insn s1) 1"
    have n1: "ext_needed (i_op (w_insn s1)) \<noteq> 0" using n by (simp add: i2_def)
    have role: "role (spec (w_insn s1)) 1 = R_IU" using ext_op(2) [OF k ok1 n1] by simp
    then have "regs vm (get_byte t2 i2 1) = regs vm ?rs"
      using C [of vm opq] cp by (simp add: i2_def get_byte_def operand_def)
    moreover have "insn_wf (w_text s1) (w_insn s1)" using insn_ok_known [OF ok1 k] by metis
    then have "?rs < NUM_REGS" using k role by (simp add: insn_wf_def)
    then have "ext_fits (ext f ?rs) (sint (regs vm ?rs))" using rg by (simp add: ranges_ok_def reg_ok_def)
    ultimately show ?thesis using E(5) [OF _ n1] by (simp add: i2_def)
  qed
  with run show "same_run opq hl cm text i t2 i2 vm \<and>
       (ext_needed (i_op i2) \<noteq> 0 \<longrightarrow> ext_fits (src_ext i2) (sint (regs vm (get_byte t2 i2 1))))" by blast
qed

lemma forward_known_shape:
  assumes i: "known i" "insn_ok hl cm text i" "\<not> dead i" "text (i_pc i) = of_nat (i_op i)" "unat (i_pc i) + i_size i < 2 ^ 32"
    and f: "facts_regs f"
    and s': "s' = forward_insn seed promoted True \<lparr>w_text = text, w_insn = i, w_facts = f, w_changed = ch\<rparr>"
  shows "shape hl cm text i (w_text s') (w_insn s') \<and> facts_regs (w_facts s')"
  using i(1-3) s'
proof (cases rule: forward_known_cases)
  case self
  have "insn_ok hl cm text (i\<lparr>dead := True\<rparr>)" by (rule insn_ok_cong [OF i(2)]) simp_all
  then show ?thesis using self i f by (simp add: shape_def)
next
  case (gone s1)
  then show ?thesis using ext_stage(1,2) [OF i gone(1)] f by simp
next
  case (stages s1 op t2 c2 b)
  note T = two_stages [OF i f stages(1,2)]
  let ?i2 = "(w_insn s1)\<lparr>fold_v := None\<rparr>"
  have i2: "known ?i2" "insn_ok hl cm t2 ?i2" "t2 (i_pc ?i2) = of_nat (i_op ?i2)" "unat (i_pc ?i2) + i_size ?i2 < 2 ^ 32"
    using T(2) i(5) by (auto simp: shape_def)
  have sh: "shape hl cm t2 ?i2 (w_text s') (w_insn s')" using fold_shape [OF i2 _ stages(3)] by simp
  then have "facts_regs (w_facts s')"
    unfolding stages(4) T(1) by (intro facts_after_regs [where hl = hl and cm = cm, OF _ _ f]) (simp_all add: shape_def)
  then show ?thesis using shape_trans [OF T(2) sh] by blast
qed

lemma forward_known_run:
  assumes i: "known i" "insn_ok hl cm text i" "\<not> dead i" "text (i_pc i) = of_nat (i_op i)" "unat (i_pc i) + i_size i < 2 ^ 32"
    and f: "facts_ok f (regs vm)"
    and s': "s' = forward_insn seed promoted True \<lparr>w_text = text, w_insn = i, w_facts = f, w_changed = ch\<rparr>"
  shows "same_run opq hl cm text i (w_text s') (w_insn s') vm" "dead (w_insn s') \<Longrightarrow> no_op opq hl cm text i vm"
    "\<not> dead (w_insn s') \<Longrightarrow> note_ok opq hl cm (w_text s') (w_insn s') vm"
    "run_insn opq hl cm text i vm = Inr w \<Longrightarrow> facts_ok (w_facts s') (regs w)"
proof -
  have fr: "facts_regs f" by (rule facts_ok_regs [OF f])
  have quiet: "facts_ok f (regs w)" if "no_op opq hl cm text i vm" "run_insn opq hl cm text i vm = Inr w" for w
    using that f by (auto simp: no_op_def)
  have "same_run opq hl cm text i (w_text s') (w_insn s') vm \<and> (dead (w_insn s') \<longrightarrow> no_op opq hl cm text i vm) \<and>
      (\<not> dead (w_insn s') \<longrightarrow> note_ok opq hl cm (w_text s') (w_insn s') vm) \<and>
      (\<forall>w. run_insn opq hl cm text i vm = Inr w \<longrightarrow> facts_ok (w_facts s') (regs w))"
  using i(1-3) s'
  proof (cases rule: forward_known_cases)
    case self
    have g: "alu (i_op i) = Some (\<lambda>w a b c imm. Inr a)" using self(1) by (simp add: alu_eval)
    have "run_insn opq hl cm text i vm = Inr (vm\<lparr>pc := i_pc i + of_nat (i_size i)\<rparr>)"
      using run_alu [OF i(1,2) g alu_role(1) [OF i(1,2) g], of opq vm] self(2) by (simp add: insn_value_def)
    then have n: "no_op opq hl cm text i vm" by (auto simp: no_op_def)
    moreover have "same_run opq hl cm text i text (i\<lparr>dead := True\<rparr>) vm"
      using same_run_refl [OF i(1,2), of opq vm] run_insn_cong [of "i\<lparr>dead := True\<rparr>" i] i(1) by (simp add: same_run_def)
    ultimately show ?thesis using self quiet by simp
  next
    case (gone s1)
    note E = ext_stage [OF i gone(1)]
    from E(6) [OF f] have "same_run opq hl cm text i (w_text s1) (w_insn s1) vm" "no_op opq hl cm text i vm" by auto
    then show ?thesis using E(2,3) quiet gone(2) by simp
  next
    case (stages s1 op t2 c2 b)
    note T = two_stages [OF i fr stages(1,2)]
    let ?i2 = "(w_insn s1)\<lparr>fold_v := None\<rparr>"
    have i2: "known ?i2" "insn_ok hl cm t2 ?i2" "t2 (i_pc ?i2) = of_nat (i_op ?i2)" "unat (i_pc ?i2) + i_size ?i2 < 2 ^ 32"
      using T(2) i(5) by (auto simp: shape_def)
    have st: "fold_in_place t2 ?i2 f = (w_text s', w_insn s', b)" using stages(3) T(1) by simp
    have sh: "shape hl cm t2 ?i2 (w_text s') (w_insn s')" and nt: "ext_needed (i_op (w_insn s')) \<noteq> 0 \<longrightarrow> w_text s' = t2 \<and> src_ext (w_insn s') = src_ext ?i2 \<and> i_op (w_insn s') = i_op ?i2"
      "\<forall>u. fold_v (w_insn s') = Some u \<longrightarrow> w_text s' = t2 \<and> fold_point t2 ?i2 (i_op ?i2) f = Some u \<and> i_op (w_insn s') = i_op ?i2 \<and> spec (w_insn s') = spec ?i2"
      using fold_shape [OF i2 _ st] by auto
    have k': "known (w_insn s')" and ok': "insn_ok hl cm (w_text s') (w_insn s')" and pc': "i_pc (w_insn s') = i_pc ?i2"
      using sh by (simp_all add: shape_def)
    note R = fold_run [OF i2 _ st f, of opq]
    have s1: "same_run opq hl cm text i t2 ?i2 vm" using T(4) [OF f] by blast
    then have run: "same_run opq hl cm text i (w_text s') (w_insn s') vm" using R same_run_trans by auto
    have n: "no_op opq hl cm text i vm" if "dead (w_insn s')"
    proof -
      have "no_op opq hl cm t2 ?i2 vm" using R T(3) that by simp
      then show ?thesis using s1 unfolding no_op_def same_run_def
        by (cases "run_insn opq hl cm text i vm") (auto dest: vm_but_pc)
    qed
    have facts: "facts_ok (w_facts s') (regs w)" if w: "run_insn opq hl cm text i vm = Inr w" for w
    proof -
      have "run_insn opq hl cm (w_text s') (w_insn s') vm = Inr (w\<lparr>pc := i_pc (w_insn s') + of_nat (i_size (w_insn s'))\<rparr>)"
        using run w by (simp add: same_run_def)
      from known_facts [OF k' ok' f _ this] show ?thesis unfolding stages(4) T(1) by (simp add: runs_as_def)
    qed
    have "note_ok opq hl cm (w_text s') (w_insn s') vm"
      unfolding note_ok_def
    proof (intro conjI allI impI)
      fix u w assume u: "fold_v (w_insn s') = Some u" and w: "run_insn opq hl cm (w_text s') (w_insn s') vm = Inr w"
      have N: "w_text s' = t2" "fold_point t2 ?i2 (i_op ?i2) f = Some u" "i_op (w_insn s') = i_op ?i2" using nt(2) u by blast+
      have "insn_wf t2 ?i2" using insn_ok_known [OF i2(2,1)] by metis
      from fold_point_ok [OF N(2) this] f obtain g where g: "alu (i_op ?i2) = Some g" "insn_value t2 ?i2 (regs vm) g = Inr u"
        by (auto simp: facts_ok_def)
      have b: "get_byte t2 (w_insn s') k = get_byte t2 ?i2 k" for k by (rule get_byte_pc [OF pc'])
      have "run_insn opq hl cm t2 ?i2 vm = run_insn opq hl cm (w_text s') (w_insn s') vm"
        using run_insn_cong [OF pc' N(3), of opq hl cm t2 vm] k' i2(1) N(1) by simp
      with run_alu [OF i2(1,2) g(1) alu_role(1) [OF i2(1,2) g(1)], of opq vm] g(2) w
      show "regs w (get_byte (w_text s') (w_insn s') 0) = u" unfolding N(1) b by auto
    next
      assume "ext_needed (i_op (w_insn s')) \<noteq> 0"
      then have "w_text s' = t2" "src_ext (w_insn s') = src_ext ?i2" "ext_needed (i_op ?i2) \<noteq> 0"
        using nt(1) by auto
      then show "ext_fits (src_ext (w_insn s')) (sint (regs vm (get_byte (w_text s') (w_insn s') 1)))"
        using T(4) [OF f] get_byte_pc [OF pc'] by simp
    qed
    with run n facts show ?thesis by blast
  qed
  then show "same_run opq hl cm text i (w_text s') (w_insn s') vm" "dead (w_insn s') \<Longrightarrow> no_op opq hl cm text i vm"
    "\<not> dead (w_insn s') \<Longrightarrow> note_ok opq hl cm (w_text s') (w_insn s') vm"
    "run_insn opq hl cm text i vm = Inr w \<Longrightarrow> facts_ok (w_facts s') (regs w)" by blast+
qed

end
