(* ===== verification/Peep_Round.thy ===== *)
theory Peep_Round
  imports Peep_Walk
begin

text \<open>
  \<open>forward_block\<close> (\<open>src/src/codegen_peep.c\<close>, lines 1577 to 1724) over a whole block, branches and code
  the optimiser does not understand included: the rewritten block does what the block did, the facts
  at its end hold, and it satisfies what the backward pass relies on; so a forward pass followed by a
  backward pass over a block keeps what the block computes.
\<close>

subsection \<open>The walk\<close>

fun forward_block ::
  "(nat \<Rightarrow> u8) \<Rightarrow> u32 \<Rightarrow> bool \<Rightarrow> text_words \<Rightarrow> insn list \<Rightarrow> facts \<Rightarrow> text_words \<times> insn list \<times> facts \<times> bool" where
  "forward_block seed promoted rewrite text [] f = (text, [], f, False)"
| "forward_block seed promoted rewrite text (i # is) f =
     (let s = forward_insn seed promoted rewrite \<lparr>w_text = text, w_insn = i, w_facts = f, w_changed = False\<rparr>;
          (text', is', f', ch) = forward_block seed promoted rewrite (w_text s) is (w_facts s)
      in (text', w_insn s # is', f', w_changed s \<or> ch))"

text \<open>What the code generator guarantees of the instructions the optimiser does not understand: a jump
  changes no register; after anything else the promoted registers hold values of their types, and a
  call keeps them and returns a value of its type.\<close>

definition abi_kept :: "(nat \<Rightarrow> u8) \<Rightarrow> u32 \<Rightarrow> text_words \<Rightarrow> insn \<Rightarrow> vm \<Rightarrow> vm \<Rightarrow> bool" where
  "abi_kept seed promoted text i vm w \<longleftrightarrow>
     (if ctrl_kind text i \<noteq> C_NONE then i_op i \<in> {LEV3, CALLT, LONGJMP} \<or> regs w = regs vm
      else seed_ok seed (regs w) \<and>
        (is_call (i_op i) \<longrightarrow> (\<forall>r. promoted AND BIT r \<noteq> 0 \<longrightarrow> regs w r = regs vm r) \<and>
           (ret_ext i \<noteq> 0 \<longrightarrow> ext_fits (ret_ext i) (sint (regs w REG_A0)))))"

fun abi_ok :: "opaque \<Rightarrow> host_ranges \<Rightarrow> committer \<Rightarrow> (nat \<Rightarrow> u8) \<Rightarrow> u32 \<Rightarrow> text_words \<Rightarrow> insn list \<Rightarrow> vm \<Rightarrow> bool" where
  "abi_ok opq hl cm seed promoted text [] vm \<longleftrightarrow> True"
| "abi_ok opq hl cm seed promoted text (i # is) vm \<longleftrightarrow>
     (if dead i then abi_ok opq hl cm seed promoted text is vm
      else case run_insn opq hl cm text i vm of
             Inl e \<Rightarrow> True
           | Inr w \<Rightarrow> (known i \<or> is_jz (i_op i) \<or> abi_kept seed promoted text i vm w) \<and>
               (pc w = i_pc i + of_nat (i_size i) \<longrightarrow> abi_ok opq hl cm seed promoted text is w))"

text \<open>A decoded instruction: its opcode is the word at its place.\<close>

definition decoded :: "text_words \<Rightarrow> insn \<Rightarrow> bool" where
  "decoded text i \<longleftrightarrow> dead i \<or>
     (if known i \<or> is_jz (i_op i) then text (i_pc i) = of_nat (i_op i) else i_op i \<notin> {MOV3, FMOV3})"

subsection \<open>One instruction\<close>

definition next_of :: "insn \<Rightarrow> u32" where
  "next_of i = i_pc i + of_nat (i_size i)"

definition keeps_shape :: "host_ranges \<Rightarrow> committer \<Rightarrow> text_words \<Rightarrow> insn \<Rightarrow> text_words \<Rightarrow> insn \<Rightarrow> bool" where
  "keeps_shape hl cm text i text' i' \<longleftrightarrow> known i' = known i \<and> i_pc i' = i_pc i \<and> i_size i' \<le> i_size i \<and>
     changed_at i text text' \<and> insn_ok hl cm text' i' \<and> (falls_through i \<longrightarrow> falls_through i') \<and> decoded text' i'"

fun sim_step :: "u32 \<Rightarrow> u32 \<Rightarrow> step \<Rightarrow> step \<Rightarrow> bool" where
  "sim_step n n' (Inl e) (Inl e') = (e' = e)"
| "sim_step n n' (Inr w) (Inr w') = (if pc w = n then w' = w\<lparr>pc := n'\<rparr> else w' = w \<and> n' = n)"
| "sim_step n n' _ _ = False"

lemma branch_shape:
  assumes i: "\<not> known i" "is_jz (i_op i)" "insn_ok hl cm text i" "text (i_pc i) = of_nat (i_op i)" "unat (i_pc i) + i_size i < 2 ^ 32"
    and f: "facts_regs f" and s': "s' = forward_branch \<lparr>w_text = text, w_insn = i, w_facts = f, w_changed = ch\<rparr>"
  shows "keeps_shape hl cm text i (w_text s') (w_insn s')" "w_facts s' = f" "i_size (w_insn s') = i_size i"
    "facts_ok f (regs vm) \<Longrightarrow> (if dead (w_insn s') \<and> \<not> dead i then run_insn opq hl cm text i vm = Inr (vm\<lparr>pc := next_of i\<rparr>)
       else run_insn opq hl cm (w_text s') (w_insn s') vm = run_insn opq hl cm text i vm)"
proof -
  have sz: "i_size i = 3" and r: "get_byte text i 0 < NUM_REGS" using i(2,3) by (simp_all add: insn_ok_def)
  define c where "c = (if REG_ZERO < get_byte text i 0 \<and> get_byte text i 0 < NUM_REGS then icopy f (get_byte text i 0) else None)"
  define t1 r1 where "t1 = (case c of None \<Rightarrow> text | Some s \<Rightarrow> set_byte text i 0 s)"
    and "r1 = (case c of None \<Rightarrow> get_byte text i 0 | Some s \<Rightarrow> s)"
  have r1: "r1 < NUM_REGS" using f r by (auto simp: r1_def c_def facts_regs_def split: option.split)
  have R: "regs vm r1 = regs vm (get_byte text i 0)" if "facts_ok f (regs vm)"
    using that r by (auto simp: r1_def c_def facts_ok_def copies_ok_def split: option.split)
  have t1: "get_byte t1 i 0 = r1" using r1 by (auto simp: t1_def r1_def split: option.split)
  have t1w: "t1 a = text a" if "a \<noteq> i_pc i + 1" for a
    using that by (auto simp: t1_def set_byte_def split: option.split)
  let ?t2 = "set_byte (t1(i_pc i := of_nat JZ3)) i 0 REG_ZERO"
  have t2: "get_byte ?t2 i 0 = 0" by simp
  have t2w: "?t2 a = text a" if "a \<noteq> i_pc i" "a \<noteq> i_pc i + 1" for a
    using t1w [OF that(2)] that by (simp add: set_byte_def)
  define ch1 where "ch1 = (case c of None \<Rightarrow> ch | Some _ \<Rightarrow> True)"
  have pr: "(case c of None \<Rightarrow> (text, get_byte text i 0, ch) | Some s \<Rightarrow> (set_byte text i 0 s, s, True)) = (t1, r1, ch1)"
    by (cases c) (simp_all add: t1_def r1_def ch1_def)
  have s'_eq: "s' = (case point_of f r1 of None \<Rightarrow> \<lparr>w_text = t1, w_insn = i, w_facts = f, w_changed = ch1\<rparr>
     | Some v \<Rightarrow> if (i_op i = JZ3) \<noteq> (v = 0) then \<lparr>w_text = t1, w_insn = i\<lparr>dead := True\<rparr>, w_facts = f, w_changed = True\<rparr>
         else if i_op i \<noteq> JZ3 \<or> r1 \<noteq> REG_ZERO then \<lparr>w_text = ?t2, w_insn = i\<lparr>i_op := JZ3\<rparr>, w_facts = f, w_changed = True\<rparr>
         else \<lparr>w_text = t1, w_insn = i, w_facts = f, w_changed = ch1\<rparr>)"
    unfolding s' forward_branch_def Let_def fwd.select_convs c_def [symmetric] pr prod.case if_P [OF r1] fwd.update_convs ..
  consider (stay) "w_text s' = t1" "w_insn s' = i" "w_facts s' = f"
    | (drop) v where "point_of f r1 = Some v" "(i_op i = JZ3) \<noteq> (v = 0)" "w_text s' = t1" "w_insn s' = i\<lparr>dead := True\<rparr>" "w_facts s' = f"
    | (always) v where "point_of f r1 = Some v" "(i_op i = JZ3) = (v = 0)" "w_text s' = ?t2" "w_insn s' = i\<lparr>i_op := JZ3\<rparr>" "w_facts s' = f"
  proof (cases "point_of f r1")
    case None
    then show ?thesis by (intro stay) (simp_all add: s'_eq)
  next
    case (Some v)
    note e = s'_eq [unfolded Some option.case]
    consider "(i_op i = JZ3) \<noteq> (v = 0)" | "(i_op i = JZ3) = (v = 0)" "i_op i \<noteq> JZ3 \<or> r1 \<noteq> REG_ZERO"
      | "(i_op i = JZ3) = (v = 0)" "\<not> (i_op i \<noteq> JZ3 \<or> r1 \<noteq> REG_ZERO)" by blast
    then show ?thesis
    proof cases
      case 1
      then show ?thesis by (intro drop [OF Some]) (simp_all add: e)
    next
      case 2
      then show ?thesis by (intro always [OF Some]) (simp_all add: e)
    next
      case 3
      then show ?thesis by (intro stay) (simp_all add: e)
    qed
  qed
  note outcomes = this
  show "w_facts s' = f" "i_size (w_insn s') = i_size i" by (cases rule: outcomes; simp)+
  have ok1: "insn_ok hl cm t1 i" using i(1-3) r1 t1 by (auto simp: insn_ok_def)
  have ch1: "changed_at i text t1" by (rule changed_word1) (use sz i(5) t1w in simp_all)
  have ch2: "changed_at i text ?t2" by (rule insn_changed) (use sz i(5) t2w in auto)
  show "keeps_shape hl cm text i (w_text s') (w_insn s')"
  proof (cases rule: outcomes)
    case stay
    then show ?thesis using i ok1 ch1 t1w by (simp add: keeps_shape_def decoded_def)
  next
    case drop
    have "insn_ok hl cm t1 (i\<lparr>dead := True\<rparr>)" by (rule insn_ok_cong [OF ok1]) simp_all
    then show ?thesis using drop i ch1 by (simp add: keeps_shape_def decoded_def falls_through_def)
  next
    case always
    have "insn_ok hl cm ?t2 (i\<lparr>i_op := JZ3\<rparr>)" using i(1-3) t2 sz
      by (auto simp: insn_ok_def is_jz_def operand_words_def get_byte_def operand_def)
    moreover have "\<not> falls_through i" using i(1,2) by (auto simp: falls_through_def is_jz_def)
    moreover have "?t2 (i_pc i) = of_nat JZ3" by (simp add: set_byte_def)
    ultimately show ?thesis using always i ch2 by (simp add: keeps_shape_def decoded_def is_jz_def)
  qed
  assume ok: "facts_ok f (regs vm)"
  then have z: "regs vm 0 = 0" and rg: "ranges_ok f (regs vm)" by (simp_all add: facts_ok_def)
  note run = run_insn_jz [OF i(2), of opq hl cm]
  have n: "next_of i = i_pc i + 3" by (simp add: next_of_def sz)
  have pt: "regs vm (get_byte text i 0) = v" if "point_of f r1 = Some v" for v
    using point_of_ok [OF that rg r1] R [OF ok] by simp
  show "if dead (w_insn s') \<and> \<not> dead i then run_insn opq hl cm text i vm = Inr (vm\<lparr>pc := next_of i\<rparr>)
       else run_insn opq hl cm (w_text s') (w_insn s') vm = run_insn opq hl cm text i vm"
  proof (cases rule: outcomes)
    case stay
    then show ?thesis using run t1 t1w R [OF ok] by simp
  next
    case (drop v)
    then show ?thesis using run pt [OF drop(1)] n t1 t1w R [OF ok]
      run_insn_jz [of "i\<lparr>dead := True\<rparr>" opq hl cm] i(2) by (simp add: get_byte_def operand_def)
  next
    case (always v)
    have "run_insn opq hl cm ?t2 (i\<lparr>i_op := JZ3\<rparr>) vm = Inr (vm\<lparr>pc := ?t2 (i_pc i + 2)\<rparr>)"
      using run_insn_jz [of "i\<lparr>i_op := JZ3\<rparr>" opq hl cm ?t2 vm] t2 z by (simp add: is_jz_def get_byte_def operand_def)
    moreover have "?t2 (i_pc i + 2) = text (i_pc i + 2)" by (rule t2w) simp_all
    ultimately show ?thesis using run pt [OF always(1)] always by auto
  qed
qed


text \<open>The pass leaves any other instruction outside \<open>op_spec\<close> as it is.\<close>

lemma unknown_insn:
  assumes i: "\<not> known i" "\<not> is_jz (i_op i)" "\<not> dead i" "i_op i \<notin> {MOV3, FMOV3}"
    and s': "s' = forward_insn seed promoted rewrite \<lparr>w_text = text, w_insn = i, w_facts = f, w_changed = ch\<rparr>"
  shows "w_text s' = text" "w_insn s' = i" "facts_regs f \<Longrightarrow> facts_regs (w_facts s')"
    "facts_ok f (regs vm) \<Longrightarrow> abi_kept seed promoted text i vm w \<Longrightarrow> i_op i \<notin> {LEV3, CALLT, LONGJMP} \<Longrightarrow>
       facts_ok (w_facts s') (regs w)"
proof -
  let ?s = "\<lparr>w_text = text, w_insn = i, w_facts = f, w_changed = ch\<rparr>"
  have nj: "i_op i \<noteq> JZ3" "i_op i \<noteq> JNZ3" using i(2) by (simp_all add: is_jz_def)
  have e: "s' = forward_unknown seed promoted rewrite ?s" using i s' by (simp add: forward_insn_def Let_def)
  define g where "g = facts_after_call seed promoted f"
  define g' where "g' = g\<lparr>ext := (ext g)(REG_A0 := ret_ext i), lo := (lo g)(REG_A0 := fst (range_of_ext (ret_ext i))),
      hi := (hi g)(REG_A0 := snd (range_of_ext (ret_ext i)))\<rparr>"
  have f': "w_text s' = text \<and> w_insn s' = i \<and> w_facts s' = (if ctrl_kind text i \<noteq> C_NONE then f
      else if is_call (i_op i) then (if ret_ext i \<noteq> 0 then g' else g) else facts_reset seed)"
    unfolding e using nj by (simp add: forward_unknown_def Let_def g_def g'_def)
  then show "w_text s' = text" "w_insn s' = i" by blast+
  have none: "icopy g r = None" "icopy g' r = None" "icopy (facts_reset seed) r = None" for r
    by (simp_all add: g_def g'_def facts_after_call_def facts_reset_def Let_def)
  then show "facts_regs (w_facts s')" if "facts_regs f" using f' that by (simp add: facts_regs_def)
  assume ok: "facts_ok f (regs vm)" and abi: "abi_kept seed promoted text i vm w" and nx: "i_op i \<notin> {LEV3, CALLT, LONGJMP}"
  show "facts_ok (w_facts s') (regs w)"
  proof (cases "ctrl_kind text i = C_NONE")
    case False
    then show ?thesis using f' abi nx ok by (simp add: abi_kept_def)
  next
    case True
    then have seed: "seed_ok seed (regs w)" using abi by (simp add: abi_kept_def)
    show ?thesis
    proof (cases "is_call (i_op i)")
      case False
      then show ?thesis using f' True facts_reset_ok [OF seed] by simp
    next
      case call: True
      then have keep: "\<forall>r. promoted AND BIT r \<noteq> 0 \<longrightarrow> regs w r = regs vm r"
        and ret: "ret_ext i \<noteq> 0 \<Longrightarrow> ext_fits (ret_ext i) (sint (regs w REG_A0))" using abi True by (simp_all add: abi_kept_def)
      have g: "facts_ok g (regs w)" unfolding g_def by (rule facts_after_call_ok [OF seed ok]) (use keep in blast)
      have "facts_ok g' (regs w)" if r: "ret_ext i \<noteq> 0"
      proof -
        have "in_iv (sint (regs w REG_A0)) (range_of_ext (ret_ext i))" by (rule range_of_ext_in_iv [OF ret [OF r]]) simp
        then have "reg_ok g' REG_A0 (sint (regs w REG_A0))" using ret [OF r] by (simp add: g'_def reg_ok_def in_iv_def)
        moreover have "reg_ok g' q v = reg_ok g q v" if "q \<noteq> REG_A0" for q v using that by (simp add: g'_def reg_ok_def)
        ultimately have "ranges_ok g' (regs w)" using g unfolding facts_ok_def ranges_ok_def by metis
        then show ?thesis using g by (simp add: facts_ok_def copies_ok_def g'_def)
      qed
      then show ?thesis using f' True call g by simp
    qed
  qed
qed

text \<open>Any instruction.\<close>

lemma insn_shape:
  assumes i: "insn_ok hl cm text i" "\<not> dead i" "decoded text i" "unat (i_pc i) + i_size i < 2 ^ 32" and f: "facts_regs f"
    and s': "s' = forward_insn seed promoted True \<lparr>w_text = text, w_insn = i, w_facts = f, w_changed = ch\<rparr>"
  shows "keeps_shape hl cm text i (w_text s') (w_insn s') \<and> facts_regs (w_facts s')"
proof (cases "known i")
  case True
  then have "text (i_pc i) = of_nat (i_op i)" using i(2,3) by (simp add: decoded_def)
  from forward_known_shape [OF True i(1,2) this i(4) f s'] show ?thesis
    by (auto simp: shape_def keeps_shape_def decoded_def falls_through_def True)
next
  case u: False
  show ?thesis
  proof (cases "is_jz (i_op i)")
    case True
    then have at: "text (i_pc i) = of_nat (i_op i)" and op: "i_op i = JZ3 \<or> i_op i = JNZ3"
      using i(2,3) by (auto simp: decoded_def is_jz_def)
    have "s' = forward_branch \<lparr>w_text = text, w_insn = i, w_facts = f, w_changed = ch\<rparr>"
      using op u i(2) s' by (auto simp: forward_insn_def forward_unknown_def Let_def)
    from branch_shape(1,2) [OF u True i(1) at i(4) f this] f show ?thesis by simp
  next
    case False
    then have "i_op i \<notin> {MOV3, FMOV3}" using u i(2,3) by (simp add: decoded_def)
    from unknown_insn(1-3) [OF u False i(2) this s'] show ?thesis using f i by (simp add: keeps_shape_def)
  qed
qed

lemma insn_run:
  assumes i: "insn_ok hl cm text i" "\<not> dead i" "decoded text i" "unat (i_pc i) + i_size i < 2 ^ 32" and f: "facts_ok f (regs vm)"
    and s': "s' = forward_insn seed promoted True \<lparr>w_text = text, w_insn = i, w_facts = f, w_changed = ch\<rparr>"
    and abi: "\<forall>w. run_insn opq hl cm text i vm = Inr w \<longrightarrow> known i \<or> is_jz (i_op i) \<or> abi_kept seed promoted text i vm w"
  shows "dead (w_insn s') \<Longrightarrow> run_insn opq hl cm text i vm = Inr (vm\<lparr>pc := next_of i\<rparr>)"
    "\<not> dead (w_insn s') \<Longrightarrow> sim_step (next_of i) (next_of (w_insn s')) (run_insn opq hl cm text i vm) (run_insn opq hl cm (w_text s') (w_insn s') vm)"
    "\<not> dead (w_insn s') \<Longrightarrow> known i \<Longrightarrow> note_ok opq hl cm (w_text s') (w_insn s') vm"
    "run_insn opq hl cm text i vm = Inr w \<Longrightarrow> i_op i \<notin> {LEV3, CALLT, LONGJMP} \<Longrightarrow> facts_ok (w_facts s') (regs w)"
proof -
  have "(dead (w_insn s') \<longrightarrow> run_insn opq hl cm text i vm = Inr (vm\<lparr>pc := next_of i\<rparr>)) \<and>
    (\<not> dead (w_insn s') \<longrightarrow> sim_step (next_of i) (next_of (w_insn s')) (run_insn opq hl cm text i vm) (run_insn opq hl cm (w_text s') (w_insn s') vm)) \<and>
    (\<not> dead (w_insn s') \<and> known i \<longrightarrow> note_ok opq hl cm (w_text s') (w_insn s') vm) \<and>
    (\<forall>w. run_insn opq hl cm text i vm = Inr w \<longrightarrow> i_op i \<notin> {LEV3, CALLT, LONGJMP} \<longrightarrow> facts_ok (w_facts s') (regs w))"
  proof (cases "known i")
    case True
    then have at: "text (i_pc i) = of_nat (i_op i)" using i(2,3) by (simp add: decoded_def)
    note K = forward_known_run [OF True i(1,2) at i(4) f s', of opq]
    have d: "run_insn opq hl cm text i vm = Inr (vm\<lparr>pc := next_of i\<rparr>)" if "dead (w_insn s')"
      using K(2) [OF that] run_known(1) [OF True i(1)] by (force simp: no_op_def next_of_def)
    have "sim_step (next_of i) (next_of (w_insn s')) (run_insn opq hl cm text i vm) (run_insn opq hl cm (w_text s') (w_insn s') vm)"
      using K(1) run_known(1) [OF True i(1), of opq vm] unfolding same_run_def
      by (cases "run_insn opq hl cm text i vm") (auto simp: next_of_def)
    with d K(3,4) show ?thesis by blast
  next
    case u: False
    show ?thesis
    proof (cases "is_jz (i_op i)")
      case True
      then have at: "text (i_pc i) = of_nat (i_op i)" and op: "i_op i = JZ3 \<or> i_op i = JNZ3"
        using i(2,3) by (auto simp: decoded_def is_jz_def)
      have "s' = forward_branch \<lparr>w_text = text, w_insn = i, w_facts = f, w_changed = ch\<rparr>"
        using op u i(2) s' by (auto simp: forward_insn_def forward_unknown_def Let_def)
      note B = branch_shape [OF u True i(1) at i(4) facts_ok_regs [OF f] this]
      have n: "next_of (w_insn s') = next_of i" using B(1,3) by (simp add: next_of_def keeps_shape_def)
      have r: "facts_ok (w_facts s') (regs w)" if "run_insn opq hl cm text i vm = Inr w" for w
        using that f unfolding run_insn_jz [OF True] B(2) by auto
      show ?thesis using B(4) [OF f, of opq] i(2) n r u
        by (cases "run_insn opq hl cm text i vm") auto
    next
      case False
      then have "i_op i \<notin> {MOV3, FMOV3}" using u i(2,3) by (simp add: decoded_def)
      note U = unknown_insn [OF u False i(2) this s']
      show ?thesis using U(1,2,4) f abi i(2) u False by (cases "run_insn opq hl cm text i vm") auto
    qed
  qed
  then show "dead (w_insn s') \<Longrightarrow> run_insn opq hl cm text i vm = Inr (vm\<lparr>pc := next_of i\<rparr>)"
    "\<not> dead (w_insn s') \<Longrightarrow> sim_step (next_of i) (next_of (w_insn s')) (run_insn opq hl cm text i vm) (run_insn opq hl cm (w_text s') (w_insn s') vm)"
    "\<not> dead (w_insn s') \<Longrightarrow> known i \<Longrightarrow> note_ok opq hl cm (w_text s') (w_insn s') vm"
    "run_insn opq hl cm text i vm = Inr w \<Longrightarrow> i_op i \<notin> {LEV3, CALLT, LONGJMP} \<Longrightarrow> facts_ok (w_facts s') (regs w)" by blast+
qed


subsection \<open>The block\<close>

lemma forward_block_Cons:
  assumes "forward_block seed promoted rewrite text (i # is) f = (t', js, f', ch)"
  obtains s' ts c where "s' = forward_insn seed promoted rewrite \<lparr>w_text = text, w_insn = i, w_facts = f, w_changed = False\<rparr>"
    "forward_block seed promoted rewrite (w_text s') is (w_facts s') = (t', ts, f', c)" "js = w_insn s' # ts"
  using assms by (auto simp: Let_def split: prod.split_asm)

lemma forward_insn_dead:
  "dead i \<Longrightarrow> forward_insn seed promoted rewrite \<lparr>w_text = text, w_insn = i, w_facts = f, w_changed = ch\<rparr> =
     \<lparr>w_text = text, w_insn = i, w_facts = f, w_changed = ch\<rparr>"
  by (simp add: forward_insn_def)

text \<open>The words of the others, and the layout.\<close>

definition no_longer :: "insn \<Rightarrow> insn \<Rightarrow> bool" where
  "no_longer i j \<longleftrightarrow> i_pc j = i_pc i \<and> i_size j \<le> i_size i"

lemma no_longer_before: "no_longer i i' \<Longrightarrow> no_longer j j' \<Longrightarrow> before i j \<Longrightarrow> before i' j'"
  by (auto simp: no_longer_def before_def)

lemma forward_head:
  assumes "block_ok hl cm text (i # is)" "\<forall>i \<in> set (i # is). decoded text i" "facts_regs f"
    and s': "s' = forward_insn seed promoted True \<lparr>w_text = text, w_insn = i, w_facts = f, w_changed = ch\<rparr>"
  shows "no_longer i (w_insn s')" "facts_regs (w_facts s')" "decoded (w_text s') (w_insn s')"
    "dead (w_insn s') \<or> insn_ok hl cm (w_text s') (w_insn s') \<and> (is \<noteq> [] \<longrightarrow> falls_through (w_insn s'))"
    "before i j \<or> before j i \<Longrightarrow> unat (i_pc j) + i_size j < 2 ^ 32 \<Longrightarrow> same_words text (w_text s') j"
    "\<forall>j \<in> set is. same_words text (w_text s') j" "block_ok hl cm (w_text s') is" "\<forall>j \<in> set is. decoded (w_text s') j"
proof -
  have I: "\<forall>j \<in> set is. before i j" "unat (i_pc i) + i_size i < 2 ^ 32" "block_ok hl cm text is"
      "dead i \<or> insn_ok hl cm text i \<and> (is \<noteq> [] \<longrightarrow> falls_through i)"
    using assms(1) by (simp_all add: block_ok_Cons)
  have D: "decoded text i" "\<forall>j \<in> set is. decoded text j" using assms(2) by simp_all
  have head: "no_longer i (w_insn s') \<and> (dead i \<and> w_insn s' = i \<and> w_text s' = text \<or> 0 < i_size i) \<and> changed_at i text (w_text s') \<and>
      (dead (w_insn s') \<or> insn_ok hl cm (w_text s') (w_insn s') \<and> (is \<noteq> [] \<longrightarrow> falls_through (w_insn s'))) \<and>
      decoded (w_text s') (w_insn s') \<and> facts_regs (w_facts s')"
  proof (cases "dead i")
    case True
    then show ?thesis using s' D(1) assms(3) by (simp add: forward_insn_dead no_longer_def)
  next
    case False
    then have ok: "insn_ok hl cm text i" and ft: "is \<noteq> [] \<longrightarrow> falls_through i" using I(4) by simp_all
    from insn_shape [OF ok False D(1) I(2) assms(3) s'] show ?thesis
      using ok ft by (auto simp: keeps_shape_def no_longer_def insn_ok_def)
  qed
  then show "no_longer i (w_insn s')" "facts_regs (w_facts s')" "decoded (w_text s') (w_insn s')"
    "dead (w_insn s') \<or> insn_ok hl cm (w_text s') (w_insn s') \<and> (is \<noteq> [] \<longrightarrow> falls_through (w_insn s'))" by blast+
  show at: "same_words text (w_text s') j" if "before i j \<or> before j i" "unat (i_pc j) + i_size j < 2 ^ 32" for j
  proof (cases "w_text s' = text")
    case False
    then have "0 < i_size i" using head by blast
    from changed_before [OF _ _ that(2) this] head that(1) show ?thesis by blast
  qed simp
  have "\<forall>j \<in> set is. unat (i_pc j) + i_size j < 2 ^ 32" using I(3) by (simp add: block_ok_def layout_def)
  then show same: "\<forall>j \<in> set is. same_words text (w_text s') j" using at I(1) by blast
  show "block_ok hl cm (w_text s') is" using I(3) same insn_ok_same by (auto simp: block_ok_def) blast+
  show "\<forall>j \<in> set is. decoded (w_text s') j"
  proof
    fix j assume j: "j \<in> set is"
    show "decoded (w_text s') j"
    proof (cases "dead j")
      case False
      then have "0 < i_size j" using I(3) j by (auto simp: block_ok_def insn_ok_def)
      then have "w_text s' (i_pc j) = text (i_pc j)" using same j unfolding same_words_def by force
      then show ?thesis using D(2) j by (auto simp: decoded_def)
    qed (simp add: decoded_def)
  qed
qed

lemma block_shape:
  assumes "block_ok hl cm text is" "\<forall>i \<in> set is. decoded text i" "facts_regs f"
    and "forward_block seed promoted True text is f = (t', js, f', ch)"
  shows "block_ok hl cm t' js \<and> list_all2 no_longer is js \<and> (\<forall>j \<in> set js. decoded t' j) \<and> facts_regs f' \<and>
    (\<forall>j. (\<forall>i \<in> set is. before j i) \<longrightarrow> unat (i_pc j) + i_size j < 2 ^ 32 \<longrightarrow> same_words text t' j)"
  using assms
proof (induction "is" arbitrary: "text" f t' js f' ch)
  case (Cons i "is")
  obtain s' ts c where s': "s' = forward_insn seed promoted True \<lparr>w_text = text, w_insn = i, w_facts = f, w_changed = False\<rparr>"
      and b: "forward_block seed promoted True (w_text s') is (w_facts s') = (t', ts, f', c)" and js: "js = w_insn s' # ts"
    by (rule forward_block_Cons [OF Cons.prems(4)])
  note H = forward_head [OF Cons.prems(1-3) s']
  note IH = Cons.IH [OF H(7,8,2) b]
  have I: "\<forall>j \<in> set is. before i j" "unat (i_pc i) + i_size i < 2 ^ 32" using Cons.prems(1) by (simp_all add: block_ok_Cons)
  have pcs: "unat (i_pc (w_insn s')) + i_size (w_insn s') < 2 ^ 32" using H(1) I(2) by (simp add: no_longer_def)
  have "before (w_insn s') j" if "j \<in> set is" for j
    using no_longer_before [OF H(1), of j j] I(1) that by (simp add: no_longer_def)
  then have tail: "same_words (w_text s') t' (w_insn s')" using IH pcs by blast
  have "before (w_insn s') j" if "j \<in> set ts" for j
  proof -
    obtain j0 where "j0 \<in> set is" "no_longer j0 j"
      using IH \<open>j \<in> set ts\<close> by (metis list_all2_conv_all_nth in_set_conv_nth)
    then show ?thesis using no_longer_before H(1) I(1) by blast
  qed
  moreover have "dead (w_insn s') \<or> insn_ok hl cm t' (w_insn s') \<and> (ts \<noteq> [] \<longrightarrow> falls_through (w_insn s'))"
  proof -
    have "ts \<noteq> [] \<longrightarrow> is \<noteq> []" using IH by auto
    then show ?thesis using H(4) insn_ok_same [OF tail] by blast
  qed
  moreover have "decoded t' (w_insn s')"
  proof (cases "dead (w_insn s')")
    case False
    then have "0 < i_size (w_insn s')" using H(4) by (simp add: insn_ok_def)
    then have "t' (i_pc (w_insn s')) = w_text s' (i_pc (w_insn s'))" using tail unfolding same_words_def by force
    then show ?thesis using H(3) by (auto simp: decoded_def)
  qed (simp add: decoded_def)
  moreover have "same_words text t' j" if "\<forall>k \<in> set (i # is). before j k" "unat (i_pc j) + i_size j < 2 ^ 32" for j
  proof -
    have "same_words text (w_text s') j" by (rule H(5)) (use that in simp_all)
    moreover have "same_words (w_text s') t' j" using IH that by simp
    ultimately show ?thesis by (rule same_words_trans)
  qed
  ultimately show ?case using IH H(1) pcs by (simp add: js block_ok_Cons)
qed simp

text \<open>The pc a block is entered with does not matter.\<close>

fun sim_reach :: "step + vm \<Rightarrow> step + vm \<Rightarrow> bool" where
  "sim_reach (Inl s) (Inl s') = (s' = s)"
| "sim_reach (Inr w) (Inr w') = (\<exists>p. w' = w\<lparr>pc := p\<rparr>)"
| "sim_reach _ _ = False"

lemma sim_reach_refl [simp]: "sim_reach r r"
proof (cases r)
  case (Inr w)
  then show ?thesis by (simp, intro exI [of _ "pc w"]) simp
qed simp

lemma sim_reach_trans: "sim_reach a b \<Longrightarrow> sim_reach b c \<Longrightarrow> sim_reach a c"
  by (cases a; cases b; cases c) auto

lemma sim_reach_run:
  "sim_reach (reach opq hl cm text is vm) (reach opq hl cm text' js vm') \<Longrightarrow>
     run_insns opq hl cm stop text' js vm' = run_insns opq hl cm stop text is vm"
  by (cases "reach opq hl cm text is vm"; cases "reach opq hl cm text' js vm'") (auto simp: run_insns_def)

lemma run_insn_pc [simp]: "run_insn opq hl cm text i (vm\<lparr>pc := p\<rparr>) = run_insn opq hl cm text i vm" for vm :: vm
  by (simp add: run_insn_def)

lemma reach_pc: "sim_reach (reach opq hl cm text is vm) (reach opq hl cm text is (vm\<lparr>pc := p\<rparr>))" for vm :: vm
  by (induction "is" arbitrary: p) (auto split: sum.split)

lemma note_pc [simp]: "note_ok opq hl cm text i (vm\<lparr>pc := p\<rparr>) = note_ok opq hl cm text i vm" for vm :: vm
  by (simp add: note_ok_def)

lemma notes_pc [simp]: "notes_ok opq hl cm text is (vm\<lparr>pc := p\<rparr>) = notes_ok opq hl cm text is vm" for vm :: vm
  by (induction "is") auto

lemma abi_kept_pc [simp]: "abi_kept seed promoted text i (vm\<lparr>pc := p\<rparr>) w = abi_kept seed promoted text i vm w" for vm :: vm
  by (simp add: abi_kept_def)

lemma abi_pc [simp]: "abi_ok opq hl cm seed promoted text is (vm\<lparr>pc := p\<rparr>) = abi_ok opq hl cm seed promoted text is vm" for vm :: vm
  by (induction "is") (auto split: sum.split)

lemma falls_not_exit: "insn_ok hl cm text i \<Longrightarrow> falls_through i \<Longrightarrow> i_op i \<notin> {LEV3, CALLT, LONGJMP}"
proof -
  assume i: "insn_ok hl cm text i" "falls_through i"
  show ?thesis
  proof (cases "known i")
    case True
    have "op_spec (i_op i) = Some (spec i)" using insn_ok_known [OF i(1) True] by metis
    then show ?thesis by (auto simp: op_spec_def)
  qed (use i(2) in \<open>auto simp: falls_through_def\<close>)
qed

context opaque_code
begin

lemma abi_same:
  assumes "\<forall>i \<in> set is. dead i \<or> insn_ok hl cm text i \<and> same_words text text' i"
  shows "abi_ok opq hl cm seed promoted text' is vm = abi_ok opq hl cm seed promoted text is vm"
  using assms
proof (induction "is" arbitrary: vm)
  case (Cons i "is")
  show ?case
  proof (cases "dead i")
    case False
    then have i: "insn_ok hl cm text i" "same_words text text' i" using Cons.prems by auto
    have "ctrl_kind text' i = ctrl_kind text i" if "\<not> is_jz (i_op i)"
      using that by (simp add: ctrl_kind_def is_jz_def Let_def)
    then have "abi_kept seed promoted text' i vm w = abi_kept seed promoted text i vm w" if "\<not> is_jz (i_op i)" for w
      using that by (simp add: abi_kept_def)
    then show ?thesis using Cons False run_i_same [OF i(2,1)] by (auto split: sum.split)
  qed (use Cons in simp)
qed simp

lemma block_run:
  assumes "block_ok hl cm text is" "\<forall>i \<in> set is. decoded text i" "facts_ok f (regs vm)"
    and "abi_ok opq hl cm seed promoted text is vm"
    and "forward_block seed promoted True text is f = (t', js, f', ch)"
  shows "sim_reach (go text is vm) (go t' js vm) \<and> notes_ok opq hl cm t' js vm"
  using assms
proof (induction "is" arbitrary: "text" f vm t' js f' ch)
  case (Cons i "is")
  obtain s' ts c where s': "s' = forward_insn seed promoted True \<lparr>w_text = text, w_insn = i, w_facts = f, w_changed = False\<rparr>"
      and b: "forward_block seed promoted True (w_text s') is (w_facts s') = (t', ts, f', c)" and js: "js = w_insn s' # ts"
    by (rule forward_block_Cons [OF Cons.prems(5)])
  show ?case
  proof (cases "dead i")
    case True
    then have "w_text s' = text" "w_insn s' = i" "w_facts s' = f" using s' by (simp_all add: forward_insn_dead)
    then show ?thesis using Cons.IH [of "text" f vm t' ts f' c] Cons.prems b True by (simp add: js block_ok_Cons)
  next
    case False
    have ok: "insn_ok hl cm text i" and ft: "is \<noteq> [] \<longrightarrow> falls_through i" and pcs: "unat (i_pc i) + i_size i < 2 ^ 32"
      and bef: "\<forall>j \<in> set is. before i j" and bt: "block_ok hl cm text is" using Cons.prems(1) False by (simp_all add: block_ok_Cons)
    have dec: "decoded text i" using Cons.prems(2) by simp
    have abi: "known i \<or> is_jz (i_op i) \<or> abi_kept seed promoted text i vm w"
        "pc w = next_of i \<Longrightarrow> abi_ok opq hl cm seed promoted text is w" if "run_i text i vm = Inr w" for w
      using Cons.prems(4) False that by (simp_all add: next_of_def)
    have "\<forall>w. run_i text i vm = Inr w \<longrightarrow> known i \<or> is_jz (i_op i) \<or> abi_kept seed promoted text i vm w"
      using abi(1) by blast
    note R = insn_run [OF ok False dec pcs Cons.prems(3) s' this]
    note H = forward_head [OF Cons.prems(1,2) facts_ok_regs [OF Cons.prems(3)] s']
    note S = block_shape [OF H(7,8,2) b]
    have pcs': "unat (i_pc (w_insn s')) + i_size (w_insn s') < 2 ^ 32" using H(1) pcs by (simp add: no_longer_def)
    have "before (w_insn s') j" if "j \<in> set is" for j
      using no_longer_before [OF H(1), of j j] bef that by (simp add: no_longer_def)
    then have tail: "same_words (w_text s') t' (w_insn s')" using S pcs' by blast
    have oks: "\<forall>j \<in> set is. dead j \<or> insn_ok hl cm text j \<and> same_words text (w_text s') j"
      using bt H(6) by (auto simp: block_ok_def)
    have IH: "sim_reach (go text is w) (go t' ts w) \<and> notes_ok opq hl cm t' ts w"
      if w: "run_i text i vm = Inr w" "pc w = next_of i" for w
    proof (cases "is = []")
      case True
      then show ?thesis using b by simp
    next
      case ne: False
      then have "facts_ok (w_facts s') (regs w)" using R(4) [OF w(1)] falls_not_exit [OF ok] ft by blast
      moreover have "abi_ok opq hl cm seed promoted (w_text s') is w" using abi(2) [OF w] abi_same [OF oks] by simp
      ultimately show ?thesis using Cons.IH [OF H(7,8) _ _ b] go_same [OF oks] by simp
    qed
    show ?thesis
    proof (cases "dead (w_insn s')")
      case True
      have w: "run_i text i vm = Inr (vm\<lparr>pc := next_of i\<rparr>)" by (rule R(1) [OF True])
      from IH [OF this] have "sim_reach (go text is (vm\<lparr>pc := next_of i\<rparr>)) (go t' ts vm)" "notes_ok opq hl cm t' ts vm"
        using sim_reach_trans [OF _ reach_pc [of opq hl cm t' ts "vm\<lparr>pc := next_of i\<rparr>" "pc vm"]] by auto
      then show ?thesis using False True w by (simp add: js next_of_def)
    next
      case nd: False
      have ok': "insn_ok hl cm (w_text s') (w_insn s')" using H(4) nd by blast
      have run: "run_i t' (w_insn s') vm = run_i (w_text s') (w_insn s') vm" by (rule run_i_same [OF tail ok'])
      have kn: "known (w_insn s') = known i"
        using insn_shape [OF ok False dec pcs facts_ok_regs [OF Cons.prems(3)] s'] by (simp add: keeps_shape_def)
      have nt: "known i \<Longrightarrow> note_ok opq hl cm t' (w_insn s') vm"
        using R(3) [OF nd] note_same [OF tail ok'] kn by simp
      note sim = R(2) [OF nd, folded run]
      show ?thesis
      proof (cases "run_i text i vm")
        case (Inl e)
        then show ?thesis using sim nd False nt kn by (cases "run_i t' (w_insn s') vm") (auto simp: js)
      next
        case (Inr w)
        then obtain w' where w': "run_i t' (w_insn s') vm = Inr w'" using sim by (cases "run_i t' (w_insn s') vm") auto
        show ?thesis
        proof (cases "pc w = next_of i")
          case True
          then have e: "w' = w\<lparr>pc := next_of (w_insn s')\<rparr>" using sim Inr w' by simp
          have "sim_reach (go text is w) (go t' ts w')" "notes_ok opq hl cm t' ts w'"
            using IH [OF Inr True] sim_reach_trans [OF _ reach_pc [of opq hl cm t' ts w]] by (auto simp: e)
          then show ?thesis using Inr w' True False nd nt kn by (simp add: js e next_of_def)
        next
          case f: False
          then have "w' = w" "next_of (w_insn s') = next_of i" using sim Inr w' by simp_all
          then show ?thesis using Inr w' f False nd nt kn by (simp add: js next_of_def)
        qed
      qed
    qed
  qed
qed simp

end

end
