(* ===== verification/Peep_Settled.thy ===== *)
theory Peep_Settled
  imports Peep_Round
begin

text \<open>
  The forward pass leaves no operation on one constant twice (\<open>settled\<close>): the constant is a point of
  the facts where the operation stands, so \<open>fold_in_place\<close> has folded it.
\<close>

subsection \<open>Constants are points\<close>

definition fed_points :: "text_words \<Rightarrow> insn list \<Rightarrow> facts \<Rightarrow> bool" where
  "fed_points text pre f \<longleftrightarrow> (\<forall>t P. li_feeds text P t pre \<longrightarrow> (\<exists>c. point_of f t = Some c \<and> P c))"

lemma point_cong: "lo f r = lo g r \<Longrightarrow> hi f r = hi g r \<Longrightarrow> point_of f r = point_of g r"
  by (simp add: point_of_def)

lemma assign_other:
  assumes "q \<noteq> r"
  shows "lo (assign_reg r x I f) q = lo f q" "hi (assign_reg r x I f) q = hi f q"
  using assms by (simp_all add: assign_reg_def fit_reg_def split_beta Let_def)

lemma facts_after_alu:
  assumes "known i" "insn_ok hl cm text i" "alu (i_op i) = Some g"
  shows "facts_after text i op f = record_copy text i op (case result_range text i op f of None \<Rightarrow> range_of_ext (result_ext text i op f) | Some I \<Rightarrow> I)
     (record_cmp text i (assign_reg (get_byte text i 0) (result_ext text i op f)
        (case result_range text i op f of None \<Rightarrow> range_of_ext (result_ext text i op f) | Some I \<Rightarrow> I) f))"
proof -
  note A = alu_role [OF assms]
  note E = effects_alu [OF assms(1) A(4) assms(3)]
  show ?thesis
    unfolding facts_after_def Let_def
    using fold_define_reg [OF E] A(2) by simp
qed

lemma facts_after_other:
  assumes "known i" "insn_ok hl cm text i" "q \<notin> dest_of text i"
  shows "point_of (facts_after text i (i_op i) f) q = point_of f q"
proof (cases "alu (i_op i)")
  case (Some g)
  have "q \<noteq> get_byte text i 0" using assms(3) alu_role(1) [OF assms(1,2) Some] by (simp add: dest_of_def)
  then show ?thesis unfolding facts_after_alu [OF assms(1,2) Some] by (intro point_cong) (simp_all add: assign_other)
next
  case None
  show ?thesis
  proof (cases "role (spec i) 0 = R_ID")
    case True
    then have "q \<noteq> get_byte text i 0" using assms(3) by (simp add: dest_of_def)
    then show ?thesis unfolding memory_facts_after [OF assms(1,2) None] using True
      by (intro point_cong) (simp_all add: assign_other)
  next
    case False
    then show ?thesis by (simp add: memory_facts_after [OF assms(1,2) None])
  qed
qed

lemma li_point:
  assumes "known i" "insn_ok hl cm text i" "i_op i = LI3"
  shows "point_of (facts_after text i (i_op i) f) (get_byte text i 0) = Some (insn_imm text i)"
proof -
  let ?v = "sint (insn_imm text i)" and ?rd = "get_byte text i 0"
  have g: "alu (i_op i) = Some (\<lambda>w a b c imm. Inr imm)" by (simp add: assms(3) alu_eval)
  have x: "result_ext text i LI3 f = ext_of_range ?v ?v" by (simp add: result_ext_def Let_def)
  have r: "result_range text i LI3 f = Some (?v, ?v)"
    by (simp add: result_range_def Let_def ext_result_def interval_op_def)
  obtain l h where lh: "range_of_ext (ext_of_range ?v ?v) = (l, h)" by (cases "range_of_ext (ext_of_range ?v ?v)")
  have "ext_fits (ext_of_range ?v ?v) ?v" by (rule ext_of_range_fits) simp_all
  then have "l \<le> ?v \<and> ?v \<le> h" using range_of_ext_prod [OF lh, of ?v] by simp
  then have "lo (assign_reg ?rd (ext_of_range ?v ?v) (?v, ?v) f) ?rd = ?v" "hi (assign_reg ?rd (ext_of_range ?v ?v) (?v, ?v) f) ?rd = ?v"
    by (simp_all add: assign_reg_def fit_reg_def lh Let_def)
  then show ?thesis unfolding facts_after_alu [OF assms(1,2) g] unfolding assms(3) x r option.case
    by (simp add: point_of_def)
qed

subsection \<open>Constants are folded\<close>

lemma folded_dead:
  assumes "fold_point text i (i_op i) f = Some v" "fold_in_place text i f = (t', i', b)"
  shows "dead i' = dead i"
  using assms by (auto simp: fold_in_place_def Let_def make_imm_op_def make_mov_def split: if_split_asm)

lemma fold_dead:
  assumes "known i" "insn_ok hl cm text i" "fold_in_place text i f = (t', i', b)" "\<not> dead i" "dead i'"
  shows "point_of f (get_byte t' i' 0) = None"
  using assms(3)
proof (cases rule: fold_in_place_guard)
  case 1
  then show ?thesis using assms(4,5) by simp
next
  case guard: 2
  have none: "fold_point text i (i_op i) f = None" using folded_dead [OF _ assms(3)] assms(4,5) by (cases "fold_point text i (i_op i) f") auto
  show ?thesis
    using assms(3)
  proof (cases rule: fold_in_place_cases)
    case (imm src)
    then have src: "src = get_byte text i 0" and i': "t' = text" "i' = i\<lparr>dead := True\<rparr>"
      using assms(4,5) by (auto simp: make_mov_def Let_def)
    then have id: "src = get_byte text i 1" and u: "\<And>a x y. fold_unary (i_op i) a x y (insn_imm text i) \<noteq> None \<and> fold_unary (i_op i) a x y (insn_imm text i) \<noteq> Some None"
      using imm(1) guard(4) by (auto simp: imm_identity_src_def fold_unary_def split: if_split_asm)
    have b: "get_byte t' i' 0 = get_byte text i 0" by (simp add: i' get_byte_def operand_def)
    show ?thesis
    proof (cases "point_of f (get_byte text i 1)")
      case (Some a)
      let ?u = "fold_unary (i_op i) a (point_of f (get_byte text i 2)) (point_of f (get_byte text i 3)) (insn_imm text i)"
      obtain q where "?u = Some (Some q)"
        using u [of a "point_of f (get_byte text i 2)" "point_of f (get_byte text i 3)"] by (cases ?u; cases "the ?u") auto
      then have "fold_point text i (i_op i) f \<noteq> None"
        using Some guard(1,3) assms(1) by (simp add: fold_point_def Let_def split: option.split)
      then show ?thesis using none by simp
    qed (use id src b in simp)
  qed (use assms(4,5) make_imm_fields(5) in \<open>auto simp: make_mov_def Let_def\<close>)
qed

lemma binary_folds:
  assumes "imm_opcode op False c \<noteq> None"
  shows "fold_unary op a x y m = None" "fold_binary op c c \<noteq> None"
    "op_spec op = Some (SPEC R_ID R_IU R_IU R_NO True False)" "op \<notin> {LI3, MOV3}"
proof -
  have op: "op \<in> {ADD3, MUL3, AND3, OR3, XOR3, SUB3, SHL3, SHR3, USHR3, SEQ3, SNE3, SLT3, SLE3, SGT3, SGE3, ULT3, ULE3}"
    using assms by (auto simp: imm_opcode_def split: if_split_asm)
  then show "fold_unary op a x y m = None" "op_spec op = Some (SPEC R_ID R_IU R_IU R_NO True False)" "op \<notin> {LI3, MOV3}"
    by (elim insertE emptyE; simp add: fold_unary_def op_spec_def)+
  have "\<not> (sint c < 0 \<or> sint c > 63)" if "op \<in> {SHL3, SHR3, USHR3}"
    using assms that by (auto simp: imm_opcode_def split: if_split_asm)
  then show "fold_binary op c c \<noteq> None" using op by (auto simp: fold_binary_def)
qed

lemma clash_folded:
  assumes "known i" "insn_ok hl cm text i" "fold_in_place text i f = (t', i', b)" "\<not> dead i'" "clash t' i'"
    and c: "point_of f (get_byte t' i' 1) = Some c" "imm_opcode (i_op i') False c \<noteq> None"
  shows False
proof -
  note B = binary_folds [OF c(2)]
  have nm: "i_op i' \<noteq> MOV3" "i_op i' \<noteq> LI3" "i_op i' \<noteq> ADDI3" using c(2) by (auto simp: imm_opcode_def)
  from assms(3) have "t' = text \<and> i' = i"
  proof (cases rule: fold_in_place_cases)
    case same
    then show ?thesis using assms(5) by (auto simp: clash_def)
  qed (use nm make_imm_fields(3) assms(4) in \<open>auto simp: make_mov_def Let_def\<close>)
  then have same: "t' = text" "i' = i" by blast+
  have sp: "op_spec (i_op i) = Some (spec i)" and wf: "insn_wf text i" using insn_ok_known [OF assms(2,1)] by metis+
  then have spi: "spec i = SPEC R_ID R_IU R_IU R_NO True False" using B(3) same by simp
  have z: "get_byte text i 0 \<noteq> REG_ZERO" using assms(1,2) spi by (simp add: insn_ok_def)
  have eq: "get_byte text i 2 = get_byte text i 1" "i_size i = 2" "fold_v i = None" using assms(5) same by (simp_all add: clash_def)
  have "fold_point text i (i_op i) f \<noteq> None"
    using assms(1) spi c(1) eq(1) B(1,2) same by (auto simp: fold_point_def Let_def split: option.split)
  then obtain v where v: "fold_point text i (i_op i) f = Some v" by blast
  have "i_op i \<noteq> LI3" "i_op i \<noteq> MOV3" using nm same by simp_all
  with v assms(3) spi z eq show False unfolding same fold_in_place_def Let_def
    by (auto simp: make_mov_def Let_def nm(1) [unfolded same] split: if_split_asm dest: arg_cong [of _ _ i_op] arg_cong [of _ _ fold_v])
qed

subsection \<open>One instruction\<close>

lemma fed_points_same:
  assumes "fed_points text pre f" "\<forall>j \<in> set pre. dead j \<or> insn_ok hl cm text j \<and> same_words text text' j"
  shows "fed_points text' pre f"
  using assms(1) li_feeds_same [OF assms(2)] by (simp add: fed_points_def)

lemma fed_dead: "dead i \<Longrightarrow> fed_points text pre f \<Longrightarrow> fed_points text (i # pre) f"
  by (simp add: fed_points_def)

lemma insn_settled:
  assumes i: "insn_ok hl cm text i" "\<not> dead i" "decoded text i" "unat (i_pc i) + i_size i < 2 ^ 32" and f: "facts_regs f"
    and s': "s' = forward_insn seed promoted True \<lparr>w_text = text, w_insn = i, w_facts = f, w_changed = ch\<rparr>"
    and fed: "fed_points text pre f" and pre: "\<forall>j \<in> set pre. dead j \<or> insn_ok hl cm text j \<and> same_words text (w_text s') j"
  shows "fed_points (w_text s') (w_insn s' # pre) (w_facts s') \<and> (dead (w_insn s') \<or> \<not> clash (w_text s') (w_insn s') \<or>
     \<not> li_feeds (w_text s') (\<lambda>c. imm_opcode (i_op (w_insn s')) False c \<noteq> None) (get_byte (w_text s') (w_insn s') 1) pre)"
proof -
  have fed': "fed_points (w_text s') pre f" by (rule fed_points_same [OF fed pre])
  show ?thesis
  proof (cases "known i")
    case False
    have k: "keeps_shape hl cm text i (w_text s') (w_insn s')" using insn_shape [OF i f s'] by blast
    then have nk: "\<not> known (w_insn s')" using False by (simp add: keeps_shape_def)
    then have c: "\<not> clash (w_text s') (w_insn s')" by (simp add: clash_def)
    show ?thesis
    proof (cases "dead (w_insn s')")
      case d: True
      have "is_jz (i_op i)"
      proof (rule ccontr)
        assume nj: "\<not> is_jz (i_op i)"
        then have "i_op i \<notin> {MOV3, FMOV3}" using False i(2,3) by (simp add: decoded_def)
        from unknown_insn(2) [OF False nj i(2) this s'] d i(2) show False by simp
      qed
      then have at: "text (i_pc i) = of_nat (i_op i)" and op: "i_op i = JZ3 \<or> i_op i = JNZ3" and jz: "is_jz (i_op i)"
        using i(2,3) by (auto simp: decoded_def is_jz_def)
      have "s' = forward_branch \<lparr>w_text = text, w_insn = i, w_facts = f, w_changed = ch\<rparr>"
        using op False i(2) s' by (auto simp: forward_insn_def forward_unknown_def Let_def)
      from branch_shape(2) [OF False jz i(1) at i(4) f this] show ?thesis using fed' fed_dead [OF d] c by simp
    next
      case nd: False
      then show ?thesis using c nk by (simp add: fed_points_def)
    qed
  next
    case True
    have at: "text (i_pc i) = of_nat (i_op i)" using i(2,3) True by (simp add: decoded_def)
    from True i(1,2) s' show ?thesis
    proof (cases rule: forward_known_cases)
      case self
      then show ?thesis using fed_dead [OF _ fed'] by simp
    next
      case (gone s1)
      have "dead (w_insn s')" "w_facts s' = f" using ext_stage(2,3) [OF True i(1,2) at i(4) gone(1)] gone(2) by simp_all
      then show ?thesis using fed_dead [OF _ fed'] by simp
    next
      case (stages s1 op t2 c2 b)
      note T = two_stages [OF True i(1,2) at i(4) f stages(1,2)]
      let ?i2 = "(w_insn s1)\<lparr>fold_v := None\<rparr>"
      have i2: "known ?i2" "insn_ok hl cm t2 ?i2" "t2 (i_pc ?i2) = of_nat (i_op ?i2)" "unat (i_pc ?i2) + i_size ?i2 < 2 ^ 32"
        using T(2) i(4) by (auto simp: shape_def)
      have st: "fold_in_place t2 ?i2 f = (w_text s', w_insn s', b)" using stages(3) T(1) by simp
      have sh: "shape hl cm t2 ?i2 (w_text s') (w_insn s')" using fold_shape [OF i2 _ st] by auto
      then have k': "known (w_insn s')" and ok': "insn_ok hl cm (w_text s') (w_insn s')" by (simp_all add: shape_def)
      note other = facts_after_other [OF k' ok', of _ f, folded stages(4) [unfolded T(1)]]
      have "fed_points (w_text s') (w_insn s' # pre) (w_facts s')"
        unfolding fed_points_def
      proof (intro allI impI)
        fix t P assume l: "li_feeds (w_text s') P t (w_insn s' # pre)"
        show "\<exists>c. point_of (w_facts s') t = Some c \<and> P c"
        proof (cases "dead (w_insn s')")
          case d: True
          then obtain c where c: "point_of f t = Some c" "P c" using l fed' by (auto simp: fed_points_def)
          then have "t \<notin> dest_of (w_text s') (w_insn s')"
            using fold_dead [OF i2(1,2) st T(3) d] by (auto simp: dest_of_def)
          then show ?thesis using other c by simp
        next
          case nd: False
          show ?thesis
          proof (cases "t \<in> dest_of (w_text s') (w_insn s')")
            case d: True
            then have "t = get_byte (w_text s') (w_insn s') 0" by (auto simp: dest_of_def split: if_split_asm)
            moreover have "i_op (w_insn s') = LI3" "P (insn_imm (w_text s') (w_insn s'))" using l nd d by simp_all
            ultimately show ?thesis using li_point [OF k' ok'] stages(4) by simp
          next
            case n: False
            then have "li_feeds (w_text s') P t pre" using l nd by simp
            then show ?thesis using other [OF n] fed' by (simp add: fed_points_def)
          qed
        qed
      qed
      moreover have "\<not> li_feeds (w_text s') (\<lambda>c. imm_opcode (i_op (w_insn s')) False c \<noteq> None) (get_byte (w_text s') (w_insn s') 1) pre"
        if "\<not> dead (w_insn s')" "clash (w_text s') (w_insn s')"
        using clash_folded [OF i2(1,2) st that] fed' unfolding fed_points_def by blast
      ultimately show ?thesis by blast
    qed
  qed
qed

subsection \<open>The block\<close>

lemma block_settled:
  assumes "block_ok hl cm text is" "\<forall>i \<in> set is. decoded text i" "facts_regs f"
    and "forward_block seed promoted True text is f = (t', js, f', ch)"
    and "fed_points text pre f" "settled text pre"
    and "\<forall>j \<in> set pre. dead j \<or> insn_ok hl cm text j" "\<forall>j \<in> set pre. unat (i_pc j) + i_size j < 2 ^ 32 \<and> (\<forall>i \<in> set is. before j i)"
  shows "settled t' (rev js @ pre)"
  using assms
proof (induction "is" arbitrary: "text" f pre t' js f' ch)
  case (Cons i "is")
  obtain s' ts c where s': "s' = forward_insn seed promoted True \<lparr>w_text = text, w_insn = i, w_facts = f, w_changed = False\<rparr>"
      and b: "forward_block seed promoted True (w_text s') is (w_facts s') = (t', ts, f', c)" and js: "js = w_insn s' # ts"
    by (rule forward_block_Cons [OF Cons.prems(4)])
  note H = forward_head [OF Cons.prems(1-3) s']
  have I: "\<forall>j \<in> set is. before i j" "unat (i_pc i) + i_size i < 2 ^ 32" "dead i \<or> insn_ok hl cm text i"
    using Cons.prems(1) unfolding block_ok_Cons by blast+
  have pre: "\<forall>j \<in> set pre. dead j \<or> insn_ok hl cm text j \<and> same_words text (w_text s') j"
    using H(5) Cons.prems(7,8) by auto
  have st: "settled (w_text s') pre" using settled_same [OF pre] Cons.prems(6) by simp
  have head: "fed_points (w_text s') (w_insn s' # pre) (w_facts s') \<and> settled (w_text s') (w_insn s' # pre)"
  proof (cases "dead i")
    case True
    then show ?thesis using s' Cons.prems(5) st fed_dead by (simp add: forward_insn_dead)
  next
    case False
    then show ?thesis using insn_settled [OF _ False _ I(2) Cons.prems(3) s' Cons.prems(5) pre] I(3) Cons.prems(2) st by simp
  qed
  have pre': "\<forall>j \<in> set (w_insn s' # pre). dead j \<or> insn_ok hl cm (w_text s') j"
    using pre H(4) insn_ok_same by auto
  have bef: "\<forall>j \<in> set (w_insn s' # pre). unat (i_pc j) + i_size j < 2 ^ 32 \<and> (\<forall>i \<in> set is. before j i)"
  proof -
    have "before (w_insn s') j" if "j \<in> set is" for j
      using no_longer_before [OF H(1), of j j] I(1) that by (simp add: no_longer_def)
    then show ?thesis using Cons.prems(8) H(1) I(2) by (auto simp: no_longer_def)
  qed
  show ?case using Cons.IH [OF H(7,8,2) b _ _ pre' bef] head by (simp add: js)
qed simp

lemma forward_block_ok:
  assumes "opaque_code opq hl cm" "block_ok hl cm text is" "\<forall>i \<in> set is. decoded text i" "facts_ok f (regs vm)"
    and "abi_ok opq hl cm seed promoted text is vm"
    and "forward_block seed promoted True text is f = (t', js, f', ch)"
  shows "block_ok hl cm t' js" "sim_reach (reach opq hl cm text is vm) (reach opq hl cm t' js vm)"
    "notes_ok opq hl cm t' js vm" "settled t' (rev js)"
proof -
  note f = facts_ok_regs [OF assms(4)]
  show "block_ok hl cm t' js" using block_shape [OF assms(2,3) f assms(6)] by blast
  show "sim_reach (reach opq hl cm text is vm) (reach opq hl cm t' js vm)" "notes_ok opq hl cm t' js vm"
    using opaque_code.block_run [OF assms] by blast+
  show "settled t' (rev js)"
    using block_settled [OF assms(2,3) f assms(6), of "[]"] by (simp add: fed_points_def)
qed

subsection \<open>Properties\<close>

text \<open>
  C5: The forward pass over a block keeps what the block computes. Take a decoded block and a
  machine whose registers satisfy the facts the pass starts from, and let the code the optimiser does not
  understand keep the calling convention. The rewritten block run from that machine ends in the same fault or
  leaves at the same place with the very same machine: branches decided by a constant, operands replaced by
  copies, extensions turned into copies and folded operations are all covered. It is again a block of
  well-formed instructions, the notes it carries for the backward pass hold along that run, and no operation
  on one constant twice is left in it, which is all the backward pass relies on.
\<close>

theorem forward_block_preserves:
  assumes "opaque_code opq hl cm" "block_ok hl cm text is" "\<forall>i \<in> set is. decoded text i" "facts_ok f (regs vm)"
    and "abi_ok opq hl cm seed promoted text is vm"
    and "forward_block seed promoted True text is f = (text', is', f', ch)"
  shows "run_insns opq hl cm stop text' is' vm = run_insns opq hl cm stop text is vm \<and>
    block_ok hl cm text' is' \<and> notes_ok opq hl cm text' is' vm \<and> settled text' (rev is')"
  using forward_block_ok [OF assms] sim_reach_run by blast

text \<open>
  C2: A round of the optimiser over a block keeps what the block computes: after the forward
  pass, under facts that hold of the registers, and then the backward pass, under a liveness, the block run
  from the same machine ends in the same fault, or leaves at the same place with the same memory and stack
  and the same value in every live register. Nothing is assumed of the notes one pass hands to the other.
\<close>

theorem block_round_preserves:
  assumes "opaque_code opq hl cm" "block_ok hl cm text is" "\<forall>i \<in> set is. decoded text i" "facts_ok f (regs vm)"
    and "abi_ok opq hl cm seed promoted text is vm"
    and "forward_block seed promoted True text is f = (text1, is1, f1, ch1)"
    and "backward_block text1 is1 (L, F) = (text2, is2, ch2)"
  shows "block_ok hl cm text2 is2 \<and>
    agree_step (live_regs L) (run_insns opq hl cm stop text is vm) (run_insns opq hl cm stop text2 is2 vm)"
proof -
  note W = forward_block_ok [OF assms(1-6)]
  have "run_insns opq hl cm stop text1 is1 vm = run_insns opq hl cm stop text is vm" by (rule sim_reach_run [OF W(2)])
  then show ?thesis using opaque_code.backward_block_ok [OF assms(1) W(1,3,4) assms(7)] agree_reach_run by metis
qed

text \<open>The block of \<open>fold_text\<close>, from a machine whose registers satisfy the facts of the seed.\<close>

lemma fold_start:
  fixes hl :: host_ranges and cm :: committer
  shows "block_ok hl cm fold_text fold_block" "\<forall>i \<in> set fold_block. decoded fold_text i"
    "facts_ok (facts_reset (\<lambda>_. 0)) (regs addi_vm)" "abi_ok opq hl cm (\<lambda>_. 0) 0 fold_text fold_block addi_vm"
proof -
  show "block_ok hl cm fold_text fold_block"
    by (simp add: fold_block_def block_ok_def layout_def before_def fold_fields insn_ok_def insn_wf_def fold_specs role_less4
        fold_insns imm_ok_def is_jz_def op_table_alu falls_through_def operand_words_def)
  show "\<forall>i \<in> set fold_block. decoded fold_text i"
    by (simp add: fold_block_def decoded_def fold_fields) (simp add: fold_text_def)
  show "facts_ok (facts_reset (\<lambda>_. 0)) (regs addi_vm)"
    by (rule facts_reset_ok) (simp add: seed_ok_def addi_vm_def)
  show "abi_ok opq hl cm (\<lambda>_. 0) 0 fold_text fold_block addi_vm"
    by (simp add: fold_block_def fold_fields split: sum.split)
qed

theorem forward_block_preserves_witness:
  "\<exists>text' is' f' ch. forward_block (\<lambda>_. 0) 0 True fold_text fold_block (facts_reset (\<lambda>_. 0)) = (text', is', f', ch) \<and>
     run_insns (branch_code (\<lambda>_ _. 0) (\<lambda>_ _ _. True)) (\<lambda>_ _. 0) (\<lambda>_ _ _. True) 6 text' is' addi_vm =
     run_insns (branch_code (\<lambda>_ _. 0) (\<lambda>_ _ _. True)) (\<lambda>_ _. 0) (\<lambda>_ _ _. True) 6 fold_text fold_block addi_vm"
proof -
  obtain text' is' f' ch where w: "forward_block (\<lambda>_. 0) 0 True fold_text fold_block (facts_reset (\<lambda>_. 0)) = (text', is', f', ch)"
    by (metis prod_cases4)
  with forward_block_preserves [OF branch_code_opaque fold_start w] show ?thesis by blast
qed

theorem block_round_preserves_witness:
  "\<exists>text1 is1 f1 ch1 text2 is2 ch2.
     forward_block (\<lambda>_. 0) 0 True fold_text fold_block (facts_reset (\<lambda>_. 0)) = (text1, is1, f1, ch1) \<and>
     backward_block text1 is1 (BIT 10, 0) = (text2, is2, ch2) \<and>
     agree_step (live_regs (BIT 10)) (run_insns (branch_code (\<lambda>_ _. 0) (\<lambda>_ _ _. True)) (\<lambda>_ _. 0) (\<lambda>_ _ _. True) 6 fold_text fold_block addi_vm)
       (run_insns (branch_code (\<lambda>_ _. 0) (\<lambda>_ _ _. True)) (\<lambda>_ _. 0) (\<lambda>_ _ _. True) 6 text2 is2 addi_vm)"
proof -
  obtain text1 is1 f1 ch1 where w: "forward_block (\<lambda>_. 0) 0 True fold_text fold_block (facts_reset (\<lambda>_. 0)) = (text1, is1, f1, ch1)"
    by (metis prod_cases4)
  obtain text2 is2 ch2 where b: "backward_block text1 is1 (BIT 10, 0) = (text2, is2, ch2)" by (metis prod_cases3)
  from block_round_preserves [OF branch_code_opaque fold_start w b] w b show ?thesis by blast
qed

end
