(* ===== verification/Peep_Entry.thy ===== *)
theory Peep_Entry
  imports Peep_Settled
begin

text \<open>
  The facts at the start of every block (\<open>exit_facts\<close>, \<open>narrow_entry_facts\<close>, \<open>compute_entry_facts\<close>,
  \<open>src/src/codegen_peep.c\<close>, lines 1794 to 1918). The fields \<open>in\<close> and \<open>reached\<close> of the blocks are a state of
  their own, \<open>entries\<close>, with one entry for every block number. Besides the definitions: intervals are
  never empty, and what the walk without rewriting says of the registers at the end of a block.
\<close>

subsection \<open>The facts that leave a block\<close>

type_synonym exits = "facts \<times> facts \<times> bool \<times> bool"

definition exit_facts :: "peep \<Rightarrow> nat \<Rightarrow> facts \<Rightarrow> exits" where
  "exit_facts p b f =
     (let (_, _, out, _) = forward_block (p_seed p) (p_promoted p) False (p_text p) (block_insns p b) f;
          last = p_ins p ! (b_last (p_blocks p ! b) - 1);
          is_cond = (ctrl_kind (p_text p) last = C_COND);
          has_fall = (is_cond \<and> b + 1 < length (p_blocks p));
          (jump, fall) = (if is_cond then branch_facts (p_text p) last out else (out, out))
      in (forget_copies fall, forget_copies jump, is_cond, has_fall))"

definition edge_facts :: "exits \<Rightarrow> nat \<Rightarrow> facts" where
  "edge_facts x s = (let (out, jump, is_cond, has_fall) = x in if is_cond \<and> \<not> (has_fall \<and> s = 0) then jump else out)"

subsection \<open>The iteration\<close>

record entries =
  en_facts :: "nat \<Rightarrow> facts"
  en_reached :: "nat \<Rightarrow> bool"

text \<open>One edge of block \<open>b\<close>: a block reached for the first time takes the facts, a later edge merges into
  them, and an edge back widens.\<close>

definition flow_edge :: "peep \<Rightarrow> nat \<Rightarrow> exits \<Rightarrow> nat \<Rightarrow> entries \<times> bool \<Rightarrow> entries \<times> bool" where
  "flow_edge p b x s = (\<lambda>(E, again).
     let si = b_succs (p_blocks p ! b) ! s; f = edge_facts x s
     in if ext_entry (p_blocks p ! si) then (E, again)
        else if \<not> en_reached E si
        then (E\<lparr>en_facts := (en_facts E)(si := f), en_reached := (en_reached E)(si := True)\<rparr>, True)
        else let (g, changed) = meet_facts (en_facts E si) f (si \<le> b)
             in (E\<lparr>en_facts := (en_facts E)(si := g)\<rparr>, again \<or> changed))"

definition entry_visit :: "peep \<Rightarrow> nat \<Rightarrow> entries \<times> bool \<Rightarrow> entries \<times> bool" where
  "entry_visit p b = (\<lambda>(E, again).
     if \<not> en_reached E b then (E, again)
     else fold (flow_edge p b (exit_facts p b (en_facts E b))) [0..<length (b_succs (p_blocks p ! b))] (E, again))"

definition entry_pass :: "peep \<Rightarrow> entries \<Rightarrow> entries \<times> bool" where
  "entry_pass p E = fold (entry_visit p) [0..<length (p_blocks p)] (E, False)"

text \<open>Up to \<open>k\<close> passes; \<open>None\<close> when the last of them still changed something.\<close>

fun entry_loop :: "peep \<Rightarrow> nat \<Rightarrow> entries \<Rightarrow> entries option" where
  "entry_loop p 0 E = None"
| "entry_loop p (Suc k) E = (let (E', again) = entry_pass p E in if again then entry_loop p k E' else Some E')"

definition entry_start :: "peep \<Rightarrow> entries" where
  "entry_start p = \<lparr>en_facts = (\<lambda>_. facts_reset (p_seed p)), en_reached = (\<lambda>b. ext_entry (p_blocks p ! b))\<rparr>"

subsection \<open>Narrowing\<close>

text \<open>The state is \<open>fresh\<close> and \<open>seen\<close>; an entry of \<open>fresh\<close> is written before it is read.\<close>

definition narrow_edge ::
  "peep \<Rightarrow> nat \<Rightarrow> exits \<Rightarrow> nat \<Rightarrow> (nat \<Rightarrow> facts) \<times> (nat \<Rightarrow> bool) \<Rightarrow> (nat \<Rightarrow> facts) \<times> (nat \<Rightarrow> bool)" where
  "narrow_edge p b x s = (\<lambda>(fresh, seen).
     let si = b_succs (p_blocks p ! b) ! s; f = edge_facts x s
     in if ext_entry (p_blocks p ! si) then (fresh, seen)
        else if \<not> seen si then (fresh(si := f), seen(si := True))
        else (fresh(si := fst (meet_facts (fresh si) f False)), seen))"

definition narrow_visit ::
  "peep \<Rightarrow> entries \<Rightarrow> nat \<Rightarrow> (nat \<Rightarrow> facts) \<times> (nat \<Rightarrow> bool) \<Rightarrow> (nat \<Rightarrow> facts) \<times> (nat \<Rightarrow> bool)" where
  "narrow_visit p E b =
     (if en_reached E b
      then fold (narrow_edge p b (exit_facts p b (en_facts E b))) [0..<length (b_succs (p_blocks p ! b))]
      else id)"

definition narrow_round :: "peep \<Rightarrow> entries \<Rightarrow> entries" where
  "narrow_round p E =
     (let n = length (p_blocks p);
          (fresh, seen) = fold (narrow_visit p E) [0..<n] (en_facts E, \<lambda>_. False)
      in E\<lparr>en_facts := (\<lambda>b. if b < n \<and> seen b then narrow_facts (en_facts E b) (fresh b) else en_facts E b)\<rparr>)"

fun narrow_entry_facts :: "peep \<Rightarrow> nat \<Rightarrow> entries \<Rightarrow> entries" where
  "narrow_entry_facts p 0 E = E"
| "narrow_entry_facts p (Suc rounds) E = narrow_entry_facts p rounds (narrow_round p E)"

definition compute_entry_facts :: "peep \<Rightarrow> nat \<Rightarrow> facts" where
  "compute_entry_facts p =
     (case entry_loop p 256 (entry_start p) of
        None \<Rightarrow> (\<lambda>_. facts_reset (p_seed p))
      | Some E \<Rightarrow>
          let E' = narrow_entry_facts p 2 E
          in (\<lambda>b. if en_reached E' b then en_facts E' b else facts_reset (p_seed p)))"

subsection \<open>Intervals are never empty\<close>

definition iv_wf :: "interval \<Rightarrow> bool" where
  "iv_wf I \<longleftrightarrow> ll_range (fst I) \<and> ll_range (snd I) \<and> fst I \<le> snd I"

definition tight :: "facts \<Rightarrow> bool" where
  "tight f \<longleftrightarrow> (\<forall>r. iv_wf (lo f r, hi f r))"

lemma tight_wf: "tight f \<Longrightarrow> facts_wf f"
  by (simp add: tight_def iv_wf_def facts_wf_def)

lemma tightD: "tight f \<Longrightarrow> iv_wf (lo f r, hi f r)"
  by (simp add: tight_def)

lemma range_of_ext_wf: "iv_wf (range_of_ext x)"
proof -
  obtain l h where lh: "range_of_ext x = (l, h)" by (cases "range_of_ext x")
  have "l \<le> 0 \<and> 0 \<le> h" using range_of_ext_prod [OF lh, of 0] by (simp add: ext_fits_bits limits ll_range_def)
  then show ?thesis using range_of_ext_ll [of x] lh by (simp add: iv_wf_def)
qed

lemma fit_reg_tight:
  assumes "\<forall>q. q \<noteq> r \<longrightarrow> iv_wf (lo f q, hi f q)" "iv_wf (lo f r, hi f r)"
  shows "tight (fit_reg r f)"
proof -
  obtain l h where lh: "range_of_ext (ext f r) = (l, h)" by (cases "range_of_ext (ext f r)")
  have "iv_wf (l, h)" using range_of_ext_wf [of "ext f r"] lh by simp
  then show ?thesis using assms by (auto simp: tight_def fit_reg_def lh Let_def iv_wf_def)
qed

lemma tight_cong: "lo g = lo f \<Longrightarrow> hi g = hi f \<Longrightarrow> tight g = tight f"
  by (simp add: tight_def)

lemma assign_tight: "tight f \<Longrightarrow> iv_wf (l, h) \<Longrightarrow> tight (f\<lparr>lo := (lo f)(r := l), hi := (hi f)(r := h), ext := e\<rparr>)"
  by (simp add: tight_def)

lemma facts_reset_tight: "tight (facts_reset seed)"
  using range_of_ext_wf by (auto simp: tight_def facts_reset_def iv_wf_def ll_range_def limits)

lemma facts_after_call_tight: "tight f \<Longrightarrow> tight (facts_after_call seed promoted f)"
  using facts_reset_tight [of seed] by (simp add: tight_def facts_after_call_def Let_def)

lemma define_reg_tight:
  assumes "tight f" "iv_wf I"
  shows "tight (define_reg e x I r f)"
proof -
  have "tight (fit_reg r ((kill_int r f)\<lparr>ext := (ext (kill_int r f))(r := x), lo := (lo (kill_int r f))(r := fst I),
      hi := (hi (kill_int r f))(r := snd I)\<rparr>))"
    by (rule fit_reg_tight) (use assms in \<open>simp_all add: tight_def\<close>)
  then show ?thesis using assms(1) by (simp add: define_reg_def Let_def kill_float_def tight_def)
qed

lemma iv_drop_bit_mono: "x \<le> y \<Longrightarrow> drop_bit n x \<le> drop_bit n y" for x y :: int
  by (simp add: drop_bit_eq_div zdiv_mono1)

lemma iv_drop_bit_ll: "ll_range x \<Longrightarrow> ll_range (drop_bit n x)" for x :: int
proof -
  assume x: "ll_range x"
  show ?thesis
  proof (cases "0 \<le> x")
    case True
    then have "0 \<le> x div 2 ^ n" "x div 2 ^ n \<le> x"
      using zdiv_mono2 [OF True, of 1 "2 ^ n"] by (simp_all add: pos_imp_zdiv_nonneg_iff)
    with x show ?thesis unfolding ll_range_def limits drop_bit_eq_div by simp
  next
    case False
    then have "x div 2 ^ n < 0" "x \<le> x div 2 ^ n"
      using zdiv_mono2_neg [of x 1 "2 ^ n"] by (simp_all add: pos_imp_zdiv_neg_iff)
    with x show ?thesis unfolding ll_range_def limits drop_bit_eq_div by simp
  qed
qed

lemma drop_bit_max:
  assumes "1 \<le> n" shows "ll_range (drop_bit n (18446744073709551615 :: int)) \<and> 0 \<le> drop_bit n (18446744073709551615 :: int)"
proof -
  have "(2 :: int) ^ 1 \<le> 2 ^ n" by (rule power_increasing) (use assms in simp_all)
  then have "(18446744073709551615 :: int) div 2 ^ n \<le> 18446744073709551615 div 2" by (intro zdiv_mono2) simp_all
  moreover have "0 \<le> (18446744073709551615 :: int) div 2 ^ n" by (simp add: pos_imp_zdiv_nonneg_iff)
  ultimately show ?thesis unfolding drop_bit_eq_div ll_range_def limits by simp
qed

lemma ll_zero: "ll_range 0"
  by (simp add: ll_range_def limits)

lemma interval_op_wf:
  assumes "interval_op op l1 h1 l2 h2 imm = Some I" "iv_wf (l1, h1)" "iv_wf (l2, h2)" "ll_range imm"
  shows "iv_wf I"
proof -
  have b: "ll_range l1" "ll_range h1" "l1 \<le> h1" "ll_range l2" "ll_range h2" "l2 \<le> h2" using assms(2,3) by (simp_all add: iv_wf_def)
  have flip: "ll_range (- x)" if "ll_range x" "x \<noteq> LLONG_MIN" for x using that by (auto simp: ll_range_def limits)
  have neg: "ll_range (NOT x)" if "ll_range x" for x using that by (auto simp: ll_range_def limits not_int_def)
  show ?thesis
  proof (cases "op = UMOD3")
    case True
    define h where "h = (if l1 \<ge> 0 then h1 else LLONG_MAX)"
    define h' where "h' = (if l2 \<ge> 1 \<and> h2 - 1 < h then h2 - 1 else h)"
    have "I = (0, h')" using assms(1) True by (auto simp: interval_op_def h'_def h_def Let_def split: if_split_asm)
    moreover have "0 \<le> h" "ll_range h" using b by (auto simp: h_def ll_range_def limits)
    then have "0 \<le> h'" "ll_range h'" using b by (auto simp: h'_def ll_range_def limits)
    ultimately show ?thesis using ll_zero by (simp add: iv_wf_def)
  next
    case False
    consider "op \<in> {NEG3, BNOT3}" | "op \<in> {SHRI3, USHRI3}" | "op \<notin> {NEG3, BNOT3, SHRI3, USHRI3}" by blast
    then show ?thesis
    proof cases
      case 1
      then show ?thesis using assms(1) b flip [of l1] flip [of h1] neg [of l1] neg [of h1]
        by (auto simp: interval_op_def iv_wf_def not_int_def ll_range_def split: if_split_asm)
    next
      case 2
      then show ?thesis using assms(1) b iv_drop_bit_ll iv_drop_bit_mono drop_bit_max [of "nat imm"] ll_zero
        by (auto simp: interval_op_def iv_wf_def split: if_split_asm)
    next
      case 3
      then show ?thesis using assms(1,4) b False ll_zero
        by (auto simp: interval_op_def no_overflow_def iv_wf_def split: if_split_asm)
    qed
  qed
qed

lemma result_range_wf:
  assumes "result_range text i op f = Some I" "tight f"
  shows "iv_wf I"
  using assms interval_op_wf [OF _ tightD [OF assms(2)] tightD [OF assms(2)] ll_range_sint]
  by (auto simp: result_range_def Let_def iv_wf_def ll_range_def [of 0] ll_range_def [of 1] limits split: option.split_asm if_split_asm)

lemma facts_after_tight:
  assumes "tight f" shows "tight (facts_after text i op f)"
proof -
  have I: "iv_wf (case result_range text i op f of None \<Rightarrow> range_of_ext x | Some I \<Rightarrow> I)" for x
    using result_range_wf [OF _ assms] range_of_ext_wf by (cases "result_range text i op f") simp_all
  have fold: "tight (fold (define_reg e x I) rs f)" if "iv_wf I" for e x I rs
    using assms that by (induction rs arbitrary: f) (simp_all add: define_reg_tight)
  have "tight (record_copy text i op I (record_cmp text i g)) = tight g" for I g
    by (rule tight_cong) (simp_all add: record_copy_def record_cmp_def Let_def split: option.split)
  then show ?thesis unfolding facts_after_def Let_def using fold [OF I] by blast
qed

lemma forward_insn_tight:
  assumes "tight f"
  shows "tight (w_facts (forward_insn seed promoted False \<lparr>w_text = text, w_insn = i, w_facts = f, w_changed = ch\<rparr>))"
proof -
  let ?s = "\<lparr>w_text = text, w_insn = i, w_facts = f, w_changed = ch\<rparr>"
  have call: "tight (g\<lparr>ext := e, lo := (lo g)(r := fst (range_of_ext x)), hi := (hi g)(r := snd (range_of_ext x))\<rparr>)"
    if "tight g" for g e r x using that range_of_ext_wf by (simp add: tight_def)
  have "tight (w_facts (forward_unknown seed promoted False ?s))"
    using assms facts_reset_tight call [OF facts_after_call_tight [OF assms]] facts_after_call_tight
    by (simp add: forward_unknown_def Let_def)
  moreover have "tight (w_facts (case forward_ext False ?s of (s1, None) \<Rightarrow> s1
      | (s1, Some op) \<Rightarrow> s1\<lparr>w_facts := facts_after (w_text s1) (w_insn s1) op (w_facts s1)\<rparr>))"
  proof -
    obtain s1 r where e: "forward_ext False ?s = (s1, r)" by (meson surj_pair)
    then have "w_facts s1 = f" by (auto simp: forward_ext_def Let_def split: if_split_asm)
    then show ?thesis using assms facts_after_tight by (cases r) (simp_all add: e)
  qed
  ultimately show ?thesis using assms by (simp add: forward_insn_def Let_def)
qed

lemma forward_block_tight:
  "forward_block seed promoted False text is f = (t', js, f', ch) \<Longrightarrow> tight f \<Longrightarrow> tight f'"
proof (induction "is" arbitrary: "text" f t' js f' ch)
  case (Cons i "is")
  then show ?case using forward_insn_tight by (elim forward_block_Cons) blast
qed simp

subsection \<open>The walk without rewriting\<close>

definition cmps_wf :: "facts \<Rightarrow> bool" where
  "cmps_wf f \<longleftrightarrow> (\<forall>c. fcmp f = Some c \<longrightarrow> cmp_wf c)"

lemma forward_ext_still:
  "forward_ext False s = (s1, r) \<Longrightarrow> s1 = s"
  by (auto simp: forward_ext_def Let_def split: if_split_asm)

lemma forward_insn_still:
  "w_text (forward_insn seed promoted False s) = w_text s" "w_insn (forward_insn seed promoted False s) = w_insn s"
proof -
  obtain s1 r where e: "forward_ext False s = (s1, r)" by (meson surj_pair)
  have u: "w_text (forward_unknown seed promoted False s) = w_text s \<and> w_insn (forward_unknown seed promoted False s) = w_insn s"
    by (simp add: forward_unknown_def Let_def)
  show "w_text (forward_insn seed promoted False s) = w_text s" "w_insn (forward_insn seed promoted False s) = w_insn s"
    using forward_ext_still [OF e] u by (cases r; simp add: forward_insn_def Let_def e)+
qed

lemma forward_known_still:
  assumes i: "known i" "insn_ok hl cm text i" "\<not> dead i" "text (i_pc i) = of_nat (i_op i)" and f: "facts_ok f (regs vm)"
    and s': "s' = forward_insn seed promoted False \<lparr>w_text = text, w_insn = i, w_facts = f, w_changed = ch\<rparr>"
    and w: "run_insn opq hl cm text i vm = Inr w"
  shows "facts_ok (w_facts s') (regs w)"
proof (cases "i_op i = MOV3 \<and> get_byte text i 0 = get_byte text i 1")
  case True
  have g: "alu (i_op i) = Some (\<lambda>w a b c imm. Inr a)" using True by (simp add: alu_eval)
  have "regs w = regs vm"
    using run_alu [OF i(1,2) g alu_role(1) [OF i(1,2) g], of opq vm] w True by (auto simp: insn_value_def)
  then show ?thesis using f i True s' by (simp add: forward_insn_def Let_def)
next
  case False
  let ?s = "\<lparr>w_text = text, w_insn = i, w_facts = f, w_changed = ch\<rparr>"
  obtain s1 r where e: "forward_ext False ?s = (s1, r)" by (meson surj_pair)
  have s1: "s1 = ?s" by (rule forward_ext_still [OF e])
  have s'_eq: "w_facts s' = (case r of None \<Rightarrow> f | Some op \<Rightarrow> facts_after text i op f)"
    using False i known_not_fmov [OF i(1,2)] s' e s1 by (cases r) (auto simp: forward_insn_def Let_def)
  show ?thesis
  proof (cases "ext_needed (i_op i) = 0")
    case True
    then have "r = Some (i_op i)" using e by (auto simp: forward_ext_def Let_def)
    then show ?thesis using known_facts [OF i(1,2) f _ w] s'_eq by (simp add: runs_as_def)
  next
    case n: False
    note E = ext_op [OF i(1,2) n]
    obtain v where v: "gives text i (regs vm) v (get_byte text i 0)" by (rule run_gives [OF i(1,2,4) E(3)]) (simp add: E(2))
    have z: "get_byte text i 0 \<noteq> 0" using i(1,2) E(2) by (simp add: insn_ok_def)
    have "round_ok ?s (regs vm) v (get_byte text i 0)" using v f by (simp add: round_ok_def)
    from forward_ext_ok [OF this z _ e] i(3) s1 have R: "r = None \<longrightarrow> v = regs vm (get_byte text i 0)"
      "\<forall>op. r = Some op \<longrightarrow> (\<exists>g. alu op = Some g \<and> insn_value text i (regs vm) g = Inr v)" by auto
    have rw: "regs w = (regs vm)(get_byte text i 0 := v)" using gives_run [OF v i(2), of opq] w by auto
    show ?thesis
    proof (cases r)
      case None
      then show ?thesis using R(1) rw f s'_eq by (simp add: fun_upd_idem)
    next
      case (Some op)
      have "op = i_op i \<or> op = MOV3" using e n Some by (auto simp: forward_ext_def Let_def split: if_split_asm)
      moreover have "v = regs vm (get_byte text i 1)" if "op = MOV3"
        using R(2) Some that by (auto simp: alu_eval insn_value_def)
      moreover obtain g where "alu (i_op i) = Some g" "insn_value text i (regs vm) g = Inr v" using v by (auto simp: gives_def)
      ultimately have "runs_as text i (regs vm) op" using n by (auto simp: runs_as_def)
      then show ?thesis using known_facts [OF i(1,2) f _ w] s'_eq Some by simp
    qed
  qed
qed

lemma insn_facts:
  assumes i: "insn_ok hl cm text i" "\<not> dead i" "decoded text i" and f: "facts_ok f (regs vm)"
    and s': "s' = forward_insn seed promoted False \<lparr>w_text = text, w_insn = i, w_facts = f, w_changed = ch\<rparr>"
    and w: "run_insn opq hl cm text i vm = Inr w"
    and abi: "known i \<or> is_jz (i_op i) \<or> abi_kept seed promoted text i vm w" and nx: "i_op i \<notin> {LEV3, CALLT, LONGJMP}"
  shows "facts_ok (w_facts s') (regs w)"
proof (cases "known i")
  case True
  then have "text (i_pc i) = of_nat (i_op i)" using i(2,3) by (simp add: decoded_def)
  from forward_known_still [OF True i(1,2) this f s' w] show ?thesis .
next
  case u: False
  show ?thesis
  proof (cases "is_jz (i_op i)")
    case True
    then have "w_facts s' = f" using u i(2) s' by (auto simp: forward_insn_def forward_unknown_def is_jz_def Let_def)
    then show ?thesis using run_insn_jz [OF True, of opq hl cm "text" vm] w f by auto
  next
    case False
    then have "i_op i \<notin> {MOV3, FMOV3}" using u i(2,3) by (simp add: decoded_def)
    from unknown_insn(4) [OF u False i(2) this s' f _ nx] show ?thesis using abi u False by blast
  qed
qed

lemma facts_after_cmps:
  assumes "known i" "insn_wf text i" "cmps_wf f"
  shows "cmps_wf (facts_after text i op f)"
proof -
  have "cmps_wf (fold (define_reg e x I) rs f)" for e x I rs
    using assms(3)
  proof (induction rs arbitrary: f)
    case (Cons r rs)
    have "cmps_wf (define_reg e x I r f)"
      using Cons.prems by (auto simp: cmps_wf_def define_reg_def kill_int_def kill_float_def Let_def split: option.split_asm if_split_asm)
    then show ?case using Cons.IH by simp
  qed simp
  then have "cmps_wf (record_cmp text i (fold (define_reg e x I) rs f))" for e x I rs
    using cmp_of_wf [OF _ assms(2,1)]
    by (auto simp: cmps_wf_def record_cmp_def Let_def split: option.splits if_splits)
  then show ?thesis unfolding facts_after_def Let_def by (simp add: cmps_wf_def record_copy_def Let_def)
qed

lemma forward_insn_cmps:
  assumes "insn_ok hl cm text i" "cmps_wf f"
  shows "cmps_wf (w_facts (forward_insn seed promoted False \<lparr>w_text = text, w_insn = i, w_facts = f, w_changed = ch\<rparr>))"
proof -
  let ?s = "\<lparr>w_text = text, w_insn = i, w_facts = f, w_changed = ch\<rparr>"
  have call: "cmps_wf ((facts_after_call seed promoted f)\<lparr>ext := e, lo := l, hi := h\<rparr>)" for e l h
    by (simp add: cmps_wf_def facts_after_call_def facts_reset_def Let_def)
  have u: "cmps_wf (w_facts (forward_unknown seed promoted False ?s))"
    using assms(2) call by (simp add: forward_unknown_def Let_def cmps_wf_def facts_reset_def facts_after_call_def)
  have k: "cmps_wf (w_facts (case forward_ext False ?s of (s1, None) \<Rightarrow> s1
      | (s1, Some op) \<Rightarrow> s1\<lparr>w_facts := facts_after (w_text s1) (w_insn s1) op (w_facts s1)\<rparr>))" if "known i"
  proof -
    obtain s1 r where e: "forward_ext False ?s = (s1, r)" by (meson surj_pair)
    have "insn_wf text i" using insn_ok_known [OF assms(1) that] by metis
    then show ?thesis using facts_after_cmps [OF that _ assms(2)] forward_ext_still [OF e] assms(2) by (cases r) (simp_all add: e)
  qed
  show ?thesis using assms(2) u k by (simp add: forward_insn_def Let_def)
qed

context opaque_code
begin

lemma block_facts:
  assumes "block_ok hl cm text is" "\<forall>i \<in> set is. decoded text i" "facts_ok f (regs vm)" "cmps_wf f"
    and "abi_ok opq hl cm seed promoted text is vm" "\<forall>i \<in> set is. dead i \<or> i_op i \<notin> {LEV3, CALLT, LONGJMP}"
    and "forward_block seed promoted False text is f = (t', js, f', ch)"
    and "go text is vm = Inr w \<or> go text is vm = Inl (Inr w)"
  shows "t' = text \<and> facts_ok f' (regs w) \<and> cmps_wf f'"
  using assms
proof (induction "is" arbitrary: f vm js ch)
  case (Cons i "is")
  define s' where "s' = forward_insn seed promoted False \<lparr>w_text = text, w_insn = i, w_facts = f, w_changed = False\<rparr>"
  obtain ts c where b: "forward_block seed promoted False text is (w_facts s') = (t', ts, f', c)"
    using Cons.prems(7) forward_insn_still(1) [of seed promoted "\<lparr>w_text = text, w_insn = i, w_facts = f, w_changed = False\<rparr>"]
    by (auto simp: s'_def Let_def split: prod.split_asm)
  have tl: "block_ok hl cm text is" "\<forall>i \<in> set is. decoded text i" "\<forall>i \<in> set is. dead i \<or> i_op i \<notin> {LEV3, CALLT, LONGJMP}"
    using Cons.prems(1,2,6) by (simp_all add: block_ok_Cons)
  note IH = Cons.IH [OF tl(1,2) _ _ _ tl(3) b]
  show ?case
  proof (cases "dead i")
    case True
    then have "w_facts s' = f" by (simp add: s'_def forward_insn_dead)
    then show ?thesis using IH Cons.prems(3-5,8) True by simp
  next
    case False
    have ok: "insn_ok hl cm text i" and ft: "is \<noteq> [] \<longrightarrow> falls_through i" and dec: "decoded text i"
      and nx: "i_op i \<notin> {LEV3, CALLT, LONGJMP}"
      using Cons.prems(1,2,6) False by (simp_all add: block_ok_Cons)
    have "\<exists>w1. run_i text i vm = Inr w1" using Cons.prems(8) False by (cases "run_i text i vm") auto
    then obtain w1 where w1: "run_i text i vm = Inr w1" by blast
    have abi: "known i \<or> is_jz (i_op i) \<or> abi_kept seed promoted text i vm w1"
        "pc w1 = i_pc i + of_nat (i_size i) \<Longrightarrow> abi_ok opq hl cm seed promoted text is w1"
      using Cons.prems(5) False w1 by simp_all
    have f1: "facts_ok (w_facts s') (regs w1)" by (rule insn_facts [OF ok False dec Cons.prems(3) s'_def w1 abi(1) nx])
    have c1: "cmps_wf (w_facts s')" unfolding s'_def by (rule forward_insn_cmps [OF ok Cons.prems(4)])
    show ?thesis
    proof (cases "pc w1 = i_pc i + of_nat (i_size i)")
      case True
      then show ?thesis using IH [OF f1 c1 abi(2)] Cons.prems(8) False w1 by simp
    next
      case off: False
      have "\<not> falls_through i"
      proof
        assume ft: "falls_through i"
        then have "known i \<or> \<not> is_jz (i_op i)" by (auto simp: falls_through_def is_jz_def)
        then show False using off run_known(1) [OF _ ok w1] opaque_next [OF _ ft] w1
          by (cases "known i") (auto simp: run_insn_def)
      qed
      then have "is = []" "w = w1" using ft Cons.prems(8) False w1 off by auto
      then show ?thesis using b f1 c1 by simp
    qed
  qed
qed simp

end

end
