(* ===== verification/Peep_Flow.thy ===== *)
theory Peep_Flow
  imports Peep_Entry
begin

text \<open>
  Soundness of \<open>compute_entry_facts\<close> (\<open>src/src/codegen_peep.c\<close>, lines 1875 to 1918): whenever control
  enters a block along the edges of the graph, the registers satisfy the facts computed for it. The
  widening iteration ends in facts every edge respects; narrowing keeps them sound because each state
  that enters a block comes in along an edge whose facts it satisfies.
\<close>

subsection \<open>Edges keep intervals and drop copies\<close>

definition plain :: "facts \<Rightarrow> bool" where
  "plain f \<longleftrightarrow> icopy f = (\<lambda>_. None) \<and> fcmp f = None"

lemma plain_ok: "plain f \<Longrightarrow> facts_ok f R \<longleftrightarrow> R REG_ZERO = 0 \<and> ranges_ok f R"
  by (simp add: plain_def facts_ok_def copies_ok_def)

lemma plain_cmps: "plain f \<Longrightarrow> cmps_wf f"
  by (simp add: plain_def cmps_wf_def)

lemma clip_wf:
  assumes "iv_wf x" "iv_wf y"
  shows "iv_wf (fst (clip r x y)) \<and> iv_wf (snd (clip r x y))"
proof -
  have e: "iv_wf (exclude_point v k)" if "iv_wf v" for v k
    using that by (auto simp: exclude_point_def iv_wf_def ll_range_def)
  show ?thesis
  proof (cases r)
    case REL_NE
    then show ?thesis using assms e by (simp add: clip_def clip_ne_def Let_def)
  next
    case REL_EQ
    then show ?thesis using assms by (auto simp: clip_def clip_eq_def Let_def iv_wf_def)
  qed (use assms in \<open>auto simp: clip_def clip_le_def Let_def iv_wf_def ll_range_def\<close>)
qed

lemma set_interval_tight: "tight f \<Longrightarrow> iv_wf I \<Longrightarrow> tight (set_interval r I f)"
  by (simp add: tight_def set_interval_def)

lemma fit_tight: "tight f \<Longrightarrow> tight (fit_reg r f)"
  by (rule fit_reg_tight) (simp_all add: tight_def)

lemma refine_cmp_tight:
  assumes "tight f" shows "tight (refine_cmp c truth f)"
proof (cases "cmp_form (cmp_op c) = None \<or> cmp_b c = Some (cmp_a c)")
  case True
  then show ?thesis using assms by (auto simp: refine_cmp_def split: option.split)
next
  case False
  then obtain cf where cf: "cmp_form (cmp_op c) = Some cf" and ne: "cmp_b c \<noteq> Some (cmp_a c)" by auto
  define x where "x = (lo f (cmp_a c), hi f (cmp_a c))"
  define y where "y = (case cmp_b c of Some b \<Rightarrow> (lo f b, hi f b) | None \<Rightarrow> (sint (cmp_imm c), sint (cmp_imm c)))"
  obtain r swap where rs: "(if truth then (cf_rel cf, cf_swap cf) else negate_rel (cf_rel cf) (cf_swap cf)) = (r, swap)" by (meson surj_pair)
  obtain x' y' where xy: "(if swap then prod.swap (clip r y x) else clip r x y) = (x', y')" by (meson surj_pair)
  have w: "iv_wf x" "iv_wf y" using assms by (auto simp: x_def y_def tightD iv_wf_def split: option.split) (auto simp: tight_def iv_wf_def)
  have w': "iv_wf x'" "iv_wf y'" using clip_wf [OF w, of r] clip_wf [OF w(2,1), of r] xy
    by (auto simp: prod.swap_def split: if_split_asm)
  have "refine_cmp c truth f = (if cf_uns cf \<and> (fst x < 0 \<or> fst y < 0) then f
      else let f1 = fit_reg (cmp_a c) (set_interval (cmp_a c) x' (case cmp_b c of None \<Rightarrow> f | Some b \<Rightarrow> set_interval b y' f))
           in case cmp_b c of None \<Rightarrow> f1 | Some b \<Rightarrow> fit_reg b f1)"
    unfolding refine_cmp_def cf option.case if_not_P [OF ne] Let_def x_def [symmetric] y_def [symmetric] rs prod.case xy ..
  moreover have "tight (case cmp_b c of None \<Rightarrow> f | Some b \<Rightarrow> set_interval b y' f)"
    using assms w'(2) set_interval_tight by (cases "cmp_b c") simp_all
  then have "tight (fit_reg (cmp_a c) (set_interval (cmp_a c) x' (case cmp_b c of None \<Rightarrow> f | Some b \<Rightarrow> set_interval b y' f)))"
    by (intro fit_tight set_interval_tight w'(1))
  ultimately show ?thesis using assms fit_tight by (cases "cmp_b c") (simp_all add: Let_def)
qed

lemma edge_facts_good:
  assumes "tight f" shows "tight (edge_facts (exit_facts p b f) s)" "plain (edge_facts (exit_facts p b f) s)"
proof -
  obtain t' js out ch where w: "forward_block (p_seed p) (p_promoted p) False (p_text p) (block_insns p b) f = (t', js, out, ch)"
    by (metis prod_cases4)
  let ?last = "p_ins p ! (b_last (p_blocks p ! b) - 1)"
  obtain jump fall where j: "(if ctrl_kind (p_text p) ?last = C_COND then branch_facts (p_text p) ?last out else (out, out)) = (jump, fall)"
    by (meson surj_pair)
  have out: "tight out" by (rule forward_block_tight [OF w assms])
  have "tight jump \<and> tight fall"
    using j out refine_cmp_tight [OF out] by (auto simp: branch_facts_def Let_def split: if_split_asm option.split_asm)
  moreover have "exit_facts p b f = (forget_copies fall, forget_copies jump, ctrl_kind (p_text p) ?last = C_COND,
      ctrl_kind (p_text p) ?last = C_COND \<and> b + 1 < length (p_blocks p))"
    unfolding exit_facts_def w Let_def prod.case j ..
  ultimately show "tight (edge_facts (exit_facts p b f) s)" "plain (edge_facts (exit_facts p b f) s)"
    by (simp_all add: edge_facts_def tight_def forget_copies_def plain_def)
qed

subsection \<open>Merging and narrowing\<close>

lemma fold_loud:
  assumes "\<And>x s. snd (f x (s, True))" shows "snd (fold f xs (s, True))"
proof (induction xs arbitrary: s)
  case (Cons x xs)
  obtain t b where t: "f x (s, True) = (t, b)" by (meson surj_pair)
  then show ?case using Cons.IH [of t] assms [of x s] by simp
qed simp

lemma fold_quiet:
  assumes "\<And>x s s'. f x (s, False) = (s', False) \<Longrightarrow> s' = s \<and> Q x s" "\<And>x s. snd (f x (s, True))"
  shows "fold f xs (s, False) = (s', False) \<Longrightarrow> s' = s \<and> (\<forall>x \<in> set xs. Q x s)"
proof (induction xs)
  case (Cons x xs)
  have loud: "snd (fold f ys (t, True))" for ys t by (rule fold_loud) (rule assms(2))
  obtain t b where t: "f x (s, False) = (t, b)" by (meson surj_pair)
  then have "\<not> b" using loud [of xs t] Cons.prems by (cases b) auto
  then have "t = s \<and> Q x s" using assms(1) t by simp
  then show ?case using Cons t \<open>\<not> b\<close> by simp
qed simp

lemma meet_same:
  assumes "meet_facts dst src widen = (g, False)" shows "g = dst"
proof -
  have "d' = d \<and> True" if "meet_reg src widen r (d, False) = (d', False)" for r d d'
    using that by (auto simp: meet_reg_def fit_reg_def Let_def split_beta fun_upd_idem split: if_split_asm)
  moreover have "snd (meet_reg src widen r (d, True))" for r d by (simp add: meet_reg_def Let_def)
  ultimately show ?thesis
    using fold_quiet [of "meet_reg src widen" "\<lambda>_ _. True" "[0..<NUM_REGS]" dst g] assms unfolding meet_facts_def by blast
qed

lemma meet_good:
  assumes "tight dst" "tight src" "plain dst"
  shows "tight (fst (meet_facts dst src widen))" "plain (fst (meet_facts dst src widen))"
    "facts_ok src R \<or> facts_ok dst R \<Longrightarrow> facts_ok (fst (meet_facts dst src widen)) R"
proof -
  have step: "tight (fst (meet_reg src widen r (d, ch)))" if "tight d" for r d ch
  proof -
    define l where "l = (if lo src r < lo d r then (if widen then widen_down (lo src r) else lo src r) else lo d r)"
    define h where "h = (if hi d r < hi src r then (if widen then widen_up (hi src r) else hi src r) else hi d r)"
    have "iv_wf (l, h)" using tightD [OF that, of r] tightD [OF assms(2), of r] widen_down_le [of "lo src r"] widen_up_ge [of "hi src r"]
      by (auto simp: iv_wf_def l_def h_def)
    then have "tight (fit_reg r (d\<lparr>ext := e, lo := (lo d)(r := l), hi := (hi d)(r := h)\<rparr>))" for e
      by (intro fit_tight) (use that in \<open>simp add: tight_def\<close>)
    then show ?thesis using that by (simp add: meet_reg_def Let_def l_def [symmetric] h_def [symmetric])
  qed
  have "tight (fst (fold (meet_reg src widen) rs X))" if "tight (fst X)" for rs X
    using that
  proof (induction rs arbitrary: X)
    case (Cons r rs)
    then show ?case using step [of "fst X" r "snd X"] by simp
  qed simp
  then show "tight (fst (meet_facts dst src widen))" using assms(1) by (simp add: meet_facts_def)
  have "\<forall>r \<in> set [0..<NUM_REGS]. ll_range (lo f r) \<and> ll_range (hi f r)" if "tight f" for f
    using that by (simp add: tight_def iv_wf_def)
  from meet_fold [OF _ this [OF assms(2)], of "(dst, False)"] this [OF assms(1)]
  show p: "plain (fst (meet_facts dst src widen))" using assms(3) by (simp add: meet_facts_def plain_def)
  assume "facts_ok src R \<or> facts_ok dst R"
  then show "facts_ok (fst (meet_facts dst src widen)) R"
    unfolding plain_ok [OF p] using meet_facts_ok(1) [OF tight_wf [OF assms(1)] tight_wf [OF assms(2)]]
    by (auto simp: facts_ok_def ranges_ok_def)
qed

lemma narrow_good:
  assumes "tight dst" "plain dst"
  shows "tight (narrow_facts dst src)" "plain (narrow_facts dst src)"
    "facts_ok src R \<Longrightarrow> facts_ok dst R \<Longrightarrow> facts_ok (narrow_facts dst src) R"
proof -
  have step: "plain (narrow_reg src r d)" if "plain d" for r d
    using that by (simp add: narrow_reg_def Let_def plain_def)
  then have "plain (fold (narrow_reg src) rs d)" if "plain d" for rs d
    using that by (induction rs arbitrary: d) simp_all
  then show p: "plain (narrow_facts dst src)" using assms(2) by (simp add: narrow_facts_def)
  show "facts_ok src R \<Longrightarrow> facts_ok dst R \<Longrightarrow> facts_ok (narrow_facts dst src) R"
    unfolding plain_ok [OF p] using narrow_facts_ok by (auto simp: facts_ok_def ranges_ok_def)
  have "tight (narrow_reg src r d)" if d: "tight d" for r d
  proof -
    define l where "l = (if lo src r < lo d r then lo d r else lo src r)"
    define h where "h = (if hi d r < hi src r then hi d r else hi src r)"
    have "iv_wf (l, h)" if "\<not> h < l"
    proof -
      have "lo d r \<le> l" "h \<le> hi d r" "l \<le> h" using that by (simp_all add: l_def h_def)
      then show ?thesis using tightD [OF d, of r] by (simp add: iv_wf_def ll_range_def)
    qed
    then have "tight (fit_reg r (d\<lparr>lo := (lo d)(r := l), hi := (hi d)(r := h), ext := e\<rparr>))" if "\<not> h < l" for e
      using that d by (intro fit_tight) (simp add: tight_def)
    then show ?thesis using d by (simp add: narrow_reg_def Let_def l_def [symmetric] h_def [symmetric])
  qed
  then have "tight (fold (narrow_reg src) rs d)" if "tight d" for rs d
    using that by (induction rs arbitrary: d) simp_all
  then show "tight (narrow_facts dst src)" using assms(1) by (simp add: narrow_facts_def)
qed

subsection \<open>Runs along the graph\<close>

definition start_pc :: "peep \<Rightarrow> nat \<Rightarrow> u32" where
  "start_pc p b = i_pc (p_ins p ! b_first (p_blocks p ! b))"

definition last_insn :: "peep \<Rightarrow> nat \<Rightarrow> insn" where
  "last_insn p b = p_ins p ! (b_last (p_blocks p ! b) - 1)"

text \<open>Where control goes that falls off the end of a block.\<close>

definition end_pc :: "peep \<Rightarrow> nat \<Rightarrow> u32" where
  "end_pc p b = (if b + 1 < length (p_blocks p) then start_pc p (b + 1) else p_end p)"

text \<open>A graph as the optimiser has it: blocks of decoded instructions, before any branch is fused, with
  the successors of \<open>compute_succs\<close>; the offset a block starts at leads to that block; and no gap
  follows a conditional branch.\<close>

definition graph_ok :: "host_ranges \<Rightarrow> committer \<Rightarrow> peep \<Rightarrow> bool" where
  "graph_ok hl cm p \<longleftrightarrow> (\<forall>b < length (p_blocks p).
     b_first (p_blocks p ! b) < b_last (p_blocks p ! b) \<and> b_last (p_blocks p ! b) \<le> length (p_ins p) \<and>
     b_succs (p_blocks p ! b) = succs_of p b \<and> target_block p (start_pc p b) = [b] \<and>
     block_ok hl cm (p_text p) (block_insns p b) \<and>
     (\<forall>i \<in> set (block_insns p b). decoded (p_text p) i \<and> \<not> IS_FUSED_BR (i_op i)) \<and>
     (ctrl_kind (p_text p) (last_insn p b) = C_COND \<and> b + 1 < length (p_blocks p) \<longrightarrow>
        start_pc p (b + 1) = next_of (last_insn p b)))"

text \<open>The machines that enter a block: a block that can be entered from outside the graph, with registers
  the seed holds of; or the block a run of another one ends at, along an edge.\<close>

inductive enters :: "opaque \<Rightarrow> host_ranges \<Rightarrow> committer \<Rightarrow> peep \<Rightarrow> nat \<Rightarrow> vm \<Rightarrow> bool" for opq hl cm p where
  outside: "b < length (p_blocks p) \<Longrightarrow> ext_entry (p_blocks p ! b) \<Longrightarrow> seed_ok (p_seed p) (regs vm) \<Longrightarrow>
    enters opq hl cm p b vm"
| edge: "enters opq hl cm p b vm \<Longrightarrow> abi_ok opq hl cm (p_seed p) (p_promoted p) (p_text p) (block_insns p b) vm \<Longrightarrow>
    run_insns opq hl cm (end_pc p b) (p_text p) (block_insns p b) vm = Inr w \<Longrightarrow>
    c \<in> set (b_succs (p_blocks p ! b)) \<Longrightarrow> c < length (p_blocks p) \<Longrightarrow> pc w = start_pc p c \<Longrightarrow>
    (ext_entry (p_blocks p ! c) \<Longrightarrow> seed_ok (p_seed p) (regs w)) \<Longrightarrow> enters opq hl cm p c w"

lemma enters_range: "enters opq hl cm p b vm \<Longrightarrow> b < length (p_blocks p)"
  by (cases rule: enters.cases) simp_all

lemma block_insns_last:
  assumes "b_first (p_blocks p ! b) < b_last (p_blocks p ! b)" "b_last (p_blocks p ! b) \<le> length (p_ins p)"
  obtains pre where "block_insns p b = pre @ [last_insn p b]"
proof -
  let ?f = "b_first (p_blocks p ! b)" and ?l = "b_last (p_blocks p ! b)"
  have "block_insns p b \<noteq> []" "last (block_insns p b) = last_insn p b"
    using assms by (simp_all add: block_insns_def Let_def last_insn_def last_conv_nth)
  then show ?thesis using that by (metis append_butlast_last_id)
qed

text \<open>The edge a run leaves by.\<close>

lemma cond_insn:
  assumes "ctrl_kind text i = C_COND" "\<not> IS_FUSED_BR (i_op i)"
  shows "\<not> dead i" "i_op i = JZ3 \<or> i_op i = JNZ3"
  using assms by (auto simp: ctrl_kind_def Let_def split: if_split_asm)

context opaque_code
begin

lemma cond_edge:
  assumes g: "graph_ok hl cm p" and b: "b < length (p_blocks p)" and k: "ctrl_kind (p_text p) (last_insn p b) = C_COND"
    and run: "run_insns opq hl cm (end_pc p b) (p_text p) (block_insns p b) vm = Inr w"
    and c: "c < length (p_blocks p)" "pc w = start_pc p c"
  shows "if (regs w (get_byte (p_text p) (last_insn p b) 0) = 0) = (i_op (last_insn p b) = JZ3)
    then target_block p (p_text p (i_pc (last_insn p b) + 2)) = [c]
    else b + 1 < length (p_blocks p) \<and> c = b + 1"
proof -
  let ?t = "p_text p" and ?i = "last_insn p b" and ?n = "length (p_blocks p)"
  have G: "b_first (p_blocks p ! b) < b_last (p_blocks p ! b)" "b_last (p_blocks p ! b) \<le> length (p_ins p)"
      "block_ok hl cm ?t (block_insns p b)" "\<forall>i \<in> set (block_insns p b). \<not> IS_FUSED_BR (i_op i)"
      "b + 1 < ?n \<Longrightarrow> start_pc p (b + 1) = next_of ?i"
    using g b k by (auto simp: graph_ok_def)
  have tb: "target_block p (start_pc p c) = [c]" if "c < ?n" for c using g that by (auto simp: graph_ok_def)
  obtain pre where bi: "block_insns p b = pre @ [?i]" by (rule block_insns_last [OF G(1,2)])
  have i: "\<not> dead ?i" "is_jz (i_op ?i)" using cond_insn [OF k] G(4) bi by (auto simp: is_jz_def)
  have ok: "insn_ok hl cm ?t ?i" and pre: "\<forall>i \<in> set pre. dead i \<or> insn_ok hl cm ?t i \<and> falls_through i"
    using G(3) i(1) bi by (auto simp: block_ok_def)
  have sz: "i_size ?i = 3" using ok i(2) by (simp add: insn_ok_def)
  obtain w1 where w1: "go ?t pre vm = Inr w1"
    using run go_through [OF pre] bi by (cases "go ?t pre vm") (auto simp: run_insns_def go_append)
  define tk where "tk \<longleftrightarrow> (regs w1 (get_byte ?t ?i 0) = 0) = (i_op ?i = JZ3)"
  let ?to = "if tk then ?t (i_pc ?i + 2) else i_pc ?i + 3"
  have ri: "run_i ?t ?i w1 = Inr (w1\<lparr>pc := ?to\<rparr>)" by (simp add: run_insn_jz [OF i(2)] tk_def)
  have w: "w = (if ?to = i_pc ?i + 3 then w1\<lparr>pc := end_pc p b\<rparr> else w1\<lparr>pc := ?to\<rparr>)"
    using run i(1) bi w1 ri sz by (auto simp: run_insns_def go_append split: if_split_asm)
  have rw: "regs w = regs w1" by (simp add: w)
  have inw: "start_pc p c < p_end p" using tb [OF c(1)] by (auto simp: target_block_def in_window_def split: if_split_asm)
  have fall: "b + 1 < ?n \<and> start_pc p c = i_pc ?i + 3 \<and> c = b + 1" if "?to = i_pc ?i + 3"
  proof -
    have e: "start_pc p c = end_pc p b" using c(2) w that by simp
    then have n: "b + 1 < ?n" using inw by (simp add: end_pc_def split: if_split_asm)
    then have "start_pc p c = start_pc p (b + 1)" using e by (simp add: end_pc_def)
    then have "[c] = [b + 1]" using tb [OF c(1)] tb [OF n] by simp
    then show ?thesis using n G(5) e by (simp add: end_pc_def next_of_def sz)
  qed
  show ?thesis
  proof (cases tk)
    case True
    have "start_pc p c = ?t (i_pc ?i + 2)" using fall c(2) w True by (cases "?t (i_pc ?i + 2) = i_pc ?i + 3") auto
    then show ?thesis using True tb [OF c(1)] rw by (simp add: tk_def)
  next
    case False
    then show ?thesis using fall rw by (simp add: tk_def)
  qed
qed

lemma edge_sound:
  assumes g: "graph_ok hl cm p" and b: "b < length (p_blocks p)" and f: "facts_ok f (regs vm)" "cmps_wf f"
    and abi: "abi_ok opq hl cm (p_seed p) (p_promoted p) (p_text p) (block_insns p b) vm"
    and run: "run_insns opq hl cm (end_pc p b) (p_text p) (block_insns p b) vm = Inr w"
    and c: "c \<in> set (b_succs (p_blocks p ! b))" "c < length (p_blocks p)" "pc w = start_pc p c"
  obtains s where "s < length (b_succs (p_blocks p ! b))" "b_succs (p_blocks p ! b) ! s = c"
    "facts_ok (edge_facts (exit_facts p b f) s) (regs w)"
proof -
  let ?t = "p_text p" and ?i = "last_insn p b" and ?n = "length (p_blocks p)" and ?ss = "b_succs (p_blocks p ! b)"
  have G: "b_first (p_blocks p ! b) < b_last (p_blocks p ! b)" "b_last (p_blocks p ! b) \<le> length (p_ins p)"
      "block_ok hl cm ?t (block_insns p b)" "\<forall>i \<in> set (block_insns p b). decoded ?t i \<and> \<not> IS_FUSED_BR (i_op i)"
      "?ss = succs_of p b"
    using g b by (auto simp: graph_ok_def)
  obtain pre where bi: "block_insns p b = pre @ [?i]" by (rule block_insns_last [OF G(1,2)])
  obtain t' js out ch where w: "forward_block (p_seed p) (p_promoted p) False ?t (block_insns p b) f = (t', js, out, ch)"
    by (metis prod_cases4)
  have nx: "dead ?i \<or> i_op ?i \<notin> {LEV3, CALLT, LONGJMP}"
  proof (rule ccontr)
    assume "\<not> ?thesis"
    then have e: "\<not> dead ?i" "i_op ?i = LEV3 \<or> i_op ?i = CALLT \<or> i_op ?i = LONGJMP" by auto
    then have "ctrl_kind ?t ?i = C_EXIT" by (auto simp: ctrl_kind_def)
    then have "?ss = []" using e unfolding G(5) succs_of_def Let_def last_insn_def [symmetric] by auto
    then show False using c(1) by simp
  qed
  have nxs: "\<forall>i \<in> set (block_insns p b). dead i \<or> i_op i \<notin> {LEV3, CALLT, LONGJMP}"
  proof -
    have "dead i \<or> i_op i \<notin> {LEV3, CALLT, LONGJMP}" if "i \<in> set pre" for i
    proof -
      have "dead i \<or> insn_ok hl cm ?t i \<and> falls_through i" using G(3) bi that by (auto simp: block_ok_def)
      then show ?thesis using falls_not_exit by blast
    qed
    then show ?thesis using nx bi by auto
  qed
  obtain w0 where w0: "go ?t (block_insns p b) vm = Inr w0 \<or> go ?t (block_insns p b) vm = Inl (Inr w0)" "regs w = regs w0"
    using run by (cases "go ?t (block_insns p b) vm") (auto simp: run_insns_def)
  have "\<forall>i \<in> set (block_insns p b). decoded ?t i" using G(4) by blast
  from block_facts [OF G(3) this f abi nxs w w0(1)] have out: "facts_ok out (regs w)" "cmps_wf out"
    using w0(2) by simp_all
  show thesis
  proof (cases "ctrl_kind ?t ?i = C_COND")
    case False
    obtain s where s: "s < length ?ss" "?ss ! s = c" using c(1) by (metis in_set_conv_nth)
    have "exit_facts p b f = (forget_copies out, forget_copies out, False, False)"
      using False by (simp add: exit_facts_def w last_insn_def)
    then show thesis using that [OF s] forget_copies_ok [OF out(1)] by (simp add: edge_facts_def)
  next
    case True
    let ?r = "get_byte ?t ?i 0"
    obtain jump fall where br: "branch_facts ?t ?i out = (jump, fall)" by (meson surj_pair)
    have x: "exit_facts p b f = (forget_copies fall, forget_copies jump, True, b + 1 < ?n)"
      using True br by (simp add: exit_facts_def w last_insn_def)
    have op: "i_op ?i = JZ3 \<or> i_op ?i = JNZ3" using cond_insn [OF True] G(4) bi by simp
    have ss: "?ss = (if b + 1 < ?n then [b + 1] else []) @ target_block p (?t (i_pc ?i + 2))"
      using True G(5) op by (auto simp: succs_of_def Let_def last_insn_def)
    note B = branch_facts_ok [OF out(1) _ refl [of "get_byte ?t ?i 0"]]
    have wf: "fcmp out = Some c \<Longrightarrow> cmp_wf c" for c using out(2) by (simp add: cmps_wf_def)
    note E = cond_edge [OF g b True run c(2,3)]
    show thesis
    proof (cases "(regs w ?r = 0) = (i_op ?i = JZ3)")
      case t: True
      have "facts_ok jump (regs w)" using B(1) [OF wf] br op t by auto
      then show thesis
        using that [of "if b + 1 < ?n then 1 else 0"] E t ss forget_copies_ok by (simp add: x edge_facts_def)
    next
      case t: False
      have "facts_ok fall (regs w)" using B(2) [OF wf] br op t by auto
      then show thesis using that [of 0] E t ss forget_copies_ok by (simp add: x edge_facts_def)
    qed
  qed
qed

end

subsection \<open>The iteration\<close>

text \<open>Every entry has intervals and no copies, and a block entered from outside keeps the seed.\<close>

definition entries_wf :: "peep \<Rightarrow> entries \<Rightarrow> bool" where
  "entries_wf p E \<longleftrightarrow> (\<forall>b. tight (en_facts E b) \<and> plain (en_facts E b) \<and>
     (ext_entry (p_blocks p ! b) \<longrightarrow> en_reached E b \<and> en_facts E b = facts_reset (p_seed p)))"

text \<open>No edge adds anything.\<close>

definition edge_closed :: "peep \<Rightarrow> entries \<Rightarrow> nat \<Rightarrow> exits \<Rightarrow> nat \<Rightarrow> bool" where
  "edge_closed p E b x s \<longleftrightarrow> (let si = b_succs (p_blocks p ! b) ! s in
     ext_entry (p_blocks p ! si) \<or> en_reached E si \<and> \<not> snd (meet_facts (en_facts E si) (edge_facts x s) (si \<le> b)))"

definition entries_closed :: "peep \<Rightarrow> entries \<Rightarrow> bool" where
  "entries_closed p E \<longleftrightarrow> (\<forall>b < length (p_blocks p). en_reached E b \<longrightarrow>
     (\<forall>s < length (b_succs (p_blocks p ! b)). edge_closed p E b (exit_facts p b (en_facts E b)) s))"

lemma entry_start_wf: "entries_wf p (entry_start p)"
  using facts_reset_tight by (simp add: entries_wf_def entry_start_def plain_def facts_reset_def)

lemma flow_edge_wf:
  assumes "entries_wf p (fst X)" "tight (edge_facts x s)" "plain (edge_facts x s)"
  shows "entries_wf p (fst (flow_edge p b x s X))"
proof -
  obtain E ag where X: "X = (E, ag)" by (cases X)
  obtain g c where m: "meet_facts (en_facts E (b_succs (p_blocks p ! b) ! s)) (edge_facts x s) (b_succs (p_blocks p ! b) ! s \<le> b) = (g, c)"
    by (meson surj_pair)
  have "tight g" "plain g" using meet_good(1,2) [of "en_facts E (b_succs (p_blocks p ! b) ! s)" "edge_facts x s"] m assms(1,2) X
    by (metis entries_wf_def fst_conv)+
  then show ?thesis using assms X by (auto simp: flow_edge_def m Let_def entries_wf_def)
qed

lemma entry_visit_wf:
  assumes "entries_wf p (fst X)" shows "entries_wf p (fst (entry_visit p b X))"
proof (cases "en_reached (fst X) b")
  case True
  let ?x = "exit_facts p b (en_facts (fst X) b)"
  have t: "tight (en_facts (fst X) b)" using assms by (simp add: entries_wf_def)
  have "entries_wf p (fst (fold (flow_edge p b ?x) ss X))" for ss
    by (rule fold_invariant [where Q = "\<lambda>_. True" and P = "\<lambda>X. entries_wf p (fst X)"])
      (rule TrueI, rule assms, rule flow_edge_wf [OF _ edge_facts_good [OF t]])
  then show ?thesis using True by (cases X) (simp add: entry_visit_def)
qed (use assms in \<open>cases X; simp add: entry_visit_def\<close>)

lemma entry_pass_wf: "entries_wf p E \<Longrightarrow> entries_wf p (fst (entry_pass p E))"
  unfolding entry_pass_def by (rule fold_invariant [where Q = "\<lambda>_. True"]) (auto intro: entry_visit_wf)

lemma entry_pass_quiet:
  assumes "entry_pass p E = (E', False)"
  shows "E' = E \<and> entries_closed p E"
proof -
  have edge: "E' = E \<and> edge_closed p E b x s" if "flow_edge p b x s (E, False) = (E', False)" for b x s E E'
  proof -
    let ?si = "b_succs (p_blocks p ! b) ! s"
    obtain g c where m: "meet_facts (en_facts E ?si) (edge_facts x s) (?si \<le> b) = (g, c)" by (meson surj_pair)
    have "g = en_facts E ?si" if "\<not> c" using meet_same m that by simp
    then show ?thesis using that by (auto simp: flow_edge_def edge_closed_def Let_def m split: if_split_asm)
  qed
  have loud: "snd (flow_edge p b x s (E, True))" for b x s E
    by (simp add: flow_edge_def Let_def split: prod.split)
  have visit: "E' = E \<and> (en_reached E b \<longrightarrow> (\<forall>s < length (b_succs (p_blocks p ! b)). edge_closed p E b (exit_facts p b (en_facts E b)) s))"
    if "entry_visit p b (E, False) = (E', False)" for b E E'
  proof (cases "en_reached E b")
    case True
    then have "fold (flow_edge p b (exit_facts p b (en_facts E b))) [0..<length (b_succs (p_blocks p ! b))] (E, False) = (E', False)"
      using that by (simp add: entry_visit_def)
    from fold_quiet [where Q = "\<lambda>s E1. edge_closed p E1 b (exit_facts p b (en_facts E b)) s", OF edge loud this]
    show ?thesis by auto
  qed (use that in \<open>simp add: entry_visit_def\<close>)
  have loud2: "snd (entry_visit p b (E, True))" for b E
    using fold_loud [where f = "flow_edge p b (exit_facts p b (en_facts E b))", OF loud] by (simp add: entry_visit_def)
  from fold_quiet [where Q = "\<lambda>b E. en_reached E b \<longrightarrow>
      (\<forall>s < length (b_succs (p_blocks p ! b)). edge_closed p E b (exit_facts p b (en_facts E b)) s)",
      OF visit loud2 assms [unfolded entry_pass_def]]
  show ?thesis by (auto simp: entries_closed_def)
qed

lemma entry_loop_some:
  "entry_loop p k E = Some E' \<Longrightarrow> entries_wf p E \<Longrightarrow> entries_wf p E' \<and> entries_closed p E'"
proof (induction k arbitrary: E)
  case (Suc k)
  obtain E1 ag where e: "entry_pass p E = (E1, ag)" by (meson surj_pair)
  have "entries_wf p E1" using entry_pass_wf [OF Suc.prems(2)] e by (metis fst_conv)
  then show ?case using Suc e entry_pass_quiet [of p E E1] by (cases ag) auto
qed simp

text \<open>The facts hold of every machine that enters.\<close>

definition entries_sound :: "opaque \<Rightarrow> host_ranges \<Rightarrow> committer \<Rightarrow> peep \<Rightarrow> entries \<Rightarrow> bool" where
  "entries_sound opq hl cm p E \<longleftrightarrow>
     (\<forall>b vm. enters opq hl cm p b vm \<longrightarrow> en_reached E b \<and> facts_ok (en_facts E b) (regs vm))"

context opaque_code
begin

lemma closed_sound:
  assumes g: "graph_ok hl cm p" and E: "entries_wf p E" "entries_closed p E"
  shows "entries_sound opq hl cm p E"
proof -
  have out: "en_reached E b \<and> facts_ok (en_facts E b) (regs vm)"
    if "ext_entry (p_blocks p ! b)" "seed_ok (p_seed p) (regs vm)" for b vm
    using E(1) that facts_reset_ok by (simp add: entries_wf_def)
  have "en_reached E b \<and> facts_ok (en_facts E b) (regs vm)" if "enters opq hl cm p b vm" for b vm
    using that
  proof (induction rule: enters.induct)
    case (outside b vm)
    then show ?case using out by blast
  next
    case (edge b vm w c)
    have b: "b < length (p_blocks p)" by (rule enters_range [OF edge.hyps(1)])
    have wf: "tight (en_facts E b)" "plain (en_facts E b)" "tight (en_facts E c)" "plain (en_facts E c)"
      using E(1) by (simp_all add: entries_wf_def)
    obtain s where s: "s < length (b_succs (p_blocks p ! b))" "b_succs (p_blocks p ! b) ! s = c"
        "facts_ok (edge_facts (exit_facts p b (en_facts E b)) s) (regs w)"
      by (rule edge_sound [OF g b _ plain_cmps [OF wf(2)] edge.hyps(2-6)]) (use edge.IH in blast)
    let ?x = "exit_facts p b (en_facts E b)"
    have "edge_closed p E b ?x s" using E(2) b edge.IH s(1) by (simp add: entries_closed_def)
    then consider "ext_entry (p_blocks p ! c)"
      | "en_reached E c" "\<not> snd (meet_facts (en_facts E c) (edge_facts ?x s) (c \<le> b))"
      by (auto simp: edge_closed_def s(2) Let_def)
    then show ?case
    proof cases
      case 1
      then show ?thesis using out edge.hyps(7) by blast
    next
      case 2
      have "fst (meet_facts (en_facts E c) (edge_facts ?x s) (c \<le> b)) = en_facts E c"
        using 2(2) meet_same by (metis prod.collapse)
      then show ?thesis using meet_good(3) [OF wf(3) edge_facts_good(1) [OF wf(1)] wf(4)] s(3) 2(1) by metis
    qed
  qed
  then show ?thesis by (simp add: entries_sound_def)
qed

end

subsection \<open>Narrowing\<close>

text \<open>A fold that keeps an invariant keeps what one of its steps establishes.\<close>

lemma fold_covers:
  assumes "\<And>x t. N t \<Longrightarrow> N (f x t)" "\<And>x t. N t \<Longrightarrow> C t \<Longrightarrow> C (f x t)" "\<And>t. N t \<Longrightarrow> C (f a t)" "N t" "a \<in> set xs"
  shows "C (fold f xs t)"
proof -
  have keep: "C (fold f ys t)" if "N t" "C t" for ys t
    using that assms(1,2) by (induction ys arbitrary: t) simp_all
  show ?thesis
    using assms(4,5)
  proof (induction xs arbitrary: t)
    case (Cons x xs)
    then show ?case using assms(1,3) keep by (cases "x = a") auto
  qed simp
qed

definition fresh_wf :: "peep \<Rightarrow> (nat \<Rightarrow> facts) \<times> (nat \<Rightarrow> bool) \<Rightarrow> bool" where
  "fresh_wf p X \<longleftrightarrow> (\<forall>c. snd X c \<longrightarrow> tight (fst X c) \<and> plain (fst X c) \<and> \<not> ext_entry (p_blocks p ! c))"

definition covered :: "nat \<Rightarrow> regfile \<Rightarrow> (nat \<Rightarrow> facts) \<times> (nat \<Rightarrow> bool) \<Rightarrow> bool" where
  "covered c R X \<longleftrightarrow> snd X c \<and> facts_ok (fst X c) R"

lemma narrow_edge_step:
  assumes "fresh_wf p X" "tight (edge_facts x s)" "plain (edge_facts x s)"
  shows "fresh_wf p (narrow_edge p b x s X)" "covered c R X \<Longrightarrow> covered c R (narrow_edge p b x s X)"
    "b_succs (p_blocks p ! b) ! s = c \<Longrightarrow> \<not> ext_entry (p_blocks p ! c) \<Longrightarrow> facts_ok (edge_facts x s) R \<Longrightarrow>
       covered c R (narrow_edge p b x s X)"
proof -
  obtain fresh seen where X: "X = (fresh, seen)" by (cases X)
  let ?si = "b_succs (p_blocks p ! b) ! s"
  have M: "tight (fst (meet_facts (fresh ?si) (edge_facts x s) False))" "plain (fst (meet_facts (fresh ?si) (edge_facts x s) False))"
      "facts_ok (edge_facts x s) R \<or> facts_ok (fresh ?si) R \<Longrightarrow> facts_ok (fst (meet_facts (fresh ?si) (edge_facts x s) False)) R"
    if "seen ?si" for R
    using meet_good [of "fresh ?si" "edge_facts x s"] assms that by (simp_all add: fresh_wf_def X)
  show "fresh_wf p (narrow_edge p b x s X)"
    using assms M by (auto simp: narrow_edge_def X Let_def fresh_wf_def)
  show "covered c R X \<Longrightarrow> covered c R (narrow_edge p b x s X)"
    using M by (auto simp: narrow_edge_def X Let_def covered_def)
  show "b_succs (p_blocks p ! b) ! s = c \<Longrightarrow> \<not> ext_entry (p_blocks p ! c) \<Longrightarrow> facts_ok (edge_facts x s) R \<Longrightarrow>
       covered c R (narrow_edge p b x s X)"
    using M by (auto simp: narrow_edge_def X Let_def covered_def)
qed

lemma narrow_visit_step:
  assumes "entries_wf p E" "fresh_wf p X"
  shows "fresh_wf p (narrow_visit p E b X)" "covered c R X \<Longrightarrow> covered c R (narrow_visit p E b X)"
    "en_reached E b \<Longrightarrow> s < length (b_succs (p_blocks p ! b)) \<Longrightarrow> b_succs (p_blocks p ! b) ! s = c \<Longrightarrow>
       \<not> ext_entry (p_blocks p ! c) \<Longrightarrow> facts_ok (edge_facts (exit_facts p b (en_facts E b)) s) R \<Longrightarrow>
       covered c R (narrow_visit p E b X)"
proof -
  let ?f = "narrow_edge p b (exit_facts p b (en_facts E b))"
  have t: "tight (en_facts E b)" using assms(1) by (simp add: entries_wf_def)
  note S = narrow_edge_step [OF _ edge_facts_good [OF t]]
  have wf: "fresh_wf p (fold ?f ss X)" for ss
    by (rule fold_invariant [where Q = "\<lambda>_. True"]) (rule TrueI, rule assms(2), rule S(1))
  then show "fresh_wf p (narrow_visit p E b X)" using assms(2) by (simp add: narrow_visit_def)
  have keep: "fresh_wf p (fold ?f ss X) \<and> covered c R (fold ?f ss X)" if "covered c R X" for ss
    by (rule fold_invariant [where Q = "\<lambda>_. True"]) (use that assms(2) S(1,2) in auto)
  then show "covered c R X \<Longrightarrow> covered c R (narrow_visit p E b X)" by (simp add: narrow_visit_def)
  assume h: "en_reached E b" "s < length (b_succs (p_blocks p ! b))" "b_succs (p_blocks p ! b) ! s = c"
    "\<not> ext_entry (p_blocks p ! c)" "facts_ok (edge_facts (exit_facts p b (en_facts E b)) s) R"
  have "covered c R (fold ?f [0..<length (b_succs (p_blocks p ! b))] X)"
    by (rule fold_covers [where N = "fresh_wf p" and a = s]) (use h assms(2) in \<open>auto intro: S\<close>)
  then show "covered c R (narrow_visit p E b X)" using h(1) by (simp add: narrow_visit_def)
qed

lemma narrow_round_eq:
  obtains fresh seen where "fold (narrow_visit p E) [0..<length (p_blocks p)] (en_facts E, \<lambda>_. False) = (fresh, seen)"
    "narrow_round p E = E\<lparr>en_facts := (\<lambda>b. if b < length (p_blocks p) \<and> seen b then narrow_facts (en_facts E b) (fresh b) else en_facts E b)\<rparr>"
proof -
  obtain fresh seen where e: "fold (narrow_visit p E) [0..<length (p_blocks p)] (en_facts E, \<lambda>_. False) = (fresh, seen)"
    by (meson surj_pair)
  then show ?thesis using that [OF e] by (simp add: narrow_round_def Let_def)
qed

lemma narrow_fresh:
  assumes "entries_wf p E" "fold (narrow_visit p E) [0..<length (p_blocks p)] (en_facts E, \<lambda>_. False) = (fresh, seen)"
  shows "fresh_wf p (fresh, seen)"
proof -
  have "fresh_wf p (fold (narrow_visit p E) [0..<length (p_blocks p)] (en_facts E, \<lambda>_. False))"
    by (rule fold_invariant [where Q = "\<lambda>_. True"]) (rule TrueI, simp add: fresh_wf_def, rule narrow_visit_step(1) [OF assms(1)])
  then show ?thesis using assms(2) by simp
qed

lemma narrow_round_wf:
  assumes "entries_wf p E" shows "entries_wf p (narrow_round p E)"
proof -
  obtain fresh seen where e: "fold (narrow_visit p E) [0..<length (p_blocks p)] (en_facts E, \<lambda>_. False) = (fresh, seen)"
    "narrow_round p E = E\<lparr>en_facts := (\<lambda>b. if b < length (p_blocks p) \<and> seen b then narrow_facts (en_facts E b) (fresh b) else en_facts E b)\<rparr>"
    by (rule narrow_round_eq)
  have "fresh_wf p (fresh, seen)" by (rule narrow_fresh [OF assms e(1)])
  then show ?thesis using assms narrow_good(1,2) by (auto simp: e(2) entries_wf_def fresh_wf_def)
qed

context opaque_code
begin

lemma narrow_round_sound:
  assumes g: "graph_ok hl cm p" and E: "entries_wf p E" "entries_sound opq hl cm p E"
  shows "entries_sound opq hl cm p (narrow_round p E)"
  unfolding entries_sound_def
proof (intro allI impI)
  fix c w assume c: "enters opq hl cm p c w"
  obtain fresh seen where e: "fold (narrow_visit p E) [0..<length (p_blocks p)] (en_facts E, \<lambda>_. False) = (fresh, seen)"
    "narrow_round p E = E\<lparr>en_facts := (\<lambda>b. if b < length (p_blocks p) \<and> seen b then narrow_facts (en_facts E b) (fresh b) else en_facts E b)\<rparr>"
    by (rule narrow_round_eq)
  have N: "fresh_wf p (fresh, seen)" by (rule narrow_fresh [OF E(1) e(1)])
  have old: "en_reached E c" "facts_ok (en_facts E c) (regs w)" using E(2) c by (auto simp: entries_sound_def)
  have "facts_ok (fresh c) (regs w)" if sc: "seen c"
  proof -
    have ne: "\<not> ext_entry (p_blocks p ! c)" using N sc by (simp add: fresh_wf_def)
    from c obtain b vm where st: "enters opq hl cm p b vm"
      "abi_ok opq hl cm (p_seed p) (p_promoted p) (p_text p) (block_insns p b) vm"
      "run_insns opq hl cm (end_pc p b) (p_text p) (block_insns p b) vm = Inr w"
      "c \<in> set (b_succs (p_blocks p ! b))" "c < length (p_blocks p)" "pc w = start_pc p c"
      by (cases rule: enters.cases) (use ne in auto)
    have b: "b < length (p_blocks p)" by (rule enters_range [OF st(1)])
    have r: "en_reached E b" "facts_ok (en_facts E b) (regs vm)" using E(2) st(1) by (auto simp: entries_sound_def)
    have "plain (en_facts E b)" using E(1) by (simp add: entries_wf_def)
    from edge_sound [OF g b r(2) plain_cmps [OF this] st(2-6)] obtain s where
      s: "s < length (b_succs (p_blocks p ! b))" "b_succs (p_blocks p ! b) ! s = c"
        "facts_ok (edge_facts (exit_facts p b (en_facts E b)) s) (regs w)" by blast
    have "covered c (regs w) (fold (narrow_visit p E) [0..<length (p_blocks p)] (en_facts E, \<lambda>_. False))"
    proof (rule fold_covers [where N = "fresh_wf p" and a = b])
      show "fresh_wf p (en_facts E, \<lambda>_. False)" by (simp add: fresh_wf_def)
      show "b \<in> set [0..<length (p_blocks p)]" using b by simp
    qed (use narrow_visit_step [OF E(1)] r(1) s ne in blast)+
    then show ?thesis by (simp add: covered_def e(1))
  qed
  moreover have "tight (en_facts E c)" "plain (en_facts E c)" using E(1) by (simp_all add: entries_wf_def)
  ultimately show "en_reached (narrow_round p E) c \<and> facts_ok (en_facts (narrow_round p E) c) (regs w)"
    using old narrow_good(3) by (simp add: e(2))
qed

lemma narrow_entry_sound:
  assumes "graph_ok hl cm p"
  shows "entries_wf p E \<Longrightarrow> entries_sound opq hl cm p E \<Longrightarrow> entries_sound opq hl cm p (narrow_entry_facts p k E)"
  by (induction k arbitrary: E) (simp_all add: narrow_round_wf narrow_round_sound [OF assms])

lemma entry_facts_ok:
  assumes g: "graph_ok hl cm p" and e: "enters opq hl cm p b vm"
    and h: "seed_ok (p_seed p) (regs vm) \<or> entry_loop p 256 (entry_start p) \<noteq> None"
  shows "facts_ok (compute_entry_facts p b) (regs vm)"
proof (cases "entry_loop p 256 (entry_start p)")
  case None
  then show ?thesis using h facts_reset_ok by (simp add: compute_entry_facts_def)
next
  case (Some E)
  have E: "entries_wf p E" "entries_closed p E" using entry_loop_some [OF Some entry_start_wf] by blast+
  have "entries_sound opq hl cm p (narrow_entry_facts p 2 E)"
    by (rule narrow_entry_sound [OF g E(1) closed_sound [OF g E]])
  then show ?thesis using e by (simp add: compute_entry_facts_def Some Let_def entries_sound_def)
qed

end

subsection \<open>Properties\<close>

text \<open>
  C6: The facts computed for the start of every block are sound. Take the graph of a function before
  its branches are fused, and a machine that enters a block of it: either from outside, at a block that can be
  entered so, with registers the seed facts hold of; or by running another block it entered and leaving along
  an edge of the graph, where the code the optimiser does not understand keeps the calling convention. Then
  the registers satisfy the facts that widening and the two narrowing rounds leave for that block. When the
  iteration is cut off after 256 passes the facts are the seed, and the seed has to hold of the machine.
\<close>

theorem entry_facts_sound:
  assumes "opaque_code opq hl cm" "graph_ok hl cm p" "enters opq hl cm p b vm"
    and "seed_ok (p_seed p) (regs vm) \<or> entry_loop p 256 (entry_start p) \<noteq> None"
  shows "facts_ok (compute_entry_facts p b) (regs vm)"
  by (rule opaque_code.entry_facts_ok [OF assms])

text \<open>The three blocks of \<open>jz_peep\<close>, entered at the first with a nonzero register 11, which leads to the second.\<close>

definition jz_graph :: peep where
  "jz_graph = compute_succs (build_blocks jz_peep)"


definition jz0 :: insn where "jz0 = decode_insn jz_text 0 3"
definition jz1 :: insn where "jz1 = decode_insn jz_text 3 2"
definition jz2 :: insn where "jz2 = (decode_insn jz_text 5 1)\<lparr>leader := True\<rparr>"

lemma jz_bytes:
  "get_byte jz_text jz0 0 = 11" "get_byte jz_text jz1 0 = 12" "get_byte jz_text jz1 (Suc 0) = 11"
  "opnd_byte (jz_text 4) 0 = 12" "opnd_byte (jz_text 4) (Suc 0) = 11"
  using opnd_byte_of_nat [of 11] opnd_byte_ENCODE_RR [of 12 11]
  by (simp_all add: get_byte_def operand_def decode_insn_def Let_def jz_text_def jz0_def jz1_def)

lemma jz_fields:
  "i_pc jz0 = 0" "i_op jz0 = JZ3" "i_size jz0 = 3" "\<not> dead jz0" "\<not> known jz0" "\<not> leader jz0" "\<not> addr_target jz0"
  "i_pc jz1 = 3" "i_op jz1 = MOV3" "i_size jz1 = 2" "\<not> dead jz1" "known jz1" "\<not> leader jz1" "\<not> addr_target jz1"
  "i_pc jz2 = 5" "i_op jz2 = LEV3" "i_size jz2 = 1" "\<not> dead jz2" "\<not> known jz2" "leader jz2" "\<not> addr_target jz2"
  "fold_v jz1 = None" "spec jz1 = SPEC R_ID R_IU R_NO R_NO True True"
  using jz_bytes(4,5) MOV3_spec(1)
  by (simp_all add: jz0_def jz1_def jz2_def decode_insn_def Let_def jz_text_def role_less4) (simp_all add: op_spec_def)

lemma jz_kinds:
  "ctrl_kind jz_text jz0 = C_COND" "ctrl_kind jz_text jz1 = C_NONE" "ctrl_kind jz_text jz2 = C_EXIT"
  by (simp_all add: ctrl_kind_def Let_def jz_fields jz_bytes IS_FUSED_BR_def)

text \<open>Filling in the successors does not change what they are computed from.\<close>

lemma compute_succs_fields:
  "p_text (compute_succs p) = p_text p" "p_ins (compute_succs p) = p_ins p"
  "length (p_blocks (compute_succs p)) = length (p_blocks p)" "target_block (compute_succs p) = target_block p"
  "c < length (p_blocks p) \<Longrightarrow> b_first (p_blocks (compute_succs p) ! c) = b_first (p_blocks p ! c)"
  "c < length (p_blocks p) \<Longrightarrow> b_last (p_blocks (compute_succs p) ! c) = b_last (p_blocks p ! c)"
  by (auto simp: compute_succs_def fun_eq_iff target_block_def in_window_def split: option.splits)

lemma succs_of_compute:
  assumes "c < length (p_blocks p)" shows "succs_of (compute_succs p) c = succs_of p c"
proof -
  have "label_blocks (compute_succs p) = label_blocks p"
    unfolding label_blocks_def compute_succs_fields(2,3)
    by (rule filter_cong) (simp_all add: compute_succs_fields(5))
  then show ?thesis
    using assms unfolding succs_of_def compute_succs_fields(1-4) by (simp only: Let_def compute_succs_fields(6))
qed

lemma jz_graph_fields:
  "p_text jz_graph = jz_text" "p_ins jz_graph = [jz0, jz1, jz2]" "p_seed jz_graph = (\<lambda>_. 0)" "p_end jz_graph = 6"
  "p_promoted jz_graph = 0"
  "p_blocks jz_graph = [\<lparr>b_first = 0, b_last = 1, b_succs = [1, 2], ext_entry = True\<rparr>,
     \<lparr>b_first = 1, b_last = 2, b_succs = [2], ext_entry = False\<rparr>, \<lparr>b_first = 2, b_last = 3, b_succs = [], ext_entry = False\<rparr>]"
  "p_start jz_graph = 0" "p_blk_of jz_graph = [0, 1, 2]"
  "succs_of jz_graph 0 = [1, 2]" "succs_of jz_graph 1 = [2]" "succs_of jz_graph 2 = []"
proof -
  have ins: "p_ins jz_peep = [jz0, jz1, jz2]" by (simp add: jz_peep_def jz0_def jz1_def jz2_def)
  have f: "p_text jz_peep = jz_text" "p_start jz_peep = 0" "p_end jz_peep = 6" by (simp_all add: jz_peep_def)
  have b: "build_blocks jz_peep = jz_peep\<lparr>p_blocks := [\<lparr>b_first = 0, b_last = 1, b_succs = [], ext_entry = True\<rparr>,
     \<lparr>b_first = 1, b_last = 2, b_succs = [], ext_entry = False\<rparr>, \<lparr>b_first = 2, b_last = 3, b_succs = [], ext_entry = False\<rparr>],
     p_blk_of := [0, 1, 2]\<rparr>"
    by (simp add: build_blocks_def ins f build_step_def close_block_def jz_fields jz_kinds upt_rec Let_def numeral_2_eq_2)
  let ?p = "build_blocks jz_peep"
  have u: "[0..<3] = [0, 1, 2 :: nat]" by (simp add: upt_rec)
  have bf: "p_text ?p = jz_text" "p_ins ?p = [jz0, jz1, jz2]" "p_start ?p = 0" "p_end ?p = 6" "p_blk_of ?p = [0, 1, 2]"
    "p_blocks ?p = [\<lparr>b_first = 0, b_last = 1, b_succs = [], ext_entry = True\<rparr>,
     \<lparr>b_first = 1, b_last = 2, b_succs = [], ext_entry = False\<rparr>, \<lparr>b_first = 2, b_last = 3, b_succs = [], ext_entry = False\<rparr>]"
    by (simp_all add: b ins f)
  have t: "target_block ?p 5 = [2]" by (simp add: target_block_def in_window_def at_pc_def bf ins f u jz_fields)
  have w: "jz_text 2 = 5" by (simp add: jz_text_def)
  have s: "succs_of ?p 0 = [1, 2]" "succs_of ?p 1 = [2]" "succs_of ?p 2 = []"
    using t by (simp_all add: succs_of_def Let_def bf ins f jz_kinds jz_fields w)
  show "p_blocks jz_graph = [\<lparr>b_first = 0, b_last = 1, b_succs = [1, 2], ext_entry = True\<rparr>,
     \<lparr>b_first = 1, b_last = 2, b_succs = [2], ext_entry = False\<rparr>, \<lparr>b_first = 2, b_last = 3, b_succs = [], ext_entry = False\<rparr>]"
    using s unfolding jz_graph_def by (simp add: compute_succs_def bf ins f u numeral_2_eq_2)
  show "p_text jz_graph = jz_text" "p_ins jz_graph = [jz0, jz1, jz2]" "p_seed jz_graph = (\<lambda>_. 0)" "p_end jz_graph = 6"
    "p_promoted jz_graph = 0"
    unfolding jz_graph_def b by (simp_all add: compute_succs_def ins f) (simp_all add: jz_peep_def)
  show w2: "p_start jz_graph = 0" "p_blk_of jz_graph = [0, 1, 2]"
    unfolding jz_graph_def b by (simp_all add: compute_succs_def f)
  have "succs_of jz_graph c = succs_of ?p c" if "c < 3" for c
    unfolding jz_graph_def by (rule succs_of_compute) (use that in \<open>simp add: bf\<close>)
  then show "succs_of jz_graph 0 = [1, 2]" "succs_of jz_graph 1 = [2]" "succs_of jz_graph 2 = []" using s by simp_all
qed

lemma all_less_3: "P 0 \<Longrightarrow> P 1 \<Longrightarrow> P 2 \<Longrightarrow> \<forall>b < 3. P b" for P :: "nat \<Rightarrow> bool"
  by (auto simp: less_Suc_eq numeral_3_eq_3 numeral_2_eq_2)

lemma jz_graph_ok: "graph_ok hl cm jz_graph"
proof -
  have bi: "block_insns jz_graph 0 = [jz0]" "block_insns jz_graph 1 = [jz1]" "block_insns jz_graph 2 = [jz2]"
    by (simp_all add: block_insns_def jz_graph_fields Let_def)
  have ok: "block_ok hl cm jz_text [i]" if "insn_ok hl cm jz_text i" "unat (i_pc i) + i_size i < 2 ^ 32" for i
    using that by (simp add: block_ok_def layout_def)
  have "insn_ok hl cm jz_text jz0" "insn_ok hl cm jz_text jz1" "insn_ok hl cm jz_text jz2"
    using jz_bytes by (simp_all add: insn_ok_def jz_fields is_jz_def operand_words_def insn_wf_def role_less4 op_spec_def op_table_alu imm_ok_def)
  then have bl: "block_ok hl cm jz_text [jz0]" "block_ok hl cm jz_text [jz1]" "block_ok hl cm jz_text [jz2]"
    using ok by (simp_all add: jz_fields)
  have dec: "decoded jz_text jz0" "decoded jz_text jz1" "decoded jz_text jz2"
    by (simp_all add: decoded_def jz_fields is_jz_def) (simp_all add: jz_text_def)
  have u: "[0..<3] = [0, 1, 2 :: nat]" by (simp add: upt_rec)
  have w: "p_start jz_graph = 0" "p_blk_of jz_graph = [0, 1, 2]" by (rule jz_graph_fields)+
  have sc: "succs_of jz_graph 0 = [1, 2]" "succs_of jz_graph 1 = [2]" "succs_of jz_graph 2 = []" by (rule jz_graph_fields)+
  have st: "start_pc jz_graph 0 = 0" "start_pc jz_graph 1 = 3" "start_pc jz_graph 2 = 5"
    by (simp_all add: start_pc_def jz_graph_fields jz_fields)
  have tb: "target_block jz_graph 0 = [0]" "target_block jz_graph 3 = [1]" "target_block jz_graph 5 = [2]"
    by (simp_all add: target_block_def in_window_def at_pc_def jz_graph_fields w u jz_fields)
  have la: "last_insn jz_graph 0 = jz0" "last_insn jz_graph 1 = jz1" "last_insn jz_graph 2 = jz2"
    by (simp_all add: last_insn_def jz_graph_fields)
  have len: "length (p_blocks jz_graph) = 3" by (simp add: jz_graph_fields)
  note facts = bl dec tb st la sc bi jz_graph_fields jz_fields jz_kinds next_of_def IS_FUSED_BR_def
  show ?thesis
    unfolding graph_ok_def len
  proof (rule all_less_3, goal_cases)
    case 1 show ?case using facts by (simp add: jz_graph_fields)
  next
    case 2 show ?case using facts by (simp add: jz_graph_fields)
  next
    case 3 show ?case using facts by (simp add: jz_graph_fields)
  qed
qed

text \<open>A machine with 3 in register 11 enters the graph at its first block and falls through the branch.\<close>

definition jz_vm :: vm where
  "jz_vm = (blank_vm jz_text)\<lparr>regs := (\<lambda>_. 0)(11 := 3)\<rparr>"

lemma jz_enters:
  "enters (branch_code hl cm) hl cm jz_graph 1 (jz_vm\<lparr>pc := 3\<rparr>)"
proof (rule enters.edge)
  show "enters (branch_code hl cm) hl cm jz_graph 0 jz_vm"
    by (rule enters.outside) (simp_all add: jz_graph_fields seed_ok_def jz_vm_def)
  have bi: "block_insns jz_graph 0 = [jz0]" by (simp add: block_insns_def jz_graph_fields Let_def)
  have jz: "is_jz (i_op jz0)" by (simp add: is_jz_def jz_fields)
  have run: "run_insn (branch_code hl cm) hl cm jz_text jz0 jz_vm = Inr (jz_vm\<lparr>pc := 3\<rparr>)"
    using jz_bytes by (simp add: run_insn_jz [OF jz] jz_fields) (simp add: jz_vm_def)
  show "abi_ok (branch_code hl cm) hl cm (p_seed jz_graph) (p_promoted jz_graph) (p_text jz_graph) (block_insns jz_graph 0) jz_vm"
    using jz by (simp add: bi jz_graph_fields run)
  show "run_insns (branch_code hl cm) hl cm (end_pc jz_graph 0) (p_text jz_graph) (block_insns jz_graph 0) jz_vm = Inr (jz_vm\<lparr>pc := 3\<rparr>)"
    by (simp add: bi run_insns_def end_pc_def start_pc_def jz_graph_fields run) (simp add: jz_fields)
qed (simp_all add: jz_graph_fields start_pc_def jz_fields jz_vm_def)

theorem entry_facts_sound_witness:
  "enters (branch_code (\<lambda>_ _. 0) (\<lambda>_ _ _. True)) (\<lambda>_ _. 0) (\<lambda>_ _ _. True) jz_graph 1 (jz_vm\<lparr>pc := 3\<rparr>) \<and>
   facts_ok (compute_entry_facts jz_graph 1) (regs (jz_vm\<lparr>pc := 3\<rparr>))"
proof -
  have "seed_ok (p_seed jz_graph) (regs (jz_vm\<lparr>pc := 3\<rparr>))" by (simp add: jz_graph_fields seed_ok_def jz_vm_def)
  with entry_facts_sound [OF branch_code_opaque jz_graph_ok jz_enters] jz_enters show ?thesis by blast
qed

end
