(* ===== verification/Peep_Branches.thy ===== *)
theory Peep_Branches
  imports Peep_Fusions
begin

text \<open>
  Fusing a compare into the conditional jump at the end of a block (\<open>src/src/codegen_peep.c\<close>, lines 2548
  to 2602), and the properties of the three fusion walks.
\<close>

subsection \<open>The walk\<close>

text \<open>The definition of \<open>r\<close> nearest before the jump: how many instructions back it is, the registers
  defined in between, and whether nothing live is.\<close>

fun find_compare :: "text_words \<Rightarrow> nat \<Rightarrow> u32 \<Rightarrow> bool \<Rightarrow> insn list \<Rightarrow> (nat \<times> u32 \<times> bool) option" where
  "find_compare text r btw adjacent [] = None"
| "find_compare text r btw adjacent (d # bs) =
     (if dead d then map_option (apfst Suc) (find_compare text r btw adjacent bs)
      else if \<not> known d then None
      else let e = effects text d
        in if idef e AND BIT r = 0
           then (if iuse e AND BIT r \<noteq> 0 then None
                 else map_option (apfst Suc) (find_compare text r (btw OR idef e) False bs))
           else Some (0, btw, adjacent))"

text \<open>The text, the compare and the jump after fusing; a wide branch takes the place of the compare.\<close>

definition fuse_compare :: "text_words \<Rightarrow> insn \<Rightarrow> insn \<Rightarrow> u32 \<Rightarrow> bool \<Rightarrow> (text_words \<times> insn \<times> insn) option" where
  "fuse_compare text d br btw adjacent =
     (case cmp_form (i_op d) of
        None \<Rightarrow> None
      | Some cf \<Rightarrow>
          let c = cmp_of text d cf
          in if cmp_dst c \<noteq> get_byte text br 0 \<or>
                btw AND (BIT (cmp_a c) OR (case cmp_b c of None \<Rightarrow> 0 | Some b \<Rightarrow> BIT b)) \<noteq> 0
             then None
             else case fused_branch cf c (i_op br = JNZ3) adjacent of
                    None \<Rightarrow> None
                  | Some (op, w0, w1) \<Rightarrow>
                      if BEQW3 \<le> op
                      then Some (text(i_pc d := of_nat op, i_pc d + 1 := w0, i_pc d + 2 := text (i_pc br + 2),
                                   i_pc d + 3 := w1), d\<lparr>i_op := op\<rparr>, br\<lparr>dead := True\<rparr>)
                      else Some (text(i_pc br := of_nat op, i_pc br + 1 := w0), d\<lparr>dead := True\<rparr>, br\<lparr>i_op := op\<rparr>))"

definition fuse_block :: "text_words \<Rightarrow> insn list \<Rightarrow> u32 \<Rightarrow> text_words \<times> insn list \<times> bool" where
  "fuse_block text is live =
     (let bs = rev is; ds = takeWhile dead bs
      in case dropWhile dead bs of
           [] \<Rightarrow> (text, is, False)
         | br # bs1 \<Rightarrow>
             let r = get_byte text br 0
             in if \<not> is_jz (i_op br) \<or> r \<le> REG_ZERO \<or> NUM_REGS \<le> r \<or> live AND BIT r \<noteq> 0 then (text, is, False)
                else case find_compare text r 0 True bs1 of
                       None \<Rightarrow> (text, is, False)
                     | Some (j, btw, adjacent) \<Rightarrow>
                         case fuse_compare text (bs1 ! j) br btw adjacent of
                           None \<Rightarrow> (text, is, False)
                         | Some (text1, d1, br1) \<Rightarrow> (text1, rev (ds @ br1 # bs1[j := d1]), True))"

lemma find_compare_split:
  assumes "find_compare text r bt ad bs = Some (j, bt', ad')" "\<forall>i \<in> set bs. dead i \<or> insn_ok hl cm text i" "0 < r" "r < 32"
  shows "(\<exists>bs1 d bs2. bs = bs1 @ d # bs2 \<and> length bs1 = j \<and> \<not> dead d \<and> known d \<and> insn_ok hl cm text d \<and>
     (\<forall>i \<in> set bs1. avoids hl cm text {r} i \<and> (\<forall>x < 32. bt' AND BIT x = 0 \<longrightarrow> dead i \<or> x \<notin> dest_of text i)) \<and>
     (ad' \<longrightarrow> ad \<and> (\<forall>i \<in> set bs1. dead i)) \<and> r \<in> dest_of text d) \<and> (\<forall>x. bt' AND BIT x = 0 \<longrightarrow> bt AND BIT x = 0)"
  using assms(1,2)
proof (induction bs arbitrary: bt ad j)
  case (Cons e bs)
  show ?case
  proof (cases "dead e")
    case True
    then obtain k where k: "find_compare text r bt ad bs = Some (k, bt', ad')" "j = Suc k" using Cons.prems(1) by auto
    then obtain bs1 d bs2 where "bs = bs1 @ d # bs2" "length bs1 = k" "\<not> dead d" "known d" "insn_ok hl cm text d"
      "\<forall>i \<in> set bs1. avoids hl cm text {r} i \<and> (\<forall>x < 32. bt' AND BIT x = 0 \<longrightarrow> dead i \<or> x \<notin> dest_of text i)"
      "ad' \<longrightarrow> ad \<and> (\<forall>i \<in> set bs1. dead i)" "r \<in> dest_of text d" "\<forall>x. bt' AND BIT x = 0 \<longrightarrow> bt AND BIT x = 0"
      using Cons.IH [OF k(1)] Cons.prems(2) by auto
    then show ?thesis using True k(2)
      by (intro conjI exI [of _ "e # bs1"] exI [of _ d] exI [of _ bs2]) (auto simp: avoids_def)
  next
    case False
    then have k: "known e" and ok: "insn_ok hl cm text e" using Cons.prems by (auto split: if_split_asm)
    note E = effects_sets [OF k ok]
    show ?thesis
    proof (cases "idef (effects text e) AND BIT r = 0")
      case True
      then have u: "iuse (effects text e) AND BIT r = 0"
        and "\<exists>m. find_compare text r (bt OR idef (effects text e)) False bs = Some (m, bt', ad') \<and> j = Suc m"
        using Cons.prems(1) False k by (auto simp: Let_def split: if_split_asm)
      then obtain m where m: "find_compare text r (bt OR idef (effects text e)) False bs = Some (m, bt', ad')" "j = Suc m" by blast
      obtain bs1 d bs2 where B: "bs = bs1 @ d # bs2" "length bs1 = m" "\<not> dead d" "known d" "insn_ok hl cm text d"
        "\<forall>i \<in> set bs1. avoids hl cm text {r} i \<and> (\<forall>x < 32. bt' AND BIT x = 0 \<longrightarrow> dead i \<or> x \<notin> dest_of text i)"
        "\<not> ad'" "r \<in> dest_of text d" "\<forall>x. bt' AND BIT x = 0 \<longrightarrow> (bt OR idef (effects text e)) AND BIT x = 0"
        using Cons.IH [OF m(1)] Cons.prems(2) by auto
      have "avoids hl cm text {r} e" using u k ok E assms(3,4) True unfolding avoids_def by auto
      moreover have "x \<notin> dest_of text e" if "x < 32" "bt' AND BIT x = 0" for x
        using B(9) that E(2) [of x] dest_not_zero [OF k ok] by (cases "x = 0") (auto simp: or_and_zero)
      ultimately show ?thesis using B m(2)
        by (intro conjI exI [of _ "e # bs1"] exI [of _ d] exI [of _ bs2]) (auto simp: or_and_zero)
    next
      case f: False
      then have "r \<in> dest_of text e" "j = 0" "bt' = bt" "ad' = ad"
        using Cons.prems(1) False k E(2) [OF assms(3,4)] by (auto simp: Let_def)
      then show ?thesis using False k ok by (intro conjI exI [of _ "[]"] exI [of _ e] exI [of _ bs]) auto
    qed
  qed
qed simp

subsection \<open>The fused jump\<close>

locale branching_code = opaque_code +
  assumes opaque_branch: "\<not> known i \<Longrightarrow> IS_FUSED_BR (i_op i) \<Longrightarrow> branch_regs_ok text i \<Longrightarrow> op_table hl cm (i_op i) = Some h \<Longrightarrow>
    opq text i vm = with_text text h (vm\<lparr>pc := i_pc i + 1\<rparr>)"

text \<open>What a compare computes, and the handler of the branch that replaces it.\<close>

lemma compare_run:
  assumes "known d" "insn_ok hl cm text d" "cmp_form (i_op d) = Some cf"
  obtains v where "run_insn opq hl cm text d w =
      Inr (w\<lparr>pc := i_pc d + of_nat (i_size d), regs := (regs w)(get_byte text d 0 := v)\<rparr>)"
    "cmp_value (cmp_of text d cf) (regs w) = Inr v"
proof -
  obtain g where g: "alu (i_op d) = Some g"
    "\<And>w a b c imm. g w a b c imm = Inr (c_bool (cmp_sem cf a (if cf_imm cf then imm else b)))"
    using cmp_form_alu [OF assms(3)] by blast
  have "role (spec d) 0 = R_ID"
    using insn_ok_known [OF assms(2,1)] cmp_form_spec [OF assms(3)] by metis
  from run_alu [OF assms(1,2) g(1) this, of opq w] show thesis
    by (intro that [of "c_bool (cmp_sem cf (regs w (get_byte text d 1))
        (if cf_imm cf then insn_imm text d else regs w (get_byte text d 2)))"])
      (simp_all add: insn_value_def g(2) cmp_value_def cmp_of_def g(1) numeral_2_eq_2)
qed

lemma branch_opcodes:
  "IS_FUSED_BR (imm_branch u ra)" "\<not> is_jz (imm_branch u ra)" "\<not> imm_branch u ra \<le> BULE3"
  "IS_FUSED_BR (wide_branch u ra)" "\<not> is_jz (wide_branch u ra)" "\<not> wide_branch u ra \<le> BULE3"
  by (cases ra; cases u; simp add: imm_branch_def wide_branch_def IS_FUSED_BR_def is_jz_def)+

lemma fused_branch_words:
  assumes "cmp_form (cmp_op c) = Some cf" "cmp_wf c" "fused_branch cf c when ad = Some (op, w0, w1)"
  obtains h where "op_table hl cm op = Some h" "IS_FUSED_BR op" "opnd_byte w0 0 < 32"
    "op \<le> BULE3 \<Longrightarrow> opnd_byte w0 1 < 32" "\<not> is_jz op" "BEQW3 \<le> op \<Longrightarrow> ad \<and> cf_imm cf"
proof -
  have a: "cmp_a c < 256" "cmp_a c < 32" using assms(2) by (simp_all add: cmp_wf_def)
  show thesis
  proof (cases "cf_imm cf")
    case True
    define ra where "ra = (if when then imm_rel cf else arel_not (imm_rel cf))"
    consider (narrow) "op = imm_branch (cf_uns cf) ra" "w0 = of_nat (cmp_a c) OR push_bit 8 (ucast (cmp_imm c AND 0xFFFFFF))"
      | (wide) "ad" "op = wide_branch (cf_uns cf) ra"
        "w0 = of_nat (cmp_a c) OR push_bit 8 (ucast (drop_bit 32 (cmp_imm c) AND 0xFFFFFF))"
      using assms(3) True unfolding fused_branch_def Let_def and_byte [OF a(1)] ra_def [symmetric] by (simp split: if_split_asm)
    then show thesis
    proof cases
      case narrow
      have "opnd_byte w0 0 < 32" unfolding narrow(2) imm_word_reg [OF a(1)] by (rule a(2))
      then show thesis using that [OF branch_handlers(1) [of hl cm "cf_uns cf" ra, folded narrow(1)]] branch_opcodes branch_wide(2)
        unfolding narrow(1) by blast
    next
      case wide
      have "opnd_byte w0 0 < 32" unfolding wide(3) imm_word_reg [OF a(1)] by (rule a(2))
      then show thesis using that [OF branch_handlers(2) [of hl cm "cf_uns cf" ra, folded wide(2)]] branch_opcodes wide(1) True
        unfolding wide(2) by blast
    qed
  next
    case False
    then obtain b where b: "cmp_b c = Some b" "b < 256" "b < 32" using assms(1,2) by (auto simp: cmp_wf_def)
    obtain rl sw where p: "branch_rel cf when = (rl, sw)" by (cases "branch_rel cf when")
    define x where "x = (if sw then b else cmp_a c)"
    define y where "y = (if sw then cmp_a c else b)"
    have xy: "x < 256" "y < 256" "x < 32" "y < 32" using a b by (simp_all add: x_def y_def)
    have r: "op = (case rl of REL_EQ \<Rightarrow> BEQ3 | REL_NE \<Rightarrow> BNE3
        | REL_LT \<Rightarrow> (if cf_uns cf then BULT3 else BLT3) | REL_LE \<Rightarrow> (if cf_uns cf then BULE3 else BLE3))" "w0 = ENCODE_RR x y"
      using assms(3) False unfolding fused_branch_def p Let_def prod.case b(1) option.case x_def [symmetric]
        y_def [symmetric] and_byte [OF xy(1)] and_byte [OF xy(2)] ENCODE_RR_def by simp_all
    have o: "IS_FUSED_BR op" "\<not> is_jz op" unfolding r(1) by (cases rl; simp add: IS_FUSED_BR_def is_jz_def)+
    have w: "opnd_byte w0 0 < 32" "opnd_byte w0 1 < 32" using xy opnd_byte_ENCODE_RR [OF xy(1,2)] by (simp_all add: r(2))
    have n: "\<not> BEQW3 \<le> op" unfolding r(1) by (rule reg_branch_narrow)
    show thesis using that [OF reg_branch_handler [where rel = rl and uns = "cf_uns cf" and im = False, folded r(1)] o(1) w o(2)] n by blast
  qed
qed

lemma jump_if_eq: "jump_if c t vm = Inr (vm\<lparr>pc := (if c then t else pc vm)\<rparr>)"
  by (cases vm) (simp add: jump_if_def)

lemma fused_outcome:
  assumes "cmp_form (i_op d) = Some cf" "insn_wf text d" "known d"
    and "fused_branch cf (cmp_of text d cf) when ad = Some (op, w0, w1)" "op_table hl cm op = Some h"
    and "t1 p = w0" "BEQW3 \<le> op \<longrightarrow> t1 (p + 2) = w1" "cmp_value (cmp_of text d cf) (regs u) = Inr v"
  shows "with_text t1 h (u\<lparr>pc := p\<rparr>) =
    Inr (u\<lparr>pc := (if (v \<noteq> 0) = when then t1 (p + 1) else p + (if BEQW3 \<le> op then 3 else 2))\<rparr>)"
proof -
  have c: "cmp_form (cmp_op (cmp_of text d cf)) = Some cf" using assms(1) by (simp add: cmp_of_def)
  have "h (u\<lparr>pc := p, text_seg := t1\<rparr>) = jump_if ((v \<noteq> 0) = when) (t1 (p + 1))
      (u\<lparr>pc := p + (if BEQW3 \<le> op then 3 else 2), text_seg := t1\<rparr>)"
    using fused_branch_equiv [OF c cmp_of_wf [OF assms(1-3)] assms(4,5), of "u\<lparr>pc := p, text_seg := t1\<rparr>" v] assms(6-8)
    by (cases u) simp
  then show ?thesis by (cases u) (simp add: with_text_def jump_if_eq)
qed

context branching_code
begin

lemma live_without: "r < 32 \<Longrightarrow> L AND BIT r = 0 \<Longrightarrow> 0 < r \<Longrightarrow> live_regs L \<subseteq> - {r}"
  by (auto simp: live_regs_def and_BIT)

text \<open>The branch in the slot of the jump.\<close>

lemma narrow_branch:
  assumes d: "known d" "insn_ok hl cm text d" "\<not> dead d" "cmp_form (i_op d) = Some cf" "get_byte text d 0 = r"
    and mid: "\<forall>i \<in> set mid. avoids hl cm text {r} i \<and> same_words text text' i"
      "\<forall>i \<in> set mid. dead i \<or> get_byte text d 1 \<notin> dest_of text i"
      "\<not> cf_imm cf \<longrightarrow> (\<forall>i \<in> set mid. dead i \<or> get_byte text d 2 \<notin> dest_of text i)"
    and br: "insn_ok hl cm text br" "\<not> known br" "\<not> dead br" "is_jz (i_op br)" "get_byte text br 0 = r" "0 < r" "r < 32"
    and f: "fused_branch cf (cmp_of text d cf) (i_op br = JNZ3) ad = Some (op, w0, w1)" "\<not> BEQW3 \<le> op"
      "text' = text(i_pc br := of_nat op, i_pc br + 1 := w0)"
    and L: "L AND BIT r = 0"
  shows "agree_reach (live_regs L) (live_regs L) (go text (d # mid @ [br]) w)
    (go text' (d\<lparr>dead := True\<rparr> # mid @ [br\<lparr>i_op := op\<rparr>]) w)"
proof -
  have wf: "insn_wf text d" using insn_ok_known [OF d(2,1)] by metis
  let ?c = "cmp_of text d cf"
  have c: "cmp_form (cmp_op ?c) = Some cf" using d(4) by (simp add: cmp_of_def)
  obtain v where v: "run_i text d w = Inr (w\<lparr>pc := i_pc d + of_nat (i_size d), regs := (regs w)(r := v)\<rparr>)"
    "cmp_value ?c (regs w) = Inr v" using compare_run [OF d(1,2,4), of opq w] d(5) by metis
  let ?w1 = "w\<lparr>pc := i_pc d + of_nat (i_size d), regs := (regs w)(r := v)\<rparr>"
  have same: "go text' mid = go text mid" using go_same [of mid "text" text'] mid(1) by (auto simp: avoids_def)
  have av: "\<forall>i \<in> set mid. avoids hl cm text {r} i" "0 \<notin> {r}" using mid(1) br(6) by auto
  have a0: "agree_pc (- {r}) ?w1 w" by (cases w) (auto simp: agree_pc_def agree_def)
  note A = go_avoid [OF av a0]
  have sub: "live_regs L \<subseteq> - {r}" by (rule live_without [OF br(7) L br(6)])
  have left: "go text (d # mid @ [br]) w = (case go text mid ?w1 of Inl s \<Rightarrow> Inl s | Inr u \<Rightarrow> go text [br] u)"
    using d(3) v(1) by (simp add: go_append)
  have right: "go text' (d\<lparr>dead := True\<rparr> # mid @ [br\<lparr>i_op := op\<rparr>]) w =
      (case go text mid w of Inl s \<Rightarrow> Inl s | Inr u \<Rightarrow> go text' [br\<lparr>i_op := op\<rparr>] u)"
    by (simp add: go_append same)
  consider s s' where "go text mid ?w1 = Inl s" "go text mid w = Inl s'" "agree_step (live_regs L) s s'"
    | u u' where "go text mid ?w1 = Inr u" "go text mid w = Inr u'" "agree_pc (- {r}) u u'"
    using A [THEN conjunct1, of "live_regs L"] by (cases "go text mid ?w1"; cases "go text mid w") auto
  then show ?thesis
  proof cases
    case 1
    then show ?thesis unfolding left right by simp
  next
    case 2
    have uv: "regs u r = v" using A [THEN conjunct2] 2(1,2) by simp
    have k: "\<forall>i \<in> set mid. dead i \<or> known i \<and> insn_ok hl cm text i \<and> x \<notin> dest_of text i"
      if "\<forall>i \<in> set mid. dead i \<or> x \<notin> dest_of text i" for x using mid(1) that by (auto simp: avoids_def)
    have "regs u' (get_byte text d 1) = regs w (get_byte text d 1)" by (rule go_keeps [OF k [OF mid(2)] 2(2)])
    moreover have "\<not> cf_imm cf \<Longrightarrow> regs u' (get_byte text d 2) = regs w (get_byte text d 2)"
      using go_keeps [OF k 2(2)] mid(3) by blast
    ultimately have cv: "cmp_value ?c (regs u') = Inr v" using v(2)
      by (cases "alu (i_op d)"; cases "cf_imm cf") (simp_all add: cmp_value_def cmp_of_def)
    obtain h where H: "op_table hl cm op = Some h" "IS_FUSED_BR op" "opnd_byte w0 0 < 32"
      "op \<le> BULE3 \<Longrightarrow> opnd_byte w0 1 < 32" "\<not> is_jz op"
      using fused_branch_words [OF c cmp_of_wf [OF d(4) wf d(1)] f(1), of hl cm] by metis
    let ?b = "br\<lparr>i_op := op\<rparr>"
    have t: "text' (i_pc br + 1) = w0" "text' (i_pc br + 1 + 1) = text (i_pc br + 2)"
      "text' (i_pc br + 2) = text (i_pc br + 2)" unfolding f(3) by (simp_all add: add.assoc)
    have "branch_regs_ok text' ?b" using H(3,4) t(1) by (auto simp: branch_regs_ok_def branch_ks_def get_byte_def operand_def)
    then have "opq text' ?b x = with_text text' h (x\<lparr>pc := i_pc br + 1\<rparr>)" for x
      using opaque_branch [of ?b "text'" h x] br(2) H(1,2) by simp
    then have "run_i text' ?b u' = with_text text' h (u'\<lparr>pc := i_pc br + 1\<rparr>)" using br(2) H(5) by (simp add: run_insn_def)
    also have "\<dots> = Inr (u'\<lparr>pc := (if (v \<noteq> 0) = (i_op br = JNZ3) then text (i_pc br + 2) else i_pc br + 3)\<rparr>)"
      using fused_outcome [where ?p = "i_pc br + 1" and ?t1.0 = text', OF d(4) wf d(1) f(1) H(1) t(1) _ cv] f(2) by (simp add: t(2,3) add.assoc)
    finally have new: "run_i text' ?b u' = \<dots>" .
    have old: "run_i text br u = Inr (u\<lparr>pc := (if (v \<noteq> 0) = (i_op br = JNZ3) then text (i_pc br + 2) else i_pc br + 3)\<rparr>)"
      using run_insn_jz [OF br(4), of opq hl cm "text" u] br(4,5) uv by (auto simp: is_jz_def)
    have "agree (live_regs L) (u\<lparr>pc := p\<rparr>) (u'\<lparr>pc := p\<rparr>)" for p
      by (rule agree_set_pc [OF agree_pc_mono [OF 2(3) sub]])
    then show ?thesis unfolding left right using 2(1,2) old new br(3) agree_pc_mono [OF 2(3) sub]
      by (auto simp: agree_pc_def)
  qed
qed

text \<open>The branch in the slot of a compare that nothing live separates from the jump. Leaving towards
  the word after the block counts as falling through.\<close>

lemma wide_branch_run:
  assumes d: "known d" "insn_ok hl cm text d" "\<not> dead d" "cmp_form (i_op d) = Some cf" "get_byte text d 0 = r"
    and br: "\<not> dead br" "insn_ok hl cm text br" "is_jz (i_op br)" "get_byte text br 0 = r" "0 < r" "r < 32"
    and f: "fused_branch cf (cmp_of text d cf) (i_op br = JNZ3) ad = Some (op, w0, w1)" "BEQW3 \<le> op"
      "text' = text(i_pc d := of_nat op, i_pc d + 1 := w0, i_pc d + 2 := text (i_pc br + 2), i_pc d + 3 := w1)"
    and L: "L AND BIT r = 0" and ds: "\<forall>i \<in> set ds. dead i" "\<forall>i \<in> set mid. dead i"
    and out: "text (i_pc br + 2) = i_pc d + of_nat (i_size d) \<or> text (i_pc br + 2) = i_pc br + of_nat (i_size br) \<longrightarrow>
      text (i_pc br + 2) = stop"
  shows "agree_step (live_regs L) (run_insns opq hl cm stop text (d # mid @ br # ds) w)
    (run_insns opq hl cm stop text' (d\<lparr>i_op := op\<rparr> # mid @ br\<lparr>dead := True\<rparr> # ds) w)"
proof -
  have wf: "insn_wf text d" and sz: "i_size d = Suc (operand_words ! i_op d)" using insn_ok_known [OF d(2,1)] by metis+
  let ?c = "cmp_of text d cf"
  have c: "cmp_form (cmp_op ?c) = Some cf" using d(4) by (simp add: cmp_of_def)
  obtain v where v: "run_i text d w = Inr (w\<lparr>pc := i_pc d + of_nat (i_size d), regs := (regs w)(r := v)\<rparr>)"
    "cmp_value ?c (regs w) = Inr v" using compare_run [OF d(1,2,4), of opq w] d(5) by metis
  obtain h where H: "op_table hl cm op = Some h" "cf_imm cf"
    using fused_branch_words [OF c cmp_of_wf [OF d(4) wf d(1)] f(1), of hl cm] f(2) by metis
  have s4: "i_size d = 4" using d(4) H(2) sz by (auto simp: cmp_form_def operand_words_def split: if_split_asm)
  let ?T = "text (i_pc br + 2)" and ?taken = "(v \<noteq> 0) = (i_op br = JNZ3)"
  have t: "text' (i_pc d + 1) = w0" "text' (i_pc d + 1 + 1) = ?T" "text' (i_pc d + 1 + 2) = w1"
    unfolding f(3) by (simp_all add: add.assoc)
  have new: "run_i text' (d\<lparr>i_op := op\<rparr>) w = Inr (w\<lparr>pc := (if ?taken then ?T else i_pc d + 4)\<rparr>)"
    using fused_outcome [where ?p = "i_pc d + 1" and ?t1.0 = text', OF d(4) wf d(1) f(1) H(1) t(1) _ v(2)] t(2,3) f(2) d(1) H(1)
    by (simp add: run_insn_def add.assoc)
  let ?w1 = "w\<lparr>pc := i_pc d + of_nat (i_size d), regs := (regs w)(r := v)\<rparr>"
  have old: "run_i text br ?w1 = Inr (w\<lparr>pc := (if ?taken then ?T else i_pc br + 3), regs := (regs w)(r := v)\<rparr>)"
    using run_insn_jz [OF br(3), of opq hl cm "text" ?w1] br(3,4) by (auto simp: is_jz_def)
  have s3: "i_size br = 3" using br(2,3) by (simp add: insn_ok_def)
  have dead: "go tt ds x = Inr x" for tt x using reach_dead [OF ds(1), of opq hl cm tt "[]" x] by simp
  have left: "go text (d # mid @ br # ds) w = go text (br # ds) ?w1" using d(3) v(1) by (simp add: reach_dead [OF ds(2)])
  have right: "go text' (d\<lparr>i_op := op\<rparr> # mid @ br\<lparr>dead := True\<rparr> # ds) w =
      (if (if ?taken then ?T else i_pc d + 4) = i_pc d + 4 then Inr (w\<lparr>pc := i_pc d + 4\<rparr>)
       else Inl (Inr (w\<lparr>pc := (if ?taken then ?T else i_pc d + 4)\<rparr>)))"
    using d(3) new s4 by (simp add: reach_dead [OF ds(2)] dead)
  have ag: "agree (live_regs L) (w\<lparr>pc := p, regs := (regs w)(r := v)\<rparr>) (w\<lparr>pc := p\<rparr>)"
    "agree (live_regs L) (w\<lparr>regs := (regs w)(r := v), pc := p\<rparr>) (w\<lparr>pc := p\<rparr>)" for p
    using live_without [OF br(6) L br(5)] by (cases w; auto simp: agree_def)+
  show ?thesis unfolding run_insns_def left right
    using ag old br(1) out by (auto simp: dead s3 s4)
qed

lemma run_append:
  assumes "go text' pre vm = go text pre vm"
    and "\<And>w. agree_step L (run_insns opq hl cm stop text xs w) (run_insns opq hl cm stop text' ys w)"
  shows "agree_step L (run_insns opq hl cm stop text (pre @ xs) vm) (run_insns opq hl cm stop text' (pre @ ys) vm)"
  using assms(2) by (cases "go text pre vm") (auto simp: run_insns_def go_append assms(1))

end

text \<open>No jump of the block goes to the end of one of its instructions, unless that is where the block
  itself goes on.\<close>

definition jumps_out :: "u32 \<Rightarrow> text_words \<Rightarrow> insn list \<Rightarrow> bool" where
  "jumps_out stop text is \<longleftrightarrow> (\<forall>b \<in> set is. is_jz (i_op b) \<longrightarrow>
     (\<forall>i \<in> set is. text (i_pc b + 2) = i_pc i + of_nat (i_size i) \<longrightarrow> text (i_pc b + 2) = stop))"

lemma rev_dead_split:
  assumes "dropWhile dead (rev is) = br # bs"
  shows "is = rev bs @ br # rev (takeWhile dead (rev is))" "\<not> dead br" "\<forall>i \<in> set (takeWhile dead (rev is)). dead i"
proof -
  have "rev is = takeWhile dead (rev is) @ br # bs" using assms by (metis takeWhile_dropWhile_id)
  then have "is = rev (takeWhile dead (rev is) @ br # bs)" by (metis rev_rev_ident)
  then show "is = rev bs @ br # rev (takeWhile dead (rev is))" by simp
  show "\<not> dead br" using assms by (metis hd_dropWhile list.discI list.sel(1))
  show "\<forall>i \<in> set (takeWhile dead (rev is)). dead i" by (meson set_takeWhileD)
qed

text \<open>The compare and the jump a call of \<open>fuse_block\<close> fused.\<close>

lemma fuse_block_split:
  assumes "block_ok hl cm text is" "fuse_block text is L = (text', is', ch)"
  obtains (same) "text' = text" "is' = is"
  | (fused) pre d mid br ds cf ad op w0 w1 r where
    "is = pre @ d # mid @ br # ds" "\<forall>i \<in> set ds. dead i" "\<not> dead br" "is_jz (i_op br)" "get_byte text br 0 = r" "0 < r" "r < 32"
    "L AND BIT r = 0" "\<not> dead d" "known d" "insn_ok hl cm text d" "get_byte text d 0 = r" "cmp_form (i_op d) = Some cf"
    "\<forall>i \<in> set mid. avoids hl cm text {r} i" "\<forall>i \<in> set mid. dead i \<or> get_byte text d 1 \<notin> dest_of text i"
    "\<not> cf_imm cf \<longrightarrow> (\<forall>i \<in> set mid. dead i \<or> get_byte text d 2 \<notin> dest_of text i)" "ad \<longrightarrow> (\<forall>i \<in> set mid. dead i)"
    "fused_branch cf (cmp_of text d cf) (i_op br = JNZ3) ad = Some (op, w0, w1)"
    "BEQW3 \<le> op \<Longrightarrow> text' = text(i_pc d := of_nat op, i_pc d + 1 := w0, i_pc d + 2 := text (i_pc br + 2), i_pc d + 3 := w1) \<and>
       is' = pre @ d\<lparr>i_op := op\<rparr> # mid @ br\<lparr>dead := True\<rparr> # ds"
    "\<not> BEQW3 \<le> op \<Longrightarrow> text' = text(i_pc br := of_nat op, i_pc br + 1 := w0) \<and>
       is' = pre @ d\<lparr>dead := True\<rparr> # mid @ br\<lparr>i_op := op\<rparr> # ds"
proof (cases "text' = text \<and> is' = is")
  case True
  then show thesis using same by blast
next
  case False
  obtain br bs where B: "dropWhile dead (rev is) = br # bs" using assms(2) False
    by (cases "dropWhile dead (rev is)") (auto simp: fuse_block_def Let_def)
  note S = rev_dead_split [OF B]
  define ds where "ds = rev (takeWhile dead (rev is))"
  let ?r = "get_byte text br 0"
  have c: "is_jz (i_op br)" "0 < ?r" "?r < 32" "L AND BIT ?r = 0"
    using assms(2) False by (auto simp: fuse_block_def B Let_def split: if_split_asm)
  have f1: "fuse_block text is L = (case find_compare text ?r 0 True bs of None \<Rightarrow> (text, is, False)
      | Some (j, btw, adjacent) \<Rightarrow> (case fuse_compare text (bs ! j) br btw adjacent of None \<Rightarrow> (text, is, False)
         | Some (text1, d1, br1) \<Rightarrow> (text1, rev (takeWhile dead (rev is) @ br1 # bs[j := d1]), True)))"
    using c by (simp add: fuse_block_def B Let_def)
  obtain j btw ad where F: "find_compare text ?r 0 True bs = Some (j, btw, ad)"
    using assms(2) False f1 by (auto split: option.split_asm)
  obtain text1 d1 br1 where G: "fuse_compare text (bs ! j) br btw ad = Some (text1, d1, br1)"
    using assms(2) False f1 F by (auto split: option.split_asm)
  have r: "text' = text1" "is' = rev (takeWhile dead (rev is) @ br1 # bs[j := d1])" using assms(2) f1 F G by simp_all
  have ok: "\<forall>i \<in> set bs. dead i \<or> insn_ok hl cm text i" using assms(1) by (subst (asm) S(1)) (auto simp: block_ok_def)
  obtain bs1 d bs2 where D: "bs = bs1 @ d # bs2" "length bs1 = j" "\<not> dead d" "known d" "insn_ok hl cm text d"
     "\<forall>i \<in> set bs1. avoids hl cm text {?r} i \<and> (\<forall>x < 32. btw AND BIT x = 0 \<longrightarrow> dead i \<or> x \<notin> dest_of text i)"
     "ad \<longrightarrow> (\<forall>i \<in> set bs1. dead i)"
    using find_compare_split [OF F ok c(2,3)] by blast
  have dj: "bs ! j = d" using D(1,2) by (metis nth_append_length)
  obtain cf where cf: "cmp_form (i_op d) = Some cf" using G unfolding dj by (auto simp: fuse_compare_def split: option.split_asm)
  let ?c = "cmp_of text d cf"
  have g: "get_byte text d 0 = ?r" "btw AND (BIT (cmp_a ?c) OR (case cmp_b ?c of None \<Rightarrow> 0 | Some b \<Rightarrow> BIT b)) = 0"
    using G cf unfolding dj by (auto simp: fuse_compare_def Let_def cmp_of_def split: if_split_asm)
  obtain op w0 w1 where O: "fused_branch cf ?c (i_op br = JNZ3) ad = Some (op, w0, w1)"
    using G cf g unfolding dj by (auto simp: fuse_compare_def Let_def cmp_of_def split: if_split_asm option.split_asm)
  have wf: "insn_wf text d" using insn_ok_known [OF D(5,4)] by metis
  have sp: "op_spec (i_op d) = Some (spec d)" by (rule insn_spec [OF wf D(4)])
  have ab: "get_byte text d 1 < 32" "\<not> cf_imm cf \<Longrightarrow> get_byte text d 2 < 32"
    using cmp_of_wf [OF cf wf D(4)] by (auto simp: cmp_wf_def cmp_of_def)
  have bits: "btw AND BIT (get_byte text d 1) = 0" "\<not> cf_imm cf \<Longrightarrow> btw AND BIT (get_byte text d 2) = 0"
    using g(2) by (auto simp: cmp_of_def and_or_zero bit.conj_disj_distrib or_zero)
  have isl: "is = rev bs2 @ d # rev bs1 @ br # ds" using S(1) D(1) unfolding ds_def by simp
  have is': "is' = rev bs2 @ d1 # rev bs1 @ br1 # ds" using r(2) D(1,2) unfolding ds_def by (simp add: list_update_append)
  have G': "(if BEQW3 \<le> op then Some (text(i_pc d := of_nat op, i_pc d + 1 := w0, i_pc d + 2 := text (i_pc br + 2), i_pc d + 3 := w1),
        d\<lparr>i_op := op\<rparr>, br\<lparr>dead := True\<rparr>)
      else Some (text(i_pc br := of_nat op, i_pc br + 1 := w0), d\<lparr>dead := True\<rparr>, br\<lparr>i_op := op\<rparr>)) = Some (text1, d1, br1)"
    using G cf g O unfolding dj by (simp add: fuse_compare_def Let_def cmp_of_def)
  show thesis
  proof (rule fused [OF isl _ S(2) c(1) refl c(2-4) D(3-5) g(1) cf _ _ _ _ O])
    show "\<forall>i \<in> set ds. dead i" using S(3) by (simp add: ds_def)
    show "\<forall>i \<in> set (rev bs1). avoids hl cm text {?r} i" "ad \<longrightarrow> (\<forall>i \<in> set (rev bs1). dead i)" using D(6,7) by auto
    show "\<forall>i \<in> set (rev bs1). dead i \<or> get_byte text d 1 \<notin> dest_of text i"
      "\<not> cf_imm cf \<longrightarrow> (\<forall>i \<in> set (rev bs1). dead i \<or> get_byte text d 2 \<notin> dest_of text i)"
      using D(6) ab bits by auto
  qed (use G' r(1) is' in auto)
qed

context branching_code
begin

theorem fuse_block_ok:
  assumes "block_ok hl cm text is" "jumps_out stop text is" "fuse_block text is L = (text', is', ch)"
  shows "agree_step (live_regs L) (run_insns opq hl cm stop text is vm) (run_insns opq hl cm stop text' is' vm)"
  using assms(1,3)
proof (cases rule: fuse_block_split)
  case (fused pre d mid br ds cf ad op w0 w1 r)
  have ok: "insn_ok hl cm text br" "\<forall>i \<in> set pre. dead i \<or> insn_ok hl cm text i"
    using assms(1) fused(1,3) by (auto simp: block_ok_def)
  have sd: "0 < i_size d" "0 < i_size br" using fused(11) ok(1) by (simp_all add: insn_ok_def)
  have pcs: "unat (i_pc d) + i_size d < 2 ^ 32" "unat (i_pc br) + i_size br < 2 ^ 32"
    using assms(1) fused(1) by (auto simp: block_ok_def layout_def)
  show ?thesis
  proof (cases "BEQW3 \<le> op")
    case True
    have t: "text' = text(i_pc d := of_nat op, i_pc d + 1 := w0, i_pc d + 2 := text (i_pc br + 2), i_pc d + 3 := w1)"
      "is' = pre @ d\<lparr>i_op := op\<rparr> # mid @ br\<lparr>dead := True\<rparr> # ds" using fused(19) True by blast+
    have wf: "insn_wf text d" and sz: "i_size d = Suc (operand_words ! i_op d)" using insn_ok_known [OF fused(11,10)] by metis+
    have c: "cmp_form (cmp_op (cmp_of text d cf)) = Some cf" using fused(13) by (simp add: cmp_of_def)
    have "ad" "cf_imm cf" using fused_branch_words [OF c cmp_of_wf [OF fused(13) wf fused(10)] fused(18)] True by metis+
    then have s4: "i_size d = 4" using fused(13) sz by (auto simp: cmp_form_def operand_words_def split: if_split_asm)
    have u: "unat (i_pc d + of_nat k) = unat (i_pc d) + k" if "k < 4" for k
      using unat_pc_add [OF pcs(1), of k] that s4 by simp
    have "changed_at d text text'" using s4 u [of 1] u [of 2] u [of 3] by (auto simp: changed_at_def t(1))
    then have same: "\<forall>i \<in> set pre. same_words text text' i"
      using words_of_others [of hl cm "text" pre d "mid @ br # ds" text'] assms(1) fused(1) sd by auto
    have "go text' pre vm = go text pre vm" by (rule go_same) (use ok(2) same in auto)
    moreover have out: "text (i_pc br + 2) = i_pc d + of_nat (i_size d) \<or> text (i_pc br + 2) = i_pc br + of_nat (i_size br) \<longrightarrow>
        text (i_pc br + 2) = stop" using assms(2) fused(1,4) by (auto simp: jumps_out_def)
    ultimately show ?thesis unfolding fused(1) t(2)
      using wide_branch_run [OF fused(10,11,9,13,12,3) ok(1) fused(4-7,18) True t(1) fused(8,2) _ out] \<open>ad\<close> fused(17)
      by (intro run_append) auto
  next
    case False
    have t: "text' = text(i_pc br := of_nat op, i_pc br + 1 := w0)" "is' = pre @ d\<lparr>dead := True\<rparr> # mid @ br\<lparr>i_op := op\<rparr> # ds"
      using fused(20) False by blast+
    have kb: "\<not> known br" using insn_ok_known [OF ok(1)] fused(4) by blast
    have "changed_at br text text'"
      by (rule insn_changed) (use pcs(2) ok(1) fused(4) t(1) in \<open>auto simp: insn_ok_def split: if_split_asm\<close>)
    then have same: "\<forall>i \<in> set pre \<union> set mid \<union> set ds. same_words text text' i"
      using words_of_others [of hl cm "text" "pre @ d # mid" br ds text'] assms(1) fused(1) sd by auto
    have av: "\<forall>i \<in> set mid. avoids hl cm text {r} i \<and> same_words text text' i" using fused(14) same by auto
    have "agree_reach (live_regs L) (live_regs L) (go text (pre @ (d # mid @ [br]) @ ds) vm)
        (go text' (pre @ (d\<lparr>dead := True\<rparr> # mid @ [br\<lparr>i_op := op\<rparr>]) @ ds) vm)"
    proof (rule go_replace [where F = 0])
      show "block_ok hl cm text ds" using block_ok_part [of hl cm "text" "pre @ d # mid @ [br]" ds] assms(1) fused(1) by simp
      have "live_insns text ds (L, 0) = (L, 0)" using live_dead [OF fused(2), of "text" "[]"] by (simp add: live_insns_def)
      then show "agree_reach (live_regs (fst (live_insns text ds (L, 0)))) (live_regs L) (go text (d # mid @ [br]) w)
          (go text' (d\<lparr>dead := True\<rparr> # mid @ [br\<lparr>i_op := op\<rparr>]) w)" for w
        using narrow_branch [OF fused(10,11,9,13,12) av fused(15,16) ok(1) kb fused(3-7,18) False t(1) fused(8), of w] by simp
    qed (use ok(2) same fused(2) in auto)
    then show ?thesis using agree_reach_run unfolding fused(1) t(2) by (fastforce simp del: reach.simps)
  qed
qed simp

end

subsection \<open>The contracts on the jump handlers\<close>

lemma handlers_branch_regs:
  "list_all (\<lambda>(op, h). BEQ3 \<le> op \<and> op \<le> BUGEW3 \<longrightarrow> (\<forall>vm w. h vm = Inr w \<longrightarrow> regs w = regs vm)) (handlers hl cm)"
  unfolding handlers_def list.pred_inject prod.case
  by (intro conjI TrueI; auto simp: handler_defs br_op_def br_imm_op_def br_wide_op_def jump_if_def read_eqs)

lemma with_text_regs:
  assumes "\<forall>vm w. h vm = Inr w \<longrightarrow> regs w = regs vm" "with_text t h v = Inr w"
  shows "regs w = regs v"
  using assms by (cases "h (v\<lparr>text_seg := t\<rparr>)") (force simp: with_text_def)+

lemma branch_code_regs:
  assumes "branch_code hl cm text i vm = Inr w"
  shows "regs w = regs vm"
proof (cases rule: branch_code_cases [of hl cm "text" i])
  case fault
  then show ?thesis using assms by simp
next
  case jump
  have "\<forall>vm w. op_JMP_fn vm = Inr w \<longrightarrow> regs w = regs vm" by (auto simp: op_JMP_fn_def read_eqs jump_if_def)
  from with_text_regs [OF this] show ?thesis using assms jump(2) by fastforce
next
  case (branch h)
  have "(i_op i, h) \<in> set (handlers hl cm)" using branch(3) unfolding op_table_def by (rule map_of_SomeD)
  from bspec [OF handlers_branch_regs [unfolded list_all_iff] this]
  have "\<forall>vm w. h vm = Inr w \<longrightarrow> regs w = regs vm" using branch(1) by (auto simp: IS_FUSED_BR_def)
  from with_text_regs [OF this] show ?thesis using assms branch(4) by fastforce
qed

interpretation zero_branches: zero_code "branch_code hl cm" hl cm for hl cm
  by (intro zero_code.intro branch_code_opaque zero_code_axioms.intro) (simp add: branch_code_regs)

interpretation jumps: branching_code "branch_code hl cm" hl cm for hl cm
  by (intro branching_code.intro branch_code_opaque branching_code_axioms.intro)
    (auto simp: branch_code_def IS_FUSED_BR_def)

interpretation wrap_fusion: pair_fusion fuse_wrap hl cm for hl cm
  by (rule fuse_wrap_fusion)

interpretation bitfield_fusion: pair_fusion fuse_bitfield hl cm for hl cm
  by (rule fuse_bitfield_fusion)

interpretation wrapping: fusing_code "branch_code hl cm" hl cm fuse_wrap for hl cm
  by (intro fusing_code.intro zero_branches.zero_code_axioms wrap_fusion.pair_fusion_axioms)

subsection \<open>Properties\<close>

text \<open>
  C12: Fusing 32-bit wraps into the operations before them keeps what a block computes. Run from any
  machine whose zero register holds zero, the rewritten block ends in the same fault, or leaves at the
  same place a machine with the same memory, stack and live registers; and it is again a block of
  well-formed instructions. The unknown instructions only have to meet the contract and to leave the
  zero register alone.
\<close>

theorem fused_wraps_preserve:
  assumes "zero_code opq hl cm" "block_ok hl cm text is" "regs vm 0 = 0"
    and "fuse_block_wraps text is (L, F) = (text', is', ch)"
  shows "block_ok hl cm text' is' \<and>
    agree_step (live_regs L) (run_insns opq hl cm stop text is vm) (run_insns opq hl cm stop text' is' vm)"
proof -
  have "fusing_code opq hl cm fuse_wrap" by (intro fusing_code.intro assms(1) fuse_wrap_fusion)
  from fusing_code.fuse_pairs_ok [OF this assms(2) _ assms(3)] assms(4) show ?thesis
    using agree_reach_run unfolding fuse_block_wraps_def by blast
qed

text \<open>
  C13: Fusing a shift and a mask, or two shifts, into a bit-field extract keeps what a block computes, in
  the sense of the theorem before, although the extract is two words shorter than the instruction it
  takes the place of.
\<close>

theorem fused_bitfields_preserve:
  assumes "zero_code opq hl cm" "block_ok hl cm text is" "regs vm 0 = 0"
    and "fuse_block_bitfields text is (L, F) = (text', is', ch)"
  shows "block_ok hl cm text' is' \<and>
    agree_step (live_regs L) (run_insns opq hl cm stop text is vm) (run_insns opq hl cm stop text' is' vm)"
proof -
  have "fusing_code opq hl cm fuse_bitfield" by (intro fusing_code.intro assms(1) fuse_bitfield_fusion)
  from fusing_code.fuse_pairs_ok [OF this assms(2) _ assms(3)] assms(4) show ?thesis
    using agree_reach_run unfolding fuse_block_bitfields_def by blast
qed

text \<open>
  C11: Fusing the compare that feeds the conditional jump at the end of a block into the jump keeps what
  the block computes and where it goes, for the short form in the slot of the jump and for the wide
  form in the slot of the compare. The jump must not lead into the block itself.
\<close>

theorem fused_branches_preserve:
  assumes "branching_code opq hl cm" "block_ok hl cm text is" "jumps_out stop text is"
    and "fuse_block text is L = (text', is', ch)"
  shows "agree_step (live_regs L) (run_insns opq hl cm stop text is vm) (run_insns opq hl cm stop text' is' vm)"
  by (rule branching_code.fuse_block_ok [OF assms])

text \<open>An addition to register 12 that is wrapped into register 13.\<close>

definition wrap_text :: "u32 \<Rightarrow> u32" where
  "wrap_text = (\<lambda>_. 0)(0 := of_nat ADD3, 1 := ENCODE_RRR 12 10 11, 2 := of_nat SX4, 3 := ENCODE_RR 13 12)"

definition wrap_block :: "insn list" where
  "wrap_block = [decode_insn wrap_text 0 2, decode_insn wrap_text 2 2]"

lemma wrap_bytes:
  "get_byte wrap_text (decode_insn wrap_text 0 2) 0 = 12" "get_byte wrap_text (decode_insn wrap_text 0 2) (Suc 0) = 10"
  "get_byte wrap_text (decode_insn wrap_text 0 2) 2 = 11"
  "get_byte wrap_text (decode_insn wrap_text 2 2) 0 = 13" "get_byte wrap_text (decode_insn wrap_text 2 2) (Suc 0) = 12"
  using opnd_byte_ENCODE_RRR [of 12 10 11] opnd_byte_ENCODE_RR [of 13 12]
  by (simp_all add: get_byte_def operand_def decode_insn_def Let_def wrap_text_def)

lemma wrap_fields:
  "known (decode_insn wrap_text 0 2)" "i_op (decode_insn wrap_text 0 2) = ADD3" "i_pc (decode_insn wrap_text 0 2) = 0"
  "i_size (decode_insn wrap_text 0 2) = 2" "\<not> dead (decode_insn wrap_text 0 2)"
  "spec (decode_insn wrap_text 0 2) = SPEC R_ID R_IU R_IU R_NO True False"
  "known (decode_insn wrap_text 2 2)" "i_op (decode_insn wrap_text 2 2) = SX4" "i_pc (decode_insn wrap_text 2 2) = 2"
  "i_size (decode_insn wrap_text 2 2) = 2" "\<not> dead (decode_insn wrap_text 2 2)"
  "spec (decode_insn wrap_text 2 2) = SPEC R_ID R_IU R_NO R_NO True False"
  using wrap_bytes ext4_spec fold_specs by (simp_all add: decode_insn_def Let_def wrap_text_def get_byte_def operand_def)

theorem fused_wraps_preserve_witness:
  "\<exists>text' is'. fuse_block_wraps wrap_text wrap_block (BIT 13, 0) = (text', is', True) \<and> map i_op is' = [ADDSX3, SX4] \<and>
     agree_step (live_regs (BIT 13)) (run_insns (branch_code (\<lambda>_ _. 0) (\<lambda>_ _ _. True)) (\<lambda>_ _. 0) (\<lambda>_ _ _. True) 4 wrap_text wrap_block addi_vm)
       (run_insns (branch_code (\<lambda>_ _. 0) (\<lambda>_ _ _. True)) (\<lambda>_ _. 0) (\<lambda>_ _ _. True) 4 text' is' addi_vm)"
proof -
  let ?hl = "\<lambda>_ _. 0 :: u64" and ?cm = "\<lambda>_ _ _. True"
  have b: "block_ok ?hl ?cm wrap_text wrap_block"
    by (simp add: wrap_block_def block_ok_def layout_def before_def wrap_fields insn_ok_def insn_wf_def fold_specs ext4_spec role_less4
        wrap_bytes imm_ok_def is_jz_def op_table_alu falls_through_def operand_words_def)
  have z: "regs addi_vm 0 = 0" by (simp add: addi_vm_def)
  have f: "fuse_wrap wrap_text (decode_insn wrap_text 0 2) (decode_insn wrap_text 2 2) (BIT 13) =
      Some ((set_byte wrap_text (decode_insn wrap_text 0 2) 0 13)(0 := of_nat ADDSX3),
        (decode_insn wrap_text 0 2)\<lparr>i_op := ADDSX3, spec := SPEC R_ID R_IU R_IU R_NO True False\<rparr>)"
    by (simp add: fuse_wrap_def wrap_fields wrapped_op_def wrap_bytes BIT_def op_spec_def)
  obtain text' is' where r: "fuse_block_wraps wrap_text wrap_block (BIT 13, 0) = (text', is', True)" "map i_op is' = [ADDSX3, SX4]"
    by (simp add: fuse_block_wraps_def fuse_pairs_def wrap_block_def pair_step_def try_pair_def wrap_fields f split: prod.split)
  show ?thesis
    using fused_wraps_preserve [OF zero_branches.zero_code_axioms b z r(1), of 4, THEN conjunct2] r by - (rule exI, rule exI, rule conjI, assumption, rule conjI, assumption+)
qed

text \<open>Bits 4 to 11 of register 10, by a shift and a mask.\<close>

definition field_text :: "u32 \<Rightarrow> u32" where
  "field_text = (\<lambda>_. 0)(0 := of_nat USHRI3, 1 := ENCODE_RR 12 10, 2 := 4, 4 := of_nat ANDI3, 5 := ENCODE_RR 13 12, 6 := 255)"

definition field_block :: "insn list" where
  "field_block = [decode_insn field_text 0 4, decode_insn field_text 4 4]"

lemma field_bytes:
  "get_byte field_text (decode_insn field_text 0 4) 0 = 12" "get_byte field_text (decode_insn field_text 0 4) (Suc 0) = 10"
  "get_byte field_text (decode_insn field_text 4 4) 0 = 13" "get_byte field_text (decode_insn field_text 4 4) (Suc 0) = 12"
  "insn_imm field_text (decode_insn field_text 0 4) = 4" "insn_imm field_text (decode_insn field_text 4 4) = 255"
  using opnd_byte_ENCODE_RR [of 12 10] opnd_byte_ENCODE_RR [of 13 12]
  by (simp_all add: get_byte_def operand_def decode_insn_def Let_def field_text_def insn_imm_def cc_read_i64_at_def cc_make_u64_def)

lemma field_specs:
  "op_spec USHRI3 = Some (SPEC R_ID R_IU R_NO R_NO True False)" "op_spec ANDI3 = Some (SPEC R_ID R_IU R_NO R_NO True False)"
  "op_spec UBFX = Some (SPEC R_ID R_IU R_NO R_NO True False)"
  by (simp_all add: op_spec_def)

lemma field_fields:
  "known (decode_insn field_text 0 4)" "i_op (decode_insn field_text 0 4) = USHRI3" "i_pc (decode_insn field_text 0 4) = 0"
  "i_size (decode_insn field_text 0 4) = 4" "\<not> dead (decode_insn field_text 0 4)" "fold_v (decode_insn field_text 0 4) = None"
  "spec (decode_insn field_text 0 4) = SPEC R_ID R_IU R_NO R_NO True False"
  "known (decode_insn field_text 4 4)" "i_op (decode_insn field_text 4 4) = ANDI3" "i_pc (decode_insn field_text 4 4) = 4"
  "i_size (decode_insn field_text 4 4) = 4" "\<not> dead (decode_insn field_text 4 4)" "fold_v (decode_insn field_text 4 4) = None"
  "spec (decode_insn field_text 4 4) = SPEC R_ID R_IU R_NO R_NO True False"
  using field_bytes field_specs by (simp_all add: decode_insn_def Let_def field_text_def get_byte_def operand_def)

lemma popcount_255: "popcount 255 = 8"
proof -
  have "(255 :: u64) = mask 8" by (simp add: mask_eq_exp_minus_1)
  then have "bit (255 :: u64) n \<longleftrightarrow> n < 8" for n by (simp only: bit_mask_iff) auto
  then have "filter (bit (255 :: u64)) [0..<64] = filter (\<lambda>n. n < 8) [0..<64]" by presburger
  also have "\<dots> = [0..<8]" by (simp add: upt_rec)
  finally show ?thesis by (simp add: popcount_def)
qed

theorem fused_bitfields_preserve_witness:
  "\<exists>text' is'. fuse_block_bitfields field_text field_block (BIT 13, 0) = (text', is', True) \<and> map i_op is' = [UBFX, ANDI3] \<and>
     agree_step (live_regs (BIT 13)) (run_insns (branch_code (\<lambda>_ _. 0) (\<lambda>_ _ _. True)) (\<lambda>_ _. 0) (\<lambda>_ _ _. True) 8 field_text field_block addi_vm)
       (run_insns (branch_code (\<lambda>_ _. 0) (\<lambda>_ _ _. True)) (\<lambda>_ _. 0) (\<lambda>_ _ _. True) 8 text' is' addi_vm)"
proof -
  let ?hl = "\<lambda>_ _. 0 :: u64" and ?cm = "\<lambda>_ _ _. True"
  have b: "block_ok ?hl ?cm field_text field_block"
    by (simp add: field_block_def block_ok_def layout_def before_def field_fields insn_ok_def insn_wf_def field_specs role_less4
        field_bytes imm_ok_def is_jz_def op_table_alu falls_through_def operand_words_def)
  have z: "regs addi_vm 0 = 0" by (simp add: addi_vm_def)
  have "bfx_form USHRI3 ANDI3 4 255 = Some (UBFX, 4, 8)" by (simp add: bfx_form_def popcount_255)
  then have f: "fuse_bitfield field_text (decode_insn field_text 0 4) (decode_insn field_text 4 4) (BIT 13) =
      Some (field_text(0 := of_nat UBFX, 1 := ENCODE_BF 13 10 4 8),
        (decode_insn field_text 0 4)\<lparr>i_op := UBFX, i_size := 2, spec := SPEC R_ID R_IU R_NO R_NO True False\<rparr>)"
    by (simp add: fuse_bitfield_def field_fields field_bytes BIT_def field_specs)
  obtain text' is' where r: "fuse_block_bitfields field_text field_block (BIT 13, 0) = (text', is', True)" "map i_op is' = [UBFX, ANDI3]"
    by (simp add: fuse_block_bitfields_def fuse_pairs_def field_block_def pair_step_def try_pair_def field_fields f split: prod.split)
  show ?thesis
    using fused_bitfields_preserve [OF zero_branches.zero_code_axioms b z r(1), of 8, THEN conjunct2] r by - (rule exI, rule exI, rule conjI, assumption, rule conjI, assumption+)
qed

text \<open>A compare of register 11 with 5 into register 12, which the jump behind it tests.\<close>

definition cmp_text :: "u32 \<Rightarrow> u32" where
  "cmp_text = (\<lambda>_. 0)(0 := of_nat SLTI3, 1 := ENCODE_RR 12 11, 2 := 5, 4 := of_nat JZ3, 5 := ENCODE_R 12, 6 := 40)"

definition cmp_block :: "insn list" where
  "cmp_block = [decode_insn cmp_text 0 4, decode_insn cmp_text 4 3]"

lemma cmp_bytes:
  "get_byte cmp_text (decode_insn cmp_text 0 4) 0 = 12" "get_byte cmp_text (decode_insn cmp_text 0 4) (Suc 0) = 11"
  "get_byte cmp_text (decode_insn cmp_text 4 3) 0 = 12" "insn_imm cmp_text (decode_insn cmp_text 0 4) = 5"
  using opnd_byte_ENCODE_RR [of 12 11] opnd_byte_of_nat [of 12]
  by (simp_all add: get_byte_def operand_def decode_insn_def Let_def cmp_text_def insn_imm_def cc_read_i64_at_def cc_make_u64_def ENCODE_R_def)

lemma cmp_specs: "op_spec SLTI3 = Some (SPEC R_ID R_IU R_NO R_NO True False)" "op_spec JZ3 = None"
  by (simp_all add: op_spec_def)

lemma cmp_fields:
  "known (decode_insn cmp_text 0 4)" "i_op (decode_insn cmp_text 0 4) = SLTI3" "i_pc (decode_insn cmp_text 0 4) = 0"
  "i_size (decode_insn cmp_text 0 4) = 4" "\<not> dead (decode_insn cmp_text 0 4)" "fold_v (decode_insn cmp_text 0 4) = None"
  "spec (decode_insn cmp_text 0 4) = SPEC R_ID R_IU R_NO R_NO True False"
  "\<not> known (decode_insn cmp_text 4 3)" "i_op (decode_insn cmp_text 4 3) = JZ3" "i_pc (decode_insn cmp_text 4 3) = 4"
  "i_size (decode_insn cmp_text 4 3) = 3" "\<not> dead (decode_insn cmp_text 4 3)"
  using cmp_bytes cmp_specs by (simp_all add: decode_insn_def Let_def cmp_text_def get_byte_def operand_def)

theorem fused_branches_preserve_witness:
  "\<exists>text' is'. fuse_block cmp_text cmp_block 0 = (text', is', True) \<and> map i_op is' = [SLTI3, BGEI3] \<and>
     agree_step (live_regs 0) (run_insns (branch_code (\<lambda>_ _. 0) (\<lambda>_ _ _. True)) (\<lambda>_ _. 0) (\<lambda>_ _ _. True) 7 cmp_text cmp_block addi_vm)
       (run_insns (branch_code (\<lambda>_ _. 0) (\<lambda>_ _ _. True)) (\<lambda>_ _. 0) (\<lambda>_ _ _. True) 7 text' is' addi_vm)"
proof -
  let ?hl = "\<lambda>_ _. 0 :: u64" and ?cm = "\<lambda>_ _ _. True"
  have b: "block_ok ?hl ?cm cmp_text cmp_block"
    by (simp add: cmp_block_def block_ok_def layout_def before_def cmp_fields insn_ok_def insn_wf_def cmp_specs role_less4
        cmp_bytes imm_ok_def is_jz_def op_table_alu falls_through_def operand_words_def)
  have j: "jumps_out 7 cmp_text cmp_block" by (simp add: jumps_out_def cmp_block_def cmp_fields is_jz_def) (simp add: cmp_text_def)
  have e: "idef (effects cmp_text (decode_insn cmp_text 0 4)) AND BIT 12 \<noteq> 0"
    by (simp add: effects_def cmp_fields is_call_def IS_FUSED_BR_def role_effect_def no_eff_def cmp_bytes BIT_def)
  have f: "cmp_form SLTI3 = Some (CmpForm REL_LT False False True)" by (simp add: cmp_form_def)
  have g: "fused_branch (CmpForm REL_LT False False True) \<lparr>cmp_op = SLTI3, cmp_dst = 12, cmp_a = 11, cmp_b = None, cmp_imm = 5\<rparr> False True =
      Some (BGEI3, 11 OR push_bit 8 5, 0)"
    by (simp add: fused_branch_def fits_imm24_def imm_branch_def imm_rel_def arel_not_def)
  have c: "cmp_of cmp_text (decode_insn cmp_text 0 4) (CmpForm REL_LT False False True) =
      \<lparr>cmp_op = SLTI3, cmp_dst = 12, cmp_a = 11, cmp_b = None, cmp_imm = 5\<rparr>"
    by (simp add: cmp_of_def cmp_fields cmp_bytes)
  have h: "fuse_compare cmp_text (decode_insn cmp_text 0 4) (decode_insn cmp_text 4 3) 0 True =
      Some (cmp_text(4 := of_nat BGEI3, 5 := 11 OR push_bit 8 5), (decode_insn cmp_text 0 4)\<lparr>dead := True\<rparr>,
        (decode_insn cmp_text 4 3)\<lparr>i_op := BGEI3\<rparr>)"
    by (simp add: fuse_compare_def cmp_fields f c g cmp_bytes)
  have n: "find_compare cmp_text 12 0 True [decode_insn cmp_text 0 4] = Some (0, 0, True)" using e by (simp add: cmp_fields Let_def)
  obtain text' is' where r: "fuse_block cmp_text cmp_block 0 = (text', is', True)" "map i_op is' = [SLTI3, BGEI3]"
    using n h by (simp add: fuse_block_def cmp_block_def cmp_fields cmp_bytes is_jz_def del: find_compare.simps)
  show ?thesis
    using fused_branches_preserve [OF jumps.branching_code_axioms b j r(1)] r by - (rule exI, rule exI, rule conjI, assumption, rule conjI, assumption+)
qed

end
