(* ===== verification/Peep_Halves.thy ===== *)
theory Peep_Halves
  imports Peep_Branches
begin

text \<open>
  Wrap elimination over a whole block (\<open>drop_unread_wraps\<close>, \<open>src/src/codegen_peep.c\<close> lines 2312 to 2331)
  keeps what the block computes: the rewritten block is run beside the original on machines with
  equal low halves, and the two stay equal in every register whose upper half is read later.
\<close>

subsection \<open>Runs on machines that agree on low halves\<close>

definition half_pc :: "nat set \<Rightarrow> vm \<Rightarrow> vm \<Rightarrow> bool" where
  "half_pc H vm vm' \<longleftrightarrow> agree_pc H vm vm' \<and> (\<forall>r. low_eq (regs vm r) (regs vm' r))"

fun half_reach :: "nat set \<Rightarrow> step + vm \<Rightarrow> step + vm \<Rightarrow> bool" where
  "half_reach H (Inr w) (Inr w') = half_pc H w w'"
| "half_reach H (Inl s) (Inl s') = half_step H s s'"
| "half_reach H _ _ = False"

lemma half_pc_set: "half_pc H vm vm' \<Longrightarrow> agree_half H (vm\<lparr>pc := p\<rparr>) (vm'\<lparr>pc := p\<rparr>)"
  by (simp add: half_pc_def agree_half_def agree_set_pc)

lemma half_pc_text: "half_pc H vm vm' \<Longrightarrow> text_seg vm' = text_seg vm"
  unfolding half_pc_def using agree_pc_text by blast

lemma half_pc_refl [simp]: "half_pc H vm vm"
  by (simp add: half_pc_def)

lemma agree_half_pc: "agree_half H vm vm' \<Longrightarrow> half_pc H vm vm' \<and> pc vm' = pc vm"
  by (auto simp: half_pc_def agree_half_def agree_fields)

lemma half_pc_mono: "half_pc H vm vm' \<Longrightarrow> K \<subseteq> H \<Longrightarrow> half_pc K vm vm'"
  unfolding half_pc_def using agree_pc_mono by blast

lemma half_pc_trans: "half_pc H a b \<Longrightarrow> half_pc H b c \<Longrightarrow> half_pc H a c"
  unfolding half_pc_def low_eq_def using agree_trans by metis

lemma half_pc_sym: "half_pc H a b \<Longrightarrow> half_pc H b a"
  unfolding half_pc_def low_eq_def by (cases a, cases b) (auto simp: agree_pc_def agree_def)

lemma half_step_text:
  assumes "half_step H (h (v\<lparr>text_seg := t\<rparr>)) (h (v'\<lparr>text_seg := t\<rparr>))" "text_seg v' = text_seg v"
  shows "half_step H (with_text t h v) (with_text t h v')"
  using assms by (cases "h (v\<lparr>text_seg := t\<rparr>)"; cases "h (v'\<lparr>text_seg := t\<rparr>)")
    (auto simp: with_text_def agree_half_def intro: agree_text)

lemma half_reach_run:
  assumes "half_reach H (reach opq hl cm text is vm) (reach opq hl cm text' is' vm')"
  shows "half_step H (run_insns opq hl cm stop text is vm) (run_insns opq hl cm stop text' is' vm')"
  using assms by (cases "reach opq hl cm text is vm"; cases "reach opq hl cm text' is' vm'")
    (auto simp: run_insns_def intro: half_pc_set)

text \<open>What wrap elimination assumes of an instruction the optimiser does not understand: only the
  registers \<open>effects\<close> names are read above bit 31.\<close>

locale half_code = opaque_code +
  assumes opaque_half: "\<not> known i \<Longrightarrow> \<not> is_jz (i_op i) \<Longrightarrow> insn_ok hl cm text i \<Longrightarrow>
    agree_half (live_regs (hi_step pr text i up)) vm vm' \<Longrightarrow> half_step (live_regs up) (opq text i vm) (opq text i vm')"
begin

lemma run_half_jz:
  assumes "is_jz (i_op i)" "insn_ok hl cm text i" "half_pc (live_regs (hi_step pr text i up)) vm vm'"
  shows "half_step (live_regs up) (run_i text i vm) (run_i text i vm')"
proof -
  let ?r = "get_byte text i 0"
  have r: "?r < NUM_REGS" and k: "\<not> known i" using assms(1,2) insn_ok_known [OF assms(2)] by (auto simp: insn_ok_def)
  have "?r \<in> live_regs (hi_step pr text i up)"
    using assms(1) r k by (auto simp: live_regs_def hi_step_def effects_def is_jz_def Let_def bit_or_iff bit_BIT)
  then have "regs vm' ?r = regs vm ?r" using assms(3) by (auto simp: half_pc_def agree_pc_def agree_def)
  moreover have "half_pc (live_regs up) vm vm'"
    by (rule half_pc_mono [OF assms(3)])
      (use assms(1) in \<open>auto simp: live_regs_def hi_step_def effects_def is_jz_def Let_def bit_or_iff no_eff_def\<close>)
  ultimately show ?thesis using half_pc_set by (simp add: run_insn_jz [OF assms(1)])
qed

lemma run_half:
  assumes "insn_ok hl cm text i" "half_pc (live_regs (hi_step pr text i up)) vm vm'"
  shows "half_step (live_regs up) (run_i text i vm) (run_i text i vm')"
proof (cases "known i")
  case True
  obtain h where h: "op_table hl cm (i_op i) = Some h" "insn_wf text i" using insn_ok_known [OF assms(1) True] by metis
  let ?v = "vm\<lparr>pc := i_pc i + 1\<rparr>" and ?v' = "vm'\<lparr>pc := i_pc i + 1\<rparr>"
  have "agree_half (live_regs (hi_step pr text i up)) ?v ?v'" by (rule half_pc_set [OF assms(2)])
  then have "agree_half (live_regs (hi_step pr text i up)) (?v\<lparr>text_seg := text\<rparr>) (?v'\<lparr>text_seg := text\<rparr>)"
    by (simp add: agree_half_def agree_text)
  then have "half_step (live_regs up) (h (?v\<lparr>text_seg := text\<rparr>)) (h (?v'\<lparr>text_seg := text\<rparr>))"
    using hi_step_agree [OF True _ h(1), of "?v\<lparr>text_seg := text\<rparr>" pr up "?v'\<lparr>text_seg := text\<rparr>"] h(2) assms(1) True
    by (simp add: insn_ok_def)
  from half_step_text [OF this] show ?thesis using half_pc_text [OF assms(2)] True h(1) by (simp add: run_insn_def)
next
  case False
  show ?thesis
  proof (cases "is_jz (i_op i)")
    case True
    then show ?thesis by (rule run_half_jz [OF _ assms])
  next
    case f: False
    show ?thesis using opaque_half [OF False f assms(1) half_pc_set [OF assms(2)]] False f by (simp add: run_insn_def)
  qed
qed

end

subsection \<open>One extension\<close>

lemma make_mov_ok:
  assumes "make_mov text i src = (t1, i1)" "insn_ok hl cm text i" "known i" "i_op i = SX4 \<or> i_op i = ZX4" "src < 32"
  shows "known i1" "dead i1 = dead i" "i_pc i1 = i_pc i" "i_size i1 = i_size i" "i_op i1 = MOV3" "insn_ok hl cm t1 i1"
    "get_byte t1 i1 0 = get_byte text i 0" "get_byte t1 i1 1 = src" "spec i1 = SPEC R_ID R_IU R_NO R_NO True True"
    "unat (i_pc i) + i_size i < 2 ^ 32 \<Longrightarrow> changed_at i text t1"
proof -
  have t: "t1 = set_byte (set_byte (text(i_pc i := of_nat MOV3)) i 1 src) i 2 0"
    and i: "i1 = i\<lparr>i_op := MOV3, i_size := the (cc_instr_words MOV3), spec := the (op_spec MOV3)\<rparr>"
    using assms(1) by (simp_all add: make_mov_def Let_def)
  have w: "insn_wf text i" and sz: "i_size i = Suc (operand_words ! i_op i)" and sp: "op_spec (i_op i) = Some (spec i)"
    using insn_ok_known [OF assms(2,3)] by metis+
  have s2: "i_size i = 2" using sz assms(4) by (auto simp: operand_words_def)
  have m: "op_spec MOV3 = Some (SPEC R_ID R_IU R_NO R_NO True True)" by (rule MOV3_spec(1))
  have c: "the (cc_instr_words MOV3) = 2" by (simp add: cc_instr_words_def cc_opcode_operand_words_def operand_words_def)
  show f: "known i1" "dead i1 = dead i" "i_pc i1 = i_pc i" "i_size i1 = i_size i" "i_op i1 = MOV3"
    "spec i1 = SPEC R_ID R_IU R_NO R_NO True True"
    using assms(3) s2 c m by (simp_all add: i)
  have g: "get_byte t1 i1 k = get_byte t1 i k" for k unfolding i by (simp add: get_byte_def operand_def)
  show b: "get_byte t1 i1 0 = get_byte text i 0" "get_byte t1 i1 1 = src"
    unfolding g unfolding t using assms(5) by (simp_all add: get_byte_op)
  have "spec i = SPEC R_ID R_IU R_NO R_NO True False" using sp assms(4) ext4_spec by (metis option.inject)
  then have d: "get_byte text i 0 < 32" "get_byte text i 0 \<noteq> 0" using assms(2,3) w by (auto simp: insn_ok_def insn_wf_def)
  show "insn_ok hl cm t1 i1"
    using f b d assms(5) b(2) [unfolded One_nat_def] m s2
    by (simp add: insn_ok_def insn_wf_def role_less4 imm_ok_def is_jz_def operand_words_def op_table_alu)
  show "changed_at i text t1" if "unat (i_pc i) + i_size i < 2 ^ 32"
    by (rule insn_changed [OF _ that]) (use s2 in \<open>auto simp: t set_byte_def split: if_split_asm\<close>)
qed

context half_code
begin

text \<open>The extension against what is left of it.\<close>

lemma ext_low:
  assumes "insn_ok hl cm text i" "known i" "i_op i = SX4 \<or> i_op i = ZX4" "up AND BIT (get_byte text i 0) = 0"
  obtains v where "run_i text i vm = Inr (vm\<lparr>pc := i_pc i + of_nat (i_size i), regs := (regs vm)(get_byte text i 0 := v)\<rparr>)"
    "low_eq v (regs vm (get_byte text i 1))" "get_byte text i 0 \<notin> live_regs up"
proof -
  have w: "insn_wf text i" and sp: "op_spec (i_op i) = Some (spec i)" using insn_ok_known [OF assms(1,2)] by metis+
  have s: "spec i = SPEC R_ID R_IU R_NO R_NO True False" using sp assms(3) ext4_spec by (metis option.inject)
  then have d: "get_byte text i 0 < 32" "get_byte text i 0 \<noteq> 0" using assms(1,2) w by (auto simp: insn_ok_def insn_wf_def)
  obtain g where g: "alu (i_op i) = Some g" using assms(3) by (auto simp: alu_eval)
  obtain v where v: "run_i text i vm = Inr (vm\<lparr>pc := i_pc i + of_nat (i_size i), regs := (regs vm)(get_byte text i 0 := v)\<rparr>)"
    "insn_value text i (regs vm) g = Inr v"
    using run_pure [OF assms(2,1)] s g by (metis op_spec.sel(5))
  have "low_eq v (regs vm (get_byte text i 1))" using wrap_value_low [OF assms(3) g] v(2) unfolding insn_value_def by blast
  moreover have "get_byte text i 0 \<notin> live_regs up" using assms(4) d by (simp add: live_regs_def and_BIT)
  ultimately show thesis using that v(1) by blast
qed

lemma ext_gone:
  assumes "insn_ok hl cm text i" "known i" "i_op i = SX4 \<or> i_op i = ZX4" "up AND BIT (get_byte text i 0) = 0"
    and "get_byte text i 0 = get_byte text i 1"
  obtains w where "run_i text i vm = Inr w" "pc w = i_pc i + of_nat (i_size i)" "half_pc (live_regs up) w vm"
proof -
  obtain v where v: "run_i text i vm = Inr (vm\<lparr>pc := i_pc i + of_nat (i_size i), regs := (regs vm)(get_byte text i 0 := v)\<rparr>)"
    "low_eq v (regs vm (get_byte text i 1))" "get_byte text i 0 \<notin> live_regs up" using ext_low [OF assms(1-4)] .
  have "half_pc (live_regs up) (vm\<lparr>pc := p, regs := (regs vm)(get_byte text i 0 := v)\<rparr>) vm" for p
    using v(2,3) assms(5) by (auto simp: half_pc_def agree_pc_def agree_def)
  then show thesis using that v(1) by simp
qed

lemma ext_mov:
  assumes "insn_ok hl cm text i" "known i" "i_op i = SX4 \<or> i_op i = ZX4" "up AND BIT (get_byte text i 0) = 0"
    and "make_mov text i (get_byte text i 1) = (t1, i1)"
  obtains w w1 where "run_i text i vm = Inr w" "run_i t1 i1 vm = Inr w1" "pc w = i_pc i + of_nat (i_size i)" "half_pc (live_regs up) w w1"
proof -
  have wf: "insn_wf text i" and sp: "op_spec (i_op i) = Some (spec i)" using insn_ok_known [OF assms(1,2)] by metis+
  have "spec i = SPEC R_ID R_IU R_NO R_NO True False" using sp assms(3) ext4_spec by (metis option.inject)
  then have s: "get_byte text i 1 < 32" using wf assms(2) by (simp add: insn_wf_def role_less4)
  note M = make_mov_ok [OF assms(5,1,2,3) s]
  obtain v where v: "run_i text i vm = Inr (vm\<lparr>pc := i_pc i + of_nat (i_size i), regs := (regs vm)(get_byte text i 0 := v)\<rparr>)"
    "low_eq v (regs vm (get_byte text i 1))" "get_byte text i 0 \<notin> live_regs up" using ext_low [OF assms(1-4)] .
  have "role (spec i1) 0 = R_ID" using M(9) by simp
  from run_alu [OF M(1,6) _ this, of _ opq vm]
  have "run_i t1 i1 vm = Inr (vm\<lparr>pc := i_pc i + of_nat (i_size i), regs := (regs vm)(get_byte text i 0 := regs vm (get_byte text i 1))\<rparr>)"
    using M(3,4,5,7,8) by (simp add: alu_eval insn_value_def)
  moreover have "half_pc (live_regs up) (vm\<lparr>pc := p, regs := (regs vm)(get_byte text i 0 := v)\<rparr>)
      (vm\<lparr>pc := q, regs := (regs vm)(get_byte text i 0 := regs vm (get_byte text i 1))\<rparr>)" for p q
    using v(2,3) by (auto simp: half_pc_def agree_pc_def agree_def)
  ultimately show thesis using that v(1) by simp
qed


text \<open>The walk, compared with the block it started from.\<close>

definition halves_inv :: "u32 \<Rightarrow> u32 \<Rightarrow> text_words \<Rightarrow> insn list \<Rightarrow> text_words \<Rightarrow> insn list \<Rightarrow> u32 \<Rightarrow> bool" where
  "halves_inv pr up t0 is t1 as up1 \<longleftrightarrow>
     block_ok hl cm t1 as \<and> (as = []) = (is = []) \<and>
     (\<forall>k. (\<forall>j \<in> set is. before k j) \<longrightarrow> (\<forall>j \<in> set as. before k j) \<and>
        (unat (i_pc k) + i_size k < 2 ^ 32 \<longrightarrow> same_words t0 t1 k)) \<and>
     (\<forall>vm vm'. half_pc (live_regs up1) vm vm' \<longrightarrow> half_reach (live_regs up) (go t0 is vm) (go t1 as vm'))"

lemma halves_invI:
  assumes "block_ok hl cm t1 (i1 # as)"
    and "\<And>k. \<forall>j \<in> set (i # is). before k j \<Longrightarrow> (\<forall>j \<in> set (i1 # as). before k j) \<and>
      (unat (i_pc k) + i_size k < 2 ^ 32 \<longrightarrow> same_words t0 t1 k)"
    and "\<And>vm vm'. half_pc (live_regs up1) vm vm' \<Longrightarrow> half_reach (live_regs up) (go t0 (i # is) vm) (go t1 (i1 # as) vm')"
  shows "halves_inv pr up t0 (i # is) t1 (i1 # as) up1"
  unfolding halves_inv_def using assms by blast

lemma half_stepD:
  assumes "half_step H s s'"
  obtains e w w' where "s = Inl (e, w)" "s' = Inl (e, w')" | w w' where "s = Inr w" "s' = Inr w'" "half_pc H w w'" "pc w' = pc w"
  using assms that by (cases s; cases s') (auto dest: agree_half_pc)

lemma halves_keep:
  assumes "insn_ok hl cm t0 i" "\<not> dead i" "is \<noteq> [] \<longrightarrow> falls_through i" "same_words t0 t1 i" "(as = []) = (is = [])" "is = [] \<longrightarrow> up1 = up"
    and "\<And>w w'. half_pc (live_regs up1) w w' \<Longrightarrow> half_reach (live_regs up) (go t0 is w) (go t1 as w')"
    and "half_pc (live_regs (hi_step pr t1 i up1)) vm vm'"
  shows "half_reach (live_regs up) (go t0 (i # is) vm) (go t1 (i # as) vm')"
proof -
  have ok: "insn_ok hl cm t1 i" using insn_ok_same [OF assms(4,1)] .
  have r: "run_i t0 i vm = run_i t1 i vm" using run_i_same [OF assms(4,1)] by simp
  from run_half [OF ok assms(8)] show ?thesis
  proof (cases rule: half_stepD)
    case (1 e w w')
    then show ?thesis using assms(2) r by simp
  next
    case (2 w w')
    show ?thesis
    proof (cases "pc w = i_pc i + of_nat (i_size i)")
      case True
      then show ?thesis using 2 assms(2,7) r by simp
    next
      case False
      then have "is = []" using run_i_next [OF _ ok 2(1)] assms(3) by blast
      then have "half_pc (live_regs up) w w'" "up1 = up" using 2(3) assms(6) by simp_all
      then show ?thesis using False 2 assms(2) r by (cases w, cases w') (auto simp: agree_half_def half_pc_def agree_pc_def agree_def)
    qed
  qed
qed

lemma drop_wrap_inv:
  assumes "halves_inv pr up t0 is t1 as up1" and blk0: "block_ok hl cm t0 (i # is)" "is = [] \<longrightarrow> up1 = up"
    and "drop_wrap pr i (t1, as, up1, ch) = (t2, as2, up2, ch2)"
  shows "halves_inv pr up t0 (i # is) t2 as2 up2"
proof -
  have I: "block_ok hl cm t1 as" "(as = []) = (is = [])"
    "\<And>k. \<forall>j \<in> set is. before k j \<Longrightarrow> (\<forall>j \<in> set as. before k j) \<and> (unat (i_pc k) + i_size k < 2 ^ 32 \<longrightarrow> same_words t0 t1 k)"
    "\<And>vm vm'. half_pc (live_regs up1) vm vm' \<Longrightarrow> half_reach (live_regs up) (go t0 is vm) (go t1 as vm')"
    using assms(1) unfolding halves_inv_def by blast+
  have B: "\<forall>j \<in> set is. before i j" "unat (i_pc i) + i_size i < 2 ^ 32"
    "dead i \<or> insn_ok hl cm t0 i \<and> (is \<noteq> [] \<longrightarrow> falls_through i)"
    using blk0 by (auto simp: block_ok_Cons)
  have bi: "\<forall>j \<in> set as. before i j" and wi: "same_words t0 t1 i" using I(3) [OF B(1)] B(2) by blast+
  have bk: "(\<forall>j \<in> set (i # as). before k j) \<and> (unat (i_pc k) + i_size k < 2 ^ 32 \<longrightarrow> same_words t0 t1 k)"
    if "\<forall>j \<in> set (i # is). before k j" for k using that I(3) [of k] by auto
  have bj: "(\<forall>j \<in> set (i1 # as). before k j) \<and> (unat (i_pc k) + i_size k < 2 ^ 32 \<longrightarrow> same_words t0 t1 k)"
    if "\<forall>j \<in> set (i # is). before k j" "i_pc i1 = i_pc i" for k i1 using bk [OF that(1)] that(2) by (auto simp: before_def)
  show ?thesis
  proof (cases "dead i")
    case True
    then have r: "t2 = t1" "as2 = i # as" "up2 = up1" using assms(4) by (simp_all add: drop_wrap_def)
    have "block_ok hl cm t1 (i # as)" using I(1) B(2) bi True by (simp add: block_ok_Cons)
    moreover have "half_reach (live_regs up) (go t0 (i # is) vm) (go t1 (i # as) vm')" if "half_pc (live_regs up1) vm vm'" for vm vm'
      using I(4) [OF that] True by simp
    ultimately show ?thesis unfolding r using bk by (intro halves_invI)
  next
    case False
    have oki: "insn_ok hl cm t1 i" and ok0: "insn_ok hl cm t0 i" and fi: "is \<noteq> [] \<longrightarrow> falls_through i"
      using B(3) False insn_ok_same [OF wi] by auto
    have blk: "block_ok hl cm t1 (i # as)" using I(1,2) bi B(2) oki fi by (simp add: block_ok_Cons)
    let ?rd = "get_byte t1 i 0" and ?rs = "get_byte t1 i 1"
    let ?c = "known i \<and> (i_op i = SX4 \<or> i_op i = ZX4) \<and> ?rd \<noteq> REG_ZERO \<and> up1 AND BIT ?rd = 0"
    have r0: "run_i t0 i vm = run_i t1 i vm" for vm using run_i_same [OF wi ok0] by simp
    show ?thesis
    proof (cases ?c)
      case f: False
      have r: "t2 = t1" "as2 = i # as" "up2 = hi_step pr t1 i up1" using assms(4) False f by (auto simp: drop_wrap_def Let_def split: if_split_asm)
      have "half_reach (live_regs up) (go t0 (i # is) vm) (go t1 (i # as) vm')"
        if "half_pc (live_regs (hi_step pr t1 i up1)) vm vm'" for vm vm'
        by (rule halves_keep [OF ok0 False fi wi I(2) assms(3) I(4) that])
      then show ?thesis unfolding r using blk bk by (intro halves_invI)
    next
      case c: True
      then have x: "known i" "i_op i = SX4 \<or> i_op i = ZX4" "up1 AND BIT ?rd = 0" by blast+
      show ?thesis
      proof (cases "?rd = ?rs")
        case eq: True
        then have r: "t2 = t1" "as2 = i\<lparr>dead := True\<rparr> # as" "up2 = up1" using assms(4) False c by (simp_all add: drop_wrap_def)
        have "block_ok hl cm t1 (i\<lparr>dead := True\<rparr> # as)"
          using block_ok_shrink [of hl cm t1 "[]" i as "i\<lparr>dead := True\<rparr>" t1] blk by simp
        moreover have "half_reach (live_regs up) (go t0 (i # is) vm) (go t1 (i\<lparr>dead := True\<rparr> # as) vm')"
          if h: "half_pc (live_regs up1) vm vm'" for vm vm'
        proof -
          obtain w where w: "run_i t1 i vm = Inr w" "pc w = i_pc i + of_nat (i_size i)" "half_pc (live_regs up1) w vm"
            using ext_gone [OF oki x eq] .
          show ?thesis using I(4) [OF half_pc_trans [OF w(3) h]] w(1,2) False r0 by simp
        qed
        moreover have "i_pc (i\<lparr>dead := True\<rparr>) = i_pc i" by simp
        ultimately show ?thesis unfolding r using bj by (intro halves_invI)
      next
        case ne: False
        obtain t3 i1 where m: "make_mov t1 i ?rs = (t3, i1)" by (meson surj_pair)
        have r: "t2 = t3" "as2 = i1 # as" "up2 = hi_step pr t3 i1 up1"
          using assms(4) False c ne m by (auto simp: drop_wrap_def)
        have wf: "insn_wf t1 i" and sp: "op_spec (i_op i) = Some (spec i)" using insn_ok_known [OF oki x(1)] by metis+
        have "spec i = SPEC R_ID R_IU R_NO R_NO True False" using sp x(2) ext4_spec by (metis option.inject)
        then have s: "?rs < 32" using wf x(1) by (simp add: insn_wf_def role_less4)
        note M = make_mov_ok [OF m oki x(1,2) s]
        have ch: "changed_at i t1 t3" using M(10) B(2) by simp
        have sz: "0 < i_size i" using oki by (simp add: insn_ok_def)
        have same: "\<forall>k \<in> set as. same_words t1 t3 k"
          using words_of_others [of hl cm t1 "[]" i as t3] blk ch sz by auto
        have b3: "block_ok hl cm t3 (i1 # as)"
          using block_ok_shrink [of hl cm t1 "[]" i as i1 t3] blk M(3,4,6) same known_falls [OF M(1)] by simp
        have g3: "go t3 as = go t1 as" using go_same [of as t1 t3] I(1) same by (auto simp: block_ok_def)
        have "half_reach (live_regs up) (go t0 (i # is) vm) (go t3 (i1 # as) vm')"
          if h: "half_pc (live_regs (hi_step pr t3 i1 up1)) vm vm'" for vm vm'
        proof -
          obtain w w1 where w: "run_i t1 i vm = Inr w" "run_i t3 i1 vm = Inr w1" "pc w = i_pc i + of_nat (i_size i)"
            "half_pc (live_regs up1) w w1" using ext_mov [OF oki x m] .
          from run_half [OF M(6) h] obtain w2 where w2: "run_i t3 i1 vm' = Inr w2" "half_pc (live_regs up1) w1 w2" "pc w2 = pc w1"
            by (cases rule: half_stepD) (use w(2) in auto)
          have "pc w1 = i_pc i + of_nat (i_size i)" using run_known(1) [OF M(1,6) w(2)] M(3,4) by simp
          then show ?thesis using I(4) [OF half_pc_trans [OF w(4) w2(2)]] w(1,3) w2(1,3) False r0 M(2,3,4) g3 by simp
        qed
        moreover have "(\<forall>j \<in> set (i1 # as). before k j) \<and> (unat (i_pc k) + i_size k < 2 ^ 32 \<longrightarrow> same_words t0 t3 k)"
          if h: "\<forall>j \<in> set (i # is). before k j" for k
        proof -
          have k: "before k i" using h by simp
          have "same_words t1 t3 k" if "unat (i_pc k) + i_size k < 2 ^ 32"
            by (rule changed_before [OF _ ch that sz]) (use k in simp)
          then show ?thesis using bj [OF h M(3)] same_words_trans by blast
        qed
        ultimately show ?thesis unfolding r using b3 by (intro halves_invI)
      qed
    qed
  qed
qed

theorem drop_block_wraps_ok:
  assumes "block_ok hl cm text is" "drop_block_wraps pr text is up = (text', is', up', ch)" "half_pc (live_regs up') vm vm'"
  shows "block_ok hl cm text' is' \<and> half_reach (live_regs up) (go text is vm) (go text' is' vm')"
proof -
  have "\<exists>t1 as up1 ch1. foldr (drop_wrap pr) is (text, [], up, False) = (t1, as, up1, ch1) \<and> halves_inv pr up text is t1 as up1 \<and>
      (is = [] \<longrightarrow> up1 = up)"
    using assms(1)
  proof (induction "is")
    case Nil
    then show ?case by (intro exI [of _ "text"] exI [of _ "[]"] exI [of _ up] exI [of _ False]) (simp add: halves_inv_def)
  next
    case (Cons i "is")
    then obtain t1 as up1 ch1 where f: "foldr (drop_wrap pr) is (text, [], up, False) = (t1, as, up1, ch1)"
      "halves_inv pr up text is t1 as up1" "is = [] \<longrightarrow> up1 = up" by (auto simp: block_ok_Cons)
    obtain t2 as2 up2 ch2 where d: "drop_wrap pr i (t1, as, up1, ch1) = (t2, as2, up2, ch2)" by (metis prod_cases4)
    show ?case using drop_wrap_inv [OF f(2) Cons.prems f(3) d] f(1) d by simp
  qed
  then show ?thesis using assms(2,3) by (auto simp: drop_block_wraps_def halves_inv_def)
qed

end

subsection \<open>The contract on the jump handlers\<close>

lemma branch_code_half:
  assumes "\<not> known i" "\<not> is_jz (i_op i)" "insn_ok hl cm text i" and a: "agree_half (live_regs (hi_step pr text i up)) vm vm'"
  shows "half_step (live_regs up) (branch_code hl cm text i vm) (branch_code hl cm text i vm')"
proof -
  let ?M = "live_regs (hi_step pr text i up)"
  have ag: "agree ?M (vm\<lparr>pc := p\<rparr>) (vm'\<lparr>pc := p\<rparr>)" for p
    using half_pc_set [of ?M vm vm' p] agree_half_pc [OF a] unfolding agree_half_def by blast
  have low: "low_eq (regs vm r) (regs vm' r)" for r using a by (simp add: agree_half_def)
  have res: "half_step (live_regs up) s s'" if h: "agree_step ?M s s'" "live_regs up \<subseteq> ?M" 
    "\<And>w. s = Inr w \<Longrightarrow> regs w = regs vm" "\<And>w. s' = Inr w \<Longrightarrow> regs w = regs vm'" for s s'
  proof (cases s)
    case (Inl x)
    then show ?thesis using h(1) by (cases x; cases s') auto
  next
    case (Inr w)
    then obtain w' where w': "s' = Inr w'" "agree ?M w w'" using h(1) by (cases s') auto
    show ?thesis using Inr w' agree_mono [OF w'(2) h(2)] low h(3) [OF Inr] h(4) [OF w'(1)] by (simp add: agree_half_def)
  qed
  show ?thesis
  proof (cases rule: branch_code_cases [of hl cm "text" i])
    case fault
    then show ?thesis by simp
  next
    case jump
    have "live_regs up \<subseteq> ?M"
      using assms(1) jump(1) by (auto simp: live_regs_def hi_step_def Let_def effects_def no_eff_def bit_or_iff)
    moreover have "agree_step ?M (branch_code hl cm text i vm) (branch_code hl cm text i vm')"
      unfolding jump(2) by (rule branch_agree [OF branch_ok_skeletons(4) ag]) simp
    ultimately show ?thesis by (intro res branch_code_regs)
  next
    case (branch h)
    have e: "idef (effects text i) = 0" using branch(1,6) assms(2) by (simp add: effects_def Let_def is_jz_def no_eff_def)
    have sb: "live_regs (fst (step_back text i (0, 0))) \<subseteq> ?M"
      using assms(1) by (auto simp: live_regs_def hi_step_def step_back_def Let_def bit_or_iff)
    have "agree_step ?M (branch_code hl cm text i vm) (branch_code hl cm text i vm')"
      unfolding branch(4)
    proof (rule branch_agree [OF branch(5) ag], rule ballI)
      fix k assume "k \<in> set (branch_ks (i_op i))"
      from fused_live [OF branch(1,6) assms(2) branch(2) this, of 0 0] sb
      show "opnd_byte (text (pc (vm\<lparr>pc := i_pc i + 1\<rparr>))) k \<in> ?M" by (auto simp: get_byte_def operand_def)
    qed
    moreover have "live_regs up \<subseteq> ?M" using e by (auto simp: live_regs_def hi_step_def Let_def bit_or_iff)
    ultimately show ?thesis by (intro res branch_code_regs)
  qed
qed

interpretation half_branches: half_code "branch_code hl cm" hl cm for hl cm
  by (intro half_code.intro branch_code_opaque half_code_axioms.intro) (rule branch_code_half)

subsection \<open>Properties\<close>

text \<open>
  C10: Wrap elimination keeps what a block computes. Given the registers whose upper half is read
  after the block, the rewritten block, in which 32-bit extensions have become copies or are gone,
  run from the same machine ends in the same fault, or leaves at the same place a machine with the
  same memory and stack, the same low half in every register, and the same value in every register
  whose upper half is read later; and it is again a block of well-formed instructions.
\<close>

theorem dropped_wraps_preserve:
  assumes "half_code opq hl cm" "block_ok hl cm text is" "drop_block_wraps pr text is up = (text', is', up', ch)"
  shows "block_ok hl cm text' is' \<and>
    half_step (live_regs up) (run_insns opq hl cm stop text is vm) (run_insns opq hl cm stop text' is' vm)"
  using half_code.drop_block_wraps_ok [OF assms half_pc_refl] half_reach_run by blast

text \<open>The addition and the wrap of \<open>wrap_block\<close>, when only the low half of the result is read.\<close>

theorem dropped_wraps_preserve_witness:
  "\<exists>text' is' up'. drop_block_wraps 0 wrap_text wrap_block 0 = (text', is', up', True) \<and> map i_op is' = [ADD3, MOV3] \<and>
     half_step (live_regs 0) (run_insns (branch_code (\<lambda>_ _. 0) (\<lambda>_ _ _. True)) (\<lambda>_ _. 0) (\<lambda>_ _ _. True) 4 wrap_text wrap_block addi_vm)
       (run_insns (branch_code (\<lambda>_ _. 0) (\<lambda>_ _ _. True)) (\<lambda>_ _. 0) (\<lambda>_ _ _. True) 4 text' is' addi_vm)"
proof -
  let ?hl = "\<lambda>_ _. 0 :: u64" and ?cm = "\<lambda>_ _ _. True"
  have b: "block_ok ?hl ?cm wrap_text wrap_block"
    by (simp add: wrap_block_def block_ok_def layout_def before_def wrap_fields insn_ok_def insn_wf_def fold_specs ext4_spec role_less4
        wrap_bytes imm_ok_def is_jz_def op_table_alu falls_through_def operand_words_def)
  obtain text' is' up' where r: "drop_block_wraps 0 wrap_text wrap_block 0 = (text', is', up', True)" "map i_op is' = [ADD3, MOV3]"
    by (simp add: drop_block_wraps_def wrap_block_def drop_wrap_def wrap_fields wrap_bytes make_mov_def Let_def)
  show ?thesis
    using dropped_wraps_preserve [OF half_branches.half_code_axioms b r(1), of 4, THEN conjunct2] r
    by - (rule exI, rule exI, rule exI, rule conjI, assumption, rule conjI, assumption+)
qed

end
