(* ===== verification/HashMap.thy ===== *)
theory HashMap
  imports Prelude
begin

text \<open>
  The open-addressing hash map of \<open>src/src/hashmap.c\<close>, used for symbol tables, macros and the VM's
  shadow tables. A key pointer is null, the tombstone \<open>(void *)-1\<close>, a heap string, or an integer
  stored in the pointer itself (\<open>keylen == -1\<close>); \<open>int_ptr\<close> is that last conversion, with its two
  collisions. A value is a pointer, 0 for null. \<open>capacity\<close> is the length of the bucket array and an
  unallocated array is the empty list. Allocation failure, which ends the process, is left out, and
  so is the freeing of keys: a key is the bytes it points to.
\<close>

datatype kptr = KNull | KTomb | KStr "u8 list" | KInt u64

record entry =
  key :: kptr
  keylen :: int
  val :: u64

record hashmap =
  buckets :: "entry list"
  used :: nat

definition capacity :: "hashmap \<Rightarrow> nat" where
  "capacity m = length (buckets m)"

definition INIT_SIZE :: nat where
  "INIT_SIZE = 16"

definition HIGH_WATERMARK :: nat where
  "HIGH_WATERMARK = 70"

definition LOW_WATERMARK :: nat where
  "LOW_WATERMARK = 50"

text \<open>\<open>calloc\<close>: every bucket is zero.\<close>

definition blank_entry :: entry where
  "blank_entry = \<lparr>key = KNull, keylen = 0, val = 0\<rparr>"

definition empty_map :: hashmap where
  "empty_map = \<lparr>buckets = [], used = 0\<rparr>"

definition int_ptr :: "u64 \<Rightarrow> kptr" where
  "int_ptr k = (if k = 0 then KNull else if k = - 1 then KTomb else KInt k)"

subsection \<open>Hashing and matching\<close>

definition fnv_hash :: "u8 list \<Rightarrow> u64" where
  "fnv_hash s = fold (\<lambda>c h. (h * 0x100000001b3) XOR ucast c) s 0xcbf29ce484222325"

definition int_hash :: "u64 \<Rightarrow> u64" where
  "int_hash k =
     (let h = k; h = h XOR drop_bit 33 h; h = h * 0xff51afd7ed558ccd;
          h = h XOR drop_bit 33 h; h = h * 0xc4ceb9fe1a85ec53
      in h XOR drop_bit 33 h)"

definition memcmp_eq :: "kptr \<Rightarrow> u8 list \<Rightarrow> bool" where
  "memcmp_eq p s = (case p of KStr b \<Rightarrow> take (length s) b = s | _ \<Rightarrow> False)"

definition match :: "entry \<Rightarrow> u8 list \<Rightarrow> bool" where
  "match e s \<longleftrightarrow> key e \<noteq> KNull \<and> key e \<noteq> KTomb \<and> keylen e = int (length s) \<and> memcmp_eq (key e) s"

definition match_int :: "entry \<Rightarrow> u64 \<Rightarrow> bool" where
  "match_int e k \<longleftrightarrow> key e \<noteq> KNull \<and> key e \<noteq> KTomb \<and> keylen e = - 1 \<and>
     (case key e of KInt v \<Rightarrow> v = k | _ \<Rightarrow> False)"

subsection \<open>Probing\<close>

text \<open>The slots visited, \<open>(hash + i) % capacity\<close> with the sum in \<open>uint64_t\<close>.\<close>

definition probe :: "u64 \<Rightarrow> nat \<Rightarrow> nat \<Rightarrow> nat" where
  "probe h cap i = unat (h + of_nat i) mod cap"

definition probes :: "u64 \<Rightarrow> nat \<Rightarrow> nat list" where
  "probes h cap = map (probe h cap) [0..<cap]"

datatype found = Found nat | Missing | Exhausted

fun find_slot :: "entry list \<Rightarrow> (entry \<Rightarrow> bool) \<Rightarrow> nat list \<Rightarrow> found" where
  "find_slot bs mt [] = Exhausted"
| "find_slot bs mt (j # js) =
     (if mt (bs ! j) then Found j
      else if key (bs ! j) = KNull then Missing
      else find_slot bs mt js)"

text \<open>Where an insertion ends: on the key's own entry, on a tombstone to revive, on a free slot, or
  nowhere.\<close>

datatype place = Hit nat | Revive nat | Fresh nat | Stuck

fun insert_slot :: "entry list \<Rightarrow> (entry \<Rightarrow> bool) \<Rightarrow> nat option \<Rightarrow> nat list \<Rightarrow> place" where
  "insert_slot bs mt tomb [] = (case tomb of Some t \<Rightarrow> Revive t | None \<Rightarrow> Stuck)"
| "insert_slot bs mt tomb (j # js) =
     (if mt (bs ! j) then Hit j
      else if key (bs ! j) = KTomb
      then insert_slot bs mt (case tomb of None \<Rightarrow> Some j | Some t \<Rightarrow> Some t) js
      else if key (bs ! j) = KNull
      then (case tomb of Some t \<Rightarrow> Revive t | None \<Rightarrow> Fresh j)
      else insert_slot bs mt tomb js)"

text \<open>\<open>get_entry\<close> and \<open>get_entry_int\<close>: the index of the entry. The first reaches \<open>unreachable()\<close>
  when the probe is exhausted, the second returns null.\<close>

definition get_entry :: "hashmap \<Rightarrow> u8 list \<Rightarrow> found" where
  "get_entry m s =
     (if buckets m = [] then Missing
      else find_slot (buckets m) (\<lambda>e. match e s) (probes (fnv_hash s) (capacity m)))"

definition get_entry_int :: "hashmap \<Rightarrow> u64 \<Rightarrow> found" where
  "get_entry_int m k =
     (if buckets m = [] then Missing
      else case find_slot (buckets m) (\<lambda>e. match_int e k) (probes (int_hash k) (capacity m)) of
             Exhausted \<Rightarrow> Missing | r \<Rightarrow> r)"

subsection \<open>Insertion\<close>

definition set_key :: "kptr \<Rightarrow> int \<Rightarrow> nat \<Rightarrow> hashmap \<Rightarrow> hashmap" where
  "set_key p l j m = m\<lparr>buckets := (buckets m)[j := (buckets m ! j)\<lparr>key := p, keylen := l\<rparr>]\<rparr>"

text \<open>The part of the two insertions after the capacity check: the map and the entry's index, \<open>None\<close>
  at \<open>unreachable()\<close>.\<close>

definition claim_slot :: "kptr \<Rightarrow> int \<Rightarrow> (entry \<Rightarrow> bool) \<Rightarrow> u64 \<Rightarrow> hashmap \<Rightarrow> (hashmap \<times> nat) option" where
  "claim_slot p l mt h m =
     (case insert_slot (buckets m) mt None (probes h (capacity m)) of
        Hit j \<Rightarrow> Some (m, j)
      | Revive j \<Rightarrow> Some (set_key p l j m, j)
      | Fresh j \<Rightarrow> Some ((set_key p l j m)\<lparr>used := used m + 1\<rparr>, j)
      | Stuck \<Rightarrow> None)"

definition needs_rehash :: "hashmap \<Rightarrow> bool" where
  "needs_rehash m \<longleftrightarrow> (used m * 100) div capacity m \<ge> HIGH_WATERMARK"

definition set_val :: "u64 \<Rightarrow> hashmap \<times> nat \<Rightarrow> hashmap" where
  "set_val v mj = (fst mj)\<lparr>buckets := (buckets (fst mj))[snd mj := (buckets (fst mj) ! snd mj)\<lparr>val := v\<rparr>]\<rparr>"

definition claim_str :: "u8 list \<Rightarrow> hashmap \<Rightarrow> (hashmap \<times> nat) option" where
  "claim_str s m = claim_slot (KStr s) (int (length s)) (\<lambda>e. match e s) (fnv_hash s) m"

definition claim_int :: "u64 \<Rightarrow> hashmap \<Rightarrow> (hashmap \<times> nat) option" where
  "claim_int k m = claim_slot (int_ptr k) (- 1) (\<lambda>e. match_int e k) (int_hash k) m"

subsection \<open>Rehashing\<close>

definition is_live :: "entry \<Rightarrow> bool" where
  "is_live e \<longleftrightarrow> key e \<noteq> KNull \<and> key e \<noteq> KTomb"

function grow_cap :: "nat \<Rightarrow> nat \<Rightarrow> nat" where
  "grow_cap nkeys cap =
     (if (nkeys * 100) div cap \<ge> LOW_WATERMARK then grow_cap nkeys (cap * 2) else cap)"
  by pat_completeness auto
termination
proof (relation "measure (\<lambda>(nkeys, cap). Suc (2 * nkeys) - cap)")
  fix nkeys cap :: nat
  assume a: "LOW_WATERMARK \<le> nkeys * 100 div cap"
  then have "cap \<noteq> 0" by (cases cap) (auto simp: LOW_WATERMARK_def)
  have "50 * cap \<le> (nkeys * 100 div cap) * cap" using a by (simp add: LOW_WATERMARK_def)
  also have "\<dots> \<le> nkeys * 100" by (rule div_times_less_eq_dividend)
  finally have "50 * cap \<le> nkeys * 100" .
  moreover note \<open>cap \<noteq> 0\<close>
  ultimately show "((nkeys, cap * 2), nkeys, cap) \<in> measure (\<lambda>(nkeys, cap). Suc (2 * nkeys) - cap)" by simp
qed simp

declare grow_cap.simps [simp del]

text \<open>Re-inserting one entry into the new map. The insertion functions would rehash a map above the
  high watermark; \<open>None\<close> marks that recursive call, and \<open>unreachable()\<close>.\<close>

definition reinsert :: "entry \<Rightarrow> hashmap \<Rightarrow> hashmap option" where
  "reinsert e m2 =
     (if \<not> is_live e then Some m2
      else if needs_rehash m2 then None
      else map_option (set_val (val e))
             (if keylen e = - 1 then claim_int (case key e of KInt k \<Rightarrow> k | _ \<Rightarrow> 0) m2
              else claim_str (case key e of KStr s \<Rightarrow> s | _ \<Rightarrow> []) m2))"

fun reinsert_all :: "entry list \<Rightarrow> hashmap \<Rightarrow> hashmap option" where
  "reinsert_all [] m2 = Some m2"
| "reinsert_all (e # es) m2 = (case reinsert e m2 of None \<Rightarrow> None | Some m3 \<Rightarrow> reinsert_all es m3)"

definition live_count :: "hashmap \<Rightarrow> nat" where
  "live_count m = length (filter is_live (buckets m))"

text \<open>\<open>None\<close> also stands for the failure of \<open>assert(map2.used == nkeys)\<close>.\<close>

definition rehash :: "hashmap \<Rightarrow> hashmap option" where
  "rehash m =
     (let nkeys = live_count m; cap = grow_cap nkeys (capacity m)
      in case reinsert_all (buckets m) \<lparr>buckets = replicate cap blank_entry, used = 0\<rparr> of
           None \<Rightarrow> None
         | Some m2 \<Rightarrow> if used m2 = nkeys then Some m2 else None)"

definition make_room :: "hashmap \<Rightarrow> hashmap option" where
  "make_room m =
     (if buckets m = [] then Some (m\<lparr>buckets := replicate INIT_SIZE blank_entry\<rparr>)
      else if needs_rehash m then rehash m else Some m)"

definition get_or_insert_entry_raw :: "u8 list \<Rightarrow> hashmap \<Rightarrow> (hashmap \<times> nat) option" where
  "get_or_insert_entry_raw s m = (case make_room m of None \<Rightarrow> None | Some m1 \<Rightarrow> claim_str s m1)"

definition get_or_insert_entry_int :: "u64 \<Rightarrow> hashmap \<Rightarrow> (hashmap \<times> nat) option" where
  "get_or_insert_entry_int k m = (case make_room m of None \<Rightarrow> None | Some m1 \<Rightarrow> claim_int k m1)"

subsection \<open>Operations\<close>

text \<open>The value of the entry found, null without one; \<open>None\<close> at \<open>unreachable()\<close>, which ends the
  compiler with an internal error.\<close>

definition entry_val :: "hashmap \<Rightarrow> found \<Rightarrow> u64 option" where
  "entry_val m r = (case r of Found j \<Rightarrow> Some (val (buckets m ! j)) | Missing \<Rightarrow> Some 0 | Exhausted \<Rightarrow> None)"

definition hashmap_get2 :: "hashmap \<Rightarrow> u8 list \<Rightarrow> u64 option" where
  "hashmap_get2 m s = entry_val m (get_entry m s)"

definition hashmap_get_int :: "hashmap \<Rightarrow> u64 \<Rightarrow> u64 option" where
  "hashmap_get_int m k = entry_val m (get_entry_int m k)"

definition hashmap_put2 :: "hashmap \<Rightarrow> u8 list \<Rightarrow> u64 \<Rightarrow> hashmap option" where
  "hashmap_put2 m s v = map_option (set_val v) (get_or_insert_entry_raw s m)"

definition hashmap_put_int :: "hashmap \<Rightarrow> u64 \<Rightarrow> u64 \<Rightarrow> hashmap option" where
  "hashmap_put_int m k v = map_option (set_val v) (get_or_insert_entry_int k m)"

definition bury :: "found \<Rightarrow> hashmap \<Rightarrow> hashmap option" where
  "bury r m =
     (case r of Found j \<Rightarrow> Some (m\<lparr>buckets := (buckets m)[j := (buckets m ! j)\<lparr>key := KTomb\<rparr>]\<rparr>)
      | Missing \<Rightarrow> Some m | Exhausted \<Rightarrow> None)"

definition hashmap_delete2 :: "hashmap \<Rightarrow> u8 list \<Rightarrow> hashmap option" where
  "hashmap_delete2 m s = bury (get_entry m s) m"

text \<open>The same on a C string, whose length is found with \<open>strlen\<close>. Whether the map copies a new key or
  borrows it makes no difference to what the map holds.\<close>

definition c_string :: "u8 list \<Rightarrow> u8 list" where
  "c_string s = takeWhile (\<lambda>c. c \<noteq> 0) s"

definition hashmap_get :: "hashmap \<Rightarrow> u8 list \<Rightarrow> u64 option" where
  "hashmap_get m s = hashmap_get2 m (c_string s)"

definition hashmap_put :: "hashmap \<Rightarrow> u8 list \<Rightarrow> u64 \<Rightarrow> hashmap option" where
  "hashmap_put m s v = hashmap_put2 m (c_string s) v"

definition hashmap_put2_borrowed :: "hashmap \<Rightarrow> u8 list \<Rightarrow> u64 \<Rightarrow> hashmap option" where
  "hashmap_put2_borrowed m s v = map_option (set_val v) (get_or_insert_entry_raw s m)"

definition hashmap_put_borrowed :: "hashmap \<Rightarrow> u8 list \<Rightarrow> u64 \<Rightarrow> hashmap option" where
  "hashmap_put_borrowed m s v = hashmap_put2_borrowed m (c_string s) v"

definition hashmap_delete :: "hashmap \<Rightarrow> u8 list \<Rightarrow> hashmap option" where
  "hashmap_delete m s = hashmap_delete2 m (c_string s)"

definition hashmap_delete_int :: "hashmap \<Rightarrow> u64 \<Rightarrow> hashmap option" where
  "hashmap_delete_int m k = bury (get_entry_int m k) m"

definition hashmap_deinit :: "hashmap \<Rightarrow> hashmap" where
  "hashmap_deinit m = (if buckets m = [] then m else empty_map)"

definition hashmap_deinit_borrowed :: "hashmap \<Rightarrow> hashmap" where
  "hashmap_deinit_borrowed m = (if buckets m = [] then m else empty_map)"

text \<open>A snapshot copies the buckets and the owned keys, so it is the map's value at that moment.\<close>

definition hashmap_snapshot :: "hashmap \<Rightarrow> hashmap" where
  "hashmap_snapshot m = m"

definition hashmap_restore :: "hashmap \<Rightarrow> hashmap \<Rightarrow> hashmap" where
  "hashmap_restore m snapshot = snapshot"

text \<open>The callback returns whether to stop, with the user data it threads through.\<close>

fun foreach_entries :: "(kptr \<Rightarrow> int \<Rightarrow> u64 \<Rightarrow> 's \<Rightarrow> bool \<times> 's) \<Rightarrow> entry list \<Rightarrow> 's \<Rightarrow> 's" where
  "foreach_entries iter [] s = s"
| "foreach_entries iter (e # es) s =
     (if \<not> is_live e then foreach_entries iter es s
      else case iter (key e) (keylen e) (val e) s of (stop, s1) \<Rightarrow> if stop then s1 else foreach_entries iter es s1)"

definition hashmap_foreach :: "hashmap \<Rightarrow> (kptr \<Rightarrow> int \<Rightarrow> u64 \<Rightarrow> 's \<Rightarrow> bool \<times> 's) \<Rightarrow> 's \<Rightarrow> 's" where
  "hashmap_foreach m iter s = foreach_entries iter (buckets m) s"

subsection \<open>The probe sequence visits every slot\<close>

lemma probe_eq:
  assumes "c \<le> 64" "i < 2 ^ c"
  shows "probe h (2 ^ c) i = (unat h + i) mod 2 ^ c"
proof -
  have d: "(2 :: nat) ^ c dvd 2 ^ 64" using assms(1) by (rule le_imp_power_dvd)
  have "unat (h + of_nat i) = (unat h + unat (of_nat i :: u64)) mod 2 ^ 64" by (simp add: unat_word_ariths)
  also have "unat (of_nat i :: u64) = i mod 2 ^ 64" by (simp add: unat_of_nat)
  finally have "unat (h + of_nat i) = (unat h + i) mod 2 ^ 64" by (simp add: mod_add_right_eq)
  then show ?thesis unfolding probe_def using d by (simp add: mod_mod_cancel)
qed

lemma probes_perm:
  assumes "c \<le> 64"
  shows "set (probes h (2 ^ c)) = {0..<2 ^ c}" "distinct (probes h (2 ^ c))"
proof -
  let ?n = "2 ^ c :: nat"
  have p: "probes h ?n = map (\<lambda>i. (unat h + i) mod ?n) [0..<?n]" using probe_eq [OF assms] by (simp add: probes_def)
  have inj: "i = j" if "i < ?n" "j < ?n" "(a + i) mod ?n = (a + j) mod ?n" for a i j
  proof -
    have le: "i = j" if "i \<le> j" "j < ?n" "(a + i) mod ?n = (a + j) mod ?n" for i j
    proof -
      have "?n dvd (a + j) - (a + i)" using that by (metis add_le_cancel_left mod_eq_dvd_iff_nat)
      then show ?thesis using that nat_dvd_not_less [of "j - i" ?n] by (cases "i = j") auto
    qed
    show ?thesis using le [of i j] le [of j i] that by (cases "i \<le> j") auto
  qed
  show "distinct (probes h ?n)" unfolding p by (auto simp: distinct_map inj_on_def intro: inj)
  then have "card (set (probes h ?n)) = ?n" using distinct_card [of "probes h ?n"] by (simp only: probes_def length_map length_upt minus_nat.diff_0)
  moreover have "set (probes h ?n) \<subseteq> {0..<?n}" unfolding p by auto
  ultimately show "set (probes h ?n) = {0..<?n}" by (metis card_atLeastLessThan card_subset_eq diff_zero finite_atLeastLessThan)
qed

subsection \<open>The two scans\<close>

definition nonnull :: "entry list \<Rightarrow> nat \<Rightarrow> bool" where
  "nonnull bs j \<longleftrightarrow> key (bs ! j) \<noteq> KNull"

lemma find_slot_spec:
  assumes "\<And>e. mt e \<Longrightarrow> key e \<noteq> KNull"
  shows "find_slot bs mt js =
    (case filter (\<lambda>j. mt (bs ! j)) (takeWhile (nonnull bs) js) of
       j # _ \<Rightarrow> Found j
     | [] \<Rightarrow> if takeWhile (nonnull bs) js = js then Exhausted else Missing)"
  by (induction js) (auto simp: nonnull_def dest: assms split: list.splits)

lemma insert_slot_spec:
  assumes "\<And>e. mt e \<Longrightarrow> key e \<noteq> KNull \<and> key e \<noteq> KTomb"
  shows "insert_slot bs mt tomb js =
    (case filter (\<lambda>j. mt (bs ! j)) (takeWhile (nonnull bs) js) of
       j # _ \<Rightarrow> Hit j
     | [] \<Rightarrow>
         (case tomb of
            Some t \<Rightarrow> Revive t
          | None \<Rightarrow>
              (case filter (\<lambda>j. key (bs ! j) = KTomb) (takeWhile (nonnull bs) js) of
                 t # _ \<Rightarrow> Revive t
               | [] \<Rightarrow> (case dropWhile (nonnull bs) js of [] \<Rightarrow> Stuck | j # _ \<Rightarrow> Fresh j))))"
  by (induction js arbitrary: tomb)
    (auto simp: nonnull_def simp del: dropWhile_eq_Nil_conv dest: assms split: list.split option.split)

subsection \<open>Invariant and abstraction\<close>

definition entry_wf :: "entry \<Rightarrow> bool" where
  "entry_wf e \<longleftrightarrow> (case key e of KStr s \<Rightarrow> keylen e = int (length s)
     | KInt k \<Rightarrow> keylen e = - 1 \<and> k \<noteq> 0 \<and> k \<noteq> - 1 | _ \<Rightarrow> True)"

definition khash :: "kptr \<Rightarrow> u64" where
  "khash p = (case p of KStr s \<Rightarrow> fnv_hash s | KInt k \<Rightarrow> int_hash k | _ \<Rightarrow> 0)"

text \<open>A live entry is reached by the probe from its hash before any empty slot, and no key is stored
  twice.\<close>

definition table_ok :: "entry list \<Rightarrow> bool" where
  "table_ok bs \<longleftrightarrow> (\<forall>e \<in> set bs. entry_wf e) \<and>
     (\<forall>j < length bs. is_live (bs ! j) \<longrightarrow>
        j \<in> set (takeWhile (nonnull bs) (probes (khash (key (bs ! j))) (length bs)))) \<and>
     (\<forall>i < length bs. \<forall>j < length bs. is_live (bs ! i) \<longrightarrow> key (bs ! i) = key (bs ! j) \<longrightarrow> i = j)"

definition power_cap :: "nat \<Rightarrow> bool" where
  "power_cap n \<longleftrightarrow> (\<exists>c. 4 \<le> c \<and> c \<le> 30 \<and> n = 2 ^ c)"

definition occupied :: "entry list \<Rightarrow> nat" where
  "occupied bs = length (filter (\<lambda>e. key e \<noteq> KNull) bs)"

definition map_ok :: "hashmap \<Rightarrow> bool" where
  "map_ok m \<longleftrightarrow> buckets m = [] \<and> used m = 0 \<or>
     power_cap (capacity m) \<and> table_ok (buckets m) \<and> used m = occupied (buckets m) \<and> used m < capacity m"

definition live_key :: "kptr \<Rightarrow> bool" where
  "live_key p \<longleftrightarrow> p \<noteq> KNull \<and> p \<noteq> KTomb"

text \<open>The finite map the table stands for, from key pointers to values.\<close>

definition abs_map :: "hashmap \<Rightarrow> kptr \<Rightarrow> u64 option" where
  "abs_map m p = (if live_key p then map_option val (find (\<lambda>e. key e = p) (buckets m)) else None)"

lemma abs_map_used [simp]: "abs_map (m\<lparr>used := u\<rparr>) = abs_map m"
  by (simp add: abs_map_def fun_eq_iff)

lemma match_iff: "entry_wf e \<Longrightarrow> match e s \<longleftrightarrow> key e = KStr s"
  by (cases "key e") (auto simp: match_def entry_wf_def memcmp_eq_def)

lemma match_int_iff: "entry_wf e \<Longrightarrow> match_int e k \<longleftrightarrow> key e = KInt k"
  by (cases "key e") (auto simp: match_int_def entry_wf_def)

lemma find_Some_nth: "i < length bs \<Longrightarrow> P (bs ! i) \<Longrightarrow> (\<And>j. j < i \<Longrightarrow> \<not> P (bs ! j)) \<Longrightarrow> find P bs = Some (bs ! i)"
  unfolding find_Some_iff by blast

lemma table_unique:
  "table_ok bs \<Longrightarrow> i < length bs \<Longrightarrow> j < length bs \<Longrightarrow> is_live (bs ! i) \<Longrightarrow> key (bs ! i) = key (bs ! j) \<Longrightarrow> i = j"
  unfolding table_ok_def by blast

lemma table_reach:
  "table_ok bs \<Longrightarrow> j < length bs \<Longrightarrow> is_live (bs ! j) \<Longrightarrow>
     j \<in> set (takeWhile (nonnull bs) (probes (khash (key (bs ! j))) (length bs)))"
  unfolding table_ok_def by blast

lemma table_wf: "table_ok bs \<Longrightarrow> j < length bs \<Longrightarrow> entry_wf (bs ! j)"
  unfolding table_ok_def by simp

lemma abs_map_at:
  assumes "table_ok (buckets m)" "j < length (buckets m)" "is_live (buckets m ! j)"
  shows "abs_map m (key (buckets m ! j)) = Some (val (buckets m ! j))"
proof -
  have "find (\<lambda>e. key e = key (buckets m ! j)) (buckets m) = Some (buckets m ! j)"
  proof (rule find_Some_nth [OF assms(2) refl])
    fix i assume "i < j"
    then show "key (buckets m ! i) \<noteq> key (buckets m ! j)"
      using table_unique [OF assms(1,2) _ assms(3), of i] assms(2) by auto
  qed
  then show ?thesis using assms(3) by (simp add: abs_map_def live_key_def is_live_def)
qed

lemma abs_map_none: "(\<And>j. j < length (buckets m) \<Longrightarrow> key (buckets m ! j) \<noteq> p) \<Longrightarrow> abs_map m p = None"
  by (auto simp: abs_map_def find_None_iff in_set_conv_nth)

lemma abs_map_SomeD:
  assumes "abs_map m p = Some v"
  obtains j where "j < length (buckets m)" "key (buckets m ! j) = p" "val (buckets m ! j) = v" "live_key p"
  using assms by (auto simp: abs_map_def find_Some_iff split: if_split_asm)

text \<open>Two tables with the same live entries stand for the same map.\<close>

lemma abs_map_eqI:
  assumes "table_ok (buckets m)"
    and "\<And>p v. live_key p \<Longrightarrow> (\<exists>j < length (buckets m). key (buckets m ! j) = p \<and> val (buckets m ! j) = v) \<longleftrightarrow> f p = Some v"
    and "\<And>p. \<not> live_key p \<Longrightarrow> f p = None"
  shows "abs_map m = f"
proof
  fix p
  show "abs_map m p = f p"
  proof (cases "live_key p")
    case True
    show ?thesis
    proof (cases "f p")
      case None
      then have "key (buckets m ! j) \<noteq> p" if "j < length (buckets m)" for j
        using assms(2) [OF True, of "val (buckets m ! j)"] that by auto
      then show ?thesis using None abs_map_none by simp
    next
      case (Some v)
      then obtain j where j: "j < length (buckets m)" "key (buckets m ! j) = p" "val (buckets m ! j) = v"
        using assms(2) [OF True, of v] by blast
      then show ?thesis using abs_map_at [OF assms(1) j(1)] True Some by (simp add: is_live_def live_key_def)
    qed
  qed (simp add: assms(3) abs_map_def)
qed

subsection \<open>Lookup\<close>

lemma power_cap_set:
  assumes "power_cap (length bs)"
  shows "set (probes h (length bs)) = {0..<length bs}" "distinct (probes h (length bs))" "0 < length bs"
  using assms probes_perm by (auto simp: power_cap_def)

lemma has_null:
  assumes "occupied bs < length bs" "set js = {0..<length bs}"
  shows "takeWhile (nonnull bs) js \<noteq> js"
proof
  assume "takeWhile (nonnull bs) js = js"
  then have "\<forall>j \<in> set js. nonnull bs j" by (metis set_takeWhileD)
  then have "\<forall>j < length bs. key (bs ! j) \<noteq> KNull" using assms(2) by (auto simp: nonnull_def)
  then have "filter (\<lambda>e. key e \<noteq> KNull) bs = bs" by (auto simp: filter_id_conv in_set_conv_nth)
  then show False using assms(1) by (simp add: occupied_def)
qed

text \<open>The scan of a well-formed table finds the key's entry, and only that.\<close>

lemma scan_hit:
  assumes "table_ok bs" "power_cap (length bs)" "j < length bs" "is_live (bs ! j)"
  shows "filter (\<lambda>i. key (bs ! i) = key (bs ! j)) (takeWhile (nonnull bs) (probes (khash (key (bs ! j))) (length bs))) = [j]"
proof -
  let ?tw = "takeWhile (nonnull bs) (probes (khash (key (bs ! j))) (length bs))"
  have one: "distinct xs \<Longrightarrow> set xs = {x} \<Longrightarrow> xs = [x]" for xs and x :: nat
    by (cases xs; cases "tl xs") auto
  have uniq: "i = j" if "i \<in> set ?tw" "key (bs ! i) = key (bs ! j)" for i
  proof -
    have "i \<in> set (probes (khash (key (bs ! j))) (length bs))" using that(1) by (blast dest: set_takeWhileD)
    then have "i < length bs" unfolding power_cap_set(1) [OF assms(2)] by simp
    then show ?thesis using table_unique [OF assms(1,3) _ assms(4) that(2) [symmetric]] by simp
  qed
  have "set (filter (\<lambda>i. key (bs ! i) = key (bs ! j)) ?tw) = {j}"
    unfolding set_filter using table_reach [OF assms(1,3,4)] uniq by blast
  moreover have "distinct (filter (\<lambda>i. key (bs ! i) = key (bs ! j)) ?tw)"
    by (rule distinct_filter, rule distinct_takeWhile, rule power_cap_set(2) [OF assms(2)])
  ultimately show ?thesis using one by blast
qed

lemma scan_miss:
  assumes "power_cap (length bs)" "\<And>j. j < length bs \<Longrightarrow> key (bs ! j) \<noteq> p"
  shows "filter (\<lambda>i. key (bs ! i) = p) (takeWhile (nonnull bs) (probes h (length bs))) = []"
  unfolding filter_empty_conv
proof
  fix i assume "i \<in> set (takeWhile (nonnull bs) (probes h (length bs)))"
  then have "i \<in> set (probes h (length bs))" by (blast dest: set_takeWhileD)
  then have "i < length bs" unfolding power_cap_set(1) [OF assms(1)] by simp
  then show "key (bs ! i) \<noteq> p" by (rule assms(2))
qed

lemma matcher_filter:
  assumes "\<And>e. entry_wf e \<Longrightarrow> mt e \<longleftrightarrow> key e = p" "table_ok bs" "power_cap (length bs)"
  shows "filter (\<lambda>i. mt (bs ! i)) (takeWhile (nonnull bs) (probes h (length bs))) =
    filter (\<lambda>i. key (bs ! i) = p) (takeWhile (nonnull bs) (probes h (length bs)))"
proof (rule filter_cong [OF refl])
  fix i assume "i \<in> set (takeWhile (nonnull bs) (probes h (length bs)))"
  then have "i < length bs" using power_cap_set(1) [OF assms(3)] by (auto dest: set_takeWhileD)
  then show "mt (bs ! i) = (key (bs ! i) = p)" using assms(1) table_wf [OF assms(2)] by blast
qed

text \<open>A lookup in an allocated table returns the entry the abstraction names; it never runs off the
  end of the probe.\<close>

lemma find_slot_ok:
  assumes "map_ok m" "buckets m \<noteq> []" "live_key p"
    and "\<And>e. entry_wf e \<Longrightarrow> mt e \<longleftrightarrow> key e = p" "\<And>e. mt e \<Longrightarrow> key e \<noteq> KNull"
  shows "(\<exists>j. find_slot (buckets m) mt (probes (khash p) (capacity m)) = Found j \<and> j < capacity m \<and>
        key (buckets m ! j) = p \<and> abs_map m p = Some (val (buckets m ! j))) \<or>
      find_slot (buckets m) mt (probes (khash p) (capacity m)) = Missing \<and> abs_map m p = None"
proof -
  let ?bs = "buckets m"
  have t: "table_ok ?bs" "power_cap (length ?bs)" "occupied ?bs < length ?bs"
    using assms(1,2) by (auto simp: map_ok_def capacity_def)
  note f = find_slot_spec [OF assms(5), of mt ?bs] matcher_filter [OF assms(4) t(1,2)]
  show ?thesis
  proof (cases "\<exists>j < length ?bs. key (?bs ! j) = p")
    case True
    then obtain j where j: "j < length ?bs" "key (?bs ! j) = p" by blast
    then have live: "is_live (?bs ! j)" using assms(3) by (simp add: is_live_def live_key_def)
    have "find_slot ?bs mt (probes (khash p) (length ?bs)) = Found j"
      using scan_hit [OF t(1,2) j(1) live] unfolding j(2) by (simp add: f)
    moreover have "abs_map m p = Some (val (?bs ! j))" using abs_map_at [OF t(1) j(1) live] unfolding j(2) .
    ultimately show ?thesis using j by (auto simp: capacity_def)
  next
    case False
    then have "filter (\<lambda>i. key (?bs ! i) = p) (takeWhile (nonnull ?bs) (probes (khash p) (length ?bs))) = []"
      using scan_miss [OF t(2)] by blast
    then have "find_slot ?bs mt (probes (khash p) (length ?bs)) = Missing"
      using has_null [OF t(3) power_cap_set(1) [OF t(2)]] by (simp add: f)
    moreover have "abs_map m p = None" using False by (intro abs_map_none) blast
    ultimately show ?thesis by (simp add: capacity_def)
  qed
qed

subsection \<open>Insertion\<close>

lemma takeWhile_mono: "(\<And>x. P x \<Longrightarrow> Q x) \<Longrightarrow> set (takeWhile P xs) \<subseteq> set (takeWhile Q xs)"
  by (induction xs) auto

lemma takeWhile_reach:
  "j \<in> set xs \<Longrightarrow> (\<And>u. u \<in> set (takeWhile (\<lambda>x. x \<noteq> j) xs) \<Longrightarrow> Q u) \<Longrightarrow> Q j \<Longrightarrow> j \<in> set (takeWhile Q xs)"
  by (induction xs) (auto split: if_split_asm)

lemma takeWhile_before: "j \<in> set (takeWhile P xs) \<Longrightarrow> u \<in> set (takeWhile (\<lambda>x. x \<noteq> j) xs) \<Longrightarrow> P u"
  by (induction xs) (auto split: if_split_asm)

lemma dropWhile_before: "dropWhile P xs = j # ys \<Longrightarrow> u \<in> set (takeWhile (\<lambda>x. x \<noteq> j) xs) \<Longrightarrow> P u"
  by (induction xs) (auto split: if_split_asm)

text \<open>Writing a new key into a free slot its probe reaches keeps the table well formed.\<close>

definition reaches :: "entry list \<Rightarrow> kptr \<Rightarrow> nat \<Rightarrow> bool" where
  "reaches bs p j \<longleftrightarrow> j < length bs \<and> (\<forall>u \<in> set (takeWhile (\<lambda>x. x \<noteq> j) (probes (khash p) (length bs))). nonnull bs u)"

lemma table_place:
  assumes "table_ok bs" "power_cap (length bs)" "reaches bs (key e) j" "\<not> is_live (bs ! j)"
    and "\<And>i. i < length bs \<Longrightarrow> key (bs ! i) \<noteq> key e" "entry_wf e" "is_live e"
  shows "table_ok (bs[j := e])"
proof -
  let ?bs = "bs[j := e]"
  have j: "j < length bs" using assms(3) by (simp add: reaches_def)
  have nn: "nonnull bs u \<Longrightarrow> nonnull ?bs u" for u
    using assms(7) j by (cases "u = j") (auto simp: nonnull_def is_live_def)
  have at: "?bs ! i = (if i = j then e else bs ! i)" if "i < length bs" for i using that j by simp
  have "i \<in> set (takeWhile (nonnull ?bs) (probes (khash (key (?bs ! i))) (length bs)))"
    if i: "i < length bs" "is_live (?bs ! i)" for i
  proof (cases "i = j")
    case True
    have "j \<in> set (takeWhile (nonnull ?bs) (probes (khash (key e)) (length bs)))"
    proof (rule takeWhile_reach)
      show "j \<in> set (probes (khash (key e)) (length bs))" using power_cap_set(1) [OF assms(2)] j by simp
      show "nonnull ?bs u" if "u \<in> set (takeWhile (\<lambda>x. x \<noteq> j) (probes (khash (key e)) (length bs)))" for u
        using assms(3) that nn by (simp add: reaches_def)
      show "nonnull ?bs j" using assms(7) j by (simp add: nonnull_def is_live_def)
    qed
    then show ?thesis using True j by simp
  next
    case False
    then show ?thesis using table_reach [OF assms(1) i(1)] i at
      takeWhile_mono [of "nonnull bs" "nonnull ?bs", OF nn] by auto
  qed
  moreover have "a = b" if "a < length bs" "b < length bs" "is_live (?bs ! a)" "key (?bs ! a) = key (?bs ! b)" for a b
    using table_unique [OF assms(1) that(1,2)] assms(5) [OF that(1)] assms(5) [OF that(2)] that(3,4)
    unfolding at [OF that(1)] at [OF that(2)] by (auto split: if_split_asm)
  moreover have "\<forall>x \<in> set ?bs. entry_wf x"
    using assms(1,6) set_update_subset_insert [of bs j e] unfolding table_ok_def by blast
  ultimately show ?thesis unfolding table_ok_def by simp
qed

lemma occupied_update:
  assumes "j < length bs" "key e \<noteq> KNull"
  shows "occupied (bs[j := e]) = occupied bs + (if key (bs ! j) = KNull then 1 else 0)"
  using assms unfolding occupied_def
  by (induction bs arbitrary: j) (auto split: nat.split simp: less_Suc_eq_0_disj)

text \<open>Changing the value of an entry, or claiming a free slot: the map changes at one key only.\<close>

lemma abs_map_update:
  assumes "table_ok (buckets m)" "table_ok ((buckets m)[j := e])" "j < length (buckets m)" "is_live e"
    and "\<And>i. i < length (buckets m) \<Longrightarrow> i \<noteq> j \<Longrightarrow> key (buckets m ! i) \<noteq> key e"
    and "is_live (buckets m ! j) \<Longrightarrow> key (buckets m ! j) = key e"
  shows "abs_map (m\<lparr>buckets := (buckets m)[j := e], used := u\<rparr>) = (abs_map m)(key e \<mapsto> val e)"
proof (rule abs_map_eqI)
  let ?bs = "buckets m"
  fix p v assume p: "live_key p"
  show "(\<exists>i < length (buckets (m\<lparr>buckets := ?bs[j := e], used := u\<rparr>)).
      key (buckets (m\<lparr>buckets := ?bs[j := e], used := u\<rparr>) ! i) = p \<and>
      val (buckets (m\<lparr>buckets := ?bs[j := e], used := u\<rparr>) ! i) = v) \<longleftrightarrow> ((abs_map m)(key e \<mapsto> val e)) p = Some v"
  proof (cases "p = key e")
    case True
    then show ?thesis using assms(3,5) by (auto simp: nth_list_update)
  next
    case False
    have "key (?bs[j := e] ! i) = p \<and> val (?bs[j := e] ! i) = v \<longleftrightarrow> key (?bs ! i) = p \<and> val (?bs ! i) = v" for i
      using False assms(3,6) p by (cases "i = j") (auto simp: is_live_def live_key_def)
    then have "(\<exists>i < length ?bs. key (?bs[j := e] ! i) = p \<and> val (?bs[j := e] ! i) = v) \<longleftrightarrow>
        (\<exists>i < length ?bs. key (?bs ! i) = p \<and> val (?bs ! i) = v)" by blast
    also have "\<dots> \<longleftrightarrow> abs_map m p = Some v"
      using abs_map_at [OF assms(1)] p by (auto simp: is_live_def live_key_def elim!: abs_map_SomeD)
    finally show ?thesis using False by simp
  qed
next
  show "((abs_map m)(key e \<mapsto> val e)) p = None" if "\<not> live_key p" for p
    using that assms(4) by (auto simp: abs_map_def is_live_def live_key_def)
qed (use assms in simp)

text \<open>The slot an insertion claims.\<close>

lemma insert_slot_ok:
  assumes "table_ok bs" "power_cap (length bs)" "occupied bs < length bs" "live_key p"
    and "\<And>e. entry_wf e \<Longrightarrow> mt e \<longleftrightarrow> key e = p" "\<And>e. mt e \<Longrightarrow> key e \<noteq> KNull \<and> key e \<noteq> KTomb"
  defines "r \<equiv> insert_slot bs mt None (probes (khash p) (length bs))"
  shows "(\<exists>j < length bs. r = Hit j \<and> key (bs ! j) = p) \<or>
     (\<forall>i < length bs. key (bs ! i) \<noteq> p) \<and>
     ((\<exists>j. r = Revive j \<and> reaches bs p j \<and> key (bs ! j) = KTomb) \<or>
      (\<exists>j. r = Fresh j \<and> reaches bs p j \<and> key (bs ! j) = KNull))"
proof -
  let ?js = "probes (khash p) (length bs)"
  have js: "set ?js = {0..<length bs}" by (rule power_cap_set(1) [OF assms(2)])
  note f = insert_slot_spec [of mt bs None ?js, OF assms(6)] matcher_filter [OF assms(5,1,2)]
  show ?thesis
  proof (cases "\<exists>j < length bs. key (bs ! j) = p")
    case True
    then obtain j where j: "j < length bs" "key (bs ! j) = p" by blast
    then have live: "is_live (bs ! j)" using assms(4) by (simp add: is_live_def live_key_def)
    have "r = Hit j" using scan_hit [OF assms(1,2) j(1) live] unfolding j(2) r_def by (simp add: f)
    then show ?thesis using j by blast
  next
    case False
    then have miss: "filter (\<lambda>i. key (bs ! i) = p) (takeWhile (nonnull bs) ?js) = []"
      using scan_miss [OF assms(2)] by blast
    show ?thesis
    proof (cases "filter (\<lambda>j. key (bs ! j) = KTomb) (takeWhile (nonnull bs) ?js)")
      case (Cons t ts)
      then have t: "t \<in> set (takeWhile (nonnull bs) ?js)" "key (bs ! t) = KTomb"
        by (auto simp: filter_eq_Cons_iff)
      then have "reaches bs p t" using takeWhile_before [OF t(1)] js by (auto simp: reaches_def dest: set_takeWhileD)
      moreover have "r = Revive t" unfolding r_def by (simp add: f miss Cons)
      ultimately show ?thesis using False t(2) by blast
    next
      case Nil
      have "dropWhile (nonnull bs) ?js \<noteq> []" using has_null [OF assms(3) js] by (metis append_Nil2 takeWhile_dropWhile_id)
      then obtain j xs where d: "dropWhile (nonnull bs) ?js = j # xs" by (meson list.exhaust)
      then have j: "j \<in> set ?js" "\<not> nonnull bs j" using hd_dropWhile [of "nonnull bs" ?js] set_dropWhileD [of j "nonnull bs" ?js] by auto
      then have "reaches bs p j" using dropWhile_before [OF d] js by (auto simp: reaches_def)
      moreover have "r = Fresh j" unfolding r_def by (simp add: f miss Nil d)
      ultimately show ?thesis using False j(2) by (auto simp: nonnull_def)
    qed
  qed
qed

lemma table_same_key:
  assumes "table_ok bs" "j < length bs" "key e = key (bs ! j)" "keylen e = keylen (bs ! j)"
  shows "table_ok (bs[j := e])"
proof -
  have k: "key (bs[j := e] ! i) = key (bs ! i)" for i using assms(2,3) by (cases "i = j") auto
  then have n: "nonnull (bs[j := e]) = nonnull bs" by (simp add: nonnull_def fun_eq_iff)
  have l: "is_live (bs[j := e] ! i) = is_live (bs ! i)" for i by (simp add: is_live_def k)
  have "entry_wf e" using table_wf [OF assms(1,2)] assms(3,4) by (simp add: entry_wf_def split: kptr.splits)
  then have "\<forall>x \<in> set (bs[j := e]). entry_wf x"
    using assms(1) set_update_subset_insert [of bs j e] unfolding table_ok_def by blast
  then show ?thesis using assms(1) unfolding table_ok_def by (simp add: k n l)
qed

text \<open>What a client sees of an insertion: the table after the value is stored.\<close>

definition no_tombs :: "entry list \<Rightarrow> bool" where
  "no_tombs bs \<longleftrightarrow> (\<forall>e \<in> set bs. key e \<noteq> KTomb)"

definition inserted :: "hashmap \<Rightarrow> kptr \<Rightarrow> u64 \<Rightarrow> hashmap \<Rightarrow> bool" where
  "inserted m p v m2 \<longleftrightarrow>
     capacity m2 = capacity m \<and> table_ok (buckets m2) \<and> used m2 = occupied (buckets m2) \<and>
     used m2 \<le> Suc (used m) \<and> abs_map m2 = (abs_map m)(p \<mapsto> v) \<and>
     (no_tombs (buckets m) \<longrightarrow> no_tombs (buckets m2)) \<and>
     (no_tombs (buckets m) \<longrightarrow> abs_map m p = None \<longrightarrow> used m2 = Suc (used m))"

lemma no_tombs_update: "no_tombs bs \<Longrightarrow> key e \<noteq> KTomb \<Longrightarrow> no_tombs (bs[j := e])"
  using set_update_subset_insert [of bs j e] unfolding no_tombs_def by blast

text \<open>Claiming a free slot, a tombstone or an empty one.\<close>

lemma place_inserted:
  assumes "table_ok (buckets m)" "power_cap (length (buckets m))" "used m = occupied (buckets m)"
    and "reaches (buckets m) (key e) j" "\<not> is_live (buckets m ! j)"
    and "\<forall>i < length (buckets m). key (buckets m ! i) \<noteq> key e" "entry_wf e" "is_live e"
  shows "inserted m (key e) (val e) (m\<lparr>buckets := (buckets m)[j := e],
     used := used m + (if key (buckets m ! j) = KNull then 1 else 0)\<rparr>)"
proof -
  have j: "j < length (buckets m)" using assms(4) by (simp add: reaches_def)
  have t: "table_ok ((buckets m)[j := e])"
    using table_place [OF assms(1,2,4,5) _ assms(7,8)] assms(6) by blast
  have l: "key e \<noteq> KNull" "key e \<noteq> KTomb" using assms(8) by (auto simp: is_live_def)
  have "key (buckets m ! j) = KNull" if "no_tombs (buckets m)"
    using that assms(5) j by (auto simp: no_tombs_def is_live_def)
  moreover have "abs_map (m\<lparr>buckets := (buckets m)[j := e], used := u\<rparr>) = (abs_map m)(key e \<mapsto> val e)" for u
    using assms(5,6) by (intro abs_map_update assms(1,8) t j) auto
  ultimately show ?thesis
    using t assms(3) occupied_update [OF j l(1)] no_tombs_update [OF _ l(2)]
    by (simp add: inserted_def capacity_def)
qed

text \<open>An insertion into a table with a free slot succeeds.\<close>

lemma claim_slot_ok:
  assumes "map_ok m" "buckets m \<noteq> []" "live_key p" "entry_wf \<lparr>key = p, keylen = l, val = 0\<rparr>"
    and "\<And>e. entry_wf e \<Longrightarrow> mt e \<longleftrightarrow> key e = p" "\<And>e. mt e \<Longrightarrow> key e \<noteq> KNull \<and> key e \<noteq> KTomb"
  shows "\<exists>c. claim_slot p l mt (khash p) m = Some c \<and> inserted m p v (set_val v c)"
proof -
  let ?bs = "buckets m" and ?e = "\<lparr>key = p, keylen = l, val = v\<rparr>"
  have t: "table_ok ?bs" "power_cap (length ?bs)" "occupied ?bs < length ?bs" "used m = occupied ?bs"
    using assms(1,2) by (auto simp: map_ok_def capacity_def)
  have e: "entry_wf ?e" "is_live ?e" using assms(3,4) by (auto simp: entry_wf_def is_live_def live_key_def split: kptr.splits)
  let ?r = "insert_slot ?bs mt None (probes (khash p) (length ?bs))"
  consider (hit) j where "j < length ?bs" "?r = Hit j" "key (?bs ! j) = p"
    | (revive) j where "?r = Revive j" "reaches ?bs p j" "key (?bs ! j) = KTomb" "\<forall>i < length ?bs. key (?bs ! i) \<noteq> p"
    | (fresh) j where "?r = Fresh j" "reaches ?bs p j" "key (?bs ! j) = KNull" "\<forall>i < length ?bs. key (?bs ! i) \<noteq> p"
    using insert_slot_ok [OF t(1-3) assms(3,5,6)] by blast
  then show ?thesis
  proof cases
    case hit
    have live: "is_live (?bs ! j)" using hit(3) assms(3) by (simp add: is_live_def live_key_def)
    let ?f = "(?bs ! j)\<lparr>val := v\<rparr>"
    have k: "table_ok (?bs[j := ?f])" by (rule table_same_key [OF t(1) hit(1)]) simp_all
    have "abs_map (m\<lparr>buckets := ?bs[j := ?f], used := used m\<rparr>) = (abs_map m)(key ?f \<mapsto> val ?f)"
    proof (rule abs_map_update [OF t(1) k hit(1)])
      show "key (?bs ! i) \<noteq> key ?f" if "i < length ?bs" "i \<noteq> j" for i
        using table_unique [OF t(1) hit(1) that(1) live] that(2) by auto
    qed (use live in \<open>simp_all add: is_live_def\<close>)
    moreover have "abs_map m p = Some (val (?bs ! j))" using abs_map_at [OF t(1) hit(1) live] unfolding hit(3) .
    ultimately have "inserted m p v (set_val v (m, j))"
      using k t(4) live hit(1,3) occupied_update [OF hit(1), of ?f] no_tombs_update [of ?bs ?f j]
      by (simp add: inserted_def set_val_def capacity_def is_live_def)
    then show ?thesis by (simp add: claim_slot_def capacity_def hit(2))
  next
    case revive
    then have "set_val v (set_key p l j m, j) = m\<lparr>buckets := ?bs[j := ?e], used := used m + 0\<rparr>"
      by (cases "?bs ! j") (simp add: set_val_def set_key_def reaches_def)
    then show ?thesis using place_inserted [of m ?e j, OF t(1,2,4)] revive e
      by (simp add: claim_slot_def capacity_def is_live_def)
  next
    case fresh
    then have "set_val v ((set_key p l j m)\<lparr>used := used m + 1\<rparr>, j) = m\<lparr>buckets := ?bs[j := ?e], used := used m + 1\<rparr>"
      by (cases "?bs ! j") (simp add: set_val_def set_key_def reaches_def)
    then show ?thesis using place_inserted [of m ?e j, OF t(1,2,4)] fresh e
      by (simp add: claim_slot_def capacity_def is_live_def)
  qed
qed

lemma claim_str_ok:
  assumes "map_ok m" "buckets m \<noteq> []"
  shows "\<exists>c. claim_str s m = Some c \<and> inserted m (KStr s) v (set_val v c)"
  using claim_slot_ok [of m "KStr s" "int (length s)" "\<lambda>e. match e s" v, OF assms]
  by (simp add: claim_str_def live_key_def entry_wf_def khash_def match_iff) (simp add: match_def)

lemma claim_int_ok:
  assumes "map_ok m" "buckets m \<noteq> []" "k \<noteq> 0" "k \<noteq> - 1"
  shows "\<exists>c. claim_int k m = Some c \<and> inserted m (KInt k) v (set_val v c)"
  using claim_slot_ok [of m "KInt k" "- 1" "\<lambda>e. match_int e k" v, OF assms(1,2)] assms(3,4)
  by (simp add: claim_int_def int_ptr_def live_key_def entry_wf_def khash_def match_int_iff) (simp add: match_int_def)

lemma inserted_ok:
  assumes "inserted m p v m2" "map_ok m" "buckets m \<noteq> []" "Suc (used m) < capacity m"
  shows "map_ok m2 \<and> buckets m2 \<noteq> []"
  using assms by (auto simp: inserted_def map_ok_def capacity_def)

subsection \<open>Rehashing\<close>

lemma distinct_keys:
  assumes "\<And>i j. i < length bs \<Longrightarrow> j < length bs \<Longrightarrow> P (bs ! i) \<Longrightarrow> f (bs ! i) = f (bs ! j) \<Longrightarrow> i = j"
  shows "distinct (map f (filter P bs))"
  using assms
proof (induction bs)
  case (Cons b bs)
  have "distinct (map f (filter P bs))"
  proof (rule Cons.IH)
    show "i = j" if "i < length bs" "j < length bs" "P (bs ! i)" "f (bs ! i) = f (bs ! j)" for i j
      using Cons.prems [of "Suc i" "Suc j"] that by simp
  qed
  moreover have "f b \<noteq> f x" if "P b" "x \<in> set bs" for x
    using Cons.prems [of 0 "Suc _"] that by (auto simp: in_set_conv_nth)
  ultimately show ?case by auto
qed simp

text \<open>The live entries as an association list.\<close>

definition entries :: "entry list \<Rightarrow> (kptr \<times> u64) list" where
  "entries bs = map (\<lambda>e. (key e, val e)) (filter is_live bs)"

lemma abs_map_entries: "abs_map m = map_of (entries (buckets m))"
proof
  fix p
  have "live_key p \<Longrightarrow> map_option val (find (\<lambda>e. key e = p) bs) = map_of (entries bs) p" for bs
    by (induction bs) (auto simp: entries_def is_live_def live_key_def)
  moreover have "\<not> live_key p \<Longrightarrow> map_of (entries bs) p = None" for bs
    by (induction bs) (auto simp: entries_def is_live_def live_key_def)
  ultimately show "abs_map m p = map_of (entries (buckets m)) p" by (simp add: abs_map_def)
qed

lemma reinsert_ok:
  assumes "map_ok m2" "buckets m2 \<noteq> []" "entry_wf e" "is_live e" "\<not> needs_rehash m2"
  shows "\<exists>m3. reinsert e m2 = Some m3 \<and> inserted m2 (key e) (val e) m3"
proof (cases "key e")
  case (KStr s)
  then show ?thesis using assms claim_str_ok [OF assms(1,2), of s "val e"] by (auto simp: reinsert_def entry_wf_def)
next
  case (KInt k)
  then show ?thesis using assms claim_int_ok [OF assms(1,2), of k "val e"] by (auto simp: reinsert_def entry_wf_def)
qed (use assms in \<open>auto simp: is_live_def\<close>)

text \<open>Re-inserting distinct keys below the low watermark never asks for another rehash, never runs out
  of slots, and counts every key.\<close>

lemma reinsert_all_ok:
  assumes "\<forall>e \<in> set es. entry_wf e" "distinct (map fst (entries es))"
    and "\<forall>p \<in> fst ` set (entries es). abs_map m2 p = None"
    and "map_ok m2" "buckets m2 \<noteq> []" "no_tombs (buckets m2)"
    and "(used m2 + length (entries es)) * 100 < 50 * capacity m2"
  shows "\<exists>m3. reinsert_all es m2 = Some m3 \<and> map_ok m3 \<and> capacity m3 = capacity m2 \<and>
    used m3 = used m2 + length (entries es) \<and> abs_map m3 = abs_map m2 ++ map_of (entries es)"
  using assms
proof (induction es arbitrary: m2)
  case Nil
  then show ?case by (simp add: entries_def)
next
  case (Cons e es)
  show ?case
  proof (cases "is_live e")
    case False
    then have "entries (e # es) = entries es" "reinsert e m2 = Some m2" by (simp_all add: entries_def reinsert_def)
    then show ?thesis using Cons by simp
  next
    case True
    then have es: "entries (e # es) = (key e, val e) # entries es" by (simp add: entries_def)
    have cap: "power_cap (capacity m2)" "0 < capacity m2" using Cons.prems(4,5) by (auto simp: map_ok_def capacity_def)
    have "used m2 * 100 div capacity m2 < 50"
      using Cons.prems(7) cap(2) by (intro div_less_iff_less_mult [THEN iffD2]) auto
    then have "\<not> needs_rehash m2" by (simp add: needs_rehash_def HIGH_WATERMARK_def)
    then obtain m3 where m3: "reinsert e m2 = Some m3" "inserted m2 (key e) (val e) m3"
      using reinsert_ok [OF Cons.prems(4,5)] True Cons.prems(1) by auto
    have cnt: "capacity m3 = capacity m2" "used m3 = Suc (used m2)" "no_tombs (buckets m3)"
      "abs_map m3 = (abs_map m2)(key e \<mapsto> val e)"
      using m3(2) Cons.prems(3,6) unfolding inserted_def es by auto
    have "Suc (used m2) < capacity m2" using Cons.prems(7) unfolding es by simp
    then have ok: "map_ok m3" "buckets m3 \<noteq> []" using inserted_ok [OF m3(2) Cons.prems(4,5)] by auto
    have "\<exists>m4. reinsert_all es m3 = Some m4 \<and> map_ok m4 \<and> capacity m4 = capacity m3 \<and>
        used m4 = used m3 + length (entries es) \<and> abs_map m4 = abs_map m3 ++ map_of (entries es)"
      using Cons.prems unfolding es by (intro Cons.IH) (force simp: cnt ok)+
    moreover have "key e \<notin> dom (map_of (entries es))" using Cons.prems(2) unfolding es by (simp add: dom_map_of_conv_image_fst)
    then have "abs_map m3 ++ map_of (entries es) = abs_map m2 ++ map_of (entries (e # es))"
      by (simp only: cnt(4) es map_of.simps fst_conv snd_conv map_add_upd_left map_add_upd simp_thms)
    moreover have "length (entries (e # es)) = Suc (length (entries es))" by (simp add: es)
    ultimately show ?thesis using m3(1) cnt(1,2) by auto
  qed
qed

lemma grow_cap_power:
  assumes "0 < c"
  shows "\<exists>d. c \<le> d \<and> grow_cap n (2 ^ c) = 2 ^ d \<and> n * 100 < 50 * 2 ^ d \<and> (c = d \<or> 2 ^ d \<le> 4 * n)"
  using assms
proof (induction "4 * n - 2 ^ c" arbitrary: c rule: less_induct)
  case less
  show ?case
  proof (cases "LOW_WATERMARK \<le> n * 100 div 2 ^ c")
    case False
    then have "n * 100 < 50 * 2 ^ c" by (simp add: LOW_WATERMARK_def not_le div_less_iff_less_mult)
    moreover have "grow_cap n (2 ^ c) = 2 ^ c" using False by (simp add: grow_cap.simps)
    ultimately show ?thesis by (intro exI [of _ c]) simp
  next
    case True
    have "50 * 2 ^ c \<le> n * 100" using True by (simp add: LOW_WATERMARK_def less_eq_div_iff_mult_less_eq)
    then have le: "2 ^ Suc c \<le> 4 * n" by simp
    moreover have "(2 :: nat) ^ c < 2 ^ Suc c" by simp
    ultimately have "4 * n - 2 ^ Suc c < 4 * n - 2 ^ c" by linarith
    from less(1) [OF this] obtain d where d: "Suc c \<le> d" "grow_cap n (2 ^ Suc c) = 2 ^ d"
      "n * 100 < 50 * 2 ^ d" "Suc c = d \<or> 2 ^ d \<le> 4 * n" by auto
    have "grow_cap n (2 ^ c) = grow_cap n (2 ^ Suc c)" using True by (subst grow_cap.simps) (simp add: mult.commute)
    then show ?thesis using d le by (intro exI [of _ d]) auto
  qed
qed

definition KEY_LIMIT :: nat where
  "KEY_LIMIT = 21474836"

lemma live_le_occupied: "length (entries bs) \<le> occupied bs"
  unfolding entries_def occupied_def length_map by (induction bs) (auto simp: is_live_def)

lemma blank_table:
  assumes "power_cap n"
  shows "map_ok \<lparr>buckets = replicate n blank_entry, used = 0\<rparr>" "no_tombs (replicate n blank_entry)"
    "abs_map \<lparr>buckets = replicate n blank_entry, used = 0\<rparr> = Map.empty" "n \<noteq> 0"
  using assms by (auto simp: map_ok_def table_ok_def occupied_def capacity_def blank_entry_def is_live_def
      entry_wf_def no_tombs_def power_cap_def abs_map_entries entries_def)

text \<open>A rehash keeps the map, drops the tombstones, and its assertion holds.\<close>

lemma rehash_ok:
  assumes "map_ok m" "buckets m \<noteq> []" "used m < KEY_LIMIT"
  shows "\<exists>m2. rehash m = Some m2 \<and> map_ok m2 \<and> buckets m2 \<noteq> [] \<and> abs_map m2 = abs_map m \<and>
    used m2 = live_count m \<and> used m2 \<le> used m \<and> used m2 * 100 < 50 * capacity m2 \<and> power_cap (capacity m2)"
proof -
  let ?n = "length (entries (buckets m))"
  have t: "table_ok (buckets m)" "power_cap (capacity m)" "used m = occupied (buckets m)"
    using assms(1,2) by (auto simp: map_ok_def)
  have n: "live_count m = ?n" by (simp add: live_count_def entries_def)
  have le: "?n \<le> used m" using live_le_occupied t(3) by simp
  obtain c where c: "4 \<le> c" "c \<le> 30" "capacity m = 2 ^ c" using t(2) by (auto simp: power_cap_def)
  obtain d where d: "c \<le> d" "grow_cap ?n (capacity m) = 2 ^ d" "?n * 100 < 50 * 2 ^ d" "c = d \<or> 2 ^ d \<le> 4 * ?n"
    using grow_cap_power [of c ?n] c by auto
  have "d \<le> 30"
  proof (rule ccontr)
    assume "\<not> d \<le> 30"
    then have "(2 :: nat) ^ 31 \<le> 2 ^ d" by (intro power_increasing) auto
    then show False using d(4) c(2) le assms(3) \<open>\<not> d \<le> 30\<close> by (simp add: KEY_LIMIT_def)
  qed
  then have pc: "power_cap (2 ^ d)" using c(1) d(1) by (auto simp: power_cap_def)
  let ?m = "\<lparr>buckets = replicate (2 ^ d) blank_entry, used = 0\<rparr>"
  have "distinct (map fst (entries (buckets m)))"
    using distinct_keys [of "buckets m" is_live key] table_unique [OF t(1)] by (simp add: entries_def comp_def)
  then have "\<exists>m3. reinsert_all (buckets m) ?m = Some m3 \<and> map_ok m3 \<and> capacity m3 = capacity ?m \<and>
    used m3 = used ?m + ?n \<and> abs_map m3 = abs_map ?m ++ map_of (entries (buckets m))"
    using t(1) d(3) blank_table [OF pc] by (intro reinsert_all_ok) (auto simp: table_ok_def capacity_def)
  then obtain m3 where m3: "reinsert_all (buckets m) ?m = Some m3" "map_ok m3" "capacity m3 = 2 ^ d"
    "used m3 = ?n" "abs_map m3 = map_of (entries (buckets m))"
    using blank_table(3) [OF pc] by (auto simp: capacity_def)
  have "rehash m = Some m3" using m3(1,4) by (simp add: rehash_def n d(2))
  moreover have "buckets m3 \<noteq> []" using m3(3) by (auto simp: capacity_def)
  ultimately show ?thesis using m3 n le d(3) pc by (simp add: abs_map_entries [of m])
qed

lemma make_room_ok:
  assumes "map_ok m" "used m < KEY_LIMIT"
  shows "\<exists>m1. make_room m = Some m1 \<and> map_ok m1 \<and> buckets m1 \<noteq> [] \<and> abs_map m1 = abs_map m \<and>
    used m1 \<le> used m \<and> Suc (used m1) < capacity m1"
proof (cases "buckets m = []")
  case True
  have "power_cap 16" unfolding power_cap_def by (intro exI [of _ 4]) simp
  moreover have "used m = 0" using assms(1) True by (auto simp: map_ok_def power_cap_def capacity_def)
  ultimately show ?thesis using True blank_table [of 16]
    by (cases m) (simp add: make_room_def INIT_SIZE_def capacity_def abs_map_entries entries_def)
next
  case False
  then have pc: "power_cap (capacity m)" using assms(1) by (auto simp: map_ok_def)
  then have big: "16 \<le> capacity m" unfolding power_cap_def using power_increasing [of 4 _ "2 :: nat"] by auto
  show ?thesis
  proof (cases "needs_rehash m")
    case True
    obtain m2 where m2: "rehash m = Some m2" "map_ok m2" "buckets m2 \<noteq> []" "abs_map m2 = abs_map m"
      "used m2 \<le> used m" "used m2 * 100 < 50 * capacity m2" "power_cap (capacity m2)"
      using rehash_ok [OF assms(1) False assms(2)] by blast
    have "16 \<le> capacity m2" using m2(7) unfolding power_cap_def using power_increasing [of 4 _ "2 :: nat"] by auto
    then have "Suc (used m2) < capacity m2" using m2(6) by linarith
    then show ?thesis using m2 False True by (simp add: make_room_def)
  next
    case no: False
    then have "used m * 100 < 70 * capacity m"
      using big by (simp add: needs_rehash_def HIGH_WATERMARK_def not_le div_less_iff_less_mult)
    then have "Suc (used m) < capacity m" using big by linarith
    then show ?thesis using assms(1) no False by (simp add: make_room_def)
  qed
qed

subsection \<open>The operations on the represented map\<close>

lemma get_entry_cases:
  assumes "map_ok m"
  shows "(\<exists>j. get_entry m s = Found j \<and> j < capacity m \<and> key (buckets m ! j) = KStr s \<and>
        abs_map m (KStr s) = Some (val (buckets m ! j))) \<or> get_entry m s = Missing \<and> abs_map m (KStr s) = None"
proof (cases "buckets m = []")
  case False
  have h: "live_key (KStr s)" "khash (KStr s) = fnv_hash s" by (simp_all add: live_key_def khash_def)
  moreover have "match e s \<Longrightarrow> key e \<noteq> KNull" for e by (simp add: match_def)
  ultimately show ?thesis
    using find_slot_ok [of m "KStr s" "\<lambda>e. match e s", OF assms False h(1) match_iff, unfolded h(2)] False
    by (simp only: get_entry_def if_False simp_thms)
qed (simp add: get_entry_def abs_map_def)

lemma get_entry_int_cases:
  assumes "map_ok m"
  shows "(\<exists>j. get_entry_int m k = Found j \<and> j < capacity m \<and> key (buckets m ! j) = KInt k \<and>
        abs_map m (KInt k) = Some (val (buckets m ! j))) \<or> get_entry_int m k = Missing \<and> abs_map m (KInt k) = None"
proof (cases "buckets m = []")
  case False
  have h: "live_key (KInt k)" "khash (KInt k) = int_hash k" by (simp_all add: live_key_def khash_def)
  moreover have "match_int e k \<Longrightarrow> key e \<noteq> KNull" for e by (simp add: match_int_def)
  ultimately show ?thesis
    using find_slot_ok [of m "KInt k" "\<lambda>e. match_int e k", OF assms False h(1) match_int_iff, unfolded h(2)] False
    by (fastforce simp only: get_entry_int_def if_False found.case simp_thms)
qed (simp add: get_entry_int_def abs_map_def)

lemma get2_ok:
  "map_ok m \<Longrightarrow> hashmap_get2 m s = Some (case abs_map m (KStr s) of None \<Rightarrow> 0 | Some v \<Rightarrow> v)"
  using get_entry_cases [of m s] by (auto simp: hashmap_get2_def entry_val_def)

lemma get_int_ok:
  "map_ok m \<Longrightarrow> hashmap_get_int m k = Some (case abs_map m (KInt k) of None \<Rightarrow> 0 | Some v \<Rightarrow> v)"
  using get_entry_int_cases [of m k] by (auto simp: hashmap_get_int_def entry_val_def)

lemma table_bury:
  assumes "table_ok bs" "j < length bs" "is_live (bs ! j)"
  defines "bs' \<equiv> bs[j := (bs ! j)\<lparr>key := KTomb\<rparr>]"
  shows "table_ok bs'" "occupied bs' = occupied bs"
proof -
  have n: "nonnull bs' = nonnull bs"
    using assms(2,3) by (auto simp: nonnull_def fun_eq_iff bs'_def is_live_def nth_list_update)
  have k: "is_live (bs' ! i) \<Longrightarrow> is_live (bs ! i) \<and> key (bs' ! i) = key (bs ! i) \<and> i \<noteq> j" for i
    using assms(2) by (cases "i = j") (auto simp: bs'_def is_live_def)
  have "entry_wf ((bs ! j)\<lparr>key := KTomb\<rparr>)" by (simp add: entry_wf_def)
  then have "\<forall>x \<in> set bs'. entry_wf x"
    using assms(1) set_update_subset_insert [of bs j] unfolding table_ok_def bs'_def by blast
  moreover have "i = l" if "i < length bs" "l < length bs" "is_live (bs' ! i)" "key (bs' ! i) = key (bs' ! l)" for i l
  proof -
    have "is_live (bs' ! l)" using that(3,4) by (simp add: is_live_def)
    then show ?thesis using table_unique [OF assms(1) that(1,2)] k [OF that(3)] k [of l] that(4) by metis
  qed
  moreover have "length bs' = length bs" by (simp add: bs'_def)
  moreover have "i \<in> set (takeWhile (nonnull bs') (probes (khash (key (bs' ! i))) (length bs)))"
    if "i < length bs" "is_live (bs' ! i)" for i
    using table_reach [OF assms(1) that(1)] k [OF that(2)] unfolding n by simp
  ultimately show "table_ok bs'" unfolding table_ok_def by simp
  show "occupied bs' = occupied bs"
    using occupied_update [OF assms(2), of "(bs ! j)\<lparr>key := KTomb\<rparr>"] assms(3) by (simp add: bs'_def is_live_def)
qed

lemma abs_map_bury:
  assumes "table_ok (buckets m)" "j < length (buckets m)" "is_live (buckets m ! j)"
  shows "abs_map (m\<lparr>buckets := (buckets m)[j := (buckets m ! j)\<lparr>key := KTomb\<rparr>]\<rparr>) = (abs_map m)(key (buckets m ! j) := None)"
proof (rule abs_map_eqI)
  let ?bs = "buckets m" and ?m = "m\<lparr>buckets := (buckets m)[j := (buckets m ! j)\<lparr>key := KTomb\<rparr>]\<rparr>"
  show "table_ok (buckets ?m)" using table_bury(1) [OF assms] by simp
  show "((abs_map m)(key (?bs ! j) := None)) p = None" if "\<not> live_key p" for p using that by (simp add: abs_map_def)
  fix p v assume p: "live_key p"
  have at: "key (buckets ?m ! i) = p \<and> val (buckets ?m ! i) = v \<longleftrightarrow> i \<noteq> j \<and> key (?bs ! i) = p \<and> val (?bs ! i) = v" for i
    using p assms(2) by (cases "i = j") (auto simp: live_key_def)
  have un: "i = j" if "i < length ?bs" "key (?bs ! i) = key (?bs ! j)" for i
    using table_unique [OF assms(1,2) that(1) assms(3)] that(2) by simp
  have "(\<exists>i < length ?bs. key (?bs ! i) = p \<and> val (?bs ! i) = v) \<longleftrightarrow> abs_map m p = Some v"
    using abs_map_at [OF assms(1)] p by (auto simp: is_live_def live_key_def elim!: abs_map_SomeD)
  then show "(\<exists>i < length (buckets ?m). key (buckets ?m ! i) = p \<and> val (buckets ?m ! i) = v) \<longleftrightarrow>
      ((abs_map m)(key (?bs ! j) := None)) p = Some v"
    unfolding at using un by auto
qed

lemma bury_ok:
  assumes "map_ok m" "r = Missing \<and> abs_map m p = None \<or>
    (\<exists>j. r = Found j \<and> j < capacity m \<and> key (buckets m ! j) = p)" "live_key p"
  shows "\<exists>m'. bury r m = Some m' \<and> map_ok m' \<and> abs_map m' = (abs_map m)(p := None) \<and> used m' = used m"
  using assms(2)
proof (elim disjE exE conjE)
  fix j assume j: "r = Found j" "j < capacity m" "key (buckets m ! j) = p"
  have t: "table_ok (buckets m)" "buckets m \<noteq> []" using assms(1) j(2) by (auto simp: map_ok_def capacity_def)
  have l: "j < length (buckets m)" "is_live (buckets m ! j)"
    using j assms(3) by (auto simp: capacity_def is_live_def live_key_def)
  show ?thesis using table_bury [OF t(1) l] abs_map_bury [OF t(1) l] assms(1) t(2) j
    by (simp add: bury_def map_ok_def capacity_def)
qed (use assms(1) in \<open>auto simp: bury_def\<close>)

text \<open>The laws of the two key types.\<close>

lemma put2_ok:
  assumes "map_ok m" "used m < KEY_LIMIT"
  shows "\<exists>m'. hashmap_put2 m s v = Some m' \<and> map_ok m' \<and> abs_map m' = (abs_map m)(KStr s \<mapsto> v) \<and> used m' \<le> Suc (used m)"
proof -
  obtain m1 where m1: "make_room m = Some m1" "map_ok m1" "buckets m1 \<noteq> []" "abs_map m1 = abs_map m"
    "used m1 \<le> used m" "Suc (used m1) < capacity m1" using make_room_ok [OF assms] by blast
  obtain c where c: "claim_str s m1 = Some c" "inserted m1 (KStr s) v (set_val v c)"
    using claim_str_ok [OF m1(2,3)] by blast
  show ?thesis using inserted_ok [OF c(2) m1(2,3,6)] c m1
    by (auto simp: hashmap_put2_def get_or_insert_entry_raw_def inserted_def)
qed

lemma put_int_ok:
  assumes "map_ok m" "used m < KEY_LIMIT" "k \<noteq> 0" "k \<noteq> - 1"
  shows "\<exists>m'. hashmap_put_int m k v = Some m' \<and> map_ok m' \<and> abs_map m' = (abs_map m)(KInt k \<mapsto> v) \<and> used m' \<le> Suc (used m)"
proof -
  obtain m1 where m1: "make_room m = Some m1" "map_ok m1" "buckets m1 \<noteq> []" "abs_map m1 = abs_map m"
    "used m1 \<le> used m" "Suc (used m1) < capacity m1" using make_room_ok [OF assms(1,2)] by blast
  obtain c where c: "claim_int k m1 = Some c" "inserted m1 (KInt k) v (set_val v c)"
    using claim_int_ok [OF m1(2,3) assms(3,4)] by blast
  show ?thesis using inserted_ok [OF c(2) m1(2,3,6)] c m1
    by (auto simp: hashmap_put_int_def get_or_insert_entry_int_def inserted_def)
qed

lemma delete2_ok:
  assumes "map_ok m"
  shows "\<exists>m'. hashmap_delete2 m s = Some m' \<and> map_ok m' \<and> abs_map m' = (abs_map m)(KStr s := None) \<and> used m' = used m"
  unfolding hashmap_delete2_def using get_entry_cases [OF assms, of s]
  by (intro bury_ok [OF assms]) (auto simp: live_key_def)

lemma delete_int_ok:
  assumes "map_ok m"
  shows "\<exists>m'. hashmap_delete_int m k = Some m' \<and> map_ok m' \<and> abs_map m' = (abs_map m)(KInt k := None) \<and> used m' = used m"
  unfolding hashmap_delete_int_def using get_entry_int_cases [OF assms, of k]
  by (intro bury_ok [OF assms]) (auto simp: live_key_def)

subsection \<open>The contract of a keyed map\<close>

text \<open>What a client of the table relies on, for either kind of key: \<open>rep\<close> is the finite map a table
  stands for, \<open>cnt\<close> the slots in use, of which there may be \<open>limit\<close>.\<close>

datatype 'k map_op = Put 'k u64 | Del 'k

fun op_key :: "'k map_op \<Rightarrow> 'k" where
  "op_key (Put k v) = k"
| "op_key (Del k) = k"

fun run_ops :: "('m \<Rightarrow> 'k \<Rightarrow> u64 \<Rightarrow> 'm option) \<Rightarrow> ('m \<Rightarrow> 'k \<Rightarrow> 'm option) \<Rightarrow> 'k map_op list \<Rightarrow> 'm \<Rightarrow> 'm option" where
  "run_ops put del [] m = Some m"
| "run_ops put del (Put k v # ops) m = Option.bind (put m k v) (run_ops put del ops)"
| "run_ops put del (Del k # ops) m = Option.bind (del m k) (run_ops put del ops)"

fun spec_ops :: "'k map_op list \<Rightarrow> ('k \<Rightarrow> u64 option) \<Rightarrow> 'k \<Rightarrow> u64 option" where
  "spec_ops [] f = f"
| "spec_ops (Put k v # ops) f = spec_ops ops (f(k \<mapsto> v))"
| "spec_ops (Del k # ops) f = spec_ops ops (f(k := None))"

definition or_null :: "u64 option \<Rightarrow> u64" where
  "or_null r = (case r of None \<Rightarrow> 0 | Some v \<Rightarrow> v)"

locale keyed_map =
  fixes ok :: "'m \<Rightarrow> bool" and cnt :: "'m \<Rightarrow> nat" and limit :: nat and valid :: "'k \<Rightarrow> bool"
    and get :: "'m \<Rightarrow> 'k \<Rightarrow> u64 option" and put :: "'m \<Rightarrow> 'k \<Rightarrow> u64 \<Rightarrow> 'm option"
    and del :: "'m \<Rightarrow> 'k \<Rightarrow> 'm option" and rep :: "'m \<Rightarrow> 'k \<Rightarrow> u64 option"
  assumes get_law: "ok m \<Longrightarrow> valid k \<Longrightarrow> get m k = Some (or_null (rep m k))"
    and put_law: "ok m \<Longrightarrow> cnt m < limit \<Longrightarrow> valid k \<Longrightarrow>
      \<exists>m'. put m k v = Some m' \<and> ok m' \<and> rep m' = (rep m)(k \<mapsto> v) \<and> cnt m' \<le> Suc (cnt m)"
    and del_law: "ok m \<Longrightarrow> valid k \<Longrightarrow>
      \<exists>m'. del m k = Some m' \<and> ok m' \<and> rep m' = (rep m)(k := None) \<and> cnt m' \<le> cnt m"
begin

lemma run_refines:
  assumes "ok m" "cnt m + length ops \<le> limit" "list_all (\<lambda>op. valid (op_key op)) ops"
  shows "\<exists>m'. run_ops put del ops m = Some m' \<and> ok m' \<and> rep m' = spec_ops ops (rep m)"
  using assms
proof (induction ops arbitrary: m)
  case (Cons x ops)
  show ?case
  proof (cases x)
    case (Put k v)
    then obtain m1 where "put m k v = Some m1" "ok m1" "rep m1 = (rep m)(k \<mapsto> v)" "cnt m1 \<le> Suc (cnt m)"
      using put_law [of m k v] Cons.prems by auto
    then show ?thesis using Cons.IH [of m1] Cons.prems Put by (simp del: fun_upd_apply)
  next
    case (Del k)
    then obtain m1 where "del m k = Some m1" "ok m1" "rep m1 = (rep m)(k := None)" "cnt m1 \<le> cnt m"
      using del_law [of m k] Cons.prems by auto
    then show ?thesis using Cons.IH [of m1] Cons.prems Del by (simp del: fun_upd_apply)
  qed
qed simp

lemma run_get:
  assumes "ok m" "cnt m + length ops \<le> limit" "list_all (\<lambda>op. valid (op_key op)) ops" "valid k"
  shows "\<exists>m'. run_ops put del ops m = Some m' \<and> get m' k = Some (or_null (spec_ops ops (rep m) k))"
  using run_refines [OF assms(1-3)] get_law [OF _ assms(4)] by fastforce

end

lemma empty_ok: "map_ok empty_map" "abs_map empty_map = Map.empty" "used empty_map = 0"
  by (simp_all add: map_ok_def empty_map_def abs_map_def fun_eq_iff)

interpretation str_map: keyed_map map_ok used KEY_LIMIT "\<lambda>_. True" hashmap_get2 hashmap_put2 hashmap_delete2
  "\<lambda>m s. abs_map m (KStr s)"
proof
  fix m :: hashmap and s v assume m: "map_ok m"
  show "hashmap_get2 m s = Some (or_null (abs_map m (KStr s)))" using get2_ok [OF m] by (simp add: or_null_def)
  show "\<exists>m'. hashmap_put2 m s v = Some m' \<and> map_ok m' \<and>
      (\<lambda>s. abs_map m' (KStr s)) = (\<lambda>s. abs_map m (KStr s))(s \<mapsto> v) \<and> used m' \<le> Suc (used m)" if "used m < KEY_LIMIT"
    using put2_ok [OF m that] by fastforce
  show "\<exists>m'. hashmap_delete2 m s = Some m' \<and> map_ok m' \<and>
      (\<lambda>s. abs_map m' (KStr s)) = (\<lambda>s. abs_map m (KStr s))(s := None) \<and> used m' \<le> used m"
    using delete2_ok [OF m] by fastforce
qed

definition plain_int :: "u64 \<Rightarrow> bool" where
  "plain_int k \<longleftrightarrow> k \<noteq> 0 \<and> k \<noteq> - 1"

interpretation int_map: keyed_map map_ok used KEY_LIMIT plain_int hashmap_get_int hashmap_put_int hashmap_delete_int
  "\<lambda>m k. abs_map m (KInt k)"
proof
  fix m :: hashmap and k v assume m: "map_ok m" "plain_int k"
  show "hashmap_get_int m k = Some (or_null (abs_map m (KInt k)))" using get_int_ok [OF m(1)] by (simp add: or_null_def)
  show "\<exists>m'. hashmap_put_int m k v = Some m' \<and> map_ok m' \<and>
      (\<lambda>k. abs_map m' (KInt k)) = (\<lambda>k. abs_map m (KInt k))(k \<mapsto> v) \<and> used m' \<le> Suc (used m)" if "used m < KEY_LIMIT"
    using put_int_ok [OF m(1) that] m(2) unfolding plain_int_def by fastforce
  show "\<exists>m'. hashmap_delete_int m k = Some m' \<and> map_ok m' \<and>
      (\<lambda>k. abs_map m' (KInt k)) = (\<lambda>k. abs_map m (KInt k))(k := None) \<and> used m' \<le> used m"
    using delete_int_ok [OF m(1)] by fastforce
qed

subsection \<open>Properties\<close>

text \<open>
  C3: The table with string keys implements a finite map: any sequence of at most
  21474836 insertions and deletions on an empty table succeeds, never reaching \<open>unreachable()\<close> or
  the failing assertion, and afterwards a lookup returns the value the finite map has for the key,
  null without one.
\<close>

theorem hashmap_str_refines:
  assumes "length ops \<le> KEY_LIMIT"
  shows "\<exists>m. run_ops hashmap_put2 hashmap_delete2 ops empty_map = Some m \<and>
    hashmap_get2 m s = Some (or_null (spec_ops ops Map.empty s))"
  using str_map.run_get [OF empty_ok(1), of ops s] assms by (simp add: empty_ok list_all_iff)

theorem hashmap_str_refines_witness:
  "length [Put [65] 7, Put [66] 8, Del [65 :: u8]] \<le> KEY_LIMIT \<and>
   (\<exists>m. run_ops hashmap_put2 hashmap_delete2 [Put [65] 7, Put [66] 8, Del [65]] empty_map = Some m \<and>
     hashmap_get2 m [66] = Some 8)"
  using hashmap_str_refines [of "[Put [65] 7, Put [66] 8, Del [65]]" "[66]"] by (simp add: KEY_LIMIT_def or_null_def)

text \<open>
  C28: The same for integer keys other than 0 and -1, the two that collide with the
  null and tombstone pointers.
\<close>

theorem hashmap_int_refines:
  assumes "length ops \<le> KEY_LIMIT" "list_all (\<lambda>op. plain_int (op_key op)) ops" "plain_int k"
  shows "\<exists>m. run_ops hashmap_put_int hashmap_delete_int ops empty_map = Some m \<and>
    hashmap_get_int m k = Some (or_null (spec_ops ops Map.empty k))"
  using int_map.run_get [OF empty_ok(1) _ assms(2,3)] assms(1) by (simp add: empty_ok)

theorem hashmap_int_refines_witness:
  "plain_int 5 \<and> (\<exists>m. run_ops hashmap_put_int hashmap_delete_int [Put 5 7, Put 6 8, Del 6] empty_map = Some m \<and>
     hashmap_get_int m 5 = Some 7)"
  using hashmap_int_refines [of "[Put 5 7, Put 6 8, Del 6]" 5]
  by (simp add: KEY_LIMIT_def or_null_def plain_int_def)

text \<open>
  C29: A rehash of a well-formed table with fewer than 21474836 slots in use ends, its
  re-insertions never recurse into another rehash, its assertion that every key was re-inserted
  holds, the new table stands for the same map with no tombstone counted, and it is less than half
  full.
\<close>

theorem rehash_keeps_map:
  assumes "map_ok m" "buckets m \<noteq> []" "used m < KEY_LIMIT"
  shows "\<exists>m2. rehash m = Some m2 \<and> map_ok m2 \<and> abs_map m2 = abs_map m \<and>
    used m2 = live_count m \<and> used m2 * 100 < 50 * capacity m2"
  using rehash_ok [OF assms] by blast

definition one_bucket :: hashmap where
  "one_bucket = \<lparr>buckets = replicate 16 blank_entry, used = 0\<rparr>"

theorem rehash_keeps_map_witness:
  "map_ok one_bucket \<and> (\<exists>m2. rehash one_bucket = Some m2 \<and> used m2 = 0 \<and> abs_map m2 = abs_map one_bucket)"
proof -
  have "power_cap 16" unfolding power_cap_def by (intro exI [of _ 4]) simp
  then have ok: "map_ok one_bucket" unfolding one_bucket_def by (rule blank_table)
  then show ?thesis using rehash_keeps_map [of one_bucket]
    by (auto simp: one_bucket_def KEY_LIMIT_def live_count_def is_live_def blank_entry_def)
qed

lemma foreach_collect: "foreach_entries (\<lambda>p l v s. (False, s @ [(p, v)])) bs s = s @ entries bs"
  by (induction bs arbitrary: s) (auto simp: entries_def)

text \<open>
  C30: Iterating over a well-formed table visits every key of the map exactly once,
  with its value.
\<close>

theorem foreach_visits_all:
  assumes "map_ok m"
  shows "distinct (map fst (hashmap_foreach m (\<lambda>p l v s. (False, s @ [(p, v)])) [])) \<and>
    map_of (hashmap_foreach m (\<lambda>p l v s. (False, s @ [(p, v)])) []) = abs_map m"
proof -
  have "distinct (map key (filter is_live (buckets m)))"
    using assms distinct_keys [of "buckets m" is_live key] table_unique [of "buckets m"] by (auto simp: map_ok_def)
  then show ?thesis
    by (simp add: hashmap_foreach_def foreach_collect abs_map_entries) (simp add: entries_def comp_def)
qed

theorem foreach_visits_all_witness:
  "map_ok empty_map \<and> map_of (hashmap_foreach empty_map (\<lambda>p l v s. (False, s @ [(p, v)])) []) = Map.empty"
  using foreach_visits_all [OF empty_ok(1)] by (simp add: empty_ok)

text \<open>Insertion of the two keys whose pointers are null and the tombstone: no entry ever matches them.\<close>

lemma find_slot_none: "\<forall>j \<in> set js. \<not> mt (bs ! j) \<Longrightarrow> find_slot bs mt js \<noteq> Found i"
  by (induction js) auto

lemma no_match_int:
  assumes "\<not> plain_int k" "\<forall>e \<in> set bs. entry_wf e" "j < length bs"
  shows "\<not> match_int (bs ! j) k"
proof -
  have "entry_wf (bs ! j)" using assms(2,3) by simp
  then show ?thesis using assms(1) by (auto simp: match_int_iff entry_wf_def plain_int_def)
qed

lemma claim_int_lost:
  assumes "map_ok m" "buckets m \<noteq> []" "\<not> plain_int k"
  obtains m2 j where "claim_int k m = Some (m2, j)" "length (buckets m2) = length (buckets m)" "\<forall>e \<in> set (buckets m2). entry_wf e"
proof -
  let ?bs = "buckets m" and ?js = "probes (int_hash k) (length (buckets m))" and ?mt = "\<lambda>e. match_int e k"
  have t: "table_ok ?bs" "power_cap (length ?bs)" "occupied ?bs < length ?bs"
    using assms(1,2) by (auto simp: map_ok_def capacity_def)
  have wf: "\<forall>e \<in> set ?bs. entry_wf e" using t(1) by (simp add: table_ok_def)
  have js: "set ?js = {0..<length ?bs}" by (rule power_cap_set(1) [OF t(2)])
  have "filter (\<lambda>j. ?mt (?bs ! j)) (takeWhile (nonnull ?bs) ?js) = []"
    using no_match_int [OF assms(3) wf] js by (auto simp: filter_empty_conv dest: set_takeWhileD)
  moreover have "dropWhile (nonnull ?bs) ?js \<noteq> []"
    using has_null [OF t(3) js] takeWhile_dropWhile_id [of "nonnull ?bs" ?js] by force
  moreover have "\<And>e. ?mt e \<Longrightarrow> key e \<noteq> KNull \<and> key e \<noteq> KTomb" by (simp add: match_int_def)
  ultimately obtain j where "insert_slot ?bs ?mt None ?js = Revive j \<or> insert_slot ?bs ?mt None ?js = Fresh j"
    using insert_slot_spec [of ?mt ?bs None ?js] by (auto split: list.splits)
  moreover have "entry_wf (e\<lparr>key := int_ptr k, keylen := - 1\<rparr>)" for e
    using assms(3) by (auto simp: entry_wf_def int_ptr_def plain_int_def)
  then have "\<forall>e \<in> set (?bs[j := (?bs ! j)\<lparr>key := int_ptr k, keylen := - 1\<rparr>]). entry_wf e"
    using wf set_update_subset_insert [of ?bs j] by blast
  ultimately show ?thesis
    using that by (auto simp: claim_int_def claim_slot_def capacity_def set_key_def)
qed

text \<open>A key 0 that revives a tombstone also hides keys that were stored behind it: 30 and 79 share their
  first slot, 79 is found until 30 is deleted and 0 inserted in its place.\<close>

lemma int_key_zero_hides:
  defines "m3 \<equiv> \<lparr>buckets = [\<lparr>key = KTomb, keylen = - 1, val = 1\<rparr>, \<lparr>key = KInt 79, keylen = - 1, val = 2\<rparr>] @ replicate 14 blank_entry, used = 2\<rparr>"
  shows "run_ops hashmap_put_int hashmap_delete_int [Put 30 1, Put 79 2, Del 30] empty_map = Some m3 \<and>
    hashmap_get_int m3 79 = Some 2 \<and> map_option (\<lambda>m. hashmap_get_int m 79) (hashmap_put_int m3 0 5) = Some (Some 0)"
proof -
  have h: "int_hash 0 = 0" "int_hash 30 = 0xc068d3a0083b4330" "int_hash 79 = 0x8373ac4dbdc90b70"
    by (simp_all add: int_hash_def)
  have p: "probes h 16 = 0 # 1 # 2 # map (probe h 16) [3..<16]" if "h \<in> {0, 0xc068d3a0083b4330, 0x8373ac4dbdc90b70}" for h
    using that by (auto simp: probes_def upt_conv_Cons probe_def simp del: upt_Suc)
  have r: "replicate 16 x = x # x # replicate 14 x" "replicate 14 x = x # replicate 13 x" for x :: entry
    by (simp_all add: numeral_eq_Suc)
  note ev = hashmap_put_int_def get_or_insert_entry_int_def make_room_def empty_map_def INIT_SIZE_def needs_rehash_def
    HIGH_WATERMARK_def claim_int_def claim_slot_def capacity_def match_int_def blank_entry_def set_key_def set_val_def int_ptr_def
    hashmap_get_int_def get_entry_int_def entry_val_def hashmap_delete_int_def bury_def
  have s1: "hashmap_put_int empty_map 30 1 = Some \<lparr>buckets = [\<lparr>key = KInt 30, keylen = - 1, val = 1\<rparr>] @ blank_entry # replicate 14 blank_entry, used = 1\<rparr>"
    by (simp add: ev h p r(1))
  have s2: "hashmap_put_int \<lparr>buckets = [\<lparr>key = KInt 30, keylen = - 1, val = 1\<rparr>] @ blank_entry # replicate 14 blank_entry, used = 1\<rparr> 79 2 =
     Some \<lparr>buckets = [\<lparr>key = KInt 30, keylen = - 1, val = 1\<rparr>, \<lparr>key = KInt 79, keylen = - 1, val = 2\<rparr>] @ replicate 14 blank_entry, used = 2\<rparr>"
    by (simp add: ev h p)
  have s3: "hashmap_delete_int \<lparr>buckets = [\<lparr>key = KInt 30, keylen = - 1, val = 1\<rparr>, \<lparr>key = KInt 79, keylen = - 1, val = 2\<rparr>] @ replicate 14 blank_entry, used = 2\<rparr> 30 = Some m3"
    by (simp add: ev h p m3_def)
  have s4: "hashmap_get_int m3 79 = Some 2" by (simp add: ev h p m3_def)
  have s5: "hashmap_put_int m3 0 5 = Some \<lparr>buckets = [\<lparr>key = KNull, keylen = - 1, val = 5\<rparr>, \<lparr>key = KInt 79, keylen = - 1, val = 2\<rparr>] @ replicate 14 blank_entry, used = 2\<rparr>"
    by (simp add: ev h p m3_def r(2))
  have s6: "hashmap_get_int \<lparr>buckets = [\<lparr>key = KNull, keylen = - 1, val = 5\<rparr>, \<lparr>key = KInt 79, keylen = - 1, val = 2\<rparr>] @ replicate 14 blank_entry, used = 2\<rparr> 79 = Some 0"
    by (simp add: ev h p)
  show ?thesis using s1 s2 s3 s4 s5 s6 by simp
qed

text \<open>
  C31: An integer key 0 is stored as the null pointer, and -1 as the tombstone pointer, so the entry is
  invisible. Take any table that satisfies the invariant, below the key limit: the insertion succeeds,
  and the lookup that follows returns null whatever the value was.
\<close>

theorem int_key_zero_lost:
  assumes "map_ok m" "used m < KEY_LIMIT" "k = 0 \<or> k = - 1"
  shows "\<exists>m'. hashmap_put_int m k v = Some m' \<and> hashmap_get_int m' k = Some 0"
proof -
  have k: "\<not> plain_int k" using assms(3) by (simp add: plain_int_def)
  obtain m1 where m1: "make_room m = Some m1" "map_ok m1" "buckets m1 \<noteq> []" using make_room_ok [OF assms(1,2)] by blast
  obtain m2 j where m2: "claim_int k m1 = Some (m2, j)" "length (buckets m2) = length (buckets m1)" "\<forall>e \<in> set (buckets m2). entry_wf e"
    by (rule claim_int_lost [OF m1(2,3) k])
  let ?m' = "set_val v (m2, j)"
  have len: "length (buckets ?m') = length (buckets m1)" using m2(2) by (simp add: set_val_def)
  have "\<forall>e \<in> set (buckets ?m'). entry_wf e"
  proof (cases "j < length (buckets m2)")
    case True
    then have "entry_wf (buckets m2 ! j)" using m2(3) by simp
    then have "entry_wf ((buckets m2 ! j)\<lparr>val := v\<rparr>)" by (simp add: entry_wf_def split: kptr.splits)
    then show ?thesis using m2(3) set_update_subset_insert [of "buckets m2" j] by (auto simp: set_val_def)
  qed (use m2(3) in \<open>simp add: set_val_def list_update_beyond\<close>)
  then have "\<forall>i \<in> set (probes (int_hash k) (capacity ?m')). \<not> match_int (buckets ?m' ! i) k"
    using no_match_int [OF k] power_cap_set(1) [of "buckets m1" "int_hash k"] m1(2,3) len by (auto simp: capacity_def map_ok_def)
  from find_slot_none [OF this] have "hashmap_get_int ?m' k = Some 0"
    by (auto simp: hashmap_get_int_def get_entry_int_def entry_val_def split: found.split)
  then show ?thesis using m1(1) m2(1) by (simp add: hashmap_put_int_def get_or_insert_entry_int_def)
qed

theorem int_key_zero_lost_witness:
  "\<exists>m'. hashmap_put_int empty_map 0 7 = Some m' \<and> hashmap_get_int m' 0 = Some 0"
  by (rule int_key_zero_lost) (simp_all add: empty_ok KEY_LIMIT_def)

end
