(* ===== verification/Bitint.thy ===== *)
theory Bitint
  imports Prelude
begin

text \<open>
  The run-time support of wide \<open>_BitInt\<close> types (\<open>src/src/stdlib/wide_bitint/runtime.c\<close>): values as
  arrays of 64-bit words, least significant first, truncated to an exact bit width. This theory
  holds the representation, truncation, addition, subtraction, multiplication, negation and the
  bitwise operations. An array of \<open>words\<close> words is a list of that length; \<open>__uint128_t\<close> is the type
  \<open>u128\<close>. The destination is returned, so it never overlaps an operand.
\<close>

type_synonym u128 = "128 word"
type_synonym words = "u64 list"

definition wide :: "u64 \<Rightarrow> u128" where
  "wide x = ucast x"

definition lo64 :: "u128 \<Rightarrow> u64" where
  "lo64 s = ucast s"

definition hi64 :: "u128 \<Rightarrow> u64" where
  "hi64 s = ucast (drop_bit 64 s)"

subsection \<open>Truncation\<close>

definition top_word_mask :: "nat \<Rightarrow> u64" where
  "top_word_mask width = (let rem = width mod 64 in if rem \<noteq> 0 then push_bit rem 1 - 1 else NOT 0)"

definition cccc_bitint_trunc :: "words \<Rightarrow> nat \<Rightarrow> words" where
  "cccc_bitint_trunc dst width =
     (let t = length dst - 1 in dst[t := (dst ! t) AND top_word_mask width])"

definition sign_extend_top :: "words \<Rightarrow> nat \<Rightarrow> words" where
  "sign_extend_top a width =
     (let rem = width mod 64; t = length a - 1; sign_bit = push_bit (rem - 1) 1
      in if rem = 0 then a
         else if a ! t AND sign_bit \<noteq> 0 then a[t := a ! t OR NOT (push_bit 1 sign_bit - 1)]
         else a[t := a ! t AND (push_bit 1 sign_bit - 1)])"

subsection \<open>Arithmetic\<close>

fun add_words :: "u64 \<Rightarrow> words \<Rightarrow> words \<Rightarrow> words" where
  "add_words carry (x # xs) (y # ys) =
     (let s = wide x + wide y + wide carry in lo64 s # add_words (hi64 s) xs ys)"
| "add_words carry _ _ = []"

definition cccc_bitint_add :: "words \<Rightarrow> words \<Rightarrow> nat \<Rightarrow> words" where
  "cccc_bitint_add a b width = cccc_bitint_trunc (add_words 0 a b) width"

fun sub_words :: "u64 \<Rightarrow> words \<Rightarrow> words \<Rightarrow> words" where
  "sub_words borrow (x # xs) (y # ys) =
     (let s = wide x - wide y - wide borrow in lo64 s # sub_words (lo64 (drop_bit 127 s AND 1)) xs ys)"
| "sub_words borrow _ _ = []"

definition cccc_bitint_sub :: "words \<Rightarrow> words \<Rightarrow> nat \<Rightarrow> words" where
  "cccc_bitint_sub a b width = cccc_bitint_trunc (sub_words 0 a b) width"

text \<open>One row of the product: \<open>a[i]\<close> times the words of \<open>b\<close>, added to \<open>tmp\<close> from index \<open>i\<close> to its end.\<close>

fun mul_row :: "u64 \<Rightarrow> u64 \<Rightarrow> words \<Rightarrow> words \<Rightarrow> words" where
  "mul_row x carry (y # ys) (t # ts) =
     (let p = wide x * wide y + wide t + wide carry in lo64 p # mul_row x (hi64 p) ys ts)"
| "mul_row x carry _ _ = []"

definition mul_words :: "words \<Rightarrow> words \<Rightarrow> words" where
  "mul_words a b =
     fold (\<lambda>i tmp. take i tmp @ mul_row (a ! i) 0 b (drop i tmp)) [0..<length a] (replicate (length a) 0)"

definition cccc_bitint_mul :: "words \<Rightarrow> words \<Rightarrow> nat \<Rightarrow> words" where
  "cccc_bitint_mul a b width = cccc_bitint_trunc (mul_words a b) width"

fun neg_words :: "u64 \<Rightarrow> words \<Rightarrow> words" where
  "neg_words carry [] = []"
| "neg_words carry (x # xs) = (let s = wide (NOT x) + wide carry in lo64 s # neg_words (hi64 s) xs)"

definition negate :: "words \<Rightarrow> words" where
  "negate a = neg_words 1 a"

definition is_negative :: "words \<Rightarrow> nat \<Rightarrow> bool" where
  "is_negative a width =
     (let top_bit = (if width mod 64 \<noteq> 0 then width mod 64 - 1 else 63)
      in drop_bit top_bit (a ! (length a - 1)) AND 1 \<noteq> 0)"

definition cccc_bitint_neg :: "words \<Rightarrow> nat \<Rightarrow> words" where
  "cccc_bitint_neg a width = cccc_bitint_trunc (negate a) width"

subsection \<open>Bitwise operations\<close>

definition cccc_bitint_and :: "words \<Rightarrow> words \<Rightarrow> nat \<Rightarrow> words" where
  "cccc_bitint_and a b width = cccc_bitint_trunc (map2 (AND) a b) width"

definition cccc_bitint_or :: "words \<Rightarrow> words \<Rightarrow> nat \<Rightarrow> words" where
  "cccc_bitint_or a b width = cccc_bitint_trunc (map2 (OR) a b) width"

definition cccc_bitint_xor :: "words \<Rightarrow> words \<Rightarrow> nat \<Rightarrow> words" where
  "cccc_bitint_xor a b width = cccc_bitint_trunc (map2 (XOR) a b) width"

definition cccc_bitint_not :: "words \<Rightarrow> nat \<Rightarrow> words" where
  "cccc_bitint_not a width = cccc_bitint_trunc (map NOT a) width"

definition cccc_bitint_nonzero :: "words \<Rightarrow> bool" where
  "cccc_bitint_nonzero a \<longleftrightarrow> fold (\<lambda>x acc. acc OR x) a 0 \<noteq> 0"

subsection \<open>The number an array stands for\<close>

primrec bval :: "words \<Rightarrow> nat" where
  "bval [] = 0"
| "bval (x # xs) = unat x + 2 ^ 64 * bval xs"

text \<open>The word count the compiler computes for a width.\<close>

definition dims :: "words \<Rightarrow> nat \<Rightarrow> bool" where
  "dims a width \<longleftrightarrow> 0 < width \<and> length a = (width + 63) div 64"

definition ival :: "nat \<Rightarrow> words \<Rightarrow> int" where
  "ival width a = signed_take_bit (width - 1) (int (bval a))"

lemma unat_bound: "unat (x :: 'a::len word) < 2 ^ LENGTH('a)"
  by (rule unsigned_less)

lemma bval_append: "bval (xs @ ys) = bval xs + 2 ^ (64 * length xs) * bval ys"
  by (induction xs) (simp_all add: power_add algebra_simps)

lemma bval_less: "bval xs < 2 ^ (64 * length xs)"
proof (induction xs)
  case (Cons x xs)
  have "unat x < 2 ^ 64" using unat_bound [of x] by simp
  moreover have "bval xs + 1 \<le> 2 ^ (64 * length xs)" using Cons by simp
  then have "2 ^ 64 * (bval xs + 1) \<le> 2 ^ 64 * (2 ^ (64 * length xs) :: nat)" by (rule mult_le_mono2)
  ultimately show ?case by (simp add: power_add)
qed simp

lemma bval_replicate_0 [simp]: "bval (replicate n 0) = 0"
  by (induction n) simp_all

lemma bval_take_drop: "bval xs = bval (take n xs) + 2 ^ (64 * n) * bval (drop n xs)"
proof (cases "n \<le> length xs")
  case True
  then show ?thesis using bval_append [of "take n xs" "drop n xs"] by simp
qed simp

lemma bval_take: "bval (take n xs) = bval xs mod 2 ^ (64 * n)"
proof -
  have "bval (take n xs) < 2 ^ (64 * n)"
    using bval_less [of "take n xs"] power_increasing [of "64 * length (take n xs)" "64 * n" "2 :: nat"]
    by (simp add: less_le_trans)
  then show ?thesis using bval_take_drop [of xs n] by simp
qed

lemma bval_drop: "bval (drop n xs) = bval xs div 2 ^ (64 * n)"
proof -
  have "bval (take n xs) < 2 ^ (64 * n)" by (simp add: bval_take)
  then show ?thesis using bval_take_drop [of xs n] by simp
qed

lemma bval_zero_iff: "bval xs = 0 \<longleftrightarrow> (\<forall>x \<in> set xs. x = 0)"
  by (induction xs) (auto simp: unat_eq_0)

lemma bval_inj: "length xs = length ys \<Longrightarrow> bval xs = bval ys \<Longrightarrow> xs = ys"
proof (induction xs ys rule: list_induct2)
  case (Cons x xs y ys)
  have u: "unat x < 2 ^ 64" "unat y < 2 ^ 64" using unat_bound [of x] unat_bound [of y] by simp_all
  have "unat x = bval (x # xs) mod 2 ^ 64" "unat y = bval (y # ys) mod 2 ^ 64" using u by simp_all
  then have "unat x = unat y" using Cons.prems by metis
  then show ?case using Cons by (simp add: unsigned_word_eqI)
qed simp

subsection \<open>Words and double words\<close>

lemma lo64_val: "unat (lo64 s) = unat s mod 2 ^ 64"
  unfolding lo64_def unsigned_ucast_eq by (simp add: take_bit_eq_mod)

lemma hi64_val: "unat (hi64 s) = unat s div 2 ^ 64"
proof -
  have "unat s div 2 ^ 64 < 2 ^ 64" using unat_bound [of s] by (simp add: less_mult_imp_div_less)
  then show ?thesis unfolding hi64_def unsigned_ucast_eq unsigned_drop_bit_eq by (simp add: drop_bit_eq_div take_bit_eq_mod)
qed

lemma lo_hi: "unat (lo64 s) + 2 ^ 64 * unat (hi64 s) = unat s"
  by (simp add: lo64_val hi64_val)

lemma unat_wide [simp]: "unat (wide x) = unat x"
  using unat_bound [of x] by (simp add: wide_def unsigned_ucast_eq take_bit_eq_mod)

lemma unat64: "unat (x :: u64) < 2 ^ 64" "unat (x :: u64) \<le> 2 ^ 64 - 1"
  using unat_bound [of x] by simp_all

lemma unat_add_128: "unat a + unat b < 2 ^ 128 \<Longrightarrow> unat (a + b :: u128) = unat a + unat b"
  by (simp add: unat_word_ariths)

lemma unat_mult_128: "unat a * unat b < 2 ^ 128 \<Longrightarrow> unat (a * b :: u128) = unat a * unat b"
  by (simp add: unat_word_ariths)

lemma unat_add3: "unat (wide x + wide y + wide c) = unat x + unat y + unat c"
  using unat64(1) [of x] unat64(1) [of y] unat64(1) [of c] by (simp add: unat_add_128)

lemma unat_muladd: "unat (wide x * wide y + wide t + wide c) = unat x * unat y + unat t + unat c"
proof -
  have "unat x * unat y \<le> (2 ^ 64 - 1) * (2 ^ 64 - 1)" by (intro mult_le_mono unat64)
  then show ?thesis using unat64(2) [of t] unat64(2) [of c] by (simp add: unat_add_128 unat_mult_128)
qed

subsection \<open>Correctness of the loops\<close>

lemma add_words_length [simp]: "length a = length b \<Longrightarrow> length (add_words c a b) = length a"
  by (induction a b arbitrary: c rule: list_induct2) (simp_all add: Let_def)

lemma mod_shift:
  fixes l h :: nat
  assumes "l < 2 ^ 64"
  shows "(l + 2 ^ 64 * h) mod 2 ^ (64 + k) = l + 2 ^ 64 * (h mod 2 ^ k)"
  using assms mod_mult2_eq [of "l + 2 ^ 64 * h" "2 ^ 64" "2 ^ k"] by (simp add: power_add)

lemma add_words_val:
  "length a = length b \<Longrightarrow> bval (add_words c a b) = (bval a + bval b + unat c) mod 2 ^ (64 * length a)"
proof (induction a b arbitrary: c rule: list_induct2)
  case (Cons x xs y ys)
  define s where "s = wide x + wide y + wide c"
  have s: "unat x + unat y + unat c = unat (lo64 s) + 2 ^ 64 * unat (hi64 s)"
    using lo_hi [of s] unat_add3 [of x y c] by (simp add: s_def)
  have "bval (x # xs) + bval (y # ys) + unat c = unat (lo64 s) + 2 ^ 64 * (bval xs + bval ys + unat (hi64 s))"
    using s by (simp add: algebra_simps)
  moreover have "bval (add_words c (x # xs) (y # ys)) = unat (lo64 s) + 2 ^ 64 * bval (add_words (hi64 s) xs ys)"
    by (simp add: Let_def s_def)
  ultimately show ?case
    unfolding Cons.IH by (simp only: mod_shift [OF unat64(1)] length_Cons mult_Suc_right)
qed simp

lemma sub_words_length [simp]: "length a = length b \<Longrightarrow> length (sub_words c a b) = length a"
  by (induction a b arbitrary: c rule: list_induct2) (simp_all add: Let_def)

text \<open>The borrow is bit 127 of the double-word difference.\<close>

lemma bit127_val: "unat (lo64 (drop_bit 127 s AND 1)) = unat s div 2 ^ 127"
proof -
  have "unat (drop_bit 127 s AND 1) = unat s div 2 ^ 127 mod 2"
    unfolding unsigned_and_eq unsigned_drop_bit_eq
    using unat_bound [of s] by (simp add: drop_bit_eq_div and_one_eq take_bit_nat_eq_self)
  moreover have "unat s div 2 ^ 127 < 2" using unat_bound [of s] by (simp add: less_mult_imp_div_less)
  ultimately show ?thesis by (simp add: lo64_val)
qed

lemma uint_wide [simp]: "uint (wide x) = uint x"
  by (simp add: wide_def unsigned_ucast_eq take_bit_int_eq_self uint_bounded [of x, THEN order.strict_trans2])

lemma sub_borrow:
  fixes x y c :: u64
  assumes "uint c \<le> 1"
  defines "s \<equiv> wide x - wide y - wide c"
  defines "c' \<equiv> lo64 (drop_bit 127 s AND 1)"
  shows "uint x - uint y - uint c = uint (lo64 s) - 2 ^ 64 * uint c'" "uint c' \<le> 1"
proof -
  let ?d = "uint x - uint y - uint c"
  have b: "- (2 ^ 64) \<le> ?d" "?d < 2 ^ 64"
    using uint_bounded [of x] uint_bounded [of y] assms(1) unsigned_greater_eq [of x, where 'a = int]
      unsigned_greater_eq [of y, where 'a = int] unsigned_greater_eq [of c, where 'a = int] by (simp_all, linarith+)
  have s: "uint s = ?d mod 2 ^ 128" by (simp add: s_def uint_word_ariths mod_diff_left_eq)
  have l: "uint (lo64 s) = uint s mod 2 ^ 64" using arg_cong [OF lo64_val [of s], of int] by (simp add: zmod_int)
  have h: "uint c' = uint s div 2 ^ 127" 
    using arg_cong [OF bit127_val [of s], of int] by (simp add: c'_def zdiv_int)
  have "?d = uint (lo64 s) - 2 ^ 64 * uint c' \<and> uint c' \<le> 1"
  proof (cases "0 \<le> ?d")
    case True
    then have "?d mod 2 ^ 128 = ?d" using b by (intro mod_pos_pos_trivial) auto
    then show ?thesis using True b s l h by simp
  next
    case False
    have "(?d + 2 ^ 128) mod 2 ^ 128 = ?d + 2 ^ 128" using False b by (intro mod_pos_pos_trivial) auto
    then have u: "uint s = ?d + 2 ^ 128" unfolding s by (simp only: mod_add_self2)
    then have "uint c' = 1" unfolding h using False b by (intro int_div_pos_eq [where r = "?d + 2 ^ 127"]) auto
    moreover have "uint (lo64 s) = ?d + 2 ^ 64"
      unfolding l u using False b by (intro int_mod_pos_eq [where q = "2 ^ 64 - 1"]) auto
    ultimately show ?thesis by simp
  qed
  then show "?d = uint (lo64 s) - 2 ^ 64 * uint c'" "uint c' \<le> 1" by auto
qed

lemma mod_shift_int: "(uint (l :: u64) + 2 ^ 64 * h) mod 2 ^ (64 + k) = uint l + 2 ^ 64 * (h mod 2 ^ k)"
proof -
  have "(uint l + 2 ^ 64 * h) mod (2 ^ 64 * 2 ^ k) = 2 ^ 64 * ((uint l + 2 ^ 64 * h) div 2 ^ 64 mod 2 ^ k) + (uint l + 2 ^ 64 * h) mod 2 ^ 64"
    by (rule zmod_zmult2_eq) simp
  moreover have "(uint l + 2 ^ 64 * h) mod 2 ^ 64 = uint l" "(uint l + 2 ^ 64 * h) div 2 ^ 64 = h"
    using uint_bounded [of l] by (auto intro!: int_mod_pos_eq [where q = h] int_div_pos_eq [where r = "uint l"])
  ultimately show ?thesis by (simp add: power_add)
qed

lemma sub_words_val:
  "length a = length b \<Longrightarrow> uint c \<le> 1 \<Longrightarrow>
     int (bval (sub_words c a b)) = (int (bval a) - int (bval b) - uint c) mod 2 ^ (64 * length a)"
proof (induction a b arbitrary: c rule: list_induct2)
  case (Cons x xs y ys)
  define s where "s = wide x - wide y - wide c"
  define c' where "c' = lo64 (drop_bit 127 s AND 1)"
  note sb = sub_borrow [OF Cons.prems, of x y, folded s_def, folded c'_def]
  define h where "h = int (bval xs) - int (bval ys) - uint c'"
  have "int (bval (x # xs)) - int (bval (y # ys)) - uint c = uint (lo64 s) + 2 ^ 64 * h"
    using sb(1) by (simp add: h_def algebra_simps)
  moreover have "int (bval (sub_words c (x # xs) (y # ys))) = uint (lo64 s) + 2 ^ 64 * int (bval (sub_words c' xs ys))"
    by (simp add: Let_def s_def c'_def)
  moreover have "int (bval (sub_words c' xs ys)) = h mod 2 ^ (64 * length xs)" unfolding h_def by (rule Cons.IH [OF sb(2)])
  ultimately show ?case by (simp only: mod_shift_int length_Cons mult_Suc_right)
qed simp

lemma mul_row_length [simp]: "length t \<le> length b \<Longrightarrow> length (mul_row x c b t) = length t"
  by (induction x c b t rule: mul_row.induct) (simp_all add: Let_def)

lemma mul_row_val:
  "length t \<le> length b \<Longrightarrow> bval (mul_row x c b t) = (bval t + unat x * bval b + unat c) mod 2 ^ (64 * length t)"
proof (induction x c b t rule: mul_row.induct)
  case (1 x c y ys t ts)
  define p where "p = wide x * wide y + wide t + wide c"
  have p: "unat x * unat y + unat t + unat c = unat (lo64 p) + 2 ^ 64 * unat (hi64 p)"
    using lo_hi [of p] unat_muladd [of x y t c] by (simp add: p_def)
  have "bval (t # ts) + unat x * bval (y # ys) + unat c =
      unat (lo64 p) + 2 ^ 64 * (bval ts + unat x * bval ys + unat (hi64 p))"
    using p by (simp add: algebra_simps)
  moreover have "bval (mul_row x c (y # ys) (t # ts)) = unat (lo64 p) + 2 ^ 64 * bval (mul_row x (hi64 p) ys ts)"
    by (simp add: Let_def p_def)
  moreover have "bval (mul_row x (hi64 p) ys ts) = (bval ts + unat x * bval ys + unat (hi64 p)) mod 2 ^ (64 * length ts)"
    using "1.IH" [OF p_def] "1.prems" by simp
  ultimately show ?case by (simp only: mod_shift [OF unat64(1)] length_Cons mult_Suc_right)
qed simp_all

text \<open>After \<open>k\<close> rows the low words hold the product with the first \<open>k\<close> words of \<open>a\<close>.\<close>

lemma mul_rows_val:
  assumes "length a \<le> length b" "k \<le> length a"
  defines "t \<equiv> fold (\<lambda>i tmp. take i tmp @ mul_row (a ! i) 0 b (drop i tmp)) [0..<k] (replicate (length a) 0)"
  shows "length t = length a \<and> bval t = (bval (take k a) * bval b) mod 2 ^ (64 * length a)"
  using assms(2) unfolding t_def
proof (induction k)
  case 0
  then show ?case by simp
next
  case (Suc k)
  let ?f = "\<lambda>i tmp. take i tmp @ mul_row (a ! i) 0 b (drop i tmp)" and ?n = "length a"
  define u where "u = fold ?f [0..<k] (replicate ?n 0)"
  have k: "k < ?n" using Suc.prems by simp
  have u: "length u = ?n" "bval u = (bval (take k a) * bval b) mod 2 ^ (64 * ?n)"
    using Suc by (simp_all add: u_def)
  have len: "length (drop k u) \<le> length b" using u(1) assms(1) by simp
  let ?m = "2 ^ (64 * (?n - k)) :: nat"
  have e: "(2 :: nat) ^ (64 * ?n) = 2 ^ (64 * k) * ?m" using k by (simp flip: power_add)
  have "bval (?f k u) = bval (take k u) + 2 ^ (64 * k) * ((bval (drop k u) + unat (a ! k) * bval b) mod ?m)"
    using k u(1) len by (simp add: bval_append mul_row_val)
  also have "\<dots> = (bval (take k u) + 2 ^ (64 * k) * (bval (drop k u) + unat (a ! k) * bval b)) mod 2 ^ (64 * ?n)"
    using bval_less [of "take k u"] k u(1) mod_mult2_eq [of "bval (take k u) + 2 ^ (64 * k) * (bval (drop k u) + unat (a ! k) * bval b)" "2 ^ (64 * k)" ?m]
    unfolding e by (simp add: min_def)
  also have "\<dots> = (bval u + 2 ^ (64 * k) * unat (a ! k) * bval b) mod 2 ^ (64 * ?n)"
    using bval_take_drop [of u k] by (simp add: algebra_simps)
  also have "\<dots> = (bval (take k a) * bval b + 2 ^ (64 * k) * unat (a ! k) * bval b) mod 2 ^ (64 * ?n)"
    unfolding u(2) by (simp add: mod_add_left_eq)
  also have "bval (take k a) * bval b + 2 ^ (64 * k) * unat (a ! k) * bval b = bval (take (Suc k) a) * bval b"
    using k by (simp add: take_Suc_conv_app_nth bval_append algebra_simps)
  finally show ?case using k u(1) len by (simp add: u_def [symmetric])
qed

lemma mul_words_val:
  "length a \<le> length b \<Longrightarrow> length (mul_words a b) = length a \<and> bval (mul_words a b) = (bval a * bval b) mod 2 ^ (64 * length a)"
  using mul_rows_val [of a b "length a"] by (simp add: mul_words_def)

lemma neg_words_length [simp]: "length (neg_words c a) = length a"
  by (induction a arbitrary: c) (simp_all add: Let_def)

lemma unat_not64: "unat (NOT x :: u64) = 2 ^ 64 - 1 - unat x"
proof -
  have "NOT x = - 1 - x" by (simp add: not_eq_complement)
  then show ?thesis using unat_sub [of x "- 1"] by (simp add: unsigned_minus_1_eq_mask mask_eq_exp_minus_1)
qed

lemma unat_and_mask: "unat (t AND mask r :: u64) = unat t mod 2 ^ r"
proof -
  have "unat (t AND mask r) = unat (take_bit r t)" by (simp only: take_bit_eq_mask)
  also have "\<dots> = take_bit r (unat t)" by (rule unsigned_take_bit_eq)
  finally show ?thesis by (simp only: take_bit_eq_mod)
qed

lemma neg_words_val: "bval (neg_words c a) = (2 ^ (64 * length a) - 1 - bval a + unat c) mod 2 ^ (64 * length a)"
proof (induction a arbitrary: c)
  case (Cons x xs)
  define s where "s = wide (NOT x) + wide c"
  have n: "unat (NOT x) = 2 ^ 64 - 1 - unat x" by (rule unat_not64)
  have "unat s = unat (NOT x) + unat c" using unat64 [of "NOT x"] unat64 [of c] by (simp add: s_def unat_add_128)
  then have s: "unat (lo64 s) + 2 ^ 64 * unat (hi64 s) + unat x = 2 ^ 64 - 1 + unat c"
    using lo_hi [of s] n unat64(2) [of x] by simp
  let ?N = "2 ^ (64 * length xs) :: nat"
  have b: "bval xs < ?N" by (rule bval_less)
  have "2 ^ (64 * length (x # xs)) - 1 - bval (x # xs) + unat c =
      unat (lo64 s) + 2 ^ 64 * (?N - 1 - bval xs + unat (hi64 s))"
  proof -
    have "2 ^ 64 * (?N - 1 - bval xs + unat (hi64 s)) = 2 ^ 64 * ?N - 2 ^ 64 - 2 ^ 64 * bval xs + 2 ^ 64 * unat (hi64 s)"
      by (simp add: algebra_simps diff_mult_distrib2)
    moreover have "2 ^ 64 * bval xs + 2 ^ 64 \<le> 2 ^ 64 * ?N" using b mult_le_mono2 [of "Suc (bval xs)" ?N "2 ^ 64"] by simp
    ultimately show ?thesis using s unat64(2) [of x] by (simp add: power_add)
  qed
  moreover have "bval (neg_words c (x # xs)) = unat (lo64 s) + 2 ^ 64 * bval (neg_words (hi64 s) xs)"
    by (simp add: Let_def s_def)
  ultimately show ?case
    unfolding Cons.IH by (simp only: mod_shift [OF unat64(1)] length_Cons mult_Suc_right)
qed simp

lemma negate_val: "bval (negate a) = (2 ^ (64 * length a) - bval a) mod 2 ^ (64 * length a)"
  using bval_less [of a] by (simp add: negate_def neg_words_val Suc_diff_Suc)

text \<open>Truncation keeps the value modulo \<open>2 ^ width\<close>.\<close>

lemma dims_split:
  assumes "dims a width"
  obtains ys t r where "a = ys @ [t]" "width = 64 * length ys + r" "0 < r" "r \<le> 64"
    "top_word_mask width = mask r"
proof -
  define k where "k = (width - 1) div 64"
  have w: "0 < width" "length a = Suc k" using assms by (auto simp: dims_def k_def)
  define r where "r = width - 64 * k"
  have r: "0 < r" "r \<le> 64" "width = 64 * k + r" using w(1) by (auto simp: r_def k_def)
  have "width mod 64 = r mod 64" using r(3) by simp
  then have m: "top_word_mask width = mask r"
    using r by (cases "r = 64") (auto simp: top_word_mask_def Let_def mask_eq_exp_minus_1 push_bit_eq_mult)
  show thesis
  proof (rule that [of "butlast a" "last a" r])
    show "a = butlast a @ [last a]" using w(2) by (metis append_butlast_last_id length_0_conv nat.simps(3))
  qed (use r m w(2) in auto)
qed

lemma cccc_bitint_trunc_length [simp]: "length (cccc_bitint_trunc a width) = length a"
  by (simp add: cccc_bitint_trunc_def Let_def)

lemma cccc_bitint_trunc_val:
  assumes "dims a width"
  shows "bval (cccc_bitint_trunc a width) = bval a mod 2 ^ width"
  using assms
proof (rule dims_split)
  fix ys t r
  assume a: "a = ys @ [t]" "width = 64 * length ys + r" "r \<le> 64" "top_word_mask width = mask r"
  note unat_and_mask [of t r]
  then show "bval (cccc_bitint_trunc a width) = bval a mod 2 ^ width"
    using a(1,2,4) bval_less [of ys] mod_mult2_eq [of "bval ys + 2 ^ (64 * length ys) * unat t" "2 ^ (64 * length ys)" "2 ^ r"]
    by (simp add: cccc_bitint_trunc_def bval_append power_add)
qed

lemma mod_width:
  fixes x :: nat
  assumes "dims a width"
  shows "x mod 2 ^ (64 * length a) mod 2 ^ width = x mod 2 ^ width"
  using assms by (rule dims_split) (simp add: mod_mod_cancel le_imp_power_dvd)

lemma dims_length: "dims a width \<Longrightarrow> length b = length a \<Longrightarrow> dims b width"
  by (simp add: dims_def)

lemma mod_width_int:
  fixes x :: int
  assumes "dims a width"
  shows "x mod 2 ^ (64 * length a) mod 2 ^ width = x mod 2 ^ width"
  using assms by (rule dims_split) (simp add: mod_mod_cancel le_imp_power_dvd)

lemma trunc_int:
  assumes "dims a width" "length r = length a" "int (bval r) = x mod 2 ^ (64 * length a)"
  shows "int (bval (cccc_bitint_trunc r width)) = x mod 2 ^ width"
  using cccc_bitint_trunc_val [OF dims_length [OF assms(1,2)]] assms(3)
  by (simp add: zmod_int mod_width_int [OF assms(1)])

lemma add_int:
  "dims a width \<Longrightarrow> length b = length a \<Longrightarrow>
     int (bval (cccc_bitint_add a b width)) = (int (bval a) + int (bval b)) mod 2 ^ width"
  unfolding cccc_bitint_add_def by (rule trunc_int) (simp_all add: add_words_val zmod_int)

lemma sub_int:
  "dims a width \<Longrightarrow> length b = length a \<Longrightarrow>
     int (bval (cccc_bitint_sub a b width)) = (int (bval a) - int (bval b)) mod 2 ^ width"
  unfolding cccc_bitint_sub_def by (rule trunc_int) (simp_all add: sub_words_val)

lemma mul_int:
  "dims a width \<Longrightarrow> length b = length a \<Longrightarrow>
     int (bval (cccc_bitint_mul a b width)) = (int (bval a) * int (bval b)) mod 2 ^ width"
  unfolding cccc_bitint_mul_def using mul_words_val [of a b] by (intro trunc_int) (simp_all add: zmod_int)

lemma negate_int: "int (bval (negate a)) = - int (bval a) mod 2 ^ (64 * length a)"
proof -
  have "int (2 ^ (64 * length a) - bval a) = - int (bval a) + 2 ^ (64 * length a)"
    using bval_less [of a] by (simp add: of_nat_diff)
  then show ?thesis by (simp add: negate_val zmod_int)
qed

lemma negate_length [simp]: "length (negate a) = length a"
  by (simp add: negate_def)

lemma neg_int: "dims a width \<Longrightarrow> int (bval (cccc_bitint_neg a width)) = - int (bval a) mod 2 ^ width"
  unfolding cccc_bitint_neg_def by (rule trunc_int) (simp_all add: negate_int)

subsection \<open>Bits of the value\<close>

lemma bval_bit: "bit (bval a) n \<longleftrightarrow> n < 64 * length a \<and> bit (a ! (n div 64)) (n mod 64)"
proof (induction a arbitrary: n)
  case (Cons x xs)
  have d: "\<not> bit (unat x) k" if "64 \<le> k" for k
    using that bit_imp_le_length [of x k] by (auto simp: bit_unsigned_iff)
  have "unat x + push_bit 64 (bval xs) = unat x OR push_bit 64 (bval xs)"
    by (rule disjunctive_add) (use d in \<open>auto simp: bit_push_bit_iff\<close>)
  then have "bval (x # xs) = unat x OR push_bit 64 (bval xs)" by (simp add: push_bit_eq_mult mult.commute)
  then have "bit (bval (x # xs)) n \<longleftrightarrow> bit (unat x) n \<or> 64 \<le> n \<and> bit (bval xs) (n - 64)"
    by (simp add: bit_or_iff bit_push_bit_iff)
  then show ?case
    using Cons [of "n - 64"] d [of n] by (cases "n < 64") (auto simp: bit_unsigned_iff le_div_geq le_mod_geq)
qed simp

lemma bit_trunc:
  "dims a width \<Longrightarrow> bit (bval (cccc_bitint_trunc a width)) n \<longleftrightarrow> n < width \<and> bit (bval a) n"
  by (simp add: cccc_bitint_trunc_val bit_take_bit_iff flip: take_bit_eq_mod)

lemma bval_eqI: "(\<And>n. bit (bval a) n \<longleftrightarrow> bit x n) \<Longrightarrow> bval a = x"
  by (rule bit_eqI) simp

lemma trunc_bits:
  assumes "dims a width" "length r = length a"
    and "\<And>n. n < 64 * length a \<Longrightarrow> bit (r ! (n div 64)) (n mod 64) \<longleftrightarrow> bit x n"
  shows "bval (cccc_bitint_trunc r width) = x mod 2 ^ width"
proof (rule bval_eqI)
  fix n
  have "width \<le> 64 * length a" using assms(1) by (auto simp: dims_def)
  then show "bit (bval (cccc_bitint_trunc r width)) n \<longleftrightarrow> bit (x mod 2 ^ width) n"
    unfolding bit_trunc [OF dims_length [OF assms(1,2)]] take_bit_eq_mod [symmetric] bit_take_bit_iff
    unfolding bval_bit using assms(2,3) by auto
qed

lemma nonzero_iff: "cccc_bitint_nonzero a \<longleftrightarrow> bval a \<noteq> 0"
proof -
  have "fold (\<lambda>x acc. acc OR x) a acc = 0 \<longleftrightarrow> acc = 0 \<and> (\<forall>x \<in> set a. x = 0)" for acc :: u64
    by (induction a arbitrary: acc) (auto simp: or_eq_0_iff)
  then show ?thesis by (simp add: cccc_bitint_nonzero_def bval_zero_iff)
qed

subsection \<open>The sign\<close>

lemma mask_word: "r < 64 \<Longrightarrow> 0 < r \<Longrightarrow> push_bit 1 (push_bit (r - 1) 1) - 1 = (mask r :: u64)"
  by (simp add: mask_eq_exp_minus_1 push_bit_eq_mult flip: power_Suc2)

lemma sign_word:
  assumes "0 < r" "r < 64" "k < 64"
  shows "bit (if t AND push_bit (r - 1) 1 \<noteq> 0 then t OR NOT (push_bit 1 (push_bit (r - 1) 1) - 1)
      else t AND (push_bit 1 (push_bit (r - 1) 1) - 1) :: u64) k \<longleftrightarrow> bit t (min k (r - 1))"
proof -
  have "t AND push_bit (r - 1) 1 \<noteq> 0 \<longleftrightarrow> bit t (r - 1)" by (simp add: bit_iff_and_push_bit_not_eq_0)
  moreover have "push_bit 1 (push_bit (r - 1) 1) - 1 = (mask r :: u64)" by (rule mask_word [OF assms(2,1)])
  moreover have "k < LENGTH(64)" using assms(3) by simp
  ultimately show ?thesis
    using assms by (cases "k < r") (auto simp only: bit_or_iff bit_and_iff bit_not_iff bit_mask_iff min_def not_less
      le_antisym Suc_pred' possible_bit_word if_True if_False simp_thms split: if_split)
qed

lemma sign_extend_top_length [simp]: "length (sign_extend_top a width) = length a"
  by (simp add: sign_extend_top_def Let_def)

lemma sign_extend_top_bit:
  assumes "dims a width" "k < 64 * length a"
  shows "bit (bval (sign_extend_top a width)) k \<longleftrightarrow> bit (bval a) (min k (width - 1))"
  using assms(1)
proof (rule dims_split)
  fix ys t r
  assume a: "a = ys @ [t]" "width = 64 * length ys + r" "0 < r" "r \<le> 64"
  let ?m = "min k (width - 1)"
  have div: "?m < 64 * length a" "(64 * length ys + i) div 64 = length ys" "(64 * length ys + i) mod 64 = i" if "i < 64" for i
    using that a assms(2) by auto
  show ?thesis
  proof (cases "r = 64")
    case True
    then have "sign_extend_top a width = a" "?m = k" using a assms(2) by (auto simp: sign_extend_top_def)
    then show ?thesis by simp
  next
    case False
    define t' where "t' = (if t AND push_bit (r - 1) 1 \<noteq> 0 then t OR NOT (push_bit 1 (push_bit (r - 1) 1) - 1)
      else t AND (push_bit 1 (push_bit (r - 1) 1) - 1))"
    have e: "sign_extend_top (ys @ [t]) width = ys @ [t']" using a False by (simp add: sign_extend_top_def Let_def t'_def)
    have tb: "bit t' i \<longleftrightarrow> bit t (min i (r - 1))" if "i < 64" for i
      unfolding t'_def using a(3,4) False that by (intro sign_word) auto
    show ?thesis
    proof (cases "k < 64 * length ys")
      case True
      then have "k div 64 < length ys" "?m = k" using a by auto
      then show ?thesis using assms(2) a(1) by (simp add: e bval_bit nth_append)
    next
      case k: False
      define i where "i = k - 64 * length ys"
      have i: "k = 64 * length ys + i" "i < 64" using k assms(2) a(1) by (auto simp: i_def)
      have m: "?m = 64 * length ys + min i (r - 1)" using a(2,3) i(1) by auto
      have "bit (bval (ys @ [t'])) k \<longleftrightarrow> bit t' i" "bit (bval (ys @ [t])) ?m \<longleftrightarrow> bit t (min i (r - 1))"
        using i(2) a(3,4) unfolding m bval_bit unfolding i(1) by (auto simp: nth_append)
      then show ?thesis unfolding a(1) e using tb [OF i(2)] by simp
    qed
  qed
qed

lemma int_bit_bval: "bit (int (bval a)) k \<longleftrightarrow> bit (bval a) k"
  by (simp add: bit_of_nat_iff)

lemma ival_mod: "dims a width \<Longrightarrow> ival width a mod 2 ^ width = int (bval a) mod 2 ^ width"
  by (auto simp: ival_def dims_def take_bit_signed_take_bit simp flip: take_bit_eq_mod)

lemma sign_extend_top_val:
  assumes "dims a width"
  shows "int (bval (sign_extend_top a width)) = ival width a mod 2 ^ (64 * length a)"
proof (rule bit_eqI)
  fix k
  have "bit (bval (sign_extend_top a width)) k \<Longrightarrow> k < 64 * length a" by (simp add: bval_bit)
  then show "bit (int (bval (sign_extend_top a width))) k \<longleftrightarrow> bit (ival width a mod 2 ^ (64 * length a)) k"
    using sign_extend_top_bit [OF assms, of k]
    by (auto simp: int_bit_bval ival_def bit_signed_take_bit_iff bit_take_bit_iff min.commute simp flip: take_bit_eq_mod)
qed

lemma is_negative_bit:
  assumes "dims a width"
  shows "is_negative a width \<longleftrightarrow> bit (bval a) (width - 1)"
  using assms
proof (rule dims_split)
  fix ys t r
  assume a: "a = ys @ [t]" "width = 64 * length ys + r" "0 < r" "r \<le> 64"
  have tb: "(if width mod 64 \<noteq> 0 then width mod 64 - 1 else 63) = r - 1" using a by (cases "r = 64") auto
  have w: "width - 1 = 64 * length ys + (r - 1)" "r - 1 < 64" using a(2-4) by simp_all
  have "is_negative a width \<longleftrightarrow> drop_bit (r - 1) t AND 1 \<noteq> 0" unfolding is_negative_def Let_def tb by (simp add: a(1))
  also have "\<dots> \<longleftrightarrow> bit t (r - 1)" by (simp add: bit_iff_odd_drop_bit and_one_eq odd_iff_mod_2_eq_one)
  also have "\<dots> \<longleftrightarrow> bit (bval a) (width - 1)" unfolding w(1) bval_bit using w(2) by (simp add: a(1))
  finally show ?thesis .
qed

lemma ival_neg: "ival width a < 0 \<longleftrightarrow> bit (bval a) (width - 1)"
  by (simp add: ival_def int_bit_bval)

lemma ival_bounds: "- (2 ^ (width - 1)) \<le> ival width a" "ival width a < 2 ^ (width - 1)"
  by (simp_all add: ival_def signed_take_bit_int_greater_eq_minus_exp signed_take_bit_int_less_exp)

lemma sign_extend_top_neg:
  assumes "dims a width"
  shows "is_negative (sign_extend_top a width) width \<longleftrightarrow> ival width a < 0"
proof -
  have "0 < width" "width \<le> 64 * length a" using assms by (auto simp: dims_def)
  moreover have "dims (sign_extend_top a width) width" using assms by (simp add: dims_def)
  ultimately show ?thesis using is_negative_bit sign_extend_top_bit [OF assms, of "width - 1"] by (simp add: ival_neg)
qed

lemma ival_small:
  assumes "dims a width"
  shows "- (2 ^ (64 * length a)) < ival width a" "ival width a < 2 ^ (64 * length a)"
proof -
  have "0 < width" "width \<le> 64 * length a" using assms by (auto simp: dims_def)
  then have "(2 :: int) ^ (width - 1) < 2 ^ (64 * length a)" by (intro power_strict_increasing) auto
  then show "- (2 ^ (64 * length a)) < ival width a" "ival width a < 2 ^ (64 * length a)"
    using ival_bounds [of width a] by linarith+
qed

lemma mod_neg_small:
  fixes x m :: int
  assumes "- m < x" "x < 0"
  shows "x mod m = x + m"
proof -
  have "x mod m = (x + m) mod m" by simp
  also have "\<dots> = x + m" using assms by (intro mod_pos_pos_trivial) auto
  finally show ?thesis .
qed

lemma sign_extend_top_int:
  assumes "dims a width"
  shows "int (bval (sign_extend_top a width)) = (if ival width a < 0 then ival width a + 2 ^ (64 * length a) else ival width a)"
proof (cases "ival width a < 0")
  case True
  then show ?thesis using sign_extend_top_val [OF assms] mod_neg_small [OF ival_small(1) [OF assms]] by simp
next
  case False
  then have "ival width a mod 2 ^ (64 * length a) = ival width a" using ival_small(2) [OF assms] by (intro mod_pos_pos_trivial) auto
  then show ?thesis using sign_extend_top_val [OF assms] False by simp
qed

subsection \<open>Properties\<close>

text \<open>
  C19: Addition, subtraction, multiplication and negation of wide integers are the
  operations modulo \<open>2 ^ width\<close>, for every width and its word count.
\<close>

theorem bitint_ring:
  assumes "dims a width" "length b = length a"
  shows "int (bval (cccc_bitint_add a b width)) = (int (bval a) + int (bval b)) mod 2 ^ width \<and>
    int (bval (cccc_bitint_sub a b width)) = (int (bval a) - int (bval b)) mod 2 ^ width \<and>
    int (bval (cccc_bitint_mul a b width)) = (int (bval a) * int (bval b)) mod 2 ^ width \<and>
    int (bval (cccc_bitint_neg a width)) = - int (bval a) mod 2 ^ width"
  by (intro conjI add_int sub_int mul_int neg_int assms)

theorem bitint_ring_witness:
  "dims [5, 1] 65 \<and> int (bval (cccc_bitint_sub [5, 1] [6, 1] 65)) = 2 ^ 65 - 1"
  using bitint_ring [of "[5, 1]" 65 "[6, 1]"] by (simp add: dims_def)

text \<open>
  C33: The bitwise operations act on the binary digits below the width, and the truth test
  is the test against zero.
\<close>

theorem bitint_bitwise:
  assumes "dims a width" "length b = length a"
  shows "bval (cccc_bitint_and a b width) = (bval a AND bval b) mod 2 ^ width \<and>
    bval (cccc_bitint_or a b width) = (bval a OR bval b) mod 2 ^ width \<and>
    bval (cccc_bitint_xor a b width) = (bval a XOR bval b) mod 2 ^ width \<and>
    int (bval (cccc_bitint_not a width)) = (- int (bval a) - 1) mod 2 ^ width \<and>
    (cccc_bitint_nonzero a \<longleftrightarrow> bval a \<noteq> 0)"
proof (intro conjI)
  have i: "n div 64 < length a" "n mod 64 < 64" if "n < 64 * length a" for n using that by auto
  show "bval (cccc_bitint_and a b width) = (bval a AND bval b) mod 2 ^ width"
    unfolding cccc_bitint_and_def using assms i by (intro trunc_bits) (auto simp: bit_and_iff bval_bit)
  show "bval (cccc_bitint_or a b width) = (bval a OR bval b) mod 2 ^ width"
    unfolding cccc_bitint_or_def using assms i by (intro trunc_bits) (auto simp: bit_or_iff bval_bit)
  show "bval (cccc_bitint_xor a b width) = (bval a XOR bval b) mod 2 ^ width"
    unfolding cccc_bitint_xor_def using assms i by (intro trunc_bits) (auto simp: bit_xor_iff bval_bit)
  show "int (bval (cccc_bitint_not a width)) = (- int (bval a) - 1) mod 2 ^ width"
  proof -
    have "bval (map NOT a) + bval a + 1 = 2 ^ (64 * length a)" for a
    proof (induction a)
      case (Cons x xs)
      have "unat (NOT x) + unat x + 1 = 2 ^ 64" using unat_not64 [of x] unat64(2) [of x] by simp
      then show ?case by (simp add: power_add flip: Cons)
    qed simp
    from arg_cong [OF this [of a], of int] have "int (bval (map NOT a)) = - int (bval a) - 1 + 2 ^ (64 * length a)" by simp
    then have "(- int (bval a) - 1) mod 2 ^ (64 * length a) = int (bval (map NOT a)) mod 2 ^ (64 * length a)" by simp
    also have "\<dots> = int (bval (map NOT a))" using bval_less [of "map NOT a"] by (intro mod_pos_pos_trivial) simp_all
    finally have "int (bval (map NOT a)) = (- int (bval a) - 1) mod 2 ^ (64 * length a)" by simp
    then show ?thesis unfolding cccc_bitint_not_def by (intro trunc_int [OF assms(1)]) simp_all
  qed
qed (rule nonzero_iff)

theorem bitint_bitwise_witness:
  "dims [12, 1] 66 \<and> bval (cccc_bitint_and [12, 1] [10, 3] 66) = 8 + 2 ^ 64"
  using bitint_bitwise [of "[12, 1]" 66 "[10, 3]"]
  by (simp add: dims_def cccc_bitint_and_def cccc_bitint_trunc_def top_word_mask_def)

end
