(* ===== verification/Bitint_Div.thy ===== *)
theory Bitint_Div
  imports Bitint
begin

text \<open>
  Division of wide integers (\<open>udivmod\<close> and its clients in
  \<open>src/src/stdlib/wide_bitint/runtime.c\<close>): long division by one word, and Knuth's algorithm D with the
  quotient digit refined by trial subtraction. \<open>None\<close> is the hardware trap of a division by zero.
  Quotient and remainder are proved to be those of the integers, the signed operations to truncate.
\<close>

subsection \<open>The algorithm\<close>

fun sig_len :: "words \<Rightarrow> nat \<Rightarrow> nat" where
  "sig_len a 0 = 0"
| "sig_len a (Suc n) = (if n > 0 \<and> a ! n = 0 then sig_len a n else Suc n)"

definition pair128 :: "u64 \<Rightarrow> u64 \<Rightarrow> u128" where
  "pair128 h l = push_bit 64 (wide h) OR wide l"

definition div128_by_64 :: "u64 \<Rightarrow> u64 \<Rightarrow> u64 \<Rightarrow> u64 \<times> u64" where
  "div128_by_64 l h d = (let n = pair128 h l in (lo64 (n div wide d), lo64 (n mod wide d)))"

text \<open>The one-word divisor: words are taken from the most significant down.\<close>

fun div_small :: "u64 \<Rightarrow> words \<Rightarrow> words \<times> u64" where
  "div_small d [] = ([], 0)"
| "div_small d (x # xs) =
     (let (qs, rem) = div_small d xs; cur = pair128 rem x
      in (lo64 (cur div wide d) # qs, lo64 (cur mod wide d)))"

text \<open>The normalising shift; the loop ends because the word is not zero.\<close>

partial_function (option) norm_shift :: "u64 \<Rightarrow> nat \<Rightarrow> nat option" where
  "norm_shift w s =
     (if w AND push_bit 63 1 \<noteq> 0 then Some s else norm_shift (push_bit 1 w) (s + 1))"

text \<open>A left shift by fewer than 64 bits, one word longer than its operand.\<close>

fun shl_carry :: "nat \<Rightarrow> u64 \<Rightarrow> words \<Rightarrow> words" where
  "shl_carry s c [] = [c]"
| "shl_carry s c (x # xs) = (c OR push_bit s x) # shl_carry s (if s \<noteq> 0 then drop_bit (64 - s) x else 0) xs"

text \<open>The trial subtraction of \<open>qhat * v\<close>: the difference and the borrow out of the top word.\<close>

fun sub_mul :: "u64 \<Rightarrow> words \<Rightarrow> words \<Rightarrow> u128 \<Rightarrow> words \<times> u128" where
  "sub_mul q (v # vs) (u # us) borrow =
     (let p = wide q * wide v + borrow;
          borrow1 = (if u \<ge> lo64 p then drop_bit 64 p else drop_bit 64 p + 1);
          (ts, bo) = sub_mul q vs us borrow1
      in ((u - lo64 p) # ts, bo))"
| "sub_mul q _ _ borrow = ([], borrow)"

lemma sub_mul_zero: "snd (sub_mul 0 vs us 0) = 0"
proof (induction vs arbitrary: us)
  case (Cons v vs)
  then show ?case
  proof (cases us)
    case (Cons u list)
    then show ?thesis using \<open>\<And>us. snd (sub_mul 0 vs us 0) = 0\<close> [of list]
      by (simp add: wide_def lo64_def case_prod_unfold Let_def)
  qed simp
qed simp

function qhat_loop :: "words \<Rightarrow> words \<Rightarrow> u64 \<Rightarrow> u64 \<times> words" where
  "qhat_loop vs us qhat =
     (let (ts, bo) = sub_mul qhat vs us 0
      in if bo = 0 then (qhat, ts) else qhat_loop vs us (qhat - 1))"
  by pat_completeness auto
termination
proof (relation "measure (\<lambda>(vs, us, qhat). unat qhat)")
  fix vs us qhat and x :: "words \<times> u128" and ts bo
  assume "x = sub_mul qhat vs us 0" "(ts, bo) = x" "bo \<noteq> 0"
  then have "snd (sub_mul qhat vs us 0) \<noteq> 0" by (metis snd_conv)
  then have "qhat \<noteq> 0" using sub_mul_zero by metis
  then show "((vs, us, qhat - 1), vs, us, qhat) \<in> measure (\<lambda>(vs, us, qhat). unat qhat)"
    by (simp add: unat_minus_one unat_gt_0 word_neq_0_conv)
qed simp

declare qhat_loop.simps [simp del]

definition estimate :: "u64 \<Rightarrow> u64 \<Rightarrow> u64 \<Rightarrow> u64" where
  "estimate u_hi u_lo vtop = (if u_hi \<ge> vtop then NOT 0 else fst (div128_by_64 u_lo u_hi vtop))"

definition div_digit :: "words \<Rightarrow> nat \<Rightarrow> words \<times> words \<Rightarrow> words \<times> words" where
  "div_digit vs j s =
     (let (u, qs) = s; blen = length vs;
          (q, ts) = qhat_loop (vs @ [0]) (take (blen + 1) (drop j u))
             (estimate (u ! (j + blen)) (u ! (j + blen - 1)) (vs ! (blen - 1)))
      in (take j u @ ts @ drop (j + blen + 1) u, q # qs))"

text \<open>The remainder shifted back.\<close>

fun shr_words :: "nat \<Rightarrow> words \<Rightarrow> words" where
  "shr_words s (x # y # ys) = (drop_bit s x OR (if s = 0 then 0 else push_bit (64 - s) y)) # shr_words s (y # ys)"
| "shr_words s _ = []"

definition udivmod :: "words \<Rightarrow> words \<Rightarrow> (words \<times> words) option" where
  "udivmod a b =
     (let n = length a; blen = sig_len b n; alen = sig_len a n
      in if blen = 1
         then if b ! 0 = 0 then None
              else let (q, r) = div_small (b ! 0) a in Some (q, r # replicate (n - 1) 0)
         else if alen < blen then Some (replicate n 0, a)
         else case norm_shift (b ! (blen - 1)) 0 of
                None \<Rightarrow> None
              | Some s \<Rightarrow>
                  let u = shl_carry s 0 (take alen a) @ replicate (n - alen) 0;
                      v = take blen (shl_carry s 0 (take blen b));
                      (u1, qs) = fold (div_digit v) (rev [0..<Suc (alen - blen)]) (u, [])
                  in Some (qs @ replicate (n - length qs) 0,
                           shr_words s (take (blen + 1) u1) @ replicate (n - blen) 0))"

definition cccc_bitint_udiv :: "words \<Rightarrow> words \<Rightarrow> nat \<Rightarrow> words option" where
  "cccc_bitint_udiv a b width = map_option (\<lambda>(q, r). cccc_bitint_trunc q width) (udivmod a b)"

definition cccc_bitint_umod :: "words \<Rightarrow> words \<Rightarrow> nat \<Rightarrow> words option" where
  "cccc_bitint_umod a b width = map_option (\<lambda>(q, r). cccc_bitint_trunc r width) (udivmod a b)"

definition magnitude :: "words \<Rightarrow> nat \<Rightarrow> bool \<times> words" where
  "magnitude a width =
     (let ua = sign_extend_top a width; neg = is_negative ua width in (neg, if neg then negate ua else ua))"

definition cccc_bitint_sdiv :: "words \<Rightarrow> words \<Rightarrow> nat \<Rightarrow> words option" where
  "cccc_bitint_sdiv a b width =
     (let (neg_a, ua) = magnitude a width; (neg_b, ub) = magnitude b width
      in map_option (\<lambda>(q, r). cccc_bitint_trunc (if neg_a \<noteq> neg_b then negate q else q) width) (udivmod ua ub))"

definition cccc_bitint_smod :: "words \<Rightarrow> words \<Rightarrow> nat \<Rightarrow> words option" where
  "cccc_bitint_smod a b width =
     (let (neg_a, ua) = magnitude a width; (neg_b, ub) = magnitude b width
      in map_option (\<lambda>(q, r). cccc_bitint_trunc (if neg_a then negate r else r) width) (udivmod ua ub))"

subsection \<open>Shifts by a fraction of a word\<close>

lemma or_push_nat:
  fixes c y :: nat
  assumes "c < 2 ^ s"
  shows "c OR push_bit s y = c + 2 ^ s * y"
proof -
  have "\<not> bit c k" if "s \<le> k" for k
    using that assms by (metis bit_take_bit_iff linorder_not_less take_bit_nat_eq_self)
  then have "c + push_bit s y = c OR push_bit s y"
    by (intro disjunctive_add) (auto simp: bit_push_bit_iff)
  then show ?thesis by (simp add: push_bit_eq_mult mult.commute)
qed

lemma unat_push: "unat (push_bit s x :: u64) = (2 ^ s * unat x) mod 2 ^ 64"
  unfolding unsigned_push_bit_eq by (simp add: push_bit_eq_mult take_bit_eq_mod mult.commute)

lemma unat_drop: "unat (drop_bit s x :: u64) = unat x div 2 ^ s"
  unfolding unsigned_drop_bit_eq using unat64(1) [of x] by (simp add: drop_bit_eq_div take_bit_nat_eq_self)

lemma shl_word:
  fixes c x :: u64
  assumes "s < 64" "unat c < 2 ^ s"
  shows "unat (c OR push_bit s x) + 2 ^ 64 * unat (if s \<noteq> 0 then drop_bit (64 - s) x else 0) = unat c + 2 ^ s * unat x"
    "unat (if s \<noteq> 0 then drop_bit (64 - s) x else 0) < 2 ^ s"
proof -
  let ?c = "if s \<noteq> 0 then drop_bit (64 - s) x else 0"
  have e: "(2 :: nat) ^ 64 = 2 ^ s * 2 ^ (64 - s)" using assms(1) by (simp flip: power_add)
  have d: "unat ?c = unat x div 2 ^ (64 - s)" using unat64(1) [of x] by (simp add: unat_drop)
  have "(2 ^ s * unat x) mod 2 ^ 64 = 2 ^ s * (unat x mod 2 ^ (64 - s))" unfolding e by (rule mult_mod_right [symmetric])
  then have p: "unat (push_bit s x) = push_bit s (unat x mod 2 ^ (64 - s))"
    unfolding unat_push by (simp only: push_bit_eq_mult mult.commute)
  have "unat (c OR push_bit s x) = unat c + 2 ^ s * (unat x mod 2 ^ (64 - s))"
    unfolding unsigned_or_eq p by (rule or_push_nat [OF assms(2)])
  moreover have "unat x mod 2 ^ (64 - s) + 2 ^ (64 - s) * (unat x div 2 ^ (64 - s)) = unat x" by simp
  then have "2 ^ s * (unat x mod 2 ^ (64 - s)) + 2 ^ s * (2 ^ (64 - s) * (unat x div 2 ^ (64 - s))) = 2 ^ s * unat x"
    by (metis distrib_left)
  ultimately show "unat (c OR push_bit s x) + 2 ^ 64 * unat ?c = unat c + 2 ^ s * unat x"
    unfolding d e by (simp only: mult.assoc add.assoc)
  show "unat ?c < 2 ^ s"
    unfolding d using unat64(1) [of x] unfolding e by (simp add: less_mult_imp_div_less)
qed

lemma shl_carry_val:
  "s < 64 \<Longrightarrow> unat c < 2 ^ s \<Longrightarrow> bval (shl_carry s c xs) = unat c + 2 ^ s * bval xs"
proof (induction xs arbitrary: c)
  case (Cons x xs)
  let ?c = "if s \<noteq> 0 then drop_bit (64 - s) x else 0"
  have "bval (shl_carry s c (x # xs)) = unat (c OR push_bit s x) + 2 ^ 64 * (unat ?c + 2 ^ s * bval xs)"
    using Cons.IH [OF Cons.prems(1) shl_word(2) [OF Cons.prems]] by (simp only: shl_carry.simps bval.simps)
  also have "\<dots> = unat (c OR push_bit s x) + 2 ^ 64 * unat ?c + 2 ^ s * (2 ^ 64 * bval xs)"
    by (simp only: distrib_left add.assoc mult.left_commute)
  also have "\<dots> = unat c + 2 ^ s * unat x + 2 ^ s * (2 ^ 64 * bval xs)" by (simp only: shl_word(1) [OF Cons.prems])
  finally show ?case by (simp only: bval.simps distrib_left add.assoc)
qed simp

lemma shl_carry_length [simp]: "length (shl_carry s c xs) = Suc (length xs)"
  by (induction xs arbitrary: c) simp_all

lemma shr_words_length [simp]: "length (shr_words s xs) = length xs - 1"
  by (induction s xs rule: shr_words.induct) simp_all

lemma shr_word:
  fixes x y :: u64
  assumes "s < 64"
  shows "unat (drop_bit s x OR (if s = 0 then 0 else push_bit (64 - s) y)) = unat x div 2 ^ s + 2 ^ (64 - s) * (unat y mod 2 ^ s)"
proof (cases "s = 0")
  case False
  have e: "(2 :: nat) ^ 64 = 2 ^ (64 - s) * 2 ^ s" using assms by (simp flip: power_add)
  have "(2 ^ (64 - s) * unat y) mod 2 ^ 64 = 2 ^ (64 - s) * (unat y mod 2 ^ s)" unfolding e by (rule mult_mod_right [symmetric])
  then have p: "unat (push_bit (64 - s) y) = push_bit (64 - s) (unat y mod 2 ^ s)"
    unfolding unat_push by (simp only: push_bit_eq_mult mult.commute)
  have "unat x div 2 ^ s < 2 ^ (64 - s)" using unat64(1) [of x] unfolding e by (simp add: less_mult_imp_div_less)
  then have "unat x div 2 ^ s OR push_bit (64 - s) (unat y mod 2 ^ s) = unat x div 2 ^ s + 2 ^ (64 - s) * (unat y mod 2 ^ s)"
    by (rule or_push_nat)
  then show ?thesis using False unfolding unsigned_or_eq by (simp only: if_False p unat_drop)
qed simp

lemma shr_words_val:
  "s < 64 \<Longrightarrow> bval (shr_words s xs) = bval xs div 2 ^ s mod 2 ^ (64 * (length xs - 1))"
proof (induction s xs rule: shr_words.induct)
  case (1 s x y ys)
  define w where "w = drop_bit s x OR (if s = 0 then 0 else push_bit (64 - s) y)"
  let ?R = "bval (y # ys)"
  have e: "(2 :: nat) ^ 64 = 2 ^ s * 2 ^ (64 - s)" using 1(2) by (simp flip: power_add)
  have "?R mod 2 ^ s = unat y mod 2 ^ s" unfolding bval.simps e by (simp add: mult.assoc)
  then have w: "unat w = unat x div 2 ^ s + 2 ^ (64 - s) * (?R mod 2 ^ s)" unfolding w_def by (simp only: shr_word [OF 1(2)])
  have "bval (x # y # ys) div 2 ^ s = unat x div 2 ^ s + 2 ^ (64 - s) * ?R"
    unfolding bval.simps(2) [of x] e by (simp only: mult.assoc) simp
  also have "?R = ?R mod 2 ^ s + 2 ^ s * (?R div 2 ^ s)" by simp
  finally have "bval (x # y # ys) div 2 ^ s = unat w + 2 ^ 64 * (?R div 2 ^ s)"
    unfolding w e by (simp only: distrib_left add.assoc mult.assoc mult.left_commute)
  then have "bval (x # y # ys) div 2 ^ s mod 2 ^ (64 * (length (x # y # ys) - 1)) =
      unat w + 2 ^ 64 * (?R div 2 ^ s mod 2 ^ (64 * (length (y # ys) - 1)))"
    using mod_shift [OF unat64(1), of w "?R div 2 ^ s" "64 * length ys"] by simp
  then show ?case using "1.IH" [OF 1(2)] by (simp only: shr_words.simps(1) bval.simps(2) w_def)
qed simp_all

subsection \<open>Double words\<close>

lemma pair128_val: "unat (pair128 h l) = 2 ^ 64 * unat h + unat l"
proof -
  have "2 ^ 64 * unat h < 2 ^ 128" using unat64(1) [of h] by simp
  then have "unat (push_bit 64 (wide h)) = push_bit 64 (unat h)"
    unfolding unsigned_push_bit_eq by (simp add: push_bit_eq_mult take_bit_nat_eq_self mult.commute)
  then show ?thesis
    using or_push_nat [of "unat l" 64 "unat h"] unat64(1) [of l]
    unfolding pair128_def unsigned_or_eq by (simp add: or.commute)
qed

lemma wide_div: "d \<noteq> 0 \<Longrightarrow> unat (n div wide d) = unat n div unat d" "unat (n mod wide d) = unat n mod unat d"
  by (simp_all add: unat_div unat_mod)

lemma lo64_small: "unat s < 2 ^ 64 \<Longrightarrow> unat (lo64 s) = unat s"
  by (simp add: lo64_val)

text \<open>One step of long division: the pair of the running remainder and the next word.\<close>

lemma div_pair:
  fixes r x d :: u64
  assumes "unat r < unat d"
  shows "unat (lo64 (pair128 r x div wide d)) = (2 ^ 64 * unat r + unat x) div unat d"
    "unat (lo64 (pair128 r x mod wide d)) = (2 ^ 64 * unat r + unat x) mod unat d"
proof -
  have d: "d \<noteq> 0" "0 < unat d" using assms by auto
  have "2 ^ 64 * unat r + unat x < 2 ^ 64 * Suc (unat r)" using unat64(1) [of x] by simp
  also have "\<dots> \<le> 2 ^ 64 * unat d" using assms by (intro mult_le_mono2) simp
  finally have "(2 ^ 64 * unat r + unat x) div unat d < 2 ^ 64" by (simp add: less_mult_imp_div_less)
  then show "unat (lo64 (pair128 r x div wide d)) = (2 ^ 64 * unat r + unat x) div unat d"
    by (subst lo64_small) (simp_all only: wide_div(1) [OF d(1)] pair128_val)
  have "(2 ^ 64 * unat r + unat x) mod unat d < 2 ^ 64" using mod_less_divisor [OF d(2)] unat64(1) [of d] less_trans by blast
  then show "unat (lo64 (pair128 r x mod wide d)) = (2 ^ 64 * unat r + unat x) mod unat d"
    by (subst lo64_small) (simp_all only: wide_div(2) pair128_val)
qed

lemma div_small_val:
  assumes "d \<noteq> 0"
  shows "length (fst (div_small d xs)) = length xs \<and> bval (fst (div_small d xs)) = bval xs div unat d \<and>
    unat (snd (div_small d xs)) = bval xs mod unat d"
proof (induction xs)
  case (Cons x xs)
  obtain qs r where q: "div_small d xs = (qs, r)" by fastforce
  have d: "0 < unat d" using assms by (simp add: unat_gt_0)
  have r: "unat r = bval xs mod unat d" "bval qs = bval xs div unat d" using Cons q by auto
  then have "unat r < unat d" using d by simp
  note dp = div_pair [OF this, of x]
  define C Q where "C = 2 ^ 64 * unat r + unat x" and "Q = 2 ^ 64 * bval qs"
  have "bval (x # xs) = C + Q * unat d"
  proof -
    have "bval xs = unat d * bval qs + unat r" unfolding r by simp
    then show ?thesis by (simp add: algebra_simps C_def Q_def)
  qed
  then have "bval (x # xs) div unat d = C div unat d + Q"
    "bval (x # xs) mod unat d = C mod unat d" using d by simp_all
  then have "bval (x # xs) div unat d = (2 ^ 64 * unat r + unat x) div unat d + 2 ^ 64 * bval qs"
    "bval (x # xs) mod unat d = (2 ^ 64 * unat r + unat x) mod unat d" unfolding C_def Q_def by blast+
  then show ?case using Cons q by (simp add: Let_def dp del: bval.simps(2)) (simp add: dp)
qed simp

subsection \<open>Normalisation\<close>

lemma norm_shift_ok:
  assumes "w \<noteq> 0"
  shows "\<exists>k. norm_shift w s = Some (s + k) \<and> k < 64 \<and> unat w * 2 ^ k < 2 ^ 64"
  using assms
proof (induction "2 ^ 64 - unat w" arbitrary: w s rule: less_induct)
  case less
  have b: "w AND push_bit 63 1 \<noteq> 0 \<longleftrightarrow> bit w 63" by (simp add: bit_iff_and_push_bit_not_eq_0)
  show ?case
  proof (cases "bit w 63")
    case True
    then show ?thesis using unat64(1) [of w] b by (subst norm_shift.simps) (auto intro!: exI [of _ 0])
  next
    case False
    have pos: "0 < unat w" using less.prems by (simp add: unat_gt_0)
    have "\<not> bit (unat w) 63" using False by (simp add: bit_unsigned_iff)
    then have "unat w div 2 ^ 63 = 0" using less_mult_imp_div_less [of "unat w" 2 "2 ^ 63"] unat64(1) [of w]
      by (auto simp: bit_iff_odd less_2_cases_iff)
    then have lt: "unat w < 2 ^ 63" by (simp add: div_eq_0_iff)
    have dbl: "unat (push_bit 1 w) = 2 * unat w" using lt unfolding unat_push by simp
    then have "push_bit 1 w \<noteq> 0" "2 ^ 64 - unat (push_bit 1 w) < 2 ^ 64 - unat w" using pos lt unat64(1) [of w] by auto
    from less.hyps [OF this(2,1), of "s + 1"] obtain k where
      k: "norm_shift (push_bit 1 w) (s + 1) = Some (s + 1 + k)" "unat (push_bit 1 w) * 2 ^ k < 2 ^ 64" by auto
    have m: "unat w * 2 ^ Suc k < 2 ^ 64" using k(2) unfolding dbl by (simp add: mult.left_commute)
    have "Suc k < 64"
    proof (rule ccontr)
      assume "\<not> Suc k < 64"
      then have "(2 :: nat) ^ 64 \<le> 2 ^ Suc k" by (intro power_increasing) auto
      then have "(2 :: nat) ^ 64 \<le> unat w * 2 ^ Suc k" using pos by (metis One_nat_def Suc_leI mult.commute mult_le_mono nat_mult_1_right)
      then show False using m by simp
    qed
    moreover have "norm_shift w s = Some (s + Suc k)" using k(1) b False by (subst norm_shift.simps) simp
    ultimately show ?thesis using m by blast
  qed
qed

subsection \<open>One quotient digit\<close>

lemma sub_mul_step:
  fixes q v u :: u64 and borrow :: u128
  assumes "unat borrow < 2 ^ 64"
  defines "p \<equiv> wide q * wide v + borrow"
  defines "b1 \<equiv> if u \<ge> lo64 p then drop_bit 64 p else drop_bit 64 p + 1"
  shows "unat u + 2 ^ 64 * unat b1 = unat (u - lo64 p) + unat q * unat v + unat borrow" "unat b1 < 2 ^ 64"
proof -
  have m: "unat q * unat v \<le> (2 ^ 64 - 1) * (2 ^ 64 - 1)" by (intro mult_le_mono unat64)
  then have p: "unat p = unat q * unat v + unat borrow" using assms(1) by (simp add: p_def unat_add_128 unat_mult_128)
  then have le: "unat p \<le> 2 ^ 64 * (2 ^ 64 - 1)" using m assms(1) by simp
  define h l where "h = unat p div 2 ^ 64" and "l = unat p mod 2 ^ 64"
  have hl: "unat p = 2 ^ 64 * h + l" "l < 2 ^ 64" by (simp_all add: h_def l_def)
  have d: "unat (drop_bit 64 p) = h"
    unfolding unsigned_drop_bit_eq h_def using unat_bound [of p] by (simp add: drop_bit_eq_div take_bit_nat_eq_self)
  have l: "unat (lo64 p) = l" by (simp add: lo64_val l_def)
  have h: "h < 2 ^ 64" unfolding h_def using unat_bound [of p] by (simp add: less_mult_imp_div_less)
  have "unat u + 2 ^ 64 * unat b1 = unat (u - lo64 p) + unat p \<and> unat b1 < 2 ^ 64"
  proof (cases "u \<ge> lo64 p")
    case True
    then have "unat (u - lo64 p) = unat u - l" "l \<le> unat u" by (simp_all add: unat_sub l word_le_nat_alt flip: l)
    then show ?thesis using True d h hl(1) by (simp add: b1_def)
  next
    case False
    then have lt: "unat u < l" using l by (simp add: word_le_nat_alt)
    have "2 ^ 64 * h < 2 ^ 64 * (2 ^ 64 - 1 :: nat)" using hl(1) le lt by (intro less_le_trans [OF _ le]) simp
    then have "h < 2 ^ 64 - 1" by (simp only: mult_less_cancel1)
    then have "h + 1 < 2 ^ 64" by simp
    then have "unat (drop_bit 64 p + 1) = h + 1" using d by (simp add: unat_add_128)
    moreover have "unat (u - lo64 p) = unat u + 2 ^ 64 - l"
      using lt l unat64(1) [of u] by (simp add: unat_sub_if_size word_size word_le_nat_alt)
    ultimately show ?thesis using False hl \<open>h + 1 < 2 ^ 64\<close> by (simp add: b1_def)
  qed
  then show "unat u + 2 ^ 64 * unat b1 = unat (u - lo64 p) + unat q * unat v + unat borrow" "unat b1 < 2 ^ 64"
    using p by auto
qed

lemma sub_mul_val:
  assumes "length vs = length us" "unat borrow < 2 ^ 64"
  shows "length (fst (sub_mul q vs us borrow)) = length us \<and>
    bval us + 2 ^ (64 * length us) * unat (snd (sub_mul q vs us borrow)) =
      bval (fst (sub_mul q vs us borrow)) + unat q * bval vs + unat borrow"
  using assms
proof (induction vs us arbitrary: borrow rule: list_induct2)
  case (Cons v vs u us)
  define p where "p = wide q * wide v + borrow"
  define b1 where "b1 = (if u \<ge> lo64 p then drop_bit 64 p else drop_bit 64 p + 1)"
  note st = sub_mul_step [OF Cons.prems, where u = u and q = q and v = v, folded p_def, folded b1_def]
  obtain ts bo where r: "sub_mul q vs us b1 = (ts, bo)" by fastforce
  have ih: "length ts = length us" "bval us + 2 ^ (64 * length us) * unat bo = bval ts + unat q * bval vs + unat b1"
    using Cons.IH [OF st(2)] r by auto
  have "2 ^ 64 * (bval us + 2 ^ (64 * length us) * unat bo) + unat u =
      2 ^ 64 * (bval ts + unat q * bval vs) + (unat (u - lo64 p) + unat q * unat v + unat borrow)"
    unfolding ih(2) using st(1) by (simp add: distrib_left)
  then have "bval (u # us) + 2 ^ (64 * length (u # us)) * unat bo =
      bval ((u - lo64 p) # ts) + unat q * bval (v # vs) + unat borrow"
    by (simp add: power_add algebra_simps)
  moreover have "sub_mul q (v # vs) (u # us) borrow = ((u - lo64 p) # ts, bo)"
    by (simp add: Let_def r p_def [symmetric] b1_def [symmetric])
  ultimately show ?case using ih(1) by (simp only: fst_conv snd_conv length_Cons)
qed simp

text \<open>The refinement ends with the true digit when it starts at or above it.\<close>

lemma qhat_loop_val:
  assumes "length vs = length us" "0 < bval vs" "bval us div bval vs \<le> unat qhat"
  shows "length (snd (qhat_loop vs us qhat)) = length us \<and> unat (fst (qhat_loop vs us qhat)) = bval us div bval vs \<and>
    bval (snd (qhat_loop vs us qhat)) = bval us mod bval vs"
  using assms
proof (induction vs us qhat rule: qhat_loop.induct)
  case (1 vs us qhat)
  obtain ts bo where r: "sub_mul qhat vs us 0 = (ts, bo)" by fastforce
  have v: "length ts = length us" "bval us + 2 ^ (64 * length us) * unat bo = bval ts + unat qhat * bval vs"
    using sub_mul_val [of vs us 0 qhat] 1(2) r by auto
  show ?case
  proof (cases "bo = 0")
    case True
    then have e: "bval us = bval ts + unat qhat * bval vs" using v(2) by simp
    then have "unat qhat \<le> bval us div bval vs" using 1(3) by (simp add: less_eq_div_iff_mult_less_eq)
    then have q: "unat qhat = bval us div bval vs" using 1(4) by simp
    then have "bval ts = bval us mod bval vs" using e by (simp add: minus_mult_div_eq_mod [symmetric] mult.commute)
    moreover have "qhat_loop vs us qhat = (qhat, ts)" using r True by (subst qhat_loop.simps) simp
    ultimately show ?thesis using q v(1) by simp
  next
    case False
    have "bval ts < 2 ^ (64 * length us)" using bval_less [of ts] v(1) by simp
    moreover have "2 ^ (64 * length us) * 1 \<le> 2 ^ (64 * length us) * unat bo"
      using False by (intro mult_le_mono2) (simp add: Suc_le_eq unat_gt_0)
    ultimately have lt: "bval us < unat qhat * bval vs" using v(2) by linarith
    then have "bval us div bval vs < unat qhat" using 1(3) by (simp add: div_less_iff_less_mult)
    moreover from this have "unat (qhat - 1) = unat qhat - 1" by (intro unat_minus_one) auto
    ultimately have "bval us div bval vs \<le> unat (qhat - 1)" by simp
    moreover have "qhat_loop vs us qhat = qhat_loop vs us (qhat - 1)" using r False by (subst qhat_loop.simps) simp
    ultimately show ?thesis using "1.IH" [OF r [symmetric] refl False 1(2,3)] by simp
  qed
qed

text \<open>The estimate from the two top words is never too small (Knuth's theorem A).\<close>

lemma estimate_ge:
  assumes "length us = Suc (length vs)" "vs \<noteq> []" "last vs \<noteq> 0" "bval us < 2 ^ 64 * bval vs"
  shows "bval us div bval vs \<le> unat (estimate (us ! length vs) (us ! (length vs - 1)) (last vs))"
proof -
  let ?k = "length vs - 1" and ?h = "us ! length vs" and ?l = "us ! (length vs - 1)"
  have len: "length vs = Suc ?k" using assms(2) by (cases vs) auto
  have "bval vs = bval (butlast vs) + 2 ^ (64 * ?k) * unat (last vs)"
    using bval_append [of "butlast vs" "[last vs]"] assms(2) by simp
  then have v: "unat (last vs) * 2 ^ (64 * ?k) \<le> bval vs" by (simp add: mult.commute)
  have pos: "0 < bval vs" using assms(4) by (cases "bval vs") auto
  show ?thesis
  proof (cases "?h \<ge> last vs")
    case True
    have "bval us div bval vs < 2 ^ 64" using assms(4) by (simp add: div_less_iff_less_mult pos)
    moreover have "unat (NOT 0 :: u64) = 2 ^ 64 - 1" using unat_not64 [of 0] by simp
    ultimately show ?thesis using True by (simp add: estimate_def)
  next
    case False
    then have lt: "unat ?h < unat (last vs)" by (simp add: word_le_nat_alt)
    have "drop ?k us = [?l, ?h]"
    proof -
      have "drop ?k us = us ! ?k # us ! Suc ?k # drop (Suc (Suc ?k)) us"
        using assms(1) len by (metis Cons_nth_drop_Suc lessI less_SucI)
      then show ?thesis using assms(1) len by simp
    qed
    then have d: "bval us div 2 ^ (64 * ?k) = 2 ^ 64 * unat ?h + unat ?l" by (simp flip: bval_drop)
    have "bval us div bval vs \<le> bval us div (unat (last vs) * 2 ^ (64 * ?k))"
      using v assms(3) by (intro div_le_mono2) (auto simp: unat_gt_0)
    also have "\<dots> = (2 ^ 64 * unat ?h + unat ?l) div unat (last vs)"
      using div_mult2_eq [of "bval us" "2 ^ (64 * ?k)" "unat (last vs)"] unfolding d by (simp only: mult.commute)
    also have "\<dots> = unat (estimate ?h ?l (last vs))"
      using False by (simp add: estimate_def div128_by_64_def Let_def div_pair(1) [OF lt])
    finally show ?thesis .
  qed
qed

subsection \<open>The division loop\<close>

text \<open>After the digits from \<open>j\<close> up: what is left of the numerator, the digits found, and the partial
  remainder below the divisor.\<close>

definition div_inv :: "words \<Rightarrow> nat \<Rightarrow> nat \<Rightarrow> nat \<Rightarrow> nat \<Rightarrow> words \<times> words \<Rightarrow> bool" where
  "div_inv vs A n m j s \<longleftrightarrow>
     length (fst s) = n \<and> length (snd s) = m - j \<and>
     bval (fst s) + bval vs * 2 ^ (64 * j) * bval (snd s) = A \<and> bval (drop j (fst s)) < bval vs"

lemma div_digit_inv:
  assumes "div_inv vs A n m (Suc j) s" "vs \<noteq> []" "last vs \<noteq> 0" "j + length vs < n" "j < m"
  shows "div_inv vs A n m j (div_digit vs j s)"
proof -
  obtain u qs where s: "s = (u, qs)" by fastforce
  define k us where "k = length vs" and "us = take (k + 1) (drop j u)"
  let ?V = "bval vs" and ?U = "bval (drop j u)"
  have inv: "length u = n" "length qs = m - Suc j" "bval u + ?V * 2 ^ (64 * Suc j) * bval qs = A" "bval (drop (Suc j) u) < ?V"
    using assms(1) by (auto simp: div_inv_def s)
  have k: "0 < k" "j + k < n" using assms(2,4) by (auto simp: k_def)
  have "drop j u = u ! j # drop (Suc j) u" using k inv(1) by (intro Cons_nth_drop_Suc [symmetric]) simp
  then have "?U = unat (u ! j) + 2 ^ 64 * bval (drop (Suc j) u)" by simp
  also have "\<dots> < 2 ^ 64 * Suc (bval (drop (Suc j) u))" using unat64(1) [of "u ! j"] by simp
  also have "\<dots> \<le> 2 ^ 64 * ?V" using inv(4) by (intro mult_le_mono2) simp
  finally have U: "?U < 2 ^ 64 * ?V" .
  have "2 ^ 64 * ?V < 2 ^ (64 * (k + 1))" using bval_less [of vs] by (simp add: k_def power_add)
  then have big: "?U < 2 ^ (64 * (k + 1))" using U by (rule less_trans [rotated])
  have us: "bval us = ?U" "length us = Suc k" "bval (drop (j + k + 1) u) = 0"
    using big k inv(1) bval_drop [of "k + 1" "drop j u"] by (simp_all add: us_def bval_take add.commute add.left_commute)
  have nth: "u ! (j + k) = us ! k" "u ! (j + k - 1) = us ! (k - 1)" using k inv(1) by (simp_all add: us_def)
  have v0: "bval (vs @ [0]) = ?V" "length (vs @ [0]) = length us" by (simp_all add: bval_append us k_def)
  have pos: "0 < ?V" using inv(4) by simp
  define q ts where "q = fst (qhat_loop (vs @ [0]) us (estimate (us ! k) (us ! (k - 1)) (last vs)))"
    and "ts = snd (qhat_loop (vs @ [0]) us (estimate (us ! k) (us ! (k - 1)) (last vs)))"
  have "?U div ?V \<le> unat (estimate (us ! k) (us ! (k - 1)) (last vs))"
    using estimate_ge [of us vs] assms(2,3) U us unfolding k_def by simp
  then have q: "length ts = Suc k" "unat q = ?U div ?V" "bval ts = ?U mod ?V"
    using qhat_loop_val [OF v0(2), of "estimate (us ! k) (us ! (k - 1)) (last vs)"] pos us unfolding q_def ts_def v0 by auto
  have d: "div_digit vs j s = (take j u @ ts @ drop (j + k + 1) u, q # qs)"
  proof -
    have l: "vs ! (k - 1) = last vs" using assms(2) by (simp add: last_conv_nth k_def)
    show ?thesis unfolding div_digit_def s Let_def prod.case k_def [symmetric] us_def [symmetric] nth l
      unfolding q_def ts_def by (simp only: case_prod_unfold)
  qed
  let ?u = "take j u @ ts @ drop (j + k + 1) u"
  have "bval (drop j ?u) = ?U mod ?V" using k inv(1) us(3) q(3) by (simp add: bval_append)
  moreover have "bval ?u = bval (take j u) + 2 ^ (64 * j) * (?U mod ?V)"
    using k inv(1) us(3) q(3) by (simp add: bval_append)
  moreover have "bval (take j u) + 2 ^ (64 * j) * (?U mod ?V) + ?V * 2 ^ (64 * j) * bval (q # qs) = A"
  proof -
    have gen: "X * r + W * X * (y + C * Q) = X * (r + W * y) + W * (C * X) * Q" for X r W y C Q :: nat
      by (simp add: algebra_simps)
    have "2 ^ (64 * j) * (?U mod ?V) + ?V * 2 ^ (64 * j) * bval (q # qs) =
        2 ^ (64 * j) * (?U mod ?V + ?V * (?U div ?V)) + ?V * 2 ^ (64 * Suc j) * bval qs"
      unfolding bval.simps q(2) gen mult_Suc_right power_add ..
    also have "?U mod ?V + ?V * (?U div ?V) = ?U" by simp
    finally show ?thesis using inv(3) bval_take_drop [of u j] by simp
  qed
  ultimately show ?thesis using pos k inv(1,2) q(1) assms(5) by (simp add: div_inv_def d del: bval.simps)
qed

lemma div_digits_inv:
  assumes "div_inv vs A n m k s" "vs \<noteq> []" "last vs \<noteq> 0" "k + length vs \<le> n" "k \<le> m"
  shows "div_inv vs A n m 0 (fold (div_digit vs) (rev [0..<k]) s)"
  using assms(1,4,5)
proof (induction k arbitrary: s)
  case (Suc k)
  then have "div_inv vs A n m k (div_digit vs k s)" by (intro div_digit_inv assms(2,3)) auto
  then show ?case using Suc by simp
qed simp

subsection \<open>Quotient and remainder\<close>

lemma sig_len_props:
  assumes "n \<le> length a"
  shows "sig_len a n \<le> n \<and> (0 < n \<longrightarrow> 0 < sig_len a n) \<and> bval (take (sig_len a n) a) = bval (take n a) \<and>
    (1 < sig_len a n \<longrightarrow> a ! (sig_len a n - 1) \<noteq> 0)"
  using assms
proof (induction n)
  case (Suc n)
  then show ?case by (auto simp: take_Suc_conv_app_nth bval_append)
qed simp

lemma top_word:
  assumes "0 < k" "k \<le> length a"
  shows "bval (take k a) = bval (take (k - 1) a) + 2 ^ (64 * (k - 1)) * unat (a ! (k - 1))"
    "bval (take (k - 1) a) < 2 ^ (64 * (k - 1))"
  using assms take_Suc_conv_app_nth [of "k - 1" a] bval_less [of "take (k - 1) a"] by (simp_all add: bval_append)

lemma bval_snoc_0: "bval (xs @ [0]) = bval xs"
  by (simp add: bval_append)

lemma udivmod_long:
  assumes "length b = length a" "sig_len b (length a) = blen" "sig_len a (length a) = alen" "1 < blen" "blen \<le> alen"
  shows "\<exists>q r. udivmod a b = Some (q, r) \<and> length q = length a \<and> length r = length a \<and>
    bval q = bval a div bval b \<and> bval r = bval a mod bval b"
proof -
  define n m where "n = length a" and "m = alen - blen"
  have A: "alen \<le> n" "bval (take alen a) = bval a" using sig_len_props [of n a] assms(3) by (auto simp: n_def)
  have B: "blen \<le> n" "bval (take blen b) = bval b" "b ! (blen - 1) \<noteq> 0"
    using sig_len_props [of n b] assms(1,2,4) by (auto simp: n_def)
  obtain s where s: "norm_shift (b ! (blen - 1)) 0 = Some s" "s < 64" "unat (b ! (blen - 1)) * 2 ^ s < 2 ^ 64"
    using norm_shift_ok [OF B(3), of 0] by auto
  let ?t = "unat (b ! (blen - 1))" and ?P = "2 ^ (64 * (blen - 1)) :: nat"
  define v where "v = take blen (shl_carry s 0 (take blen b))"
  define u where "u = shl_carry s 0 (take alen a) @ replicate (n - alen) 0"
  have bt: "bval b < ?P * Suc ?t" "?P * ?t \<le> bval b"
    using top_word [of blen b] assms(1,4) B(1,2) by (simp_all add: n_def algebra_simps)
  have e: "2 ^ 64 = 2 ^ s * (2 ^ (64 - s) :: nat)" using s(2) by (simp flip: power_add)
  have "?t < 2 ^ (64 - s)" using s(3) unfolding e by (simp add: mult.commute)
  then have "2 ^ s * Suc ?t \<le> 2 ^ s * 2 ^ (64 - s)" by (intro mult_le_mono2) simp
  then have st: "2 ^ s * Suc ?t \<le> 2 ^ 64" using s(2) by (simp flip: power_add)
  have "2 ^ s * bval b < 2 ^ s * (?P * Suc ?t)" using bt(1) by simp
  also have "\<dots> = ?P * (2 ^ s * Suc ?t)" by (simp only: mult.left_commute)
  also have "\<dots> \<le> ?P * 2 ^ 64" using st by (rule mult_le_mono2)
  also have "\<dots> = 2 ^ (64 * blen)"
  proof -
    have "64 * blen = 64 * (blen - 1) + 64" using assms(4) by (cases blen) auto
    then show ?thesis by (simp only: power_add)
  qed
  finally have vlt: "2 ^ s * bval b < 2 ^ (64 * blen)" .
  have vl: "length v = blen" using B(1) assms(1) by (simp add: v_def n_def)
  have vv: "bval v = 2 ^ s * bval b" using vlt s(2) B(2) by (simp add: v_def bval_take shl_carry_val)
  have ul: "length u = Suc n" using A(1) by (simp add: u_def n_def)
  have uv: "bval u = 2 ^ s * bval a" using s(2) A(2) by (simp add: u_def bval_append shl_carry_val)
  have tpos: "0 < ?t" using B(3) by (simp add: unat_gt_0)
  have "?P * 2 ^ s * 1 \<le> ?P * 2 ^ s * ?t" using tpos by (intro mult_le_mono2) simp
  also have "\<dots> = 2 ^ s * (?P * ?t)" by (simp only: mult.assoc mult.left_commute)
  also have "\<dots> \<le> bval v" unfolding vv using bt(2) by (rule mult_le_mono2)
  finally have vge: "?P * 2 ^ s \<le> bval v" by simp
  have vne: "v \<noteq> []" using vl assms(4) by auto
  have "last v \<noteq> 0"
  proof
    assume "last v = 0"
    then have "v = butlast v @ [0]" using append_butlast_last_id [OF vne] by simp
    from arg_cong [OF this, of bval] have "bval v = bval (butlast v)" by (simp only: bval_snoc_0)
    also have "\<dots> < ?P" using bval_less [of "butlast v"] vl by simp
    also have "\<dots> \<le> ?P * 2 ^ s" by simp
    finally show False using vge by simp
  qed
  have "2 ^ s * bval a < 2 ^ s * 2 ^ (64 * alen)" using bval_less [of "take alen a"] A by (simp add: n_def)
  also have "(2 :: nat) ^ (64 * alen) = ?P * 2 ^ (64 * Suc m)"
  proof -
    have "64 * alen = 64 * (blen - 1) + 64 * Suc m" using assms(4,5) by (cases blen) (auto simp: m_def)
    then show ?thesis by (simp only: power_add)
  qed
  finally have "bval u < (?P * 2 ^ s) * 2 ^ (64 * Suc m)" unfolding uv by (simp only: mult.assoc mult.left_commute)
  then have "bval (drop (Suc m) u) < ?P * 2 ^ s" unfolding bval_drop by (rule less_mult_imp_div_less)
  then have "div_inv v (2 ^ s * bval a) (Suc n) (Suc m) (Suc m) (u, [])"
    using vge ul uv by (simp add: div_inv_def)
  then have "div_inv v (2 ^ s * bval a) (Suc n) (Suc m) 0 (fold (div_digit v) (rev [0..<Suc m]) (u, []))"
    using vne \<open>last v \<noteq> 0\<close> A(1) assms(5) vl by (intro div_digits_inv) (auto simp: m_def)
  moreover obtain u1 qs where f: "fold (div_digit v) (rev [0..<Suc m]) (u, []) = (u1, qs)" by fastforce
  ultimately have inv: "length u1 = Suc n" "length qs = Suc m" "bval u1 + bval v * bval qs = 2 ^ s * bval a" "bval u1 < bval v"
    by (simp_all add: div_inv_def)
  have q: "bval qs = bval a div bval b"
  proof -
    have "bval qs = (2 ^ s * bval a) div bval v" using inv(4) by (simp flip: inv(3))
    then show ?thesis by (simp add: vv)
  qed
  have r: "bval u1 = 2 ^ s * (bval a mod bval b)"
  proof -
    have "bval u1 = (2 ^ s * bval a) mod bval v" using inv(4) by (simp flip: inv(3))
    then show ?thesis by (simp only: vv mult_mod_right)
  qed
  have u1: "bval u1 < 2 ^ (64 * blen)" using inv(4) vlt vv by simp
  also have "(2 :: nat) ^ (64 * blen) \<le> 2 ^ (64 * (blen + 1))" by (intro power_increasing) auto
  finally have "bval (take (blen + 1) u1) = bval u1" by (simp add: bval_take)
  moreover have "bval a mod bval b \<le> bval u1" unfolding r by simp
  then have "bval a mod bval b < 2 ^ (64 * blen)" using u1 by simp
  ultimately have rv: "bval (shr_words s (take (blen + 1) u1)) = bval a mod bval b"
    using s(2) inv(1) B(1) by (simp add: shr_words_val r)
  have "udivmod a b = Some (qs @ replicate (n - length qs) 0, shr_words s (take (blen + 1) u1) @ replicate (n - blen) 0)"
    using assms(2-5) s(1) f by (simp add: udivmod_def Let_def n_def [symmetric] m_def [symmetric] u_def [symmetric] v_def [symmetric] del: upt_Suc)
  then show ?thesis
    using inv(1,2) A(1) B(1) assms(4,5) q rv by (simp add: n_def [symmetric] bval_append m_def)
qed

lemma udivmod_ok:
  assumes "length b = length a" "0 < length a" "bval b \<noteq> 0"
  shows "\<exists>q r. udivmod a b = Some (q, r) \<and> length q = length a \<and> length r = length a \<and>
    bval q = bval a div bval b \<and> bval r = bval a mod bval b"
proof -
  define blen alen where "blen = sig_len b (length a)" and "alen = sig_len a (length a)"
  have B: "0 < blen" "blen \<le> length a" "bval (take blen b) = bval b" "1 < blen \<Longrightarrow> b ! (blen - 1) \<noteq> 0"
    using sig_len_props [of "length a" b] assms(1,2) by (auto simp: blen_def)
  have A: "alen \<le> length a" "bval (take alen a) = bval a"
    using sig_len_props [of "length a" a] by (auto simp: alen_def)
  consider "blen = 1" | "1 < blen" "alen < blen" | "1 < blen" "blen \<le> alen" using B(1) by linarith
  then show ?thesis
  proof cases
    case 1
    have d: "bval b = unat (b ! 0)" using top_word(1) [of 1 b] B(2,3) assms(1,2) 1 by simp
    then have "b ! 0 \<noteq> 0" using assms(3) by auto
    moreover obtain q r where q: "div_small (b ! 0) a = (q, r)" by fastforce
    ultimately have "length q = length a" "bval q = bval a div bval b" "unat r = bval a mod bval b"
      using div_small_val [of "b ! 0" a] d by auto
    moreover have "udivmod a b = Some (q, r # replicate (length a - 1) 0)"
      using \<open>b ! 0 \<noteq> 0\<close> q 1 by (simp add: udivmod_def Let_def blen_def)
    ultimately show ?thesis using assms(2) by auto
  next
    case 2
    have "bval a < 2 ^ (64 * alen)" using bval_less [of "take alen a"] A by simp
    also have "\<dots> \<le> 2 ^ (64 * (blen - 1))" using 2(2) by (intro power_increasing) auto
    also have "\<dots> \<le> 2 ^ (64 * (blen - 1)) * unat (b ! (blen - 1))" using B(4) [OF 2(1)] by (simp add: Suc_le_eq unat_gt_0)
    also have "\<dots> \<le> bval b" using top_word(1) [of blen b] B(1-3) assms(1) by simp
    finally have "bval a < bval b" .
    moreover have "udivmod a b = Some (replicate (length a) 0, a)"
      using 2 by (simp add: udivmod_def Let_def blen_def alen_def)
    ultimately show ?thesis by simp
  next
    case 3
    then show ?thesis using udivmod_long [OF assms(1)] by (simp add: blen_def alen_def)
  qed
qed

lemma udivmod_zero:
  assumes "length b = length a" "0 < length a" "bval b = 0"
  shows "udivmod a b = None"
proof -
  have z: "b ! k = 0" if "k < length b" for k using assms(3) that by (simp add: bval_zero_iff)
  have p: "sig_len b (length a) \<le> length b" "0 < sig_len b (length a)"
    "1 < sig_len b (length a) \<Longrightarrow> b ! (sig_len b (length a) - 1) \<noteq> 0"
    using sig_len_props [of "length a" b] assms(1,2) by auto
  have "\<not> 1 < sig_len b (length a)"
  proof
    assume "1 < sig_len b (length a)"
    moreover from this have "sig_len b (length a) - 1 < length b" using p(1) by linarith
    ultimately show False using p(3) z by blast
  qed
  with p(2)
  have "sig_len b (length a) = 1" by linarith
  then show ?thesis using z [of 0] assms(1,2) by (simp add: udivmod_def)
qed

subsection \<open>Signed division\<close>

lemma dims_pos: "dims a width \<Longrightarrow> 0 < length a" "dims a width \<Longrightarrow> 0 < width" "dims a width \<Longrightarrow> width \<le> 64 * length a"
  by (auto simp: dims_def)

lemma magnitude_ok:
  assumes "dims a width"
  shows "fst (magnitude a width) = (ival width a < 0)" "length (snd (magnitude a width)) = length a"
    "int (bval (snd (magnitude a width))) = \<bar>ival width a\<bar>"
proof -
  let ?ua = "sign_extend_top a width" and ?N = "2 ^ (64 * length a) :: int"
  note neg = sign_extend_top_neg [OF assms] and b = ival_small [OF assms]
  show "fst (magnitude a width) = (ival width a < 0)" by (simp add: magnitude_def Let_def neg)
  show "length (snd (magnitude a width)) = length a" by (simp add: magnitude_def Let_def)
  show "int (bval (snd (magnitude a width))) = \<bar>ival width a\<bar>"
  proof (cases "ival width a < 0")
    case True
    have "int (bval (negate ?ua)) = (- ival width a - ?N) mod ?N"
      using True by (simp add: negate_int sign_extend_top_int [OF assms])
    also have "\<dots> = - ival width a mod ?N" by simp
    also have "\<dots> = - ival width a" using True b by (intro mod_pos_pos_trivial) auto
    finally show ?thesis using True by (simp add: magnitude_def Let_def neg)
  next
    case False
    then show ?thesis by (simp add: magnitude_def Let_def neg sign_extend_top_int [OF assms])
  qed
qed

lemma negate_if_int:
  "int (bval (if n then negate a else a)) = (if n then - int (bval a) else int (bval a)) mod 2 ^ (64 * length a)"
  using bval_less [of a] by (simp add: negate_int)

lemma signed_divmod_ok:
  assumes "dims a width" "length b = length a" "ival width b \<noteq> 0"
  shows "\<exists>q. cccc_bitint_sdiv a b width = Some q \<and> int (bval q) = (ival width a sdiv ival width b) mod 2 ^ width"
    "\<exists>r. cccc_bitint_smod a b width = Some r \<and> int (bval r) = (ival width a smod ival width b) mod 2 ^ width"
proof -
  let ?x = "ival width a" and ?y = "ival width b"
  note db = dims_length [OF assms(1,2)]
  obtain na ua nb ub where m: "magnitude a width = (na, ua)" "magnitude b width = (nb, ub)" by fastforce
  have A: "na = (?x < 0)" "length ua = length a" "int (bval ua) = \<bar>?x\<bar>" using magnitude_ok [OF assms(1)] m by auto
  have B: "nb = (?y < 0)" "length ub = length a" "int (bval ub) = \<bar>?y\<bar>" using magnitude_ok [OF db] m assms(2) by auto
  have "bval ub \<noteq> 0" using B(3) assms(3) by auto
  then obtain q r where u: "udivmod ua ub = Some (q, r)" "length q = length a" "length r = length a"
    "bval q = bval ua div bval ub" "bval r = bval ua mod bval ub"
    using udivmod_ok [of ub ua] A(2) B(2) dims_pos(1) [OF assms(1)] by auto
  have q: "int (bval q) = \<bar>?x\<bar> div \<bar>?y\<bar>" "int (bval r) = \<bar>?x\<bar> mod \<bar>?y\<bar>"
    using A(3) B(3) by (simp_all add: u zdiv_int zmod_int)
  have sd: "(if na \<noteq> nb then - int (bval q) else int (bval q)) = ?x sdiv ?y"
    using assms(3) by (auto simp: q signed_divide_int_def A(1) B(1) sgn_if)
  have sm: "(if na then - int (bval r) else int (bval r)) = ?x smod ?y"
    by (auto simp: q signed_modulo_int_def A(1) sgn_if)
  have "int (bval (cccc_bitint_trunc (if na \<noteq> nb then negate q else q) width)) = (?x sdiv ?y) mod 2 ^ width"
    by (rule trunc_int [OF assms(1)]) (simp_all only: negate_if_int sd u(2) if_distrib [of length] negate_length if_cancel)
  then show "\<exists>q. cccc_bitint_sdiv a b width = Some q \<and> int (bval q) = (?x sdiv ?y) mod 2 ^ width"
    by (simp add: cccc_bitint_sdiv_def m u(1))
  have "int (bval (cccc_bitint_trunc (if na then negate r else r) width)) = (?x smod ?y) mod 2 ^ width"
    by (rule trunc_int [OF assms(1)]) (simp_all only: negate_if_int sm u(3) if_distrib [of length] negate_length if_cancel)
  then show "\<exists>r. cccc_bitint_smod a b width = Some r \<and> int (bval r) = (?x smod ?y) mod 2 ^ width"
    by (simp add: cccc_bitint_smod_def m u(1))
qed

subsection \<open>Properties\<close>

text \<open>
  C4: Unsigned division of wide integers: for every pair of word arrays of the same
  length the algorithm ends, traps exactly when the divisor is zero, and otherwise returns the
  integer quotient and remainder. Covers the one-word divisor, the numerator shorter than the
  divisor, and Knuth's loop with its estimate and refinement.
\<close>

theorem bitint_udivmod_exact:
  assumes "length b = length a" "0 < length a"
  shows "if bval b = 0 then udivmod a b = None
    else \<exists>q r. udivmod a b = Some (q, r) \<and> length q = length a \<and> length r = length a \<and>
      bval q = bval a div bval b \<and> bval r = bval a mod bval b"
  using udivmod_ok [OF assms] udivmod_zero [OF assms] by simp

theorem bitint_udivmod_exact_witness:
  "\<exists>q r. udivmod [7, 0, 1] [3, 1, 0] = Some (q, r) \<and> bval q = (7 + 2 ^ 128) div (3 + 2 ^ 64) \<and>
     bval r = (7 + 2 ^ 128) mod (3 + 2 ^ 64)"
proof -
  have v: "bval [3, 1, 0] = 3 + 2 ^ 64" "bval [7, 0, 1] = 7 + 2 ^ 128" by simp_all
  have "(3 + 2 ^ 64 :: nat) \<noteq> 0" by simp
  then show ?thesis using bitint_udivmod_exact [of "[3, 1, 0]" "[7, 0, 1]"] unfolding v by (simp only: if_False) auto
qed

text \<open>
  C20: Signed division and remainder of wide integers truncate towards zero, on the
  values of the operands' low \<open>width\<close> bits read as two's complement; the result of the one overflowing
  division wraps.
\<close>

theorem bitint_sdivmod_exact:
  assumes "dims a width" "length b = length a" "ival width b \<noteq> 0"
  shows "\<exists>q r. cccc_bitint_sdiv a b width = Some q \<and> cccc_bitint_smod a b width = Some r \<and>
    int (bval q) = (ival width a sdiv ival width b) mod 2 ^ width \<and>
    int (bval r) = (ival width a smod ival width b) mod 2 ^ width"
  using signed_divmod_ok [OF assms] by blast

theorem bitint_sdivmod_exact_witness:
  "ival 65 [- 7, 1] = - 7 \<and>
   (\<exists>q r. cccc_bitint_sdiv [- 7, 1] [2, 0] 65 = Some q \<and> cccc_bitint_smod [- 7, 1] [2, 0] 65 = Some r \<and>
     int (bval q) = - 3 mod 2 ^ 65 \<and> int (bval r) = - 1 mod 2 ^ 65)"
proof -
  have v: "ival 65 [- 7, 1] = - 7" "ival 65 [2, 0] = 2" by (simp_all add: ival_def signed_take_bit_eq_take_bit_shift take_bit_eq_mod)
  have d: "dims [- 7, 1] 65" by (simp add: dims_def)
  have "- 7 sdiv 2 = (- 3 :: int)" "- 7 smod 2 = (- 1 :: int)" by (simp_all add: signed_divide_int_def signed_modulo_int_def)
  then show ?thesis using bitint_sdivmod_exact [OF d, of "[2, 0]"] unfolding v by simp
qed

end
