(* ===== verification/Bitint_Ops.thy ===== *)
theory Bitint_Ops
  imports Bitint
begin

text \<open>
  Shifts, comparison, conversions and literals of wide integers
  (\<open>src/src/stdlib/wide_bitint/runtime.c\<close>). The conversions to and from \<open>double\<close> are not modelled.
\<close>

subsection \<open>Shifts\<close>

definition shl_at :: "words \<Rightarrow> nat \<Rightarrow> nat \<Rightarrow> nat \<Rightarrow> u64" where
  "shl_at a word_sh bit_sh i =
     (if i < word_sh then 0
      else push_bit bit_sh (a ! (i - word_sh)) OR
        (if bit_sh \<noteq> 0 \<and> 1 \<le> i - word_sh then drop_bit (64 - bit_sh) (a ! (i - word_sh - 1)) else 0))"

definition cccc_bitint_shl :: "words \<Rightarrow> int \<Rightarrow> nat \<Rightarrow> words" where
  "cccc_bitint_shl a shift width =
     (if shift < 0 \<or> int width \<le> shift then replicate (length a) 0
      else cccc_bitint_trunc (map (shl_at a (nat shift div 64) (nat shift mod 64)) [0..<length a]) width)"

definition ushr_at :: "words \<Rightarrow> nat \<Rightarrow> nat \<Rightarrow> nat \<Rightarrow> u64" where
  "ushr_at a word_sh bit_sh i =
     (if i < length a - word_sh
      then drop_bit bit_sh (a ! (i + word_sh)) OR
        (if bit_sh \<noteq> 0 \<and> i + word_sh + 1 < length a then push_bit (64 - bit_sh) (a ! (i + word_sh + 1)) else 0)
      else 0)"

definition cccc_bitint_ushr :: "words \<Rightarrow> int \<Rightarrow> nat \<Rightarrow> words" where
  "cccc_bitint_ushr a shift width =
     (if shift < 0 \<or> int width \<le> shift then replicate (length a) 0
      else map (ushr_at a (nat shift div 64) (nat shift mod 64)) [0..<length a])"

definition set_bit_at :: "nat \<Rightarrow> words \<Rightarrow> words" where
  "set_bit_at b dst = dst[b div 64 := dst ! (b div 64) OR push_bit (b mod 64) 1]"

text \<open>\<open>(int)shift\<close> keeps the low 32 bits.\<close>

definition cccc_bitint_sshr :: "words \<Rightarrow> int \<Rightarrow> nat \<Rightarrow> words" where
  "cccc_bitint_sshr a shift width =
     (let dst = cccc_bitint_ushr a shift width;
          tmp = sign_extend_top a width;
          effective = (if int width \<le> shift then int width - 1 else signed_take_bit 31 shift);
          ones = min effective (int width)
      in cccc_bitint_trunc
           (if is_negative tmp width then fold set_bit_at [nat (int width - ones)..<width] dst else dst) width)"

subsection \<open>Comparison\<close>

text \<open>From the most significant word down: the results for the first word that is smaller or larger.\<close>

fun cmp_down :: "int \<Rightarrow> int \<Rightarrow> words \<Rightarrow> words \<Rightarrow> int" where
  "cmp_down lt gt (x # xs) (y # ys) = (if x < y then lt else if x > y then gt else cmp_down lt gt xs ys)"
| "cmp_down lt gt _ _ = 0"

definition cccc_bitint_cmp :: "words \<Rightarrow> words \<Rightarrow> nat \<Rightarrow> bool \<Rightarrow> int" where
  "cccc_bitint_cmp a b width is_signed =
     (if is_signed
      then let sa = sign_extend_top a width; sb = sign_extend_top b width;
               neg_a = is_negative sa width; neg_b = is_negative sb width
           in if neg_a \<noteq> neg_b then if neg_a then - 1 else 1
              else cmp_down (if neg_a then 1 else - 1) (if neg_a then - 1 else 1) (rev sa) (rev sb)
      else let m = top_word_mask width;
               aw = a ! (length a - 1) AND m; bw = b ! (length b - 1) AND m
           in if aw \<noteq> bw then if aw < bw then - 1 else 1
              else cmp_down (- 1) 1 (rev (butlast a)) (rev (butlast b)))"

subsection \<open>Conversions\<close>

definition cccc_bitint_from_i64 :: "u64 \<Rightarrow> nat \<Rightarrow> nat \<Rightarrow> words" where
  "cccc_bitint_from_i64 v n width =
     cccc_bitint_trunc (v # replicate (n - 1) (if sint v < 0 then NOT 0 else 0)) width"

definition cccc_bitint_from_u64 :: "u64 \<Rightarrow> nat \<Rightarrow> nat \<Rightarrow> words" where
  "cccc_bitint_from_u64 v n width = cccc_bitint_trunc (v # replicate (n - 1) 0) width"

definition cccc_bitint_to_i64 :: "words \<Rightarrow> u64" where
  "cccc_bitint_to_i64 a = a ! 0"

definition cccc_bitint_extend :: "words \<Rightarrow> nat \<Rightarrow> nat \<Rightarrow> nat \<Rightarrow> bool \<Rightarrow> words" where
  "cccc_bitint_extend src width_src words_dst width_dst is_signed_src =
     (let copy = take (min (length src) words_dst) src
      in cccc_bitint_trunc
           (if words_dst > length src
            then let ext = (if is_signed_src then sign_extend_top copy width_src else copy);
                     fill = (if is_signed_src \<and> is_negative ext width_src then NOT 0 else 0)
                 in ext @ replicate (words_dst - length src) fill
            else copy) width_dst)"

subsection \<open>Literals\<close>

definition digit_of :: "u8 \<Rightarrow> nat option" where
  "digit_of c =
     (let c = unat c
      in if 48 \<le> c \<and> c \<le> 57 then Some (c - 48)
         else if 97 \<le> c \<and> c \<le> 102 then Some (c - 97 + 10)
         else if 65 \<le> c \<and> c \<le> 70 then Some (c - 65 + 10)
         else None)"

fun mul_small :: "u64 \<Rightarrow> u64 \<Rightarrow> words \<Rightarrow> words" where
  "mul_small base carry [] = []"
| "mul_small base carry (d # ds) =
     (let p = wide d * wide base + wide carry in lo64 p # mul_small base (hi64 p) ds)"

text \<open>The loop over the NUL-terminated digits; it also stops at a digit separator (39).\<close>

fun from_digits :: "nat \<Rightarrow> u8 list \<Rightarrow> words \<Rightarrow> words" where
  "from_digits base [] dst = dst"
| "from_digits base (c # cs) dst =
     (if c = 0 \<or> c = 39 then dst
      else case digit_of c of
             None \<Rightarrow> dst
           | Some d \<Rightarrow> if base \<le> d then dst else from_digits base cs (mul_small (of_nat base) (of_nat d) dst))"

definition cccc_bitint_from_str :: "u8 list \<Rightarrow> nat \<Rightarrow> nat \<Rightarrow> nat \<Rightarrow> words" where
  "cccc_bitint_from_str str base n width = cccc_bitint_trunc (from_digits base str (replicate n 0)) width"

subsection \<open>The shifts on bits\<close>

lemma bit_word_bound: "bit (w :: u64) k \<Longrightarrow> k < 64"
  using bit_imp_le_length [of w k] by simp

lemma bval_bit_at: "j < 64 \<Longrightarrow> bit (bval a) (64 * i + j) \<longleftrightarrow> i < length a \<and> bit (a ! i) j"
  unfolding bval_bit by auto

lemma shl_bits:
  assumes "length a = n" "k < 64 * n"
  shows "bit (shl_at a (s div 64) (s mod 64) (k div 64)) (k mod 64) \<longleftrightarrow> s \<le> k \<and> bit (bval a) (k - s)"
proof -
  define W b i j where "W = s div 64" and "b = s mod 64" and "i = k div 64" and "j = k mod 64"
  have s: "s = 64 * W + b" "b < 64" and k: "k = 64 * i + j" "j < 64" by (simp_all add: W_def b_def i_def j_def)
  have i: "i < n" using assms(2) k by simp
  consider (low) "i < W" | (here) "W \<le> i" "b \<le> j" | (prev) "W < i" "j < b" | (none) "i = W" "j < b" by linarith
  then have "bit (shl_at a W b i) j \<longleftrightarrow> s \<le> k \<and> bit (bval a) (k - s)"
  proof cases
    case low
    then have "\<not> s \<le> k" using s k by simp
    then show ?thesis using low by (simp add: shl_at_def)
  next
    case here
    then have d: "k - s = 64 * (i - W) + (j - b)" "s \<le> k" using s k by auto
    have z: "\<not> bit (drop_bit (64 - b) w) j" if "b \<noteq> 0" for w :: u64
      using here(2) s(2) bit_word_bound [of w "64 - b + j"] by (auto simp: bit_drop_bit_eq)
    have "bit (shl_at a W b i) j \<longleftrightarrow> bit (a ! (i - W)) (j - b)"
      using here k(2) z by (auto simp: shl_at_def bit_or_iff bit_push_bit_iff)
    then show ?thesis using d i k(2) assms(1) unfolding d(1) bval_bit by auto
  next
    case prev
    then have d: "k - s = 64 * (i - W - 1) + (64 - b + j)" "s \<le> k" "64 - b + j < 64" "1 \<le> i - W" "b \<noteq> 0" using s k by auto
    have "bit (shl_at a W b i) j \<longleftrightarrow> bit (a ! (i - W - 1)) (64 - b + j)"
      using prev d(4,5) by (simp add: shl_at_def bit_or_iff bit_push_bit_iff bit_drop_bit_eq)
    then show ?thesis using d i assms(1) unfolding d(1) bval_bit by auto
  next
    case none
    then have "\<not> s \<le> k" using s k by simp
    then show ?thesis using none by (simp add: shl_at_def bit_or_iff bit_push_bit_iff)
  qed
  then show ?thesis by (simp add: W_def b_def i_def j_def)
qed

lemma shl_val:
  assumes "dims a width" "0 \<le> shift" "shift < int width"
  shows "bval (cccc_bitint_shl a shift width) = (2 ^ nat shift * bval a) mod 2 ^ width"
proof -
  have "bval (cccc_bitint_trunc (map (shl_at a (nat shift div 64) (nat shift mod 64)) [0..<length a]) width) =
      push_bit (nat shift) (bval a) mod 2 ^ width"
    by (rule trunc_bits [OF assms(1)])
      (use shl_bits [of a "length a" _ "nat shift"] in \<open>simp_all add: bit_push_bit_iff less_mult_imp_div_less mult.commute\<close>)
  then show ?thesis using assms by (simp add: cccc_bitint_shl_def push_bit_eq_mult mult.commute)
qed

lemma ushr_bits:
  assumes "length a = n" "k < 64 * n"
  shows "bit (ushr_at a (s div 64) (s mod 64) (k div 64)) (k mod 64) \<longleftrightarrow> bit (bval a) (s + k)"
proof -
  define W b i j where "W = s div 64" and "b = s mod 64" and "i = k div 64" and "j = k mod 64"
  have s: "s = 64 * W + b" "b < 64" and k: "k = 64 * i + j" "j < 64" by (simp_all add: W_def b_def i_def j_def)
  have i: "i < n" using assms(2) k by simp
  consider (out) "n - W \<le> i" | (here) "i < n - W" "b + j < 64" | (nxt) "i < n - W" "64 \<le> b + j" by linarith
  then have "bit (ushr_at a W b i) j \<longleftrightarrow> bit (bval a) (s + k)"
  proof cases
    case out
    then have "\<not> s + k < 64 * n" using s k by auto
    then show ?thesis using out assms(1) by (simp add: ushr_at_def bval_bit)
  next
    case here
    then have d: "s + k = 64 * (i + W) + (b + j)" using s k by simp
    have "bit (ushr_at a W b i) j \<longleftrightarrow> bit (a ! (i + W)) (b + j)"
      using here assms(1) by (auto simp: ushr_at_def bit_or_iff bit_push_bit_iff bit_drop_bit_eq)
    then show ?thesis using here(1) assms(1) unfolding d bval_bit_at [OF here(2)] by auto
  next
    case nxt
    then have d: "s + k = 64 * (i + W + 1) + (b + j - 64)" "b + j - 64 < 64" "b \<noteq> 0" "64 - b \<le> j" "j - (64 - b) = b + j - 64"
      using s k by auto
    have z: "\<not> bit w (b + j)" for w :: u64 using nxt(2) bit_word_bound [of w "b + j"] by auto
    have "bit (ushr_at a W b i) j \<longleftrightarrow> i + W + 1 < n \<and> bit (a ! (i + W + 1)) (b + j - 64)"
      using nxt d(3-5) k(2) assms(1) z by (auto simp: ushr_at_def bit_or_iff bit_push_bit_iff bit_drop_bit_eq)
    then show ?thesis using assms(1) unfolding d(1) bval_bit_at [OF d(2)] by auto
  qed
  then show ?thesis by (simp add: W_def b_def i_def j_def)
qed

lemma ushr_val:
  assumes "dims a width" "0 \<le> shift" "shift < int width"
  shows "bval (cccc_bitint_ushr a shift width) = bval a div 2 ^ nat shift"
proof -
  let ?r = "map (ushr_at a (nat shift div 64) (nat shift mod 64)) [0..<length a]"
  have "bval ?r = drop_bit (nat shift) (bval a)"
  proof (rule bval_eqI)
    fix k
    show "bit (bval ?r) k \<longleftrightarrow> bit (drop_bit (nat shift) (bval a)) k"
    proof (cases "k < 64 * length a")
      case True
      then show ?thesis using ushr_bits [OF refl True, of "nat shift"]
        unfolding bval_bit [of ?r] by (simp add: bit_drop_bit_eq less_mult_imp_div_less mult.commute)
    next
      case False
      then show ?thesis by (simp add: bval_bit bit_drop_bit_eq)
    qed
  qed
  then show ?thesis using assms by (simp add: cccc_bitint_ushr_def drop_bit_eq_div)
qed

lemma set_bit_at_length [simp]: "length (set_bit_at b dst) = length dst"
  by (simp add: set_bit_at_def)

lemma set_bit_at_bit:
  assumes "b < 64 * length dst"
  shows "bit (bval (set_bit_at b dst)) k \<longleftrightarrow> bit (bval dst) k \<or> k = b"
proof -
  define i j i' j' where "i = k div 64" and "j = k mod 64" and "i' = b div 64" and "j' = b mod 64"
  have k: "k = 64 * i + j" "j < 64" and b: "b = 64 * i' + j'" "j' < 64" by (simp_all add: i_def j_def i'_def j'_def)
  have l: "i' < length dst" using assms b by simp
  have eq: "k = b \<longleftrightarrow> i = i' \<and> j = j'" by (auto simp: i_def j_def i'_def j'_def) (metis mult_div_mod_eq)
  define w where "w = (push_bit j' 1 :: u64)"
  have w: "bit w j \<longleftrightarrow> j = j'" using k(2) by (auto simp: w_def bit_simps simp del: push_bit_of_1)
  have "bit (bval (set_bit_at b dst)) k \<longleftrightarrow> i < length dst \<and> bit (dst[i' := dst ! i' OR w] ! i) j"
    unfolding k(1) bval_bit_at [OF k(2)] by (simp add: set_bit_at_def i'_def j'_def w_def)
  then show ?thesis unfolding eq unfolding k(1) bval_bit_at [OF k(2)] using l w by (auto simp: nth_list_update bit_or_iff)
qed

lemma set_bits_bit:
  assumes "u \<le> 64 * length dst"
  shows "length (fold set_bit_at [l..<u] dst) = length dst \<and>
    (bit (bval (fold set_bit_at [l..<u] dst)) k \<longleftrightarrow> bit (bval dst) k \<or> l \<le> k \<and> k < u)"
  using assms
proof (induction u)
  case (Suc u)
  then show ?case
    using set_bit_at_bit [of u "fold set_bit_at [l..<u] dst" k] by (cases "l \<le> u") auto
qed simp

lemma sshr_val:
  assumes "dims a width" "bval a < 2 ^ width" "0 \<le> shift" "shift < int width" "width < 2 ^ 31"
  shows "int (bval (cccc_bitint_sshr a shift width)) = (ival width a div 2 ^ nat shift) mod 2 ^ width"
proof -
  let ?d = "cccc_bitint_ushr a shift width" and ?s = "nat shift"
  have w: "0 < width" "width \<le> 64 * length a" using assms(1) by (auto simp: dims_def)
  have len: "length ?d = length a" by (simp add: cccc_bitint_ushr_def)
  have "signed_take_bit 31 shift = shift" using assms(3-5) by (intro signed_take_bit_int_eq_self) auto
  then have e: "nat (int width - min (if int width \<le> shift then int width - 1 else signed_take_bit 31 shift) (int width)) = width - ?s"
    using assms(3,4) by (simp add: nat_diff_distrib')
  have d: "dims (sign_extend_top a width) width" using assms(1) by (simp add: dims_def)
  have neg: "is_negative (sign_extend_top a width) width \<longleftrightarrow> ival width a < 0"
    using is_negative_bit [OF d] sign_extend_top_bit [OF assms(1), of "width - 1"] w by (simp add: ival_neg)
  define r where "r = (if ival width a < 0 then fold set_bit_at [width - ?s..<width] ?d else ?d)"
  have sh: "cccc_bitint_sshr a shift width = cccc_bitint_trunc r width"
    by (simp only: cccc_bitint_sshr_def Let_def e neg r_def)
  have rl: "length r = length a" using set_bits_bit [of width ?d "width - ?s"] w len by (simp add: r_def)
  have rb: "bit (bval r) k \<longleftrightarrow> bit (bval ?d) k \<or> ival width a < 0 \<and> width - ?s \<le> k \<and> k < width" for k
    using set_bits_bit [of width ?d "width - ?s" k] w len by (simp add: r_def)
  show ?thesis
  proof (rule bit_eqI)
    fix k
    have "bit (bval ?d) k \<longleftrightarrow> bit (bval a) (?s + k)"
      unfolding ushr_val [OF assms(1,3,4)] by (simp add: bit_drop_bit_eq flip: drop_bit_eq_div)
    moreover have "bit (bval a) i \<Longrightarrow> i < width" for i
      using assms(2) by (metis bit_take_bit_iff take_bit_nat_eq_self)
    ultimately have "bit (bval (cccc_bitint_sshr a shift width)) k \<longleftrightarrow>
        k < width \<and> (bit (bval a) (?s + k) \<or> ival width a < 0 \<and> width - ?s \<le> k)"
      unfolding sh bit_trunc [OF dims_length [OF assms(1) rl]] rb by auto
    also have "\<dots> \<longleftrightarrow> k < width \<and> bit (bval a) (min (?s + k) (width - 1))"
    proof (cases "?s + k < width")
      case True
      then show ?thesis by (auto simp: min_def)
    next
      case False
      then have "\<not> bit (bval a) (?s + k)" "min (?s + k) (width - 1) = width - 1" "width - ?s \<le> k"
        using \<open>\<And>i. bit (bval a) i \<Longrightarrow> i < width\<close> by auto
      then show ?thesis by (simp add: ival_neg)
    qed
    also have "\<dots> \<longleftrightarrow> bit ((ival width a div 2 ^ ?s) mod 2 ^ width) k"
      by (simp add: ival_def bit_take_bit_iff bit_drop_bit_eq bit_signed_take_bit_iff int_bit_bval min.commute
          flip: take_bit_eq_mod drop_bit_eq_div)
    finally show "bit (int (bval (cccc_bitint_sshr a shift width))) k \<longleftrightarrow> bit ((ival width a div 2 ^ ?s) mod 2 ^ width) k"
      by (simp only: int_bit_bval)
  qed
qed

subsection \<open>Comparison of values\<close>

lemma lex_less:
  fixes x y N X Y :: nat
  assumes "x < N" "y < N"
  shows "x + N * X < y + N * Y \<longleftrightarrow> X < Y \<or> X = Y \<and> x < y"
proof -
  have lt: "x + N * X < y + N * Y" if "X < Y" "x < N" for x y X Y
  proof -
    have "x + N * X < N * Suc X" using that(2) by simp
    also have "\<dots> \<le> N * Y" using that(1) by (intro mult_le_mono2) simp
    finally show ?thesis by simp
  qed
  consider "X < Y" | "X = Y" | "Y < X" by linarith
  then show ?thesis
  proof cases
    case 1
    then show ?thesis using lt [OF 1 assms(1), of y] by simp
  next
    case 3
    then show ?thesis using lt [OF 3 assms(2), of x] by simp
  qed simp
qed

lemma cmp_down_val:
  "length xs = length ys \<Longrightarrow>
     cmp_down lt gt (rev xs) (rev ys) = (if bval xs < bval ys then lt else if bval ys < bval xs then gt else 0)"
proof (induction xs arbitrary: ys rule: rev_induct)
  case (snoc x xs)
  obtain zs y where ys: "ys = zs @ [y]" "length xs = length zs"
    using snoc.prems by (cases ys rule: rev_cases) auto
  have b: "bval xs < 2 ^ (64 * length xs)" "bval zs < 2 ^ (64 * length xs)"
    using bval_less [of xs] bval_less [of zs] ys(2) by simp_all
  show ?case
    using snoc.IH [OF ys(2)] lex_less [OF b(1,2), of "unat x" "unat y"] lex_less [OF b(2,1), of "unat y" "unat x"] ys
    by (auto simp: bval_append word_less_nat_alt dest: unsigned_word_eqI)
qed simp

lemma cmp_unsigned_val:
  assumes "dims a width" "length b = length a"
  shows "cccc_bitint_cmp a b width False = sgn (int (bval a mod 2 ^ width) - int (bval b mod 2 ^ width))"
proof -
  note db = dims_length [OF assms]
  have ne: "a \<noteq> []" "b \<noteq> []" using assms by (auto simp: dims_def)
  have t: "cccc_bitint_trunc c width = butlast c @ [c ! (length c - 1) AND top_word_mask width]" if "c \<noteq> []" for c
    using that by (cases c rule: rev_cases) (simp_all add: cccc_bitint_trunc_def)
  have "cccc_bitint_cmp a b width False = cmp_down (- 1) 1 (rev (cccc_bitint_trunc a width)) (rev (cccc_bitint_trunc b width))"
    using t [OF ne(1)] t [OF ne(2)] by (auto simp: cccc_bitint_cmp_def Let_def)
  then show ?thesis
    using cmp_down_val [of "cccc_bitint_trunc a width" "cccc_bitint_trunc b width" "- 1" 1] assms(2)
    by (simp add: cccc_bitint_trunc_val [OF assms(1)] cccc_bitint_trunc_val [OF db] sgn_if)
qed

lemma cmp_signed_val:
  assumes "dims a width" "length b = length a"
  shows "cccc_bitint_cmp a b width True =
    (if ival width a < 0 \<and> ival width b < 0 then sgn (ival width b - ival width a) else sgn (ival width a - ival width b))"
proof -
  note db = dims_length [OF assms]
  let ?sa = "sign_extend_top a width" and ?sb = "sign_extend_top b width"
  have "length ?sa = length ?sb" using assms(2) by simp
  note cd = cmp_down_val [OF this]
  have le: "bval ?sa < bval ?sb \<longleftrightarrow> int (bval ?sa) < int (bval ?sb)" "bval ?sb < bval ?sa \<longleftrightarrow> int (bval ?sb) < int (bval ?sa)" by simp_all
  note v = sign_extend_top_int [OF assms(1)] sign_extend_top_int [OF db, unfolded assms(2)]
  show ?thesis
    unfolding cccc_bitint_cmp_def Let_def if_True sign_extend_top_neg [OF assms(1)] sign_extend_top_neg [OF db] cd le v
    by (cases "ival width a < 0"; cases "ival width b < 0") (simp_all add: sgn_if)
qed

subsection \<open>Values of the conversions\<close>

lemma bval_ones: "int (bval (replicate k (NOT 0))) = 2 ^ (64 * k) - 1"
proof (induction k)
  case (Suc k)
  then show ?case using unat_not64 [of 0] by (simp add: power_add)
qed simp

lemma extend_val:
  assumes "dims src width_src" "0 < width_dst" "n = (width_dst + 63) div 64"
  shows "int (bval (cccc_bitint_extend src width_src n width_dst sgd)) =
    (if sgd \<and> length src < n then ival width_src src else int (bval src)) mod 2 ^ width_dst"
proof (cases "length src < n")
  case True
  define ext fill where "ext = (if sgd then sign_extend_top src width_src else src)"
    and "fill = (if sgd \<and> is_negative ext width_src then NOT 0 else 0 :: u64)"
  define r where "r = ext @ replicate (n - length src) fill"
  have e: "cccc_bitint_extend src width_src n width_dst sgd = cccc_bitint_trunc r width_dst"
    using True by (simp add: cccc_bitint_extend_def Let_def r_def ext_def fill_def)
  have rl: "dims r width_dst" "length ext = length src" "length r = n" using assms(2,3) True by (auto simp: dims_def r_def ext_def)
  let ?M = "2 ^ (64 * length src) :: int"
  have p: "?M * 2 ^ (64 * (n - length src)) = 2 ^ (64 * n)" using True by (simp flip: power_add)
  have "int (bval r) = (if sgd then ival width_src src else int (bval src)) mod 2 ^ (64 * length r)"
  proof (cases sgd)
    case False
    have "int (bval src) < 2 ^ (64 * n)" "0 \<le> int (bval src)"
    proof -
      have "int (bval src) < ?M" using bval_less [of src] by (metis of_nat_less_iff of_nat_numeral of_nat_power)
      also have "?M \<le> 2 ^ (64 * n)" using True by (intro power_increasing) auto
      finally show "int (bval src) < 2 ^ (64 * n)" .
    qed simp
    then show ?thesis using False rl(3) by (simp add: r_def ext_def fill_def bval_append)
  next
    case s: True
    note b = ival_small [OF assms(1)]
    have neg: "is_negative ext width_src \<longleftrightarrow> ival width_src src < 0"
      using sign_extend_top_neg [OF assms(1)] s by (simp add: ext_def)
    have x: "int (bval ext) = (if ival width_src src < 0 then ival width_src src + ?M else ival width_src src)"
      using sign_extend_top_int [OF assms(1)] s by (simp add: ext_def)
    have NM: "?M \<le> 2 ^ (64 * n)" using True by (intro power_increasing) auto
    show ?thesis
    proof (cases "ival width_src src < 0")
      case True
      have "int (bval r) = ival width_src src + ?M + ?M * (2 ^ (64 * (n - length src)) - 1)"
        using s True neg by (simp add: r_def fill_def bval_append bval_ones [simplified] rl(2) x)
      also have "\<dots> = ival width_src src + 2 ^ (64 * n)" unfolding p [symmetric] by (simp add: algebra_simps)
      also have "\<dots> = (ival width_src src + 2 ^ (64 * n)) mod 2 ^ (64 * n)" using True b NM by (intro mod_pos_pos_trivial [symmetric]) linarith+
      finally show ?thesis using s rl(3) by simp
    next
      case False
      have "int (bval r) = ival width_src src" using s False neg by (simp add: r_def fill_def bval_append x)
      also have "\<dots> = ival width_src src mod 2 ^ (64 * n)" using False b NM by (intro mod_pos_pos_trivial [symmetric]) linarith+
      finally show ?thesis using s rl(3) by simp
    qed
  qed
  then show ?thesis unfolding e using trunc_int [OF rl(1) refl] True by (simp add: mod_width_int)
next
  case False
  then have l: "length (take n src) = n" by simp
  then have d: "dims (take n src) width_dst" using assms(2,3) by (simp add: dims_def)
  have "cccc_bitint_extend src width_src n width_dst sgd = cccc_bitint_trunc (take n src) width_dst"
    using False by (simp add: cccc_bitint_extend_def Let_def min_def)
  moreover have "int (bval (take n src)) = int (bval src) mod 2 ^ (64 * length (take n src))" unfolding l by (simp add: bval_take zmod_int)
  ultimately show ?thesis using trunc_int [OF d refl] False by simp
qed

lemma from_i64_val:
  assumes "0 < width" "n = (width + 63) div 64"
  shows "int (bval (cccc_bitint_from_i64 v n width)) = sint v mod 2 ^ width"
    "bval (cccc_bitint_from_u64 v n width) = unat v mod 2 ^ width"
proof -
  have n: "0 < n" "64 + 64 * (n - 1) = 64 * n" using assms by auto
  let ?r = "v # replicate (n - 1) (if sint v < 0 then NOT 0 else 0)"
  have d: "dims ?r width" "length ?r = n" "dims (v # replicate (n - 1) 0) width" using assms n by (auto simp: dims_def)
  have p: "2 ^ 64 * 2 ^ (64 * (n - 1)) = (2 ^ (64 * n) :: int)" using n(2) by (metis power_add)
  have le: "(2 :: int) ^ 64 \<le> 2 ^ (64 * n)" using n(1) by (intro power_increasing) auto
  have u: "uint v = (if sint v < 0 then sint v + 2 ^ 64 else sint v)"
    using mod_neg_small [of "2 ^ 64" "sint v"] sint64_bounds [of v] uint_sint_nonneg [of v]
    by (cases "sint v < 0") (auto simp: uint_sint take_bit_eq_mod)
  have "int (bval ?r) = sint v mod 2 ^ (64 * n)"
  proof (cases "sint v < 0")
    case True
    have "int (bval ?r) = sint v + 2 ^ 64 + 2 ^ 64 * (2 ^ (64 * (n - 1)) - 1)"
      using True u by (simp add: bval_ones [simplified])
    also have "\<dots> = sint v + 2 ^ (64 * n)" unfolding right_diff_distrib p by simp
    finally show ?thesis using mod_neg_small [of "2 ^ (64 * n)" "sint v"] True sint64_bounds [of v] le by simp
  next
    case False
    have "sint v < 2 ^ (64 * n)" using sint64_bounds(2) [of v] le by simp
    then show ?thesis using False u by simp
  qed
  then show "int (bval (cccc_bitint_from_i64 v n width)) = sint v mod 2 ^ width"
    unfolding cccc_bitint_from_i64_def by (intro trunc_int [OF d(1) refl]) (simp only: d(2))
  show "bval (cccc_bitint_from_u64 v n width) = unat v mod 2 ^ width"
    unfolding cccc_bitint_from_u64_def cccc_bitint_trunc_val [OF d(3)] by simp
qed

lemma to_i64_val: "a \<noteq> [] \<Longrightarrow> unat (cccc_bitint_to_i64 a) = bval a mod 2 ^ 64"
  using unat64(1) [of "hd a"] by (cases a) (simp_all add: cccc_bitint_to_i64_def)

lemma i64_roundtrip:
  assumes "64 < width" "n = (width + 63) div 64"
  shows "cccc_bitint_to_i64 (cccc_bitint_from_i64 v n width) = v"
proof -
  let ?a = "cccc_bitint_from_i64 v n width"
  have "length ?a = Suc (n - 1)" by (simp add: cccc_bitint_from_i64_def)
  then have "?a \<noteq> []" by auto
  then have "uint (cccc_bitint_to_i64 ?a) = int (bval ?a) mod 2 ^ 64"
    using arg_cong [OF to_i64_val [of ?a], of int] by (simp add: zmod_int)
  also have "\<dots> = sint v mod 2 ^ width mod 2 ^ 64" using from_i64_val(1) [OF _ assms(2)] assms(1) by simp
  also have "\<dots> = sint v mod 2 ^ 64"
  proof (rule mod_mod_cancel)
    show "(2 :: int) ^ 64 dvd 2 ^ width" using assms(1) by (intro le_imp_power_dvd) simp
  qed
  also have "\<dots> = uint v" by (simp add: uint_sint take_bit_eq_mod)
  finally show ?thesis by (rule unsigned_word_eqI)
qed

subsection \<open>Values of literals\<close>

lemma mul_small_length [simp]: "length (mul_small base c ds) = length ds"
  by (induction ds arbitrary: c) (simp_all add: Let_def)

lemma mul_small_val: "bval (mul_small base c ds) = (bval ds * unat base + unat c) mod 2 ^ (64 * length ds)"
proof (induction ds arbitrary: c)
  case (Cons d ds)
  define p where "p = wide d * wide base + wide c"
  have p: "unat d * unat base + unat c = unat (lo64 p) + 2 ^ 64 * unat (hi64 p)"
    using lo_hi [of p] unat_muladd [of d base 0 c] by (simp add: p_def wide_def)
  have "bval (d # ds) * unat base + unat c = unat (lo64 p) + 2 ^ 64 * (bval ds * unat base + unat (hi64 p))"
    using p by (simp add: algebra_simps)
  moreover have "bval (mul_small base c (d # ds)) = unat (lo64 p) + 2 ^ 64 * bval (mul_small base (hi64 p) ds)"
    by (simp add: Let_def p_def)
  ultimately show ?case unfolding Cons.IH by (simp only: mod_shift [OF unat64(1)] length_Cons mult_Suc_right)
qed simp

text \<open>The number a digit string denotes, up to the first character that is not a digit of the base.\<close>

fun digits_val :: "nat \<Rightarrow> nat \<Rightarrow> u8 list \<Rightarrow> nat" where
  "digits_val base acc [] = acc"
| "digits_val base acc (c # cs) =
     (case digit_of c of Some d \<Rightarrow> if d < base then digits_val base (acc * base + d) cs else acc | None \<Rightarrow> acc)"

lemma digits_val_mod: "digits_val base (acc mod M) cs mod M = digits_val base acc cs mod M"
proof (induction cs arbitrary: acc)
  case (Cons c cs)
  have "digits_val base (acc mod M * base + d) cs mod M = digits_val base (acc * base + d) cs mod M" for d
  proof -
    have "(acc mod M * base + d) mod M = (acc * base + d) mod M" by (metis mod_add_left_eq mod_mult_left_eq)
    then show ?thesis using Cons [of "acc mod M * base + d"] Cons [of "acc * base + d"] by simp
  qed
  then show ?case by (simp split: option.split)
qed simp

lemma digit_of_stop: "digit_of 0 = None" "digit_of 39 = None"
  by (simp_all add: digit_of_def)

lemma from_digits_val:
  assumes "base \<le> 16"
  shows "length (from_digits base cs dst) = length dst \<and>
    bval (from_digits base cs dst) = digits_val base (bval dst) cs mod 2 ^ (64 * length dst)"
proof (induction cs arbitrary: dst)
  case Nil
  then show ?case using bval_less [of dst] by simp
next
  case (Cons c cs)
  show ?case
  proof (cases "\<exists>d. digit_of c = Some d \<and> d < base")
    case True
    then obtain d where d: "digit_of c = Some d" "d < base" by blast
    then have "c \<noteq> 0" "c \<noteq> 39" using digit_of_stop by (metis option.distinct(1))+
    moreover have "unat (of_nat base :: u64) = base" "unat (of_nat d :: u64) = d"
      using assms d(2) by (simp_all add: unat_of_nat)
    ultimately show ?thesis
      using d Cons [of "mul_small (of_nat base) (of_nat d) dst"] by (simp add: mul_small_val digits_val_mod)
  next
    case False
    then show ?thesis using bval_less [of dst] by (auto split: option.split)
  qed
qed

lemma from_str_val:
  assumes "base \<le> 16" "0 < width" "n = (width + 63) div 64"
  shows "bval (cccc_bitint_from_str cs base n width) = digits_val base 0 cs mod 2 ^ width"
proof -
  let ?r = "from_digits base cs (replicate n 0)"
  have r: "length ?r = n" "bval ?r = digits_val base 0 cs mod 2 ^ (64 * n)"
    using from_digits_val [OF assms(1), of cs "replicate n 0"] by simp_all
  then have d: "dims ?r width" using assms(2,3) by (simp add: dims_def)
  show ?thesis
    unfolding cccc_bitint_from_str_def cccc_bitint_trunc_val [OF d] r(2) by (simp add: mod_width [OF d, unfolded r(1)])
qed

subsection \<open>Properties\<close>

text \<open>
  C34: For a shift count inside the width, the left shift multiplies by the power of two
  modulo \<open>2 ^ width\<close>, the logical right shift divides the unsigned value, and the arithmetic right
  shift divides the signed value, rounding down.
\<close>

theorem bitint_shifts:
  assumes "dims a width" "bval a < 2 ^ width" "0 \<le> shift" "shift < int width" "width < 2 ^ 31"
  shows "bval (cccc_bitint_shl a shift width) = (2 ^ nat shift * bval a) mod 2 ^ width \<and>
    bval (cccc_bitint_ushr a shift width) = bval a div 2 ^ nat shift \<and>
    int (bval (cccc_bitint_sshr a shift width)) = (ival width a div 2 ^ nat shift) mod 2 ^ width"
  using shl_val [OF assms(1,3,4)] ushr_val [OF assms(1,3,4)] sshr_val [OF assms] by blast

theorem bitint_shifts_witness:
  "dims [6, 1] 65 \<and> int (bval (cccc_bitint_sshr [6, 1] 1 65)) = (ival 65 [6, 1] div 2) mod 2 ^ 65"
  using bitint_shifts [of "[6, 1]" 65 1] by (simp add: dims_def)

text \<open>
  C35: What the comparison computes. Unsigned: the sign of the difference of the bits
  below the width. Signed: the sign of the difference of the two's complement values, except when
  both are negative, where it is the opposite sign. Sign-extended two's complement already orders
  negative numbers upwards, so the inversion in that branch makes \<open>-2 < -1\<close> false.
\<close>

theorem bitint_cmp_exact:
  assumes "dims a width" "length b = length a"
  shows "cccc_bitint_cmp a b width sgd =
    (if \<not> sgd then sgn (int (bval a mod 2 ^ width) - int (bval b mod 2 ^ width))
     else if ival width a < 0 \<and> ival width b < 0 then sgn (ival width b - ival width a)
     else sgn (ival width a - ival width b))"
  using cmp_unsigned_val [OF assms] cmp_signed_val [OF assms] by (cases sgd) simp_all

theorem bitint_cmp_exact_witness:
  "ival 65 [0xFFFFFFFFFFFFFFFE, 1] = - 2 \<and> ival 65 [0xFFFFFFFFFFFFFFFF, 1] = - 1 \<and>
   cccc_bitint_cmp [0xFFFFFFFFFFFFFFFE, 1] [0xFFFFFFFFFFFFFFFF, 1] 65 True = 1"
proof -
  have v: "ival 65 [0xFFFFFFFFFFFFFFFE, 1] = - 2" "ival 65 [0xFFFFFFFFFFFFFFFF, 1] = - 1"
    by (simp_all add: ival_def signed_take_bit_eq_take_bit_shift take_bit_eq_mod)
  then show ?thesis
    using bitint_cmp_exact [of "[0xFFFFFFFFFFFFFFFE, 1]" 65 "[0xFFFFFFFFFFFFFFFF, 1]" True] by (simp add: dims_def)
qed

text \<open>
  C36: What the conversion between wide types computes: the value modulo the new
  width, with a signed source read as two's complement only when the destination has more words. A
  signed conversion that grows the width within the same number of words does not extend the sign.
\<close>

theorem bitint_extend_exact:
  assumes "dims src width_src" "0 < width_dst" "n = (width_dst + 63) div 64"
  shows "int (bval (cccc_bitint_extend src width_src n width_dst sgd)) =
    (if sgd \<and> length src < n then ival width_src src else int (bval src)) mod 2 ^ width_dst"
  by (rule extend_val [OF assms])

theorem bitint_extend_exact_witness:
  "ival 70 [0xFFFFFFFFFFFFFFFF, 0x3F] = - 1 \<and>
   int (bval (cccc_bitint_extend [0xFFFFFFFFFFFFFFFF, 0x3F] 70 2 100 True)) = 2 ^ 70 - 1"
proof -
  have "ival 70 [0xFFFFFFFFFFFFFFFF, 0x3F] = - 1"
    by (simp add: ival_def signed_take_bit_eq_take_bit_shift take_bit_eq_mod)
  moreover have d: "dims [0xFFFFFFFFFFFFFFFF, 0x3F] 70" by (simp add: dims_def)
  moreover have "bval [0xFFFFFFFFFFFFFFFF, 0x3F] = 2 ^ 70 - 1" by simp
  ultimately show ?thesis using bitint_extend_exact [OF d, of 100 2 True] by (simp only: list.size) simp
qed

text \<open>
  C37: A 64-bit integer converted to a type wider than 64 bits and back is unchanged,
  and in between it denotes the same number modulo \<open>2 ^ width\<close>.
\<close>

theorem bitint_i64_roundtrip:
  assumes "64 < width" "n = (width + 63) div 64"
  shows "cccc_bitint_to_i64 (cccc_bitint_from_i64 v n width) = v \<and>
    int (bval (cccc_bitint_from_i64 v n width)) = sint v mod 2 ^ width"
  using i64_roundtrip [OF assms] from_i64_val(1) [OF _ assms(2)] assms(1) by simp

theorem bitint_i64_roundtrip_witness:
  "cccc_bitint_to_i64 (cccc_bitint_from_i64 (- 5) 2 100) = - 5"
  using bitint_i64_roundtrip [of 100 2 "- 5"] by simp

text \<open>
  C38: A literal denotes its digits in the given base modulo \<open>2 ^ width\<close>, up to the
  first character that is not a digit of the base; a digit separator is such a character.
\<close>

theorem bitint_from_str_exact:
  assumes "base \<le> 16" "0 < width" "n = (width + 63) div 64"
  shows "bval (cccc_bitint_from_str cs base n width) = digits_val base 0 cs mod 2 ^ width"
  by (rule from_str_val [OF assms])

theorem bitint_from_str_exact_witness:
  "bval (cccc_bitint_from_str [49, 50, 39, 51, 0] 10 2 100) = 12"
  using bitint_from_str_exact [of 10 100 2 "[49, 50, 39, 51, 0]"] by (simp add: digit_of_def)

end
