(* ===== verification/Bitint_Field.thy ===== *)
theory Bitint_Field
  imports Bitint_Ops
begin

text \<open>
  Bit-fields of wide integer type (\<open>__cccc_bitfield_extract\<close> and \<open>__cccc_bitfield_insert\<close> of
  \<open>src/src/stdlib/wide_bitint/runtime.c\<close>): a field occupies \<open>width\<close> bits from bit \<open>off\<close> of the object and is
  read and written a byte at a time. The object is a function from byte offsets to bytes.
\<close>

definition take_bits :: "nat \<Rightarrow> nat \<Rightarrow> nat" where
  "take_bits cur_shift bits_left = min (8 - cur_shift) bits_left"

definition or_chunk :: "nat \<Rightarrow> nat \<Rightarrow> u64 \<Rightarrow> words \<Rightarrow> words" where
  "or_chunk dst_bit tk chunk dst =
     (let w = dst_bit div 64; b = dst_bit mod 64;
          dst1 = dst[w := dst ! w OR push_bit b chunk]
      in if b + tk > 64 then dst1[w + 1 := dst1 ! (w + 1) OR drop_bit (tk - (b + tk - 64)) chunk] else dst1)"

definition read_chunk :: "(nat \<Rightarrow> u8) \<Rightarrow> nat \<Rightarrow> nat \<Rightarrow> nat \<Rightarrow> u64" where
  "read_chunk base byte cur_shift tk = drop_bit cur_shift (ucast (base byte)) AND (push_bit tk 1 - 1)"

function extract_loop :: "(nat \<Rightarrow> u8) \<Rightarrow> nat \<Rightarrow> nat \<Rightarrow> nat \<Rightarrow> nat \<Rightarrow> words \<Rightarrow> words" where
  "extract_loop base byte cur_shift bits_left dst_bit dst =
     (if bits_left = 0 then dst
      else let tk = take_bits cur_shift bits_left
           in extract_loop base (byte + 1) 0 (bits_left - tk) (dst_bit + tk)
                (or_chunk dst_bit tk (read_chunk base byte cur_shift tk) dst))"
  by pat_completeness auto
termination
  by (relation "measure (\<lambda>(base, byte, cs, bl, db, dst). bl + (if cs = 0 then 0 else 1))")
    (auto simp: take_bits_def)

definition cccc_bitfield_extract :: "(nat \<Rightarrow> u8) \<Rightarrow> nat \<Rightarrow> nat \<Rightarrow> nat \<Rightarrow> bool \<Rightarrow> words" where
  "cccc_bitfield_extract base off width n is_signed =
     (let dst = extract_loop base (off div 8) (off mod 8) width 0 (replicate n 0)
      in if is_signed
         then let cw = (width + 63) div 64;
                  ext = sign_extend_top (take cw dst) width;
                  fill = (if ext ! (cw - 1) AND push_bit 63 1 \<noteq> 0 then NOT 0 else 0)
              in ext @ replicate (n - cw) fill
         else dst)"

definition write_chunk :: "words \<Rightarrow> nat \<Rightarrow> nat \<Rightarrow> u32" where
  "write_chunk src src_bit tk =
     (let w = src_bit div 64; b = src_bit mod 64;
          chunk = drop_bit b (src ! w) OR (if b + tk > 64 then push_bit (tk - (b + tk - 64)) (src ! (w + 1)) else 0)
      in ucast (chunk AND (push_bit tk 1 - 1)))"

definition put_chunk :: "nat \<Rightarrow> nat \<Rightarrow> u32 \<Rightarrow> u8 \<Rightarrow> u8" where
  "put_chunk cur_shift tk v x =
     (let m = push_bit cur_shift (push_bit tk 1 - 1) in ucast ((ucast x AND NOT m) OR push_bit cur_shift v))"

function insert_loop :: "words \<Rightarrow> nat \<Rightarrow> nat \<Rightarrow> nat \<Rightarrow> nat \<Rightarrow> (nat \<Rightarrow> u8) \<Rightarrow> nat \<Rightarrow> u8" where
  "insert_loop src byte cur_shift bits_left src_bit base =
     (if bits_left = 0 then base
      else let tk = take_bits cur_shift bits_left
           in insert_loop src (byte + 1) 0 (bits_left - tk) (src_bit + tk)
                (base(byte := put_chunk cur_shift tk (write_chunk src src_bit tk) (base byte))))"
  by pat_completeness auto
termination
  by (relation "measure (\<lambda>(src, byte, cs, bl, sb, base). bl + (if cs = 0 then 0 else 1))")
    (auto simp: take_bits_def)

definition cccc_bitfield_insert :: "(nat \<Rightarrow> u8) \<Rightarrow> words \<Rightarrow> nat \<Rightarrow> nat \<Rightarrow> nat \<Rightarrow> u8" where
  "cccc_bitfield_insert base src off width = insert_loop src (off div 8) (off mod 8) width 0 base"

declare extract_loop.simps [simp del] insert_loop.simps [simp del]

subsection \<open>The bits of the object\<close>

definition mem_bit :: "(nat \<Rightarrow> u8) \<Rightarrow> nat \<Rightarrow> bool" where
  "mem_bit base p \<longleftrightarrow> bit (base (p div 8)) (p mod 8)"

lemma mem_bit_at: "j < 8 \<Longrightarrow> mem_bit base (8 * i + j) \<longleftrightarrow> bit (base i) j"
  by (simp add: mem_bit_def)

lemma push_minus_1_mask: "push_bit tk 1 - 1 = (mask tk :: 'a::len word)"
  by (simp add: mask_eq_exp_minus_1 push_bit_eq_mult)

lemma read_chunk_bit:
  assumes "cs < 8" "tk \<le> 8 - cs"
  shows "bit (read_chunk base byte cs tk) t \<longleftrightarrow> t < tk \<and> mem_bit base (8 * byte + cs + t)"
proof (cases "t < tk")
  case True
  then have "cs + t < 8" using assms by simp
  then show ?thesis
    using True mem_bit_at [of "cs + t" base byte] unfolding read_chunk_def push_minus_1_mask
    by (simp add: bit_and_iff bit_mask_iff bit_drop_bit_eq bit_ucast_iff add.assoc)
qed (simp only: read_chunk_def push_minus_1_mask bit_and_iff bit_mask_iff simp_thms)

lemma or_chunk_length [simp]: "length (or_chunk db tk c dst) = length dst"
  by (simp add: or_chunk_def Let_def)

lemma or_chunk_bit:
  assumes "\<And>t. bit c t \<Longrightarrow> t < tk" "tk \<le> 8" "0 < tk" "db + tk \<le> 64 * length dst"
  shows "bit (bval (or_chunk db tk c dst)) k \<longleftrightarrow> bit (bval dst) k \<or> db \<le> k \<and> bit c (k - db)"
proof -
  define i j i' j' where "i = k div 64" and "j = k mod 64" and "i' = db div 64" and "j' = db mod 64"
  have k: "k = 64 * i + j" "j < 64" and d: "db = 64 * i' + j'" "j' < 64" by (simp_all add: i_def j_def i'_def j'_def)
  have l: "i' < length dst" "j' + tk > 64 \<Longrightarrow> i' + 1 < length dst" using assms(3,4) d by auto
  have lhs: "bit (bval (or_chunk db tk c dst)) k \<longleftrightarrow> i < length dst \<and> bit (or_chunk db tk c dst ! i) j"
    unfolding k(1) bval_bit_at [OF k(2)] by simp
  have rhs: "bit (bval dst) k \<longleftrightarrow> i < length dst \<and> bit (dst ! i) j" unfolding k(1) bval_bit_at [OF k(2)] ..
  have oc: "or_chunk db tk c dst = (let dst1 = dst[i' := dst ! i' OR push_bit j' c]
      in if j' + tk > 64 then dst1[i' + 1 := dst1 ! (i' + 1) OR drop_bit (tk - (j' + tk - 64)) c] else dst1)"
    by (simp add: or_chunk_def Let_def i'_def j'_def)
  consider "i = i'" | "i = i' + 1" | "i < i'" | "i' + 1 < i" by linarith
  then show ?thesis
  proof cases
    case 1
    then have "bit (or_chunk db tk c dst ! i) j \<longleftrightarrow> bit (dst ! i) j \<or> j' \<le> j \<and> bit c (j - j')"
      unfolding oc using l k(2) by (auto simp: Let_def bit_or_iff bit_push_bit_iff)
    moreover have "db \<le> k \<longleftrightarrow> j' \<le> j" "k - db = j - j'" using 1 k d by auto
    ultimately show ?thesis using 1 l(1) lhs rhs by simp
  next
    case 2
    have e: "k - db = 64 + j - j'" "db \<le> k" using 2 k d by auto
    show ?thesis
    proof (cases "j' + tk > 64")
      case True
      have "tk - (j' + tk - 64) + j = 64 + j - j'" using True assms(2) d(2) by auto
      then have "bit (or_chunk db tk c dst ! i) j \<longleftrightarrow> bit (dst ! i) j \<or> bit c (64 + j - j')"
        unfolding oc using l True 2 by (simp add: Let_def bit_or_iff bit_drop_bit_eq)
      then show ?thesis using 2 l(2) True lhs rhs e by simp
    next
      case False
      then have "\<not> bit c (64 + j - j')" using assms(1) [of "64 + j - j'"] d(2) by linarith
      then show ?thesis using False 2 lhs rhs e unfolding oc by (simp add: Let_def)
    qed
  next
    case 3
    then have "\<not> db \<le> k" using k d by simp
    then show ?thesis using 3 lhs rhs unfolding oc by (auto simp: Let_def)
  next
    case 4
    then have "\<not> bit c (k - db)" using assms(1) [of "k - db"] assms(2) k d by linarith
    then show ?thesis using 4 lhs rhs unfolding oc by (auto simp: Let_def)
  qed
qed

lemma extract_loop_bit:
  assumes "cs < 8" "db + bl \<le> 64 * length dst"
  shows "length (extract_loop base byte cs bl db dst) = length dst \<and>
    (bit (bval (extract_loop base byte cs bl db dst)) k \<longleftrightarrow>
       bit (bval dst) k \<or> db \<le> k \<and> k < db + bl \<and> mem_bit base (8 * byte + cs + (k - db)))"
  using assms
proof (induction base byte cs bl db dst rule: extract_loop.induct)
  case (1 base byte cs bl db dst)
  show ?case
  proof (cases "bl = 0")
    case True
    then show ?thesis by (auto simp: extract_loop.simps)
  next
    case False
    define tk where "tk = take_bits cs bl"
    have tk: "0 < tk" "tk \<le> bl" "tk \<le> 8 - cs" "tk < bl \<Longrightarrow> tk = 8 - cs" using False 1(2) by (auto simp: tk_def take_bits_def)
    let ?c = "read_chunk base byte cs tk"
    have c: "bit ?c t \<longleftrightarrow> t < tk \<and> mem_bit base (8 * byte + cs + t)" for t by (rule read_chunk_bit [OF 1(2) tk(3)])
    have oc: "bit (bval (or_chunk db tk ?c dst)) k \<longleftrightarrow> bit (bval dst) k \<or> db \<le> k \<and> bit ?c (k - db)"
      using c tk 1(3) by (intro or_chunk_bit) auto
    have step: "extract_loop base byte cs bl db dst = extract_loop base (byte + 1) 0 (bl - tk) (db + tk) (or_chunk db tk ?c dst)"
      using False by (subst extract_loop.simps) (simp add: Let_def tk_def)
    have ih: "length (extract_loop base byte cs bl db dst) = length dst \<and>
      (bit (bval (extract_loop base byte cs bl db dst)) k \<longleftrightarrow> bit (bval (or_chunk db tk ?c dst)) k \<or>
         db + tk \<le> k \<and> k < db + tk + (bl - tk) \<and> mem_bit base (8 * (byte + 1) + 0 + (k - (db + tk))))"
      unfolding step using "1.IH" [OF False tk_def] 1(3) tk by simp
    have "8 * (byte + 1) + 0 + (k - (db + tk)) = 8 * byte + cs + (k - db)" if "db + tk \<le> k" "k < db + bl"
      using that tk 1(2) by auto
    then show ?thesis using ih tk by (auto simp: oc c)
  qed
qed

lemma write_chunk_bit:
  assumes "tk \<le> 8" "0 < tk" "sb + tk \<le> 64 * length src"
  shows "bit (write_chunk src sb tk) t \<longleftrightarrow> t < tk \<and> bit (bval src) (sb + t)"
proof (cases "t < tk")
  case True
  define i j where "i = sb div 64" and "j = sb mod 64"
  have s: "sb = 64 * i + j" "j < 64" by (simp_all add: i_def j_def)
  define c where "c = drop_bit j (src ! i) OR (if j + tk > 64 then push_bit (tk - (j + tk - 64)) (src ! (i + 1)) else 0)"
  have "bit (write_chunk src sb tk) t \<longleftrightarrow> bit c t"
    using True assms(1) unfolding write_chunk_def Let_def push_minus_1_mask i_def [symmetric] j_def [symmetric] c_def [symmetric]
    by (simp add: bit_ucast_iff bit_and_iff bit_mask_iff)
  also have "\<dots> \<longleftrightarrow> bit (bval src) (sb + t)"
  proof (cases "j + t < 64")
    case lt: True
    have "j + tk > 64 \<Longrightarrow> t < tk - (j + tk - 64)" using lt s(2) by linarith
    then have "bit c t \<longleftrightarrow> bit (src ! i) (j + t)" by (auto simp: c_def bit_or_iff bit_push_bit_iff bit_drop_bit_eq)
    moreover have "sb + t = 64 * i + (j + t)" "i < length src" using s assms(3) True by simp_all
    ultimately show ?thesis using bval_bit_at [OF lt, of src i] by (simp only: simp_thms)
  next
    case False
    have o: "j + tk > 64" "tk - (j + tk - 64) = 64 - j" "64 - j \<le> t" using False True s(2) by linarith+
    have e: "sb + t = 64 * (i + 1) + (t - (64 - j))" "t - (64 - j) < 64" "i + 1 < length src"
      using s assms True False o by simp_all
    have "\<not> bit (src ! i) (j + t)" using False bit_word_bound [of "src ! i" "j + t"] by auto
    then have "bit c t \<longleftrightarrow> bit (src ! (i + 1)) (t - (64 - j))"
      using o True assms(1) by (simp add: c_def bit_or_iff bit_push_bit_iff bit_drop_bit_eq)
    then show ?thesis using bval_bit_at [OF e(2), of src "i + 1"] e(3) unfolding e(1) by simp
  qed
  finally show ?thesis using True by simp
next
  case False
  then show ?thesis unfolding write_chunk_def Let_def push_minus_1_mask by (simp only: bit_ucast_iff bit_and_iff bit_mask_iff simp_thms)
qed

lemma put_chunk_bit:
  assumes "tk \<le> 8 - cs" "cs < 8" "\<And>t. bit v t \<Longrightarrow> t < tk" "j < 8"
  shows "bit (put_chunk cs tk v x) j \<longleftrightarrow> (if cs \<le> j \<and> j < cs + tk then bit v (j - cs) else bit x j)"
proof -
  have "\<not> bit v (j - cs)" if "\<not> j < cs + tk" using assms(3) [of "j - cs"] that by linarith
  then show ?thesis using assms(1,2,4) unfolding put_chunk_def Let_def push_minus_1_mask
    by (auto simp: bit_ucast_iff bit_or_iff bit_and_iff bit_not_iff bit_push_bit_iff bit_mask_iff)
qed

lemma insert_loop_bit:
  assumes "cs < 8" "sb + bl \<le> 64 * length src"
  shows "mem_bit (insert_loop src byte cs bl sb base) p \<longleftrightarrow>
    (if 8 * byte + cs \<le> p \<and> p < 8 * byte + cs + bl then bit (bval src) (sb + (p - (8 * byte + cs))) else mem_bit base p)"
  using assms
proof (induction src byte cs bl sb base rule: insert_loop.induct)
  case (1 src byte cs bl sb base)
  show ?case
  proof (cases "bl = 0")
    case True
    then show ?thesis by (auto simp: insert_loop.simps)
  next
    case False
    define tk where "tk = take_bits cs bl"
    have tk: "0 < tk" "tk \<le> bl" "tk \<le> 8 - cs" "tk < bl \<Longrightarrow> tk = 8 - cs" "tk \<le> 8" using False 1(2) by (auto simp: tk_def take_bits_def)
    let ?v = "write_chunk src sb tk"
    define base' where "base' = base(byte := put_chunk cs tk ?v (base byte))"
    have v: "bit ?v t \<longleftrightarrow> t < tk \<and> bit (bval src) (sb + t)" for t using tk 1(3) by (intro write_chunk_bit) auto
    have m: "mem_bit base' p \<longleftrightarrow>
      (if 8 * byte + cs \<le> p \<and> p < 8 * byte + cs + tk then bit (bval src) (sb + (p - (8 * byte + cs))) else mem_bit base p)"
    proof -
      define i j where "i = p div 8" and "j = p mod 8"
      have p: "p = 8 * i + j" "j < 8" by (simp_all add: i_def j_def)
      show ?thesis
      proof (cases "i = byte")
        case True
        have "mem_bit base' p \<longleftrightarrow> (if cs \<le> j \<and> j < cs + tk then bit ?v (j - cs) else bit (base byte) j)"
          unfolding p(1) mem_bit_at [OF p(2)] using put_chunk_bit [OF tk(3) 1(2) _ p(2), of ?v] v True by (simp add: base'_def)
        moreover have "8 * byte + cs \<le> p \<longleftrightarrow> cs \<le> j" "p < 8 * byte + cs + tk \<longleftrightarrow> j < cs + tk" "p - (8 * byte + cs) = j - cs"
          using p True by auto
        moreover have "mem_bit base p \<longleftrightarrow> bit (base byte) j" unfolding p(1) mem_bit_at [OF p(2)] using True by simp
        ultimately show ?thesis using v [of "j - cs"] by auto
      next
        case False
        then have "\<not> (8 * byte + cs \<le> p \<and> p < 8 * byte + cs + tk)" using p tk(3) 1(2) by linarith
        moreover have "mem_bit base' p = mem_bit base p" using False unfolding p(1) mem_bit_at [OF p(2)] by (simp add: base'_def)
        ultimately show ?thesis by (simp only: if_False)
      qed
    qed
    have step: "insert_loop src byte cs bl sb base = insert_loop src (byte + 1) 0 (bl - tk) (sb + tk) base'"
      using False by (subst insert_loop.simps) (simp add: Let_def tk_def base'_def)
    have ih: "mem_bit (insert_loop src byte cs bl sb base) p \<longleftrightarrow>
      (if 8 * (byte + 1) + 0 \<le> p \<and> p < 8 * (byte + 1) + 0 + (bl - tk) then bit (bval src) (sb + tk + (p - (8 * (byte + 1) + 0)))
       else mem_bit base' p)"
      unfolding step by (rule "1.IH" [OF False tk_def, folded base'_def]) (use 1(3) tk in simp_all)
    show ?thesis
    proof (cases "tk = bl")
      case True
      then show ?thesis using ih m by (auto split: if_splits)
    next
      case False
      then have t: "tk = 8 - cs" "tk < bl" using tk by auto
      then have "8 * (byte + 1) \<le> p \<Longrightarrow> sb + tk + (p - (8 * (byte + 1) + 0)) = sb + (p - (8 * byte + cs))" using 1(2) by auto
      then show ?thesis using ih m t 1(2) by auto
    qed
  qed
qed

subsection \<open>Whole fields\<close>

lemma div_mod_8: "8 * (off div 8) + off mod 8 = (off :: nat)"
  by simp

lemma extract_bit:
  assumes "width \<le> 64 * n"
  shows "bit (bval (cccc_bitfield_extract base off width n False)) k \<longleftrightarrow> k < width \<and> mem_bit base (off + k)"
    "length (cccc_bitfield_extract base off width n False) = n"
  using extract_loop_bit [of "off mod 8" 0 width "replicate n 0" base "off div 8" k] assms
  by (simp_all add: cccc_bitfield_extract_def Let_def)

lemma insert_bit:
  assumes "width \<le> 64 * length src"
  shows "mem_bit (cccc_bitfield_insert base src off width) p \<longleftrightarrow>
    (if off \<le> p \<and> p < off + width then bit (bval src) (p - off) else mem_bit base p)"
  using insert_loop_bit [of "off mod 8" 0 width src "off div 8" base p] assms by (simp add: cccc_bitfield_insert_def)

lemma extract_signed:
  assumes "0 < width" "width \<le> 64 * n"
  shows "int (bval (cccc_bitfield_extract base off width n True)) =
    signed_take_bit (width - 1) (int (bval (cccc_bitfield_extract base off width n False))) mod 2 ^ (64 * n)"
proof -
  let ?d = "cccc_bitfield_extract base off width n False" and ?cw = "(width + 63) div 64"
  define lowd where "lowd = take ?cw ?d"
  have cw: "?cw \<le> n" "0 < ?cw" using assms by auto
  have d: "dims lowd width" using cw assms(1) extract_bit(2) [OF assms(2)] by (simp add: dims_def lowd_def)
  have ll: "length lowd = ?cw" using d by (simp add: dims_def)
  have "bval ?d < 2 ^ width"
    using extract_bit(1) [OF assms(2), of base off] by (metis (no_types, lifting) bit_eqI bit_take_bit_iff take_bit_nat_less_exp)
  moreover have "(2 :: nat) ^ width \<le> 2 ^ (64 * ?cw)" by (intro power_increasing) auto
  ultimately have "bval ?d < 2 ^ (64 * ?cw)" by (rule less_le_trans)
  then have v: "bval lowd = bval ?d" by (simp add: lowd_def bval_take)
  define ext fill where "ext = sign_extend_top lowd width" and "fill = (if ext ! (?cw - 1) AND push_bit 63 1 \<noteq> 0 then NOT 0 else 0 :: u64)"
  have e: "cccc_bitfield_extract base off width n True = ext @ replicate (n - ?cw) fill"
    by (simp add: cccc_bitfield_extract_def Let_def ext_def fill_def lowd_def)
  have top: "ext ! (?cw - 1) AND push_bit 63 1 \<noteq> 0 \<longleftrightarrow> ival width lowd < 0"
  proof -
    have "bit (bval ext) (64 * (?cw - 1) + 63) \<longleftrightarrow> bit (bval lowd) (min (64 * (?cw - 1) + 63) (width - 1))"
      unfolding ext_def using cw(2) by (intro sign_extend_top_bit [OF d]) (simp add: ll)
    moreover have "min (64 * (?cw - 1) + 63) (width - 1) = width - 1" by auto
    moreover have "bit (bval ext) (64 * (?cw - 1) + 63) \<longleftrightarrow> bit (ext ! (?cw - 1)) 63"
      using bval_bit_at [of 63 ext "?cw - 1"] cw(2) by (simp add: ext_def ll)
    ultimately show ?thesis by (simp add: ival_neg bit_iff_and_push_bit_not_eq_0)
  qed
  have x: "int (bval ext) = (if ival width lowd < 0 then ival width lowd + 2 ^ (64 * ?cw) else ival width lowd)"
    using sign_extend_top_int [OF d] by (simp add: ext_def ll)
  have iv: "ival width lowd = signed_take_bit (width - 1) (int (bval ?d))" by (simp add: ival_def v)
  have NM: "(2 :: int) ^ (64 * ?cw) \<le> 2 ^ (64 * n)" using cw(1) by (intro power_increasing) auto
  note b = ival_small [OF d, unfolded ll]
  have p: "(2 :: int) ^ (64 * ?cw) * 2 ^ (64 * (n - ?cw)) = 2 ^ (64 * n)" using cw(1) by (simp flip: power_add)
  show ?thesis
  proof (cases "ival width lowd < 0")
    case True
    have "int (bval (ext @ replicate (n - ?cw) fill)) =
        ival width lowd + 2 ^ (64 * ?cw) + 2 ^ (64 * ?cw) * (2 ^ (64 * (n - ?cw)) - 1)"
      using True top x by (simp add: fill_def bval_append bval_ones [simplified] ext_def ll)
    also have "\<dots> = ival width lowd + 2 ^ (64 * n)" unfolding p [symmetric] by (simp add: algebra_simps)
    also have "\<dots> = ival width lowd mod 2 ^ (64 * n)"
      using True b(1) NM by (intro mod_neg_small [symmetric]) linarith+
    finally show ?thesis unfolding e iv .
  next
    case False
    have "int (bval (ext @ replicate (n - ?cw) fill)) = ival width lowd"
      using False top x by (simp add: fill_def bval_append)
    also have "\<dots> = ival width lowd mod 2 ^ (64 * n)"
      using False b(2) NM by (intro mod_pos_pos_trivial [symmetric]) linarith+
    finally show ?thesis unfolding e iv .
  qed
qed

subsection \<open>Properties\<close>

text \<open>
  C39: Writing a value into a wide bit-field and reading the field back gives the low
  \<open>width\<close> bits of the value, zero- or sign-extended to the whole array, at any bit offset.
\<close>

theorem bitfield_roundtrip:
  assumes "0 < width" "width \<le> 64 * length src" "width \<le> 64 * n"
  shows "bval (cccc_bitfield_extract (cccc_bitfield_insert base src off width) off width n False) = bval src mod 2 ^ width \<and>
    int (bval (cccc_bitfield_extract (cccc_bitfield_insert base src off width) off width n True)) =
      signed_take_bit (width - 1) (int (bval src)) mod 2 ^ (64 * n)"
proof -
  let ?m = "cccc_bitfield_insert base src off width"
  have u: "bval (cccc_bitfield_extract ?m off width n False) = bval src mod 2 ^ width"
    by (rule bval_eqI) (auto simp: extract_bit(1) [OF assms(3)] insert_bit [OF assms(2)] bit_take_bit_iff simp flip: take_bit_eq_mod)
  have "signed_take_bit (width - 1) (int (bval src) mod 2 ^ width) = signed_take_bit (width - 1) (int (bval src))"
  proof -
    have "\<not> width \<le> width - 1" using assms(1) by linarith
    then show ?thesis unfolding take_bit_eq_mod [symmetric] by (simp only: signed_take_bit_take_bit if_False)
  qed
  then show ?thesis using u extract_signed [OF assms(1,3), of ?m off] by (simp add: zmod_int)
qed

theorem bitfield_roundtrip_witness:
  "bval (cccc_bitfield_extract (cccc_bitfield_insert (\<lambda>_. 0) [5, 3] 3 66) 3 66 2 False) = 5 + 3 * 2 ^ 64"
  using bitfield_roundtrip [of 66 "[5, 3]" 2 "\<lambda>_. 0" 3] by simp

text \<open>
  C40: Writing a wide bit-field changes the bits of the field only: every other bit of the
  object, in the bytes it shares with its neighbours as in all others, keeps its value.
\<close>

theorem bitfield_frame:
  assumes "width \<le> 64 * length src" "p < off \<or> off + width \<le> p"
  shows "mem_bit (cccc_bitfield_insert base src off width) p = mem_bit base p"
  using assms(2) by (auto simp: insert_bit [OF assms(1)])

theorem bitfield_frame_witness:
  "mem_bit (cccc_bitfield_insert (\<lambda>_. 255) [0, 0] 3 66) 2 \<and> mem_bit (cccc_bitfield_insert (\<lambda>_. 255) [0, 0] 3 66) 69"
proof -
  have "mem_bit (cccc_bitfield_insert (\<lambda>_. 255) [0, 0] 3 66) 2 = mem_bit (\<lambda>_. 255) 2"
    "mem_bit (cccc_bitfield_insert (\<lambda>_. 255) [0, 0] 3 66) 69 = mem_bit (\<lambda>_. 255) 69"
    by (rule bitfield_frame; simp)+
  then show ?thesis by (simp add: mem_bit_def)
qed

end
