(* ===== verification/Spec2Isabelle.thy ===== *)
theory Spec2Isabelle
  imports Builtin_Props Peep_Flow Peep_Halves HashMap Bitint_Div Bitint_Field
begin

text \<open>
  \<^bold>\<open>A verification development for cccc.\<close> The program compiles C to a 32-bit-word bytecode and runs it on a
  register machine. This library models the part of it where a silent mistake changes what a program
  means: the machine, the per-function bytecode optimiser, the hash map every table of the compiler is
  built on, and the arithmetic of wide \<open>_BitInt\<close> values. All source files named here are under
  \<open>src/src/\<close>.

  \<^bold>\<open>How the parts interact.\<close> The code generator emits words into the text segment. After the last instruction of
  a function, \<open>cg_peep_function\<close> (\<open>codegen_peep.c\<close>) decodes that window, splits it into blocks, and
  rewrites it in rounds: a forward pass under facts about register contents, a backward pass under
  liveness, wrap elimination, and the fusion of neighbouring instructions. What an instruction means to
  the optimiser (\<open>op_spec\<close>, \<open>effects\<close>) has to match what its handler in \<open>ops.c\<close> does; the central
  theorems of the library state that match against the modelled handlers. The run loop in
  \<open>vm.c\<close> fetches a word, looks it up in the handler table and runs the handler. Handlers reach memory
  through the containment check that applies while compile-time code runs.

  \<^bold>\<open>The theories.\<close>
  \<^item> \<^verbatim>\<open>Prelude\<close>: machine integer types, C conversions and limits, generic lemmas, the theorem collections.
  \<^item> \<^verbatim>\<open>Opcodes\<close>: the opcode numbering of \<open>cccc.h\<close> and the operand counts of \<open>internal.h\<close>.
  \<^item> \<^verbatim>\<open>VM_State\<close>: the machine record, operand decoding, the skeletons all handlers share.
  \<^item> \<^verbatim>\<open>VM_Alu\<close>: the handlers of \<open>ops.c\<close> that compute in the general registers: arithmetic, checked
    arithmetic, bitwise operations, shifts, compares, immediates, bit fields, extensions, 32-bit wraps.
    A handler is a function from the machine to a fault or the next machine.
  \<^item> \<^verbatim>\<open>VM_Mem\<close>: loads and stores of the general registers (through a register, indexed, relative to the
    frame) and the containment check. \<^verbatim>\<open>VM_Builtin\<close>: the bit builtins, the overflow builtin, atomic
    accesses, block copy and fill, address loads.
  \<^item> \<^verbatim>\<open>VM_Control\<close>: branches, jump tables, computed gotos, the guest stack, direct calls, the table of the
    152 modelled handlers (of 383 opcodes) and the dispatch step of \<open>vm.c\<close>.
  \<^item> \<^verbatim>\<open>VM_Props\<close>: containment, the zero register, room on the stack, checked arithmetic, division, loads
    and stores. \<^verbatim>\<open>Builtin_Props\<close>: containment of the builtins' stores, the overflow builtin, bit scans.
  \<^item> \<^verbatim>\<open>Alu_Spec\<close>: the pure arithmetic instructions as one table of functions, the form in which the
    optimiser's theories use their handlers.
  \<^item> \<^verbatim>\<open>Peep_Insn\<close>: decoding, \<open>op_spec\<close>, \<open>effects\<close>, \<open>ctrl_kind\<close>.
  \<^item> \<^verbatim>\<open>Peep_Facts\<close>, \<^verbatim>\<open>Peep_Fold\<close>, \<^verbatim>\<open>Peep_Forward\<close>, \<^verbatim>\<open>Peep_Transfer\<close>,
    \<^verbatim>\<open>Peep_Edit\<close>: intervals, extension masks and copies, their meet, widening and narrowing; constant
    folding; one round of \<open>forward_block\<close>; soundness of the facts and of each rewrite.
  \<^item> \<^verbatim>\<open>Dataflow\<close>: the interface of an iterative data-flow analysis as a locale, with termination and
    solution lemmas; interpreted by liveness and by the upper-half analysis.
  \<^item> \<^verbatim>\<open>Peep_Live\<close>, \<^verbatim>\<open>Peep_Cfg\<close>, \<^verbatim>\<open>Peep_Block\<close>: the backward transfer and its soundness; leaders,
    blocks, successors, liveness, unreachable code; liveness against block execution.
  \<^item> \<^verbatim>\<open>Peep_Fuse\<close>, \<^verbatim>\<open>Peep_Wrap\<close>: the opcodes that fused pairs get, and the analysis of upper register
    halves behind wrap elimination.
  \<^item> \<^verbatim>\<open>Peep_Local\<close>: running a block whose text is rewritten on the way. The locale \<open>opaque_code\<close> is the
    contract of whatever runs behind an instruction the optimiser does not understand; its lemmas replace,
    delete and move instructions.
  \<^item> \<^verbatim>\<open>Peep_Back\<close>, \<^verbatim>\<open>Peep_Backward\<close>: \<open>backward_block\<close> with \<open>try_retarget\<close>, \<open>try_imm_fold\<close> and
    \<open>drop_branch_ext\<close>, and the proof that a block computes what it did; the contract is interpreted on
    the jump and fused-branch handlers.
  \<^item> \<^verbatim>\<open>Peep_Sources\<close>, \<^verbatim>\<open>Peep_Walk\<close>, \<^verbatim>\<open>Peep_Round\<close>, \<^verbatim>\<open>Peep_Settled\<close>: \<open>forward_block\<close> over a
    whole block. \<open>Peep_Sources\<close> checks the read roles of \<open>op_spec\<close> against the handlers, \<open>Peep_Walk\<close> follows one
    known instruction through the stages of the pass, \<open>Peep_Round\<close> adds branches and code the optimiser does
    not understand and walks the block, \<open>Peep_Settled\<close> shows what the backward pass relies on and joins the
    two passes.
  \<^item> \<^verbatim>\<open>Peep_Entry\<close>, \<^verbatim>\<open>Peep_Flow\<close>: the facts at the start of every block, by widening and narrowing over the
    graph, and their soundness for every machine that reaches the block along its edges.
  \<^item> \<^verbatim>\<open>Peep_Pairs\<close>, \<^verbatim>\<open>Peep_Fusions\<close>, \<^verbatim>\<open>Peep_Branches\<close>: the walks that fuse neighbouring instructions. The
    locale \<open>pair_fusion\<close> is the contract of a function that fuses two instructions, met by the wrap and
    the bit-field fusion; compare-and-branch fusion has its own walk.
  \<^item> \<^verbatim>\<open>Peep_Halves\<close>: wrap elimination over a block.
  \<^item> \<^verbatim>\<open>HashMap\<close>: \<open>hashmap.c\<close>, both key kinds, with a locale for the map contract and its two
    interpretations.
  \<^item> \<^verbatim>\<open>Bitint\<close>, \<^verbatim>\<open>Bitint_Div\<close>, \<^verbatim>\<open>Bitint_Ops\<close>, \<^verbatim>\<open>Bitint_Field\<close>:
    \<open>stdlib/wide_bitint/runtime.c\<close>; a value is a list of 64-bit words, its meaning a number.

  \<^bold>\<open>State.\<close> The C \<open>VirtualMachine\<close> is the record \<open>vm\<close>: registers are a function from register number to
  \<open>64 word\<close>, memory a function from address to byte, the text segment a function from word index to word.
  A fault (division by zero, containment, an overflow of checked arithmetic) is a value of \<open>vm_fault\<close>.
  C undefined behaviour that a handler does not guard is the fault \<open>Host_UB\<close>. An opcode of the instruction
  set without a modelled handler ends a run of the model with \<open>Not_Modelled\<close>, so a theorem about a step or
  a run that goes on speaks of the modelled opcodes only. The optimiser's \<open>Peep\<close> is
  the record \<open>peep\<close>; its functions take the text and return the changed text.

  \<^bold>\<open>Parameters.\<close> \<open>host_ranges\<close> answers how many bytes of host memory are readable or writable at an address,
  and \<open>committer\<close> whether the operating system backs a grown stack; both stand for calls into the host.
  \<open>opaque\<close> is the effect of an instruction the optimiser does not understand (a call, a store of the
  floating-point unit): the block theorems hold for every such function that meets the contract of
  \<open>opaque_code\<close>.

  \<^bold>\<open>Loops and bounds.\<close> Loops over lists or indices are structural or carry a measure. The liveness and
  upper-half iterations are partial in C; here they are bounded sweeps shown to reach a solution
  (\<open>liveness_terminates\<close>, \<open>upper_halves_terminate\<close>). The iteration of the entry facts is cut off after
  256 passes, as in the code, which then falls back to the seed. The quotient-digit correction of the wide
  division is proved to need at most two rounds.

  \<^bold>\<open>Not modelled.\<close> Of the interpreter, 231 of the 383 opcodes have no handler here:
  \<^item> everything on floating-point and vector registers (arithmetic, compares, conversions, loads, stores),
    which needs IEEE arithmetic this library does not have;
  \<^item> frames and indirect calls: \<open>ENT3\<close>, \<open>LEV3\<close>, \<open>CALLT\<close>, \<open>CALLI\<close>, \<open>CALLN\<close>, \<open>CALLF\<close>, \<open>SETJMP\<close>, \<open>LONGJMP\<close>,
    \<open>RETADDR\<close>, \<open>RETBUF\<close>, \<open>STKTAG\<close>, \<open>LDHA3\<close>, whose handlers keep the tables of the optional safety checks or call
    native code; signals and dynamic loading;
  \<^item> the heap and the safety checks on pointers: \<open>MALC\<close> to \<open>PMEMA\<close>, \<open>MFRE\<close>, the \<open>CHK\<close> and \<open>MARK\<close> opcodes,
    \<open>SCOPEIN\<close>, \<open>SCOPEOUT\<close>, \<open>DYNOBJSZ\<close>;
  \<^item> the multi-word and decimal opcodes, which pass pointers to \<open>runtime.c\<close> and to the decimal library. The
    multi-word routines themselves are modelled, on lists of words, but not the opcodes that call them.

  The modelled handlers are those of a run with the debugger, the profiler, the race and watchpoint hooks and
  the safety checks off. In the optimiser, float registers are modelled, but theorems about running blocks are
  restricted to instructions with a modelled handler and to what runs behind \<open>opaque\<close>. The conversions of
  \<open>_BitInt\<close> to and from \<open>double\<close> are left out with the floating-point unit.
  The preprocessor, parser, type checker, code generator and serialisers work on mutable heap graphs
  shared across most of the source and are left out as a whole, and so are the build driver, the
  standard-library wrappers and the vendored files. Allocation failure, which ends the process, is left
  out everywhere. Of the optimiser, the compaction of the rewritten text and the driver that repeats the
  passes are left out.
\<close>

end
